(* ===== verification/Prelude.thy ===== *)
theory Prelude
  imports Main "HOL-Library.Monad_Syntax"
begin

text \<open>
  Shared vocabulary of the development.

  The C++ code aborts on a failed \<^verbatim>\<open>GGML_ASSERT\<close> or \<^verbatim>\<open>assert\<close>; the model makes the abort
  visible as \<^term>\<open>None\<close> in the option monad.  A statement of the form
  \<open>op s = Some s'\<close> therefore also says that no assertion of the operation fires.
  Counted \<^verbatim>\<open>for\<close> loops are \<open>for_loop\<close> over the list of indices.
  \<^verbatim>\<open>std::map\<close> is a strictly sorted association list (\<open>omap\<close>), so that \<^verbatim>\<open>begin()\<close> and
  \<^verbatim>\<open>rbegin()\<close> are its first and last entry.
\<close>

named_theorems step_simps \<open>unfolding rules for the monadic operations\<close>

type_synonym llama_pos = int
type_synonym llama_seq_id = int
type_synonym llama_token = int
type_synonym seq_set_t = "int set"

definition LLAMA_MAX_SEQ :: nat where
  "LLAMA_MAX_SEQ = 256"

definition INT32_MAX :: int where
  "INT32_MAX = 2 ^ 31 - 1"

text \<open>
  Positions, shifts and sequence ids are \<^verbatim>\<open>int32_t\<close>, sizes and offsets of cells \<^verbatim>\<open>uint32_t\<close>; the model reads
  them as integers and naturals.  Where the code computes with them, \<open>to_i32\<close> and \<open>to_u32\<close> bring the result
  back to the width: unsigned arithmetic wraps, and so does signed arithmetic on the machines the code runs
  on (in the standard it is undefined, and the theorems ask for results in range).
\<close>

definition i32_ok :: "int \<Rightarrow> bool" where
  "i32_ok x \<longleftrightarrow> - (2 ^ 31) \<le> x \<and> x < 2 ^ 31"

definition to_i32 :: "int \<Rightarrow> int" where
  "to_i32 x = (x + 2 ^ 31) mod 2 ^ 32 - 2 ^ 31"

definition to_u32 :: "nat \<Rightarrow> nat" where
  "to_u32 x = x mod 2 ^ 32"

lemma to_i32_id [simp]: "i32_ok x \<Longrightarrow> to_i32 x = x"
  by (simp add: i32_ok_def to_i32_def)

lemma i32_ok_numeral [simp]: "i32_ok (numeral k) \<longleftrightarrow> numeral k < (2147483648 :: int)"
  by (simp add: i32_ok_def)

lemma i32_ok_to_i32 [simp]: "i32_ok (to_i32 x)"
  using pos_mod_sign[of "2 ^ 32" "x + 2 ^ 31"] pos_mod_bound[of "2 ^ 32" "x + 2 ^ 31"]
  by (simp add: i32_ok_def to_i32_def)

lemma to_i32_add [simp]: "to_i32 (to_i32 x + y) = to_i32 (x + y)"
proof -
  have "to_i32 x + y + 2 ^ 31 = (x + 2 ^ 31) mod 2 ^ 32 + y" by (simp add: to_i32_def)
  moreover have "((x + 2 ^ 31) mod 2 ^ 32 + y) mod 2 ^ 32 = (x + 2 ^ 31 + y) mod 2 ^ 32" by (rule mod_add_left_eq)
  moreover have "x + 2 ^ 31 + y = x + y + 2 ^ 31" by simp
  ultimately show ?thesis unfolding to_i32_def[of "to_i32 x + y"] to_i32_def[of "x + y"] by presburger
qed

lemma to_i32_le: "0 \<le> x \<Longrightarrow> to_i32 x \<le> x"
  using zmod_le_nonneg_dividend[of "x + 2 ^ 31" "2 ^ 32"] by (simp add: to_i32_def)

lemma i32_okI: "0 \<le> x \<Longrightarrow> x \<le> INT32_MAX \<Longrightarrow> i32_ok x"
  by (simp add: i32_ok_def INT32_MAX_def)

lemma to_u32_id [simp]: "x < 2 ^ 32 \<Longrightarrow> to_u32 x = x"
  by (simp add: to_u32_def)

lemma to_u32_le: "to_u32 x \<le> x"
  by (simp add: to_u32_def)

text \<open>
  C++ division rounds towards zero: the quotient of the absolute values, negated when exactly one operand is
  negative.
\<close>

definition cxx_div :: "int \<Rightarrow> int \<Rightarrow> int" where
  "cxx_div x d = (let q = \<bar>x\<bar> div \<bar>d\<bar> in if (x < 0) = (d < 0) then q else - q)"

lemma cxx_div_nonneg: "0 \<le> x \<Longrightarrow> 0 < d \<Longrightarrow> cxx_div x d = x div d"
  by (simp add: cxx_div_def Let_def)

lemma cxx_div_2_le: "x \<le> n \<Longrightarrow> 0 \<le> n \<Longrightarrow> cxx_div x 2 \<le> n"
  by (cases "0 \<le> x") (auto simp: cxx_div_def Let_def)

text \<open>\<^verbatim>\<open>((x) + (n) - 1) & ~((n) - 1)\<close>; clearing the bits of \<open>m\<close> in \<open>a\<close> is \<open>a - (a AND m)\<close>.\<close>

definition GGML_PAD :: "nat \<Rightarrow> nat \<Rightarrow> nat" where
  "GGML_PAD x n = (x + n - 1) - and (x + n - 1) (n - 1)"

lemma GGML_PAD_power:
  "GGML_PAD x (2 ^ k) = ((x + 2 ^ k - 1) div 2 ^ k) * 2 ^ k"
proof -
  let ?a = "x + 2 ^ k - 1"
  have "and ?a (2 ^ k - 1) = ?a mod 2 ^ k" by (metis mask_eq_exp_minus_1 take_bit_eq_mask take_bit_eq_mod)
  then show ?thesis by (simp add: GGML_PAD_def minus_mod_eq_div_mult)
qed

section \<open>Assertions and loops\<close>

definition require :: "bool \<Rightarrow> unit option" where
  "require b = (if b then Some () else None)"

lemma require_simps [simp]:
  "require True = Some ()"
  "require False = None"
  by (simp_all add: require_def)

lemma bind_require [simp]:
  "Option.bind (require b) f = (if b then f () else None)"
  by (simp add: require_def)

fun for_loop :: "('a \<Rightarrow> 's \<Rightarrow> 's option) \<Rightarrow> 'a list \<Rightarrow> 's \<Rightarrow> 's option" where
  "for_loop f [] s = Some s"
| "for_loop f (x # xs) s = (case f x s of None \<Rightarrow> None | Some t \<Rightarrow> for_loop f xs t)"

lemma for_loop_append:
  "for_loop f (xs @ ys) s = Option.bind (for_loop f xs s) (for_loop f ys)"
  by (induction xs arbitrary: s) (auto split: option.splits)

lemma for_loop_skip:
  "(\<And>x. x \<in> set xs \<Longrightarrow> f x s = Some s) \<Longrightarrow> for_loop f xs s = Some s"
  by (induction xs) auto

lemma for_loop_cong:
  "xs = ys \<Longrightarrow> (\<And>x s. x \<in> set ys \<Longrightarrow> f x s = g x s) \<Longrightarrow> for_loop f xs s = for_loop g ys s"
  by (induction ys arbitrary: xs s) (auto split: option.splits)

text \<open>
  The loop rule: an indexed invariant that holds initially, and that the body of iteration
  \<open>i\<close> takes from \<open>i\<close> to \<open>i + 1\<close> without aborting, holds after the loop, which does not abort.
\<close>

lemma for_upt_rule:
  assumes "I 0 s"
    and "\<And>i s. i < n \<Longrightarrow> I i s \<Longrightarrow> \<exists>s'. f i s = Some s' \<and> I (Suc i) s'"
  shows "\<exists>s'. for_loop f [0..<n] s = Some s' \<and> I n s'"
proof -
  have "m \<le> n \<Longrightarrow> \<exists>s'. for_loop f [0..<m] s = Some s' \<and> I m s'" for m
  proof (induction m)
    case 0
    show ?case using assms(1) by simp
  next
    case (Suc m)
    then obtain t where t: "for_loop f [0..<m] s = Some t" "I m t" by auto
    with assms(2)[of m t] Suc.prems obtain u where "f m t = Some u" "I (Suc m) u" by auto
    with t show ?case by (simp add: for_loop_append)
  qed
  then show ?thesis by simp
qed

text \<open>The same rule for a loop over the elements of a list: the invariant speaks of the done prefix.\<close>

lemma for_list_rule:
  assumes "I [] s"
    and "\<And>done x rest s. xs = done @ x # rest \<Longrightarrow> I done s \<Longrightarrow> \<exists>s'. f x s = Some s' \<and> I (done @ [x]) s'"
  shows "\<exists>s'. for_loop f xs s = Some s' \<and> I xs s'"
proof -
  have "xs = ds @ rs \<Longrightarrow> I ds t \<Longrightarrow> \<exists>s'. for_loop f rs t = Some s' \<and> I xs s'" for ds rs t
  proof (induction rs arbitrary: ds t)
    case Nil
    then show ?case by simp
  next
    case (Cons r rs)
    with assms(2)[of ds r rs t] obtain u where u: "f r t = Some u" "I (ds @ [r]) u" by auto
    with Cons.IH[of "ds @ [r]" u] Cons.prems show ?case by simp
  qed
  from this[of "[]" xs s] assms(1) show ?thesis by simp
qed

text \<open>Partial-correctness version, for loops that may abort.\<close>

lemma for_loop_inv:
  assumes "for_loop f xs s = Some s'" "I s"
    and "\<And>x t t'. x \<in> set xs \<Longrightarrow> I t \<Longrightarrow> f x t = Some t' \<Longrightarrow> I t'"
  shows "I s'"
  using assms
proof (induction xs arbitrary: s)
  case (Cons x xs)
  from Cons.prems(1) obtain t where t: "f x s = Some t" "for_loop f xs t = Some s'"
    by (auto split: option.splits)
  from Cons.prems(2,3) t(1) have "I t" by (meson list.set_intros(1))
  with Cons.IH[OF t(2)] Cons.prems(3) show ?case by (meson list.set_intros(2))
qed simp

section \<open>Ordered maps\<close>

type_synonym omap = "(int \<times> int) list"

fun omap_put :: "int \<Rightarrow> int \<Rightarrow> omap \<Rightarrow> omap" where
  "omap_put k v [] = [(k, v)]"
| "omap_put k v (e # m) =
     (if fst e < k then e # omap_put k v m
      else if fst e = k then (k, v) # m
      else (k, v) # e # m)"

definition omap_del :: "int \<Rightarrow> omap \<Rightarrow> omap" where
  "omap_del k m = filter (\<lambda>e. fst e \<noteq> k) m"

definition omap_get :: "omap \<Rightarrow> int \<Rightarrow> int" where
  "omap_get m k = (case map_of m k of None \<Rightarrow> 0 | Some v \<Rightarrow> v)"

definition omap_ok :: "omap \<Rightarrow> bool" where
  "omap_ok m \<longleftrightarrow> sorted_wrt (<) (map fst m) \<and> (\<forall>e \<in> set m. 0 < snd e)"

lemma omap_ok_Nil [simp]: "omap_ok []"
  by (simp add: omap_ok_def)

lemma omap_get_Nil [simp]: "omap_get [] k = 0"
  by (simp add: omap_get_def)

lemma omap_ok_distinct: "omap_ok m \<Longrightarrow> distinct (map fst m)"
  by (auto simp: omap_ok_def strict_sorted_iff)

lemma map_of_omap_put: "map_of (omap_put k v m) = (map_of m)(k \<mapsto> v)"
  by (induction m) auto

lemma omap_get_put [simp]: "omap_get (omap_put k v m) j = (if j = k then v else omap_get m j)"
  by (simp add: omap_get_def map_of_omap_put)

lemma map_of_omap_del: "map_of (omap_del k m) j = (if j = k then None else map_of m j)"
  by (induction m) (auto simp: omap_del_def)

lemma omap_get_del [simp]: "omap_get (omap_del k m) j = (if j = k then 0 else omap_get m j)"
  by (simp add: omap_get_def map_of_omap_del)

lemma fst_set_omap_put: "fst ` set (omap_put k v m) = insert k (fst ` set m)"
  by (induction m) auto

lemma snd_set_omap_put: "snd ` set (omap_put k v m) \<subseteq> insert v (snd ` set m)"
  by (induction m) auto

lemma sorted_omap_put:
  "sorted_wrt (<) (map fst m) \<Longrightarrow> sorted_wrt (<) (map fst (omap_put k v m))"
proof (induction m)
  case (Cons e m)
  have keys: "set (map fst (omap_put k v m)) = insert k (set (map fst m))"
    using fst_set_omap_put[of k v m] by simp
  from Cons show ?case
    by (auto simp: keys simp del: set_map)
qed simp

lemma omap_ok_put [simp, intro]: "omap_ok m \<Longrightarrow> 0 < v \<Longrightarrow> omap_ok (omap_put k v m)"
  using snd_set_omap_put[of k v m] by (fastforce simp: omap_ok_def sorted_omap_put)

lemma omap_ok_del [simp, intro]: "omap_ok m \<Longrightarrow> omap_ok (omap_del k m)"
  by (auto simp: omap_ok_def omap_del_def sorted_wrt_filter sorted_wrt_map)

lemma omap_get_pos_iff: "omap_ok m \<Longrightarrow> 0 < omap_get m k \<longleftrightarrow> k \<in> fst ` set m"
  by (force simp: omap_ok_def omap_get_def map_of_eq_None_iff dest!: map_of_SomeD split: option.splits)

lemma omap_get_nonneg: "omap_ok m \<Longrightarrow> 0 \<le> omap_get m k"
  by (force simp: omap_ok_def omap_get_def dest!: map_of_SomeD split: option.splits)

lemma map_of_omap: "omap_ok m \<Longrightarrow> map_of m k = (if 0 < omap_get m k then Some (omap_get m k) else None)"
  by (force simp: omap_ok_def omap_get_def dest!: map_of_SomeD split: option.splits)

text \<open>A well-formed ordered map is determined by its counts.\<close>

lemma omap_eqI:
  assumes "omap_ok m" "omap_ok m'" "\<And>k. omap_get m k = omap_get m' k"
  shows "m = m'"
proof -
  have eq: "map_of m = map_of m'"
    using assms by (auto simp: map_of_omap)
  have "set (map fst m) = set (map fst m')"
    using eq by (metis dom_map_of_conv_image_fst set_map)
  then have keys: "map fst m = map fst m'"
    using assms by (metis omap_ok_def strict_sorted_equal)
  have "m ! i = m' ! i" if "i < length m" for i
  proof -
    have *: "map_of m (fst (m ! i)) = Some (snd (m ! i))"
      using that omap_ok_distinct[OF assms(1)] by (simp add: map_of_is_SomeI)
    have l: "length m = length m'" using keys by (metis length_map)
    have f: "fst (m ! i) = fst (m' ! i)" using that keys l by (metis nth_map)
    have "map_of m' (fst (m' ! i)) = Some (snd (m' ! i))"
      using that l omap_ok_distinct[OF assms(2)] by (simp add: map_of_is_SomeI)
    with * f eq show ?thesis by (simp add: prod_eq_iff)
  qed
  then show ?thesis using keys by (metis length_map nth_equalityI)
qed

text \<open>First and last key are the least and the greatest key present.\<close>

lemma omap_hd_Min:
  assumes "omap_ok m" "m \<noteq> []"
  shows "fst (hd m) = Min (fst ` set m)"
proof (rule Min_eqI[symmetric])
  show "fst (hd m) \<le> k" if "k \<in> fst ` set m" for k
    using assms that by (cases m) (auto simp: omap_ok_def)
qed (use assms in auto)

lemma omap_last_Max:
  assumes "omap_ok m" "m \<noteq> []"
  shows "fst (last m) = Max (fst ` set m)"
proof (rule Max_eqI[symmetric])
  from assms(2) obtain e m' where m: "m = m' @ [e]" by (cases m rule: rev_cases) auto
  show "k \<le> fst (last m)" if "k \<in> fst ` set m" for k
    using assms(1) that unfolding m by (auto simp: omap_ok_def sorted_wrt_append)
qed (use assms in auto)

end
