(* ===== verification/Hparams.thy ===== *)
theory Hparams
  imports Prelude "HOL-Library.Word"
begin

text \<open>
  \<^verbatim>\<open>src/llama-hparams.cpp\<close> and \<^verbatim>\<open>is_masked_swa\<close> of \<^verbatim>\<open>src/llama-hparams.h\<close>: the queries on the model
  hyper-parameters.  Dimensions are \<^verbatim>\<open>uint32_t\<close> and stay 32-bit words (products wrap); layer
  indices are naturals.  \<^verbatim>\<open>GGML_ABORT\<close> is \<^term>\<open>None\<close>.  Of the fields of the struct only those that
  these functions read are kept.
\<close>

type_synonym u32 = "32 word"

datatype llama_swa_type =
    LLAMA_SWA_TYPE_NONE
  | LLAMA_SWA_TYPE_STANDARD
  | LLAMA_SWA_TYPE_CHUNKED
  | LLAMA_SWA_TYPE_SYMMETRIC

datatype llama_rope_type =
    LLAMA_ROPE_TYPE_NONE
  | LLAMA_ROPE_TYPE_NORM
  | LLAMA_ROPE_TYPE_NEOX
  | LLAMA_ROPE_TYPE_MROPE
  | LLAMA_ROPE_TYPE_IMROPE
  | LLAMA_ROPE_TYPE_VISION

record llama_hparams =
  hp_n_embd :: u32
  hp_n_layer :: nat
  hp_n_layer_kv_from_start :: int
  hp_n_embd_head_k :: u32
  hp_n_embd_head_v :: u32
  hp_n_embd_head_k_mla_impl :: u32
  hp_n_embd_head_v_mla_impl :: u32
  hp_n_shortconv_l_cache :: u32
  hp_n_head_arr :: "u32 list"
  hp_n_head_kv_arr :: "u32 list"
  hp_n_ff_arr :: "u32 list"
  hp_wkv_head_size :: u32
  hp_token_shift_count :: u32
  hp_rope_sections :: "int list"
  hp_swa_type :: llama_swa_type
  hp_n_swa :: nat
  hp_swa_layers :: "bool list"
  hp_ssm_d_conv :: u32
  hp_ssm_d_inner :: u32
  hp_ssm_d_state :: u32
  hp_ssm_n_group :: u32
  hp_n_embd_head_kda :: u32
  hp_recurrent_layer_arr :: "bool list"
  hp_use_alibi :: bool
  hp_n_embd_out_impl :: u32
  hp_n_deepstack_layers :: u32
  hp_rope_type :: llama_rope_type

section \<open>Operations\<close>

definition set_swa_pattern :: "nat \<Rightarrow> bool \<Rightarrow> llama_hparams \<Rightarrow> llama_hparams" where
  "set_swa_pattern n_pattern dense_first hp =
     (if dense_first then
        hp\<lparr>hp_swa_layers := fold (\<lambda>il a. a[il := (n_pattern = 0 \<or> il mod n_pattern \<noteq> 0)])
          [0..<hp_n_layer hp] (hp_swa_layers hp)\<rparr>
      else
        hp\<lparr>hp_swa_layers := fold (\<lambda>il a. a[il := (n_pattern = 0 \<or> il mod n_pattern < n_pattern - 1)])
          [0..<hp_n_layer hp] (hp_swa_layers hp)\<rparr>)"

definition is_swa_any :: "llama_hparams \<Rightarrow> bool" where
  "is_swa_any hp = (\<exists>il \<in> set [0..<hp_n_layer hp]. hp_swa_layers hp ! il)"

definition n_head :: "llama_hparams \<Rightarrow> nat \<Rightarrow> u32 option" where
  "n_head hp il = (if il < hp_n_layer hp then Some (hp_n_head_arr hp ! il) else None)"

definition n_head_kv :: "llama_hparams \<Rightarrow> nat \<Rightarrow> u32 option" where
  "n_head_kv hp il = (if il < hp_n_layer hp then Some (hp_n_head_kv_arr hp ! il) else None)"

definition n_ff :: "llama_hparams \<Rightarrow> nat \<Rightarrow> u32 option" where
  "n_ff hp il = (if il < hp_n_layer hp then Some (hp_n_ff_arr hp ! il) else None)"

definition n_gqa :: "llama_hparams \<Rightarrow> nat \<Rightarrow> u32 option" where
  "n_gqa hp il = do {
     nh \<leftarrow> n_head hp il;
     nh_kv \<leftarrow> n_head_kv hp il;
     if nh_kv = 0 then Some 0 else Some (nh div nh_kv)
   }"

definition n_embd_inp :: "llama_hparams \<Rightarrow> u32" where
  "n_embd_inp hp =
     (if hp_n_deepstack_layers hp > 0 then hp_n_embd hp + hp_n_embd hp * hp_n_deepstack_layers hp
      else hp_n_embd hp)"

definition n_embd_out :: "llama_hparams \<Rightarrow> u32" where
  "n_embd_out hp = (if hp_n_embd_out_impl hp > 0 then hp_n_embd_out_impl hp else hp_n_embd hp)"

definition n_embd_k_gqa :: "llama_hparams \<Rightarrow> nat \<Rightarrow> u32 option" where
  "n_embd_k_gqa hp il = do {
     nh_kv \<leftarrow> n_head_kv hp il;
     Some (hp_n_embd_head_k hp * nh_kv)
   }"

definition n_embd_v_gqa :: "llama_hparams \<Rightarrow> nat \<Rightarrow> u32 option" where
  "n_embd_v_gqa hp il = do {
     nh_kv \<leftarrow> n_head_kv hp il;
     Some (hp_n_embd_head_v hp * nh_kv)
   }"

definition is_n_embd_k_gqa_variable :: "llama_hparams \<Rightarrow> bool option" where
  "is_n_embd_k_gqa_variable hp = do {
     val \<leftarrow> n_embd_k_gqa hp 0;
     Some (\<exists>il \<in> set [0..<hp_n_layer hp]. Some val \<noteq> n_embd_k_gqa hp il)
   }"

definition is_n_embd_v_gqa_variable :: "llama_hparams \<Rightarrow> bool option" where
  "is_n_embd_v_gqa_variable hp = do {
     val \<leftarrow> n_embd_v_gqa hp 0;
     Some (\<exists>il \<in> set [0..<hp_n_layer hp]. Some val \<noteq> n_embd_v_gqa hp il)
   }"

definition n_embd_k_gqa_max :: "llama_hparams \<Rightarrow> u32 option" where
  "n_embd_k_gqa_max hp = do {
     val \<leftarrow> n_embd_k_gqa hp 0;
     for_loop (\<lambda>il val. map_option (max val) (n_embd_k_gqa hp il)) [0..<hp_n_layer hp] val
   }"

definition n_embd_v_gqa_max :: "llama_hparams \<Rightarrow> u32 option" where
  "n_embd_v_gqa_max hp = do {
     val \<leftarrow> n_embd_v_gqa hp 0;
     for_loop (\<lambda>il val. map_option (max val) (n_embd_v_gqa hp il)) [0..<hp_n_layer hp] val
   }"

definition n_embd_r :: "llama_hparams \<Rightarrow> u32 option" where
  "n_embd_r hp =
     (if hp_wkv_head_size hp \<noteq> 0 then Some (hp_token_shift_count hp * hp_n_embd hp)
      else if hp_n_shortconv_l_cache hp \<noteq> 0 then Some (hp_n_embd hp * (hp_n_shortconv_l_cache hp - 1))
      else if hp_n_embd_head_kda hp \<noteq> 0 then do {
        nh \<leftarrow> n_head hp 0;
        let d_inner = nh * hp_n_embd_head_kda hp;
        Some (3 * (if hp_ssm_d_conv hp > 0 then hp_ssm_d_conv hp - 1 else 3) * d_inner)
      }
      else Some ((if hp_ssm_d_conv hp > 0 then hp_ssm_d_conv hp - 1 else 0) *
                 (hp_ssm_d_inner hp + 2 * hp_ssm_n_group hp * hp_ssm_d_state hp)))"

definition n_embd_s :: "llama_hparams \<Rightarrow> u32 option" where
  "n_embd_s hp =
     (if hp_wkv_head_size hp \<noteq> 0 then Some (hp_n_embd hp * hp_wkv_head_size hp)
      else if hp_n_embd_head_kda hp \<noteq> 0 then do {
        nh \<leftarrow> n_head hp 0;
        Some (hp_n_embd_head_kda hp * hp_n_embd_head_kda hp * nh)
      }
      else Some (hp_ssm_d_state hp * hp_ssm_d_inner hp))"

definition is_recurrent :: "llama_hparams \<Rightarrow> nat \<Rightarrow> bool option" where
  "is_recurrent hp il = (if il < hp_n_layer hp then Some (hp_recurrent_layer_arr hp ! il) else None)"

definition n_pos_per_embd :: "llama_hparams \<Rightarrow> nat" where
  "n_pos_per_embd hp =
     (if hp_rope_type hp = LLAMA_ROPE_TYPE_MROPE \<or> hp_rope_type hp = LLAMA_ROPE_TYPE_IMROPE then 4 else 1)"

definition is_swa :: "llama_hparams \<Rightarrow> nat \<Rightarrow> bool option" where
  "is_swa hp il = (if il < hp_n_layer hp then Some (hp_swa_layers hp ! il) else None)"

definition is_mla :: "llama_hparams \<Rightarrow> bool option" where
  "is_mla hp = do {
     require ((hp_n_embd_head_k_mla_impl hp = 0 \<and> hp_n_embd_head_v_mla_impl hp = 0) \<or>
              (hp_n_embd_head_k_mla_impl hp \<noteq> 0 \<and> hp_n_embd_head_v_mla_impl hp \<noteq> 0));
     Some (hp_n_embd_head_k_mla_impl hp \<noteq> 0 \<and> hp_n_embd_head_v_mla_impl hp \<noteq> 0)
   }"

definition n_embd_head_k_mla :: "llama_hparams \<Rightarrow> u32 option" where
  "n_embd_head_k_mla hp =
     map_option (\<lambda>b. if b then hp_n_embd_head_k_mla_impl hp else hp_n_embd_head_k hp) (is_mla hp)"

definition n_embd_head_v_mla :: "llama_hparams \<Rightarrow> u32 option" where
  "n_embd_head_v_mla hp =
     map_option (\<lambda>b. if b then hp_n_embd_head_v_mla_impl hp else hp_n_embd_head_v hp) (is_mla hp)"

definition has_kv :: "llama_hparams \<Rightarrow> nat \<Rightarrow> bool" where
  "has_kv hp il =
     (if hp_n_layer_kv_from_start hp \<ge> 0 then
        (if int il < hp_n_layer_kv_from_start hp then True else False)
      else True)"

definition n_layer_kv :: "llama_hparams \<Rightarrow> nat" where
  "n_layer_kv hp = fold (\<lambda>il res. if has_kv hp il then res + 1 else res) [0..<hp_n_layer hp] 0"

definition use_mrope :: "llama_hparams \<Rightarrow> bool" where
  "use_mrope hp \<longleftrightarrow> hp_rope_sections hp ! 0 > 0 \<and> hp_rope_sections hp ! 1 > 0"

definition is_masked_swa :: "nat \<Rightarrow> llama_swa_type \<Rightarrow> llama_pos \<Rightarrow> llama_pos \<Rightarrow> bool option" where
  "is_masked_swa n_swa swa_type p0 p1 = do {
     require (p0 \<ge> 0 \<and> p1 \<ge> 0);
     (case swa_type of
        LLAMA_SWA_TYPE_NONE \<Rightarrow> Some False
      | LLAMA_SWA_TYPE_STANDARD \<Rightarrow> Some (p1 - p0 \<ge> to_i32 (int n_swa))
      | LLAMA_SWA_TYPE_CHUNKED \<Rightarrow> do {
          require (n_swa \<noteq> 0);
          let pos_chunk_start = (p1 div int n_swa) * int n_swa;
          Some (p0 < pos_chunk_start)
        }
      | LLAMA_SWA_TYPE_SYMMETRIC \<Rightarrow>
          (let half_n_swa = cxx_div (to_i32 (int n_swa)) 2; pos_diff = p1 - p0
           in Some (pos_diff < - half_n_swa \<or> pos_diff > half_n_swa)))
   }"

section \<open>Laws\<close>

lemma fold_list_update_upt:
  "n \<le> length a \<Longrightarrow> fold (\<lambda>i a. a[i := f i]) [0..<n] a = map f [0..<n] @ drop n a"
proof (induction n)
  case (Suc n)
  then have "drop n a = a ! n # drop (Suc n) a" by (simp add: Cons_nth_drop_Suc)
  with Suc show ?case by (simp add: list_update_append)
qed simp

lemma for_loop_max:
  fixes f :: "nat \<Rightarrow> 'a::linorder"
  shows "for_loop (\<lambda>i v. map_option (max v) (Some (f i))) [0..<n] v = Some (Max (insert v (f ` {0..<n})))"
proof (induction n)
  case (Suc n)
  have "insert v (f ` {0..<Suc n}) = insert (f n) (insert v (f ` {0..<n}))"
    by (auto simp: atLeast0_lessThan_Suc)
  then have "Max (insert v (f ` {0..<Suc n})) = max (Max (insert v (f ` {0..<n}))) (f n)"
    by (metis Max_insert finite_atLeastLessThan finite_imageI finite_insert insert_not_empty max.commute)
  with Suc show ?case by (simp add: for_loop_append)
qed simp

lemma n_embd_v_gqa_max_eq:
  assumes "0 < hp_n_layer hp"
  shows "n_embd_v_gqa_max hp =
    Some (Max ((\<lambda>il. hp_n_embd_head_v hp * hp_n_head_kv_arr hp ! il) ` {0..<hp_n_layer hp}))"
proof -
  let ?f = "\<lambda>il. hp_n_embd_head_v hp * hp_n_head_kv_arr hp ! il"
  have "for_loop (\<lambda>il val. map_option (max val) (n_embd_v_gqa hp il)) [0..<hp_n_layer hp] (?f 0)
      = for_loop (\<lambda>il val. map_option (max val) (Some (?f il))) [0..<hp_n_layer hp] (?f 0)"
    by (rule for_loop_cong) (auto simp: n_embd_v_gqa_def n_head_kv_def)
  moreover have "insert (?f 0) (?f ` {0..<hp_n_layer hp}) = ?f ` {0..<hp_n_layer hp}"
    using assms by auto
  ultimately show ?thesis
    using assms for_loop_max[of ?f "hp_n_layer hp" "?f 0"]
    by (simp add: n_embd_v_gqa_max_def n_embd_v_gqa_def n_head_kv_def)
qed

lemma n_layer_kv_count: "n_layer_kv hp = card {il. il < hp_n_layer hp \<and> has_kv hp il}"
proof -
  have "fold (\<lambda>il res. if has_kv hp il then res + 1 else res) [0..<n] 0 = card {il. il < n \<and> has_kv hp il}" for n
  proof (induction n)
    case (Suc n)
    have "{il. il < Suc n \<and> has_kv hp il} =
        (if has_kv hp n then insert n {il. il < n \<and> has_kv hp il} else {il. il < n \<and> has_kv hp il})"
      by (auto simp: less_Suc_eq)
    with Suc show ?case by simp
  qed simp
  then show ?thesis by (simp add: n_layer_kv_def)
qed

text \<open>
  A cell further back than the window (and than any chunk) is masked for every window type, and a
  masked cell of the past stays masked as the sequence grows.
\<close>

lemma swa_cast_le: "to_i32 (int n) \<le> int n" "cxx_div (to_i32 (int n)) 2 \<le> int n"
  using to_i32_le[of "int n"] by (auto intro: cxx_div_2_le)

lemma masked_far:
  assumes "0 \<le> p0" "p0 + int n_swa < p1" "swa_type \<noteq> LLAMA_SWA_TYPE_NONE" "0 < n_swa"
  shows "is_masked_swa n_swa swa_type p0 p1 = Some True"
proof (cases swa_type)
  case LLAMA_SWA_TYPE_CHUNKED
  have "p1 = (p1 div int n_swa) * int n_swa + p1 mod int n_swa" by simp
  moreover have "p1 mod int n_swa < int n_swa" using assms(4) by simp
  ultimately have "p0 < (p1 div int n_swa) * int n_swa" using assms(2) by linarith
  with assms LLAMA_SWA_TYPE_CHUNKED show ?thesis by (simp add: is_masked_swa_def)
next
  case LLAMA_SWA_TYPE_SYMMETRIC
  have "p1 - p0 > cxx_div (to_i32 (int n_swa)) 2" using swa_cast_le(2)[of n_swa] assms(2) by linarith
  with assms LLAMA_SWA_TYPE_SYMMETRIC show ?thesis by (simp add: is_masked_swa_def)
next
  case LLAMA_SWA_TYPE_STANDARD
  have "to_i32 (int n_swa) \<le> p1 - p0" using swa_cast_le(1)[of n_swa] assms(2) by linarith
  with assms LLAMA_SWA_TYPE_STANDARD show ?thesis by (simp add: is_masked_swa_def)
qed (use assms in simp)

lemma masked_defined:
  assumes "0 \<le> p0" "0 \<le> p1" "swa_type = LLAMA_SWA_TYPE_CHUNKED \<longrightarrow> 0 < n_swa"
  shows "\<exists>b. is_masked_swa n_swa swa_type p0 p1 = Some b"
  using assms by (cases swa_type) (auto simp: is_masked_swa_def Let_def)

lemma masked_none: "0 \<le> p0 \<Longrightarrow> 0 \<le> p1 \<Longrightarrow> is_masked_swa n LLAMA_SWA_TYPE_NONE p0 p1 = Some False"
  by (simp add: is_masked_swa_def)

lemma masked_mono:
  assumes "is_masked_swa n_swa swa_type p0 p1 = Some True" "p0 \<le> p1" "p1 \<le> q"
  shows "is_masked_swa n_swa swa_type p0 q = Some True"
proof (cases swa_type)
  case LLAMA_SWA_TYPE_CHUNKED
  then have n: "0 < n_swa" "0 \<le> p0" "p0 < (p1 div int n_swa) * int n_swa"
    using assms by (auto simp: is_masked_swa_def Let_def split: if_splits)
  have "(p1 div int n_swa) * int n_swa \<le> (q div int n_swa) * int n_swa"
    using assms(3) n(1) by (intro mult_right_mono zdiv_mono1) auto
  then have "p0 < (q div int n_swa) * int n_swa" using n(3) by (rule order_less_le_trans[rotated])
  with n(1,2) assms(2,3) LLAMA_SWA_TYPE_CHUNKED show ?thesis by (simp add: is_masked_swa_def)
qed (use assms in \<open>auto simp: is_masked_swa_def Let_def split: if_splits\<close>)

section \<open>Properties\<close>

text \<open>A two-layer model with different numbers of KV heads, for concrete evaluations.\<close>

definition demo_hparams :: llama_hparams where
  "demo_hparams = \<lparr>hp_n_embd = 512, hp_n_layer = 2, hp_n_layer_kv_from_start = -1,
     hp_n_embd_head_k = 64, hp_n_embd_head_v = 64, hp_n_embd_head_k_mla_impl = 0, hp_n_embd_head_v_mla_impl = 0,
     hp_n_shortconv_l_cache = 0, hp_n_head_arr = [8, 8], hp_n_head_kv_arr = [4, 8], hp_n_ff_arr = [2048, 2048],
     hp_wkv_head_size = 0, hp_token_shift_count = 2, hp_rope_sections = [0, 0, 0, 0],
     hp_swa_type = LLAMA_SWA_TYPE_NONE, hp_n_swa = 0, hp_swa_layers = [False, False],
     hp_ssm_d_conv = 0, hp_ssm_d_inner = 0, hp_ssm_d_state = 0, hp_ssm_n_group = 0, hp_n_embd_head_kda = 0,
     hp_recurrent_layer_arr = [False, False], hp_use_alibi = False, hp_n_embd_out_impl = 0,
     hp_n_deepstack_layers = 0, hp_rope_type = LLAMA_ROPE_TYPE_NORM\<rparr>"

text \<open>
  C3. The sliding-window test is monotone and covers what falls out of the window: a cell masked
  for a query that is not before the cell (\<open>p0 \<le> p1\<close>) stays masked for every later query of the sequence,
  and any cell more than \<^verbatim>\<open>n_swa\<close> positions back is masked, for each of the three window types.  This is
  what lets the cache reuse a masked cell and lets the mask be shared between the tokens of a batch.  For a
  cell in the future of the query it does not hold: a symmetric window that masks it then moves over it.
\<close>

theorem swa_mask_monotone:
  assumes "0 \<le> p0" "p0 \<le> p1" "p1 \<le> q" "0 < n_swa" "swa_type \<noteq> LLAMA_SWA_TYPE_NONE"
  shows "(is_masked_swa n_swa swa_type p0 p1 = Some True \<longrightarrow> is_masked_swa n_swa swa_type p0 q = Some True) \<and>
    (p0 + int n_swa < q \<longrightarrow> is_masked_swa n_swa swa_type p0 q = Some True)"
  using assms masked_mono masked_far by blast

theorem swa_mask_monotone_witness:
  "is_masked_swa 8 LLAMA_SWA_TYPE_CHUNKED 5 9 = Some True \<and> is_masked_swa 8 LLAMA_SWA_TYPE_CHUNKED 5 21 = Some True"
proof -
  have a: "is_masked_swa 8 LLAMA_SWA_TYPE_CHUNKED 5 9 = Some True" by (simp add: is_masked_swa_def)
  show ?thesis using a swa_mask_monotone[of 5 9 21 8 LLAMA_SWA_TYPE_CHUNKED] by simp
qed

text \<open>
  C4. \<^verbatim>\<open>n_embd_v_gqa_max\<close>, by which the transposed V cache is padded, is an upper bound of the V
  width of every layer and is the width of some layer; the query does not abort on a model with at
  least one layer.
\<close>

theorem n_embd_v_gqa_max_is_max:
  assumes "0 < hp_n_layer hp"
  shows "\<exists>w. n_embd_v_gqa_max hp = Some w \<and>
    (\<forall>il < hp_n_layer hp. \<exists>u \<le> w. n_embd_v_gqa hp il = Some u) \<and>
    (\<exists>il < hp_n_layer hp. n_embd_v_gqa hp il = Some w)"
proof -
  let ?f = "\<lambda>il. hp_n_embd_head_v hp * hp_n_head_kv_arr hp ! il"
  let ?w = "Max (?f ` {0..<hp_n_layer hp})"
  have v: "n_embd_v_gqa hp il = Some (?f il)" if "il < hp_n_layer hp" for il
    using that by (simp add: n_embd_v_gqa_def n_head_kv_def)
  have "?w \<in> ?f ` {0..<hp_n_layer hp}" using assms by (intro Max_in) auto
  then obtain il where "il < hp_n_layer hp" "?f il = ?w" by (auto simp: image_iff)
  with v n_embd_v_gqa_max_eq[OF assms] show ?thesis by auto
qed

theorem n_embd_v_gqa_max_is_max_witness:
  "n_embd_v_gqa_max demo_hparams = Some 512 \<and> (\<exists>il < 2. n_embd_v_gqa demo_hparams il = Some 512)"
proof -
  have "0 < hp_n_layer demo_hparams" by (simp add: demo_hparams_def)
  from n_embd_v_gqa_max_is_max[OF this] obtain w where w: "n_embd_v_gqa_max demo_hparams = Some w"
    "\<exists>il < hp_n_layer demo_hparams. n_embd_v_gqa demo_hparams il = Some w" by blast
  have "n_embd_v_gqa_max demo_hparams = Some 512"
    by (simp add: n_embd_v_gqa_max_def n_embd_v_gqa_def n_head_kv_def demo_hparams_def upt_rec max_def)
  with w show ?thesis by (simp add: demo_hparams_def)
qed

end
