(* ===== verification/Kv_Cells.thy ===== *)
theory Kv_Cells
  imports Prelude
begin

text \<open>
  \<^verbatim>\<open>src/llama-kv-cells.h\<close>: the metadata of the KV cells of one stream.

  A cell holds a position (-1 when it is empty), a 2D extension, a pending shift and the bitset
  of the sequences that own it.  \<^verbatim>\<open>used\<close> and \<^verbatim>\<open>seq_pos\<close> are redundant indices kept for fast
  queries.  \<open>wf_cells\<close> is the class invariant: the indices agree with the cells.  Every
  operation is shown to keep it and to implement an update of the list of cells
  (\<open>view\<close>), without any of its assertions firing.
\<close>

section \<open>State\<close>

record llama_kv_cell_ext =
  ext_x :: int
  ext_y :: int

definition ext_zero :: llama_kv_cell_ext where
  "ext_zero = \<lparr>ext_x = 0, ext_y = 0\<rparr>"

definition is_2d_gt :: "llama_kv_cell_ext \<Rightarrow> llama_pos \<Rightarrow> llama_pos \<Rightarrow> bool" where
  "is_2d_gt e ox oy \<longleftrightarrow> ext_y e > oy \<or> (ext_y e = oy \<and> ext_x e > ox)"

record llama_kv_cells =
  c_has_shift :: bool
  c_used :: "nat set"
  c_pos :: "llama_pos list"
  c_ext :: "llama_kv_cell_ext list"
  c_shift :: "llama_pos list"
  c_seq :: "seq_set_t list"
  c_seq_pos :: "omap list"

definition cells_new :: llama_kv_cells where
  "cells_new = \<lparr>c_has_shift = False, c_used = {}, c_pos = [], c_ext = [], c_shift = [],
     c_seq = [], c_seq_pos = replicate LLAMA_MAX_SEQ []\<rparr>"

text \<open>\<^verbatim>\<open>std::bitset\<close> of \<^verbatim>\<open>LLAMA_MAX_SEQ\<close> bits; the indexed members throw on an index out of range.\<close>

definition seq_id_ok :: "llama_seq_id \<Rightarrow> bool" where
  "seq_id_ok s \<longleftrightarrow> 0 \<le> s \<and> s < int LLAMA_MAX_SEQ"

definition bitset_test :: "seq_set_t \<Rightarrow> llama_seq_id \<Rightarrow> bool option" where
  "bitset_test B s = (if seq_id_ok s then Some (s \<in> B) else None)"

definition bitset_set :: "seq_set_t \<Rightarrow> llama_seq_id \<Rightarrow> seq_set_t option" where
  "bitset_set B s = (if seq_id_ok s then Some (insert s B) else None)"

definition bitset_reset :: "seq_set_t \<Rightarrow> llama_seq_id \<Rightarrow> seq_set_t option" where
  "bitset_reset B s = (if seq_id_ok s then Some (B - {s}) else None)"

section \<open>Operations\<close>

definition cells_reset :: "llama_kv_cells \<Rightarrow> llama_kv_cells" where
  "cells_reset c = c\<lparr>
     c_pos := map (\<lambda>_. -1) (c_pos c),
     c_ext := map (\<lambda>_. ext_zero) (c_ext c),
     c_shift := map (\<lambda>_. 0) (c_shift c),
     c_seq := map (\<lambda>_. {}) (c_seq c),
     c_has_shift := False,
     c_used := {},
     c_seq_pos := map (\<lambda>_. []) (c_seq_pos c)\<rparr>"

definition cells_reset_shift :: "llama_kv_cells \<Rightarrow> llama_kv_cells" where
  "cells_reset_shift c = c\<lparr>c_has_shift := False, c_shift := map (\<lambda>_. 0) (c_shift c)\<rparr>"

definition cells_size :: "llama_kv_cells \<Rightarrow> nat" where
  "cells_size c = length (c_pos c)"

definition vec_resize :: "nat \<Rightarrow> 'a \<Rightarrow> 'a list \<Rightarrow> 'a list" where
  "vec_resize n d xs = take n xs @ replicate (n - length xs) d"

definition cells_resize :: "nat \<Rightarrow> llama_kv_cells \<Rightarrow> llama_kv_cells" where
  "cells_resize n c = cells_reset (c\<lparr>
     c_pos := vec_resize n 0 (c_pos c),
     c_ext := vec_resize n ext_zero (c_ext c),
     c_shift := vec_resize n 0 (c_shift c),
     c_seq := vec_resize n {} (c_seq c)\<rparr>)"

definition cells_is_empty :: "nat \<Rightarrow> llama_kv_cells \<Rightarrow> bool option" where
  "cells_is_empty i c = do {
     require (i < length (c_pos c));
     require ((c_pos c ! i < 0 \<and> c_pos c ! i = -1) \<or> c_pos c ! i \<ge> 0);
     Some (c_pos c ! i = -1)
   }"

definition cells_get_used :: "llama_kv_cells \<Rightarrow> nat" where
  "cells_get_used c = card (c_used c)"

definition cells_used_min :: "llama_kv_cells \<Rightarrow> nat" where
  "cells_used_min c = (if c_used c = {} then 0 else Min (c_used c))"

definition cells_used_max_p1 :: "llama_kv_cells \<Rightarrow> nat" where
  "cells_used_max_p1 c = (if c_used c = {} then 0 else Max (c_used c) + 1)"

definition cells_get_has_shift :: "llama_kv_cells \<Rightarrow> bool" where
  "cells_get_has_shift c = c_has_shift c"

text \<open>The private helpers that keep \<^verbatim>\<open>seq_pos\<close> in step with the cells.\<close>

definition cells_seq_pos_dec :: "llama_seq_id \<Rightarrow> llama_pos \<Rightarrow> llama_kv_cells \<Rightarrow> llama_kv_cells option" where
  "cells_seq_pos_dec s p c =
     (let m = c_seq_pos c ! nat s in
      case map_of m p of
        None \<Rightarrow> None
      | Some n \<Rightarrow> Some (c\<lparr>c_seq_pos := (c_seq_pos c)[nat s :=
          (if n - 1 = 0 then omap_del p m else omap_put p (n - 1) m)]\<rparr>))"

definition cells_seq_pos_inc :: "llama_seq_id \<Rightarrow> llama_pos \<Rightarrow> llama_kv_cells \<Rightarrow> llama_kv_cells" where
  "cells_seq_pos_inc s p c =
     (let m = c_seq_pos c ! nat s in
      c\<lparr>c_seq_pos := (c_seq_pos c)[nat s := omap_put p (omap_get m p + 1) m]\<rparr>)"

definition cells_seq_pos_rm :: "nat \<Rightarrow> llama_kv_cells \<Rightarrow> llama_kv_cells option" where
  "cells_seq_pos_rm i c =
     for_loop (\<lambda>s d. if int s \<in> c_seq d ! i then cells_seq_pos_dec (int s) (c_pos d ! i) d else Some d)
       [0..<LLAMA_MAX_SEQ] c"

definition cells_seq_pos_add :: "nat \<Rightarrow> llama_kv_cells \<Rightarrow> llama_kv_cells" where
  "cells_seq_pos_add i c =
     fold (\<lambda>s d. if int s \<in> c_seq d ! i then cells_seq_pos_inc (int s) (c_pos d ! i) d else d)
       [0..<LLAMA_MAX_SEQ] c"

text \<open>\<^verbatim>\<open>cp\<close> and \<^verbatim>\<open>set\<close>: snapshot and restore of some cells.\<close>

definition cells_cp_idxs :: "nat list \<Rightarrow> llama_kv_cells \<Rightarrow> llama_kv_cells option" where
  "cells_cp_idxs idxs c = do {
     require (\<forall>idx \<in> set idxs. idx < length (c_pos c));
     require (\<forall>idx \<in> set idxs. c_shift c ! idx = 0);
     let res = cells_resize (length idxs) cells_new;
     Some (res\<lparr>c_pos := map (\<lambda>idx. c_pos c ! idx) idxs,
               c_ext := map (\<lambda>idx. c_ext c ! idx) idxs,
               c_seq := map (\<lambda>idx. c_seq c ! idx) idxs\<rparr>)
   }"

definition cells_cp :: "nat \<Rightarrow> nat \<Rightarrow> llama_kv_cells \<Rightarrow> llama_kv_cells option" where
  "cells_cp i n c = do {
     require (i + n \<le> length (c_pos c));
     cells_cp_idxs [i..<i + n] c
   }"

definition cells_set_step :: "llama_kv_cells \<Rightarrow> nat \<Rightarrow> nat \<Rightarrow> llama_kv_cells \<Rightarrow> llama_kv_cells option" where
  "cells_set_step other idx j c = do {
     require (idx < length (c_pos c));
     let p = c_pos c ! idx;
     let q = c_pos other ! j;
     let c = (if p = -1 \<and> q \<noteq> -1 then c\<lparr>c_used := insert idx (c_used c)\<rparr> else c);
     let c = (if p \<noteq> -1 \<and> q = -1 then c\<lparr>c_used := c_used c - {idx}\<rparr> else c);
     c \<leftarrow> (if p \<noteq> -1 then cells_seq_pos_rm idx c else Some c);
     let c = c\<lparr>c_pos := (c_pos c)[idx := q],
               c_ext := (c_ext c)[idx := c_ext other ! j],
               c_seq := (c_seq c)[idx := c_seq other ! j]\<rparr>;
     let c = (if q \<noteq> -1 then cells_seq_pos_add idx c else c);
     require (c_shift c ! idx = 0);
     Some c
   }"

definition cells_set_idxs :: "nat list \<Rightarrow> llama_kv_cells \<Rightarrow> llama_kv_cells \<Rightarrow> llama_kv_cells option" where
  "cells_set_idxs idxs other c = do {
     require (length idxs = length (c_pos other));
     for_loop (\<lambda>j. cells_set_step other (idxs ! j) j) [0..<length (c_pos other)] c
   }"

definition cells_set :: "nat \<Rightarrow> llama_kv_cells \<Rightarrow> llama_kv_cells \<Rightarrow> llama_kv_cells option" where
  "cells_set i other c = do {
     require (i + length (c_pos other) \<le> length (c_pos c));
     for_loop (\<lambda>j. cells_set_step other (i + j) j) [0..<length (c_pos other)] c
   }"

definition cells_rm :: "nat \<Rightarrow> llama_kv_cells \<Rightarrow> llama_kv_cells option" where
  "cells_rm i c = do {
     require (i < length (c_pos c));
     require (c_pos c ! i \<noteq> -1);
     c \<leftarrow> cells_seq_pos_rm i c;
     Some (c\<lparr>c_seq := (c_seq c)[i := {}],
             c_pos := (c_pos c)[i := -1],
             c_ext := (c_ext c)[i := ext_zero],
             c_shift := (c_shift c)[i := 0],
             c_used := c_used c - {i}\<rparr>)
   }"

definition cells_seq_rm :: "nat \<Rightarrow> llama_seq_id \<Rightarrow> llama_kv_cells \<Rightarrow> (llama_kv_cells \<times> bool) option" where
  "cells_seq_rm i seq_id c = do {
     require (i < length (c_pos c));
     t \<leftarrow> bitset_test (c_seq c ! i) seq_id;
     require t;
     require (c_pos c ! i \<noteq> -1);
     require (seq_id \<ge> 0);
     B \<leftarrow> bitset_reset (c_seq c ! i) seq_id;
     let c = c\<lparr>c_seq := (c_seq c)[i := B]\<rparr>;
     c \<leftarrow> cells_seq_pos_dec seq_id (c_pos c ! i) c;
     if c_seq c ! i = {} then
       Some (c\<lparr>c_pos := (c_pos c)[i := -1],
               c_ext := (c_ext c)[i := ext_zero],
               c_shift := (c_shift c)[i := 0],
               c_used := c_used c - {i}\<rparr>, True)
     else Some (c, False)
   }"

definition cells_seq_keep :: "nat \<Rightarrow> llama_seq_id \<Rightarrow> llama_kv_cells \<Rightarrow> (llama_kv_cells \<times> bool) option" where
  "cells_seq_keep i seq_id c = do {
     require (i < length (c_pos c));
     t \<leftarrow> bitset_test (c_seq c ! i) seq_id;
     if t then do {
       c \<leftarrow> cells_seq_pos_rm i c;
       B \<leftarrow> bitset_set {} seq_id;
       let c = c\<lparr>c_seq := (c_seq c)[i := B]\<rparr>;
       let c = cells_seq_pos_inc seq_id (c_pos c ! i) c;
       Some (c, False)
     }
     else if c_seq c ! i \<noteq> {} then do {
       c \<leftarrow> cells_seq_pos_rm i c;
       Some (c\<lparr>c_seq := (c_seq c)[i := {}],
               c_pos := (c_pos c)[i := -1],
               c_ext := (c_ext c)[i := ext_zero],
               c_shift := (c_shift c)[i := 0],
               c_used := c_used c - {i}\<rparr>, True)
     }
     else do {
       require (c_pos c ! i = -1);
       Some (c, False)
     }
   }"

definition cells_seq_count :: "nat \<Rightarrow> llama_kv_cells \<Rightarrow> nat option" where
  "cells_seq_count i c = do {
     require (i < length (c_pos c));
     require (c_pos c ! i \<noteq> -1);
     Some (card (c_seq c ! i))
   }"

definition cells_seq_has :: "nat \<Rightarrow> llama_seq_id \<Rightarrow> llama_kv_cells \<Rightarrow> bool option" where
  "cells_seq_has i seq_id c = do {
     require (i < length (c_pos c));
     require (seq_id \<ge> 0);
     bitset_test (c_seq c ! i) seq_id
   }"

definition cells_seq_add :: "nat \<Rightarrow> llama_seq_id \<Rightarrow> llama_kv_cells \<Rightarrow> llama_kv_cells option" where
  "cells_seq_add i seq_id c = do {
     require (i < length (c_pos c));
     require (c_pos c ! i \<noteq> -1);
     t \<leftarrow> bitset_test (c_seq c ! i) seq_id;
     require (\<not> t);
     B \<leftarrow> bitset_set (c_seq c ! i) seq_id;
     let c = c\<lparr>c_seq := (c_seq c)[i := B]\<rparr>;
     Some (cells_seq_pos_inc seq_id (c_pos c ! i) c)
   }"

definition cells_seq_get :: "nat \<Rightarrow> llama_kv_cells \<Rightarrow> llama_seq_id option" where
  "cells_seq_get i c = do {
     require (i < length (c_pos c));
     require (card (c_seq c ! i) = 1);
     Some (case find (\<lambda>s. int s \<in> c_seq c ! i) [0..<LLAMA_MAX_SEQ] of
             Some s \<Rightarrow> int s
           | None \<Rightarrow> -1)
   }"

definition cells_seq_pos_min :: "llama_seq_id \<Rightarrow> llama_kv_cells \<Rightarrow> llama_pos option" where
  "cells_seq_pos_min seq_id c = do {
     require (seq_id \<ge> 0);
     require (seq_id < int LLAMA_MAX_SEQ);
     let m = c_seq_pos c ! nat seq_id;
     if m = [] then Some (-1)
     else do {
       require (snd (hd m) > 0);
       Some (fst (hd m))
     }
   }"

definition cells_seq_pos_max :: "llama_seq_id \<Rightarrow> llama_kv_cells \<Rightarrow> llama_pos option" where
  "cells_seq_pos_max seq_id c = do {
     require (seq_id \<ge> 0);
     require (seq_id < int LLAMA_MAX_SEQ);
     let m = c_seq_pos c ! nat seq_id;
     if m = [] then Some (-1)
     else do {
       require (snd (last m) > 0);
       Some (fst (last m))
     }
   }"

definition cells_pos_get :: "nat \<Rightarrow> llama_kv_cells \<Rightarrow> llama_pos option" where
  "cells_pos_get i c = do {
     require (i < length (c_pos c));
     require (c_pos c ! i \<noteq> -1);
     Some (c_pos c ! i)
   }"

definition cells_ext_get :: "nat \<Rightarrow> llama_kv_cells \<Rightarrow> llama_kv_cell_ext option" where
  "cells_ext_get i c = do {
     require (i < length (c_pos c));
     require (c_pos c ! i \<noteq> -1);
     Some (c_ext c ! i)
   }"

definition cells_get_shift :: "nat \<Rightarrow> llama_kv_cells \<Rightarrow> llama_pos option" where
  "cells_get_shift i c = do {
     require (i < length (c_pos c));
     require (c_pos c ! i \<noteq> -1);
     Some (c_shift c ! i)
   }"

definition cells_pos_in :: "nat \<Rightarrow> llama_pos \<Rightarrow> llama_pos \<Rightarrow> llama_kv_cells \<Rightarrow> bool option" where
  "cells_pos_in i p0 p1 c = do {
     require (i < length (c_pos c));
     Some (c_pos c ! i \<ge> p0 \<and> c_pos c ! i < p1)
   }"

definition cells_pos_set :: "nat \<Rightarrow> llama_pos \<Rightarrow> llama_kv_cells \<Rightarrow> llama_kv_cells option" where
  "cells_pos_set i p c = do {
     require (i < length (c_pos c));
     require (c_pos c ! i = -1);
     require (c_seq c ! i = {});
     Some (c\<lparr>c_pos := (c_pos c)[i := p], c_used := insert i (c_used c)\<rparr>)
   }"

definition cells_ext_set :: "nat \<Rightarrow> llama_kv_cell_ext \<Rightarrow> llama_kv_cells \<Rightarrow> llama_kv_cells option" where
  "cells_ext_set i e c = do {
     require (i < length (c_ext c));
     Some (c\<lparr>c_ext := (c_ext c)[i := e]\<rparr>)
   }"

definition cells_pos_add :: "nat \<Rightarrow> llama_pos \<Rightarrow> llama_kv_cells \<Rightarrow> (llama_kv_cells \<times> bool) option" where
  "cells_pos_add i d c = do {
     require (i < length (c_pos c));
     require (c_pos c ! i \<noteq> -1);
     c \<leftarrow> cells_seq_pos_rm i c;
     let c = c\<lparr>c_pos := (c_pos c)[i := to_i32 (c_pos c ! i + d)],
               c_shift := (c_shift c)[i := to_i32 (c_shift c ! i + d)],
               c_has_shift := True\<rparr>;
     if c_pos c ! i < 0 then
       Some (c\<lparr>c_seq := (c_seq c)[i := {}],
               c_pos := (c_pos c)[i := -1],
               c_shift := (c_shift c)[i := 0],
               c_used := c_used c - {i}\<rparr>, True)
     else Some (cells_seq_pos_add i c, False)
   }"

text \<open>Division by zero is a trap.\<close>

definition cells_pos_div :: "nat \<Rightarrow> int \<Rightarrow> llama_kv_cells \<Rightarrow> llama_kv_cells option" where
  "cells_pos_div i d c = do {
     require (i < length (c_pos c));
     require (c_pos c ! i \<noteq> -1);
     let p_old = c_pos c ! i;
     c \<leftarrow> cells_seq_pos_rm i c;
     require (d \<noteq> 0);
     let c = c\<lparr>c_pos := (c_pos c)[i := cxx_div (c_pos c ! i) d]\<rparr>;
     let c = c\<lparr>c_shift := (c_shift c)[i := to_i32 (c_shift c ! i + to_i32 (p_old - c_pos c ! i))]\<rparr>;
     let c = cells_seq_pos_add i c;
     Some (c\<lparr>c_has_shift := True\<rparr>)
   }"

section \<open>The cells as a list, and the class invariant\<close>

record kv_cell =
  v_pos :: llama_pos
  v_ext :: llama_kv_cell_ext
  v_shift :: llama_pos
  v_seq :: seq_set_t

definition cell_at :: "llama_kv_cells \<Rightarrow> nat \<Rightarrow> kv_cell" where
  "cell_at c i = \<lparr>v_pos = c_pos c ! i, v_ext = c_ext c ! i, v_shift = c_shift c ! i, v_seq = c_seq c ! i\<rparr>"

definition view :: "llama_kv_cells \<Rightarrow> kv_cell list" where
  "view c = map (cell_at c) [0..<length (c_pos c)]"

definition cell_ok :: "kv_cell \<Rightarrow> bool" where
  "cell_ok v \<longleftrightarrow> -1 \<le> v_pos v \<and> v_seq v \<subseteq> {s. seq_id_ok s} \<and>
     (v_pos v = -1 \<longrightarrow> v_seq v = {} \<and> v_shift v = 0)"

definition holds :: "kv_cell \<Rightarrow> llama_seq_id \<Rightarrow> llama_pos \<Rightarrow> bool" where
  "holds v s p \<longleftrightarrow> v_pos v = p \<and> s \<in> v_seq v"

definition view_count :: "kv_cell list \<Rightarrow> llama_seq_id \<Rightarrow> llama_pos \<Rightarrow> int" where
  "view_count V s p = (\<Sum>i<length V. of_bool (holds (V ! i) s p))"

definition sp_rep :: "omap list \<Rightarrow> (llama_seq_id \<Rightarrow> llama_pos \<Rightarrow> int) \<Rightarrow> bool" where
  "sp_rep S f \<longleftrightarrow> length S = LLAMA_MAX_SEQ \<and>
     (\<forall>s < LLAMA_MAX_SEQ. omap_ok (S ! s) \<and> (\<forall>p. omap_get (S ! s) p = f (int s) p))"

definition same_lengths :: "llama_kv_cells \<Rightarrow> bool" where
  "same_lengths c \<longleftrightarrow> length (c_ext c) = length (c_pos c) \<and> length (c_shift c) = length (c_pos c) \<and>
     length (c_seq c) = length (c_pos c)"

definition wf_cells :: "llama_kv_cells \<Rightarrow> bool" where
  "wf_cells c \<longleftrightarrow> same_lengths c \<and> (\<forall>v \<in> set (view c). cell_ok v) \<and>
     c_used c = {i. i < length (c_pos c) \<and> c_pos c ! i \<noteq> -1} \<and>
     sp_rep (c_seq_pos c) (view_count (view c))"

lemma length_view [simp]: "length (view c) = length (c_pos c)"
  by (simp add: view_def)

lemma nth_view [simp]: "i < length (c_pos c) \<Longrightarrow> view c ! i = cell_at c i"
  by (simp add: view_def)

lemma cell_at_simps [simp]:
  "v_pos (cell_at c i) = c_pos c ! i"
  "v_ext (cell_at c i) = c_ext c ! i"
  "v_shift (cell_at c i) = c_shift c ! i"
  "v_seq (cell_at c i) = c_seq c ! i"
  by (simp_all add: cell_at_def)

lemma seq_id_ok_nat: "seq_id_ok s \<Longrightarrow> nat s < LLAMA_MAX_SEQ \<and> int (nat s) = s"
  by (auto simp: seq_id_ok_def)

lemma seq_id_ok_int [simp]: "seq_id_ok (int s) \<longleftrightarrow> s < LLAMA_MAX_SEQ"
  by (simp add: seq_id_ok_def)

lemma wf_cell_ok: "wf_cells c \<Longrightarrow> i < length (c_pos c) \<Longrightarrow> cell_ok (cell_at c i)"
  by (auto simp: wf_cells_def view_def)

lemma wf_cellsD:
  assumes "wf_cells c"
  shows "same_lengths c" "sp_rep (c_seq_pos c) (view_count (view c))"
    "c_used c = {i. i < length (c_pos c) \<and> c_pos c ! i \<noteq> -1}"
  using assms by (simp_all add: wf_cells_def)

lemma view_count_upd:
  assumes "i < length V"
  shows "view_count (V[i := v]) s p = view_count V s p - of_bool (holds (V ! i) s p) + of_bool (holds v s p)"
proof -
  have "view_count (V[i := v]) s p = of_bool (holds v s p) + (\<Sum>j\<in>{..<length V} - {i}. of_bool (holds (V ! j) s p))"
    unfolding view_count_def using assms by (subst sum.remove[of _ i]) (auto intro!: sum.cong)
  moreover have "view_count V s p = of_bool (holds (V ! i) s p) + (\<Sum>j\<in>{..<length V} - {i}. of_bool (holds (V ! j) s p))"
    unfolding view_count_def using assms by (subst sum.remove[of _ i]) auto
  ultimately show ?thesis by simp
qed

lemma view_count_nonneg: "0 \<le> view_count V s p"
  by (simp add: view_count_def sum_nonneg)

lemma view_count_pos_iff: "0 < view_count V s p \<longleftrightarrow> (\<exists>v \<in> set V. holds v s p)"
proof -
  have "view_count V s p = int (card {i. i < length V \<and> holds (V ! i) s p})"
    by (simp add: view_count_def sum.If_cases of_bool_def Int_def)
  then show ?thesis by (auto simp: card_gt_0_iff in_set_conv_nth intro: bexI[OF _ nth_mem])
qed

text \<open>Two well-formed states with the same cells (and shift flag) are equal.\<close>

lemma sp_rep_unique: "sp_rep S f \<Longrightarrow> sp_rep S' f \<Longrightarrow> S = S'"
  unfolding sp_rep_def by (rule nth_equalityI) (simp_all add: omap_eqI)

lemma view_eq_fields:
  assumes "same_lengths c" "same_lengths c'" "view c = view c'"
  shows "c_pos c = c_pos c'" "c_ext c = c_ext c'" "c_shift c = c_shift c'" "c_seq c = c_seq c'"
proof -
  have l: "length (c_pos c) = length (c_pos c')" using assms(3) by (metis length_view)
  have n: "cell_at c i = cell_at c' i" if "i < length (c_pos c)" for i
    using that l assms(3) by (metis nth_view)
  have f: "c_pos c ! i = c_pos c' ! i \<and> c_ext c ! i = c_ext c' ! i \<and> c_shift c ! i = c_shift c' ! i \<and> c_seq c ! i = c_seq c' ! i"
    if "i < length (c_pos c)" for i
    using n[OF that] by (simp add: cell_at_def)
  show "c_pos c = c_pos c'" "c_ext c = c_ext c'" "c_shift c = c_shift c'" "c_seq c = c_seq c'"
    using f l assms(1,2) by (auto simp: same_lengths_def intro!: nth_equalityI)
qed

lemma wf_cells_eqI:
  assumes "wf_cells c" "wf_cells c'" "view c = view c'" "c_has_shift c = c_has_shift c'"
  shows "c = c'"
proof -
  note f = view_eq_fields[OF wf_cellsD(1)[OF assms(1)] wf_cellsD(1)[OF assms(2)] assms(3)]
  have "c_seq_pos c = c_seq_pos c'"
    using wf_cellsD(2)[OF assms(1)] wf_cellsD(2)[OF assms(2)] assms(3) by (auto intro: sp_rep_unique)
  moreover have "c_used c = c_used c'"
    using wf_cellsD(3)[OF assms(1)] wf_cellsD(3)[OF assms(2)] f(1) by simp
  ultimately show ?thesis using f assms(4) by (simp add: llama_kv_cells.equality)
qed

section \<open>The position index\<close>

lemma less_Suc_int: "x < int (Suc n) \<longleftrightarrow> x < int n \<or> x = int n"
  by auto

lemma seq_pos_dec_ok:
  assumes "sp_rep (c_seq_pos c) f" "seq_id_ok s" "0 < f s p"
  shows "\<exists>S. cells_seq_pos_dec s p c = Some (c\<lparr>c_seq_pos := S\<rparr>) \<and>
    sp_rep S (\<lambda>t q. f t q - of_bool (t = s \<and> q = p))"
proof -
  let ?m = "c_seq_pos c ! nat s"
  have n: "nat s < LLAMA_MAX_SEQ" "int (nat s) = s" using seq_id_ok_nat[OF assms(2)] by auto
  have m: "omap_ok ?m" "omap_get ?m p = f s p" using assms(1) n by (auto simp: sp_rep_def)
  have mo: "map_of ?m p = Some (f s p)" using map_of_omap[OF m(1), of p] m(2) assms(3) by simp
  let ?S = "(c_seq_pos c)[nat s := (if f s p - 1 = 0 then omap_del p ?m else omap_put p (f s p - 1) ?m)]"
  have "sp_rep ?S (\<lambda>t q. f t q - of_bool (t = s \<and> q = p))"
    using assms(1,3) n m by (auto simp: sp_rep_def nth_list_update)
  with mo show ?thesis by (auto simp: cells_seq_pos_dec_def Let_def)
qed

lemma seq_pos_inc_ok:
  assumes "sp_rep (c_seq_pos c) f" "seq_id_ok s"
  shows "\<exists>S. cells_seq_pos_inc s p c = c\<lparr>c_seq_pos := S\<rparr> \<and>
    sp_rep S (\<lambda>t q. f t q + of_bool (t = s \<and> q = p))"
proof -
  let ?m = "c_seq_pos c ! nat s"
  have n: "nat s < LLAMA_MAX_SEQ" "int (nat s) = s" using seq_id_ok_nat[OF assms(2)] by auto
  have m: "omap_ok ?m" "\<And>q. omap_get ?m q = f s q" using assms(1) n by (auto simp: sp_rep_def)
  have "0 \<le> f s p" using omap_get_nonneg[OF m(1), of p] m(2) by simp
  then have "sp_rep ((c_seq_pos c)[nat s := omap_put p (omap_get ?m p + 1) ?m]) (\<lambda>t q. f t q + of_bool (t = s \<and> q = p))"
    using assms(1) n m by (auto simp: sp_rep_def nth_list_update)
  then show ?thesis by (auto simp: cells_seq_pos_inc_def Let_def)
qed

lemma seq_pos_rm_ok:
  assumes rep: "sp_rep (c_seq_pos c) f" and pos: "\<And>s. s \<in> c_seq c ! i \<Longrightarrow> 0 < f s (c_pos c ! i)"
  shows "\<exists>S. cells_seq_pos_rm i c = Some (c\<lparr>c_seq_pos := S\<rparr>) \<and>
    sp_rep S (\<lambda>s p. f s p - of_bool (p = c_pos c ! i \<and> s \<in> c_seq c ! i \<and> seq_id_ok s))"
proof -
  let ?g = "\<lambda>n s p. f s p - of_bool (p = c_pos c ! i \<and> s \<in> c_seq c ! i \<and> 0 \<le> s \<and> s < int n)"
  let ?I = "\<lambda>n d. \<exists>S. d = c\<lparr>c_seq_pos := S\<rparr> \<and> sp_rep S (?g n)"
  have "\<exists>d. cells_seq_pos_rm i c = Some d \<and> ?I LLAMA_MAX_SEQ d"
    unfolding cells_seq_pos_rm_def
  proof (rule for_upt_rule[where I = ?I])
    show "?I 0 c" using rep by (intro exI[of _ "c_seq_pos c"]) (auto simp: sp_rep_def)
  next
    fix n d
    assume n: "n < LLAMA_MAX_SEQ" and "?I n d"
    then obtain S where d: "d = c\<lparr>c_seq_pos := S\<rparr>" and S: "sp_rep S (?g n)" by blast
    show "\<exists>s'. (if int n \<in> c_seq d ! i then cells_seq_pos_dec (int n) (c_pos d ! i) d else Some d) = Some s' \<and> ?I (Suc n) s'"
    proof (cases "int n \<in> c_seq c ! i")
      case False
      have "?g n = ?g (Suc n)" using False less_Suc_int by (auto simp: fun_eq_iff simp del: of_nat_Suc)
      with False d S show ?thesis by auto
    next
      case True
      have gp: "0 < ?g n (int n) (c_pos c ! i)" using pos[OF True] by simp
      have S': "sp_rep (c_seq_pos d) (?g n)" using S d by simp
      have eq: "(\<lambda>t q. ?g n t q - of_bool (t = int n \<and> q = c_pos c ! i)) = ?g (Suc n)"
        using True less_Suc_int by (auto simp: fun_eq_iff simp del: of_nat_Suc)
      have "seq_id_ok (int n)" using n by simp
      from seq_pos_dec_ok[OF S' this gp] obtain S2 where
        "cells_seq_pos_dec (int n) (c_pos c ! i) d = Some (d\<lparr>c_seq_pos := S2\<rparr>)"
        "sp_rep S2 (?g (Suc n))" unfolding eq by blast
      with True d show ?thesis by auto
    qed
  qed
  then show ?thesis by (auto simp: seq_id_ok_def)
qed

lemma seq_pos_add_ok:
  assumes rep: "sp_rep (c_seq_pos c) f"
  shows "\<exists>S. cells_seq_pos_add i c = c\<lparr>c_seq_pos := S\<rparr> \<and>
    sp_rep S (\<lambda>s p. f s p + of_bool (p = c_pos c ! i \<and> s \<in> c_seq c ! i \<and> seq_id_ok s))"
proof -
  let ?h = "\<lambda>s d. if int s \<in> c_seq d ! i then cells_seq_pos_inc (int s) (c_pos d ! i) d else d"
  let ?g = "\<lambda>n s p. f s p + of_bool (p = c_pos c ! i \<and> s \<in> c_seq c ! i \<and> 0 \<le> s \<and> s < int n)"
  have "n \<le> LLAMA_MAX_SEQ \<Longrightarrow> \<exists>S. fold ?h [0..<n] c = c\<lparr>c_seq_pos := S\<rparr> \<and> sp_rep S (?g n)" for n
  proof (induction n)
    case 0
    show ?case using rep by (intro exI[of _ "c_seq_pos c"]) (auto simp: sp_rep_def)
  next
    case (Suc n)
    then obtain S where d: "fold ?h [0..<n] c = c\<lparr>c_seq_pos := S\<rparr>" and S: "sp_rep S (?g n)" by auto
    show ?case
    proof (cases "int n \<in> c_seq c ! i")
      case False
      have "?g n = ?g (Suc n)" using False less_Suc_int by (auto simp: fun_eq_iff simp del: of_nat_Suc)
      with False d S show ?thesis by auto
    next
      case True
      have eq: "(\<lambda>t q. ?g n t q + of_bool (t = int n \<and> q = c_pos c ! i)) = ?g (Suc n)"
        using True less_Suc_int by (auto simp: fun_eq_iff simp del: of_nat_Suc)
      have "seq_id_ok (int n)" using Suc.prems by simp
      from seq_pos_inc_ok[of "c\<lparr>c_seq_pos := S\<rparr>", OF _ this, of "?g n" "c_pos c ! i"] S obtain S2 where
        "cells_seq_pos_inc (int n) (c_pos c ! i) (c\<lparr>c_seq_pos := S\<rparr>) = c\<lparr>c_seq_pos := S2\<rparr>"
        "sp_rep S2 (?g (Suc n))" unfolding eq by auto
      with True d show ?thesis by auto
    qed
  qed
  from this[of LLAMA_MAX_SEQ] show ?thesis by (simp add: cells_seq_pos_add_def seq_id_ok_def)
qed

section \<open>Every operation updates the list of cells and keeps the invariant\<close>

definition empty_cell :: kv_cell where
  "empty_cell = \<lparr>v_pos = -1, v_ext = ext_zero, v_shift = 0, v_seq = {}\<rparr>"

lemma empty_cell_simps [simp]:
  "v_pos empty_cell = -1" "v_ext empty_cell = ext_zero" "v_shift empty_cell = 0" "v_seq empty_cell = {}"
  by (simp_all add: empty_cell_def)

lemma cell_ok_empty [simp]: "cell_ok empty_cell"
  by (simp add: cell_ok_def)

definition cell_upd :: "llama_kv_cells \<Rightarrow> nat \<Rightarrow> kv_cell \<Rightarrow> bool \<Rightarrow> llama_kv_cells \<Rightarrow> bool" where
  "cell_upd c i v hs c' \<longleftrightarrow> wf_cells c' \<and> view c' = (view c)[i := v] \<and> c_has_shift c' = hs"

lemma cell_updD:
  assumes "cell_upd c i v hs c'"
  shows "wf_cells c'" "view c' = (view c)[i := v]" "c_has_shift c' = hs"
  using assms by (simp_all add: cell_upd_def)

lemma cell_upd_length: "cell_upd c i v hs c' \<Longrightarrow> length (c_pos c') = length (c_pos c)"
  by (metis cell_upd_def length_list_update length_view)

lemma cell_upd_cell_at:
  assumes "cell_upd c i v hs c'" "j < length (c_pos c)"
  shows "cell_at c' j = (if j = i then v else cell_at c j)"
proof -
  have "view c' ! j = (view c)[i := v] ! j" using assms(1) by (simp add: cell_upd_def)
  then show ?thesis using assms(2) cell_upd_length[OF assms(1)] by (auto simp: nth_list_update)
qed

lemma cell_upd_refl: "wf_cells c \<Longrightarrow> i < length (c_pos c) \<Longrightarrow> cell_upd c i (cell_at c i) (c_has_shift c) c"
  by (metis cell_upd_def list_update_id nth_view)

lemma cell_updI:
  assumes wf: "wf_cells c" and i: "i < length (c_pos c)" and v: "cell_ok v"
    and f: "c_pos c' = (c_pos c)[i := v_pos v]" "c_ext c' = (c_ext c)[i := v_ext v]"
      "c_shift c' = (c_shift c)[i := v_shift v]" "c_seq c' = (c_seq c)[i := v_seq v]"
    and u: "c_used c' = (if v_pos v = -1 then c_used c - {i} else insert i (c_used c))"
    and sp: "sp_rep (c_seq_pos c') (\<lambda>s p. view_count (view c) s p - of_bool (holds (cell_at c i) s p) + of_bool (holds v s p))"
    and hs: "c_has_shift c' = hs"
  shows "cell_upd c i v hs c'"
proof -
  have l: "same_lengths c" using wf by (rule wf_cellsD)
  have view: "view c' = (view c)[i := v]"
    using i l f by (intro nth_equalityI) (auto simp: same_lengths_def nth_list_update cell_at_def)
  have "wf_cells c'"
    unfolding wf_cells_def
  proof (intro conjI)
    show "same_lengths c'" using l f by (simp add: same_lengths_def)
    show "\<forall>v \<in> set (view c'). cell_ok v"
      using wf v i by (auto simp: view wf_cells_def dest!: set_update_subset_insert[THEN subsetD])
    show "c_used c' = {i. i < length (c_pos c') \<and> c_pos c' ! i \<noteq> -1}"
      using i f(1) u wf_cellsD(3)[OF wf] by (auto simp: nth_list_update)
    show "sp_rep (c_seq_pos c') (view_count (view c'))"
      using sp i by (simp add: view view_count_upd sp_rep_def)
  qed
  with view hs show ?thesis by (simp add: cell_upd_def)
qed

lemma seq_pos_rm_wf:
  assumes wf: "wf_cells c" and i: "i < length (c_pos c)"
  shows "\<exists>S. cells_seq_pos_rm i c = Some (c\<lparr>c_seq_pos := S\<rparr>) \<and>
    sp_rep S (\<lambda>s p. view_count (view c) s p - of_bool (holds (cell_at c i) s p))"
proof -
  have "0 < view_count (view c) s (c_pos c ! i)" if "s \<in> c_seq c ! i" for s
    using that i by (auto simp: view_count_pos_iff holds_def view_def intro!: bexI[of _ i])
  from seq_pos_rm_ok[OF wf_cellsD(2)[OF wf] this] obtain S where
    S: "cells_seq_pos_rm i c = Some (c\<lparr>c_seq_pos := S\<rparr>)"
    "sp_rep S (\<lambda>s p. view_count (view c) s p - of_bool (p = c_pos c ! i \<and> s \<in> c_seq c ! i \<and> seq_id_ok s))" by blast
  have "(p = c_pos c ! i \<and> s \<in> c_seq c ! i \<and> seq_id_ok s) = holds (cell_at c i) s p" for s p
    using wf_cell_ok[OF wf i] by (auto simp: holds_def cell_ok_def)
  with S show ?thesis by auto
qed

text \<open>Adding cell \<open>i\<close> to the index, once its position and sequences have been rewritten to those of \<open>v\<close>.\<close>

lemma seq_pos_add_cell:
  assumes "sp_rep (c_seq_pos c) f" "c_pos c ! i = v_pos v" "c_seq c ! i = v_seq v" "cell_ok v"
  shows "\<exists>S. cells_seq_pos_add i c = c\<lparr>c_seq_pos := S\<rparr> \<and> sp_rep S (\<lambda>s p. f s p + of_bool (holds v s p))"
proof -
  have "(p = c_pos c ! i \<and> s \<in> c_seq c ! i \<and> seq_id_ok s) = holds v s p" for s p
    using assms(2-4) by (auto simp: holds_def cell_ok_def)
  with seq_pos_add_ok[OF assms(1), of i] show ?thesis by auto
qed

lemma not_holds_empty: "v_seq v = {} \<Longrightarrow> \<not> holds v s p"
  by (simp add: holds_def)

lemma cells_rm_ok:
  assumes wf: "wf_cells c" and i: "i < length (c_pos c)" and p: "c_pos c ! i \<noteq> -1"
  shows "\<exists>c'. cells_rm i c = Some c' \<and> cell_upd c i empty_cell (c_has_shift c) c'"
proof -
  from seq_pos_rm_wf[OF wf i] obtain S where S: "cells_seq_pos_rm i c = Some (c\<lparr>c_seq_pos := S\<rparr>)"
    "sp_rep S (\<lambda>s p. view_count (view c) s p - of_bool (holds (cell_at c i) s p))" by blast
  show ?thesis
    using S i p wf by (auto simp: cells_rm_def empty_cell_def cell_ok_def not_holds_empty intro!: cell_updI[OF wf i])
qed

lemma cells_pos_set_ok:
  assumes wf: "wf_cells c" and i: "i < length (c_pos c)" and e: "c_pos c ! i = -1" and p: "0 \<le> p"
  shows "\<exists>c'. cells_pos_set i p c = Some c' \<and>
    cell_upd c i ((cell_at c i)\<lparr>v_pos := p\<rparr>) (c_has_shift c) c'"
proof -
  have ok: "cell_ok (cell_at c i)" by (rule wf_cell_ok[OF wf i])
  then have q: "c_seq c ! i = {}" "c_shift c ! i = 0" using e by (auto simp: cell_ok_def)
  have len: "same_lengths c" by (rule wf_cellsD[OF wf])
  have sp: "sp_rep (c_seq_pos c) (view_count (view c))" by (rule wf_cellsD[OF wf])
  have sh: "c_shift c = (c_shift c)[i := 0]" using q(2) by (metis list_update_id)
  show ?thesis
    using q e i p len sp sh
    by (auto simp: cells_pos_set_def same_lengths_def cell_ok_def not_holds_empty intro!: cell_updI[OF wf i])
qed

lemma cells_ext_set_ok:
  assumes wf: "wf_cells c" and i: "i < length (c_pos c)"
  shows "\<exists>c'. cells_ext_set i e c = Some c' \<and>
    cell_upd c i ((cell_at c i)\<lparr>v_ext := e\<rparr>) (c_has_shift c) c'"
proof -
  have ok: "cell_ok (cell_at c i)" by (rule wf_cell_ok[OF wf i])
  have len: "same_lengths c" by (rule wf_cellsD[OF wf])
  have sp: "sp_rep (c_seq_pos c) (view_count (view c))" by (rule wf_cellsD[OF wf])
  have used: "c_used c = {i. i < length (c_pos c) \<and> c_pos c ! i \<noteq> -1}" by (rule wf_cellsD[OF wf])
  have "cell_upd c i ((cell_at c i)\<lparr>v_ext := e\<rparr>) (c_has_shift c) (c\<lparr>c_ext := (c_ext c)[i := e]\<rparr>)"
    by (rule cell_updI[OF wf i]) (use ok i sp in \<open>auto simp: cell_ok_def holds_def used\<close>)
  then show ?thesis using i len by (simp add: cells_ext_set_def same_lengths_def)
qed

lemma cells_seq_add_ok:
  assumes wf: "wf_cells c" and i: "i < length (c_pos c)" and p: "c_pos c ! i \<noteq> -1"
    and s: "seq_id_ok s" "s \<notin> c_seq c ! i"
  shows "\<exists>c'. cells_seq_add i s c = Some c' \<and>
    cell_upd c i ((cell_at c i)\<lparr>v_seq := insert s (c_seq c ! i)\<rparr>) (c_has_shift c) c'"
proof -
  have ok: "cell_ok (cell_at c i)" by (rule wf_cell_ok[OF wf i])
  have len: "same_lengths c" by (rule wf_cellsD[OF wf])
  have used: "c_used c = {i. i < length (c_pos c) \<and> c_pos c ! i \<noteq> -1}" by (rule wf_cellsD[OF wf])
  let ?d = "c\<lparr>c_seq := (c_seq c)[i := insert s (c_seq c ! i)]\<rparr>"
  have "sp_rep (c_seq_pos ?d) (view_count (view c))" using wf_cellsD(2)[OF wf] by simp
  from seq_pos_inc_ok[OF this s(1), of "c_pos c ! i"] obtain S where
    S: "cells_seq_pos_inc s (c_pos c ! i) ?d = ?d\<lparr>c_seq_pos := S\<rparr>"
    "sp_rep S (\<lambda>t q. view_count (view c) t q + of_bool (t = s \<and> q = c_pos c ! i))" by blast
  have eq: "of_bool (t = s \<and> q = c_pos c ! i) =
      (of_bool (holds ((cell_at c i)\<lparr>v_seq := insert s (c_seq c ! i)\<rparr>) t q) - of_bool (holds (cell_at c i) t q) :: int)" for t q
    using s(2) by (auto simp: holds_def)
  have "cell_upd c i ((cell_at c i)\<lparr>v_seq := insert s (c_seq c ! i)\<rparr>) (c_has_shift c) (?d\<lparr>c_seq_pos := S\<rparr>)"
    using S(2) ok p i len s(1)
    by (intro cell_updI[OF wf i]) (auto simp: same_lengths_def cell_ok_def used eq sp_rep_def algebra_simps)
  with S(1) i p s show ?thesis by (auto simp: cells_seq_add_def bitset_test_def bitset_set_def)
qed

lemma cells_seq_rm_ok:
  assumes wf: "wf_cells c" and i: "i < length (c_pos c)" and s: "s \<in> c_seq c ! i"
  shows "\<exists>c'. cells_seq_rm i s c = Some (c', c_seq c ! i = {s}) \<and>
    cell_upd c i (if c_seq c ! i = {s} then empty_cell else (cell_at c i)\<lparr>v_seq := c_seq c ! i - {s}\<rparr>)
      (c_has_shift c) c'"
proof -
  have ok: "cell_ok (cell_at c i)" by (rule wf_cell_ok[OF wf i])
  have p: "c_pos c ! i \<noteq> -1" and sid: "seq_id_ok s" "0 \<le> s" using ok s by (auto simp: cell_ok_def seq_id_ok_def)
  have len: "same_lengths c" by (rule wf_cellsD[OF wf])
  have used: "c_used c = {i. i < length (c_pos c) \<and> c_pos c ! i \<noteq> -1}" by (rule wf_cellsD[OF wf])
  let ?d = "c\<lparr>c_seq := (c_seq c)[i := c_seq c ! i - {s}]\<rparr>"
  have gt: "0 < view_count (view c) s (c_pos c ! i)"
    using s i by (auto simp: view_count_pos_iff holds_def view_def intro!: bexI[of _ i])
  have "sp_rep (c_seq_pos ?d) (view_count (view c))" using wf_cellsD(2)[OF wf] by simp
  from seq_pos_dec_ok[OF this sid(1) gt] obtain S where
    S: "cells_seq_pos_dec s (c_pos c ! i) ?d = Some (?d\<lparr>c_seq_pos := S\<rparr>)"
    "sp_rep S (\<lambda>t q. view_count (view c) t q - of_bool (t = s \<and> q = c_pos c ! i))" by blast
  have eq: "of_bool (t = s \<and> q = c_pos c ! i) =
      (of_bool (holds (cell_at c i) t q) - of_bool (holds ((cell_at c i)\<lparr>v_seq := c_seq c ! i - {s}\<rparr>) t q) :: int)" for t q
    using s by (auto simp: holds_def)
  note run = i p s sid S(1) len
  show ?thesis
  proof (cases "c_seq c ! i = {s}")
    case True
    have none: "\<not> holds ((cell_at c i)\<lparr>v_seq := {}\<rparr>) t q" for t q by (simp add: holds_def)
    have "cell_upd c i empty_cell (c_has_shift c) (?d\<lparr>c_seq_pos := S, c_pos := (c_pos c)[i := -1],
        c_ext := (c_ext c)[i := ext_zero], c_shift := (c_shift c)[i := 0], c_used := c_used c - {i}\<rparr>)"
      by (rule cell_updI[OF wf i])
        (use S(2) True none in \<open>auto simp: empty_cell_def cell_ok_def not_holds_empty eq\<close>)
    then show ?thesis using run True
      by (simp add: cells_seq_rm_def bitset_test_def bitset_reset_def same_lengths_def)
  next
    case False
    then have ne: "c_seq c ! i - {s} \<noteq> {}" using s by auto
    have "cell_upd c i ((cell_at c i)\<lparr>v_seq := c_seq c ! i - {s}\<rparr>) (c_has_shift c) (?d\<lparr>c_seq_pos := S\<rparr>)"
      by (rule cell_updI[OF wf i])
        (use S(2) ok p i in \<open>auto simp: cell_ok_def used eq sp_rep_def algebra_simps\<close>)
    then show ?thesis using run False ne
      by (simp add: cells_seq_rm_def bitset_test_def bitset_reset_def same_lengths_def)
  qed
qed

lemma cells_seq_keep_ok:
  assumes wf: "wf_cells c" and i: "i < length (c_pos c)" and sid: "seq_id_ok s"
    and owned: "c_pos c ! i \<noteq> -1 \<Longrightarrow> c_seq c ! i \<noteq> {}"
  shows "\<exists>c'. cells_seq_keep i s c = Some (c', s \<notin> c_seq c ! i \<and> c_seq c ! i \<noteq> {}) \<and>
    cell_upd c i (if s \<in> c_seq c ! i then (cell_at c i)\<lparr>v_seq := {s}\<rparr>
                  else if c_seq c ! i \<noteq> {} then empty_cell else cell_at c i) (c_has_shift c) c'"
proof -
  have ok: "cell_ok (cell_at c i)" by (rule wf_cell_ok[OF wf i])
  have len: "same_lengths c" by (rule wf_cellsD[OF wf])
  have used: "c_used c = {i. i < length (c_pos c) \<and> c_pos c ! i \<noteq> -1}" by (rule wf_cellsD[OF wf])
  from seq_pos_rm_wf[OF wf i] obtain S where S: "cells_seq_pos_rm i c = Some (c\<lparr>c_seq_pos := S\<rparr>)"
    "sp_rep S (\<lambda>s p. view_count (view c) s p - of_bool (holds (cell_at c i) s p))" by blast
  consider (keep) "s \<in> c_seq c ! i" | (drop) "s \<notin> c_seq c ! i" "c_seq c ! i \<noteq> {}" | (none) "c_seq c ! i = {}" by auto
  then show ?thesis
  proof cases
    case keep
    have p: "c_pos c ! i \<noteq> -1" using ok keep by (auto simp: cell_ok_def)
    let ?d = "c\<lparr>c_seq_pos := S, c_seq := (c_seq c)[i := {s}]\<rparr>"
    have "sp_rep (c_seq_pos ?d) (\<lambda>s p. view_count (view c) s p - of_bool (holds (cell_at c i) s p))" using S by simp
    from seq_pos_inc_ok[OF this sid, of "c_pos c ! i"] obtain T where
      T: "cells_seq_pos_inc s (c_pos c ! i) ?d = ?d\<lparr>c_seq_pos := T\<rparr>"
      "sp_rep T (\<lambda>t q. view_count (view c) t q - of_bool (holds (cell_at c i) t q) + of_bool (t = s \<and> q = c_pos c ! i))" by blast
    have eq: "(t = s \<and> q = c_pos c ! i) = holds ((cell_at c i)\<lparr>v_seq := {s}\<rparr>) t q" for t q by (auto simp: holds_def)
    have "cell_upd c i ((cell_at c i)\<lparr>v_seq := {s}\<rparr>) (c_has_shift c) (?d\<lparr>c_seq_pos := T\<rparr>)"
      by (rule cell_updI[OF wf i]) (use T(2) ok p i sid in \<open>auto simp: cell_ok_def used eq\<close>)
    then show ?thesis using i keep S(1) T(1) sid
      by (simp add: cells_seq_keep_def bitset_test_def bitset_set_def)
  next
    case drop
    have p: "c_pos c ! i \<noteq> -1" using ok drop by (auto simp: cell_ok_def)
    have "cell_upd c i empty_cell (c_has_shift c) (c\<lparr>c_seq_pos := S, c_seq := (c_seq c)[i := {}],
        c_pos := (c_pos c)[i := -1], c_ext := (c_ext c)[i := ext_zero], c_shift := (c_shift c)[i := 0], c_used := c_used c - {i}\<rparr>)"
      by (rule cell_updI[OF wf i]) (use S(2) in \<open>auto simp: empty_cell_def cell_ok_def not_holds_empty\<close>)
    then show ?thesis using i drop S(1) sid
      by (simp add: cells_seq_keep_def bitset_test_def)
  next
    case none
    have "c_pos c ! i = -1" using owned none by auto
    moreover have "cell_upd c i (cell_at c i) (c_has_shift c) c"
      by (rule cell_upd_refl[OF wf i])
    ultimately show ?thesis using i none sid by (simp add: cells_seq_keep_def bitset_test_def)
  qed
qed

lemma cells_pos_add_ok:
  assumes wf: "wf_cells c" and i: "i < length (c_pos c)" and p: "c_pos c ! i \<noteq> -1"
  shows "\<exists>c'. cells_pos_add i d c = Some (c', to_i32 (c_pos c ! i + d) < 0) \<and>
    cell_upd c i (if to_i32 (c_pos c ! i + d) < 0 then (cell_at c i)\<lparr>v_pos := -1, v_shift := 0, v_seq := {}\<rparr>
                  else (cell_at c i)\<lparr>v_pos := to_i32 (c_pos c ! i + d), v_shift := to_i32 (c_shift c ! i + d)\<rparr>) True c'"
proof -
  have ok: "cell_ok (cell_at c i)" by (rule wf_cell_ok[OF wf i])
  have len: "same_lengths c" by (rule wf_cellsD[OF wf])
  have used: "c_used c = {i. i < length (c_pos c) \<and> c_pos c ! i \<noteq> -1}" by (rule wf_cellsD[OF wf])
  from seq_pos_rm_wf[OF wf i] obtain S where S: "cells_seq_pos_rm i c = Some (c\<lparr>c_seq_pos := S\<rparr>)"
    "sp_rep S (\<lambda>s p. view_count (view c) s p - of_bool (holds (cell_at c i) s p))" by blast
  let ?d = "c\<lparr>c_seq_pos := S, c_pos := (c_pos c)[i := to_i32 (c_pos c ! i + d)],
    c_shift := (c_shift c)[i := to_i32 (c_shift c ! i + d)], c_has_shift := True\<rparr>"
  show ?thesis
  proof (cases "to_i32 (c_pos c ! i + d) < 0")
    case True
    have "cell_upd c i ((cell_at c i)\<lparr>v_pos := -1, v_shift := 0, v_seq := {}\<rparr>) True
      (?d\<lparr>c_seq := (c_seq c)[i := {}], c_pos := (c_pos c)[i := -1], c_shift := (c_shift c)[i := 0], c_used := c_used c - {i}\<rparr>)"
      by (rule cell_updI[OF wf i]) (use S(2) in \<open>auto simp: cell_ok_def not_holds_empty\<close>)
    then show ?thesis using i p S(1) True len by (simp add: cells_pos_add_def same_lengths_def)
  next
    case False
    let ?v = "(cell_at c i)\<lparr>v_pos := to_i32 (c_pos c ! i + d), v_shift := to_i32 (c_shift c ! i + d)\<rparr>"
    have vok: "cell_ok ?v" using ok False p by (auto simp: cell_ok_def)
    have "\<exists>T. cells_seq_pos_add i ?d = ?d\<lparr>c_seq_pos := T\<rparr> \<and>
        sp_rep T (\<lambda>s p. view_count (view c) s p - of_bool (holds (cell_at c i) s p) + of_bool (holds ?v s p))"
      by (rule seq_pos_add_cell[OF _ _ _ vok]) (use S(2) i in auto)
    then obtain T where T: "cells_seq_pos_add i ?d = ?d\<lparr>c_seq_pos := T\<rparr>"
      "sp_rep T (\<lambda>s p. view_count (view c) s p - of_bool (holds (cell_at c i) s p) + of_bool (holds ?v s p))" by blast
    have "cell_upd c i ?v True (?d\<lparr>c_seq_pos := T\<rparr>)"
      by (rule cell_updI[OF wf i vok]) (use T(2) p i False in \<open>auto simp: used\<close>)
    then show ?thesis using i p S(1) T(1) False len by (simp add: cells_pos_add_def same_lengths_def)
  qed
qed

lemma cells_pos_div_ok:
  assumes wf: "wf_cells c" and i: "i < length (c_pos c)" and p: "c_pos c ! i \<noteq> -1" and d: "0 < d"
  shows "\<exists>c'. cells_pos_div i d c = Some c' \<and>
    cell_upd c i ((cell_at c i)\<lparr>v_pos := c_pos c ! i div d,
      v_shift := to_i32 (c_shift c ! i + to_i32 (c_pos c ! i - c_pos c ! i div d))\<rparr>) True c'"
proof -
  have ok: "cell_ok (cell_at c i)" by (rule wf_cell_ok[OF wf i])
  have ge: "0 \<le> c_pos c ! i" using ok p by (auto simp: cell_ok_def)
  have len: "same_lengths c" by (rule wf_cellsD[OF wf])
  have used: "c_used c = {i. i < length (c_pos c) \<and> c_pos c ! i \<noteq> -1}" by (rule wf_cellsD[OF wf])
  from seq_pos_rm_wf[OF wf i] obtain S where S: "cells_seq_pos_rm i c = Some (c\<lparr>c_seq_pos := S\<rparr>)"
    "sp_rep S (\<lambda>s p. view_count (view c) s p - of_bool (holds (cell_at c i) s p))" by blast
  let ?q = "c_pos c ! i div d"
  let ?v = "(cell_at c i)\<lparr>v_pos := ?q, v_shift := to_i32 (c_shift c ! i + to_i32 (c_pos c ! i - ?q))\<rparr>"
  let ?d = "c\<lparr>c_seq_pos := S, c_pos := (c_pos c)[i := ?q],
    c_shift := (c_shift c)[i := to_i32 (c_shift c ! i + to_i32 (c_pos c ! i - ?q))]\<rparr>"
  have q: "0 \<le> ?q" using ge d by (simp add: pos_imp_zdiv_nonneg_iff)
  then have vok: "cell_ok ?v" using ok by (auto simp: cell_ok_def)
  have "\<exists>T. cells_seq_pos_add i ?d = ?d\<lparr>c_seq_pos := T\<rparr> \<and>
      sp_rep T (\<lambda>s p. view_count (view c) s p - of_bool (holds (cell_at c i) s p) + of_bool (holds ?v s p))"
    by (rule seq_pos_add_cell[OF _ _ _ vok]) (use S(2) i in auto)
  then obtain T where T: "cells_seq_pos_add i ?d = ?d\<lparr>c_seq_pos := T\<rparr>"
    "sp_rep T (\<lambda>s p. view_count (view c) s p - of_bool (holds (cell_at c i) s p) + of_bool (holds ?v s p))" by blast
  have "cell_upd c i ?v True (?d\<lparr>c_seq_pos := T, c_has_shift := True\<rparr>)"
    by (rule cell_updI[OF wf i vok]) (use T(2) p q i in \<open>auto simp: used\<close>)
  moreover have "cxx_div (c_pos c ! i) d = ?q" using ge d by (rule cxx_div_nonneg)
  ultimately show ?thesis using i p S(1) T(1) d len by (simp add: cells_pos_div_def same_lengths_def)
qed

text \<open>Writing a snapshot back cell by cell.\<close>

lemma cells_set_step_ok:
  assumes wf: "wf_cells c" and i: "i < length (c_pos c)" and sh: "c_shift c ! i = 0"
    and vok: "cell_ok v" and v: "v_pos v = c_pos other ! j" "v_ext v = c_ext other ! j" "v_seq v = c_seq other ! j" "v_shift v = 0"
  shows "\<exists>c'. cells_set_step other i j c = Some c' \<and> cell_upd c i v (c_has_shift c) c'"
proof -
  have len: "same_lengths c" by (rule wf_cellsD[OF wf])
  have used: "c_used c = {i. i < length (c_pos c) \<and> c_pos c ! i \<noteq> -1}" by (rule wf_cellsD[OF wf])
  let ?f = "\<lambda>s p. view_count (view c) s p - of_bool (holds (cell_at c i) s p)"
  define U where "U = (if v_pos v = -1 then c_used c - {i} else insert i (c_used c))"
  let ?u = "c\<lparr>c_used := U\<rparr>"
  have "\<exists>S. sp_rep S ?f \<and> (if c_pos c ! i = -1 then S = c_seq_pos c else cells_seq_pos_rm i ?u = Some (?u\<lparr>c_seq_pos := S\<rparr>))"
  proof (cases "c_pos c ! i = -1")
    case True
    have "c_seq c ! i = {}" using wf_cell_ok[OF wf i] True by (simp add: cell_ok_def)
    then show ?thesis using True wf_cellsD(2)[OF wf] by (simp add: not_holds_empty)
  next
    case False
    have "\<exists>S. cells_seq_pos_rm i ?u = Some (?u\<lparr>c_seq_pos := S\<rparr>) \<and>
        sp_rep S (\<lambda>s p. view_count (view c) s p - of_bool (p = c_pos ?u ! i \<and> s \<in> c_seq ?u ! i \<and> seq_id_ok s))"
      by (rule seq_pos_rm_ok)
        (use i wf_cellsD(2)[OF wf] in \<open>auto simp: view_count_pos_iff holds_def view_def intro!: bexI[of _ i]\<close>)
    moreover have "(p = c_pos c ! i \<and> s \<in> c_seq c ! i \<and> seq_id_ok s) = holds (cell_at c i) s p" for s p
      using wf_cell_ok[OF wf i] by (auto simp: holds_def cell_ok_def)
    ultimately show ?thesis using False by auto
  qed
  then obtain S where S: "sp_rep S ?f"
    "if c_pos c ! i = -1 then S = c_seq_pos c else cells_seq_pos_rm i ?u = Some (?u\<lparr>c_seq_pos := S\<rparr>)" by blast
  let ?d = "c\<lparr>c_used := U, c_seq_pos := S, c_pos := (c_pos c)[i := v_pos v], c_ext := (c_ext c)[i := v_ext v], c_seq := (c_seq c)[i := v_seq v]\<rparr>"
  have "\<exists>T. cells_seq_pos_add i ?d = ?d\<lparr>c_seq_pos := T\<rparr> \<and> sp_rep T (\<lambda>s p. ?f s p + of_bool (holds v s p))"
    by (rule seq_pos_add_cell[OF _ _ _ vok]) (use S i len in \<open>auto simp: same_lengths_def\<close>)
  then obtain T where T: "cells_seq_pos_add i ?d = ?d\<lparr>c_seq_pos := T\<rparr>" "sp_rep T (\<lambda>s p. ?f s p + of_bool (holds v s p))" by blast
  have T': "v_pos v = -1 \<Longrightarrow> sp_rep S (\<lambda>s p. ?f s p + of_bool (holds v s p))"
    using S vok by (simp add: cell_ok_def not_holds_empty)
  have sh': "c_shift c = (c_shift c)[i := 0]" using sh by (metis list_update_id)
  let ?e = "if v_pos v = -1 then ?d else ?d\<lparr>c_seq_pos := T\<rparr>"
  have "cell_upd c i v (c_has_shift c) ?e"
    by (rule cell_updI[OF wf i vok]) (use T(2) T' v sh' in \<open>auto simp: U_def\<close>)
  moreover have "cells_set_step other i j c = Some ?e"
  proof -
    have "(if c_pos c ! i \<noteq> -1 \<and> v_pos v = -1
        then (if c_pos c ! i = -1 \<and> v_pos v \<noteq> -1 then c\<lparr>c_used := insert i (c_used c)\<rparr> else c)
          \<lparr>c_used := c_used (if c_pos c ! i = -1 \<and> v_pos v \<noteq> -1 then c\<lparr>c_used := insert i (c_used c)\<rparr> else c) - {i}\<rparr>
        else (if c_pos c ! i = -1 \<and> v_pos v \<noteq> -1 then c\<lparr>c_used := insert i (c_used c)\<rparr> else c)) = c\<lparr>c_used := U\<rparr>"
      using i used by (auto simp: U_def insert_absorb)
    then show ?thesis
      using i S T(1) sh by (simp add: cells_set_step_def v[symmetric] split: if_splits)
  qed
  ultimately show ?thesis by blast
qed

section \<open>Initialisation\<close>

lemma view_count_empty_cells: "(\<And>v. v \<in> set V \<Longrightarrow> v_seq v = {}) \<Longrightarrow> view_count V s p = 0"
  by (auto simp: view_count_def holds_def)

lemma wf_all_empty:
  assumes "same_lengths c" "\<And>i. i < length (c_pos c) \<Longrightarrow> cell_at c i = empty_cell"
    "c_used c = {}" "c_seq_pos c = replicate LLAMA_MAX_SEQ []"
  shows "wf_cells c"
proof -
  have e: "v = empty_cell" if "v \<in> set (view c)" for v using that assms(2) by (auto simp: view_def)
  then have "\<forall>v \<in> set (view c). cell_ok v" by (metis cell_ok_empty)
  moreover have "view_count (view c) s p = 0" for s p
    by (rule view_count_empty_cells) (metis e empty_cell_simps(4))
  moreover have "c_pos c ! i = -1" if "i < length (c_pos c)" for i
    using assms(2)[OF that] by (simp add: cell_at_def empty_cell_def)
  ultimately show ?thesis
    using assms(1,3,4) by (auto simp: wf_cells_def sp_rep_def)
qed

lemma length_vec_resize [simp]: "length (vec_resize n d xs) = n"
  by (simp add: vec_resize_def)

lemma map_const_replicate: "map (\<lambda>_. x) xs = replicate (length xs) x"
  by (induction xs) auto

lemma cells_reset_ok:
  assumes "same_lengths c" "length (c_seq_pos c) = LLAMA_MAX_SEQ"
  shows "wf_cells (cells_reset c)" "view (cells_reset c) = replicate (length (c_pos c)) empty_cell"
    "c_has_shift (cells_reset c) = False"
proof -
  have at: "cell_at (cells_reset c) i = empty_cell" if "i < length (c_pos c)" for i
    using that assms by (simp add: cells_reset_def cell_at_def empty_cell_def same_lengths_def)
  then show "wf_cells (cells_reset c)"
    using assms by (intro wf_all_empty) (auto simp: cells_reset_def same_lengths_def map_const_replicate)
  show "view (cells_reset c) = replicate (length (c_pos c)) empty_cell"
    using at by (intro nth_equalityI) (auto simp: view_def cells_reset_def)
  show "c_has_shift (cells_reset c) = False" by (simp add: cells_reset_def)
qed

lemma wf_seq_pos_length: "wf_cells c \<Longrightarrow> length (c_seq_pos c) = LLAMA_MAX_SEQ"
  by (simp add: wf_cells_def sp_rep_def)

lemma cells_reset_wf:
  assumes "wf_cells c"
  shows "wf_cells (cells_reset c)" "view (cells_reset c) = replicate (length (c_pos c)) empty_cell"
    "c_has_shift (cells_reset c) = False"
  using cells_reset_ok[OF wf_cellsD(1)[OF assms] wf_seq_pos_length[OF assms]] by simp_all

lemma cells_resize_ok:
  assumes "length (c_seq_pos c) = LLAMA_MAX_SEQ"
  shows "wf_cells (cells_resize n c)" "view (cells_resize n c) = replicate n empty_cell"
proof -
  let ?c = "c\<lparr>c_pos := vec_resize n 0 (c_pos c), c_ext := vec_resize n ext_zero (c_ext c),
     c_shift := vec_resize n 0 (c_shift c), c_seq := vec_resize n {} (c_seq c)\<rparr>"
  have "same_lengths ?c" "length (c_seq_pos ?c) = LLAMA_MAX_SEQ"
    using assms by (simp_all add: same_lengths_def)
  from cells_reset_ok[OF this] show "wf_cells (cells_resize n c)"
    "view (cells_resize n c) = replicate n empty_cell" by (simp_all add: cells_resize_def)
qed

lemma cells_resize_new:
  "wf_cells (cells_resize n cells_new)" "view (cells_resize n cells_new) = replicate n empty_cell"
  by (rule cells_resize_ok, simp add: cells_new_def)+

lemma cells_reset_shift_ok:
  assumes wf: "wf_cells c"
  shows "wf_cells (cells_reset_shift c)" "view (cells_reset_shift c) = map (\<lambda>v. v\<lparr>v_shift := 0\<rparr>) (view c)"
    "c_has_shift (cells_reset_shift c) = False"
proof -
  have len: "same_lengths c" by (rule wf_cellsD[OF wf])
  show view: "view (cells_reset_shift c) = map (\<lambda>v. v\<lparr>v_shift := 0\<rparr>) (view c)"
    using len by (intro nth_equalityI) (auto simp: cells_reset_shift_def view_def cell_at_def same_lengths_def)
  have "view_count (map (\<lambda>v. v\<lparr>v_shift := 0\<rparr>) (view c)) = view_count (view c)"
    by (auto simp: view_count_def holds_def fun_eq_iff)
  then show "wf_cells (cells_reset_shift c)"
    using wf len unfolding wf_cells_def view
    by (auto simp: cells_reset_shift_def same_lengths_def cell_ok_def)
  show "c_has_shift (cells_reset_shift c) = False" by (simp add: cells_reset_shift_def)
qed

section \<open>Queries\<close>

definition seq_positions :: "kv_cell list \<Rightarrow> llama_seq_id \<Rightarrow> llama_pos set" where
  "seq_positions V s = {v_pos v |v. v \<in> set V \<and> s \<in> v_seq v}"

lemma finite_seq_positions [simp]: "finite (seq_positions V s)"
  by (auto simp: seq_positions_def intro: finite_surj[of "set V" _ v_pos])

lemma wf_seq_pos_keys:
  assumes "wf_cells c" "seq_id_ok s"
  shows "omap_ok (c_seq_pos c ! nat s)" "fst ` set (c_seq_pos c ! nat s) = seq_positions (view c) s"
proof -
  have n: "nat s < LLAMA_MAX_SEQ" "int (nat s) = s" using seq_id_ok_nat[OF assms(2)] by auto
  have m: "omap_ok (c_seq_pos c ! nat s)" "\<And>p. omap_get (c_seq_pos c ! nat s) p = view_count (view c) s p"
    using wf_cellsD(2)[OF assms(1)] n by (auto simp: sp_rep_def)
  then show "omap_ok (c_seq_pos c ! nat s)" by simp
  have "p \<in> fst ` set (c_seq_pos c ! nat s) \<longleftrightarrow> p \<in> seq_positions (view c) s" for p
    using omap_get_pos_iff[OF m(1), of p] m(2)[of p]
    by (auto simp: view_count_pos_iff holds_def seq_positions_def)
  then show "fst ` set (c_seq_pos c ! nat s) = seq_positions (view c) s" by blast
qed

lemma cells_seq_pos_min_ok:
  assumes "wf_cells c" "seq_id_ok s"
  shows "cells_seq_pos_min s c =
    Some (if seq_positions (view c) s = {} then -1 else Min (seq_positions (view c) s))"
proof -
  note k = wf_seq_pos_keys[OF assms]
  have "snd (hd m) > 0" if "omap_ok m" "m \<noteq> []" for m using that by (cases m) (auto simp: omap_ok_def)
  with k assms(2) show ?thesis
    by (auto simp: cells_seq_pos_min_def seq_id_ok_def omap_hd_Min Let_def)
qed

lemma cells_seq_pos_max_ok:
  assumes "wf_cells c" "seq_id_ok s"
  shows "cells_seq_pos_max s c =
    Some (if seq_positions (view c) s = {} then -1 else Max (seq_positions (view c) s))"
proof -
  note k = wf_seq_pos_keys[OF assms]
  have "snd (last m) > 0" if "omap_ok m" "m \<noteq> []" for m using that by (auto simp: omap_ok_def)
  with k assms(2) show ?thesis
    by (auto simp: cells_seq_pos_max_def seq_id_ok_def omap_last_Max Let_def)
qed

lemma cells_is_empty_ok [step_simps]:
  "wf_cells c \<Longrightarrow> i < length (c_pos c) \<Longrightarrow> cells_is_empty i c = Some (c_pos c ! i = -1)"
  using wf_cell_ok[of c i] by (auto simp: cells_is_empty_def cell_ok_def)

lemma cells_seq_has_ok [step_simps]:
  "i < length (c_pos c) \<Longrightarrow> seq_id_ok s \<Longrightarrow> cells_seq_has i s c = Some (s \<in> c_seq c ! i)"
  by (auto simp: cells_seq_has_def bitset_test_def seq_id_ok_def)

lemma cells_pos_in_ok [step_simps]:
  "i < length (c_pos c) \<Longrightarrow> cells_pos_in i p0 p1 c = Some (p0 \<le> c_pos c ! i \<and> c_pos c ! i < p1)"
  by (simp add: cells_pos_in_def)

lemma cells_get_ok [step_simps]:
  assumes "i < length (c_pos c)" "c_pos c ! i \<noteq> -1"
  shows "cells_pos_get i c = Some (c_pos c ! i)" "cells_ext_get i c = Some (c_ext c ! i)"
    "cells_get_shift i c = Some (c_shift c ! i)" "cells_seq_count i c = Some (card (c_seq c ! i))"
  using assms by (simp_all add: cells_pos_get_def cells_ext_get_def cells_get_shift_def cells_seq_count_def)

lemma find_upt_unique: "k < n \<Longrightarrow> (\<And>j. P j \<longleftrightarrow> j = k) \<Longrightarrow> find P [0..<n] = Some k"
  unfolding find_Some_iff by (rule exI[of _ k]) simp

lemma cells_seq_get_ok:
  assumes "wf_cells c" "i < length (c_pos c)" "c_seq c ! i = {s}"
  shows "cells_seq_get i c = Some s"
proof -
  have s: "seq_id_ok s" using wf_cell_ok[OF assms(1,2)] assms(3) by (simp add: cell_ok_def)
  have "find (\<lambda>t. int t \<in> {s}) [0..<LLAMA_MAX_SEQ] = Some (nat s)"
    using seq_id_ok_nat[OF s] by (intro find_upt_unique) auto
  with assms(2,3) seq_id_ok_nat[OF s] show ?thesis by (simp add: cells_seq_get_def)
qed

section \<open>Snapshot and restore\<close>

lemma view_eqI:
  assumes "length (c_pos c) = length (c_pos d)" "\<And>j. j < length (c_pos d) \<Longrightarrow> cell_at c j = cell_at d j"
  shows "view c = view d"
  using assms by (intro nth_equalityI) auto

lemma cells_cp_idxs_ok:
  assumes "\<And>idx. idx \<in> set idxs \<Longrightarrow> idx < length (c_pos c) \<and> c_shift c ! idx = 0"
  shows "\<exists>snap. cells_cp_idxs idxs c = Some snap \<and> c_pos snap = map ((!) (c_pos c)) idxs \<and>
    c_ext snap = map ((!) (c_ext c)) idxs \<and> c_seq snap = map ((!) (c_seq c)) idxs"
  using assms by (auto simp: cells_cp_idxs_def Let_def)

lemma cells_set_idxs_ok:
  assumes c: "wf_cells c" and d: "wf_cells d" and len: "length (c_pos d) = length (c_pos c)"
    and dist: "distinct idxs" and rng: "\<And>k. k \<in> set idxs \<Longrightarrow> k < length (c_pos c)"
    and sh: "\<And>k. k \<in> set idxs \<Longrightarrow> c_shift c ! k = 0 \<and> c_shift d ! k = 0"
    and snap: "cells_cp_idxs idxs c = Some snap"
  shows "\<exists>e. cells_set_idxs idxs snap d = Some e \<and> wf_cells e \<and> length (c_pos e) = length (c_pos c) \<and> c_has_shift e = c_has_shift d \<and>
    (\<forall>k < length (c_pos c). cell_at e k = (if k \<in> set idxs then cell_at c k else cell_at d k))"
proof -
  have s: "c_pos snap = map ((!) (c_pos c)) idxs" "c_ext snap = map ((!) (c_ext c)) idxs" "c_seq snap = map ((!) (c_seq c)) idxs"
    using cells_cp_idxs_ok[of idxs c] rng sh snap by auto
  let ?I = "\<lambda>j e. wf_cells e \<and> length (c_pos e) = length (c_pos c) \<and> c_has_shift e = c_has_shift d \<and>
    (\<forall>k < length (c_pos c). cell_at e k = (if k \<in> set (take j idxs) then cell_at c k else cell_at d k))"
  have "\<exists>e. for_loop (\<lambda>j. cells_set_step snap (idxs ! j) j) [0..<length idxs] d = Some e \<and> ?I (length idxs) e"
  proof (rule for_upt_rule[where I = ?I])
    show "?I 0 d" using d len by simp
  next
    fix j e
    assume j: "j < length idxs" and I: "?I j e"
    let ?k = "idxs ! j"
    have k: "?k \<in> set idxs" "?k < length (c_pos c)" using j rng by auto
    have fresh: "?k \<notin> set (take j idxs)" using j dist by (auto simp: in_set_conv_nth nth_eq_iff_index_eq)
    have shk: "c_shift e ! ?k = 0"
      using I k fresh sh[OF k(1)] by (metis cell_at_simps(3))
    have "\<exists>c'. cells_set_step snap ?k j e = Some c' \<and> cell_upd e ?k (cell_at c ?k) (c_has_shift e) c'"
      by (rule cells_set_step_ok) (use I k shk sh[OF k(1)] wf_cell_ok[OF c k(2)] j s in auto)
    then obtain e' where e': "cells_set_step snap ?k j e = Some e'" "cell_upd e ?k (cell_at c ?k) (c_has_shift e) e'" by blast
    have "cell_at e' m = (if m \<in> set (take (Suc j) idxs) then cell_at c m else cell_at d m)" if "m < length (c_pos c)" for m
      using cell_upd_cell_at[OF e'(2), of m] that I j by (auto simp: take_Suc_conv_app_nth)
    with e' I show "\<exists>s'. cells_set_step snap (idxs ! j) j e = Some s' \<and> ?I (Suc j) s'"
      using cell_upd_length[OF e'(2)] cell_updD[OF e'(2)] by auto
  qed
  then show ?thesis using s(1) by (auto simp: cells_set_idxs_def)
qed

lemma cells_set_idxs_restores:
  assumes c: "wf_cells c" and d: "wf_cells d" and len: "length (c_pos d) = length (c_pos c)"
    and dist: "distinct idxs" and rng: "\<And>k. k \<in> set idxs \<Longrightarrow> k < length (c_pos c)"
    and sh: "\<And>k. k \<in> set idxs \<Longrightarrow> c_shift c ! k = 0 \<and> c_shift d ! k = 0"
    and same: "\<And>k. k < length (c_pos c) \<Longrightarrow> k \<notin> set idxs \<Longrightarrow> cell_at d k = cell_at c k"
    and snap: "cells_cp_idxs idxs c = Some snap"
  shows "\<exists>e. cells_set_idxs idxs snap d = Some e \<and> wf_cells e \<and> view e = view c \<and> c_has_shift e = c_has_shift d"
proof -
  from cells_set_idxs_ok[OF c d len dist rng sh snap] obtain e where
    e: "cells_set_idxs idxs snap d = Some e" "wf_cells e" "length (c_pos e) = length (c_pos c)" "c_has_shift e = c_has_shift d"
      "\<forall>k < length (c_pos c). cell_at e k = (if k \<in> set idxs then cell_at c k else cell_at d k)" by blast
  have "view e = view c" using e(3,5) same by (intro view_eqI) auto
  with e show ?thesis by blast
qed

text \<open>
  A snapshot as a list of cells, and the effect of writing it back over any cells without a pending
  shift, also when an index is repeated.
\<close>

definition snap_view :: "llama_kv_cells \<Rightarrow> kv_cell list" where
  "snap_view snap = map (\<lambda>j. (cell_at snap j)\<lparr>v_shift := 0\<rparr>) [0..<length (c_pos snap)]"

definition snap_ok :: "llama_kv_cells \<Rightarrow> bool" where
  "snap_ok snap \<longleftrightarrow> length (c_ext snap) = length (c_pos snap) \<and> length (c_seq snap) = length (c_pos snap) \<and>
     list_all cell_ok (snap_view snap)"

fun put_cells :: "nat list \<Rightarrow> kv_cell list \<Rightarrow> kv_cell list \<Rightarrow> kv_cell list" where
  "put_cells (i # is) (v # vs) V = put_cells is vs (V[i := v])"
| "put_cells _ _ V = V"

lemma put_cells_snoc:
  "length is = length vs \<Longrightarrow> put_cells (is @ [i]) (vs @ [v]) V = (put_cells is vs V)[i := v]"
  by (induction "is" vs V rule: put_cells.induct) auto

lemma put_cells_inv:
  assumes "\<forall>v \<in> set V. P v" "\<forall>v \<in> set vs. P v"
  shows "\<forall>v \<in> set (put_cells is vs V). P v"
  using assms by (induction "is" vs V rule: put_cells.induct) (auto dest!: set_update_subset_insert[THEN subsetD])

lemma length_put_cells [simp]: "length (put_cells is vs V) = length V"
  by (induction "is" vs V rule: put_cells.induct) auto

lemma length_snap_view [simp]: "length (snap_view snap) = length (c_pos snap)"
  by (simp add: snap_view_def)

lemma put_cells_shift:
  assumes "k < length V" "v_shift (V ! k) = 0" "\<forall>v \<in> set vs. v_shift v = 0"
  shows "v_shift (put_cells is vs V ! k) = 0"
  using assms
proof (induction "is" vs V rule: put_cells.induct)
  case (1 i "is" v vs V)
  have "v_shift (V[i := v] ! k) = 0" using 1(2-4) by (cases "i = k") auto
  with 1 show ?case by simp
qed auto

lemma cells_cp_view:
  assumes wf: "wf_cells c" and ok: "\<And>idx. idx \<in> set idxs \<Longrightarrow> idx < length (c_pos c) \<and> c_shift c ! idx = 0"
  shows "\<exists>snap. cells_cp_idxs idxs c = Some snap \<and> snap_ok snap \<and> snap_view snap = map ((!) (view c)) idxs"
proof -
  from cells_cp_idxs_ok[of idxs c] ok obtain snap where s: "cells_cp_idxs idxs c = Some snap"
    "c_pos snap = map ((!) (c_pos c)) idxs" "c_ext snap = map ((!) (c_ext c)) idxs" "c_seq snap = map ((!) (c_seq c)) idxs" by auto
  have v: "snap_view snap = map ((!) (view c)) idxs"
    by (rule nth_equalityI) (use s ok in \<open>auto simp: snap_view_def cell_at_def\<close>)
  have "cell_ok (view c ! idx)" if "idx \<in> set idxs" for idx using ok[OF that] wf_cell_ok[OF wf] by simp
  then have "snap_ok snap" using s by (simp add: snap_ok_def v list_all_iff)
  with s(1) v show ?thesis by blast
qed

lemma cells_set_loop_ok:
  assumes wf: "wf_cells c" and s: "snap_ok snap" and len: "length idxs = length (c_pos snap)"
    and idx: "\<And>k. k \<in> set idxs \<Longrightarrow> k < length (c_pos c) \<and> c_shift c ! k = 0"
  shows "\<exists>c'. for_loop (\<lambda>j. cells_set_step snap (idxs ! j) j) [0..<length (c_pos snap)] c = Some c' \<and> wf_cells c' \<and>
    view c' = put_cells idxs (snap_view snap) (view c)"
proof -
  let ?n = "length (c_pos snap)" and ?W = "snap_view snap"
  let ?I = "\<lambda>j e. wf_cells e \<and> view e = put_cells (take j idxs) (take j ?W) (view c)"
  have "\<exists>c'. for_loop (\<lambda>j. cells_set_step snap (idxs ! j) j) [0..<?n] c = Some c' \<and> ?I ?n c'"
  proof (rule for_upt_rule[where I = ?I])
    show "?I 0 c" using wf by simp
    fix j e assume j: "j < ?n" and I: "?I j e"
    let ?k = "idxs ! j" and ?v = "(cell_at snap j)\<lparr>v_shift := 0\<rparr>"
    have k: "?k < length (c_pos c)" "c_shift c ! ?k = 0" using idx[of ?k] j len by auto
    have le: "length (c_pos e) = length (c_pos c)" using arg_cong[OF conjunct2[OF I], of length] by simp
    have "v_shift (view e ! ?k) = 0" unfolding conjunct2[OF I]
      by (rule put_cells_shift) (use k in \<open>auto simp: snap_view_def dest!: in_set_takeD\<close>)
    then have sh: "c_shift e ! ?k = 0" using k le by simp
    have v: "cell_ok ?v" using s j by (auto simp: snap_ok_def list_all_iff snap_view_def)
    from cells_set_step_ok[OF conjunct1[OF I] _ sh v, of snap j] k(1) le obtain e' where
      e': "cells_set_step snap ?k j e = Some e'" "cell_upd e ?k ?v (c_has_shift e) e'" by auto
    have "take (Suc j) idxs = take j idxs @ [?k]" "take (Suc j) ?W = take j ?W @ [?v]"
      using j len by (simp_all add: take_Suc_conv_app_nth snap_view_def)
    then have "view e' = put_cells (take (Suc j) idxs) (take (Suc j) ?W) (view c)"
      using cell_updD(2)[OF e'(2)] I j len by (simp add: put_cells_snoc)
    with e' cell_updD(1)[OF e'(2)] show "\<exists>s'. cells_set_step snap ?k j e = Some s' \<and> ?I (Suc j) s'" by blast
  qed
  with len show ?thesis by simp
qed

lemma cells_set_eq_idxs:
  assumes "i + length (c_pos other) \<le> length (c_pos c)"
  shows "cells_set i other c = cells_set_idxs [i..<i + length (c_pos other)] other c"
  using assms by (auto simp: cells_set_def cells_set_idxs_def intro!: for_loop_cong)

section \<open>The cells as an abstract data type\<close>

text \<open>
  The public mutators as one machine.  \<open>cells_pre\<close> collects the notes of the header file (``call
  only if \<dots>'') and its assertions: indices are in range, \<^verbatim>\<open>seq_keep\<close> is not called on a used cell without a
  sequence, \<^verbatim>\<open>set\<close> only on cells without a pending shift and with a snapshot of proper cells, such as \<^verbatim>\<open>cp\<close>
  returns.  Beyond the notes it asks that \<^verbatim>\<open>pos_set\<close> gets no negative position and \<^verbatim>\<open>pos_div\<close> a positive
  divisor; the code checks neither.  \<open>cells_spec\<close> is the effect on the list of cells, with no redundant
  index; positions and shifts are added at the width of \<^verbatim>\<open>int32_t\<close>.
\<close>

datatype cells_op =
    Op_reset
  | Op_reset_shift
  | Op_resize nat
  | Op_set nat llama_kv_cells
  | Op_set_idxs "nat list" llama_kv_cells
  | Op_rm nat
  | Op_seq_rm nat llama_seq_id
  | Op_seq_keep nat llama_seq_id
  | Op_seq_add nat llama_seq_id
  | Op_pos_set nat llama_pos
  | Op_ext_set nat llama_kv_cell_ext
  | Op_pos_add nat llama_pos
  | Op_pos_div nat int

fun cells_exec :: "cells_op \<Rightarrow> llama_kv_cells \<Rightarrow> llama_kv_cells option" where
  "cells_exec Op_reset c = Some (cells_reset c)"
| "cells_exec Op_reset_shift c = Some (cells_reset_shift c)"
| "cells_exec (Op_resize n) c = Some (cells_resize n c)"
| "cells_exec (Op_set i other) c = cells_set i other c"
| "cells_exec (Op_set_idxs idxs other) c = cells_set_idxs idxs other c"
| "cells_exec (Op_rm i) c = cells_rm i c"
| "cells_exec (Op_seq_rm i s) c = map_option fst (cells_seq_rm i s c)"
| "cells_exec (Op_seq_keep i s) c = map_option fst (cells_seq_keep i s c)"
| "cells_exec (Op_seq_add i s) c = cells_seq_add i s c"
| "cells_exec (Op_pos_set i p) c = cells_pos_set i p c"
| "cells_exec (Op_ext_set i e) c = cells_ext_set i e c"
| "cells_exec (Op_pos_add i d) c = map_option fst (cells_pos_add i d c)"
| "cells_exec (Op_pos_div i d) c = cells_pos_div i d c"

fun cells_pre :: "cells_op \<Rightarrow> kv_cell list \<Rightarrow> bool" where
  "cells_pre Op_reset V = True"
| "cells_pre Op_reset_shift V = True"
| "cells_pre (Op_resize n) V = True"
| "cells_pre (Op_set i other) V = (snap_ok other \<and> i + length (c_pos other) \<le> length V \<and>
     (\<forall>k \<in> set [i..<i + length (c_pos other)]. v_shift (V ! k) = 0))"
| "cells_pre (Op_set_idxs idxs other) V = (snap_ok other \<and> length idxs = length (c_pos other) \<and>
     (\<forall>k \<in> set idxs. k < length V \<and> v_shift (V ! k) = 0))"
| "cells_pre (Op_rm i) V = (i < length V \<and> v_pos (V ! i) \<noteq> -1)"
| "cells_pre (Op_seq_rm i s) V = (i < length V \<and> s \<in> v_seq (V ! i))"
| "cells_pre (Op_seq_keep i s) V = (i < length V \<and> seq_id_ok s \<and> (v_pos (V ! i) \<noteq> -1 \<longrightarrow> v_seq (V ! i) \<noteq> {}))"
| "cells_pre (Op_seq_add i s) V = (i < length V \<and> seq_id_ok s \<and> v_pos (V ! i) \<noteq> -1 \<and> s \<notin> v_seq (V ! i))"
| "cells_pre (Op_pos_set i p) V = (i < length V \<and> v_pos (V ! i) = -1 \<and> 0 \<le> p)"
| "cells_pre (Op_ext_set i e) V = (i < length V)"
| "cells_pre (Op_pos_add i d) V = (i < length V \<and> v_pos (V ! i) \<noteq> -1)"
| "cells_pre (Op_pos_div i d) V = (i < length V \<and> v_pos (V ! i) \<noteq> -1 \<and> 0 < d)"

fun cell_seq_rm :: "llama_seq_id \<Rightarrow> kv_cell \<Rightarrow> kv_cell" where
  "cell_seq_rm s v = (if v_seq v = {s} then empty_cell else v\<lparr>v_seq := v_seq v - {s}\<rparr>)"

fun cell_seq_keep :: "llama_seq_id \<Rightarrow> kv_cell \<Rightarrow> kv_cell" where
  "cell_seq_keep s v = (if s \<in> v_seq v then v\<lparr>v_seq := {s}\<rparr> else if v_seq v \<noteq> {} then empty_cell else v)"

fun cell_pos_add :: "llama_pos \<Rightarrow> kv_cell \<Rightarrow> kv_cell" where
  "cell_pos_add d v = (if to_i32 (v_pos v + d) < 0 then v\<lparr>v_pos := -1, v_shift := 0, v_seq := {}\<rparr>
     else v\<lparr>v_pos := to_i32 (v_pos v + d), v_shift := to_i32 (v_shift v + d)\<rparr>)"

fun cell_pos_div :: "int \<Rightarrow> kv_cell \<Rightarrow> kv_cell" where
  "cell_pos_div d v = v\<lparr>v_pos := v_pos v div d, v_shift := to_i32 (v_shift v + to_i32 (v_pos v - v_pos v div d))\<rparr>"

fun cells_spec :: "cells_op \<Rightarrow> kv_cell list \<Rightarrow> kv_cell list" where
  "cells_spec Op_reset V = replicate (length V) empty_cell"
| "cells_spec Op_reset_shift V = map (\<lambda>v. v\<lparr>v_shift := 0\<rparr>) V"
| "cells_spec (Op_resize n) V = replicate n empty_cell"
| "cells_spec (Op_set i other) V = put_cells [i..<i + length (c_pos other)] (snap_view other) V"
| "cells_spec (Op_set_idxs idxs other) V = put_cells idxs (snap_view other) V"
| "cells_spec (Op_rm i) V = V[i := empty_cell]"
| "cells_spec (Op_seq_rm i s) V = V[i := cell_seq_rm s (V ! i)]"
| "cells_spec (Op_seq_keep i s) V = V[i := cell_seq_keep s (V ! i)]"
| "cells_spec (Op_seq_add i s) V = V[i := (V ! i)\<lparr>v_seq := insert s (v_seq (V ! i))\<rparr>]"
| "cells_spec (Op_pos_set i p) V = V[i := (V ! i)\<lparr>v_pos := p\<rparr>]"
| "cells_spec (Op_ext_set i e) V = V[i := (V ! i)\<lparr>v_ext := e\<rparr>]"
| "cells_spec (Op_pos_add i d) V = V[i := cell_pos_add d (V ! i)]"
| "cells_spec (Op_pos_div i d) V = V[i := cell_pos_div d (V ! i)]"

text \<open>The per-cell effect of the four mutators that may free a cell or move it.\<close>

lemma cells_seq_rm_cell:
  assumes "wf_cells c" "i < length (c_pos c)" "s \<in> c_seq c ! i"
  shows "\<exists>c'. cells_seq_rm i s c = Some (c', c_seq c ! i = {s}) \<and>
    cell_upd c i (cell_seq_rm s (cell_at c i)) (c_has_shift c) c'"
  unfolding cell_seq_rm.simps cell_at_simps using assms by (rule cells_seq_rm_ok)

lemma cells_seq_keep_cell:
  assumes "wf_cells c" "i < length (c_pos c)" "seq_id_ok s" "c_pos c ! i \<noteq> -1 \<Longrightarrow> c_seq c ! i \<noteq> {}"
  shows "\<exists>c'. cells_seq_keep i s c = Some (c', s \<notin> c_seq c ! i \<and> c_seq c ! i \<noteq> {}) \<and>
    cell_upd c i (cell_seq_keep s (cell_at c i)) (c_has_shift c) c'"
  unfolding cell_seq_keep.simps cell_at_simps using assms by (rule cells_seq_keep_ok)

lemma cells_pos_add_cell:
  assumes "wf_cells c" "i < length (c_pos c)" "c_pos c ! i \<noteq> -1"
  shows "\<exists>c'. cells_pos_add i d c = Some (c', to_i32 (c_pos c ! i + d) < 0) \<and>
    cell_upd c i (cell_pos_add d (cell_at c i)) True c'"
  unfolding cell_pos_add.simps cell_at_simps using assms by (rule cells_pos_add_ok)

lemma cells_pos_div_cell:
  assumes "wf_cells c" "i < length (c_pos c)" "c_pos c ! i \<noteq> -1" "0 < d"
  shows "\<exists>c'. cells_pos_div i d c = Some c' \<and> cell_upd c i (cell_pos_div d (cell_at c i)) True c'"
  unfolding cell_pos_div.simps cell_at_simps using assms by (rule cells_pos_div_ok)

lemma cells_exec_refines:
  assumes wf: "wf_cells c" and pre: "cells_pre op (view c)"
  shows "\<exists>c'. cells_exec op c = Some c' \<and> wf_cells c' \<and> view c' = cells_spec op (view c)"
proof (cases op)
  case Op_reset
  then show ?thesis using cells_reset_wf[OF wf] by simp
next
  case Op_reset_shift
  then show ?thesis using cells_reset_shift_ok[OF wf] by simp
next
  case (Op_resize n)
  then show ?thesis using cells_resize_ok[OF wf_seq_pos_length[OF wf]] by simp
next
  case (Op_set i other)
  let ?is = "[i..<i + length (c_pos other)]"
  from Op_set pre have s: "snap_ok other" "i + length (c_pos other) \<le> length (c_pos c)"
    "\<And>k. k \<in> set ?is \<Longrightarrow> k < length (c_pos c) \<and> c_shift c ! k = 0" by auto
  have "length ?is = length (c_pos other)" by simp
  from cells_set_loop_ok[of c other ?is, OF wf s(1) this s(3)] show ?thesis
    using Op_set s(2) by (auto simp: cells_set_eq_idxs cells_set_idxs_def)
next
  case (Op_set_idxs idxs other)
  with pre have s: "snap_ok other" "length idxs = length (c_pos other)"
    "\<And>k. k \<in> set idxs \<Longrightarrow> k < length (c_pos c) \<and> c_shift c ! k = 0" by auto
  from cells_set_loop_ok[OF wf s] Op_set_idxs s(2) show ?thesis by (auto simp: cells_set_idxs_def)
next
  case (Op_rm i)
  then show ?thesis using cells_rm_ok[OF wf, of i] pre by (auto simp: cell_upd_def)
next
  case (Op_seq_rm i s)
  with pre have "i < length (c_pos c)" "s \<in> c_seq c ! i" by auto
  with cells_seq_rm_cell[OF wf this] Op_seq_rm show ?thesis
    by (auto simp: cell_upd_def simp del: cell_seq_rm.simps)
next
  case (Op_seq_keep i s)
  with pre have "i < length (c_pos c)" "seq_id_ok s" "c_pos c ! i \<noteq> -1 \<Longrightarrow> c_seq c ! i \<noteq> {}" by auto
  with cells_seq_keep_cell[OF wf this] Op_seq_keep show ?thesis
    by (auto simp: cell_upd_def simp del: cell_seq_keep.simps)
next
  case (Op_seq_add i s)
  then show ?thesis using cells_seq_add_ok[OF wf, of i s] pre by (auto simp: cell_upd_def)
next
  case (Op_pos_set i p)
  then show ?thesis using cells_pos_set_ok[OF wf, of i p] pre by (auto simp: cell_upd_def)
next
  case (Op_ext_set i e)
  then show ?thesis using cells_ext_set_ok[OF wf, of i e] pre by (auto simp: cell_upd_def)
next
  case (Op_pos_add i d)
  with pre have "i < length (c_pos c)" "c_pos c ! i \<noteq> -1" by auto
  with cells_pos_add_cell[OF wf this, of d] Op_pos_add show ?thesis
    by (auto simp: cell_upd_def simp del: cell_pos_add.simps)
next
  case (Op_pos_div i d)
  with pre have "i < length (c_pos c)" "c_pos c ! i \<noteq> -1" "0 < d" by auto
  with cells_pos_div_cell[OF wf this] Op_pos_div show ?thesis
    by (auto simp: cell_upd_def simp del: cell_pos_div.simps)
qed

fun cells_run :: "cells_op list \<Rightarrow> llama_kv_cells \<Rightarrow> llama_kv_cells option" where
  "cells_run [] c = Some c"
| "cells_run (op # ops) c = Option.bind (cells_exec op c) (cells_run ops)"

fun cells_pre_run :: "cells_op list \<Rightarrow> kv_cell list \<Rightarrow> bool" where
  "cells_pre_run [] V = True"
| "cells_pre_run (op # ops) V = (cells_pre op V \<and> cells_pre_run ops (cells_spec op V))"

lemma cells_run_ok:
  "wf_cells c \<Longrightarrow> cells_pre_run ops (view c) \<Longrightarrow>
   \<exists>c'. cells_run ops c = Some c' \<and> wf_cells c' \<and> view c' = fold cells_spec ops (view c)"
proof (induction ops arbitrary: c)
  case (Cons op ops)
  from Cons.prems cells_exec_refines[of c op] obtain d where
    "cells_exec op c = Some d" "wf_cells d" "view d = cells_spec op (view c)" by auto
  with Cons.IH[of d] Cons.prems show ?case by simp
qed simp

text \<open>
  C1. A fresh set of \<open>n\<close> cells, driven by any sequence of the mutators (\<^verbatim>\<open>reset\<close>, \<^verbatim>\<open>reset_shift\<close>, \<^verbatim>\<open>resize\<close>, both
  \<^verbatim>\<open>set\<close>, \<^verbatim>\<open>rm\<close>, \<^verbatim>\<open>seq_rm\<close>, \<^verbatim>\<open>seq_keep\<close>, \<^verbatim>\<open>seq_add\<close>, \<^verbatim>\<open>pos_set\<close>, \<^verbatim>\<open>ext_set\<close>, \<^verbatim>\<open>pos_add\<close>, \<^verbatim>\<open>pos_div\<close>), each called as
  \<open>cells_pre\<close> says, never trips an assertion; the class invariant holds at the end, the cells are those
  that the list specification computes without the redundant indices, and both forms of \<^verbatim>\<open>cp\<close>, on cells without a
  pending shift, return exactly these cells, as a snapshot that \<^verbatim>\<open>set\<close> accepts.
\<close>

theorem cells_run_refines:
  assumes "cells_pre_run ops (replicate n empty_cell)"
  shows "\<exists>c. cells_run ops (cells_resize n cells_new) = Some c \<and> wf_cells c \<and>
    view c = fold cells_spec ops (replicate n empty_cell) \<and>
    (\<forall>idxs. (\<forall>k \<in> set idxs. k < length (view c) \<and> v_shift (view c ! k) = 0) \<longrightarrow>
      (\<exists>snap. cells_cp_idxs idxs c = Some snap \<and> snap_ok snap \<and> snap_view snap = map ((!) (view c)) idxs)) \<and>
    (\<forall>i k. i + k \<le> length (view c) \<and> (\<forall>j \<in> {i..<i + k}. v_shift (view c ! j) = 0) \<longrightarrow>
      (\<exists>snap. cells_cp i k c = Some snap \<and> snap_ok snap \<and> snap_view snap = map ((!) (view c)) [i..<i + k]))"
proof -
  from cells_run_ok[OF cells_resize_new(1), of ops n] assms obtain c where
    c: "cells_run ops (cells_resize n cells_new) = Some c" "wf_cells c" "view c = fold cells_spec ops (replicate n empty_cell)"
    by (auto simp: cells_resize_new(2))
  have cp: "\<exists>snap. cells_cp_idxs idxs c = Some snap \<and> snap_ok snap \<and> snap_view snap = map ((!) (view c)) idxs"
    if "\<forall>k \<in> set idxs. k < length (view c) \<and> v_shift (view c ! k) = 0" for idxs
    by (rule cells_cp_view[OF c(2)]) (use that in auto)
  have "\<exists>snap. cells_cp i k c = Some snap \<and> snap_ok snap \<and> snap_view snap = map ((!) (view c)) [i..<i + k]"
    if "i + k \<le> length (view c) \<and> (\<forall>j \<in> {i..<i + k}. v_shift (view c ! j) = 0)" for i k
    using cp[of "[i..<i + k]"] that by (simp add: cells_cp_def del: nth_view)
  with c cp show ?thesis by blast
qed

theorem cells_run_refines_witness:
  "\<exists>c. cells_run [Op_pos_set 1 7, Op_seq_add 1 0, Op_seq_add 1 3, Op_pos_add 1 (-2), Op_seq_rm 1 0]
       (cells_resize 3 cells_new) = Some c \<and> wf_cells c \<and>
    view c = [empty_cell, \<lparr>v_pos = 5, v_ext = ext_zero, v_shift = -2, v_seq = {3}\<rparr>, empty_cell]"
  using cells_run_refines[of "[Op_pos_set 1 7, Op_seq_add 1 0, Op_seq_add 1 3, Op_pos_add 1 (-2), Op_seq_rm 1 0]" 3]
  by (auto simp: numeral_3_eq_3 seq_id_ok_def LLAMA_MAX_SEQ_def empty_cell_def insert_Diff_if i32_ok_def)

text \<open>
  C2. On a well-formed set of cells the index answers exactly: \<^verbatim>\<open>seq_pos_min\<close> and
  \<^verbatim>\<open>seq_pos_max\<close> are the least and the greatest position of the cells that the sequence owns,
  and -1 when it owns none.
\<close>

theorem seq_pos_min_max_exact:
  assumes "wf_cells c" "seq_id_ok s"
  shows "cells_seq_pos_min s c =
      Some (if seq_positions (view c) s = {} then -1 else Min (seq_positions (view c) s)) \<and>
    cells_seq_pos_max s c =
      Some (if seq_positions (view c) s = {} then -1 else Max (seq_positions (view c) s))"
  using cells_seq_pos_min_ok[OF assms] cells_seq_pos_max_ok[OF assms] by simp

lemma seq_positions_code: "seq_positions V s = v_pos ` set (filter (\<lambda>v. s \<in> v_seq v) V)"
  by (auto simp: seq_positions_def)

theorem seq_pos_min_max_exact_witness:
  "\<exists>c. cells_run [Op_pos_set 0 7, Op_seq_add 0 2, Op_pos_set 1 5, Op_seq_add 1 2]
       (cells_resize 3 cells_new) = Some c \<and> cells_seq_pos_min 2 c = Some 5 \<and> cells_seq_pos_max 2 c = Some 7"
proof -
  let ?ops = "[Op_pos_set 0 7, Op_seq_add 0 2, Op_pos_set 1 5, Op_seq_add 1 2]"
  have "cells_pre_run ?ops (view (cells_resize 3 cells_new))"
    by (simp add: cells_resize_new(2) numeral_3_eq_3 seq_id_ok_def LLAMA_MAX_SEQ_def)
  from cells_run_ok[OF cells_resize_new(1) this] obtain c where
    c: "cells_run ?ops (cells_resize 3 cells_new) = Some c" "wf_cells c"
      "view c = fold cells_spec ?ops (replicate 3 empty_cell)" by (auto simp: cells_resize_new(2))
  have p: "seq_positions (view c) 2 = {7, 5}"
    by (auto simp: seq_positions_code c(3) numeral_3_eq_3)
  show ?thesis using c(1) seq_pos_min_max_exact[OF c(2), of 2] p
    by (auto simp: seq_id_ok_def LLAMA_MAX_SEQ_def)
qed

section \<open>Evaluation\<close>

text \<open>
  The two loops over all sequence ids, restated over the ids the cell has.  Counting in \<^typ>\<open>int\<close> makes
  these the equations that concrete runs are evaluated with.
\<close>

lemma seq_pos_dec_frame: "cells_seq_pos_dec s p c = Some d \<Longrightarrow> c_seq d = c_seq c \<and> c_pos d = c_pos c"
  by (auto simp: cells_seq_pos_dec_def Let_def split: option.splits)

lemma seq_pos_rm_filter:
  "c_seq d = c_seq c \<Longrightarrow> c_pos d = c_pos c \<Longrightarrow>
   for_loop (\<lambda>s d. if int s \<in> c_seq d ! i then cells_seq_pos_dec (int s) (c_pos d ! i) d else Some d) xs d =
   for_loop (\<lambda>s. cells_seq_pos_dec (int s) (c_pos c ! i)) (filter (\<lambda>s. int s \<in> c_seq c ! i) xs) d"
proof (induction xs arbitrary: d)
  case (Cons s xs)
  then show ?case using seq_pos_dec_frame[of "int s" _ d] by (cases "cells_seq_pos_dec (int s) (c_pos c ! i) d") auto
qed simp

lemma seq_pos_add_filter:
  "c_seq d = c_seq c \<Longrightarrow> c_pos d = c_pos c \<Longrightarrow>
   fold (\<lambda>s d. if int s \<in> c_seq d ! i then cells_seq_pos_inc (int s) (c_pos d ! i) d else d) xs d =
   fold (\<lambda>s. cells_seq_pos_inc (int s) (c_pos c ! i)) (filter (\<lambda>s. int s \<in> c_seq c ! i) xs) d"
  by (induction xs arbitrary: d) (auto simp: cells_seq_pos_inc_def Let_def)

lemma map_int_upt: "map int [0..<n] = [0..int n - 1]"
  by (induction n) (simp_all add: upto_rec2)

lemma for_loop_map: "for_loop f (map g xs) s = for_loop (\<lambda>x. f (g x)) xs s"
  by (induction xs arbitrary: s) (auto split: option.split)

lemma filter_int_upt: "map int (filter (\<lambda>s. int s \<in> A) [0..<n]) = filter (\<lambda>s. s \<in> A) [0..int n - 1]"
  by (simp add: filter_map comp_def flip: map_int_upt)

lemma cells_seq_pos_rm_code [code]:
  "cells_seq_pos_rm i c = for_loop (\<lambda>s. cells_seq_pos_dec s (c_pos c ! i)) (filter (\<lambda>s. s \<in> c_seq c ! i) [0..int LLAMA_MAX_SEQ - 1]) c"
  by (simp add: cells_seq_pos_rm_def seq_pos_rm_filter for_loop_map flip: filter_int_upt)

lemma cells_seq_pos_add_code [code]:
  "cells_seq_pos_add i c = fold (\<lambda>s. cells_seq_pos_inc s (c_pos c ! i)) (filter (\<lambda>s. s \<in> c_seq c ! i) [0..int LLAMA_MAX_SEQ - 1]) c"
  by (simp add: cells_seq_pos_add_def seq_pos_add_filter fold_map comp_def flip: filter_int_upt)

end
