(* ===== verification/Batch.thy ===== *)
theory Batch
  imports Hparams Kv_Cells
begin

text \<open>
  \<^verbatim>\<open>src/llama-batch.cpp\<close>: \<^verbatim>\<open>llama_batch_allocr\<close> checks an input batch, fills in what the caller left
  out and splits it into micro-batches (ubatches).

  A nullable pointer of \<^verbatim>\<open>llama_batch\<close> is an \<open>option\<close>; embeddings are 32-bit patterns, which the
  code only copies.  The vectors of the class that only back the pointers of \<^verbatim>\<open>batch\<close> (\<^verbatim>\<open>pos\<close>,
  \<^verbatim>\<open>n_seq_id\<close>, \<^verbatim>\<open>seq_id\<close>, \<^verbatim>\<open>output\<close>) are stored in the batch itself.  The memory module is the pair of
  the functions \<^verbatim>\<open>seq_pos_min\<close> and \<^verbatim>\<open>seq_pos_max\<close>, which is all that is used of it here.
\<close>

section \<open>Data\<close>

record llama_batch =
  b_n_tokens :: nat
  b_token :: "llama_token list option"
  b_embd :: "u32 list option"
  b_pos :: "llama_pos list option"
  b_n_seq_id :: "nat list option"
  b_seq_id :: "llama_seq_id list list option"
  b_logits :: "int list option"

definition batch_empty :: llama_batch where
  "batch_empty = \<lparr>b_n_tokens = 0, b_token = None, b_embd = None, b_pos = None,
     b_n_seq_id = None, b_seq_id = None, b_logits = None\<rparr>"

definition llama_batch_get_one :: "llama_token list \<Rightarrow> nat \<Rightarrow> llama_batch" where
  "llama_batch_get_one tokens n_tokens = \<lparr>b_n_tokens = n_tokens, b_token = Some tokens, b_embd = None,
     b_pos = None, b_n_seq_id = None, b_seq_id = None, b_logits = None\<rparr>"

record llama_ubatch =
  u_equal_seqs :: bool
  u_n_tokens :: nat
  u_n_seq_tokens :: nat
  u_n_seqs :: nat
  u_n_seqs_unq :: nat
  u_n_pos :: nat
  u_token :: "llama_token list option"
  u_embd :: "u32 list option"
  u_pos :: "llama_pos list"
  u_n_seq_id :: "nat list"
  u_seq_id :: "llama_seq_id list list"
  u_seq_id_unq :: "llama_seq_id list"
  u_seq_idx :: "int list"
  u_output :: "int list"

definition is_pos_2d :: "llama_ubatch \<Rightarrow> bool" where
  "is_pos_2d u \<longleftrightarrow> u_n_pos u \<ge> 3"

definition ubatch_empty :: llama_ubatch where
  "ubatch_empty = \<lparr>u_equal_seqs = False, u_n_tokens = 0, u_n_seq_tokens = 0, u_n_seqs = 0,
     u_n_seqs_unq = 0, u_n_pos = 0, u_token = None, u_embd = None, u_pos = [], u_n_seq_id = [],
     u_seq_id = [], u_seq_id_unq = [], u_seq_idx = [], u_output = []\<rparr>"

record memory_view =
  mem_seq_pos_min :: "llama_seq_id \<Rightarrow> llama_pos"
  mem_seq_pos_max :: "llama_seq_id \<Rightarrow> llama_pos"

record llama_batch_allocr =
  a_batch :: llama_batch
  a_n_pos_per_embd :: nat
  a_n_embd :: nat
  a_n_seq_max :: nat
  a_n_outputs :: nat
  a_seq_id_unq :: "llama_seq_id list"
  a_seq_idx :: "int list"
  a_has_cpl :: bool
  a_seq_pos :: "llama_seq_id \<Rightarrow> llama_pos set"
  a_seq_cpl :: "(llama_seq_id \<times> llama_seq_id) set"
  a_seq_set :: "seq_set_t list"
  a_seq_set_map :: "seq_set_t \<Rightarrow> nat list"
  a_out_ids :: "nat list"
  a_n_used :: nat
  a_used :: "bool list"

definition allocr_new :: "nat \<Rightarrow> llama_batch_allocr" where
  "allocr_new n_pos = \<lparr>a_batch = batch_empty, a_n_pos_per_embd = n_pos, a_n_embd = 0, a_n_seq_max = 0,
     a_n_outputs = 0, a_seq_id_unq = [], a_seq_idx = replicate LLAMA_MAX_SEQ (-1), a_has_cpl = False,
     a_seq_pos = (\<lambda>_. {}), a_seq_cpl = {}, a_seq_set = [], a_seq_set_map = (\<lambda>_. []), a_out_ids = [],
     a_n_used = 0, a_used = []\<rparr>"

definition allocr_clear :: "llama_batch_allocr \<Rightarrow> llama_batch_allocr" where
  "allocr_clear a = a\<lparr>a_n_outputs := 0, a_batch := batch_empty, a_seq_id_unq := [],
     a_seq_pos := (\<lambda>_. {}), a_seq_cpl := {}, a_seq_set := [], a_seq_set_map := (\<lambda>_. []),
     a_seq_idx := map (\<lambda>_. -1) (a_seq_idx a)\<rparr>"

definition allocr_get_n_tokens :: "llama_batch_allocr \<Rightarrow> nat" where
  "allocr_get_n_tokens a = b_n_tokens (a_batch a)"

definition allocr_get_n_outputs :: "llama_batch_allocr \<Rightarrow> nat" where
  "allocr_get_n_outputs a = a_n_outputs a"

definition allocr_get_n_used :: "llama_batch_allocr \<Rightarrow> nat" where
  "allocr_get_n_used a = a_n_used a"

definition allocr_get_out_ids :: "llama_batch_allocr \<Rightarrow> nat list" where
  "allocr_get_out_ids a = a_out_ids a"

definition allocr_seq_pos_min :: "llama_batch_allocr \<Rightarrow> llama_seq_id \<Rightarrow> llama_pos" where
  "allocr_seq_pos_min a s = (if a_seq_pos a s = {} then -1 else Min (a_seq_pos a s))"

definition allocr_seq_pos_max :: "llama_batch_allocr \<Rightarrow> llama_seq_id \<Rightarrow> llama_pos" where
  "allocr_seq_pos_max a s = (if a_seq_pos a s = {} then -1 else Max (a_seq_pos a s))"

definition split_reset :: "llama_batch_allocr \<Rightarrow> llama_batch_allocr" where
  "split_reset a = a\<lparr>a_out_ids := [], a_n_used := 0, a_used := replicate (allocr_get_n_tokens a) False\<rparr>"

section \<open>init: validation and defaults\<close>

text \<open>
  A pointer that is not null is taken to address as many entries as the code reads (the contract of
  \<^verbatim>\<open>llama_batch\<close>); a null \<^verbatim>\<open>n_seq_id\<close> next to a given \<^verbatim>\<open>seq_id\<close> is dereferenced by the code, so it aborts.
\<close>

text \<open>The sequence ids of token \<open>i\<close>: the first \<^verbatim>\<open>n_seq_id[i]\<close> entries of \<^verbatim>\<open>seq_id[i]\<close>.\<close>

definition seq_ids :: "llama_batch \<Rightarrow> nat \<Rightarrow> llama_seq_id list" where
  "seq_ids b i = take (the (b_n_seq_id b) ! i) (the (b_seq_id b) ! i)"

definition batch_validate :: "nat \<Rightarrow> nat \<Rightarrow> llama_batch \<Rightarrow> bool option" where
  "batch_validate n_vocab n_seq_max b =
     (if n_seq_max > LLAMA_MAX_SEQ then Some False
      else if (case b_token b of None \<Rightarrow> False
               | Some tok \<Rightarrow> \<exists>i \<in> set [0..<b_n_tokens b]. tok ! i < 0 \<or> tok ! i \<ge> int n_vocab) then Some False
      else (case b_seq_id b of None \<Rightarrow> Some True
            | Some ids \<Rightarrow>
                (case b_n_seq_id b of None \<Rightarrow> None
                 | Some ns \<Rightarrow> Some (\<not> (\<exists>i \<in> set [0..<b_n_tokens b]. \<exists>s \<in> set [0..<ns ! i].
                     ids ! i ! s < 0 \<or> ids ! i ! s \<ge> int n_seq_max)))))"

definition batch_default_seq :: "llama_batch \<Rightarrow> llama_batch" where
  "batch_default_seq b =
     (let b = (case b_n_seq_id b of Some _ \<Rightarrow> b | None \<Rightarrow> b\<lparr>b_n_seq_id := Some (replicate (b_n_tokens b) 1)\<rparr>)
      in case b_seq_id b of Some _ \<Rightarrow> b | None \<Rightarrow> b\<lparr>b_seq_id := Some (replicate (b_n_tokens b) [0])\<rparr>)"

text \<open>
  Positions: the next position of each sequence starts after the last one in memory.  The array
  \<^verbatim>\<open>p0\<close> is initialised below \<^verbatim>\<open>n_seq_max\<close> only; reading another entry has no defined result.
\<close>

definition batch_p0 :: "memory_view option \<Rightarrow> nat \<Rightarrow> llama_seq_id \<Rightarrow> llama_pos option" where
  "batch_p0 mem n_seq_max s =
     (if 0 \<le> s \<and> s < int n_seq_max then
        Some (case mem of None \<Rightarrow> 0 | Some m \<Rightarrow> to_i32 (mem_seq_pos_max m s + 1))
      else None)"

definition batch_pos_step :: "llama_batch \<Rightarrow> nat \<Rightarrow>
    (llama_seq_id \<Rightarrow> llama_pos option) \<times> llama_pos list \<Rightarrow>
    ((llama_seq_id \<Rightarrow> llama_pos option) \<times> llama_pos list) option" where
  "batch_pos_step b i = (\<lambda>(p0, pos). do {
     require (the (b_seq_id b) ! i \<noteq> []);
     p \<leftarrow> p0 (hd (the (b_seq_id b) ! i));
     Some (fold (\<lambda>s p0. p0(s \<mapsto> to_i32 (p + 1))) (seq_ids b i) p0, pos @ [p])
   })"

definition batch_default_pos :: "memory_view option \<Rightarrow> nat \<Rightarrow> llama_batch \<Rightarrow> llama_batch option" where
  "batch_default_pos mem n_seq_max b =
     (case b_pos b of Some _ \<Rightarrow> Some b
      | None \<Rightarrow> do {
          (_, pos) \<leftarrow> for_loop (batch_pos_step b) [0..<b_n_tokens b] (batch_p0 mem n_seq_max, []);
          Some (b\<lparr>b_pos := Some pos\<rparr>)
        })"

definition batch_default_logits :: "bool \<Rightarrow> llama_batch \<Rightarrow> llama_batch" where
  "batch_default_logits output_all b =
     (case b_logits b of
        None \<Rightarrow>
          if output_all then b\<lparr>b_logits := Some (replicate (b_n_tokens b) 1)\<rparr>
          else b\<lparr>b_logits := Some ((replicate (b_n_tokens b) 0)[b_n_tokens b - 1 := 1])\<rparr>
      | Some l \<Rightarrow>
          if output_all then
            (if \<exists>i \<in> set [0..<b_n_tokens b]. l ! i = 0
             then b\<lparr>b_logits := Some (replicate (b_n_tokens b) 1)\<rparr> else b)
          else b)"

section \<open>init: statistics\<close>

definition count_outputs :: "llama_batch \<Rightarrow> nat" where
  "count_outputs b = fold (\<lambda>i n. if the (b_logits b) ! i \<noteq> 0 then n + 1 else n) [0..<b_n_tokens b] 0"

definition couple_step :: "llama_batch \<Rightarrow> nat \<Rightarrow> llama_batch_allocr \<Rightarrow> llama_batch_allocr" where
  "couple_step b i a =
     (let s0 = hd (the (b_seq_id b) ! i); ids = seq_ids b i in
      fold (\<lambda>s a.
          let s1 = ids ! s;
              a = a\<lparr>a_seq_pos := (a_seq_pos a)(s1 := insert (the (b_pos b) ! i) (a_seq_pos a s1))\<rparr>
          in if s > 0 then a\<lparr>a_seq_cpl := insert (s1, s0) (a_seq_cpl a), a_has_cpl := True\<rparr> else a)
        [0..<length ids] a)"

definition seq_set_step :: "llama_batch \<Rightarrow> nat \<Rightarrow> llama_batch_allocr \<Rightarrow> llama_batch_allocr" where
  "seq_set_step b i a =
     (let cur = set (seq_ids b i) in
      a\<lparr>a_seq_set := a_seq_set a @ [cur],
        a_seq_set_map := (a_seq_set_map a)(cur := a_seq_set_map a cur @ [i])\<rparr>)"

definition seq_unq_index :: "nat \<Rightarrow> seq_set_t \<Rightarrow> int list \<Rightarrow> int list \<times> llama_seq_id list" where
  "seq_unq_index n_seq_max seq_set_unq idx0 =
     fold (\<lambda>s (idx, unq). if int s \<in> seq_set_unq then (idx[s := int (length unq)], unq @ [int s]) else (idx, unq))
       [0..<n_seq_max] (idx0, [])"

definition batch_stats :: "nat \<Rightarrow> nat \<Rightarrow> llama_batch_allocr \<Rightarrow> llama_batch_allocr" where
  "batch_stats n_embd n_seq_max a =
     (let b = a_batch a;
          a = a\<lparr>a_n_embd := n_embd, a_n_seq_max := n_seq_max,
                a_n_outputs := a_n_outputs a + count_outputs b, a_has_cpl := False\<rparr>;
          a = fold (couple_step b) [0..<b_n_tokens b] a;
          a = fold (seq_set_step b) [0..<b_n_tokens b] a;
          seq_set_unq = (\<Union>i \<in> set [0..<b_n_tokens b]. set (seq_ids b i));
          (idx, unq) = seq_unq_index n_seq_max seq_set_unq (a_seq_idx a)
      in a\<lparr>a_seq_idx := idx, a_seq_id_unq := unq\<rparr>)"

section \<open>init: consistency checks\<close>

definition check_positions :: "memory_view option \<Rightarrow> llama_batch_allocr \<Rightarrow> bool" where
  "check_positions mem a \<longleftrightarrow>
     (if a_n_pos_per_embd a > 1 then
        (\<forall>s \<in> set [0..<a_n_seq_max a]. a_seq_pos a (int s) = {} \<or>
          (let p0 = (case mem of Some m \<Rightarrow> mem_seq_pos_max m (int s) | None \<Rightarrow> -1) in
           case b_token (a_batch a) of
             Some _ \<Rightarrow> \<not> (p0 \<ge> 0 \<and> p0 \<ge> allocr_seq_pos_min a (int s))
           | None \<Rightarrow> \<not> (p0 \<ge> 0 \<and> p0 > allocr_seq_pos_min a (int s))))
      else
        (\<forall>s \<in> set [0..<a_n_seq_max a]. a_seq_pos a (int s) = {} \<or>
          (let p0 = (case mem of Some m \<Rightarrow> mem_seq_pos_max m (int s) | None \<Rightarrow> -1) in
           (p0 \<ge> 0 \<longrightarrow> \<not> (allocr_seq_pos_min a (int s) \<noteq> p0 + 1)) \<and>
           \<not> (to_i32 (allocr_seq_pos_max a (int s) - allocr_seq_pos_min a (int s) + 1) > int (card (a_seq_pos a (int s)))))))"

definition check_coupled :: "memory_view option \<Rightarrow> llama_batch_allocr \<Rightarrow> bool" where
  "check_coupled mem a \<longleftrightarrow>
     (case mem of None \<Rightarrow> True
      | Some m \<Rightarrow> \<forall>s0 \<in> set [0..<a_n_seq_max a]. \<forall>s1 \<in> set [0..<a_n_seq_max a].
          (int s0, int s1) \<in> a_seq_cpl a \<longrightarrow>
          \<not> (mem_seq_pos_min m (int s0) \<noteq> mem_seq_pos_min m (int s1) \<or>
             mem_seq_pos_max m (int s0) \<noteq> mem_seq_pos_max m (int s1)))"

text \<open>
  The last block walks the tokens with, per sequence, the intersection of the sequence sets seen so
  far (initially all bits set) and a position \<^verbatim>\<open>cur_seq_pos\<close> (initially -1).  Nothing in the loop
  assigns \<^verbatim>\<open>cur_seq_pos\<close>.
\<close>

record seq_check =
  cur_seq_set :: "llama_seq_id \<Rightarrow> seq_set_t"
  cur_seq_pos :: "llama_seq_id \<Rightarrow> llama_pos"

definition check_sets_init :: seq_check where
  "check_sets_init = \<lparr>cur_seq_set = (\<lambda>_. int ` {0..<LLAMA_MAX_SEQ}), cur_seq_pos = (\<lambda>_. -1)\<rparr>"

definition check_sets_seq :: "llama_batch_allocr \<Rightarrow> nat \<Rightarrow> llama_seq_id \<Rightarrow> seq_check \<Rightarrow> seq_check option" where
  "check_sets_seq a i s k =
     (let k = k\<lparr>cur_seq_set := (cur_seq_set k)(s := cur_seq_set k s \<inter> a_seq_set a ! i)\<rparr> in
      if cur_seq_set k s = {} then None
      else if the (b_pos (a_batch a)) ! i < cur_seq_pos k s then None
      else Some k)"

definition check_sets :: "llama_batch_allocr \<Rightarrow> bool" where
  "check_sets a \<longleftrightarrow>
     for_loop (\<lambda>i. for_loop (check_sets_seq a i) (seq_ids (a_batch a) i))
       [0..<b_n_tokens (a_batch a)] check_sets_init \<noteq> None"

definition batch_init :: "llama_batch \<Rightarrow> nat \<Rightarrow> memory_view option \<Rightarrow> nat \<Rightarrow> nat \<Rightarrow> bool \<Rightarrow>
    llama_batch_allocr \<Rightarrow> (llama_batch_allocr \<times> bool) option" where
  "batch_init batch_inp n_vocab mem n_embd n_seq_max output_all a = do {
     let a = (allocr_clear a)\<lparr>a_batch := batch_inp\<rparr>;
     require (b_n_tokens (a_batch a) > 0);
     valid \<leftarrow> batch_validate n_vocab n_seq_max (a_batch a);
     if \<not> valid then Some (a, False)
     else do {
       let b = batch_default_seq (a_batch a);
       b \<leftarrow> batch_default_pos mem n_seq_max b;
       let b = batch_default_logits output_all b;
       let a = batch_stats n_embd n_seq_max (a\<lparr>a_batch := b\<rparr>);
       if \<not> check_positions mem a then Some (a, False)
       else if \<not> check_coupled mem a then Some (a, False)
       else if \<not> check_sets a then Some (a, False)
       else Some (split_reset a, True)
     }
   }"

section \<open>Building and splitting\<close>

definition ubatch_reserve :: "nat \<Rightarrow> nat \<Rightarrow> llama_batch_allocr \<Rightarrow> llama_batch_allocr \<times> llama_ubatch" where
  "ubatch_reserve n_seq_tokens n_seqs a =
     (let n_tokens = n_seq_tokens * n_seqs;
          a = split_reset (allocr_clear a);
          (idx, unq) = fold (\<lambda>s (idx, unq). (idx[s := int s], unq @ [int s])) [0..<n_seqs]
            (replicate LLAMA_MAX_SEQ (-1), [])
      in (a, \<lparr>u_equal_seqs = True, u_n_tokens = n_tokens, u_n_seq_tokens = n_seq_tokens, u_n_seqs = n_seqs,
              u_n_seqs_unq = n_seqs, u_n_pos = a_n_pos_per_embd a,
              u_token = Some (replicate n_tokens 0), u_embd = None, u_pos = replicate n_tokens 0,
              u_n_seq_id = replicate n_tokens 0, u_seq_id = replicate n_tokens [],
              u_seq_id_unq = unq, u_seq_idx = idx, u_output = replicate n_tokens 0\<rparr>))"

definition ubatch_of :: "llama_batch_allocr \<Rightarrow> nat list \<Rightarrow> nat \<Rightarrow> bool \<Rightarrow> llama_ubatch" where
  "ubatch_of a idxs n_seqs equal_seqs =
     (let b = a_batch a;
          n_tokens = length idxs;
          seq_set_unq = (\<Union>i \<in> set idxs. set (seq_ids b i));
          (idx, unq) = seq_unq_index (a_n_seq_max a) seq_set_unq (replicate LLAMA_MAX_SEQ (-1))
      in \<lparr>u_equal_seqs = equal_seqs, u_n_tokens = n_tokens, u_n_seq_tokens = n_tokens div n_seqs,
          u_n_seqs = n_seqs, u_n_seqs_unq = length unq, u_n_pos = a_n_pos_per_embd a,
          u_token = map_option (\<lambda>tok. map (\<lambda>i. tok ! i) idxs) (b_token b),
          u_embd = map_option (\<lambda>e. concat (map (\<lambda>i. take (a_n_embd a) (drop (i * a_n_embd a) e)) idxs)) (b_embd b),
          u_pos = concat (map (\<lambda>j. map (\<lambda>i. the (b_pos b) ! ((if b_token b \<noteq> None then 0 else j * b_n_tokens b) + i)) idxs)
            [0..<a_n_pos_per_embd a]),
          u_n_seq_id = map (\<lambda>i. the (b_n_seq_id b) ! i) idxs,
          u_seq_id = map (seq_ids b) idxs,
          u_seq_id_unq = unq, u_seq_idx = idx,
          u_output = map (\<lambda>i. the (b_logits b) ! i) idxs\<rparr>)"

definition ubatch_add :: "nat list \<Rightarrow> nat \<Rightarrow> bool \<Rightarrow> llama_batch_allocr \<Rightarrow> (llama_batch_allocr \<times> llama_ubatch) option" where
  "ubatch_add idxs n_seqs equal_seqs a = do {
     require (n_seqs \<noteq> 0 \<and> length idxs mod n_seqs = 0);
     Some (a\<lparr>a_out_ids := a_out_ids a @ filter (\<lambda>i. the (b_logits (a_batch a)) ! i \<noteq> 0) idxs\<rparr>,
           ubatch_of a idxs n_seqs equal_seqs)
   }"

definition first_unused :: "bool list \<Rightarrow> nat" where
  "first_unused us = length (takeWhile (\<lambda>b. b) us)"

function simple_loop :: "nat \<Rightarrow> nat \<Rightarrow> nat list \<Rightarrow> bool list \<Rightarrow> nat \<Rightarrow> nat list \<times> bool list \<times> nat" where
  "simple_loop n_ubatch cur_idx idxs us n_used =
     (let idxs = idxs @ [cur_idx]; us = us[cur_idx := True]; n_used = n_used + 1; cur_idx = cur_idx + 1 in
      if cur_idx \<ge> length us then (idxs, us, n_used)
      else if length idxs \<ge> n_ubatch then (idxs, us, n_used)
      else simple_loop n_ubatch cur_idx idxs us n_used)"
  by pat_completeness auto
termination
  by (relation "measure (\<lambda>(_, cur, _, us, _). length us - cur)") auto

definition split_simple :: "nat \<Rightarrow> llama_batch_allocr \<Rightarrow> (llama_batch_allocr \<times> llama_ubatch) option" where
  "split_simple n_ubatch a =
     (let cur_idx = first_unused (a_used a) in
      if cur_idx \<ge> length (a_used a) then Some (a, ubatch_empty)
      else
        (let (idxs, us, n_used) = simple_loop n_ubatch cur_idx [] (a_used a) (a_n_used a)
         in ubatch_add idxs (length idxs) False (a\<lparr>a_used := us, a_n_used := n_used\<rparr>)))"

text \<open>\<^verbatim>\<open>split_equal\<close>: the non-overlapping sequence sets of this ubatch \<dots>\<close>

fun equal_sets :: "llama_batch_allocr \<Rightarrow> nat \<Rightarrow> bool \<Rightarrow> nat list \<Rightarrow> seq_set_t list \<Rightarrow> llama_seq_id \<Rightarrow> seq_set_t list" where
  "equal_sets a n_ubatch sequential [] sets last_seq_id = sets"
| "equal_sets a n_ubatch sequential (i # is) sets last_seq_id =
     (if a_used a ! i then equal_sets a n_ubatch sequential is sets last_seq_id
      else
        (let add = (\<forall>S \<in> set sets. S \<inter> a_seq_set a ! i = {});
             s0 = hd (the (b_seq_id (a_batch a)) ! i);
             add = (if sequential then add \<and> (sets = [] \<or> s0 = last_seq_id + 1) else add)
         in if add then
              (let sets = sets @ [a_seq_set a ! i]
               in if length sets > n_ubatch then sets
                  else equal_sets a n_ubatch sequential is sets s0)
            else equal_sets a n_ubatch sequential is sets last_seq_id))"

text \<open>\<dots> and the lock-step expansion, one token of every set per round.\<close>

definition expand_round :: "(seq_set_t \<Rightarrow> nat list) \<Rightarrow> seq_set_t list \<Rightarrow>
    nat list \<times> nat list list \<times> bool list \<times> nat \<Rightarrow> nat list \<times> nat list list \<times> bool list \<times> nat" where
  "expand_round m sets = fold (\<lambda>s (cur_idx, idxs_per_seq, us, n_used).
       let idx = m (sets ! s) ! (cur_idx ! s)
       in (cur_idx[s := cur_idx ! s + 1], idxs_per_seq[s := idxs_per_seq ! s @ [idx]], us[idx := True], n_used + 1))
     [0..<length sets]"

fun expand_loop :: "nat \<Rightarrow> (seq_set_t \<Rightarrow> nat list) \<Rightarrow> seq_set_t list \<Rightarrow> nat \<Rightarrow>
    nat list \<times> nat list list \<times> bool list \<times> nat \<Rightarrow> (nat list \<times> nat list list \<times> bool list \<times> nat) option" where
  "expand_loop 0 m sets n_ubatch st = None"
| "expand_loop (Suc fuel) m sets n_ubatch st =
     (let (cur_idx, idxs_per_seq, us, n_used) = st in
      if \<exists>s \<in> set [0..<length sets]. cur_idx ! s \<ge> length (m (sets ! s)) then Some st
      else
        (let st = expand_round m sets st; (cur_idx, idxs_per_seq, us, n_used) = st in
         if (length (idxs_per_seq ! 0) + 1) * length sets > n_ubatch then Some st
         else expand_loop fuel m sets n_ubatch st))"

definition split_equal :: "nat \<Rightarrow> bool \<Rightarrow> llama_batch_allocr \<Rightarrow> (llama_batch_allocr \<times> llama_ubatch) option" where
  "split_equal n_ubatch sequential a =
     (if sequential \<and> a_has_cpl a then Some (a, ubatch_empty)
      else
        (let sets = equal_sets a n_ubatch sequential [0..<b_n_tokens (a_batch a)] [] (-1);
             n_seqs = length sets
         in if n_seqs = 0 then Some (a, ubatch_empty)
            else do {
              let cur_idx = map (\<lambda>S. length (takeWhile (\<lambda>i. a_used a ! i) (a_seq_set_map a S))) sets;
              require (\<forall>s \<in> set [0..<n_seqs]. cur_idx ! s < length (a_seq_set_map a (sets ! s)));
              (_, idxs_per_seq, us, n_used) \<leftarrow>
                expand_loop (b_n_tokens (a_batch a) + 1) (a_seq_set_map a) sets n_ubatch
                  (cur_idx, replicate n_seqs [], a_used a, a_n_used a);
              ubatch_add (concat idxs_per_seq) n_seqs True (a\<lparr>a_used := us, a_n_used := n_used\<rparr>)
            }))"

text \<open>\<^verbatim>\<open>split_seq\<close>: follow one sequence set through the batch.\<close>

definition next_in_set :: "llama_batch_allocr \<Rightarrow> bool list \<Rightarrow> seq_set_t \<Rightarrow> nat \<Rightarrow> nat" where
  "next_in_set a us S cur =
     cur + 1 + length (takeWhile (\<lambda>i. us ! i \<or> S \<inter> a_seq_set a ! i \<noteq> a_seq_set a ! i)
       [cur + 1..<b_n_tokens (a_batch a)])"

function seq_loop :: "llama_batch_allocr \<Rightarrow> nat \<Rightarrow> nat \<Rightarrow> seq_set_t \<Rightarrow> nat list \<Rightarrow> bool list \<Rightarrow> nat \<Rightarrow>
    nat list \<times> bool list \<times> nat" where
  "seq_loop a n_ubatch cur_idx S idxs us n_used =
     (let idxs = idxs @ [cur_idx]; us = us[cur_idx := True]; n_used = n_used + 1 in
      if length idxs \<ge> n_ubatch then (idxs, us, n_used)
      else
        (let nxt = next_in_set a us S cur_idx in
         if nxt \<ge> b_n_tokens (a_batch a) then (idxs, us, n_used)
         else seq_loop a n_ubatch nxt (a_seq_set a ! nxt) idxs us n_used))"
  by pat_completeness auto
termination
  by (relation "measure (\<lambda>(a, _, cur, _). b_n_tokens (a_batch a) - cur)") (auto simp: next_in_set_def)

definition split_seq :: "nat \<Rightarrow> llama_batch_allocr \<Rightarrow> (llama_batch_allocr \<times> llama_ubatch) option" where
  "split_seq n_ubatch a =
     (let cur_idx = first_unused (a_used a) in
      if cur_idx \<ge> length (a_used a) then Some (a, ubatch_empty)
      else
        (let (idxs, us, n_used) = seq_loop a n_ubatch cur_idx (a_seq_set a ! cur_idx) [] (a_used a) (a_n_used a)
         in ubatch_add idxs 1 True (a\<lparr>a_used := us, a_n_used := n_used\<rparr>)))"

end
