(* ===== verification/Batch_Init.thy ===== *)
theory Batch_Init
  imports Batch
begin

text \<open>
  Correctness of \<^verbatim>\<open>llama_batch_allocr::init\<close>: the positions it generates, and what an accepted batch
  guarantees about the positions of each sequence.
\<close>

section \<open>Generated positions\<close>

text \<open>The sequence whose next position token \<open>i\<close> takes, and the next position of a sequence in memory.\<close>

definition first_seq :: "llama_batch \<Rightarrow> nat \<Rightarrow> llama_seq_id" where
  "first_seq b i = hd (the (b_seq_id b) ! i)"

definition next_pos :: "memory_view option \<Rightarrow> llama_seq_id \<Rightarrow> llama_pos" where
  "next_pos mem s = (case mem of None \<Rightarrow> 0 | Some m \<Rightarrow> mem_seq_pos_max m s + 1)"

text \<open>Token \<open>j\<close> is the last one before \<open>n\<close> in sequence \<open>s\<close>.\<close>

definition last_in_seq :: "llama_batch \<Rightarrow> nat \<Rightarrow> llama_seq_id \<Rightarrow> nat \<Rightarrow> bool" where
  "last_in_seq b n s j \<longleftrightarrow> j < n \<and> s \<in> set (seq_ids b j) \<and> (\<forall>k. j < k \<and> k < n \<longrightarrow> s \<notin> set (seq_ids b k))"

lemma fold_map_upd: "fold (\<lambda>s f. f(s \<mapsto> v)) ss f s = (if s \<in> set ss then Some v else f s)"
  by (induction ss arbitrary: f) auto

lemma last_in_seq_Suc:
  "last_in_seq b (Suc n) s j \<longleftrightarrow> (if s \<in> set (seq_ids b n) then j = n else last_in_seq b n s j)"
  by (auto simp: last_in_seq_def less_Suc_eq)

text \<open>What the loop knows after \<open>n\<close> tokens: the next position of every sequence, and how each position came about.\<close>

definition numbered :: "memory_view option \<Rightarrow> nat \<Rightarrow> llama_batch \<Rightarrow> nat \<Rightarrow> (llama_seq_id \<Rightarrow> llama_pos option) \<Rightarrow> llama_pos list \<Rightarrow> bool" where
  "numbered mem ns b n p0 pos \<longleftrightarrow> length pos = n \<and>
     (\<forall>s. (\<forall>j < n. s \<notin> set (seq_ids b j)) \<longrightarrow> p0 s = batch_p0 mem ns s) \<and>
     (\<forall>s j. last_in_seq b n s j \<longrightarrow> p0 s = Some (to_i32 (pos ! j + 1))) \<and>
     (\<forall>i < n. (\<forall>j. last_in_seq b i (first_seq b i) j \<longrightarrow> pos ! i = to_i32 (pos ! j + 1)) \<and>
       ((\<forall>j < i. first_seq b i \<notin> set (seq_ids b j)) \<longrightarrow> batch_p0 mem ns (first_seq b i) = Some (pos ! i)))"

lemma last_in_seq_cases:
  obtains j where "last_in_seq b n s j" | "\<forall>j < n. s \<notin> set (seq_ids b j)"
proof (induction n)
  case (Suc n)
  then show ?case by (metis last_in_seq_Suc less_Suc_eq)
qed simp

lemma batch_pos_loop:
  assumes "for_loop (batch_pos_step b) [0..<n] (batch_p0 mem ns, []) = Some (p0, pos)"
  shows "numbered mem ns b n p0 pos"
  using assms
proof (induction n arbitrary: p0 pos)
  case 0
  then show ?case by (simp add: numbered_def last_in_seq_def)
next
  case (Suc n)
  let ?s = "first_seq b n"
  from Suc.prems obtain x where x: "for_loop (batch_pos_step b) [0..<n] (batch_p0 mem ns, []) = Some x" "batch_pos_step b n x = Some (p0, pos)"
    by (auto simp: for_loop_append bind_eq_Some_conv split: option.splits)
  then obtain q ps p where q: "for_loop (batch_pos_step b) [0..<n] (batch_p0 mem ns, []) = Some (q, ps)"
    "q ?s = Some p" "p0 = fold (\<lambda>s p0. p0(s \<mapsto> to_i32 (p + 1))) (seq_ids b n) q" "pos = ps @ [p]"
    by (cases x) (auto simp: batch_pos_step_def first_seq_def bind_eq_Some_conv split: if_splits)
  note I = Suc.IH[OF q(1), unfolded numbered_def]
  have p0: "p0 s = (if s \<in> set (seq_ids b n) then Some (to_i32 (p + 1)) else q s)" for s
    unfolding q(3) fold_map_upd ..
  have l: "length ps = n" using I by simp
  have old: "pos ! i = ps ! i" if "i < n" for i using that l by (simp add: q(4) nth_append)
  have new: "pos ! n = p" unfolding q(4) using l by (metis nth_append_length)
  show ?case unfolding numbered_def
  proof (intro conjI allI impI)
    show "length pos = Suc n" using l q(4) by simp
    show "p0 s = batch_p0 mem ns s" if "\<forall>j < Suc n. s \<notin> set (seq_ids b j)" for s
      using that I p0 by simp
    show "p0 s = Some (to_i32 (pos ! j + 1))" if "last_in_seq b (Suc n) s j" for s j
    proof (cases "s \<in> set (seq_ids b n)")
      case True
      then show ?thesis using that new by (simp add: p0 last_in_seq_Suc)
    next
      case False
      then have "last_in_seq b n s j" using that by (simp add: last_in_seq_Suc)
      moreover from this have "j < n" by (simp add: last_in_seq_def)
      ultimately show ?thesis using I False old by (simp add: p0)
    qed
    fix i assume i: "i < Suc n"
    show "pos ! i = to_i32 (pos ! j + 1)" if "last_in_seq b i (first_seq b i) j" for j
    proof (cases "i = n")
      case True
      then have "q ?s = Some (to_i32 (ps ! j + 1))" using that I by blast
      moreover have "j < n" using that True by (simp add: last_in_seq_def)
      ultimately show ?thesis using q(2) new old True by simp
    next
      case False
      then have "i < n" "j < n" using i that by (auto simp: last_in_seq_def)
      then show ?thesis using I that old by simp
    qed
    show "batch_p0 mem ns (first_seq b i) = Some (pos ! i)" if "\<forall>j < i. first_seq b i \<notin> set (seq_ids b j)"
    proof (cases "i = n")
      case True
      then show ?thesis using that I q(2) new by simp
    next
      case False
      then show ?thesis using that i I old by simp
    qed
  qed
qed

lemma batch_p0_next:
  assumes "batch_p0 mem ns s = Some p" "0 \<le> next_pos mem s" "next_pos mem s \<le> INT32_MAX"
  shows "p = next_pos mem s"
proof -
  have "to_i32 (next_pos mem s) = next_pos mem s" using assms(2,3) by (intro to_i32_id i32_okI)
  with assms(1) show ?thesis by (auto simp: batch_p0_def next_pos_def split: if_splits option.splits)
qed

text \<open>With room above the last positions in memory no position leaves \<^verbatim>\<open>int32_t\<close>.\<close>

lemma numbered_exact:
  assumes "numbered mem ns b n p0 pos" and b: "\<And>s. 0 \<le> next_pos mem s" "\<And>s. next_pos mem s + int n \<le> 2 ^ 31" and i: "i < n"
  shows "0 \<le> pos ! i" "\<exists>s. pos ! i \<le> next_pos mem s + int i"
    "last_in_seq b i (first_seq b i) j \<Longrightarrow> pos ! i = pos ! j + 1"
    "\<forall>j < i. first_seq b i \<notin> set (seq_ids b j) \<Longrightarrow> pos ! i = next_pos mem (first_seq b i)"
proof -
  have first: "pos ! i = next_pos mem (first_seq b i)" if "i < n" "\<forall>j < i. first_seq b i \<notin> set (seq_ids b j)" for i
  proof (rule batch_p0_next)
    show "batch_p0 mem ns (first_seq b i) = Some (pos ! i)" using assms(1) that by (simp add: numbered_def)
    show "next_pos mem (first_seq b i) \<le> INT32_MAX" using b(2)[of "first_seq b i"] that(1) by (simp add: INT32_MAX_def)
  qed (rule b(1))
  have step: "pos ! i = pos ! j + 1" if "i < n" "last_in_seq b i (first_seq b i) j" "0 \<le> pos ! j" "pos ! j \<le> next_pos mem s + int j" for i j s
  proof -
    have j: "j < i" using that(2) by (simp add: last_in_seq_def)
    have "pos ! j + 1 \<le> INT32_MAX" using that(1,4) b(2)[of s] j by (simp add: INT32_MAX_def)
    then have "to_i32 (pos ! j + 1) = pos ! j + 1" using that(3) by (intro to_i32_id i32_okI) auto
    then show ?thesis using assms(1) that(1,2) by (simp add: numbered_def)
  qed
  have bound: "i < n \<Longrightarrow> 0 \<le> pos ! i \<and> (\<exists>s. pos ! i \<le> next_pos mem s + int i)" for i
  proof (induction i rule: less_induct)
    case (less i)
    show ?case
    proof (rule last_in_seq_cases[of b i "first_seq b i"])
      fix j assume l: "last_in_seq b i (first_seq b i) j"
      then have j: "j < i" by (simp add: last_in_seq_def)
      with less.IH[OF j] less.prems obtain s where s: "0 \<le> pos ! j" "pos ! j \<le> next_pos mem s + int j" by auto
      have "pos ! i = pos ! j + 1" by (rule step[OF less.prems l s])
      with s j show ?thesis by (intro conjI exI[of _ s]) auto
    next
      assume "\<forall>j < i. first_seq b i \<notin> set (seq_ids b j)"
      from first[OF less.prems this] b(1)[of "first_seq b i"] show ?thesis by (intro conjI exI[of _ "first_seq b i"]) auto
    qed
  qed
  show "0 \<le> pos ! i" "\<exists>s. pos ! i \<le> next_pos mem s + int i" using bound[OF i] by auto
  show "pos ! i = pos ! j + 1" if "last_in_seq b i (first_seq b i) j"
  proof -
    have "j < i" using that by (simp add: last_in_seq_def)
    with bound[of j] i obtain s where "0 \<le> pos ! j" "pos ! j \<le> next_pos mem s + int j" by auto
    then show ?thesis by (rule step[OF i that])
  qed
  show "pos ! i = next_pos mem (first_seq b i)" if "\<forall>j < i. first_seq b i \<notin> set (seq_ids b j)" by (rule first[OF i that])
qed

section \<open>Accepted positions\<close>

lemma couple_step_pos:
  "a_seq_pos (couple_step b i a) s = (if s \<in> set (seq_ids b i) then insert (the (b_pos b) ! i) (a_seq_pos a s) else a_seq_pos a s)"
proof -
  let ?ids = "seq_ids b i"
  let ?f = "\<lambda>j a. let s1 = ?ids ! j;
              a = a\<lparr>a_seq_pos := (a_seq_pos a)(s1 := insert (the (b_pos b) ! i) (a_seq_pos a s1))\<rparr>
          in if j > 0 then a\<lparr>a_seq_cpl := insert (s1, hd (the (b_seq_id b) ! i)) (a_seq_cpl a), a_has_cpl := True\<rparr> else a"
  have "a_seq_pos (fold ?f js a) s = (if s \<in> (!) ?ids ` set js then insert (the (b_pos b) ! i) (a_seq_pos a s) else a_seq_pos a s)" for js
    by (induction js arbitrary: a) (auto simp: Let_def)
  moreover have "(!) ?ids ` set [0..<length ?ids] = set ?ids" by (metis map_nth set_map)
  ultimately show ?thesis by (simp only: couple_step_def Let_def)
qed

lemma fold_couple_step_pos:
  "a_seq_pos (fold (couple_step b) is a) s = a_seq_pos a s \<union> {the (b_pos b) ! i |i. i \<in> set is \<and> s \<in> set (seq_ids b i)}"
  by (induction "is" arbitrary: a) (auto simp: couple_step_pos)

lemma fold_seq_set_step_pos: "a_seq_pos (fold (seq_set_step b) is a) = a_seq_pos a"
  by (induction "is" arbitrary: a) (auto simp: seq_set_step_def Let_def)

text \<open>The positions the batch has in sequence \<open>s\<close>.\<close>

definition batch_positions :: "llama_batch \<Rightarrow> llama_seq_id \<Rightarrow> llama_pos set" where
  "batch_positions b s = {the (b_pos b) ! i |i. i < b_n_tokens b \<and> s \<in> set (seq_ids b i)}"

lemma fold_couple_step_const:
  "a_batch (fold (couple_step b) is a) = a_batch a \<and> a_n_pos_per_embd (fold (couple_step b) is a) = a_n_pos_per_embd a \<and>
   a_n_seq_max (fold (couple_step b) is a) = a_n_seq_max a"
proof (induction "is" arbitrary: a)
  case (Cons i "is")
  let ?ids = "seq_ids b i"
  let ?f = "\<lambda>j a. let s1 = ?ids ! j;
              a = a\<lparr>a_seq_pos := (a_seq_pos a)(s1 := insert (the (b_pos b) ! i) (a_seq_pos a s1))\<rparr>
          in if j > 0 then a\<lparr>a_seq_cpl := insert (s1, hd (the (b_seq_id b) ! i)) (a_seq_cpl a), a_has_cpl := True\<rparr> else a"
  have "a_batch (fold ?f js a) = a_batch a \<and> a_n_pos_per_embd (fold ?f js a) = a_n_pos_per_embd a \<and> a_n_seq_max (fold ?f js a) = a_n_seq_max a" for js
    by (induction js arbitrary: a) (auto simp: Let_def)
  with Cons show ?case by (simp add: couple_step_def Let_def)
qed simp

lemma fold_seq_set_step_const:
  "a_batch (fold (seq_set_step b) is a) = a_batch a \<and> a_n_pos_per_embd (fold (seq_set_step b) is a) = a_n_pos_per_embd a \<and>
   a_n_seq_max (fold (seq_set_step b) is a) = a_n_seq_max a"
  by (induction "is" arbitrary: a) (auto simp: seq_set_step_def Let_def)

lemma batch_stats_pos:
  assumes "a_seq_pos a = (\<lambda>_. {})"
  shows "a_seq_pos (batch_stats n_embd n_seq_max a) = batch_positions (a_batch a)"
    "a_batch (batch_stats n_embd n_seq_max a) = a_batch a"
    "a_n_pos_per_embd (batch_stats n_embd n_seq_max a) = a_n_pos_per_embd a"
    "a_n_seq_max (batch_stats n_embd n_seq_max a) = n_seq_max"
  using assms by (auto simp: batch_stats_def Let_def fold_seq_set_step_pos fold_couple_step_pos fold_couple_step_const
      fold_seq_set_step_const batch_positions_def fun_eq_iff split: prod.splits)

lemma batch_init_accepted:
  assumes "batch_init b n_vocab mem n_embd n_seq_max out_all a0 = Some (a, True)"
  shows "\<exists>a1. check_positions mem a1 \<and> a_seq_pos a1 = batch_positions (a_batch a) \<and> a_batch a1 = a_batch a \<and>
    a_n_pos_per_embd a1 = a_n_pos_per_embd a0 \<and> a_n_seq_max a1 = n_seq_max"
proof -
  from assms obtain b' a1 where
    a1: "a1 = batch_stats n_embd n_seq_max ((allocr_clear a0)\<lparr>a_batch := batch_default_logits out_all b'\<rparr>)"
    "check_positions mem a1" "a = split_reset a1"
    by (auto simp: batch_init_def Let_def bind_eq_Some_conv split: if_splits)
  have "a_seq_pos ((allocr_clear a0)\<lparr>a_batch := batch_default_logits out_all b'\<rparr>) = (\<lambda>_. {})" by (simp add: allocr_clear_def)
  from batch_stats_pos[OF this] a1 show ?thesis
    by (intro exI[of _ a1]) (auto simp: split_reset_def allocr_clear_def)
qed

text \<open>The batch that an accepting \<^verbatim>\<open>init\<close> works on.\<close>

lemma batch_init_batch:
  assumes "batch_init b n_vocab mem n_embd n_seq_max out_all a0 = Some (a, True)"
  shows "\<exists>b'. batch_default_pos mem n_seq_max (batch_default_seq b) = Some b' \<and> a_batch a = batch_default_logits out_all b'"
proof -
  from assms obtain b' where b': "batch_default_pos mem n_seq_max (batch_default_seq b) = Some b'"
    and a: "a = split_reset (batch_stats n_embd n_seq_max ((allocr_clear a0)\<lparr>a_batch := batch_default_logits out_all b'\<rparr>))"
    by (auto simp: batch_init_def Let_def bind_eq_Some_conv split: if_splits)
  have "a_seq_pos ((allocr_clear a0)\<lparr>a_batch := batch_default_logits out_all b'\<rparr>) = (\<lambda>_. {})" by (simp add: allocr_clear_def)
  from batch_stats_pos(2)[OF this] a b' show ?thesis by (auto simp: split_reset_def)
qed

text \<open>
  C7.  When the caller gives no positions, \<^verbatim>\<open>init\<close> gives every token the position after the last earlier token
  of the batch that belongs to the token's first sequence, and if there is none, the position after the last
  one the memory holds for that sequence (0 without a memory).  Tokens may belong to several sequences.
  Apart from the positions only the defaults for sequences and outputs are filled in.  The positions are
  assumed to have room: the next position of no sequence plus the number of tokens exceeds the range of
  \<^verbatim>\<open>int32_t\<close>.
\<close>

theorem generated_positions:
  assumes "batch_init b n_vocab mem n_embd n_seq_max output_all a0 = Some (a, True)" "b_pos b = None"
    and "\<forall>s. 0 \<le> next_pos mem s \<and> next_pos mem s + int (b_n_tokens b) \<le> 2 ^ 31"
  shows "\<exists>pos. length pos = b_n_tokens b \<and>
    a_batch a = batch_default_logits output_all ((batch_default_seq b)\<lparr>b_pos := Some pos\<rparr>) \<and>
    (\<forall>i < b_n_tokens b.
      (\<forall>j. last_in_seq (a_batch a) i (first_seq (a_batch a) i) j \<longrightarrow> pos ! i = pos ! j + 1) \<and>
      ((\<forall>j < i. first_seq (a_batch a) i \<notin> set (seq_ids (a_batch a) j)) \<longrightarrow> pos ! i = next_pos mem (first_seq (a_batch a) i)))"
proof -
  let ?b = "batch_default_seq b"
  have n: "b_n_tokens ?b = b_n_tokens b" "b_pos ?b = b_pos b" by (auto simp: batch_default_seq_def Let_def split: option.splits)
  from batch_init_batch[OF assms(1)] assms(2) n obtain p0 pos where
    r: "for_loop (batch_pos_step ?b) [0..<b_n_tokens b] (batch_p0 mem n_seq_max, []) = Some (p0, pos)"
      "a_batch a = batch_default_logits output_all (?b\<lparr>b_pos := Some pos\<rparr>)"
    by (auto simp: batch_default_pos_def bind_eq_Some_conv split: prod.splits)
  have ids: "seq_ids (a_batch a) = seq_ids ?b" "first_seq (a_batch a) = first_seq ?b"
    unfolding r(2) by (auto simp: batch_default_logits_def seq_ids_def first_seq_def fun_eq_iff split: option.splits)
  have l: "last_in_seq (a_batch a) = last_in_seq ?b" by (simp add: fun_eq_iff last_in_seq_def ids)
  note I = batch_pos_loop[OF r(1)]
  have "length pos = b_n_tokens b" using I by (simp add: numbered_def)
  with r(2) numbered_exact(3,4)[OF I] assms(3) show ?thesis unfolding ids l by blast
qed

theorem generated_positions_witness:
  "let b = \<lparr>b_n_tokens = 4, b_token = Some [7, 8, 9, 7], b_embd = None, b_pos = None,
     b_n_seq_id = Some [1, 1, 1, 1], b_seq_id = Some [[0], [1], [0], [0]], b_logits = None\<rparr>;
     mem = Some \<lparr>mem_seq_pos_min = (\<lambda>_. 0), mem_seq_pos_max = (\<lambda>s. if s = 0 then 4 else -1)\<rparr>
   in \<exists>a pos. batch_init b 10 mem 4 2 False (allocr_new 1) = Some (a, True) \<and> b_pos (a_batch a) = Some pos \<and>
     pos ! 0 = 5 \<and> pos ! 2 = pos ! 0 + 1"
proof -
  let ?b = "\<lparr>b_n_tokens = 4, b_token = Some [7, 8, 9, 7], b_embd = None, b_pos = None,
     b_n_seq_id = Some [1, 1, 1, 1], b_seq_id = Some [[0], [1], [0], [0]], b_logits = None\<rparr>"
  let ?mem = "Some \<lparr>mem_seq_pos_min = (\<lambda>_ :: int. 0 :: int), mem_seq_pos_max = (\<lambda>s. if s = 0 then 4 else -1)\<rparr>"
  let ?i = "batch_init ?b 10 ?mem 4 2 False (allocr_new 1)"
  have "case ?i of None \<Rightarrow> False | Some (a, r) \<Rightarrow> r \<and> map (seq_ids (a_batch a)) [0, 1, 2] = [[0], [1], [0]] \<and>
      map (first_seq (a_batch a)) [0, 2] = [0, 0]" by code_simp
  then obtain a where a: "?i = Some (a, True)" "seq_ids (a_batch a) 0 = [0]" "seq_ids (a_batch a) 1 = [1]"
    "first_seq (a_batch a) 0 = 0" "first_seq (a_batch a) 2 = 0" by (auto split: option.splits prod.splits)
  have room: "\<forall>s. 0 \<le> next_pos ?mem s \<and> next_pos ?mem s + int (b_n_tokens ?b) \<le> 2 ^ 31" by (simp add: next_pos_def)
  from generated_positions[OF a(1) _ room] obtain pos where
    p: "a_batch a = batch_default_logits False ((batch_default_seq ?b)\<lparr>b_pos := Some pos\<rparr>)"
      "\<And>i j. i < 4 \<Longrightarrow> last_in_seq (a_batch a) i (first_seq (a_batch a) i) j \<Longrightarrow> pos ! i = pos ! j + 1"
      "\<And>i. i < 4 \<Longrightarrow> \<forall>j < i. first_seq (a_batch a) i \<notin> set (seq_ids (a_batch a) j) \<Longrightarrow> pos ! i = next_pos ?mem (first_seq (a_batch a) i)"
    by auto
  have "last_in_seq (a_batch a) 2 0 0" using a(2,3) by (auto simp: last_in_seq_def less_2_cases_iff)
  then have "pos ! 2 = pos ! 0 + 1" using p(2)[of 2 0] a(5) by simp
  moreover have "pos ! 0 = 5" using p(3)[of 0] a(4) by (simp add: next_pos_def)
  moreover have "b_pos (a_batch a) = Some pos" unfolding p(1) by (simp add: batch_default_logits_def split: option.splits)
  ultimately show ?thesis using a(1) by (auto simp: Let_def)
qed

text \<open>An integer set whose span is no larger than its size is an interval.\<close>

lemma interval_of_card:
  fixes P :: "int set"
  assumes "P \<noteq> {}" "Max P - Min P + 1 \<le> int (card P)" "finite P"
  shows "P = {Min P..Min P + int (card P) - 1}"
proof -
  have sub: "P \<subseteq> {Min P..Max P}" using assms by auto
  have "Min P \<le> Max P" using assms by simp
  then have "card {Min P..Max P} \<le> card P" using assms(2) by simp
  then have eq: "P = {Min P..Max P}" using card_seteq[OF _ sub] by simp
  have "int (card P) = Max P - Min P + 1" using arg_cong[OF eq, of card] \<open>Min P \<le> Max P\<close> by simp
  with eq show ?thesis by simp
qed

text \<open>
  C8.  For a model with one position per embedding (with M-RoPE positions may jump), \<^verbatim>\<open>init\<close> accepts only
  batches in which the positions of every sequence form an interval without gaps, and if the memory already
  holds the sequence, the interval starts at the position after the last one in memory.  The span of the
  positions is assumed to fit \<^verbatim>\<open>int32_t\<close>: for the positions 0 and \<^verbatim>\<open>INT32_MAX\<close> the check overflows.
\<close>

theorem accepted_positions_contiguous:
  assumes "batch_init b n_vocab mem n_embd n_seq_max output_all a0 = Some (a, True)"
    and "a_n_pos_per_embd a0 \<le> 1" "s < n_seq_max" "batch_positions (a_batch a) (int s) \<noteq> {}"
    and "\<forall>p \<in> batch_positions (a_batch a) (int s). \<forall>q \<in> batch_positions (a_batch a) (int s). q - p < INT32_MAX"
  shows "\<exists>lo. batch_positions (a_batch a) (int s) = {lo..lo + int (card (batch_positions (a_batch a) (int s))) - 1} \<and>
    (case mem of None \<Rightarrow> True | Some m \<Rightarrow> mem_seq_pos_max m (int s) \<ge> 0 \<longrightarrow> lo = mem_seq_pos_max m (int s) + 1)"
proof -
  let ?P = "batch_positions (a_batch a) (int s)"
  from batch_init_accepted[OF assms(1)] obtain a1 where a1: "check_positions mem a1" "a_seq_pos a1 = batch_positions (a_batch a)"
    "a_batch a1 = a_batch a" "a_n_pos_per_embd a1 = a_n_pos_per_embd a0" "a_n_seq_max a1 = n_seq_max" by blast
  have fin: "finite ?P" by (simp add: batch_positions_def)
  have "a_seq_pos a1 (int s) = {} \<or>
      (let p0 = (case mem of Some m \<Rightarrow> mem_seq_pos_max m (int s) | None \<Rightarrow> -1) in
       (p0 \<ge> 0 \<longrightarrow> \<not> (allocr_seq_pos_min a1 (int s) \<noteq> p0 + 1)) \<and>
       \<not> (to_i32 (allocr_seq_pos_max a1 (int s) - allocr_seq_pos_min a1 (int s) + 1) > int (card (a_seq_pos a1 (int s)))))"
    using a1(1,4,5) assms(2,3) unfolding check_positions_def by auto
  moreover have "Min ?P \<in> ?P" "Max ?P \<in> ?P" using assms(4) fin by simp_all
  moreover from this assms(5) have "Max ?P - Min ?P < INT32_MAX" by blast
  moreover have "Min ?P \<le> Max ?P" using assms(4) fin by simp
  ultimately have "to_i32 (Max ?P - Min ?P + 1) = Max ?P - Min ?P + 1" and c: "a_seq_pos a1 (int s) = {} \<or>
      (let p0 = (case mem of Some m \<Rightarrow> mem_seq_pos_max m (int s) | None \<Rightarrow> -1) in
       (p0 \<ge> 0 \<longrightarrow> \<not> (allocr_seq_pos_min a1 (int s) \<noteq> p0 + 1)) \<and>
       \<not> (to_i32 (allocr_seq_pos_max a1 (int s) - allocr_seq_pos_min a1 (int s) + 1) > int (card (a_seq_pos a1 (int s)))))"
    by (auto intro!: to_i32_id i32_okI)
  then have "Max ?P - Min ?P + 1 \<le> int (card ?P)" and
    "(case mem of None \<Rightarrow> True | Some m \<Rightarrow> mem_seq_pos_max m (int s) \<ge> 0 \<longrightarrow> Min ?P = mem_seq_pos_max m (int s) + 1)"
    using assms(4) by (auto simp: a1(2) allocr_seq_pos_min_def allocr_seq_pos_max_def Let_def split: option.splits)
  with interval_of_card[OF assms(4) _ fin] show ?thesis by blast
qed

theorem accepted_positions_contiguous_witness:
  "\<exists>a. batch_init (llama_batch_get_one [3, 1, 2] 3) 10 None 4 1 False (allocr_new 1) = Some (a, True) \<and>
    (\<exists>lo. batch_positions (a_batch a) (int 0) = {lo..lo + int (card (batch_positions (a_batch a) (int 0))) - 1})"
proof -
  let ?i = "batch_init (llama_batch_get_one [3, 1, 2] 3) 10 None 4 1 False (allocr_new 1)"
  have "case ?i of None \<Rightarrow> False | Some (a, r) \<Rightarrow> r \<and> 0 < b_n_tokens (a_batch a) \<and> int 0 \<in> set (seq_ids (a_batch a) 0)" by code_simp
  then obtain a where a: "?i = Some (a, True)" "batch_positions (a_batch a) (int 0) \<noteq> {}"
    by (auto simp: batch_positions_def split: option.splits prod.splits)
  have "a_n_pos_per_embd (allocr_new 1) \<le> 1" by (simp add: allocr_new_def)
  note np = this
  have "b_pos (llama_batch_get_one [3, 1, 2] 3) = None" by (simp add: llama_batch_get_one_def)
  then have "case ?i of None \<Rightarrow> False | Some (a, r) \<Rightarrow> the (b_pos (a_batch a)) = [0, 1, 2] \<and> b_n_tokens (a_batch a) = 3" by code_simp
  then have p: "the (b_pos (a_batch a)) = [0, 1, 2]" "b_n_tokens (a_batch a) = 3" using a(1) by auto
  have bd: "p = 0 \<or> p = 1 \<or> p = 2" if "p \<in> batch_positions (a_batch a) (int 0)" for p
    using that by (auto simp: batch_positions_def p numeral_3_eq_3 less_Suc_eq)
  have "\<forall>p \<in> batch_positions (a_batch a) (int 0). \<forall>q \<in> batch_positions (a_batch a) (int 0). q - p < INT32_MAX"
  proof (intro ballI)
    fix p q assume "p \<in> batch_positions (a_batch a) (int 0)" "q \<in> batch_positions (a_batch a) (int 0)"
    from bd[OF this(1)] bd[OF this(2)] show "q - p < INT32_MAX" by (auto simp: INT32_MAX_def)
  qed
  from accepted_positions_contiguous[OF a(1) np _ a(2) this] a(1) show ?thesis by auto
qed

text \<open>
  The order of the positions is not part of what is accepted, although the last check of \<^verbatim>\<open>init\<close>
  announces to reject decreasing positions: a batch with the positions 1, 0 passes.
\<close>

lemma init_accepts_decreasing:
  "map_option snd (batch_init \<lparr>b_n_tokens = 2, b_token = Some [1, 2], b_embd = None, b_pos = Some [1, 0],
     b_n_seq_id = Some [1, 1], b_seq_id = Some [[0], [0]], b_logits = None\<rparr> 10 None 4 1 False (allocr_new 1)) = Some True"
  by code_simp

end
