(* ===== verification/Kv_Cache.thy ===== *)
theory Kv_Cache
  imports Batch
begin

text \<open>
  \<^verbatim>\<open>src/llama-kv-cache.cpp\<close>: the unified / per-sequence KV cache.  The state is the cells of every
  stream, the search heads, the map from sequences to streams, the pending stream copies and the
  K/V data.  The data of a cell (its K and V rows over all layers) is a list of bytes that the
  operations below only clear or copy; what the compute graphs write to it is a parameter of
  \<open>kv_update\<close>.  Sizes and indices are \<open>nat\<close>.
\<close>

section \<open>State\<close>

record slot_info =
  si_s0 :: nat
  si_s1 :: nat
  si_strm :: "nat list"
  si_idxs :: "nat list list"

definition slot_empty :: slot_info where
  "slot_empty = \<lparr>si_s0 = 0, si_s1 = 0, si_strm = [], si_idxs = []\<rparr>"

definition slot_is_empty :: "slot_info \<Rightarrow> bool" where
  "slot_is_empty si \<longleftrightarrow> si_idxs si = []"

definition slot_size :: "slot_info \<Rightarrow> nat option" where
  "slot_size si = do {
     require (length (si_idxs si) = length (si_strm si));
     require (si_idxs si \<noteq> []);
     Some (length (si_idxs si ! 0))
   }"

definition slot_n_stream :: "slot_info \<Rightarrow> nat" where
  "slot_n_stream si = length (si_strm si)"

definition slot_head :: "slot_info \<Rightarrow> nat option" where
  "slot_head si = do {
     require (length (si_idxs si) = 1);
     require (si_idxs si ! 0 \<noteq> []);
     Some (si_idxs si ! 0 ! 0)
   }"

definition slot_is_contiguous :: "slot_info \<Rightarrow> bool" where
  "slot_is_contiguous si \<longleftrightarrow>
     (if si_idxs si = [] \<or> si_idxs si ! 0 = [] then True
      else if length (si_idxs si) > 1 then False
      else (let h = si_idxs si ! 0 ! 0
            in \<forall>i \<in> set [0..<length (si_idxs si ! 0)]. si_idxs si ! 0 ! i = h + i))"

type_synonym cell_data = "nat list"

record llama_kv_cache =
  kv_hparams :: llama_hparams
  kv_can_shift :: bool
  kv_v_trans :: bool
  kv_n_seq_max :: nat
  kv_n_stream :: nat
  kv_n_pad :: nat
  kv_n_swa :: nat
  kv_swa_type :: llama_swa_type
  kv_v_heads :: "nat list"
  kv_v_cells :: "llama_kv_cells list"
  kv_seq_to_stream :: "nat list"
  kv_ssrc :: "nat list"
  kv_sdst :: "nat list"
  kv_data :: "cell_data list list"

definition kv_new :: "llama_hparams \<Rightarrow> bool \<Rightarrow> bool \<Rightarrow> bool \<Rightarrow> nat \<Rightarrow> nat \<Rightarrow> nat \<Rightarrow> nat \<Rightarrow> llama_swa_type \<Rightarrow>
    cell_data list list \<Rightarrow> llama_kv_cache option" where
  "kv_new hp can_shift v_trans unified kv_size n_seq_max n_pad n_swa swa_type data = do {
     let n_stream = (if unified then 1 else n_seq_max);
     require (n_pad \<noteq> 0 \<and> kv_size mod n_pad = 0);
     require (n_stream = 1 \<or> n_stream = n_seq_max);
     let s2s = replicate LLAMA_MAX_SEQ 0;
     let s2s = (if n_stream > 1 then fold (\<lambda>s m. m[s := s]) [0..<n_stream] (vec_resize n_stream 0 s2s) else s2s);
     Some \<lparr>kv_hparams = hp, kv_can_shift = can_shift, kv_v_trans = v_trans, kv_n_seq_max = n_seq_max,
           kv_n_stream = n_stream, kv_n_pad = n_pad, kv_n_swa = n_swa, kv_swa_type = swa_type,
           kv_v_heads = replicate n_stream 0, kv_v_cells = replicate n_stream (cells_resize kv_size cells_new),
           kv_seq_to_stream = s2s, kv_ssrc = [], kv_sdst = [], kv_data = map (map (map (\<lambda>_. 0))) data\<rparr>
   }"

definition kv_seq_ok :: "llama_kv_cache \<Rightarrow> llama_seq_id \<Rightarrow> bool" where
  "kv_seq_ok kv s \<longleftrightarrow> 0 \<le> s \<and> nat s < length (kv_seq_to_stream kv)"

definition kv_stream :: "llama_kv_cache \<Rightarrow> llama_seq_id \<Rightarrow> nat" where
  "kv_stream kv s = kv_seq_to_stream kv ! nat s"

definition kv_put :: "nat \<Rightarrow> llama_kv_cells \<Rightarrow> nat \<Rightarrow> llama_kv_cache \<Rightarrow> llama_kv_cache" where
  "kv_put st cells head kv = kv\<lparr>kv_v_cells := (kv_v_cells kv)[st := cells], kv_v_heads := (kv_v_heads kv)[st := head]\<rparr>"

section \<open>Sequence operations\<close>

definition kv_clear :: "bool \<Rightarrow> llama_kv_cache \<Rightarrow> llama_kv_cache" where
  "kv_clear data kv =
     (let kv = fold (\<lambda>s kv. kv_put s (cells_reset (kv_v_cells kv ! s)) 0 kv) [0..<kv_n_stream kv] kv
      in if data then kv\<lparr>kv_data := map (map (map (\<lambda>_. 0))) (kv_data kv)\<rparr> else kv)"

definition clamp_p0 :: "llama_pos \<Rightarrow> llama_pos" where
  "clamp_p0 p0 = (if p0 < 0 then 0 else p0)"

definition clamp_p1 :: "llama_pos \<Rightarrow> llama_pos" where
  "clamp_p1 p1 = (if p1 < 0 then INT32_MAX else p1)"

text \<open>If a slot was freed, the search can start there.\<close>

definition lower_head :: "nat \<Rightarrow> llama_kv_cells \<Rightarrow> nat \<Rightarrow> nat" where
  "lower_head new_head cells head = (if new_head \<noteq> cells_size cells \<and> new_head < head then new_head else head)"

definition seq_rm_step :: "llama_seq_id \<Rightarrow> llama_pos \<Rightarrow> llama_pos \<Rightarrow> nat \<Rightarrow> llama_kv_cells \<times> nat \<Rightarrow> (llama_kv_cells \<times> nat) option" where
  "seq_rm_step seq_id p0 p1 i = (\<lambda>(cells, new_head). do {
     inside \<leftarrow> cells_pos_in i p0 p1 cells;
     if \<not> inside then Some (cells, new_head)
     else do {
       has \<leftarrow> cells_seq_has i seq_id cells;
       if has then do {
         (cells, freed) \<leftarrow> cells_seq_rm i seq_id cells;
         Some (cells, if freed \<and> new_head = cells_size cells then i else new_head)
       } else Some (cells, new_head)
     }
   })"

definition any_rm_step :: "llama_pos \<Rightarrow> llama_pos \<Rightarrow> nat \<Rightarrow> llama_kv_cells \<times> nat \<Rightarrow> (llama_kv_cells \<times> nat) option" where
  "any_rm_step p0 p1 i = (\<lambda>(cells, new_head). do {
     inside \<leftarrow> cells_pos_in i p0 p1 cells;
     if \<not> inside then Some (cells, new_head)
     else do {
       cells \<leftarrow> cells_rm i cells;
       Some (cells, if new_head = cells_size cells then i else new_head)
     }
   })"

definition kv_seq_rm :: "llama_seq_id \<Rightarrow> llama_pos \<Rightarrow> llama_pos \<Rightarrow> llama_kv_cache \<Rightarrow> (llama_kv_cache \<times> bool) option" where
  "kv_seq_rm seq_id p0 p1 kv = do {
     require (seq_id = -1 \<or> kv_seq_ok kv seq_id);
     let p0 = clamp_p0 p0;
     let p1 = clamp_p1 p1;
     if seq_id \<ge> 0 then do {
       let st = kv_stream kv seq_id;
       let cells = kv_v_cells kv ! st;
       (cells, new_head) \<leftarrow> for_loop (seq_rm_step seq_id p0 p1) [0..<cells_size cells] (cells, cells_size cells);
       Some (kv_put st cells (lower_head new_head cells (kv_v_heads kv ! st)) kv, True)
     }
     else do {
       kv \<leftarrow> for_loop (\<lambda>s kv. do {
           let cells = kv_v_cells kv ! s;
           (cells, new_head) \<leftarrow> for_loop (any_rm_step p0 p1) [0..<cells_size cells] (cells, cells_size cells);
           Some (kv_put s cells (lower_head new_head cells (kv_v_heads kv ! s)) kv)
         }) [0..<kv_n_stream kv] kv;
       Some (kv, True)
     }
   }"

definition seq_cp_step :: "llama_seq_id \<Rightarrow> llama_seq_id \<Rightarrow> llama_pos \<Rightarrow> llama_pos \<Rightarrow> nat \<Rightarrow> llama_kv_cells \<Rightarrow> llama_kv_cells option" where
  "seq_cp_step src dst p0 p1 i cells = do {
     inside \<leftarrow> cells_pos_in i p0 p1 cells;
     if \<not> inside then Some cells
     else do {
       has \<leftarrow> cells_seq_has i src cells;
       if has then cells_seq_add i dst cells else Some cells
     }
   }"

definition kv_get_size :: "llama_kv_cache \<Rightarrow> nat" where
  "kv_get_size kv = cells_size (kv_v_cells kv ! (kv_seq_to_stream kv ! 0))"

definition stream_cp_step :: "llama_kv_cells \<Rightarrow> llama_seq_id \<Rightarrow> llama_seq_id \<Rightarrow> nat \<Rightarrow> llama_kv_cells \<Rightarrow> llama_kv_cells option" where
  "stream_cp_step src_cells src dst i cells = do {
     has \<leftarrow> cells_seq_has i src src_cells;
     if has then do {
       pos \<leftarrow> cells_pos_get i src_cells;
       shift \<leftarrow> cells_get_shift i src_cells;
       ext \<leftarrow> cells_ext_get i src_cells;
       require (shift \<noteq> 0 \<longrightarrow> to_i32 (pos - shift) \<ge> 0);
       cells \<leftarrow> cells_pos_set i (if shift \<noteq> 0 then to_i32 (pos - shift) else pos) cells;
       cells \<leftarrow> cells_seq_add i dst cells;
       cells \<leftarrow> (if shift \<noteq> 0 then map_option fst (cells_pos_add i shift cells) else Some cells);
       cells_ext_set i ext cells
     } else Some cells
   }"

definition kv_seq_cp :: "llama_seq_id \<Rightarrow> llama_seq_id \<Rightarrow> llama_pos \<Rightarrow> llama_pos \<Rightarrow> llama_kv_cache \<Rightarrow> llama_kv_cache option" where
  "kv_seq_cp src dst p0 p1 kv = do {
     require (kv_seq_ok kv src);
     require (kv_seq_ok kv dst);
     let s0 = kv_stream kv src;
     let s1 = kv_stream kv dst;
     if s0 = s1 then
       (if src = dst then Some kv
        else do {
          let cells = kv_v_cells kv ! s0;
          cells \<leftarrow> for_loop (seq_cp_step src dst (clamp_p0 p0) (clamp_p1 p1)) [0..<cells_size cells] cells;
          Some (kv\<lparr>kv_v_cells := (kv_v_cells kv)[s0 := cells]\<rparr>)
        })
     else do {
       require (\<not> (p0 > 0 \<and> p0 + 1 < int (kv_get_size kv)) \<and> \<not> (p1 > 0 \<and> p1 + 1 < int (kv_get_size kv)));
       let kv = kv\<lparr>kv_ssrc := kv_ssrc kv @ [s0], kv_sdst := kv_sdst kv @ [s1]\<rparr>;
       let src_cells = kv_v_cells kv ! s0;
       cells \<leftarrow> for_loop (stream_cp_step src_cells src dst) [0..<cells_size src_cells] (cells_reset (kv_v_cells kv ! s1));
       Some (kv_put s1 cells (kv_v_heads kv ! s0) kv)
     }
   }"

definition seq_keep_step :: "llama_seq_id \<Rightarrow> nat \<Rightarrow> llama_kv_cells \<times> nat \<Rightarrow> (llama_kv_cells \<times> nat) option" where
  "seq_keep_step seq_id i = (\<lambda>(cells, new_head). do {
     (cells, freed) \<leftarrow> cells_seq_keep i seq_id cells;
     Some (cells, if freed \<and> new_head = cells_size cells then i else new_head)
   })"

definition kv_seq_keep :: "llama_seq_id \<Rightarrow> llama_kv_cache \<Rightarrow> llama_kv_cache option" where
  "kv_seq_keep seq_id kv = do {
     require (kv_seq_ok kv seq_id);
     let st = kv_stream kv seq_id;
     let cells = kv_v_cells kv ! st;
     (cells, new_head) \<leftarrow> for_loop (seq_keep_step seq_id) [0..<cells_size cells] (cells, cells_size cells);
     Some (kv_put st cells (lower_head new_head cells (kv_v_heads kv ! st)) kv)
   }"

definition seq_add_step :: "llama_seq_id \<Rightarrow> llama_pos \<Rightarrow> llama_pos \<Rightarrow> llama_pos \<Rightarrow> nat \<Rightarrow> llama_kv_cells \<times> nat \<Rightarrow> (llama_kv_cells \<times> nat) option" where
  "seq_add_step seq_id p0 p1 shift i = (\<lambda>(cells, new_head). do {
     inside \<leftarrow> cells_pos_in i p0 p1 cells;
     if \<not> inside then Some (cells, new_head)
     else do {
       has \<leftarrow> cells_seq_has i seq_id cells;
       if has then do {
         (cells, freed) \<leftarrow> cells_pos_add i shift cells;
         Some (cells, if freed \<and> new_head = cells_size cells then i else new_head)
       } else Some (cells, new_head)
     }
   })"

definition kv_seq_add :: "llama_seq_id \<Rightarrow> llama_pos \<Rightarrow> llama_pos \<Rightarrow> llama_pos \<Rightarrow> llama_kv_cache \<Rightarrow> llama_kv_cache option" where
  "kv_seq_add seq_id p0 p1 shift kv = do {
     require (kv_seq_ok kv seq_id);
     require (n_pos_per_embd (kv_hparams kv) = 1);
     let st = kv_stream kv seq_id;
     let cells = kv_v_cells kv ! st;
     if shift = 0 then Some kv
     else if clamp_p0 p0 = clamp_p1 p1 then Some kv
     else do {
       (cells, new_head) \<leftarrow> for_loop (seq_add_step seq_id (clamp_p0 p0) (clamp_p1 p1) shift) [0..<cells_size cells] (cells, cells_size cells);
       Some (kv_put st cells (if new_head \<noteq> cells_size cells then new_head else 0) kv)
     }
   }"

definition seq_div_step :: "llama_seq_id \<Rightarrow> llama_pos \<Rightarrow> llama_pos \<Rightarrow> int \<Rightarrow> nat \<Rightarrow> llama_kv_cells \<Rightarrow> llama_kv_cells option" where
  "seq_div_step seq_id p0 p1 d i cells = do {
     inside \<leftarrow> cells_pos_in i p0 p1 cells;
     if \<not> inside then Some cells
     else do {
       has \<leftarrow> cells_seq_has i seq_id cells;
       if has then cells_pos_div i d cells else Some cells
     }
   }"

definition kv_seq_div :: "llama_seq_id \<Rightarrow> llama_pos \<Rightarrow> llama_pos \<Rightarrow> int \<Rightarrow> llama_kv_cache \<Rightarrow> llama_kv_cache option" where
  "kv_seq_div seq_id p0 p1 d kv = do {
     require (kv_seq_ok kv seq_id);
     require (n_pos_per_embd (kv_hparams kv) = 1);
     let st = kv_stream kv seq_id;
     let cells = kv_v_cells kv ! st;
     if d = 1 then Some kv
     else if clamp_p0 p0 = clamp_p1 p1 then Some kv
     else do {
       cells \<leftarrow> for_loop (seq_div_step seq_id (clamp_p0 p0) (clamp_p1 p1) d) [0..<cells_size cells] cells;
       Some (kv\<lparr>kv_v_cells := (kv_v_cells kv)[st := cells]\<rparr>)
     }
   }"

definition kv_seq_pos_min :: "llama_seq_id \<Rightarrow> llama_kv_cache \<Rightarrow> llama_pos option" where
  "kv_seq_pos_min seq_id kv = do {
     require (kv_seq_ok kv seq_id);
     cells_seq_pos_min seq_id (kv_v_cells kv ! kv_stream kv seq_id)
   }"

definition kv_seq_pos_max :: "llama_seq_id \<Rightarrow> llama_kv_cache \<Rightarrow> llama_pos option" where
  "kv_seq_pos_max seq_id kv = do {
     require (kv_seq_ok kv seq_id);
     cells_seq_pos_max seq_id (kv_v_cells kv ! kv_stream kv seq_id)
   }"

section \<open>Placing ubatches\<close>

text \<open>
  \<^verbatim>\<open>find_slot\<close>.  A cell can be used when it is empty, or when it belongs to one sequence only and the
  sliding window masks it for the next position of that sequence.
\<close>

definition can_use :: "llama_kv_cache \<Rightarrow> llama_kv_cells \<Rightarrow> nat \<Rightarrow> bool option" where
  "can_use kv cells idx = do {
     e \<leftarrow> cells_is_empty idx cells;
     if e then Some True
     else do {
       n \<leftarrow> cells_seq_count idx cells;
       if n = 1 then do {
         pos_cell \<leftarrow> cells_pos_get idx cells;
         seq_id_cell \<leftarrow> cells_seq_get idx cells;
         pm \<leftarrow> cells_seq_pos_max seq_id_cell cells;
         is_masked_swa (kv_n_swa kv) (kv_swa_type kv) pos_cell (pm + 1)
       } else Some False
     }
   }"

text \<open>The inner \<^verbatim>\<open>for\<close> loop over \<^verbatim>\<open>n_test\<close> cells, on the state \<^verbatim>\<open>(head_cur, n_tested, idxs)\<close>.\<close>

fun slot_test :: "llama_kv_cache \<Rightarrow> llama_kv_cells \<Rightarrow> bool \<Rightarrow> nat \<Rightarrow> nat \<times> nat \<times> nat list \<Rightarrow> (nat \<times> nat \<times> nat list) option" where
  "slot_test kv cells cont 0 st = Some st"
| "slot_test kv cells cont (Suc k) (head, tested, idxs) = do {
     u \<leftarrow> can_use kv cells head;
     if u then slot_test kv cells cont k (head + 1, tested + 1, idxs @ [head])
     else if cont then Some (head + 1, tested + 1, idxs)
     else slot_test kv cells cont k (head + 1, tested + 1, idxs)
   }"

text \<open>
  The \<^verbatim>\<open>while (true)\<close> loop.  \<^term>\<open>None\<close> is an abort (or lack of fuel), \<^term>\<open>Some None\<close> the early
  \<^verbatim>\<open>return { }\<close>.
\<close>

fun slot_loop :: "nat \<Rightarrow> llama_kv_cache \<Rightarrow> llama_kv_cells \<Rightarrow> bool \<Rightarrow> nat \<Rightarrow> nat \<times> nat \<times> nat list \<Rightarrow> nat list option option" where
  "slot_loop 0 kv cells cont n_tokens st = None"
| "slot_loop (Suc fuel) kv cells cont n_tokens (head, tested, idxs) =
     (let n_test = (if cont then n_tokens else 1) in
      if head + n_test > cells_size cells then
        slot_loop fuel kv cells cont n_tokens (0, tested + (cells_size cells - head), idxs)
      else do {
        (head, tested, idxs) \<leftarrow> slot_test kv cells cont n_test (head, tested, idxs);
        if length idxs = n_tokens then Some (Some idxs)
        else
          (let idxs = (if cont then [] else idxs) in
           if tested \<ge> cells_size cells then Some None
           else slot_loop fuel kv cells cont n_tokens (head, tested, idxs))
      })"

definition slot_fuel :: "llama_kv_cells \<Rightarrow> nat" where
  "slot_fuel cells = 2 * cells_size cells + 3"

fun find_slot_seqs :: "llama_kv_cache \<Rightarrow> llama_ubatch \<Rightarrow> bool \<Rightarrow> nat \<Rightarrow> nat list \<Rightarrow> slot_info \<Rightarrow> slot_info option" where
  "find_slot_seqs kv ubatch cont n_tokens [] res = do {
     require (si_s1 res \<ge> si_s0 res);
     Some res
   }"
| "find_slot_seqs kv ubatch cont n_tokens (s # ss) res = do {
     require (s < length (u_seq_id_unq ubatch));
     let seq_id = u_seq_id_unq ubatch ! s;
     require (kv_n_stream kv > 1 \<longrightarrow> u_n_seq_id ubatch ! (s * n_tokens) = 1);
     require (kv_n_stream kv > 1 \<longrightarrow> u_seq_id ubatch ! (s * n_tokens) ! 0 = seq_id);
     require (kv_seq_ok kv seq_id);
     let st = kv_stream kv seq_id;
     let cells = kv_v_cells kv ! st;
     let head = kv_v_heads kv ! st;
     let head = (if head > cells_get_used cells + 2 * n_tokens then 0 else head);
     if n_tokens > cells_size cells then Some slot_empty
     else do {
       r \<leftarrow> slot_loop (slot_fuel cells) kv cells cont n_tokens (head, 0, []);
       (case r of
          None \<Rightarrow> Some slot_empty
        | Some idxs \<Rightarrow>
            if length idxs < n_tokens then Some slot_empty
            else find_slot_seqs kv ubatch cont n_tokens ss
              (res\<lparr>si_s0 := min (si_s0 res) st, si_s1 := max (si_s1 res) st,
                   si_strm := si_strm res @ [st], si_idxs := si_idxs res @ [idxs]\<rparr>))
     }
   }"

definition find_slot :: "llama_ubatch \<Rightarrow> bool \<Rightarrow> llama_kv_cache \<Rightarrow> slot_info option" where
  "find_slot ubatch cont kv = do {
     require (kv_n_stream kv > 1 \<longrightarrow> u_n_seqs_unq ubatch \<noteq> 0 \<and> u_n_tokens ubatch mod u_n_seqs_unq ubatch = 0);
     let n_seqs = (if kv_n_stream kv > 1 then u_n_seqs_unq ubatch else 1);
     let n_tokens = (if kv_n_stream kv > 1 then u_n_tokens ubatch div n_seqs else u_n_tokens ubatch);
     find_slot_seqs kv ubatch cont n_tokens [0..<n_seqs]
       \<lparr>si_s0 = LLAMA_MAX_SEQ, si_s1 = 0, si_strm = [], si_idxs = []\<rparr>
   }"

text \<open>\<^verbatim>\<open>apply_ubatch\<close>: token \<open>i\<close> goes to one cell; \<^verbatim>\<open>rm\<close> is the array \<^verbatim>\<open>seq_pos_max_rm\<close>.\<close>

definition place_token :: "llama_ubatch \<Rightarrow> nat \<Rightarrow> nat \<Rightarrow> llama_kv_cells \<times> llama_pos list \<Rightarrow> (llama_kv_cells \<times> llama_pos list) option" where
  "place_token ubatch i idx = (\<lambda>(cells, rm). do {
     e \<leftarrow> cells_is_empty idx cells;
     (cells, rm) \<leftarrow> (if e then Some (cells, rm)
       else do {
         n \<leftarrow> cells_seq_count idx cells;
         require (n = 1);
         seq_id \<leftarrow> cells_seq_get idx cells;
         pos \<leftarrow> cells_pos_get idx cells;
         cells \<leftarrow> cells_rm idx cells;
         Some (cells, rm[nat seq_id := max (rm ! nat seq_id) pos])
       });
     cells \<leftarrow> cells_pos_set idx (u_pos ubatch ! i) cells;
     cells \<leftarrow> (if is_pos_2d ubatch
       then cells_ext_set idx \<lparr>ext_x = u_pos ubatch ! (i + u_n_tokens ubatch * 2), ext_y = u_pos ubatch ! (i + u_n_tokens ubatch)\<rparr> cells
       else Some cells);
     cells \<leftarrow> for_loop (\<lambda>s. cells_seq_add idx (u_seq_id ubatch ! i ! s)) [0..<u_n_seq_id ubatch ! i] cells;
     Some (cells, rm)
   })"

definition purge_step :: "llama_pos list \<Rightarrow> nat \<Rightarrow> llama_kv_cache \<Rightarrow> llama_kv_cache option" where
  "purge_step rm s kv =
     (if rm ! s = -1 then Some kv
      else do {
        require (s < length (kv_seq_to_stream kv));
        pmin \<leftarrow> cells_seq_pos_min (int s) (kv_v_cells kv ! (kv_seq_to_stream kv ! s));
        if pmin \<le> rm ! s then map_option fst (kv_seq_rm (int s) pmin (rm ! s + 1) kv)
        else Some kv
      })"

definition apply_ubatch :: "slot_info \<Rightarrow> llama_ubatch \<Rightarrow> llama_kv_cache \<Rightarrow> llama_kv_cache option" where
  "apply_ubatch sinfo ubatch kv = do {
     size \<leftarrow> slot_size sinfo;
     require (u_n_tokens ubatch = slot_n_stream sinfo * size);
     (kv, rm) \<leftarrow> for_loop (\<lambda>s (kv, rm). do {
         let st = si_strm sinfo ! s;
         (cells, rm) \<leftarrow> for_loop (\<lambda>ii. place_token ubatch (s * size + ii) (si_idxs sinfo ! s ! ii)) [0..<size]
           (kv_v_cells kv ! st, rm);
         Some (kv\<lparr>kv_v_cells := (kv_v_cells kv)[st := cells]\<rparr>, rm)
       }) [0..<slot_n_stream sinfo] (kv, replicate LLAMA_MAX_SEQ (-1));
     kv \<leftarrow> for_loop (purge_step rm) [0..<LLAMA_MAX_SEQ] kv;
     Some (fold (\<lambda>s kv. kv\<lparr>kv_v_heads := (kv_v_heads kv)[si_strm sinfo ! s := last (si_idxs sinfo ! s) + 1]\<rparr>)
       [0..<slot_n_stream sinfo] kv)
   }"

text \<open>
  \<^verbatim>\<open>prepare\<close> places the ubatches one after the other, remembering the old state, and then restores
  the cells in reverse order.
\<close>

record prep_state =
  ps_sinfo :: slot_info
  ps_heads_old :: "nat list"
  ps_cells :: "llama_kv_cells list"

fun prepare_loop :: "llama_ubatch list \<Rightarrow> llama_kv_cache \<Rightarrow> slot_info list \<Rightarrow> prep_state list \<Rightarrow>
    (llama_kv_cache \<times> slot_info list \<times> prep_state list \<times> bool) option" where
  "prepare_loop [] kv res states = Some (kv, res, states, True)"
| "prepare_loop (ubatch # us) kv res states = do {
     sinfo \<leftarrow> find_slot ubatch False kv;
     if slot_is_empty sinfo then Some (kv, res, states, False)
     else do {
       snaps \<leftarrow> for_loop (\<lambda>s acc. map_option (\<lambda>c. acc @ [c])
           (cells_cp_idxs (si_idxs sinfo ! s) (kv_v_cells kv ! (si_strm sinfo ! s)))) [0..<slot_n_stream sinfo] [];
       kv' \<leftarrow> apply_ubatch sinfo ubatch kv;
       prepare_loop us kv' (res @ [sinfo]) (states @ [\<lparr>ps_sinfo = sinfo, ps_heads_old = kv_v_heads kv, ps_cells = snaps\<rparr>])
     }
   }"

definition restore_state :: "prep_state \<Rightarrow> llama_kv_cache \<Rightarrow> llama_kv_cache option" where
  "restore_state it kv = for_loop (\<lambda>s kv. do {
       let st = si_strm (ps_sinfo it) ! s;
       cells \<leftarrow> cells_set_idxs (si_idxs (ps_sinfo it) ! s) (ps_cells it ! s) (kv_v_cells kv ! st);
       Some (kv_put st cells (ps_heads_old it ! s) kv)
     }) [0..<slot_n_stream (ps_sinfo it)] kv"

definition prepare :: "llama_ubatch list \<Rightarrow> llama_kv_cache \<Rightarrow> (llama_kv_cache \<times> slot_info list) option" where
  "prepare ubatches kv = do {
     (kv, res, states, success) \<leftarrow> prepare_loop ubatches kv [] [];
     require (states \<noteq> [] \<or> \<not> success);
     kv \<leftarrow> for_loop restore_state (rev states) kv;
     Some (kv, if success then res else [])
   }"

section \<open>Contexts\<close>

datatype llama_memory_status =
    LLAMA_MEMORY_STATUS_SUCCESS
  | LLAMA_MEMORY_STATUS_NO_UPDATE
  | LLAMA_MEMORY_STATUS_FAILED_PREPARE
  | LLAMA_MEMORY_STATUS_FAILED_COMPUTE

definition llama_memory_status_combine :: "llama_memory_status \<Rightarrow> llama_memory_status \<Rightarrow> llama_memory_status" where
  "llama_memory_status_combine s0 s1 =
     (if s0 = LLAMA_MEMORY_STATUS_FAILED_PREPARE \<or> s0 = LLAMA_MEMORY_STATUS_FAILED_COMPUTE then s0
      else if s1 = LLAMA_MEMORY_STATUS_FAILED_PREPARE \<or> s1 = LLAMA_MEMORY_STATUS_FAILED_COMPUTE then s1
      else if s0 = LLAMA_MEMORY_STATUS_SUCCESS \<or> s1 = LLAMA_MEMORY_STATUS_SUCCESS then LLAMA_MEMORY_STATUS_SUCCESS
      else LLAMA_MEMORY_STATUS_NO_UPDATE)"

definition llama_memory_status_is_fail :: "llama_memory_status \<Rightarrow> bool" where
  "llama_memory_status_is_fail s =
     (case s of LLAMA_MEMORY_STATUS_SUCCESS \<Rightarrow> False | LLAMA_MEMORY_STATUS_NO_UPDATE \<Rightarrow> False
      | LLAMA_MEMORY_STATUS_FAILED_PREPARE \<Rightarrow> True | LLAMA_MEMORY_STATUS_FAILED_COMPUTE \<Rightarrow> True)"

record llama_kv_cache_context =
  kc_status :: llama_memory_status
  kc_do_shift :: bool
  kc_ssrc :: "nat list"
  kc_sdst :: "nat list"
  kc_i_cur :: nat
  kc_sinfos :: "slot_info list"
  kc_ubatches :: "llama_ubatch list"
  kc_n_kv :: nat

definition context_status :: "llama_memory_status \<Rightarrow> llama_kv_cache_context" where
  "context_status st = \<lparr>kc_status = st, kc_do_shift = False, kc_ssrc = [], kc_sdst = [], kc_i_cur = 0,
     kc_sinfos = [], kc_ubatches = [], kc_n_kv = 0\<rparr>"

definition context_full :: "llama_kv_cache \<Rightarrow> llama_kv_cache_context" where
  "context_full kv = (context_status LLAMA_MEMORY_STATUS_SUCCESS)\<lparr>kc_n_kv := kv_get_size kv,
     kc_sinfos := [\<lparr>si_s0 = 0, si_s1 = kv_n_stream kv - 1, si_strm = [0..<kv_n_stream kv],
       si_idxs = replicate (kv_n_stream kv) [0]\<rparr>]\<rparr>"

definition context_update :: "bool \<Rightarrow> nat list \<Rightarrow> nat list \<Rightarrow> llama_kv_cache_context" where
  "context_update do_shift ssrc sdst = (context_status
       (if \<not> do_shift \<and> ssrc = [] then LLAMA_MEMORY_STATUS_NO_UPDATE else LLAMA_MEMORY_STATUS_SUCCESS))
     \<lparr>kc_do_shift := do_shift, kc_ssrc := ssrc, kc_sdst := sdst\<rparr>"

definition context_batch :: "slot_info list \<Rightarrow> llama_ubatch list \<Rightarrow> llama_kv_cache_context" where
  "context_batch sinfos ubatches = (context_status LLAMA_MEMORY_STATUS_SUCCESS)\<lparr>kc_sinfos := sinfos, kc_ubatches := ubatches\<rparr>"

text \<open>The loop of \<^verbatim>\<open>init_batch\<close>: split until an empty ubatch comes back.\<close>

fun split_all :: "nat \<Rightarrow> (llama_batch_allocr \<Rightarrow> (llama_batch_allocr \<times> llama_ubatch) option) \<Rightarrow>
    llama_batch_allocr \<Rightarrow> llama_ubatch list \<Rightarrow> (llama_batch_allocr \<times> llama_ubatch list) option" where
  "split_all 0 split a ubatches = None"
| "split_all (Suc fuel) split a ubatches = do {
     (a, ubatch) \<leftarrow> split a;
     if u_n_tokens ubatch = 0 then Some (a, ubatches)
     else split_all fuel split a (ubatches @ [ubatch])
   }"

definition init_batch :: "llama_batch_allocr \<Rightarrow> nat \<Rightarrow> llama_kv_cache \<Rightarrow>
    (llama_batch_allocr \<times> llama_kv_cache \<times> llama_kv_cache_context) option" where
  "init_batch balloc n_ubatch kv = do {
     let balloc = split_reset balloc;
     (balloc, ubatches) \<leftarrow> split_all (allocr_get_n_tokens balloc + 1)
       (if kv_n_stream kv = 1 then split_simple n_ubatch else split_equal n_ubatch True) balloc [];
     if allocr_get_n_used balloc < allocr_get_n_tokens balloc then
       Some (balloc, kv, context_status LLAMA_MEMORY_STATUS_FAILED_PREPARE)
     else do {
       (kv, sinfos) \<leftarrow> prepare ubatches kv;
       Some (balloc, kv,
         if sinfos = [] then context_status LLAMA_MEMORY_STATUS_FAILED_PREPARE else context_batch sinfos ubatches)
     }
   }"

definition kv_get_has_shift :: "llama_kv_cache \<Rightarrow> bool" where
  "kv_get_has_shift kv = fold (\<lambda>s r. r \<or> cells_get_has_shift (kv_v_cells kv ! s)) [0..<kv_n_stream kv] False"

definition init_update :: "llama_kv_cache \<Rightarrow> llama_kv_cache \<times> llama_kv_cache_context" where
  "init_update kv = (kv\<lparr>kv_ssrc := [], kv_sdst := []\<rparr>,
     context_update (kv_get_has_shift kv) (kv_ssrc kv) (kv_sdst kv))"

text \<open>
  \<^verbatim>\<open>update\<close>.  The K-shift graph is a parameter: given the state it returns the new data, or
  \<^term>\<open>None\<close> when the graph cannot be allocated or computed.
\<close>

definition kv_update :: "(llama_kv_cache \<Rightarrow> cell_data list list option) \<Rightarrow> bool \<Rightarrow> nat list \<Rightarrow> nat list \<Rightarrow>
    llama_kv_cache \<Rightarrow> (llama_kv_cache \<times> bool) option" where
  "kv_update shift_graph do_shift ssrc sdst kv = do {
     kv \<leftarrow> (if ssrc \<noteq> [] then do {
         require (kv_n_stream kv > 1);
         for_loop (\<lambda>i kv. do {
             require (ssrc ! i < kv_n_stream kv);
             require (sdst ! i < kv_n_stream kv);
             require (ssrc ! i \<noteq> sdst ! i);
             Some (kv\<lparr>kv_data := (kv_data kv)[sdst ! i := kv_data kv ! (ssrc ! i)]\<rparr>)
           }) [0..<length ssrc] kv
       } else Some kv);
     if \<not> do_shift then Some (kv, False)
     else do {
       require (kv_can_shift kv);
       let shifted = (if hp_rope_type (kv_hparams kv) \<noteq> LLAMA_ROPE_TYPE_NONE then shift_graph kv else Some (kv_data kv));
       (case shifted of
          None \<Rightarrow> Some (kv, False)
        | Some data \<Rightarrow>
            Some (kv\<lparr>kv_data := data, kv_v_cells := map cells_reset_shift (take (kv_n_stream kv) (kv_v_cells kv)) @ drop (kv_n_stream kv) (kv_v_cells kv)\<rparr>,
                  hp_rope_type (kv_hparams kv) \<noteq> LLAMA_ROPE_TYPE_NONE))
     }
   }"

definition kv_get_n_kv :: "slot_info \<Rightarrow> llama_kv_cache \<Rightarrow> nat" where
  "kv_get_n_kv sinfo kv =
     (let n_pad_cur = max (kv_n_pad kv) 256 in
      fold (\<lambda>s result.
          let cells = kv_v_cells kv ! (si_strm sinfo ! s) in
          max (min (cells_size cells) (max n_pad_cur (GGML_PAD (cells_used_max_p1 cells) n_pad_cur))) result)
        [0..<slot_n_stream sinfo] 0)"

definition context_next :: "llama_kv_cache_context \<Rightarrow> (llama_kv_cache_context \<times> bool) option" where
  "context_next kc = do {
     require (kc_status kc = LLAMA_MEMORY_STATUS_SUCCESS);
     let kc = kc\<lparr>kc_i_cur := kc_i_cur kc + 1\<rparr>;
     Some (kc, \<not> kc_i_cur kc \<ge> length (kc_ubatches kc))
   }"

definition context_apply :: "(llama_kv_cache \<Rightarrow> cell_data list list option) \<Rightarrow> llama_kv_cache_context \<Rightarrow> llama_kv_cache \<Rightarrow>
    (llama_kv_cache_context \<times> llama_kv_cache \<times> bool) option" where
  "context_apply shift_graph kc kv = do {
     require (\<not> llama_memory_status_is_fail (kc_status kc));
     if kc_ubatches kc = [] then do {
       (kv, _) \<leftarrow> kv_update shift_graph (kc_do_shift kc) (kc_ssrc kc) (kc_sdst kc) kv;
       Some (kc, kv, True)
     } else do {
       kv \<leftarrow> apply_ubatch (kc_sinfos kc ! kc_i_cur kc) (kc_ubatches kc ! kc_i_cur kc) kv;
       Some (kc\<lparr>kc_n_kv := kv_get_n_kv (kc_sinfos kc ! kc_i_cur kc) kv\<rparr>, kv, True)
     }
   }"

end
