(* ===== verification/Batch_Split.thy ===== *)
theory Batch_Split
  imports Kv_Cache
begin

text \<open>
  Correctness of the three ways of splitting a batch.  All three satisfy one contract (locale
  \<open>batch_splitter\<close>): a call takes some unused tokens of the batch, marks exactly those as used,
  accounts for them in \<^verbatim>\<open>n_used\<close> and builds the ubatch from them; as long as a token is left, it
  takes at least one.  The loop of the memory modules that drives a splitter is verified once
  against the contract.
\<close>

section \<open>The contract\<close>

definition mark :: "nat set \<Rightarrow> bool list \<Rightarrow> bool list" where
  "mark A us = map (\<lambda>i. us ! i \<or> i \<in> A) [0..<length us]"

lemma length_mark [simp]: "length (mark A us) = length us"
  by (simp add: mark_def)

lemma nth_mark [simp]: "i < length us \<Longrightarrow> mark A us ! i \<longleftrightarrow> us ! i \<or> i \<in> A"
  by (simp add: mark_def)

lemma mark_empty [simp]: "mark {} us = us"
  by (rule nth_equalityI) auto

lemma mark_mark [simp]: "mark A (mark B us) = mark (B \<union> A) us"
  by (rule nth_equalityI) auto

lemma list_update_mark: "us[i := True] = mark {i} us"
proof (rule nth_equalityI)
  fix j assume "j < length (us[i := True])"
  then show "us[i := True] ! j = mark {i} us ! j" by (cases "j = i") auto
qed simp

definition used_count :: "bool list \<Rightarrow> nat" where
  "used_count us = card {i. i < length us \<and> us ! i}"

lemma used_count_mark:
  assumes "finite A" "\<And>i. i \<in> A \<Longrightarrow> i < length us \<and> \<not> us ! i"
  shows "used_count (mark A us) = used_count us + card A"
proof -
  have "{i. i < length (mark A us) \<and> mark A us ! i} = {i. i < length us \<and> us ! i} \<union> A"
    using assms(2) by auto
  moreover have "{i. i < length us \<and> us ! i} \<inter> A = {}" using assms(2) by auto
  ultimately show ?thesis using assms(1) by (simp add: used_count_def card_Un_disjoint)
qed

definition took :: "llama_batch_allocr \<Rightarrow> nat list \<Rightarrow> llama_ubatch \<Rightarrow> llama_batch_allocr \<Rightarrow> bool" where
  "took a idxs u a' \<longleftrightarrow>
     distinct idxs \<and> (\<forall>i \<in> set idxs. i < length (a_used a) \<and> \<not> a_used a ! i) \<and>
     a' = a\<lparr>a_used := mark (set idxs) (a_used a), a_n_used := a_n_used a + length idxs,
            a_out_ids := a_out_ids a @ filter (\<lambda>i. the (b_logits (a_batch a)) ! i \<noteq> 0) idxs\<rparr> \<and>
     (if idxs = [] then u = ubatch_empty
      else \<exists>n e. n \<noteq> 0 \<and> n dvd length idxs \<and> u = ubatch_of a idxs n e)"

definition alloc_ok :: "llama_batch_allocr \<Rightarrow> bool" where
  "alloc_ok a \<longleftrightarrow> length (a_used a) = b_n_tokens (a_batch a) \<and> a_n_used a = used_count (a_used a)"

lemma u_n_tokens_ubatch_of [simp]: "u_n_tokens (ubatch_of a idxs n e) = length idxs"
  by (simp add: ubatch_of_def Let_def split: prod.splits)

lemma u_n_tokens_empty [simp]: "u_n_tokens ubatch_empty = 0"
  by (simp add: ubatch_empty_def)

lemma took_n_tokens: "took a idxs u a' \<Longrightarrow> u_n_tokens u = length idxs"
  by (auto simp: took_def split: if_splits)

lemma took_alloc_ok: "alloc_ok a \<Longrightarrow> took a idxs u a' \<Longrightarrow> alloc_ok a'"
  by (auto simp: alloc_ok_def took_def used_count_mark distinct_card)

lemma took_batch: "took a idxs u a' \<Longrightarrow> a_batch a' = a_batch a \<and> ubatch_of a' = ubatch_of a"
  by (auto simp: took_def ubatch_of_def fun_eq_iff)

definition unused :: "llama_batch_allocr \<Rightarrow> nat set" where
  "unused a = {i. i < length (a_used a) \<and> \<not> a_used a ! i}"

lemma finite_unused [simp]: "finite (unused a)"
  by (simp add: unused_def)

lemma took_unused: "took a idxs u a' \<Longrightarrow> unused a' = unused a - set idxs \<and> set idxs \<subseteq> unused a"
  by (auto simp: took_def unused_def)

text \<open>The ubatches are built from consecutive pieces of the index list \<open>ids\<close>.\<close>

definition covers :: "llama_batch_allocr \<Rightarrow> nat list \<Rightarrow> llama_ubatch list \<Rightarrow> bool" where
  "covers a ids us \<longleftrightarrow> (\<exists>idxss. ids = concat idxss \<and>
     list_all2 (\<lambda>u idxs. idxs \<noteq> [] \<and> (\<exists>n e. n \<noteq> 0 \<and> n dvd length idxs \<and> u = ubatch_of a idxs n e)) us idxss)"

lemma covers_snoc:
  assumes "covers a ids us" "idxs \<noteq> []" "n \<noteq> 0" "n dvd length idxs" "u = ubatch_of a idxs n e"
  shows "covers a (ids @ idxs) (us @ [u])"
proof -
  from assms(1) obtain idxss where x: "ids = concat idxss"
    "list_all2 (\<lambda>u idxs. idxs \<noteq> [] \<and> (\<exists>n e. n \<noteq> 0 \<and> n dvd length idxs \<and> u = ubatch_of a idxs n e)) us idxss"
    unfolding covers_def by blast
  show ?thesis unfolding covers_def
    by (rule exI[of _ "idxss @ [idxs]"]) (use x assms(2-5) in \<open>auto intro!: list_all2_appendI\<close>)
qed

abbreviation is_output :: "llama_batch_allocr \<Rightarrow> nat \<Rightarrow> bool" where
  "is_output a i \<equiv> the (b_logits (a_batch a)) ! i \<noteq> 0"

locale batch_splitter =
  fixes split :: "llama_batch_allocr \<Rightarrow> (llama_batch_allocr \<times> llama_ubatch) option"
    and inv :: "llama_batch_allocr \<Rightarrow> bool"
  assumes inv_alloc_ok: "inv a \<Longrightarrow> alloc_ok a"
    and split_took: "inv a \<Longrightarrow> \<exists>idxs u a'. split a = Some (a', u) \<and> inv a' \<and> took a idxs u a' \<and> (unused a \<noteq> {} \<longrightarrow> idxs \<noteq> [])"
begin

lemma split_all_cover:
  assumes "inv a" "card (unused a) < fuel" "covers a0 ids us" "distinct ids" "set ids \<inter> unused a = {}"
    and "ubatch_of a = ubatch_of a0" "a_batch a = a_batch a0"
  shows "\<exists>a' vs new. split_all fuel split a us = Some (a', vs) \<and> inv a' \<and> unused a' = {} \<and> a_batch a' = a_batch a \<and>
    covers a0 (ids @ new) vs \<and> distinct (ids @ new) \<and> set new = unused a \<and>
    a_out_ids a' = a_out_ids a @ filter (is_output a0) new"
  using assms
proof (induction fuel arbitrary: a us ids)
  case (Suc fuel)
  from split_took[OF Suc.prems(1)] obtain idxs u a' where s: "split a = Some (a', u)" "inv a'" "took a idxs u a'"
    and prog: "unused a \<noteq> {} \<longrightarrow> idxs \<noteq> []" by blast
  note tu = took_unused[OF s(3)] and tb = took_batch[OF s(3)]
  show ?case
  proof (cases "idxs = []")
    case True
    then have "u_n_tokens u = 0" "a' = a" using s(3) by (auto simp: took_def)
    then show ?thesis using s True prog Suc.prems(1,3,4) by auto
  next
    case False
    then obtain n e where u: "n \<noteq> 0" "n dvd length idxs" "u = ubatch_of a0 idxs n e" "distinct idxs"
      and out: "a_out_ids a' = a_out_ids a @ filter (is_output a0) idxs"
      using s(3) Suc.prems(6,7) by (auto simp: took_def)
    have ne: "u_n_tokens u \<noteq> 0" using took_n_tokens[OF s(3)] False by simp
    have cov: "covers a0 (ids @ idxs) (us @ [u])" by (rule covers_snoc[OF Suc.prems(3) False u(1,2,3)])
    have dist: "distinct (ids @ idxs)" "set (ids @ idxs) \<inter> unused a' = {}" using Suc.prems(4,5) u(4) tu by auto
    have "unused a' \<subset> unused a" using tu False by (cases idxs) auto
    then have lt: "card (unused a') < fuel" using Suc.prems(2) by (meson finite_unused less_Suc_eq_le order_less_le_trans psubset_card_mono)
    from Suc.IH[OF s(2) lt cov dist] tb Suc.prems(6,7) obtain b vs new where
      r: "split_all fuel split a' (us @ [u]) = Some (b, vs)" "inv b" "unused b = {}" "a_batch b = a_batch a'"
      "covers a0 ((ids @ idxs) @ new) vs" "distinct ((ids @ idxs) @ new)" "set new = unused a'"
      "a_out_ids b = a_out_ids a' @ filter (is_output a0) new" by auto
    have "set (idxs @ new) = unused a" using tu r(7) by auto
    with r s(1) ne tb out show ?thesis
      by (intro exI[of _ b] exI[of _ vs] exI[of _ "idxs @ new"]) auto
  qed
qed simp

lemma split_all_partition:
  assumes "inv a" "unused a = {0..<b_n_tokens (a_batch a)}" "a_out_ids a = []"
  shows "\<exists>a' us ids. split_all (b_n_tokens (a_batch a) + 1) split a [] = Some (a', us) \<and>
    a_n_used a' = b_n_tokens (a_batch a) \<and> covers a ids us \<and> distinct ids \<and> set ids = {0..<b_n_tokens (a_batch a)} \<and>
    a_out_ids a' = filter (is_output a) ids \<and> a_batch a' = a_batch a \<and> inv a'"
proof -
  have "covers a [] []" by (simp add: covers_def)
  from split_all_cover[OF assms(1) _ this, of "b_n_tokens (a_batch a) + 1"] assms(2,3) obtain a' us ids where
    r: "split_all (b_n_tokens (a_batch a) + 1) split a [] = Some (a', us)" "inv a'" "unused a' = {}"
      "a_batch a' = a_batch a" "covers a ids us" "distinct ids" "set ids = {0..<b_n_tokens (a_batch a)}"
      "a_out_ids a' = filter (is_output a) ids" by auto
  have ok: "alloc_ok a'" by (rule inv_alloc_ok[OF r(2)])
  have "{i. i < length (a_used a') \<and> a_used a' ! i} = {0..<length (a_used a')}"
    using r(3) by (auto simp: unused_def)
  then have "used_count (a_used a') = length (a_used a')" by (simp add: used_count_def)
  with ok r show ?thesis by (auto simp: alloc_ok_def)
qed

end

section \<open>Building the ubatch\<close>

lemma ubatch_add_took:
  assumes "distinct idxs" "\<And>i. i \<in> set idxs \<Longrightarrow> i < length (a_used a) \<and> \<not> a_used a ! i"
    and "us = mark (set idxs) (a_used a)" "k = a_n_used a + length idxs"
    and "idxs \<noteq> []" "n \<noteq> 0" "n dvd length idxs"
  shows "\<exists>u a'. ubatch_add idxs n e (a\<lparr>a_used := us, a_n_used := k\<rparr>) = Some (a', u) \<and> took a idxs u a'"
proof -
  have "ubatch_of (a\<lparr>a_used := us, a_n_used := k\<rparr>) = ubatch_of a"
    by (simp add: ubatch_of_def fun_eq_iff)
  with assms show ?thesis by (auto simp: ubatch_add_def took_def mod_eq_0_iff_dvd)
qed

lemma ubatch_add_n_seqs: "ubatch_add idxs n e a = Some (a', u) \<Longrightarrow> u_n_seqs u = n"
  by (auto simp: ubatch_add_def ubatch_of_def Let_def split: if_splits prod.splits)

lemma took_Nil [simp]: "took a [] ubatch_empty a"
  by (simp add: took_def)

lemma first_unused_spec:
  assumes "first_unused us < length us"
  shows "\<not> us ! first_unused us" "\<And>i. i < first_unused us \<Longrightarrow> us ! i"
proof -
  show "\<not> us ! first_unused us" using assms nth_length_takeWhile[of "\<lambda>b. b" us] by (simp add: first_unused_def)
  show "us ! i" if "i < first_unused us" for i
    using that set_takeWhileD[OF nth_mem, of i "\<lambda>b. b" us] takeWhile_nth[of i "\<lambda>b. b" us] by (simp add: first_unused_def)
qed

lemma first_unused_all: "first_unused us \<ge> length us \<Longrightarrow> i < length us \<Longrightarrow> us ! i"
  by (metis first_unused_def le_antisym length_takeWhile_le nth_mem takeWhile_eq_all_conv takeWhile_eq_take take_all_iff)

section \<open>split\_simple\<close>

declare simple_loop.simps [simp del]

lemma simple_loop_eq:
  "cur < length us \<Longrightarrow>
   simple_loop n_ubatch cur idxs us k =
     (let e = min (length us) (cur + max 1 (n_ubatch - length idxs))
      in (idxs @ [cur..<e], mark {cur..<e} us, k + (e - cur)))"
proof (induction n_ubatch cur idxs us k rule: simple_loop.induct)
  case (1 n cur idxs us k)
  show ?case
  proof (cases "Suc cur < length us \<and> Suc (length idxs) < n")
    case False
    then have "min (length us) (cur + max 1 (n - length idxs)) = Suc cur" using "1.prems" by auto
    then show ?thesis using False by (auto simp: simple_loop.simps[of n cur] Let_def list_update_mark atLeastLessThanSuc)
  next
    case True
    let ?e = "min (length us) (cur + max 1 (n - length idxs))"
    obtain e where ed: "?e = e" by simp
    have e: "min (length us) (Suc cur + max 1 (n - length (idxs @ [cur]))) = e" "cur < e" using True ed by auto
    have "simple_loop n cur idxs us k = simple_loop n (Suc cur) (idxs @ [cur]) (us[cur := True]) (Suc k)"
      using True by (simp add: simple_loop.simps[of n cur] Let_def)
    also have "\<dots> = ((idxs @ [cur]) @ [Suc cur..<e], mark {Suc cur..<e} (us[cur := True]), Suc k + (e - Suc cur))"
      using "1.IH"[OF refl refl refl refl] True e by (simp add: Let_def)
    also have "\<dots> = (idxs @ [cur..<e], mark {cur..<e} us, k + (e - cur))"
      using e(2) by (auto simp: list_update_mark upt_conv_Cons insert_absorb intro!: arg_cong[where f = "\<lambda>A. mark A us"])
    finally show ?thesis using ed by (simp add: Let_def)
  qed
qed

definition simple_inv :: "llama_batch_allocr \<Rightarrow> bool" where
  "simple_inv a \<longleftrightarrow> alloc_ok a \<and> (\<forall>i j. i < j \<longrightarrow> j < length (a_used a) \<longrightarrow> a_used a ! j \<longrightarrow> a_used a ! i)"

lemma split_simple_took:
  assumes "simple_inv a"
  shows "\<exists>idxs u a'. split_simple n_ubatch a = Some (a', u) \<and> simple_inv a' \<and> took a idxs u a' \<and>
    (unused a \<noteq> {} \<longrightarrow> idxs \<noteq> []) \<and> length idxs \<le> max 1 n_ubatch \<and> (\<exists>k m. idxs = [k..<m])"
proof (cases "first_unused (a_used a) < length (a_used a)")
  case False
  then have "unused a = {}" using first_unused_all[of "a_used a"] by (auto simp: unused_def)
  moreover have "split_simple n_ubatch a = Some (a, ubatch_empty)" using False by (simp add: split_simple_def Let_def)
  ultimately show ?thesis using assms
    by (intro exI[of _ "[]"] exI[of _ ubatch_empty] exI[of _ a]) (auto intro!: exI[of _ 0])
next
  case True
  let ?k = "first_unused (a_used a)"
  let ?e = "min (length (a_used a)) (?k + max 1 n_ubatch)"
  have free: "\<not> a_used a ! i" if "?k \<le> i" "i < length (a_used a)" for i
    using that assms first_unused_spec(1)[OF True] unfolding simple_inv_def
    by (metis le_neq_implies_less)
  have ne: "[?k..<?e] \<noteq> []" using True by auto
  have "\<exists>u a'. ubatch_add [?k..<?e] (length [?k..<?e]) False
      (a\<lparr>a_used := mark {?k..<?e} (a_used a), a_n_used := a_n_used a + (?e - ?k)\<rparr>) = Some (a', u) \<and> took a [?k..<?e] u a'"
    by (rule ubatch_add_took) (use free ne in auto)
  then obtain u a' where r: "ubatch_add [?k..<?e] (length [?k..<?e]) False
      (a\<lparr>a_used := mark {?k..<?e} (a_used a), a_n_used := a_n_used a + (?e - ?k)\<rparr>) = Some (a', u)" "took a [?k..<?e] u a'" by blast
  have run: "split_simple n_ubatch a = Some (a', u)"
    using True r(1) simple_loop_eq[OF True, of n_ubatch "[]" "a_n_used a"] by (simp add: split_simple_def Let_def)
  have "simple_inv a'"
    unfolding simple_inv_def
  proof (intro conjI allI impI)
    show "alloc_ok a'" using took_alloc_ok r(2) assms by (auto simp: simple_inv_def)
    fix i j assume ij: "i < j" "j < length (a_used a')" "a_used a' ! j"
    have u: "a_used a' = mark {?k..<?e} (a_used a)" using r(2) by (simp add: took_def)
    show "a_used a' ! i"
    proof (cases "i < ?k")
      case True
      then show ?thesis using ij first_unused_spec(2)[OF \<open>?k < _\<close>, of i] by (simp add: u)
    next
      case False
      with ij free[of j] have "j < ?e" by (auto simp: u)
      with False ij show ?thesis by (auto simp: u max_def split: if_splits)
    qed
  qed
  with run r(2) ne show ?thesis by (intro exI[of _ "[?k..<?e]"] exI[of _ u] exI[of _ a']) auto
qed

interpretation simple: batch_splitter "split_simple n_ubatch" simple_inv for n_ubatch
proof
  show "simple_inv a \<Longrightarrow> alloc_ok a" for a by (simp add: simple_inv_def)
  show "simple_inv a \<Longrightarrow> \<exists>idxs u a'. split_simple n_ubatch a = Some (a', u) \<and> simple_inv a' \<and> took a idxs u a' \<and>
      (unused a \<noteq> {} \<longrightarrow> idxs \<noteq> [])" for a
    using split_simple_took[of a n_ubatch] by blast
qed

section \<open>split\_seq\<close>

declare seq_loop.simps [simp del]

lemma next_in_set_spec:
  assumes "next_in_set a us S cur < b_n_tokens (a_batch a)"
  shows "cur < next_in_set a us S cur" "\<not> us ! next_in_set a us S cur"
    "a_seq_set a ! next_in_set a us S cur \<subseteq> S"
proof -
  let ?P = "\<lambda>i. us ! i \<or> S \<inter> a_seq_set a ! i \<noteq> a_seq_set a ! i"
  let ?l = "[cur + 1..<b_n_tokens (a_batch a)]"
  have "length (takeWhile ?P ?l) < length ?l" using assms unfolding next_in_set_def by auto
  from nth_length_takeWhile[OF this] this have "\<not> ?P (next_in_set a us S cur)"
    unfolding next_in_set_def by (simp add: add.commute)
  then show "\<not> us ! next_in_set a us S cur" "a_seq_set a ! next_in_set a us S cur \<subseteq> S" by auto
  show "cur < next_in_set a us S cur" unfolding next_in_set_def by simp
qed

abbreviation narrows :: "llama_batch_allocr \<Rightarrow> nat list \<Rightarrow> bool" where
  "narrows a \<equiv> sorted_wrt (\<lambda>i j. i < j \<and> a_seq_set a ! j \<subseteq> a_seq_set a ! i)"

lemma seq_loop_spec:
  "cur < b_n_tokens (a_batch a) \<Longrightarrow> length us = b_n_tokens (a_batch a) \<Longrightarrow> \<not> us ! cur \<Longrightarrow>
   \<exists>js. seq_loop a n cur (a_seq_set a ! cur) idxs us k = (idxs @ cur # js, mark (set (cur # js)) us, k + length (cur # js)) \<and>
     narrows a (cur # js) \<and> (\<forall>j \<in> set js. j < length us \<and> \<not> us ! j) \<and> length (cur # js) \<le> max 1 (n - length idxs)"
proof (induction "b_n_tokens (a_batch a) - cur" arbitrary: cur idxs us k rule: less_induct)
  case less
  let ?us = "us[cur := True]" and ?nxt = "next_in_set a (us[cur := True]) (a_seq_set a ! cur) cur"
  show ?case
  proof (cases "Suc (length idxs) < n \<and> ?nxt < b_n_tokens (a_batch a)")
    case False
    then have "seq_loop a n cur (a_seq_set a ! cur) idxs us k = (idxs @ [cur], ?us, Suc k)"
      by (auto simp: seq_loop.simps[of a n cur] Let_def)
    then show ?thesis by (intro exI[of _ "[]"]) (auto simp: list_update_mark)
  next
    case True
    note nx = next_in_set_spec[OF conjunct2[OF True]]
    have "?nxt \<noteq> cur" using nx(1) by simp
    then have free: "\<not> us ! ?nxt" using nx(2) by simp
    have "b_n_tokens (a_batch a) - ?nxt < b_n_tokens (a_batch a) - cur" using nx(1) less.prems(1) by simp
    from less.hyps[OF this, of ?us "idxs @ [cur]" "Suc k"] True less.prems nx(2) obtain js where
      r: "seq_loop a n ?nxt (a_seq_set a ! ?nxt) (idxs @ [cur]) ?us (Suc k) =
           ((idxs @ [cur]) @ ?nxt # js, mark (set (?nxt # js)) ?us, Suc k + length (?nxt # js))"
        "narrows a (?nxt # js)" "\<forall>j \<in> set js. j < length us \<and> \<not> ?us ! j"
        "length (?nxt # js) \<le> max 1 (n - length (idxs @ [cur]))" by auto
    have "seq_loop a n cur (a_seq_set a ! cur) idxs us k = seq_loop a n ?nxt (a_seq_set a ! ?nxt) (idxs @ [cur]) ?us (Suc k)"
      using True by (simp add: seq_loop.simps[of a n cur] Let_def)
    moreover have "mark (set (?nxt # js)) ?us = mark (set (cur # ?nxt # js)) us"
      by (simp add: list_update_mark insert_commute)
    moreover have "narrows a (cur # ?nxt # js)" using r(2) nx(1,3) by auto
    moreover have "\<forall>j \<in> set (?nxt # js). j < length us \<and> \<not> us ! j"
      using r(2,3) free nx(1) True less.prems(2) by (auto simp: nth_list_update split: if_splits)
    ultimately show ?thesis using r(1,4) True by (intro exI[of _ "?nxt # js"]) auto
  qed
qed

lemma split_seq_took:
  assumes "alloc_ok a"
  shows "\<exists>idxs u a'. split_seq n_ubatch a = Some (a', u) \<and> alloc_ok a' \<and> took a idxs u a' \<and>
    (unused a \<noteq> {} \<longrightarrow> idxs \<noteq> []) \<and> length idxs \<le> max 1 n_ubatch \<and> narrows a idxs"
proof (cases "first_unused (a_used a) < length (a_used a)")
  case False
  then have "unused a = {}" using first_unused_all[of "a_used a"] by (auto simp: unused_def)
  moreover have "split_seq n_ubatch a = Some (a, ubatch_empty)" using False by (simp add: split_seq_def Let_def)
  ultimately show ?thesis using assms
    by (intro exI[of _ "[]"] exI[of _ ubatch_empty] exI[of _ a]) auto
next
  case True
  let ?k = "first_unused (a_used a)"
  have l: "length (a_used a) = b_n_tokens (a_batch a)" using assms by (simp add: alloc_ok_def)
  from seq_loop_spec[of ?k a "a_used a" n_ubatch "[]" "a_n_used a"] True l first_unused_spec(1)[OF True]
  obtain js where r: "seq_loop a n_ubatch ?k (a_seq_set a ! ?k) [] (a_used a) (a_n_used a) =
      (?k # js, mark (set (?k # js)) (a_used a), a_n_used a + length (?k # js))"
    "narrows a (?k # js)" "\<forall>j \<in> set js. j < length (a_used a) \<and> \<not> a_used a ! j" "length (?k # js) \<le> max 1 n_ubatch"
    by auto
  have "sorted_wrt (<) (?k # js)" by (rule sorted_wrt_mono_rel[OF _ r(2)]) auto
  then have "distinct (?k # js)" by (auto simp: strict_sorted_iff)
  then have "\<exists>u a'. ubatch_add (?k # js) 1 True (a\<lparr>a_used := mark (set (?k # js)) (a_used a),
      a_n_used := a_n_used a + length (?k # js)\<rparr>) = Some (a', u) \<and> took a (?k # js) u a'"
    by (rule ubatch_add_took) (use r(3) True first_unused_spec(1)[OF True] in auto)
  then obtain u a' where x: "ubatch_add (?k # js) 1 True (a\<lparr>a_used := mark (set (?k # js)) (a_used a),
      a_n_used := a_n_used a + length (?k # js)\<rparr>) = Some (a', u)" "took a (?k # js) u a'" by blast
  then have "split_seq n_ubatch a = Some (a', u)" using True r(1) by (simp add: split_seq_def Let_def)
  with x(2) r(2,4) took_alloc_ok[OF assms x(2)] show ?thesis by (intro exI[of _ "?k # js"] exI[of _ u] exI[of _ a']) auto
qed

interpretation seq: batch_splitter "split_seq n_ubatch" alloc_ok for n_ubatch
proof
  show "alloc_ok a \<Longrightarrow> \<exists>idxs u a'. split_seq n_ubatch a = Some (a', u) \<and> alloc_ok a' \<and> took a idxs u a' \<and>
      (unused a \<noteq> {} \<longrightarrow> idxs \<noteq> [])" for a
    using split_seq_took[of a n_ubatch] by blast
qed

section \<open>split\_equal\<close>

lemma equal_sets_spec:
  assumes "\<And>i. i \<in> set is \<Longrightarrow> a_seq_set a ! i \<noteq> {}"
    and "pairwise disjnt (set sets)" "distinct sets" "length sets \<le> n"
  shows "\<exists>new. equal_sets a n sequential is sets l = sets @ new \<and>
    pairwise disjnt (set (sets @ new)) \<and> distinct (sets @ new) \<and> length (sets @ new) \<le> n + 1 \<and>
    (\<forall>S \<in> set new. \<exists>i \<in> set is. \<not> a_used a ! i \<and> S = a_seq_set a ! i) \<and>
    (sets = [] \<longrightarrow> (\<exists>i \<in> set is. \<not> a_used a ! i) \<longrightarrow> new \<noteq> [])"
  using assms
proof (induction "is" arbitrary: sets l)
  case (Cons i "is")
  have nis: "j \<in> set is \<Longrightarrow> a_seq_set a ! j \<noteq> {}" for j using Cons.prems(1) by simp
  define s0 where "s0 = hd (the (b_seq_id (a_batch a)) ! i)"
  define add where "add \<longleftrightarrow> (\<forall>S \<in> set sets. S \<inter> a_seq_set a ! i = {}) \<and> (sequential \<longrightarrow> sets = [] \<or> s0 = l + 1)"
  have step: "equal_sets a n sequential (i # is) sets l =
    (if a_used a ! i \<or> \<not> add then equal_sets a n sequential is sets l
     else if length (sets @ [a_seq_set a ! i]) > n then sets @ [a_seq_set a ! i]
     else equal_sets a n sequential is (sets @ [a_seq_set a ! i]) s0)"
    by (auto simp: add_def s0_def Let_def)
  consider (skip) "a_used a ! i \<or> \<not> add" | (take) "\<not> a_used a ! i" add by blast
  then show ?case
  proof cases
    case skip
    from Cons.IH[OF nis Cons.prems(2-4), of l] obtain new where
      new: "equal_sets a n sequential is sets l = sets @ new" "pairwise disjnt (set (sets @ new))" "distinct (sets @ new)"
        "length (sets @ new) \<le> n + 1" "\<forall>S \<in> set new. \<exists>i \<in> set is. \<not> a_used a ! i \<and> S = a_seq_set a ! i"
        "sets = [] \<longrightarrow> (\<exists>i \<in> set is. \<not> a_used a ! i) \<longrightarrow> new \<noteq> []" by blast
    have "sets = [] \<Longrightarrow> add" by (simp add: add_def)
    with new skip step show ?thesis by (intro exI[of _ new]) auto
  next
    case take
    let ?S = "a_seq_set a ! i"
    have dj: "pairwise disjnt (set (sets @ [?S]))" "distinct (sets @ [?S])"
    proof -
      have x: "disjnt S ?S \<and> disjnt ?S S" if "S \<in> set sets" for S using that take(2) by (auto simp: add_def disjnt_def)
      show "pairwise disjnt (set (sets @ [?S]))" using Cons.prems(2) x by (auto simp: pairwise_insert)
      show "distinct (sets @ [?S])" using Cons.prems(1)[of i] Cons.prems(3) x[of ?S] by (auto simp: disjnt_def)
    qed
    show ?thesis
    proof (cases "length (sets @ [?S]) > n")
      case True
      with step take dj Cons.prems(4) show ?thesis by (intro exI[of _ "[?S]"]) auto
    next
      case False
      with Cons.IH[OF nis dj, of s0] obtain new where
        new: "equal_sets a n sequential is (sets @ [?S]) s0 = (sets @ [?S]) @ new" "pairwise disjnt (set ((sets @ [?S]) @ new))"
          "distinct ((sets @ [?S]) @ new)" "length ((sets @ [?S]) @ new) \<le> n + 1"
          "\<forall>S \<in> set new. \<exists>i \<in> set is. \<not> a_used a ! i \<and> S = a_seq_set a ! i" by auto
      with step take False show ?thesis by (intro exI[of _ "?S # new"]) auto
    qed
  qed
qed (auto intro: exI[of _ "[]"])

text \<open>Closed form of the expansion: set \<open>s\<close> has advanced \<open>rs s\<close> places from \<open>c0 s\<close>.\<close>

definition slice :: "(seq_set_t \<Rightarrow> nat list) \<Rightarrow> seq_set_t list \<Rightarrow> nat list \<Rightarrow> nat \<Rightarrow> nat \<Rightarrow> nat list" where
  "slice m sets c0 s r = take r (drop (c0 ! s) (m (sets ! s)))"

definition expanded :: "(seq_set_t \<Rightarrow> nat list) \<Rightarrow> seq_set_t list \<Rightarrow> nat list \<Rightarrow> bool list \<Rightarrow> nat \<Rightarrow> (nat \<Rightarrow> nat) \<Rightarrow>
    nat list \<times> nat list list \<times> bool list \<times> nat" where
  "expanded m sets c0 us k rs =
     (map (\<lambda>s. c0 ! s + rs s) [0..<length sets],
      map (\<lambda>s. slice m sets c0 s (rs s)) [0..<length sets],
      mark (\<Union>s < length sets. set (slice m sets c0 s (rs s))) us,
      k + (\<Sum>s < length sets. rs s))"

lemma slice_Suc:
  "c0 ! s + r < length (m (sets ! s)) \<Longrightarrow>
   slice m sets c0 s (Suc r) = slice m sets c0 s r @ [m (sets ! s) ! (c0 ! s + r)]"
  by (simp add: slice_def take_Suc_conv_app_nth)

lemma map_upt_update: "s < n \<Longrightarrow> (map f [0..<n])[s := v] = map (f(s := v)) [0..<n]"
  by (rule nth_equalityI) (auto simp: nth_list_update)

lemma expanded_step:
  fixes rs :: "nat \<Rightarrow> nat"
  assumes s: "s < length sets" and c: "c0 ! s + rs s < length (m (sets ! s))"
  shows "(case expanded m sets c0 us k rs of (cur_idx, idxs_per_seq, us, n_used) \<Rightarrow>
       let idx = m (sets ! s) ! (cur_idx ! s)
       in (cur_idx[s := cur_idx ! s + 1], idxs_per_seq[s := idxs_per_seq ! s @ [idx]], us[idx := True], n_used + 1)) =
     expanded m sets c0 us k (rs(s := Suc (rs s)))"
proof -
  let ?rs = "rs(s := Suc (rs s))"
  have "(\<Sum>j < length sets. ?rs j) = Suc (\<Sum>j < length sets. rs j)"
    using s by (simp add: sum.remove[of "{..<length sets}" s])
  moreover have "(\<Union>j < length sets. set (slice m sets c0 j (?rs j))) =
      (\<Union>j < length sets. set (slice m sets c0 j (rs j))) \<union> {m (sets ! s) ! (c0 ! s + rs s)}"
    using s c by (auto simp: slice_Suc split: if_splits)
  ultimately show ?thesis
    using s c by (auto simp: expanded_def Let_def map_upt_update list_update_mark slice_Suc fun_eq_iff simp del: Un_insert_right
        intro!: arg_cong[where f = "\<lambda>f. map f [0..<length sets]"])
qed

lemma expand_round_expanded:
  assumes "\<And>s. s < length sets \<Longrightarrow> c0 ! s + r < length (m (sets ! s))"
  shows "expand_round m sets (expanded m sets c0 us k (\<lambda>_. r)) = expanded m sets c0 us k (\<lambda>_. Suc r)"
proof -
  let ?step = "\<lambda>s (cur_idx, idxs_per_seq, us, n_used).
       let idx = m (sets ! s) ! (cur_idx ! s)
       in (cur_idx[s := cur_idx ! s + 1], idxs_per_seq[s := idxs_per_seq ! s @ [idx]], us[idx := True], n_used + 1)"
  have "j \<le> length sets \<Longrightarrow> fold ?step [0..<j] (expanded m sets c0 us k (\<lambda>_. r)) =
      expanded m sets c0 us k (\<lambda>s. if s < j then Suc r else r)" for j
  proof (induction j)
    case (Suc j)
    have "(\<lambda>s. if s < j then Suc r else r)(j := Suc r) = (\<lambda>s. if s < Suc j then Suc r else r)" by auto
    with Suc expanded_step[of j sets c0 "\<lambda>s. if s < j then Suc r else r" m us k] assms[of j] show ?case by simp
  qed simp
  from this[of "length sets"] show ?thesis
    unfolding expand_round_def by (simp add: expanded_def cong: map_cong)
qed

lemma expand_loop_expanded:
  assumes "sets \<noteq> []" "\<And>s. s < length sets \<Longrightarrow> c0 ! s + r \<le> length (m (sets ! s))"
    and "length (m (sets ! 0)) < fuel + r" "r = 0 \<or> (r + 1) * length sets \<le> n"
    and "r = 0 \<Longrightarrow> (\<forall>s < length sets. c0 ! s < length (m (sets ! s)))"
  shows "\<exists>R. expand_loop fuel m sets n (expanded m sets c0 us k (\<lambda>_. r)) = Some (expanded m sets c0 us k (\<lambda>_. R)) \<and>
    R \<ge> 1 \<and> (\<forall>s < length sets. c0 ! s + R \<le> length (m (sets ! s))) \<and> (R = 1 \<or> R * length sets \<le> n)"
  using assms
proof (induction fuel arbitrary: r)
  case 0
  from "0.prems"(1) "0.prems"(2)[of 0] "0.prems"(3) show ?case by simp
next
  case (Suc fuel)
  let ?st = "expanded m sets c0 us k (\<lambda>_. r)" and ?st' = "expanded m sets c0 us k (\<lambda>_. Suc r)"
  show ?case
  proof (cases "\<exists>s < length sets. c0 ! s + r \<ge> length (m (sets ! s))")
    case True
    then have "expand_loop (Suc fuel) m sets n ?st = Some ?st" by (auto simp: expanded_def Let_def)
    moreover have "r \<noteq> 0" using True Suc.prems(5) by (metis add.right_neutral not_le)
    ultimately show ?thesis using Suc.prems(2,4) by (intro exI[of _ r]) auto
  next
    case False
    then have lt: "c0 ! s + r < length (m (sets ! s))" if "s < length sets" for s using that by auto
    have "length (slice m sets c0 0 (Suc r)) = Suc r" using lt[of 0] Suc.prems(1) by (simp add: slice_def)
    then have len: "length (fst (snd ?st') ! 0) = Suc r" using Suc.prems(1) by (simp add: expanded_def)
    have step: "expand_loop (Suc fuel) m sets n ?st =
        (if (Suc r + 1) * length sets > n then Some ?st' else expand_loop fuel m sets n ?st')"
      using False len expand_round_expanded[OF lt, of us k]
      by (cases ?st') (auto simp: expanded_def[of _ _ _ _ _ "\<lambda>_. r"] Let_def)
    show ?thesis
    proof (cases "(Suc r + 1) * length sets > n")
      case True
      with step lt Suc.prems(4) show ?thesis by (intro exI[of _ "Suc r"]) (auto simp: Suc_le_eq)
    next
      case False
      with Suc.IH[of "Suc r"] lt Suc.prems(1,3) step show ?thesis by (auto simp: Suc_le_eq)
    qed
  qed
qed

definition equal_inv :: "llama_batch_allocr \<Rightarrow> bool" where
  "equal_inv a \<longleftrightarrow> alloc_ok a \<and> length (a_seq_set a) = b_n_tokens (a_batch a) \<and>
     (\<forall>i < b_n_tokens (a_batch a). a_seq_set a ! i \<noteq> {}) \<and>
     (\<forall>S. a_seq_set_map a S = filter (\<lambda>i. a_seq_set a ! i = S) [0..<b_n_tokens (a_batch a)]) \<and>
     (\<forall>i j. i < j \<longrightarrow> j < b_n_tokens (a_batch a) \<longrightarrow> a_seq_set a ! i = a_seq_set a ! j \<longrightarrow> a_used a ! j \<longrightarrow> a_used a ! i)"

text \<open>The first unused token of a sequence set, and that all later ones are unused too.\<close>

lemma equal_inv_tail:
  assumes "equal_inv a" "i < b_n_tokens (a_batch a)" "\<not> a_used a ! i" "a_seq_set a ! i = S"
  defines "c \<equiv> length (takeWhile (\<lambda>i. a_used a ! i) (a_seq_set_map a S))"
  shows "c < length (a_seq_set_map a S)"
    and "j \<in> set (drop c (a_seq_set_map a S)) \<Longrightarrow> \<not> a_used a ! j \<and> j < b_n_tokens (a_batch a) \<and> a_seq_set a ! j = S"
    and "j \<in> set (take c (a_seq_set_map a S)) \<Longrightarrow> a_used a ! j"
    and "sorted_wrt (<) (a_seq_set_map a S)" "set (a_seq_set_map a S) = {j. j < b_n_tokens (a_batch a) \<and> a_seq_set a ! j = S}"
proof -
  let ?m = "a_seq_set_map a S" and ?P = "\<lambda>i. a_used a ! i"
  have m: "?m = filter (\<lambda>i. a_seq_set a ! i = S) [0..<b_n_tokens (a_batch a)]"
    using assms(1) by (simp add: equal_inv_def)
  show srt: "sorted_wrt (<) ?m" unfolding m by (intro sorted_wrt_filter) simp
  show st: "set ?m = {j. j < b_n_tokens (a_batch a) \<and> a_seq_set a ! j = S}" unfolding m by auto
  have "i \<in> set ?m" using st assms(2,4) by auto
  then show c: "c < length ?m" unfolding c_def using assms(3)
    by (metis length_takeWhile_le nat_neq_iff not_le set_takeWhileD takeWhile_eq_take take_all_iff order_refl)
  have free: "\<not> ?P (?m ! c)" using nth_length_takeWhile[of ?P ?m] c unfolding c_def by simp
  show "j \<in> set (take c ?m) \<Longrightarrow> ?P j" unfolding c_def by (metis set_takeWhileD takeWhile_eq_take)
  assume "j \<in> set (drop c ?m)"
  then obtain q where q: "q < length ?m - c" "j = ?m ! (c + q)" by (auto simp: in_set_conv_nth)
  have js: "j \<in> set ?m" "?m ! c \<in> set ?m" using q c by auto
  have "?m ! c < j \<or> q = 0" using sorted_wrt_nth_less[OF srt, of c "c + q"] q by (cases q) auto
  with js st free q(2) assms(1) show "\<not> ?P j \<and> j < b_n_tokens (a_batch a) \<and> a_seq_set a ! j = S"
    unfolding equal_inv_def by auto
qed

text \<open>
  The tokens \<open>idxs\<close> are \<open>k\<close> runs of \<open>R\<close> tokens each, one run per sequence set: the first \<open>R\<close> tokens of the set
  that are not used yet, in batch order.  The sets of different runs do not overlap.
\<close>

definition unused_of_set :: "llama_batch_allocr \<Rightarrow> seq_set_t \<Rightarrow> nat list" where
  "unused_of_set a S = filter (\<lambda>i. a_seq_set a ! i = S \<and> \<not> a_used a ! i) [0..<b_n_tokens (a_batch a)]"

definition lockstep :: "llama_batch_allocr \<Rightarrow> nat list \<Rightarrow> nat \<Rightarrow> nat \<Rightarrow> bool" where
  "lockstep a idxs k R \<longleftrightarrow> (\<exists>xss sets. idxs = concat xss \<and> length xss = k \<and> length sets = k \<and> pairwise disjnt (set sets) \<and> distinct sets \<and>
     (\<forall>s < k. length (xss ! s) = R \<and> sorted_wrt (<) (xss ! s) \<and> (\<forall>i \<in> set (xss ! s). a_seq_set a ! i = sets ! s) \<and>
       xss ! s = take R (unused_of_set a (sets ! s))))"

lemma unused_of_set_drop:
  assumes "equal_inv a" "\<forall>j \<in> set (take c (a_seq_set_map a S)). a_used a ! j" "\<forall>j \<in> set (drop c (a_seq_set_map a S)). \<not> a_used a ! j"
  shows "unused_of_set a S = drop c (a_seq_set_map a S)"
proof -
  let ?m = "a_seq_set_map a S" and ?P = "\<lambda>j. \<not> a_used a ! j"
  have "unused_of_set a S = filter ?P ?m" using assms(1) by (simp add: unused_of_set_def equal_inv_def conj_commute)
  also have "\<dots> = filter ?P (take c ?m) @ filter ?P (drop c ?m)" by (metis append_take_drop_id filter_append)
  also have "\<dots> = drop c ?m" using assms(2,3) by simp
  finally show ?thesis .
qed

lemma distinct_concat_nth:
  assumes "\<And>s. s < length xss \<Longrightarrow> distinct (xss ! s)"
    and "\<And>s t. s < length xss \<Longrightarrow> t < length xss \<Longrightarrow> s \<noteq> t \<Longrightarrow> set (xss ! s) \<inter> set (xss ! t) = {}"
  shows "distinct (concat xss)"
  using assms
proof (induction xss)
  case (Cons xs xss)
  have "set xs \<inter> set ys = {}" if "ys \<in> set xss" for ys
    using Cons.prems(2)[of 0 "Suc _"] that by (metis in_set_conv_nth length_Cons lessI nat.distinct(1) not_less_eq nth_Cons_0 nth_Cons_Suc zero_less_Suc)
  moreover have "distinct (concat xss)"
    by (rule Cons.IH) (use Cons.prems(1)[of "Suc _"] Cons.prems(2)[of "Suc _" "Suc _"] in auto)
  ultimately show ?case using Cons.prems(1)[of 0] by auto
qed simp

lemma lockstep_distinct: "lockstep a idxs k R \<Longrightarrow> distinct idxs"
proof -
  assume "lockstep a idxs k R"
  then obtain xss sets where x: "idxs = concat xss" "length xss = k" "length sets = k" "distinct sets"
    "\<And>s. s < k \<Longrightarrow> sorted_wrt (<) (xss ! s)" "\<And>s i. s < k \<Longrightarrow> i \<in> set (xss ! s) \<Longrightarrow> a_seq_set a ! i = sets ! s"
    unfolding lockstep_def by blast
  have "set (xss ! s) \<inter> set (xss ! t) = {}" if "s < k" "t < k" "s \<noteq> t" for s t
    using x(6)[OF that(1)] x(6)[OF that(2)] nth_eq_iff_index_eq[OF x(4), of s t] that x(3) by fastforce
  then show ?thesis unfolding x(1) by (intro distinct_concat_nth) (use x(2,5) in \<open>auto simp: strict_sorted_iff\<close>)
qed

lemma lockstep_length: "lockstep a idxs k R \<Longrightarrow> length idxs = k * R"
proof -
  assume "lockstep a idxs k R"
  then obtain xss where "idxs = concat xss" "length xss = k" "\<forall>xs \<in> set xss. length xs = R"
    unfolding lockstep_def by (metis in_set_conv_nth)
  then show ?thesis by (simp add: length_concat sum_list_triv cong: map_cong)
qed

text \<open>Marking an initial part of the unused tokens of each set keeps the invariant.\<close>

lemma equal_inv_took:
  assumes inv: "equal_inv a" and t: "took a idxs u a'"
    and pre: "\<And>i j. i < j \<Longrightarrow> j \<in> set idxs \<Longrightarrow> a_seq_set a ! i = a_seq_set a ! j \<Longrightarrow> a_used a ! i \<or> i \<in> set idxs"
  shows "equal_inv a'"
proof -
  have "alloc_ok a'" using inv t took_alloc_ok by (auto simp: equal_inv_def)
  moreover have u: "a_used a' = mark (set idxs) (a_used a)" and l: "length (a_used a) = b_n_tokens (a_batch a)"
    using t inv by (auto simp: took_def equal_inv_def alloc_ok_def)
  moreover have "a_used a' ! i" if "i < j" "j < b_n_tokens (a_batch a)" "a_seq_set a ! i = a_seq_set a ! j" "a_used a' ! j" for i j
  proof (cases "j \<in> set idxs")
    case True
    with pre[OF that(1) True that(3)] that show ?thesis by (simp add: u l)
  next
    case False
    then have "a_used a ! j" using that by (simp add: u l)
    with inv that have "a_used a ! i" unfolding equal_inv_def by blast
    with that show ?thesis by (simp add: u l)
  qed
  moreover have "a_batch a' = a_batch a" "a_seq_set a' = a_seq_set a" "a_seq_set_map a' = a_seq_set_map a"
    using t by (auto simp: took_def)
  ultimately show ?thesis using inv by (simp add: equal_inv_def)
qed

lemma sorted_take_drop:
  assumes "sorted_wrt (<) xs" "i \<in> set xs" "j \<in> set (take R (drop c xs))" "(i :: nat) < j"
  shows "i \<in> set (take c xs) \<or> i \<in> set (take R (drop c xs))"
proof -
  have xs: "xs = take c xs @ take R (drop c xs) @ drop R (drop c xs)" by (metis append_take_drop_id)
  have "sorted_wrt (<) (take c xs @ take R (drop c xs) @ drop R (drop c xs))" using assms(1) xs by metis
  then have "i \<notin> set (drop R (drop c xs))" using assms(3,4) unfolding sorted_wrt_append by fastforce
  moreover have "i \<in> set (take c xs @ take R (drop c xs) @ drop R (drop c xs))" using assms(2) xs by metis
  ultimately show ?thesis by auto
qed

lemma equal_sets_run:
  fixes sequential :: bool and n_ubatch :: nat
  assumes inv: "equal_inv a"
  defines "sets \<equiv> equal_sets a n_ubatch sequential [0..<b_n_tokens (a_batch a)] [] (-1)"
  shows "pairwise disjnt (set sets)" "distinct sets" "length sets \<le> n_ubatch + 1"
    "S \<in> set sets \<Longrightarrow> \<exists>i < b_n_tokens (a_batch a). \<not> a_used a ! i \<and> a_seq_set a ! i = S"
    "unused a \<noteq> {} \<Longrightarrow> sets \<noteq> []"
proof -
  have "\<exists>new. sets = [] @ new \<and>
    pairwise disjnt (set ([] @ new)) \<and> distinct ([] @ new) \<and> length ([] @ new) \<le> n_ubatch + 1 \<and>
    (\<forall>S \<in> set new. \<exists>i \<in> set [0..<b_n_tokens (a_batch a)]. \<not> a_used a ! i \<and> S = a_seq_set a ! i) \<and>
    ([] = ([] :: seq_set_t list) \<longrightarrow> (\<exists>i \<in> set [0..<b_n_tokens (a_batch a)]. \<not> a_used a ! i) \<longrightarrow> new \<noteq> [])"
    unfolding sets_def by (rule equal_sets_spec) (use inv in \<open>auto simp: equal_inv_def\<close>)
  then show "pairwise disjnt (set sets)" "distinct sets" "length sets \<le> n_ubatch + 1"
    "S \<in> set sets \<Longrightarrow> \<exists>i < b_n_tokens (a_batch a). \<not> a_used a ! i \<and> a_seq_set a ! i = S"
    "unused a \<noteq> {} \<Longrightarrow> sets \<noteq> []"
    using inv by (fastforce simp: unused_def equal_inv_def alloc_ok_def)+
qed

text \<open>What the expansion does on the sets chosen.\<close>

lemma equal_expand:
  fixes n :: nat
  assumes inv: "equal_inv a" and ne: "sets \<noteq> []" and dj: "pairwise disjnt (set sets)" "distinct sets"
    and ex: "\<forall>S \<in> set sets. \<exists>i < b_n_tokens (a_batch a). \<not> a_used a ! i \<and> a_seq_set a ! i = S"
  defines "c0 \<equiv> map (\<lambda>S. length (takeWhile (\<lambda>i. a_used a ! i) (a_seq_set_map a S))) sets"
  shows "\<exists>xss R cur. expand_loop (b_n_tokens (a_batch a) + 1) (a_seq_set_map a) sets n
        (c0, replicate (length sets) [], a_used a, a_n_used a) =
        Some (cur, xss, mark (set (concat xss)) (a_used a), a_n_used a + length sets * R) \<and>
      lockstep a (concat xss) (length sets) R \<and> R \<ge> 1 \<and> (R = 1 \<or> R * length sets \<le> n) \<and>
      (\<forall>s < length sets. c0 ! s < length (a_seq_set_map a (sets ! s))) \<and>
      (\<forall>j \<in> set (concat xss). j < b_n_tokens (a_batch a) \<and> \<not> a_used a ! j) \<and>
      (\<forall>j \<in> set (concat xss). \<forall>i < j. a_seq_set a ! i = a_seq_set a ! j \<longrightarrow> a_used a ! i \<or> i \<in> set (concat xss))"
proof -
  let ?n = "b_n_tokens (a_batch a)" and ?m = "a_seq_set_map a" and ?k = "length sets"
  have tl: "c0 ! s < length (?m (sets ! s))"
      "\<And>j. j \<in> set (drop (c0 ! s) (?m (sets ! s))) \<Longrightarrow> \<not> a_used a ! j \<and> j < ?n \<and> a_seq_set a ! j = sets ! s"
      "\<And>j. j \<in> set (take (c0 ! s) (?m (sets ! s))) \<Longrightarrow> a_used a ! j"
      "sorted_wrt (<) (?m (sets ! s))" "set (?m (sets ! s)) = {j. j < ?n \<and> a_seq_set a ! j = sets ! s}"
    if s: "s < ?k" for s
  proof -
    from ex s obtain i where i: "i < ?n" "\<not> a_used a ! i" "a_seq_set a ! i = sets ! s" by (meson nth_mem)
    have c: "c0 ! s = length (takeWhile (\<lambda>i. a_used a ! i) (?m (sets ! s)))" using s by (simp add: c0_def)
    note t = equal_inv_tail[OF inv i]
    show "c0 ! s < length (?m (sets ! s))"
      "\<And>j. j \<in> set (drop (c0 ! s) (?m (sets ! s))) \<Longrightarrow> \<not> a_used a ! j \<and> j < ?n \<and> a_seq_set a ! j = sets ! s"
      "\<And>j. j \<in> set (take (c0 ! s) (?m (sets ! s))) \<Longrightarrow> a_used a ! j" unfolding c using t(1,2,3) by blast+
    show "sorted_wrt (<) (?m (sets ! s))" "set (?m (sets ! s)) = {j. j < ?n \<and> a_seq_set a ! j = sets ! s}" by (fact t(4), fact t(5))
  qed
  have "map (\<lambda>s. c0 ! s) [0..<?k] = c0" by (rule nth_equalityI) (auto simp: c0_def)
  then have start: "expanded ?m sets c0 (a_used a) (a_n_used a) (\<lambda>_. 0) = (c0, replicate ?k [], a_used a, a_n_used a)"
    by (simp add: expanded_def slice_def map_replicate_const)
  have "length (?m (sets ! 0)) \<le> ?n"
    using inv by (simp add: equal_inv_def) (metis length_filter_le length_upt minus_nat.diff_0)
  then obtain R where R: "expand_loop (?n + 1) ?m sets n (c0, replicate ?k [], a_used a, a_n_used a) =
      Some (expanded ?m sets c0 (a_used a) (a_n_used a) (\<lambda>_. R))"
    "R \<ge> 1" "\<forall>s < ?k. c0 ! s + R \<le> length (?m (sets ! s))" "R = 1 \<or> R * ?k \<le> n"
    using expand_loop_expanded[OF ne, of c0 0 ?m "?n + 1" n "a_used a" "a_n_used a"] tl(1) start
    by (auto simp: less_imp_le)
  define xss where "xss = map (\<lambda>s. slice ?m sets c0 s R) [0..<?k]"
  have xs: "xss ! s = take R (drop (c0 ! s) (?m (sets ! s)))" "length (xss ! s) = R"
      "\<And>i. i \<in> set (xss ! s) \<Longrightarrow> \<not> a_used a ! i \<and> i < ?n \<and> a_seq_set a ! i = sets ! s" if "s < ?k" for s
    using that R(3) tl(2)[OF that] by (auto simp: xss_def slice_def dest: in_set_takeD)
  have elem: "i \<in> set (concat xss) \<longleftrightarrow> (\<exists>s < ?k. i \<in> set (xss ! s))" for i by (auto simp: xss_def)
  have nxt: "unused_of_set a (sets ! s) = drop (c0 ! s) (?m (sets ! s))" if "s < ?k" for s
    by (rule unused_of_set_drop[OF inv]) (use tl(2,3)[OF that] in blast)+
  have lock: "lockstep a (concat xss) ?k R"
    unfolding lockstep_def using xs(2,3) tl(4) dj nxt
    by (intro exI[of _ xss] exI[of _ sets]) (auto simp: xs(1) sorted_wrt_take sorted_wrt_drop, simp_all add: xss_def)
  have pre: "a_used a ! i \<or> i \<in> set (concat xss)" if j: "j \<in> set (concat xss)" "i < j" "a_seq_set a ! i = a_seq_set a ! j" for i j
  proof -
    from j(1) obtain s where s: "s < ?k" "j \<in> set (xss ! s)" unfolding elem by blast
    then have "i \<in> set (?m (sets ! s))" using xs(3)[OF s] j(2,3) by (simp add: tl(5)[OF s(1)])
    from sorted_take_drop[OF tl(4)[OF s(1)] this, of j R "c0 ! s"] s xs(1)[OF s(1)] j(2)
    have "i \<in> set (take (c0 ! s) (?m (sets ! s))) \<or> i \<in> set (xss ! s)" by simp
    then show ?thesis using tl(3)[OF s(1)] s(1) elem by blast
  qed
  have "expanded ?m sets c0 (a_used a) (a_n_used a) (\<lambda>_. R) =
      (map (\<lambda>s. c0 ! s + R) [0..<?k], xss, mark (set (concat xss)) (a_used a), a_n_used a + ?k * R)"
    by (simp add: expanded_def xss_def lessThan_atLeast0)
  note run = R(1)[unfolded this]
  have free: "\<forall>j \<in> set (concat xss). j < ?n \<and> \<not> a_used a ! j" using xs(3) elem by blast
  show ?thesis
    by (intro exI[of _ xss] exI[of _ R] exI[of _ "map (\<lambda>s. c0 ! s + R) [0..<?k]"] conjI)
      (use run lock R tl(1) free pre in blast)+
qed

lemma split_equal_took:
  assumes inv: "equal_inv a" and cpl: "sequential \<Longrightarrow> \<not> a_has_cpl a"
  shows "\<exists>idxs u a'. split_equal n_ubatch sequential a = Some (a', u) \<and> equal_inv a' \<and> a_has_cpl a' = a_has_cpl a \<and>
    took a idxs u a' \<and> (unused a \<noteq> {} \<longrightarrow> idxs \<noteq> []) \<and>
    (\<exists>R. lockstep a idxs (u_n_seqs u) R \<and> u_n_seqs u \<le> n_ubatch + 1 \<and> (R = 1 \<or> R * u_n_seqs u \<le> n_ubatch))"
proof -
  define sets where "sets = equal_sets a n_ubatch sequential [0..<b_n_tokens (a_batch a)] [] (-1)"
  note sets = equal_sets_run[OF inv, where n_ubatch = n_ubatch and sequential = sequential, folded sets_def]
  have len: "length (a_used a) = b_n_tokens (a_batch a)" using inv by (simp add: equal_inv_def alloc_ok_def)
  show ?thesis
  proof (cases "sets = []")
    case True
    then have "split_equal n_ubatch sequential a = Some (a, ubatch_empty)" by (simp add: split_equal_def sets_def)
    moreover have "lockstep a [] 0 1" by (simp add: lockstep_def)
    moreover have "u_n_seqs ubatch_empty = 0" by (simp add: ubatch_empty_def)
    ultimately show ?thesis using inv sets(5) True
      by (intro exI[of _ "[]"] exI[of _ ubatch_empty] exI[of _ a]) auto
  next
    case False
    let ?k = "length sets"
    have "\<forall>S \<in> set sets. \<exists>i < b_n_tokens (a_batch a). \<not> a_used a ! i \<and> a_seq_set a ! i = S" using sets(4) by blast
    from equal_expand[OF inv False sets(1,2) this, of n_ubatch] obtain xss R cur where
      e: "expand_loop (b_n_tokens (a_batch a) + 1) (a_seq_set_map a) sets n_ubatch
        (map (\<lambda>S. length (takeWhile (\<lambda>i. a_used a ! i) (a_seq_set_map a S))) sets, replicate ?k [], a_used a, a_n_used a) =
        Some (cur, xss, mark (set (concat xss)) (a_used a), a_n_used a + ?k * R)"
      and lock: "lockstep a (concat xss) ?k R" and R: "R \<ge> 1" "R = 1 \<or> R * ?k \<le> n_ubatch"
      and c: "\<forall>s < ?k. map (\<lambda>S. length (takeWhile (\<lambda>i. a_used a ! i) (a_seq_set_map a S))) sets ! s < length (a_seq_set_map a (sets ! s))"
      and free: "\<forall>j \<in> set (concat xss). j < b_n_tokens (a_batch a) \<and> \<not> a_used a ! j"
      and pre: "\<forall>j \<in> set (concat xss). \<forall>i < j. a_seq_set a ! i = a_seq_set a ! j \<longrightarrow> a_used a ! i \<or> i \<in> set (concat xss)"
      by (elim exE conjE) (rule that)
    have ne: "concat xss \<noteq> []" using lockstep_length[OF lock] R(1) False by (cases "concat xss") auto
    have "\<exists>u a'. ubatch_add (concat xss) ?k True (a\<lparr>a_used := mark (set (concat xss)) (a_used a), a_n_used := a_n_used a + ?k * R\<rparr>) =
        Some (a', u) \<and> took a (concat xss) u a'"
      by (rule ubatch_add_took) (use free len lockstep_distinct[OF lock] lockstep_length[OF lock] ne False in auto)
    then obtain u a' where r: "ubatch_add (concat xss) ?k True
        (a\<lparr>a_used := mark (set (concat xss)) (a_used a), a_n_used := a_n_used a + ?k * R\<rparr>) = Some (a', u)"
      "took a (concat xss) u a'" by blast
    have run: "split_equal n_ubatch sequential a = Some (a', u)"
      using cpl False e r(1) c by (auto simp: split_equal_def Let_def simp del: expand_loop.simps set_concat simp flip: sets_def)
    have inv': "equal_inv a'" by (rule equal_inv_took[OF inv r(2)]) (use pre in blast)
    have "u_n_seqs u = ?k" by (rule ubatch_add_n_seqs[OF r(1)])
    moreover have "a_has_cpl a' = a_has_cpl a" using r(2) by (simp add: took_def)
    ultimately show ?thesis using run inv' r(2) lock ne sets(3) R(2)
      by (intro exI[of _ "concat xss"] exI[of _ u] exI[of _ a'] conjI exI[of _ R]) auto
  qed
qed

interpretation equal: batch_splitter "split_equal n_ubatch sequential" "\<lambda>a. equal_inv a \<and> (sequential \<longrightarrow> \<not> a_has_cpl a)"
  for n_ubatch sequential
proof
  show "equal_inv a \<and> (sequential \<longrightarrow> \<not> a_has_cpl a) \<Longrightarrow> alloc_ok a" for a by (simp add: equal_inv_def)
  show "\<exists>idxs u a'. split_equal n_ubatch sequential a = Some (a', u) \<and> (equal_inv a' \<and> (sequential \<longrightarrow> \<not> a_has_cpl a')) \<and>
      took a idxs u a' \<and> (unused a \<noteq> {} \<longrightarrow> idxs \<noteq> [])" if "equal_inv a \<and> (sequential \<longrightarrow> \<not> a_has_cpl a)" for a
    using split_equal_took[of a sequential n_ubatch] that by fastforce
qed

section \<open>From init to the ubatches\<close>

lemma fold_seq_set_step:
  "a_seq_set a = [] \<Longrightarrow> a_seq_set_map a = (\<lambda>_. []) \<Longrightarrow>
   fold (seq_set_step b) [0..<n] a = a\<lparr>a_seq_set := map (\<lambda>i. set (seq_ids b i)) [0..<n],
     a_seq_set_map := (\<lambda>S. filter (\<lambda>i. set (seq_ids b i) = S) [0..<n])\<rparr>"
  by (induction n) (auto simp: seq_set_step_def Let_def fun_eq_iff)

lemma couple_step_frame:
  "a_seq_set (couple_step b i a) = a_seq_set a \<and> a_seq_set_map (couple_step b i a) = a_seq_set_map a \<and>
   a_batch (couple_step b i a) = a_batch a"
proof -
  let ?f = "\<lambda>s a. let s1 = seq_ids b i ! s;
              a = a\<lparr>a_seq_pos := (a_seq_pos a)(s1 := insert (the (b_pos b) ! i) (a_seq_pos a s1))\<rparr>
          in if s > 0 then a\<lparr>a_seq_cpl := insert (s1, hd (the (b_seq_id b) ! i)) (a_seq_cpl a), a_has_cpl := True\<rparr> else a"
  have "a_seq_set (fold ?f xs a) = a_seq_set a \<and> a_seq_set_map (fold ?f xs a) = a_seq_set_map a \<and> a_batch (fold ?f xs a) = a_batch a" for xs
    by (induction xs arbitrary: a) (auto simp: Let_def)
  then show ?thesis by (simp add: couple_step_def Let_def)
qed

lemma fold_couple_step_frame:
  "a_seq_set (fold (couple_step b) xs a) = a_seq_set a \<and> a_seq_set_map (fold (couple_step b) xs a) = a_seq_set_map a \<and>
   a_batch (fold (couple_step b) xs a) = a_batch a"
  by (induction xs arbitrary: a) (auto simp: couple_step_frame)

lemma batch_stats_sets:
  assumes "a_seq_set a = []" "a_seq_set_map a = (\<lambda>_. [])"
  shows "a_batch (batch_stats n_embd n_seq_max a) = a_batch a"
    "a_seq_set (batch_stats n_embd n_seq_max a) = map (\<lambda>i. set (seq_ids (a_batch a) i)) [0..<b_n_tokens (a_batch a)]"
    "a_seq_set_map (batch_stats n_embd n_seq_max a) = (\<lambda>S. filter (\<lambda>i. set (seq_ids (a_batch a) i) = S) [0..<b_n_tokens (a_batch a)])"
  using assms by (auto simp: batch_stats_def Let_def fold_seq_set_step fold_couple_step_frame split: prod.splits)

text \<open>A successful \<open>init\<close> leaves an allocator that is ready to be split.\<close>

definition split_ready :: "llama_batch_allocr \<Rightarrow> bool" where
  "split_ready a \<longleftrightarrow> a_used a = replicate (b_n_tokens (a_batch a)) False \<and> a_n_used a = 0 \<and> a_out_ids a = [] \<and>
     a_seq_set a = map (\<lambda>i. set (seq_ids (a_batch a) i)) [0..<b_n_tokens (a_batch a)] \<and>
     a_seq_set_map a = (\<lambda>S. filter (\<lambda>i. set (seq_ids (a_batch a) i) = S) [0..<b_n_tokens (a_batch a)])"

lemma batch_init_ready:
  assumes "batch_init b n_vocab mem n_embd n_seq_max out_all a0 = Some (a, True)"
  shows "split_ready a"
proof -
  define pos where "pos = batch_default_pos mem n_seq_max (batch_default_seq b)"
  from assms obtain b' where "pos = Some b'" and
    a: "a = split_reset (batch_stats n_embd n_seq_max ((allocr_clear a0)\<lparr>a_batch := batch_default_logits out_all b'\<rparr>))"
    unfolding pos_def by (auto simp: batch_init_def Let_def bind_eq_Some_conv split: if_splits)
  show ?thesis
    unfolding a split_ready_def split_reset_def
    by (simp add: batch_stats_sets allocr_clear_def allocr_get_n_tokens_def)
qed

lemma split_ready_unused: "split_ready a \<Longrightarrow> unused a = {0..<b_n_tokens (a_batch a)}"
  by (auto simp: split_ready_def unused_def)

lemma split_ready_inv:
  assumes "split_ready a"
  shows "alloc_ok a" "simple_inv a"
    "\<forall>i < b_n_tokens (a_batch a). seq_ids (a_batch a) i \<noteq> [] \<Longrightarrow> equal_inv a"
  using assms by (auto simp: split_ready_def alloc_ok_def simple_inv_def equal_inv_def used_count_def intro!: filter_cong[OF refl])

definition partitioned :: "llama_batch_allocr \<Rightarrow> (llama_batch_allocr \<Rightarrow> (llama_batch_allocr \<times> llama_ubatch) option) \<Rightarrow> bool" where
  "partitioned a split \<longleftrightarrow> (\<exists>a' us ids.
     split_all (b_n_tokens (a_batch a) + 1) split a [] = Some (a', us) \<and>
     a_n_used a' = b_n_tokens (a_batch a) \<and> covers a ids us \<and> distinct ids \<and> set ids = {0..<b_n_tokens (a_batch a)} \<and>
     a_out_ids a' = filter (is_output a) ids)"

definition demo_batch :: llama_batch where
  "demo_batch = \<lparr>b_n_tokens = 5, b_token = Some [7, 8, 9, 7, 6], b_embd = None, b_pos = None,
     b_n_seq_id = Some [1, 1, 1, 1, 1], b_seq_id = Some [[0], [1], [0], [1], [0]], b_logits = None\<rparr>"

abbreviation demo_init :: "(llama_batch_allocr \<times> bool) option" where
  "demo_init \<equiv> batch_init demo_batch 10 None 4 2 False (allocr_new 1)"

lemma demo_init_ok: "\<exists>a. demo_init = Some (a, True) \<and> (\<forall>i < b_n_tokens (a_batch a). seq_ids (a_batch a) i \<noteq> [])"
proof -
  have "case demo_init of None \<Rightarrow> False | Some (a, r) \<Rightarrow> r \<and> (\<forall>i \<in> set [0..<b_n_tokens (a_batch a)]. seq_ids (a_batch a) i \<noteq> [])"
    by code_simp
  then show ?thesis by (auto split: option.splits prod.splits)
qed

text \<open>
  C5.  When \<^verbatim>\<open>init\<close> accepts a batch, the loop of \<^verbatim>\<open>init_batch\<close> over each of the three splitters ends
  without aborting within one call per token plus one, and its ubatches partition the batch: every
  token index occurs in exactly one ubatch, all tokens are counted as used, and \<^verbatim>\<open>out_ids\<close> lists
  exactly the tokens whose output is requested, in the order of the ubatches.  \<^verbatim>\<open>split_equal\<close> needs
  that every token has a sequence, and in sequential mode that no sequences are coupled.
\<close>

theorem init_split_partition:
  assumes "batch_init b n_vocab mem n_embd n_seq_max output_all a0 = Some (a, True)"
  shows "partitioned a (split_simple n_ubatch) \<and> partitioned a (split_seq n_ubatch) \<and>
    ((\<forall>i < b_n_tokens (a_batch a). seq_ids (a_batch a) i \<noteq> []) \<and> (sequential \<longrightarrow> \<not> a_has_cpl a) \<longrightarrow>
      partitioned a (split_equal n_ubatch sequential))"
proof -
  have r: "split_ready a" by (rule batch_init_ready[OF assms])
  note u = split_ready_unused[OF r] and inv = split_ready_inv[OF r]
  have o: "a_out_ids a = []" using r by (simp add: split_ready_def)
  show ?thesis unfolding partitioned_def
    using simple.split_all_partition[OF inv(2) u o] seq.split_all_partition[OF inv(1) u o]
      equal.split_all_partition[OF _ u o, where sequential = sequential] inv(3) by blast
qed

theorem init_split_partition_witness:
  "\<exists>a. demo_init = Some (a, True) \<and> partitioned a (split_simple 2) \<and> partitioned a (split_seq 2) \<and> partitioned a (split_equal 2 False)"
proof -
  from demo_init_ok obtain a where "demo_init = Some (a, True)" "\<forall>i < b_n_tokens (a_batch a). seq_ids (a_batch a) i \<noteq> []" by blast
  then show ?thesis using init_split_partition[of demo_batch 10 None 4 2 False "allocr_new 1" a 2 False] by blast
qed

text \<open>
  C6.  The ubatches of \<^verbatim>\<open>split_equal\<close> have the shape the recurrent and hybrid memories rely on: \<open>k\<close> runs
  of \<open>R\<close> tokens, one run per sequence set, each the first \<open>R\<close> tokens of the set not used before (no earlier
  token of a set is skipped), the sets pairwise disjoint, so \<^verbatim>\<open>n_tokens = k * R\<close>.  As long as a token is unused
  the ubatch is not empty.  A ubatch of more than one token per set stays within \<^verbatim>\<open>n_ubatch\<close>; the number of sets is at most
  \<^verbatim>\<open>n_ubatch + 1\<close>, because the loop that collects them stops only beyond \<^verbatim>\<open>n_ubatch\<close>.
\<close>

theorem split_equal_lockstep:
  assumes "equal_inv a" "sequential \<longrightarrow> \<not> a_has_cpl a"
  shows "\<exists>idxs u a' R. split_equal n_ubatch sequential a = Some (a', u) \<and> took a idxs u a' \<and>
    lockstep a idxs (u_n_seqs u) R \<and> u_n_tokens u = u_n_seqs u * R \<and> (unused a \<noteq> {} \<longrightarrow> idxs \<noteq> []) \<and>
    (R = 1 \<or> u_n_tokens u \<le> n_ubatch) \<and> u_n_seqs u \<le> n_ubatch + 1"
proof -
  from split_equal_took[of a sequential n_ubatch] assms obtain idxs u a' R where
    r: "split_equal n_ubatch sequential a = Some (a', u)" "took a idxs u a'" "lockstep a idxs (u_n_seqs u) R"
      "u_n_seqs u \<le> n_ubatch + 1" "R = 1 \<or> R * u_n_seqs u \<le> n_ubatch" "unused a \<noteq> {} \<longrightarrow> idxs \<noteq> []" by blast
  with took_n_tokens[OF r(2)] lockstep_length[OF r(3)] show ?thesis by (metis mult.commute)
qed

theorem split_equal_lockstep_witness:
  "\<exists>a. demo_init = Some (a, True) \<and> (\<exists>idxs u a' R. split_equal 4 False a = Some (a', u) \<and> took a idxs u a' \<and>
    lockstep a idxs (u_n_seqs u) R \<and> u_n_tokens u = u_n_seqs u * R \<and> (R = 1 \<or> u_n_tokens u \<le> 4) \<and> u_n_seqs u \<le> 4 + 1)"
proof -
  from demo_init_ok obtain a where "demo_init = Some (a, True)" "\<forall>i < b_n_tokens (a_batch a). seq_ids (a_batch a) i \<noteq> []" by blast
  then show ?thesis using split_equal_lockstep[of a False 4] split_ready_inv(3)[OF batch_init_ready] by blast
qed

text \<open>
  The bound on the number of sets is attained: three single-token sequences and \<^verbatim>\<open>n_ubatch = 2\<close> give one
  ubatch of three tokens.
\<close>

lemma split_equal_exceeds_n_ubatch:
  "(case batch_init \<lparr>b_n_tokens = 3, b_token = Some [1, 2, 3], b_embd = None, b_pos = None,
       b_n_seq_id = Some [1, 1, 1], b_seq_id = Some [[0], [1], [2]], b_logits = None\<rparr> 10 None 4 3 False (allocr_new 1) of
     None \<Rightarrow> None
   | Some (a, _) \<Rightarrow> map_option (\<lambda>(_, u). u_n_tokens u) (split_equal 2 False a)) = Some 3"
  by code_simp

end
