(* ===== verification/Kv_Seq.thy ===== *)
theory Kv_Seq
  imports Kv_Cache
begin

text \<open>
  Correctness of the sequence operations of the KV cache.  Each of them is a pass over the cells of
  a stream that treats every cell on its own; the locale \<open>cell_pass\<close> states what the body of such a
  pass does to one cell and derives what the whole pass does to the stream.  The operations are then
  shown to act on the abstract state, the positions each sequence holds, and to keep the invariant.
\<close>

section \<open>Passes over the cells\<close>

definition first_freed :: "(kv_cell \<Rightarrow> bool) \<Rightarrow> kv_cell list \<Rightarrow> nat" where
  "first_freed frees V = length (takeWhile (\<lambda>v. \<not> frees v) V)"

lemma first_freed_le: "first_freed frees V \<le> length V"
  by (simp add: first_freed_def length_takeWhile_le)

locale cell_pass =
  fixes body :: "nat \<Rightarrow> llama_kv_cells \<times> nat \<Rightarrow> (llama_kv_cells \<times> nat) option"
    and pre :: "kv_cell \<Rightarrow> bool"
    and upd :: "kv_cell \<Rightarrow> kv_cell"
    and frees :: "kv_cell \<Rightarrow> bool"
    and shifts :: "kv_cell \<Rightarrow> bool"
  assumes body_cell: "wf_cells c \<Longrightarrow> i < length (c_pos c) \<Longrightarrow> pre (cell_at c i) \<Longrightarrow>
    \<exists>c'. body i (c, nh) = Some (c', if frees (cell_at c i) \<and> nh = length (c_pos c) then i else nh) \<and>
      cell_upd c i (upd (cell_at c i)) (c_has_shift c \<or> shifts (cell_at c i)) c'"
begin

lemma pass_prefix:
  assumes "wf_cells c" "\<And>v. v \<in> set (view c) \<Longrightarrow> pre v" "n \<le> length (c_pos c)"
  shows "\<exists>c'. for_loop body [0..<n] (c, length (c_pos c)) =
      Some (c', if first_freed frees (view c) < n then first_freed frees (view c) else length (c_pos c)) \<and>
    wf_cells c' \<and> view c' = map upd (take n (view c)) @ drop n (view c) \<and>
    c_has_shift c' = (c_has_shift c \<or> (\<exists>v \<in> set (take n (view c)). shifts v))"
  using assms(3)
proof (induction n)
  case 0
  show ?case using assms(1) by simp
next
  case (Suc n)
  let ?V = "view c" and ?ff = "first_freed frees (view c)" and ?L = "length (c_pos c)"
  from Suc obtain d where d: "for_loop body [0..<n] (c, ?L) = Some (d, if ?ff < n then ?ff else ?L)" "wf_cells d"
    "view d = map upd (take n ?V) @ drop n ?V" "c_has_shift d = (c_has_shift c \<or> (\<exists>v \<in> set (take n ?V). shifts v))" by auto
  have n: "n < length ?V" using Suc.prems by simp
  have len: "length (c_pos d) = ?L" using arg_cong[OF d(3), of length] n by simp
  have at: "cell_at d n = ?V ! n"
    using arg_cong[OF d(3), of "\<lambda>V. V ! n"] n len by (simp add: nth_append del: nth_view) (simp add: len)
  from body_cell[OF d(2), of n "if ?ff < n then ?ff else ?L"] assms(2)[OF nth_mem[OF n]] n len obtain e where
    e: "body n (d, if ?ff < n then ?ff else ?L) =
        Some (e, if frees (?V ! n) \<and> (if ?ff < n then ?ff else ?L) = ?L then n else (if ?ff < n then ?ff else ?L))"
      "cell_upd d n (upd (?V ! n)) (c_has_shift d \<or> shifts (?V ! n)) e" by (auto simp: at)
  have freed: "(if frees (?V ! n) \<and> (if ?ff < n then ?ff else ?L) = ?L then n else (if ?ff < n then ?ff else ?L)) =
      (if ?ff < Suc n then ?ff else ?L)"
  proof (cases "?ff < n")
    case False
    have "frees (?V ! n) \<longleftrightarrow> ?ff = n"
    proof
      assume f: "frees (?V ! n)"
      show "?ff = n"
      proof (rule ccontr)
        assume "?ff \<noteq> n"
        with False have "n < length (takeWhile (\<lambda>v. \<not> frees v) ?V)" by (simp add: first_freed_def)
        then have "\<not> frees (?V ! n)" by (metis nth_mem set_takeWhileD takeWhile_nth)
        with f show False by simp
      qed
    next
      assume "?ff = n"
      then show "frees (?V ! n)" using nth_length_takeWhile[of "\<lambda>v. \<not> frees v" ?V] n by (simp add: first_freed_def)
    qed
    with False n show ?thesis by auto
  qed (use n in auto)
  have view: "view e = map upd (take (Suc n) ?V) @ drop (Suc n) ?V"
    using cell_updD(2)[OF e(2)] d(3) n
    by (simp add: take_Suc_conv_app_nth list_update_append Cons_nth_drop_Suc[symmetric] del: nth_view)
  have "for_loop body [0..<Suc n] (c, ?L) = Some (e, if ?ff < Suc n then ?ff else ?L)"
    using d(1) e(1) freed by (simp add: for_loop_append)
  moreover have "c_has_shift e = (c_has_shift c \<or> (\<exists>v \<in> set (take (Suc n) ?V). shifts v))"
    using cell_updD(3)[OF e(2)] d(4) n by (auto simp: take_Suc_conv_app_nth)
  ultimately show ?case using cell_updD(1)[OF e(2)] view by blast
qed

lemma pass:
  assumes "wf_cells c" "\<And>v. v \<in> set (view c) \<Longrightarrow> pre v"
  shows "\<exists>c'. for_loop body [0..<cells_size c] (c, cells_size c) = Some (c', first_freed frees (view c)) \<and>
    wf_cells c' \<and> view c' = map upd (view c) \<and> cells_size c' = cells_size c \<and>
    c_has_shift c' = (c_has_shift c \<or> (\<exists>v \<in> set (view c). shifts v))"
proof -
  from pass_prefix[OF assms order_refl] obtain c' where
    r: "for_loop body [0..<length (c_pos c)] (c, length (c_pos c)) =
      Some (c', if first_freed frees (view c) < length (c_pos c) then first_freed frees (view c) else length (c_pos c))"
    "wf_cells c'" "view c' = map upd (view c)" "c_has_shift c' = (c_has_shift c \<or> (\<exists>v \<in> set (view c). shifts v))" by auto
  moreover have "(if first_freed frees (view c) < length (c_pos c) then first_freed frees (view c) else length (c_pos c)) = first_freed frees (view c)"
    using first_freed_le[of frees "view c"] by auto
  moreover have "length (c_pos c') = length (c_pos c)" by (metis r(3) length_map length_view)
  ultimately show ?thesis by (simp add: cells_size_def)
qed

end

text \<open>A loop without a search head is a pass that frees nothing.\<close>

lemma for_loop_no_head:
  "for_loop (\<lambda>i (c, n). map_option (\<lambda>c. (c, n)) (f i c)) xs (c, n) = map_option (\<lambda>c. (c, n)) (for_loop f xs c)"
  by (induction xs arbitrary: c) (auto split: option.splits)

section \<open>The passes of the cache\<close>

abbreviation in_range :: "llama_pos \<Rightarrow> llama_pos \<Rightarrow> kv_cell \<Rightarrow> bool" where
  "in_range p0 p1 v \<equiv> p0 \<le> v_pos v \<and> v_pos v < p1"

definition rm_cell :: "llama_seq_id \<Rightarrow> llama_pos \<Rightarrow> llama_pos \<Rightarrow> kv_cell \<Rightarrow> kv_cell" where
  "rm_cell s p0 p1 v = (if in_range p0 p1 v \<and> s \<in> v_seq v then cell_seq_rm s v else v)"

interpretation rm_pass: cell_pass "seq_rm_step s p0 p1" "\<lambda>v. seq_id_ok s" "rm_cell s p0 p1"
  "\<lambda>v. in_range p0 p1 v \<and> v_seq v = {s}" "\<lambda>_. False" for s p0 p1
proof
  fix c :: llama_kv_cells and i nh :: nat
  assume a: "wf_cells c" "i < length (c_pos c)" "seq_id_ok s"
  show "\<exists>c'. seq_rm_step s p0 p1 i (c, nh) =
      Some (c', if (in_range p0 p1 (cell_at c i) \<and> v_seq (cell_at c i) = {s}) \<and> nh = length (c_pos c) then i else nh) \<and>
    cell_upd c i (rm_cell s p0 p1 (cell_at c i)) (c_has_shift c \<or> False) c'"
  proof (cases "in_range p0 p1 (cell_at c i) \<and> s \<in> c_seq c ! i")
    case True
    from cells_seq_rm_cell[OF a(1,2) conjunct2[OF True]] obtain c' where
      r: "cells_seq_rm i s c = Some (c', c_seq c ! i = {s})" "cell_upd c i (cell_seq_rm s (cell_at c i)) (c_has_shift c) c'" by blast
    with True a cell_upd_length[OF r(2)] show ?thesis
      by (auto simp: seq_rm_step_def step_simps rm_cell_def cells_size_def simp del: cell_seq_rm.simps)
  next
    case False
    with a cell_upd_refl[OF a(1,2)] show ?thesis
      by (auto simp: seq_rm_step_def step_simps rm_cell_def)
  qed
qed

definition any_rm_cell :: "llama_pos \<Rightarrow> llama_pos \<Rightarrow> kv_cell \<Rightarrow> kv_cell" where
  "any_rm_cell p0 p1 v = (if in_range p0 p1 v then empty_cell else v)"

interpretation any_rm_pass: cell_pass "any_rm_step p0 p1" "\<lambda>v. 0 \<le> p0" "any_rm_cell p0 p1" "in_range p0 p1" "\<lambda>_. False" for p0 p1
proof
  fix c :: llama_kv_cells and i nh :: nat
  assume a: "wf_cells c" "i < length (c_pos c)" "0 \<le> p0"
  show "\<exists>c'. any_rm_step p0 p1 i (c, nh) =
      Some (c', if in_range p0 p1 (cell_at c i) \<and> nh = length (c_pos c) then i else nh) \<and>
    cell_upd c i (any_rm_cell p0 p1 (cell_at c i)) (c_has_shift c \<or> False) c'"
  proof (cases "in_range p0 p1 (cell_at c i)")
    case True
    then have "c_pos c ! i \<noteq> -1" using a(3) by auto
    from cells_rm_ok[OF a(1,2) this] obtain c' where
      r: "cells_rm i c = Some c'" "cell_upd c i empty_cell (c_has_shift c) c'" by blast
    with True a cell_upd_length[OF r(2)] show ?thesis
      by (auto simp: any_rm_step_def step_simps any_rm_cell_def cells_size_def)
  next
    case False
    with a cell_upd_refl[OF a(1,2)] show ?thesis by (auto simp: any_rm_step_def step_simps any_rm_cell_def)
  qed
qed

interpretation keep_pass: cell_pass "seq_keep_step s" "\<lambda>v. seq_id_ok s \<and> (v_pos v \<noteq> -1 \<longrightarrow> v_seq v \<noteq> {})" "cell_seq_keep s"
  "\<lambda>v. s \<notin> v_seq v \<and> v_seq v \<noteq> {}" "\<lambda>_. False" for s
proof
  fix c :: llama_kv_cells and i nh :: nat
  assume a: "wf_cells c" "i < length (c_pos c)" "seq_id_ok s \<and> (v_pos (cell_at c i) \<noteq> -1 \<longrightarrow> v_seq (cell_at c i) \<noteq> {})"
  from cells_seq_keep_cell[OF a(1,2), of s] a(3) obtain c' where
    r: "cells_seq_keep i s c = Some (c', s \<notin> c_seq c ! i \<and> c_seq c ! i \<noteq> {})"
      "cell_upd c i (cell_seq_keep s (cell_at c i)) (c_has_shift c) c'" by auto
  then show "\<exists>c'. seq_keep_step s i (c, nh) =
      Some (c', if (s \<notin> v_seq (cell_at c i) \<and> v_seq (cell_at c i) \<noteq> {}) \<and> nh = length (c_pos c) then i else nh) \<and>
    cell_upd c i (cell_seq_keep s (cell_at c i)) (c_has_shift c \<or> False) c'"
    using cell_upd_length[OF r(2)] by (simp add: seq_keep_step_def cells_size_def del: cell_seq_keep.simps)
qed

definition add_cell :: "llama_seq_id \<Rightarrow> llama_pos \<Rightarrow> llama_pos \<Rightarrow> llama_pos \<Rightarrow> kv_cell \<Rightarrow> kv_cell" where
  "add_cell s p0 p1 d v = (if in_range p0 p1 v \<and> s \<in> v_seq v then cell_pos_add d v else v)"

interpretation add_pass: cell_pass "seq_add_step s p0 p1 d" "\<lambda>v. seq_id_ok s \<and> 0 \<le> p0" "add_cell s p0 p1 d"
  "\<lambda>v. in_range p0 p1 v \<and> s \<in> v_seq v \<and> to_i32 (v_pos v + d) < 0" "\<lambda>v. in_range p0 p1 v \<and> s \<in> v_seq v" for s p0 p1 d
proof
  fix c :: llama_kv_cells and i nh :: nat
  assume a: "wf_cells c" "i < length (c_pos c)" "seq_id_ok s \<and> 0 \<le> p0"
  show "\<exists>c'. seq_add_step s p0 p1 d i (c, nh) =
      Some (c', if (in_range p0 p1 (cell_at c i) \<and> s \<in> v_seq (cell_at c i) \<and> to_i32 (v_pos (cell_at c i) + d) < 0) \<and> nh = length (c_pos c) then i else nh) \<and>
    cell_upd c i (add_cell s p0 p1 d (cell_at c i)) (c_has_shift c \<or> (in_range p0 p1 (cell_at c i) \<and> s \<in> v_seq (cell_at c i))) c'"
  proof (cases "in_range p0 p1 (cell_at c i) \<and> s \<in> c_seq c ! i")
    case True
    then have "c_pos c ! i \<noteq> -1" using a(3) by auto
    from cells_pos_add_cell[OF a(1,2) this, of d] obtain c' where
      r: "cells_pos_add i d c = Some (c', to_i32 (c_pos c ! i + d) < 0)" "cell_upd c i (cell_pos_add d (cell_at c i)) True c'" by blast
    with True a cell_upd_length[OF r(2)] show ?thesis
      by (auto simp: seq_add_step_def step_simps add_cell_def cells_size_def simp del: cell_pos_add.simps)
  next
    case False
    with a cell_upd_refl[OF a(1,2)] show ?thesis by (auto simp: seq_add_step_def step_simps add_cell_def)
  qed
qed

definition div_cell :: "llama_seq_id \<Rightarrow> llama_pos \<Rightarrow> llama_pos \<Rightarrow> int \<Rightarrow> kv_cell \<Rightarrow> kv_cell" where
  "div_cell s p0 p1 d v = (if in_range p0 p1 v \<and> s \<in> v_seq v then cell_pos_div d v else v)"

interpretation div_pass: cell_pass "\<lambda>i (c, n). map_option (\<lambda>c. (c, n)) (seq_div_step s p0 p1 d i c)"
  "\<lambda>v. seq_id_ok s \<and> 0 \<le> p0 \<and> 0 < d" "div_cell s p0 p1 d" "\<lambda>_. False" "\<lambda>v. in_range p0 p1 v \<and> s \<in> v_seq v" for s p0 p1 d
proof
  fix c :: llama_kv_cells and i nh :: nat
  assume a: "wf_cells c" "i < length (c_pos c)" "seq_id_ok s \<and> 0 \<le> p0 \<and> 0 < d"
  show "\<exists>c'. (\<lambda>(c, n). map_option (\<lambda>c. (c, n)) (seq_div_step s p0 p1 d i c)) (c, nh) =
      Some (c', if False \<and> nh = length (c_pos c) then i else nh) \<and>
    cell_upd c i (div_cell s p0 p1 d (cell_at c i)) (c_has_shift c \<or> (in_range p0 p1 (cell_at c i) \<and> s \<in> v_seq (cell_at c i))) c'"
  proof (cases "in_range p0 p1 (cell_at c i) \<and> s \<in> c_seq c ! i")
    case True
    then have "c_pos c ! i \<noteq> -1" using a(3) by auto
    from cells_pos_div_cell[OF a(1,2) this, of d] a(3) obtain c' where
      r: "cells_pos_div i d c = Some c'" "cell_upd c i (cell_pos_div d (cell_at c i)) True c'" by blast
    with True a show ?thesis by (auto simp: seq_div_step_def step_simps div_cell_def simp del: cell_pos_div.simps)
  next
    case False
    with a cell_upd_refl[OF a(1,2)] show ?thesis by (auto simp: seq_div_step_def step_simps div_cell_def)
  qed
qed

definition cp_cell :: "llama_seq_id \<Rightarrow> llama_seq_id \<Rightarrow> llama_pos \<Rightarrow> llama_pos \<Rightarrow> kv_cell \<Rightarrow> kv_cell" where
  "cp_cell src dst p0 p1 v = (if in_range p0 p1 v \<and> src \<in> v_seq v then v\<lparr>v_seq := insert dst (v_seq v)\<rparr> else v)"

interpretation cp_pass: cell_pass "\<lambda>i (c, n). map_option (\<lambda>c. (c, n)) (seq_cp_step src dst p0 p1 i c)"
  "\<lambda>v. seq_id_ok src \<and> seq_id_ok dst \<and> 0 \<le> p0 \<and> (in_range p0 p1 v \<and> src \<in> v_seq v \<longrightarrow> dst \<notin> v_seq v)"
  "cp_cell src dst p0 p1" "\<lambda>_. False" "\<lambda>_. False" for src dst p0 p1
proof
  fix c :: llama_kv_cells and i nh :: nat
  assume a: "wf_cells c" "i < length (c_pos c)" "seq_id_ok src \<and> seq_id_ok dst \<and> 0 \<le> p0 \<and>
    (in_range p0 p1 (cell_at c i) \<and> src \<in> v_seq (cell_at c i) \<longrightarrow> dst \<notin> v_seq (cell_at c i))"
  show "\<exists>c'. (\<lambda>(c, n). map_option (\<lambda>c. (c, n)) (seq_cp_step src dst p0 p1 i c)) (c, nh) =
      Some (c', if False \<and> nh = length (c_pos c) then i else nh) \<and>
    cell_upd c i (cp_cell src dst p0 p1 (cell_at c i)) (c_has_shift c \<or> False) c'"
  proof (cases "in_range p0 p1 (cell_at c i) \<and> src \<in> c_seq c ! i")
    case True
    then have "c_pos c ! i \<noteq> -1" "dst \<notin> c_seq c ! i" using a(3) by auto
    from cells_seq_add_ok[OF a(1,2) this(1) _ this(2)] a(3) obtain c' where
      r: "cells_seq_add i dst c = Some c'"
        "cell_upd c i ((cell_at c i)\<lparr>v_seq := insert dst (c_seq c ! i)\<rparr>) (c_has_shift c) c'" by blast
    with True a show ?thesis by (auto simp: seq_cp_step_def step_simps cp_cell_def)
  next
    case False
    with a cell_upd_refl[OF a(1,2)] show ?thesis by (auto simp: seq_cp_step_def step_simps cp_cell_def)
  qed
qed

section \<open>The invariant of the cache\<close>

text \<open>A used cell belongs to some sequence, and its sequences live in its stream.\<close>

definition placed :: "llama_kv_cache \<Rightarrow> nat \<Rightarrow> kv_cell \<Rightarrow> bool" where
  "placed kv st v \<longleftrightarrow> (v_pos v \<noteq> -1 \<longrightarrow> v_seq v \<noteq> {}) \<and> (\<forall>s \<in> v_seq v. kv_seq_ok kv s \<and> kv_stream kv s = st)"

definition stream_ok :: "nat \<Rightarrow> llama_kv_cache \<Rightarrow> nat \<Rightarrow> bool" where
  "stream_ok sz kv st \<longleftrightarrow> wf_cells (kv_v_cells kv ! st) \<and> cells_size (kv_v_cells kv ! st) = sz \<and> kv_v_heads kv ! st \<le> sz \<and>
     (\<forall>v \<in> set (view (kv_v_cells kv ! st)). placed kv st v)"

definition kv_ok :: "nat \<Rightarrow> llama_kv_cache \<Rightarrow> bool" where
  "kv_ok sz kv \<longleftrightarrow> length (kv_v_cells kv) = kv_n_stream kv \<and> length (kv_v_heads kv) = kv_n_stream kv \<and>
     length (kv_seq_to_stream kv) \<le> LLAMA_MAX_SEQ \<and> kv_seq_to_stream kv \<noteq> [] \<and>
     (\<forall>st \<in> set (kv_seq_to_stream kv). st < kv_n_stream kv) \<and> (\<forall>st < kv_n_stream kv. stream_ok sz kv st)"

text \<open>The abstract state: which positions each sequence holds.\<close>

definition kv_positions :: "llama_kv_cache \<Rightarrow> llama_seq_id \<Rightarrow> llama_pos set" where
  "kv_positions kv s = seq_positions (view (kv_v_cells kv ! kv_stream kv s)) s"

lemma kv_put_simps [simp]:
  "kv_v_cells (kv_put st c h kv) = (kv_v_cells kv)[st := c]" "kv_v_heads (kv_put st c h kv) = (kv_v_heads kv)[st := h]"
  "kv_n_stream (kv_put st c h kv) = kv_n_stream kv" "kv_seq_to_stream (kv_put st c h kv) = kv_seq_to_stream kv"
  "kv_data (kv_put st c h kv) = kv_data kv" "kv_stream (kv_put st c h kv) = kv_stream kv"
  "kv_seq_ok (kv_put st c h kv) = kv_seq_ok kv" "placed (kv_put st c h kv) = placed kv"
  "kv_hparams (kv_put st c h kv) = kv_hparams kv" "kv_n_swa (kv_put st c h kv) = kv_n_swa kv" "kv_swa_type (kv_put st c h kv) = kv_swa_type kv"
  by (simp_all add: kv_put_def kv_stream_def kv_seq_ok_def placed_def fun_eq_iff)

lemma kv_put_same_head: "kv\<lparr>kv_v_cells := (kv_v_cells kv)[st := c]\<rparr> = kv_put st c (kv_v_heads kv ! st) kv"
  by (simp add: kv_put_def)

lemma kv_okD:
  assumes "kv_ok sz kv"
  shows "st < kv_n_stream kv \<Longrightarrow> stream_ok sz kv st" "kv_seq_ok kv s \<Longrightarrow> kv_stream kv s < kv_n_stream kv"
    "kv_seq_ok kv s \<Longrightarrow> seq_id_ok s" "length (kv_v_cells kv) = kv_n_stream kv" "length (kv_v_heads kv) = kv_n_stream kv"
proof -
  show "kv_seq_ok kv s \<Longrightarrow> seq_id_ok s" using assms by (auto simp: kv_ok_def kv_seq_ok_def seq_id_ok_def)
qed (use assms in \<open>auto simp: kv_ok_def kv_seq_ok_def kv_stream_def\<close>)

lemma kv_ok_stream:
  assumes "kv_ok sz kv" "kv_seq_ok kv s"
  shows "wf_cells (kv_v_cells kv ! kv_stream kv s)" "cells_size (kv_v_cells kv ! kv_stream kv s) = sz"
    "\<And>v. v \<in> set (view (kv_v_cells kv ! kv_stream kv s)) \<Longrightarrow> placed kv (kv_stream kv s) v"
    "kv_v_heads kv ! kv_stream kv s \<le> sz"
  using kv_okD(1)[OF assms(1) kv_okD(2)[OF assms]] by (auto simp: stream_ok_def)

lemma kv_put_ok:
  assumes "kv_ok sz kv" "st < kv_n_stream kv" "wf_cells c" "cells_size c = sz" "h \<le> sz"
    and "\<And>v. v \<in> set (view c) \<Longrightarrow> placed kv st v"
  shows "kv_ok sz (kv_put st c h kv)"
  using assms by (auto simp: kv_ok_def stream_ok_def nth_list_update)

lemma kv_positions_put:
  assumes "kv_ok sz kv" "st < kv_n_stream kv"
  shows "kv_positions (kv_put st c h kv) t = (if kv_stream kv t = st then seq_positions (view c) t else kv_positions kv t)"
  using assms by (simp add: kv_positions_def kv_ok_def nth_list_update)

lemma lower_head_le: "h \<le> sz \<Longrightarrow> cells_size c = sz \<Longrightarrow> lower_head n c h \<le> sz"
  by (auto simp: lower_head_def)

lemma seq_positions_map: "seq_positions (map f V) t = {v_pos (f v) |v. v \<in> set V \<and> t \<in> v_seq (f v)}"
  by (auto simp: seq_positions_def)

lemma clamp_p0_nonneg [simp]: "0 \<le> clamp_p0 p"
  by (simp add: clamp_p0_def)

lemma fold_s2s: "n \<le> length m \<Longrightarrow> fold (\<lambda>s m. m[s := s]) [0..<n] m = [0..<n] @ drop n m"
proof (induction n)
  case (Suc n)
  then show ?case by (simp add: list_update_append Cons_nth_drop_Suc[symmetric])
qed simp

lemma kv_new_ok:
  assumes "kv_new hp can_shift v_trans unified kv_size n_seq_max n_pad n_swa swa_type data = Some kv"
    and "0 < n_seq_max" "n_seq_max \<le> LLAMA_MAX_SEQ"
  shows "kv_ok kv_size kv" "kv_seq_ok kv s \<Longrightarrow> kv_positions kv s = {}"
proof -
  let ?n = "if unified then 1 else n_seq_max"
  have s2s: "fold (\<lambda>s m. m[s := s]) [0..<n_seq_max] (vec_resize n_seq_max 0 (replicate LLAMA_MAX_SEQ (0::nat))) = [0..<n_seq_max]"
    by (simp add: fold_s2s)
  have cells: "wf_cells c \<and> cells_size c = kv_size \<and> (\<forall>v \<in> set (view c). v = empty_cell)" if "c = cells_resize kv_size cells_new" for c
    using that cells_resize_new[of kv_size] by (simp add: cells_size_def) (metis length_replicate length_view)
  have kv: "kv_v_cells kv = replicate ?n (cells_resize kv_size cells_new)" "kv_n_stream kv = ?n" "kv_v_heads kv = replicate ?n 0"
    "kv_seq_to_stream kv = (if ?n > 1 then [0..<?n] else replicate LLAMA_MAX_SEQ 0)"
    using assms(1) s2s by (auto simp: kv_new_def Let_def split: if_splits)
  show ok: "kv_ok kv_size kv"
    unfolding kv_ok_def stream_ok_def placed_def
    using assms(2,3) cells[OF refl] by (auto simp: kv LLAMA_MAX_SEQ_def)
  show "kv_positions kv s = {}" if "kv_seq_ok kv s"
    using kv_okD(2)[OF ok that] cells[OF refl] by (auto simp: kv_positions_def seq_positions_def kv)
qed

section \<open>Effect of the passes on the positions\<close>

text \<open>A pass acts on the positions cell by cell.\<close>

definition cell_positions :: "llama_seq_id \<Rightarrow> kv_cell \<Rightarrow> llama_pos set" where
  "cell_positions t v = (if t \<in> v_seq v then {v_pos v} else {})"

lemma seq_positions_UN: "seq_positions V t = (\<Union>v \<in> set V. cell_positions t v)"
  by (auto simp: seq_positions_def cell_positions_def split: if_splits)

lemma seq_positions_map_UN: "seq_positions (map f V) t = (\<Union>v \<in> set V. cell_positions t (f v))"
  by (simp add: seq_positions_UN)

lemma rm_positions:
  "seq_positions (map (rm_cell s p0 p1) V) t = (if t = s then seq_positions V s - {p0..<p1} else seq_positions V t)"
proof -
  have "cell_positions t (rm_cell s p0 p1 v) = (if t = s then cell_positions s v - {p0..<p1} else cell_positions t v)" for v
    by (cases "t = s"; cases "v_seq v = {s}") (auto simp: cell_positions_def rm_cell_def)
  then show ?thesis by (simp add: seq_positions_map_UN seq_positions_UN)
qed

lemma any_rm_positions: "seq_positions (map (any_rm_cell p0 p1) V) t = seq_positions V t - {p0..<p1}"
proof -
  have "cell_positions t (any_rm_cell p0 p1 v) = cell_positions t v - {p0..<p1}" for v
    by (auto simp: cell_positions_def any_rm_cell_def)
  then show ?thesis by (auto simp: seq_positions_map_UN seq_positions_UN)
qed

lemma keep_positions: "seq_positions (map (cell_seq_keep s) V) t = (if t = s then seq_positions V s else {})"
proof -
  have "cell_positions t (cell_seq_keep s v) = (if t = s then cell_positions s v else {})" for v
    by (auto simp: cell_positions_def)
  then show ?thesis by (simp add: seq_positions_map_UN seq_positions_UN del: cell_seq_keep.simps)
qed

definition shift_positions :: "llama_pos \<Rightarrow> llama_pos \<Rightarrow> llama_pos \<Rightarrow> llama_pos set \<Rightarrow> llama_pos set" where
  "shift_positions p0 p1 d P = (P - {p0..<p1}) \<union> {p + d |p. p \<in> P \<inter> {p0..<p1} \<and> 0 \<le> p + d}"

lemma shift_positions_UN: "(\<Union>v \<in> A. shift_positions p0 p1 d (f v)) = shift_positions p0 p1 d (\<Union>v \<in> A. f v)"
  unfolding shift_positions_def by blast

lemma add_positions:
  "(\<And>p. p \<in> seq_positions V s \<Longrightarrow> p0 \<le> p \<Longrightarrow> p < p1 \<Longrightarrow> i32_ok (p + d)) \<Longrightarrow>
    seq_positions (map (add_cell s p0 p1 d) V) s = shift_positions p0 p1 d (seq_positions V s)"
  "(\<And>v. v \<in> set V \<Longrightarrow> s \<in> v_seq v \<Longrightarrow> t \<notin> v_seq v) \<Longrightarrow> seq_positions (map (add_cell s p0 p1 d) V) t = seq_positions V t"
proof -
  assume r: "\<And>p. p \<in> seq_positions V s \<Longrightarrow> p0 \<le> p \<Longrightarrow> p < p1 \<Longrightarrow> i32_ok (p + d)"
  have "cell_positions s (add_cell s p0 p1 d v) = shift_positions p0 p1 d (cell_positions s v)" if "v \<in> set V" for v
  proof (cases "s \<in> v_seq v \<and> p0 \<le> v_pos v \<and> v_pos v < p1")
    case True
    then have "i32_ok (v_pos v + d)" using r[of "v_pos v"] that by (auto simp: seq_positions_def)
    with True show ?thesis by (auto simp: cell_positions_def add_cell_def shift_positions_def)
  qed (auto simp: cell_positions_def add_cell_def shift_positions_def)
  then show "seq_positions (map (add_cell s p0 p1 d) V) s = shift_positions p0 p1 d (seq_positions V s)"
    by (simp add: seq_positions_map_UN seq_positions_UN shift_positions_UN[symmetric])
next
  assume "\<And>v. v \<in> set V \<Longrightarrow> s \<in> v_seq v \<Longrightarrow> t \<notin> v_seq v"
  then have "cell_positions t (add_cell s p0 p1 d v) = cell_positions t v" if "v \<in> set V" for v
    using that by (auto simp: cell_positions_def add_cell_def)
  then show "seq_positions (map (add_cell s p0 p1 d) V) t = seq_positions V t"
    by (simp add: seq_positions_map_UN seq_positions_UN)
qed

definition div_positions :: "llama_pos \<Rightarrow> llama_pos \<Rightarrow> int \<Rightarrow> llama_pos set \<Rightarrow> llama_pos set" where
  "div_positions p0 p1 d P = (P - {p0..<p1}) \<union> (\<lambda>p. p div d) ` (P \<inter> {p0..<p1})"

lemma div_positions_UN: "(\<Union>v \<in> A. div_positions p0 p1 d (f v)) = div_positions p0 p1 d (\<Union>v \<in> A. f v)"
  unfolding div_positions_def by blast

lemma div_positions_cells:
  "seq_positions (map (div_cell s p0 p1 d) V) s = div_positions p0 p1 d (seq_positions V s)"
  "(\<And>v. v \<in> set V \<Longrightarrow> s \<in> v_seq v \<Longrightarrow> t \<notin> v_seq v) \<Longrightarrow> seq_positions (map (div_cell s p0 p1 d) V) t = seq_positions V t"
proof -
  have "cell_positions s (div_cell s p0 p1 d v) = div_positions p0 p1 d (cell_positions s v)" for v
    by (auto simp: cell_positions_def div_cell_def div_positions_def)
  then show "seq_positions (map (div_cell s p0 p1 d) V) s = div_positions p0 p1 d (seq_positions V s)"
    by (simp add: seq_positions_map_UN seq_positions_UN div_positions_UN)
  assume "\<And>v. v \<in> set V \<Longrightarrow> s \<in> v_seq v \<Longrightarrow> t \<notin> v_seq v"
  then have "cell_positions t (div_cell s p0 p1 d v) = cell_positions t v" if "v \<in> set V" for v
    using that by (auto simp: cell_positions_def div_cell_def)
  then show "seq_positions (map (div_cell s p0 p1 d) V) t = seq_positions V t"
    by (simp add: seq_positions_map_UN seq_positions_UN)
qed

lemma cp_positions:
  assumes "src \<noteq> dst"
  shows "seq_positions (map (cp_cell src dst p0 p1) V) t =
    (if t = dst then seq_positions V dst \<union> (seq_positions V src \<inter> {p0..<p1}) else seq_positions V t)"
proof -
  have "cell_positions t (cp_cell src dst p0 p1 v) =
      (if t = dst then cell_positions dst v \<union> (cell_positions src v \<inter> {p0..<p1}) else cell_positions t v)" for v
    using assms by (auto simp: cell_positions_def cp_cell_def)
  then show ?thesis by (auto simp: seq_positions_map_UN seq_positions_UN)
qed

text \<open>The passes keep a cell placed.\<close>

lemma placed_cells:
  "placed kv st v \<Longrightarrow> placed kv st (rm_cell s p0 p1 v)"
  "placed kv st v \<Longrightarrow> placed kv st (any_rm_cell p0 p1 v)"
  "placed kv st v \<Longrightarrow> placed kv st (cell_seq_keep s v)"
  "placed kv st v \<Longrightarrow> placed kv st (add_cell s p0 p1 d v)"
  "placed kv st v \<Longrightarrow> placed kv st (div_cell s p0 p1 d v)"
  "placed kv st v \<Longrightarrow> kv_seq_ok kv dst \<Longrightarrow> kv_stream kv dst = st \<Longrightarrow> placed kv st (cp_cell src dst p0 p1 v)"
  by (auto simp: placed_def rm_cell_def any_rm_cell_def add_cell_def div_cell_def cp_cell_def)

section \<open>The operations\<close>

text \<open>A cache in which one stream went through a pass; its head is somewhere in range.\<close>

definition stream_mapped :: "nat \<Rightarrow> (kv_cell \<Rightarrow> kv_cell) \<Rightarrow> nat \<Rightarrow> llama_kv_cache \<Rightarrow> llama_kv_cache \<Rightarrow> bool" where
  "stream_mapped sz f st kv kv' \<longleftrightarrow> (\<exists>c h. kv' = kv_put st c h kv \<and> wf_cells c \<and> cells_size c = sz \<and> h \<le> sz \<and>
     view c = map f (view (kv_v_cells kv ! st)))"

lemma stream_mappedI [intro]:
  "wf_cells c \<Longrightarrow> cells_size c = sz \<Longrightarrow> h \<le> sz \<Longrightarrow> view c = map f (view (kv_v_cells kv ! st)) \<Longrightarrow> stream_mapped sz f st kv (kv_put st c h kv)"
  unfolding stream_mapped_def by blast

lemma stream_mapped_id:
  assumes "kv_ok sz kv" "st < kv_n_stream kv" "\<And>v. v \<in> set (view (kv_v_cells kv ! st)) \<Longrightarrow> f v = v"
  shows "stream_mapped sz f st kv kv"
proof -
  have "kv = kv_put st (kv_v_cells kv ! st) (kv_v_heads kv ! st) kv" by (simp add: kv_put_def)
  moreover have "stream_mapped sz f st kv (kv_put st (kv_v_cells kv ! st) (kv_v_heads kv ! st) kv)"
    using kv_okD(1)[OF assms(1,2)] assms(3) by (intro stream_mappedI) (auto simp: stream_ok_def map_idI)
  ultimately show ?thesis by simp
qed

lemma stream_mappedD:
  assumes "stream_mapped sz f st kv kv'" "kv_ok sz kv" "st < kv_n_stream kv"
  shows "(\<And>v. placed kv st v \<Longrightarrow> placed kv st (f v)) \<Longrightarrow> kv_ok sz kv'"
    "kv_positions kv' t = (if kv_stream kv t = st then seq_positions (map f (view (kv_v_cells kv ! st))) t else kv_positions kv t)"
    "kv_data kv' = kv_data kv" "kv_seq_ok kv' = kv_seq_ok kv" "kv_stream kv' = kv_stream kv" "kv_n_stream kv' = kv_n_stream kv"
    "view (kv_v_cells kv' ! r) = (if r = st then map f (view (kv_v_cells kv ! st)) else view (kv_v_cells kv ! r))"
proof -
  from assms(1) obtain c h where c: "kv' = kv_put st c h kv" "wf_cells c" "cells_size c = sz" "h \<le> sz"
    "view c = map f (view (kv_v_cells kv ! st))" by (auto simp: stream_mapped_def)
  show "kv_ok sz kv'" if "\<And>v. placed kv st v \<Longrightarrow> placed kv st (f v)"
    unfolding c(1) using kv_okD(1)[OF assms(2,3)] that by (intro kv_put_ok[OF assms(2,3) c(2-4)]) (auto simp: c(5) stream_ok_def)
  show "kv_positions kv' t = (if kv_stream kv t = st then seq_positions (map f (view (kv_v_cells kv ! st))) t else kv_positions kv t)"
    by (simp add: c(1,5) kv_positions_put[OF assms(2,3)])
  show "kv_data kv' = kv_data kv" "kv_seq_ok kv' = kv_seq_ok kv" "kv_stream kv' = kv_stream kv" "kv_n_stream kv' = kv_n_stream kv" by (simp_all add: c(1))
  show "view (kv_v_cells kv' ! r) = (if r = st then map f (view (kv_v_cells kv ! st)) else view (kv_v_cells kv ! r))"
    using assms(3) kv_okD(4)[OF assms(2)] by (simp add: c(1,5))
qed

lemma kv_seq_rm_ok:
  assumes ok: "kv_ok sz kv" and s: "kv_seq_ok kv s"
  shows "\<exists>c h. kv_seq_rm s p0 p1 kv = Some (kv_put (kv_stream kv s) c h kv, True) \<and> wf_cells c \<and> cells_size c = sz \<and>
    view c = map (rm_cell s (clamp_p0 p0) (clamp_p1 p1)) (view (kv_v_cells kv ! kv_stream kv s)) \<and>
    c_has_shift c = c_has_shift (kv_v_cells kv ! kv_stream kv s) \<and> h \<le> sz"
proof -
  note st = kv_ok_stream[OF ok s]
  from rm_pass.pass[OF st(1), of s "clamp_p0 p0" "clamp_p1 p1"] kv_okD(3)[OF ok s] st(2) obtain c n where
    r: "for_loop (seq_rm_step s (clamp_p0 p0) (clamp_p1 p1)) [0..<sz] (kv_v_cells kv ! kv_stream kv s, sz) = Some (c, n)"
      "wf_cells c" "view c = map (rm_cell s (clamp_p0 p0) (clamp_p1 p1)) (view (kv_v_cells kv ! kv_stream kv s))" "cells_size c = sz"
      "c_has_shift c = c_has_shift (kv_v_cells kv ! kv_stream kv s)" by auto
  have "s \<ge> 0" using s by (simp add: kv_seq_ok_def)
  with r s st(2) lower_head_le[OF st(4) r(4)] show ?thesis by (auto simp: kv_seq_rm_def Let_def)
qed

lemma kv_seq_rm_mapped:
  assumes "kv_ok sz kv" "kv_seq_ok kv s"
  shows "\<exists>kv'. kv_seq_rm s p0 p1 kv = Some (kv', True) \<and> stream_mapped sz (rm_cell s (clamp_p0 p0) (clamp_p1 p1)) (kv_stream kv s) kv kv'"
  using kv_seq_rm_ok[OF assms, of p0 p1] by blast

lemma kv_seq_rm_spec:
  assumes "kv_ok sz kv" "kv_seq_ok kv s"
  shows "\<exists>kv'. kv_seq_rm s p0 p1 kv = Some (kv', True) \<and> kv_ok sz kv' \<and> kv_data kv' = kv_data kv \<and>
    kv_positions kv' = (kv_positions kv)(s := kv_positions kv s - {clamp_p0 p0..<clamp_p1 p1})"
proof -
  from kv_seq_rm_mapped[OF assms] obtain kv' where
    r: "kv_seq_rm s p0 p1 kv = Some (kv', True)" "stream_mapped sz (rm_cell s (clamp_p0 p0) (clamp_p1 p1)) (kv_stream kv s) kv kv'" by blast
  note d = stream_mappedD[OF r(2) assms(1) kv_okD(2)[OF assms]]
  have "kv_positions kv' t = ((kv_positions kv)(s := kv_positions kv s - {clamp_p0 p0..<clamp_p1 p1})) t" for t
    by (auto simp: d(2) rm_positions) (auto simp: kv_positions_def)
  then show ?thesis using r(1) d(1)[OF placed_cells(1)] d(3) by auto
qed

text \<open>
  C9.  \<^verbatim>\<open>seq_rm\<close> on one sequence never aborts, always reports success, keeps the invariant and removes
  exactly the positions in \<open>[p0, p1)\<close> (negative bounds meaning the whole range) from that sequence;
  every other sequence keeps its positions, and the K/V data is untouched.
\<close>

theorem kv_seq_rm_positions:
  assumes "kv_ok sz kv" "kv_seq_ok kv s"
  shows "\<exists>kv'. kv_seq_rm s p0 p1 kv = Some (kv', True) \<and> kv_ok sz kv' \<and> kv_data kv' = kv_data kv \<and>
    kv_positions kv' = (kv_positions kv)(s := kv_positions kv s - {clamp_p0 p0..<clamp_p1 p1})"
  by (rule kv_seq_rm_spec[OF assms])

lemma any_rm_stream:
  assumes ok: "kv_ok sz kv" and st: "st < kv_n_stream kv"
  shows "\<exists>kv'. (do {
      let cells = kv_v_cells kv ! st;
      (cells, new_head) \<leftarrow> for_loop (any_rm_step (clamp_p0 p0) p1) [0..<cells_size cells] (cells, cells_size cells);
      Some (kv_put st cells (lower_head new_head cells (kv_v_heads kv ! st)) kv)
    }) = Some kv' \<and> stream_mapped sz (any_rm_cell (clamp_p0 p0) p1) st kv kv'"
proof -
  have s: "wf_cells (kv_v_cells kv ! st)" "cells_size (kv_v_cells kv ! st) = sz" "kv_v_heads kv ! st \<le> sz"
    using kv_okD(1)[OF ok st] by (auto simp: stream_ok_def)
  from any_rm_pass.pass[OF s(1), of "clamp_p0 p0" p1] s(2) obtain c n where
    r: "for_loop (any_rm_step (clamp_p0 p0) p1) [0..<sz] (kv_v_cells kv ! st, sz) = Some (c, n)"
      "wf_cells c" "view c = map (any_rm_cell (clamp_p0 p0) p1) (view (kv_v_cells kv ! st))" "cells_size c = sz" by auto
  then show ?thesis using s lower_head_le[OF s(3) r(4)] by (auto simp: Let_def)
qed

lemma kv_seq_rm_any_mapped:
  assumes ok: "kv_ok sz kv"
  shows "\<exists>kv'. kv_seq_rm (-1) p0 p1 kv = Some (kv', True) \<and> kv_ok sz kv' \<and> kv_data kv' = kv_data kv \<and> kv_n_stream kv' = kv_n_stream kv \<and>
    kv_stream kv' = kv_stream kv \<and> kv_seq_ok kv' = kv_seq_ok kv \<and>
    (\<forall>st < kv_n_stream kv. view (kv_v_cells kv' ! st) = map (any_rm_cell (clamp_p0 p0) (clamp_p1 p1)) (view (kv_v_cells kv ! st)))"
proof -
  let ?f = "\<lambda>st kv. do {
      let cells = kv_v_cells kv ! st;
      (cells, new_head) \<leftarrow> for_loop (any_rm_step (clamp_p0 p0) (clamp_p1 p1)) [0..<cells_size cells] (cells, cells_size cells);
      Some (kv_put st cells (lower_head new_head cells (kv_v_heads kv ! st)) kv)
    }"
  let ?I = "\<lambda>n k. kv_ok sz k \<and> kv_n_stream k = kv_n_stream kv \<and> kv_data k = kv_data kv \<and> kv_stream k = kv_stream kv \<and> kv_seq_ok k = kv_seq_ok kv \<and>
    (\<forall>st < kv_n_stream kv. view (kv_v_cells k ! st) =
      (if st < n then map (any_rm_cell (clamp_p0 p0) (clamp_p1 p1)) (view (kv_v_cells kv ! st)) else view (kv_v_cells kv ! st)))"
  have "\<exists>k. for_loop ?f [0..<kv_n_stream kv] kv = Some k \<and> ?I (kv_n_stream kv) k"
  proof (rule for_upt_rule[where I = ?I])
    show "?I 0 kv" using ok by simp
    fix st k assume st: "st < kv_n_stream kv" and I: "?I st k"
    have okk: "kv_ok sz k" and lt: "st < kv_n_stream k" using I st by auto
    from any_rm_stream[OF okk lt, of p0 "clamp_p1 p1"] obtain k' where
      r: "?f st k = Some k'" "stream_mapped sz (any_rm_cell (clamp_p0 p0) (clamp_p1 p1)) st k k'" by blast
    note d = stream_mappedD[OF r(2) okk lt]
    have "?I (Suc st) k'" using I st d(1)[OF placed_cells(2)] by (auto simp: d(3-7) less_Suc_eq)
    with r(1) show "\<exists>k'. ?f st k = Some k' \<and> ?I (Suc st) k'" by blast
  qed
  then obtain k where k: "for_loop ?f [0..<kv_n_stream kv] kv = Some k" "?I (kv_n_stream kv) k" by blast
  then have "kv_seq_rm (-1) p0 p1 kv = Some (k, True)" by (simp add: kv_seq_rm_def Let_def)
  with k(2) show ?thesis by auto
qed

text \<open>
  C10.  With \<^verbatim>\<open>seq_id = -1\<close>, \<^verbatim>\<open>seq_rm\<close> removes the positions in the range from every sequence of every
  stream; it never aborts and keeps the invariant.
\<close>

theorem kv_seq_rm_any_positions:
  assumes ok: "kv_ok sz kv"
  shows "\<exists>kv'. kv_seq_rm (-1) p0 p1 kv = Some (kv', True) \<and> kv_ok sz kv' \<and> kv_data kv' = kv_data kv \<and>
    (\<forall>s. kv_seq_ok kv s \<longrightarrow> kv_positions kv' s = kv_positions kv s - {clamp_p0 p0..<clamp_p1 p1})"
proof -
  from kv_seq_rm_any_mapped[OF ok, of p0 p1] obtain k where
    k: "kv_seq_rm (-1) p0 p1 kv = Some (k, True)" "kv_ok sz k" "kv_data k = kv_data kv" "kv_stream k = kv_stream kv"
      "\<forall>st < kv_n_stream kv. view (kv_v_cells k ! st) = map (any_rm_cell (clamp_p0 p0) (clamp_p1 p1)) (view (kv_v_cells kv ! st))" by blast
  have "kv_positions k s = kv_positions kv s - {clamp_p0 p0..<clamp_p1 p1}" if "kv_seq_ok kv s" for s
    using k(4,5) kv_okD(2)[OF ok that] by (simp add: kv_positions_def any_rm_positions)
  with k show ?thesis by auto
qed

lemma kv_seq_keep_mapped:
  assumes "kv_ok sz kv" "kv_seq_ok kv s"
  shows "\<exists>kv'. kv_seq_keep s kv = Some kv' \<and> stream_mapped sz (cell_seq_keep s) (kv_stream kv s) kv kv'"
proof -
  let ?st = "kv_stream kv s"
  note st = kv_ok_stream[OF assms]
  have "\<And>v. v \<in> set (view (kv_v_cells kv ! ?st)) \<Longrightarrow> seq_id_ok s \<and> (v_pos v \<noteq> -1 \<longrightarrow> v_seq v \<noteq> {})"
    using st(3) kv_okD(3)[OF assms] by (auto simp: placed_def)
  from keep_pass.pass[OF st(1) this] st(2) obtain c n where
    r: "for_loop (seq_keep_step s) [0..<sz] (kv_v_cells kv ! ?st, sz) = Some (c, n)"
      "wf_cells c" "view c = map (cell_seq_keep s) (view (kv_v_cells kv ! ?st))" "cells_size c = sz" by auto
  have h: "lower_head n c (kv_v_heads kv ! ?st) \<le> sz" by (rule lower_head_le[OF st(4) r(4)])
  show ?thesis using r(1) st(2) assms(2) stream_mappedI[OF r(2,4) h r(3)] by (auto simp: kv_seq_keep_def Let_def)
qed

text \<open>
  C11.  \<^verbatim>\<open>seq_keep\<close> never aborts, keeps the invariant, leaves the positions of the kept sequence and of
  every sequence of another stream as they are and empties the other sequences of its stream.
\<close>

theorem kv_seq_keep_positions:
  assumes "kv_ok sz kv" "kv_seq_ok kv s"
  shows "\<exists>kv'. kv_seq_keep s kv = Some kv' \<and> kv_ok sz kv' \<and> kv_data kv' = kv_data kv \<and>
    (\<forall>t. kv_positions kv' t = (if t = s \<or> kv_stream kv t \<noteq> kv_stream kv s then kv_positions kv t else {}))"
proof -
  from kv_seq_keep_mapped[OF assms] obtain kv' where
    r: "kv_seq_keep s kv = Some kv'" "stream_mapped sz (cell_seq_keep s) (kv_stream kv s) kv kv'" by blast
  note d = stream_mappedD[OF r(2) assms(1) kv_okD(2)[OF assms]]
  have "kv_positions kv' t = (if t = s \<or> kv_stream kv t \<noteq> kv_stream kv s then kv_positions kv t else {})" for t
    by (auto simp: d(2) keep_positions simp del: cell_seq_keep.simps) (auto simp: kv_positions_def)
  with r(1) d(1)[OF placed_cells(3)] d(3) show ?thesis by auto
qed

lemma kv_seq_add_mapped:
  assumes "kv_ok sz kv" "kv_seq_ok kv s" "n_pos_per_embd (kv_hparams kv) = 1" "shift \<noteq> 0" "clamp_p0 p0 \<noteq> clamp_p1 p1"
  shows "\<exists>kv'. kv_seq_add s p0 p1 shift kv = Some kv' \<and> stream_mapped sz (add_cell s (clamp_p0 p0) (clamp_p1 p1) shift) (kv_stream kv s) kv kv'"
proof -
  let ?st = "kv_stream kv s" and ?a = "clamp_p0 p0" and ?b = "clamp_p1 p1"
  note st = kv_ok_stream[OF assms(1,2)]
  from add_pass.pass[OF st(1), of s ?a ?b shift] kv_okD(3)[OF assms(1,2)] st(2) obtain c n where
    r: "for_loop (seq_add_step s ?a ?b shift) [0..<sz] (kv_v_cells kv ! ?st, sz) = Some (c, n)"
      "wf_cells c" "view c = map (add_cell s ?a ?b shift) (view (kv_v_cells kv ! ?st))" "cells_size c = sz"
      "n = first_freed (\<lambda>v. in_range ?a ?b v \<and> s \<in> v_seq v \<and> to_i32 (v_pos v + shift) < 0) (view (kv_v_cells kv ! ?st))" by auto
  have "n \<le> sz" unfolding r(5) by (rule order_trans[OF first_freed_le]) (use st(2) in \<open>simp add: cells_size_def\<close>)
  then have "stream_mapped sz (add_cell s ?a ?b shift) ?st kv (kv_put ?st c (if n \<noteq> sz then n else 0) kv)" using r(2-4) by auto
  then show ?thesis using r(1,4) st(2) assms(2-5) by (auto simp: kv_seq_add_def Let_def)
qed

lemma kv_positions_nonneg:
  assumes "kv_ok sz kv" "kv_seq_ok kv s" "p \<in> kv_positions kv s"
  shows "0 \<le> p"
proof -
  from assms(3) obtain v where v: "v \<in> set (view (kv_v_cells kv ! kv_stream kv s))" "s \<in> v_seq v" "p = v_pos v"
    by (auto simp: kv_positions_def seq_positions_def)
  have "cell_ok v" using kv_ok_stream(1)[OF assms(1,2)] v(1) by (simp add: wf_cells_def)
  with v(2,3) show ?thesis by (auto simp: cell_ok_def)
qed

text \<open>
  C12.  \<^verbatim>\<open>seq_add\<close> (context shift) never aborts on models with one position per embedding and keeps the
  invariant.  If no shifted position leaves \<^verbatim>\<open>int32_t\<close>, the positions of the sequence inside \<open>[p0, p1)\<close> move by
  \<open>shift\<close>, those that would become negative are dropped, and a sequence that shares no cell with it keeps its
  positions.
\<close>

theorem kv_seq_add_positions:
  assumes "kv_ok sz kv" "kv_seq_ok kv s" "n_pos_per_embd (kv_hparams kv) = 1"
    and "\<forall>p \<in> kv_positions kv s. clamp_p0 p0 \<le> p \<and> p < clamp_p1 p1 \<longrightarrow> i32_ok (p + shift)"
  shows "\<exists>kv'. kv_seq_add s p0 p1 shift kv = Some kv' \<and> kv_ok sz kv' \<and> kv_data kv' = kv_data kv \<and>
    kv_positions kv' s = shift_positions (clamp_p0 p0) (clamp_p1 p1) shift (kv_positions kv s) \<and>
    (\<forall>t. (\<forall>v \<in> set (view (kv_v_cells kv ! kv_stream kv s)). \<not> (s \<in> v_seq v \<and> t \<in> v_seq v)) \<longrightarrow> kv_positions kv' t = kv_positions kv t)"
proof (cases "shift = 0 \<or> clamp_p0 p0 = clamp_p1 p1")
  case True
  then have "kv_positions kv s = shift_positions (clamp_p0 p0) (clamp_p1 p1) shift (kv_positions kv s)"
    using kv_positions_nonneg[OF assms(1,2)] by (force simp: shift_positions_def)
  with True assms(1-3) show ?thesis by (intro exI[of _ kv]) (auto simp: kv_seq_add_def Let_def)
next
  case False
  from kv_seq_add_mapped[OF assms(1-3), of shift p0 p1] False obtain kv' where
    r: "kv_seq_add s p0 p1 shift kv = Some kv'" "stream_mapped sz (add_cell s (clamp_p0 p0) (clamp_p1 p1) shift) (kv_stream kv s) kv kv'" by blast
  note d = stream_mappedD[OF r(2) assms(1) kv_okD(2)[OF assms(1,2)]]
  let ?V = "view (kv_v_cells kv ! kv_stream kv s)"
  have V: "seq_positions ?V s = kv_positions kv s" by (simp add: kv_positions_def)
  have "kv_positions kv' s = shift_positions (clamp_p0 p0) (clamp_p1 p1) shift (kv_positions kv s)"
    unfolding d(2) using add_positions(1)[of ?V s "clamp_p0 p0" "clamp_p1 p1" shift] assms(4) by (auto simp: V)
  moreover have "kv_positions kv' t = kv_positions kv t" if "\<forall>v \<in> set ?V. \<not> (s \<in> v_seq v \<and> t \<in> v_seq v)" for t
    using that by (auto simp: d(2) add_positions(2)) (auto simp: kv_positions_def)
  ultimately show ?thesis using r(1) d(1)[OF placed_cells(4)] d(3) by auto
qed

lemma kv_seq_div_mapped:
  assumes "kv_ok sz kv" "kv_seq_ok kv s" "n_pos_per_embd (kv_hparams kv) = 1" "0 < d" "d \<noteq> 1" "clamp_p0 p0 \<noteq> clamp_p1 p1"
  shows "\<exists>kv'. kv_seq_div s p0 p1 d kv = Some kv' \<and> stream_mapped sz (div_cell s (clamp_p0 p0) (clamp_p1 p1) d) (kv_stream kv s) kv kv'"
proof -
  let ?st = "kv_stream kv s" and ?a = "clamp_p0 p0" and ?b = "clamp_p1 p1"
  note st = kv_ok_stream[OF assms(1,2)]
  from div_pass.pass[OF st(1), of s ?a d ?b] kv_okD(3)[OF assms(1,2)] st(2) assms(4) obtain c where
    r: "for_loop (seq_div_step s ?a ?b d) [0..<sz] (kv_v_cells kv ! ?st) = Some c"
      "wf_cells c" "view c = map (div_cell s ?a ?b d) (view (kv_v_cells kv ! ?st))" "cells_size c = sz"
    by (auto simp: for_loop_no_head)
  show ?thesis using r(1) st(2) assms(2-6) stream_mappedI[OF r(2,4) st(4) r(3)] by (auto simp: kv_seq_div_def Let_def kv_put_same_head)
qed

text \<open>
  C13.  \<^verbatim>\<open>seq_div\<close> by a positive divisor never aborts on models with one position per embedding, keeps
  the invariant and divides the positions of the sequence inside the range; a sequence that shares
  no cell with it keeps its positions.
\<close>

theorem kv_seq_div_positions:
  assumes "kv_ok sz kv" "kv_seq_ok kv s" "n_pos_per_embd (kv_hparams kv) = 1" "0 < d"
  shows "\<exists>kv'. kv_seq_div s p0 p1 d kv = Some kv' \<and> kv_ok sz kv' \<and> kv_data kv' = kv_data kv \<and>
    kv_positions kv' s = div_positions (clamp_p0 p0) (clamp_p1 p1) d (kv_positions kv s) \<and>
    (\<forall>t. (\<forall>v \<in> set (view (kv_v_cells kv ! kv_stream kv s)). \<not> (s \<in> v_seq v \<and> t \<in> v_seq v)) \<longrightarrow> kv_positions kv' t = kv_positions kv t)"
proof (cases "d = 1 \<or> clamp_p0 p0 = clamp_p1 p1")
  case True
  then have "kv_positions kv s = div_positions (clamp_p0 p0) (clamp_p1 p1) d (kv_positions kv s)"
    by (auto simp: div_positions_def)
  with True assms show ?thesis by (intro exI[of _ kv]) (auto simp: kv_seq_div_def Let_def)
next
  case False
  from kv_seq_div_mapped[OF assms, of p0 p1] False obtain kv' where
    r: "kv_seq_div s p0 p1 d kv = Some kv'" "stream_mapped sz (div_cell s (clamp_p0 p0) (clamp_p1 p1) d) (kv_stream kv s) kv kv'" by auto
  note m = stream_mappedD[OF r(2) assms(1) kv_okD(2)[OF assms(1,2)]]
  have "kv_positions kv' s = div_positions (clamp_p0 p0) (clamp_p1 p1) d (kv_positions kv s)"
    by (simp add: m(2) div_positions_cells(1)) (simp add: kv_positions_def)
  moreover have "kv_positions kv' t = kv_positions kv t" if "\<forall>v \<in> set (view (kv_v_cells kv ! kv_stream kv s)). \<not> (s \<in> v_seq v \<and> t \<in> v_seq v)" for t
    using that by (auto simp: m(2) div_positions_cells(2)) (auto simp: kv_positions_def)
  ultimately show ?thesis using r(1) m(1)[OF placed_cells(5)] m(3) by auto
qed

lemma kv_seq_cp_mapped:
  assumes "kv_ok sz kv" "kv_seq_ok kv src" "kv_seq_ok kv dst" "kv_stream kv src = kv_stream kv dst" "src \<noteq> dst"
    and "\<forall>v \<in> set (view (kv_v_cells kv ! kv_stream kv src)). in_range (clamp_p0 p0) (clamp_p1 p1) v \<and> src \<in> v_seq v \<longrightarrow> dst \<notin> v_seq v"
  shows "\<exists>kv'. kv_seq_cp src dst p0 p1 kv = Some kv' \<and> stream_mapped sz (cp_cell src dst (clamp_p0 p0) (clamp_p1 p1)) (kv_stream kv src) kv kv'"
proof -
  let ?st = "kv_stream kv src" and ?a = "clamp_p0 p0" and ?b = "clamp_p1 p1"
  note st = kv_ok_stream[OF assms(1,2)]
  have "\<And>v. v \<in> set (view (kv_v_cells kv ! ?st)) \<Longrightarrow> seq_id_ok src \<and> seq_id_ok dst \<and> 0 \<le> ?a \<and>
      (in_range ?a ?b v \<and> src \<in> v_seq v \<longrightarrow> dst \<notin> v_seq v)"
    using assms(6) kv_okD(3)[OF assms(1,2)] kv_okD(3)[OF assms(1,3)] by auto
  from cp_pass.pass[OF st(1) this] st(2) obtain c where
    r: "for_loop (seq_cp_step src dst ?a ?b) [0..<sz] (kv_v_cells kv ! ?st) = Some c"
      "wf_cells c" "view c = map (cp_cell src dst ?a ?b) (view (kv_v_cells kv ! ?st))" "cells_size c = sz"
    by (auto simp: for_loop_no_head)
  show ?thesis using r(1) st(2) assms(2-5) stream_mappedI[OF r(2,4) st(4) r(3)] by (auto simp: kv_seq_cp_def Let_def kv_put_same_head)
qed

text \<open>
  C14.  \<^verbatim>\<open>seq_cp\<close> between two sequences of one stream adds the positions of the source in the range to
  the destination and changes no other sequence and no data.  It relies on the destination not
  being in a cell of that range already (\<^verbatim>\<open>seq_add\<close> of the cells asserts that).
\<close>

theorem kv_seq_cp_positions:
  assumes "kv_ok sz kv" "kv_seq_ok kv src" "kv_seq_ok kv dst" "kv_stream kv src = kv_stream kv dst" "src \<noteq> dst"
    and "\<forall>v \<in> set (view (kv_v_cells kv ! kv_stream kv src)). in_range (clamp_p0 p0) (clamp_p1 p1) v \<and> src \<in> v_seq v \<longrightarrow> dst \<notin> v_seq v"
  shows "\<exists>kv'. kv_seq_cp src dst p0 p1 kv = Some kv' \<and> kv_ok sz kv' \<and> kv_data kv' = kv_data kv \<and>
    kv_positions kv' = (kv_positions kv)(dst := kv_positions kv dst \<union> (kv_positions kv src \<inter> {clamp_p0 p0..<clamp_p1 p1}))"
proof -
  from kv_seq_cp_mapped[OF assms] obtain kv' where
    r: "kv_seq_cp src dst p0 p1 kv = Some kv'" "stream_mapped sz (cp_cell src dst (clamp_p0 p0) (clamp_p1 p1)) (kv_stream kv src) kv kv'" by blast
  note d = stream_mappedD[OF r(2) assms(1) kv_okD(2)[OF assms(1,2)]]
  have "kv_ok sz kv'" using placed_cells(6) assms(3,4) by (intro d(1)) auto
  moreover have "kv_positions kv' t = ((kv_positions kv)(dst := kv_positions kv dst \<union> (kv_positions kv src \<inter> {clamp_p0 p0..<clamp_p1 p1}))) t" for t
    unfolding d(2) cp_positions[OF assms(5)] using assms(4) by (auto simp: kv_positions_def)
  ultimately show ?thesis using r(1) d(3) by auto
qed

section \<open>Copies between streams\<close>

definition stream_cp_cell :: "llama_seq_id \<Rightarrow> llama_seq_id \<Rightarrow> kv_cell \<Rightarrow> kv_cell" where
  "stream_cp_cell src dst v = (if src \<in> v_seq v then v\<lparr>v_seq := {dst}\<rparr> else empty_cell)"

text \<open>The position of the cell and its position before the pending shift are positions.\<close>

definition origin_ok :: "kv_cell \<Rightarrow> bool" where
  "origin_ok v \<longleftrightarrow> v_pos v \<le> INT32_MAX \<and> 0 \<le> v_pos v - v_shift v \<and> v_pos v - v_shift v \<le> INT32_MAX"

lemma origin_okD:
  assumes "origin_ok v" "cell_ok v" "s \<in> v_seq v"
  shows "to_i32 (v_pos v - v_shift v) = v_pos v - v_shift v" "0 \<le> v_pos v - v_shift v"
    "to_i32 (v_pos v) = v_pos v" "to_i32 (v_shift v) = v_shift v"
  using assms by (auto simp: origin_ok_def cell_ok_def INT32_MAX_def i32_ok_def intro!: to_i32_id)

lemma stream_cp_one:
  assumes wf: "wf_cells sc" "wf_cells c" and i: "i < length (c_pos sc)" "length (c_pos c) = length (c_pos sc)"
    and e: "cell_at c i = empty_cell" and ids: "seq_id_ok src" "seq_id_ok dst"
    and sh: "src \<in> c_seq sc ! i \<Longrightarrow> origin_ok (cell_at sc i)"
  shows "\<exists>c' hs. stream_cp_step sc src dst i c = Some c' \<and> cell_upd c i (stream_cp_cell src dst (cell_at sc i)) hs c'"
proof (cases "src \<in> c_seq sc ! i")
  case False
  with i ids cell_upd_refl[OF wf(2), of i] e show ?thesis
    by (auto simp: stream_cp_step_def step_simps stream_cp_cell_def)
next
  case True
  have ok: "cell_ok (cell_at sc i)" by (rule wf_cell_ok[OF wf(1) i(1)])
  with True have p: "0 \<le> c_pos sc ! i" "c_pos sc ! i \<noteq> -1" by (auto simp: cell_ok_def)
  have ic: "i < length (c_pos c)" "c_pos c ! i = -1" using i e by (auto simp: cell_at_def empty_cell_def)
  have "src \<in> v_seq (cell_at sc i)" using True by simp
  note w = origin_okD[OF sh[OF True] ok this, unfolded cell_at_simps]
  let ?q = "if c_shift sc ! i \<noteq> 0 then to_i32 (c_pos sc ! i - c_shift sc ! i) else c_pos sc ! i"
  have q: "0 \<le> ?q" using w p by simp
  from cells_pos_set_ok[OF wf(2) ic q] obtain c1 where
    1: "cells_pos_set i ?q c = Some c1" "cell_upd c i ((cell_at c i)\<lparr>v_pos := ?q\<rparr>) (c_has_shift c) c1" by blast
  have l1: "i < length (c_pos c1)" and at1: "cell_at c1 i = empty_cell\<lparr>v_pos := ?q\<rparr>"
    using cell_upd_length[OF 1(2)] cell_upd_cell_at[OF 1(2) ic(1)] ic e by auto
  have f1: "c_pos c1 ! i = ?q" "c_seq c1 ! i = {}" using at1 by (auto simp: cell_at_def empty_cell_def)
  from cells_seq_add_ok[OF cell_updD(1)[OF 1(2)] l1 _ ids(2)] f1 q obtain c2 where
    2: "cells_seq_add i dst c1 = Some c2" "cell_upd c1 i ((cell_at c1 i)\<lparr>v_seq := {dst}\<rparr>) (c_has_shift c1) c2" by (auto split: if_splits)
  have l2: "i < length (c_pos c2)" and at2: "cell_at c2 i = empty_cell\<lparr>v_pos := ?q, v_seq := {dst}\<rparr>"
    using cell_upd_length[OF 2(2)] cell_upd_cell_at[OF 2(2) l1] l1 at1 by auto
  have f2: "c_pos c2 ! i = ?q" "c_shift c2 ! i = 0" using at2 by (auto simp: cell_at_def empty_cell_def)
  have "\<exists>c3 hs. (if c_shift sc ! i \<noteq> 0 then map_option fst (cells_pos_add i (c_shift sc ! i) c2) else Some c2) = Some c3 \<and>
      cell_upd c2 i (empty_cell\<lparr>v_pos := c_pos sc ! i, v_seq := {dst}, v_shift := c_shift sc ! i\<rparr>) hs c3"
  proof (cases "c_shift sc ! i = 0")
    case True
    with at2 cell_upd_refl[OF cell_updD(1)[OF 2(2)] l2] show ?thesis by (auto simp: empty_cell_def)
  next
    case False
    from cells_pos_add_ok[OF cell_updD(1)[OF 2(2)] l2, of "c_shift sc ! i"] f2 q False p w obtain c3 where
      "cells_pos_add i (c_shift sc ! i) c2 = Some (c3, False)"
      "cell_upd c2 i ((cell_at c2 i)\<lparr>v_pos := c_pos sc ! i, v_shift := c_shift sc ! i\<rparr>) True c3" by auto
    with False at2 show ?thesis by (auto simp: empty_cell_def)
  qed
  then obtain c3 hs where
    3: "(if c_shift sc ! i \<noteq> 0 then map_option fst (cells_pos_add i (c_shift sc ! i) c2) else Some c2) = Some c3"
      "cell_upd c2 i (empty_cell\<lparr>v_pos := c_pos sc ! i, v_seq := {dst}, v_shift := c_shift sc ! i\<rparr>) hs c3" by blast
  have l3: "i < length (c_pos c3)" and at3: "cell_at c3 i = empty_cell\<lparr>v_pos := c_pos sc ! i, v_seq := {dst}, v_shift := c_shift sc ! i\<rparr>"
    using cell_upd_length[OF 3(2)] cell_upd_cell_at[OF 3(2) l2] l2 by auto
  from cells_ext_set_ok[OF cell_updD(1)[OF 3(2)] l3, of "c_ext sc ! i"] obtain c4 where
    4: "cells_ext_set i (c_ext sc ! i) c3 = Some c4" "cell_upd c3 i ((cell_at c3 i)\<lparr>v_ext := c_ext sc ! i\<rparr>) (c_has_shift c3) c4" by blast
  have v: "(cell_at c3 i)\<lparr>v_ext := c_ext sc ! i\<rparr> = stream_cp_cell src dst (cell_at sc i)"
    using True at3 by (simp add: stream_cp_cell_def cell_at_def empty_cell_def)
  have "view c4 = (view c)[i := stream_cp_cell src dst (cell_at sc i)]"
    using cell_updD(2)[OF 1(2)] cell_updD(2)[OF 2(2)] cell_updD(2)[OF 3(2)] cell_updD(2)[OF 4(2)] by (simp add: v)
  then have "cell_upd c i (stream_cp_cell src dst (cell_at sc i)) (c_has_shift c4) c4" using cell_updD(1)[OF 4(2)] by (simp add: cell_upd_def)
  moreover have "stream_cp_step sc src dst i c = Some c4"
    using True i ids p w 1(1) 2(1) 3(1) 4(1) by (auto simp: stream_cp_step_def step_simps)
  ultimately show ?thesis by blast
qed

lemma stream_cp_loop:
  assumes wf: "wf_cells sc" "wf_cells c" and len: "length (c_pos c) = length (c_pos sc)"
    and e: "view c = replicate (length (c_pos sc)) empty_cell" and ids: "seq_id_ok src" "seq_id_ok dst"
    and sh: "\<And>v. v \<in> set (view sc) \<Longrightarrow> src \<in> v_seq v \<Longrightarrow> origin_ok v"
  shows "\<exists>c'. for_loop (stream_cp_step sc src dst) [0..<cells_size sc] c = Some c' \<and> wf_cells c' \<and>
    view c' = map (stream_cp_cell src dst) (view sc)"
proof -
  let ?f = "stream_cp_cell src dst" and ?L = "length (c_pos sc)"
  let ?I = "\<lambda>n d. wf_cells d \<and> view d = map ?f (take n (view sc)) @ replicate (?L - n) empty_cell"
  have "\<exists>c'. for_loop (stream_cp_step sc src dst) [0..<?L] c = Some c' \<and> ?I ?L c'"
  proof (rule for_upt_rule[where I = ?I])
    show "?I 0 c" using wf(2) e by simp
    fix i d assume i: "i < ?L" and I: "?I i d"
    have ld: "length (c_pos d) = ?L" using arg_cong[of _ _ length, OF conjunct2[OF I]] i by simp
    have "view d ! i = empty_cell" using I i by (simp add: nth_append)
    then have at: "cell_at d i = empty_cell" using i ld by simp
    have "origin_ok (cell_at sc i)" if "src \<in> c_seq sc ! i"
      using sh[of "cell_at sc i"] that i by (auto simp: view_def)
    from stream_cp_one[OF wf(1) conjunct1[OF I] i ld at ids this] obtain d' hs where
      r: "stream_cp_step sc src dst i d = Some d'" "cell_upd d i (?f (cell_at sc i)) hs d'" by blast
    have "replicate (?L - i) empty_cell = empty_cell # replicate (?L - Suc i) empty_cell" using i by (metis Suc_diff_Suc replicate_Suc)
    then have "view d' = map ?f (take (Suc i) (view sc)) @ replicate (?L - Suc i) empty_cell"
      using cell_updD(2)[OF r(2)] I i by (simp add: list_update_append take_Suc_conv_app_nth)
    with r(1) cell_updD(1)[OF r(2)] show "\<exists>d'. stream_cp_step sc src dst i d = Some d' \<and> ?I (Suc i) d'" by blast
  qed
  then show ?thesis by (simp add: cells_size_def)
qed

lemma stream_cp_positions:
  "seq_positions (map (stream_cp_cell src dst) V) t = (if t = dst then seq_positions V src else {})"
proof -
  have "cell_positions t (stream_cp_cell src dst v) = (if t = dst then cell_positions src v else {})" for v
    by (auto simp: cell_positions_def stream_cp_cell_def)
  then show ?thesis by (simp add: seq_positions_map_UN seq_positions_UN)
qed

text \<open>
  C15.  A copy between sequences of different streams (only whole sequences are supported) makes the
  destination stream hold exactly the cells of the source sequence, each at the index it has in the source
  stream, with its position, extension and pending shift, and owned by the destination sequence alone;
  all other cells of the destination stream are empty and every other stream is left alone.  One data copy
  is queued, and the update that processes the queue makes the K/V data of the destination stream equal to
  the data of the source stream.  The positions of the copied cells, before and after their pending shift,
  are assumed to be positions (\<open>origin_ok\<close>).
\<close>

theorem kv_seq_cp_stream:
  assumes ok: "kv_ok sz kv" and ids: "kv_seq_ok kv src" "kv_seq_ok kv dst" and ne: "kv_stream kv src \<noteq> kv_stream kv dst"
    and q: "kv_ssrc kv = []" "kv_sdst kv = []"
    and sh: "\<forall>v \<in> set (view (kv_v_cells kv ! kv_stream kv src)). src \<in> v_seq v \<longrightarrow> origin_ok v"
  shows "\<exists>kv' kv''. kv_seq_cp src dst (-1) (-1) kv = Some kv' \<and> kv_ok sz kv' \<and>
    view (kv_v_cells kv' ! kv_stream kv dst) =
      map (\<lambda>v. if src \<in> v_seq v then v\<lparr>v_seq := {dst}\<rparr> else empty_cell) (view (kv_v_cells kv ! kv_stream kv src)) \<and>
    (\<forall>st. st \<noteq> kv_stream kv dst \<longrightarrow> kv_v_cells kv' ! st = kv_v_cells kv ! st) \<and>
    (\<forall>t. kv_positions kv' t = (if t = dst then kv_positions kv src else if kv_stream kv t = kv_stream kv dst then {} else kv_positions kv t)) \<and>
    kv_update g False (kv_ssrc kv') (kv_sdst kv') kv' = Some (kv'', False) \<and>
    kv_data kv'' = (kv_data kv)[kv_stream kv dst := kv_data kv ! kv_stream kv src]"
proof -
  let ?s0 = "kv_stream kv src" and ?s1 = "kv_stream kv dst"
  note s0 = kv_ok_stream[OF ok ids(1)] and s1 = kv_ok_stream[OF ok ids(2)]
  note lt0 = kv_okD(2)[OF ok ids(1)] and lt1 = kv_okD(2)[OF ok ids(2)]
  let ?k = "kv\<lparr>kv_ssrc := [?s0], kv_sdst := [?s1]\<rparr>"
  have okk: "kv_ok sz ?k" using ok by (simp add: kv_ok_def stream_ok_def placed_def kv_seq_ok_def kv_stream_def)
  have pk: "placed ?k = placed kv" "kv_stream ?k = kv_stream kv" "kv_positions ?k = kv_positions kv"
    by (simp_all add: placed_def kv_seq_ok_def kv_stream_def kv_positions_def fun_eq_iff)
  note rs = cells_reset_wf[OF s1(1)]
  have len: "length (c_pos (kv_v_cells kv ! ?s0)) = sz" "length (c_pos (kv_v_cells kv ! ?s1)) = sz" using s0(2) s1(2) by (auto simp: cells_size_def)
  from stream_cp_loop[OF s0(1) rs(1), of src dst] len rs(2) kv_okD(3)[OF ok ids(1)] kv_okD(3)[OF ok ids(2)] sh obtain c where
    c: "for_loop (stream_cp_step (kv_v_cells kv ! ?s0) src dst) [0..<sz] (cells_reset (kv_v_cells kv ! ?s1)) = Some c" "wf_cells c"
      "view c = map (stream_cp_cell src dst) (view (kv_v_cells kv ! ?s0))"
    using s0(2) by (auto simp: cells_size_def) (metis length_replicate length_view)
  have lc: "cells_size c = sz" using arg_cong[OF c(3), of length] len by (simp add: cells_size_def)
  let ?kv = "kv_put ?s1 c (kv_v_heads kv ! ?s0) ?k"
  have run: "kv_seq_cp src dst (-1) (-1) kv = Some ?kv"
    using ids ne q c(1) s0(2) by (simp add: kv_seq_cp_def Let_def)
  have "kv_ok sz ?kv"
    by (rule kv_put_ok[OF okk _ c(2) lc s0(4)])
      (use lt1 ids(2) in \<open>auto simp: pk c(3) stream_cp_cell_def placed_def\<close>)
  moreover have "kv_positions ?kv t = (if t = dst then kv_positions kv src else if kv_stream kv t = ?s1 then {} else kv_positions kv t)" for t
    using kv_positions_put[OF okk, of ?s1 c "kv_v_heads kv ! ?s0" t] lt1
    by (auto simp: pk c(3) stream_cp_positions) (auto simp: kv_positions_def)
  moreover have "view (kv_v_cells ?kv ! ?s1) = map (\<lambda>v. if src \<in> v_seq v then v\<lparr>v_seq := {dst}\<rparr> else empty_cell) (view (kv_v_cells kv ! ?s0))"
    using lt1 kv_okD(4)[OF ok] by (simp add: kv_put_def c(3)) (simp add: stream_cp_cell_def)
  moreover have "\<forall>st. st \<noteq> ?s1 \<longrightarrow> kv_v_cells ?kv ! st = kv_v_cells kv ! st" by (simp add: kv_put_def)
  moreover have "1 < kv_n_stream kv" using lt0 lt1 ne by linarith
  moreover have "kv_update g False (kv_ssrc ?kv) (kv_sdst ?kv) ?kv =
      Some (?kv\<lparr>kv_data := (kv_data kv)[?s1 := kv_data kv ! ?s0]\<rparr>, False)"
    using lt0 lt1 ne \<open>1 < kv_n_stream kv\<close> by (auto simp: kv_update_def kv_put_def Let_def)
  moreover have "kv_data (?kv\<lparr>kv_data := (kv_data kv)[?s1 := kv_data kv ! ?s0]\<rparr>) = (kv_data kv)[?s1 := kv_data kv ! ?s0]" by simp
  ultimately show ?thesis using run by blast
qed

section \<open>Concrete instances\<close>

text \<open>
  A unified cache of four cells: sequence 0 at the positions 5 and 6, sequence 1 at position 6 (the
  same cell) and sequence 2 at position 1.  And a cache with one stream per sequence, where
  sequence 0 holds the position 3.
\<close>

definition demo_ops :: "cells_op list" where
  "demo_ops = [Op_pos_set 0 5, Op_seq_add 0 0, Op_pos_set 2 6, Op_seq_add 2 0, Op_seq_add 2 1, Op_pos_set 3 1, Op_seq_add 3 2]"

definition demo_kv :: llama_kv_cache where
  "demo_kv = kv_put 0 (the (cells_run demo_ops (cells_resize 4 cells_new))) 4
     (the (kv_new demo_hparams True False True 4 3 1 0 LLAMA_SWA_TYPE_NONE [replicate 4 [0]]))"

definition demo_streams :: llama_kv_cache where
  "demo_streams = kv_put 0 (the (cells_run [Op_pos_set 1 3, Op_seq_add 1 0] (cells_resize 2 cells_new))) 2
     (the (kv_new demo_hparams True False False 2 2 1 0 LLAMA_SWA_TYPE_NONE [[[0], [0]], [[0], [0]]]))"

lemma kv_new_demo:
  assumes "n_pad = 1" "0 < n_seq_max" "n_seq_max \<le> LLAMA_MAX_SEQ"
  shows "\<exists>kv. kv_new hp a b u sz n_seq_max n_pad n_swa ty dat = Some kv \<and> kv_ok sz kv \<and> kv_n_stream kv = (if u then 1 else n_seq_max) \<and>
    kv_seq_to_stream kv = (if (if u then 1 else n_seq_max) > 1 then [0..<n_seq_max] else replicate LLAMA_MAX_SEQ 0) \<and>
    kv_hparams kv = hp \<and> kv_ssrc kv = [] \<and> kv_sdst kv = []"
proof -
  have "\<exists>kv. kv_new hp a b u sz n_seq_max n_pad n_swa ty dat = Some kv" using assms by (simp add: kv_new_def Let_def)
  then obtain kv where kv: "kv_new hp a b u sz n_seq_max n_pad n_swa ty dat = Some kv" by blast
  from kv_new_ok(1)[OF kv assms(2,3)] kv assms show ?thesis
    by (auto simp: kv_new_def Let_def fold_s2s split: if_splits)
qed

lemma demo_kv_facts:
  "kv_ok 4 demo_kv" "kv_seq_to_stream demo_kv = replicate 256 0" "kv_hparams demo_kv = demo_hparams"
  "view (kv_v_cells demo_kv ! 0) =
     [empty_cell\<lparr>v_pos := 5, v_seq := {0}\<rparr>, empty_cell, empty_cell\<lparr>v_pos := 6, v_seq := {0, 1}\<rparr>, empty_cell\<lparr>v_pos := 1, v_seq := {2}\<rparr>]"
  "kv_n_stream demo_kv = 1" "kv_swa_type demo_kv = LLAMA_SWA_TYPE_NONE"
proof -
  from kv_new_demo[of 1 3 demo_hparams True False True 4 0 LLAMA_SWA_TYPE_NONE "[replicate 4 [0]]"] obtain kv where
    kv: "kv_new demo_hparams True False True 4 3 1 0 LLAMA_SWA_TYPE_NONE [replicate 4 [0]] = Some kv" "kv_ok 4 kv" "kv_n_stream kv = 1"
      "kv_seq_to_stream kv = replicate LLAMA_MAX_SEQ 0" "kv_hparams kv = demo_hparams" by (auto simp: LLAMA_MAX_SEQ_def)
  have "cells_pre_run demo_ops (view (cells_resize 4 cells_new))"
    by (simp add: cells_resize_new(2) demo_ops_def numeral_eq_Suc seq_id_ok_def LLAMA_MAX_SEQ_def)
  from cells_run_ok[OF cells_resize_new(1) this] obtain c where
    c: "cells_run demo_ops (cells_resize 4 cells_new) = Some c" "wf_cells c" "view c = fold cells_spec demo_ops (replicate 4 empty_cell)"
    by (auto simp: cells_resize_new(2))
  have d: "demo_kv = kv_put 0 c 4 kv" unfolding demo_kv_def c(1) kv(1) by simp
  have v: "view c = [empty_cell\<lparr>v_pos := 5, v_seq := {0}\<rparr>, empty_cell, empty_cell\<lparr>v_pos := 6, v_seq := {0, 1}\<rparr>, empty_cell\<lparr>v_pos := 1, v_seq := {2}\<rparr>]"
    by (simp add: c(3) demo_ops_def numeral_eq_Suc insert_commute)
  have sz: "cells_size c = 4" using arg_cong[OF v, of length] by (simp add: cells_size_def)
  show "kv_ok 4 demo_kv"
    unfolding d by (rule kv_put_ok[OF kv(2) _ c(2) sz])
      (auto simp: v kv placed_def kv_seq_ok_def kv_stream_def LLAMA_MAX_SEQ_def)
  have l: "length (kv_v_cells kv) = 1" using kv(2,3) by (simp add: kv_ok_def)
  show "kv_seq_to_stream demo_kv = replicate 256 0" by (simp add: d kv(4) LLAMA_MAX_SEQ_def)
  show "view (kv_v_cells demo_kv ! 0) =
     [empty_cell\<lparr>v_pos := 5, v_seq := {0}\<rparr>, empty_cell, empty_cell\<lparr>v_pos := 6, v_seq := {0, 1}\<rparr>, empty_cell\<lparr>v_pos := 1, v_seq := {2}\<rparr>]"
    using l by (simp add: d v)
  show "kv_hparams demo_kv = demo_hparams" "kv_n_stream demo_kv = 1" by (simp_all add: d kv)
  show "kv_swa_type demo_kv = LLAMA_SWA_TYPE_NONE" using kv(1) by (auto simp: d kv_new_def Let_def)
qed

lemma demo_kv_seqs: "0 \<le> s \<Longrightarrow> s < 256 \<Longrightarrow> kv_seq_ok demo_kv s \<and> kv_stream demo_kv s = 0"
  by (auto simp: kv_seq_ok_def kv_stream_def demo_kv_facts)

lemma demo_kv_positions: "kv_positions demo_kv 0 = {5, 6}" "kv_positions demo_kv 1 = {6}" "kv_positions demo_kv 2 = {1}"
  using demo_kv_seqs by (auto simp: kv_positions_def seq_positions_UN cell_positions_def demo_kv_facts(4))

theorem kv_seq_rm_positions_witness:
  "\<exists>kv'. kv_seq_rm 0 6 (-1) demo_kv = Some (kv', True) \<and> kv_positions kv' 0 = {5} \<and> kv_positions kv' 1 = {6}"
  using kv_seq_rm_positions[OF demo_kv_facts(1), of 0 6 "-1"] demo_kv_seqs[of 0]
  by (auto simp: demo_kv_positions clamp_p0_def clamp_p1_def INT32_MAX_def)

theorem kv_seq_rm_any_positions_witness:
  "\<exists>kv'. kv_seq_rm (-1) 6 (-1) demo_kv = Some (kv', True) \<and> kv_positions kv' 0 = {5} \<and> kv_positions kv' 1 = {} \<and> kv_positions kv' 2 = {1}"
  using kv_seq_rm_any_positions[OF demo_kv_facts(1), of 6 "-1"] demo_kv_seqs[of 0] demo_kv_seqs[of 1] demo_kv_seqs[of 2]
  by (auto simp: demo_kv_positions clamp_p0_def clamp_p1_def INT32_MAX_def)

theorem kv_seq_keep_positions_witness:
  "\<exists>kv'. kv_seq_keep 1 demo_kv = Some kv' \<and> kv_positions kv' 0 = {} \<and> kv_positions kv' 1 = {6} \<and> kv_positions kv' 2 = {}"
  using kv_seq_keep_positions[OF demo_kv_facts(1), of 1] demo_kv_seqs[of 0] demo_kv_seqs[of 1] demo_kv_seqs[of 2]
  by (auto simp: demo_kv_positions)

lemma demo_n_pos: "n_pos_per_embd (kv_hparams demo_kv) = 1"
  by (simp add: demo_kv_facts(3) n_pos_per_embd_def demo_hparams_def)

theorem kv_seq_add_positions_witness:
  "\<exists>kv'. kv_seq_add 0 0 (-1) (-6) demo_kv = Some kv' \<and> kv_positions kv' 0 = {0} \<and> kv_positions kv' 2 = {1}"
  using kv_seq_add_positions[OF demo_kv_facts(1) _ demo_n_pos, of 0 0 "-1" "-6"] demo_kv_seqs[of 0]
  by (auto simp: demo_kv_positions demo_kv_facts(4) shift_positions_def clamp_p0_def clamp_p1_def INT32_MAX_def i32_ok_def)

theorem kv_seq_div_positions_witness:
  "\<exists>kv'. kv_seq_div 0 0 6 2 demo_kv = Some kv' \<and> kv_positions kv' 0 = {2, 6} \<and> kv_positions kv' 2 = {1}"
  using kv_seq_div_positions[OF demo_kv_facts(1) _ demo_n_pos, of 0 2 0 6] demo_kv_seqs[of 0]
  by (auto simp: demo_kv_positions demo_kv_facts(4) div_positions_def clamp_p0_def clamp_p1_def)

theorem kv_seq_cp_positions_witness:
  "\<exists>kv'. kv_seq_cp 2 1 (-1) (-1) demo_kv = Some kv' \<and> kv_positions kv' 1 = {1, 6} \<and> kv_positions kv' 2 = {1}"
  using kv_seq_cp_positions[OF demo_kv_facts(1), of 2 1 "-1" "-1"] demo_kv_seqs[of 1] demo_kv_seqs[of 2]
  by (auto simp: demo_kv_positions demo_kv_facts(4) clamp_p0_def clamp_p1_def INT32_MAX_def)

lemma demo_streams_facts:
  "kv_ok 2 demo_streams" "kv_seq_to_stream demo_streams = [0, 1]" "kv_ssrc demo_streams = []" "kv_sdst demo_streams = []"
  "view (kv_v_cells demo_streams ! 0) = [empty_cell, empty_cell\<lparr>v_pos := 3, v_seq := {0}\<rparr>]"
proof -
  let ?ops = "[Op_pos_set 1 3, Op_seq_add 1 0]"
  from kv_new_demo[of 1 2 demo_hparams True False False 2 0 LLAMA_SWA_TYPE_NONE "[[[0], [0]], [[0], [0]]]"] obtain kv where
    kv: "kv_new demo_hparams True False False 2 2 1 0 LLAMA_SWA_TYPE_NONE [[[0], [0]], [[0], [0]]] = Some kv" "kv_ok 2 kv" "kv_n_stream kv = 2"
      "kv_seq_to_stream kv = [0..<2]" "kv_ssrc kv = []" "kv_sdst kv = []" by (auto simp: LLAMA_MAX_SEQ_def)
  have "cells_pre_run ?ops (view (cells_resize 2 cells_new))"
    by (simp add: cells_resize_new(2) numeral_eq_Suc seq_id_ok_def LLAMA_MAX_SEQ_def)
  from cells_run_ok[OF cells_resize_new(1) this] obtain c where
    c: "cells_run ?ops (cells_resize 2 cells_new) = Some c" "wf_cells c" "view c = fold cells_spec ?ops (replicate 2 empty_cell)"
    by (auto simp: cells_resize_new(2))
  have d: "demo_streams = kv_put 0 c 2 kv" unfolding demo_streams_def c(1) kv(1) by simp
  have v: "view c = [empty_cell, empty_cell\<lparr>v_pos := 3, v_seq := {0}\<rparr>]" by (simp add: c(3) numeral_eq_Suc)
  have sz: "cells_size c = 2" using arg_cong[OF v, of length] by (simp add: cells_size_def)
  show "kv_ok 2 demo_streams"
    unfolding d by (rule kv_put_ok[OF kv(2) _ c(2) sz]) (auto simp: v kv placed_def kv_seq_ok_def kv_stream_def)
  have l: "length (kv_v_cells kv) = 2" using kv(2,3) by (simp add: kv_ok_def)
  show "view (kv_v_cells demo_streams ! 0) = [empty_cell, empty_cell\<lparr>v_pos := 3, v_seq := {0}\<rparr>]" using l by (simp add: d v)
  show "kv_seq_to_stream demo_streams = [0, 1]" by (simp add: d kv(4) numeral_2_eq_2)
  show "kv_ssrc demo_streams = []" "kv_sdst demo_streams = []" by (simp_all add: d kv(5,6) kv_put_def)
qed

theorem kv_seq_cp_stream_witness:
  "\<exists>kv' kv''. kv_seq_cp 0 1 (-1) (-1) demo_streams = Some kv' \<and> kv_positions kv' 1 = {3} \<and>
    view (kv_v_cells kv' ! 1) = [empty_cell, empty_cell\<lparr>v_pos := 3, v_seq := {1}\<rparr>] \<and>
    kv_update (\<lambda>_. None) False (kv_ssrc kv') (kv_sdst kv') kv' = Some (kv'', False) \<and>
    kv_data kv'' = (kv_data demo_streams)[1 := kv_data demo_streams ! 0]"
proof -
  have s: "kv_seq_ok demo_streams 0" "kv_seq_ok demo_streams 1" "kv_stream demo_streams 0 = 0" "kv_stream demo_streams 1 = 1"
    by (simp_all add: kv_seq_ok_def kv_stream_def demo_streams_facts)
  have "kv_positions demo_streams 0 = {3}"
    by (simp add: kv_positions_def seq_positions_UN cell_positions_def s demo_streams_facts(5))
  with kv_seq_cp_stream[OF demo_streams_facts(1) s(1,2) _ demo_streams_facts(3,4), of "\<lambda>_. None"] show ?thesis
    by (auto simp: s demo_streams_facts(5) origin_ok_def INT32_MAX_def)
qed

section \<open>The accumulated shift\<close>

text \<open>
  The member \<^verbatim>\<open>shift\<close> is documented to accumulate the shifts applied to \<^verbatim>\<open>pos\<close>, so position minus shift
  should be the position at the last reset.  \<^verbatim>\<open>pos_add\<close> keeps the difference; \<^verbatim>\<open>pos_div\<close> adds the
  difference with the opposite sign: dividing position 10 by 2 leaves position 5 with shift +5.
\<close>

lemma pos_add_keeps_origin: "0 \<le> v_pos v + d \<Longrightarrow> i32_ok (v_pos v + d) \<Longrightarrow> i32_ok (v_shift v + d) \<Longrightarrow> v_pos (cell_pos_add d v) - v_shift (cell_pos_add d v) = v_pos v - v_shift v"
  by simp

lemma pos_div_wrong_shift:
  "(case cells_run [Op_pos_set 0 10, Op_seq_add 0 0, Op_pos_div 0 2] (cells_resize 1 cells_new) of
      None \<Rightarrow> None | Some c \<Rightarrow> Some (c_pos c, c_shift c)) = Some ([5], [5])"
  by code_simp

end
