(* ===== verification/Kv_Slot.thy ===== *)
theory Kv_Slot
  imports Kv_Seq
begin

text \<open>
  Correctness of \<^verbatim>\<open>find_slot\<close>.  The search with its head, its wrap-around and its count of tested cells
  is shown equal to a reference definition: the first cells that can be used, in cyclic order from
  the head.  In particular the loop ends, no assertion fires and a slot is found whenever there are
  enough usable cells.
\<close>

section \<open>Usable cells\<close>

definition swa_config_ok :: "llama_kv_cache \<Rightarrow> bool" where
  "swa_config_ok kv \<longleftrightarrow> (kv_swa_type kv = LLAMA_SWA_TYPE_CHUNKED \<longrightarrow> 0 < kv_n_swa kv)"

definition usable :: "llama_kv_cache \<Rightarrow> llama_kv_cells \<Rightarrow> nat \<Rightarrow> bool" where
  "usable kv c i \<longleftrightarrow> can_use kv c i = Some True"

lemma can_use_empty:
  "wf_cells c \<Longrightarrow> i < length (c_pos c) \<Longrightarrow> c_pos c ! i = -1 \<Longrightarrow> can_use kv c i = Some True"
  by (simp add: can_use_def step_simps)

lemma can_use_total:
  assumes wf: "wf_cells c" and i: "i < length (c_pos c)" and cfg: "swa_config_ok kv"
  shows "can_use kv c i = Some (usable kv c i)"
proof -
  have "\<exists>b. can_use kv c i = Some b"
  proof (cases "c_pos c ! i = -1")
    case True
    then show ?thesis using can_use_empty[OF wf i] by blast
  next
    case False
    show ?thesis
    proof (cases "card (c_seq c ! i) = 1")
      case True
      then obtain s where s: "c_seq c ! i = {s}" by (meson card_1_singletonE)
      have ok: "cell_ok (cell_at c i)" by (rule wf_cell_ok[OF wf i])
      with s have sid: "seq_id_ok s" and p: "0 \<le> c_pos c ! i" using False by (auto simp: cell_ok_def)
      define pm where "pm = (if seq_positions (view c) s = {} then -1 else Max (seq_positions (view c) s))"
      have "c_pos c ! i \<in> seq_positions (view c) s" using s i by (auto simp: seq_positions_def view_def intro!: exI[of _ "cell_at c i"])
      then have "c_pos c ! i \<le> pm" by (auto simp: pm_def)
      then obtain b where "is_masked_swa (kv_n_swa kv) (kv_swa_type kv) (c_pos c ! i) (pm + 1) = Some b"
        using masked_defined[of "c_pos c ! i" "pm + 1" "kv_swa_type kv" "kv_n_swa kv"] p cfg by (auto simp: swa_config_ok_def)
      moreover have "cells_seq_pos_max s c = Some pm" unfolding pm_def by (rule cells_seq_pos_max_ok[OF wf sid])
      ultimately show ?thesis using False True i cells_seq_get_ok[OF wf i s] by (auto simp: can_use_def step_simps wf)
    next
      case no: False
      then show ?thesis using False i wf by (auto simp: can_use_def step_simps)
    qed
  qed
  then show ?thesis by (auto simp: usable_def)
qed

lemma usable_no_swa:
  assumes wf: "wf_cells c" and i: "i < length (c_pos c)" and t: "kv_swa_type kv = LLAMA_SWA_TYPE_NONE"
  shows "usable kv c i \<longleftrightarrow> c_pos c ! i = -1"
proof
  assume u: "usable kv c i"
  show "c_pos c ! i = -1"
    using u i t by (auto simp: usable_def can_use_def step_simps wf is_masked_swa_def bind_eq_Some_conv split: if_splits)
qed (simp add: usable_def can_use_empty[OF wf i])

section \<open>The search loop\<close>

definition cyc :: "nat \<Rightarrow> nat \<Rightarrow> nat list" where
  "cyc h sz = [h..<sz] @ [0..<h]"

lemma cyc_simps [simp]: "h \<le> sz \<Longrightarrow> length (cyc h sz) = sz" "h \<le> sz \<Longrightarrow> set (cyc h sz) = {0..<sz}" "distinct (cyc h sz)"
  by (auto simp: cyc_def)

definition at_step :: "nat \<Rightarrow> nat \<Rightarrow> nat \<Rightarrow> nat \<Rightarrow> bool" where
  "at_step h sz t k \<longleftrightarrow> (k = h + t \<and> h + t \<le> sz) \<or> (k + sz = h + t \<and> sz \<le> h + t)"

lemma at_step_nth: "at_step h sz t k \<Longrightarrow> h \<le> sz \<Longrightarrow> t < sz \<Longrightarrow> k < sz \<Longrightarrow> cyc h sz ! t = k"
  by (auto simp: at_step_def cyc_def nth_append)

lemma slot_loop_eq:
  assumes u: "\<And>i. i < cells_size c \<Longrightarrow> can_use kv c i = Some (u i)" and h: "h \<le> cells_size c" and n: "1 \<le> n"
  defines "found \<equiv> \<lambda>t. filter u (take t (cyc h (cells_size c)))"
  shows "at_step h (cells_size c) t k \<Longrightarrow> k \<le> cells_size c \<Longrightarrow> t < cells_size c \<Longrightarrow> length (found t) < n \<Longrightarrow>
    2 * (cells_size c - t) + of_bool (k = cells_size c) < fuel \<Longrightarrow>
    slot_loop fuel kv c False n (k, t, found t) =
      Some (if n \<le> length (filter u (cyc h (cells_size c))) then Some (take n (filter u (cyc h (cells_size c)))) else None)"
proof (induction fuel arbitrary: t k)
  case (Suc fuel)
  let ?sz = "cells_size c" and ?o = "cyc h (cells_size c)"
  show ?case
  proof (cases "k = ?sz")
    case True
    with Suc.prems h have "at_step h ?sz t 0" by (auto simp: at_step_def)
    with Suc.IH[OF this] Suc.prems True show ?thesis by simp
  next
    case False
    with Suc.prems have k: "k < ?sz" by simp
    have nth: "?o ! t = k" by (rule at_step_nth[OF Suc.prems(1) h Suc.prems(3) k])
    have fnd: "found (Suc t) = (if u k then found t @ [k] else found t)"
      using Suc.prems(3) h nth by (simp add: found_def take_Suc_conv_app_nth)
    have split: "filter u ?o = found (Suc t) @ filter u (drop (Suc t) ?o)"
      unfolding found_def by (metis append_take_drop_id filter_append)
    have st: "slot_test kv c False 1 (k, t, found t) = Some (k + 1, t + 1, found (Suc t))"
      using u[OF k] fnd by simp
    have step: "slot_loop (Suc fuel) kv c False n (k, t, found t) =
        (if length (found (Suc t)) = n then Some (Some (found (Suc t)))
         else if t + 1 \<ge> ?sz then Some None else slot_loop fuel kv c False n (k + 1, t + 1, found (Suc t)))"
      using k st by (simp del: slot_test.simps)
    consider (hit) "length (found (Suc t)) = n" | (exhausted) "length (found (Suc t)) < n" "t + 1 \<ge> ?sz"
      | (more) "length (found (Suc t)) < n" "t + 1 < ?sz"
      using fnd Suc.prems(4) by (cases "u k") fastforce+
    then show ?thesis
    proof cases
      case hit
      then show ?thesis using step split by simp
    next
      case exhausted
      then have "drop (Suc t) ?o = []" using h by simp
      then show ?thesis using step split exhausted by simp
    next
      case more
      have "at_step h ?sz (Suc t) (Suc k)" using Suc.prems(1) k more(2) by (auto simp: at_step_def)
      moreover have "2 * (?sz - Suc t) + of_bool (Suc k = ?sz) < fuel" using Suc.prems(5) more(2) k by (auto simp: of_bool_def)
      ultimately show ?thesis unfolding step using Suc.IH[of "Suc t" "Suc k"] more k by simp
    qed
  qed
qed simp

text \<open>The reference: the first \<open>n\<close> usable cells in cyclic order.\<close>

definition slot_choice :: "llama_kv_cache \<Rightarrow> nat \<Rightarrow> nat \<Rightarrow> nat list" where
  "slot_choice kv st n =
     (let c = kv_v_cells kv ! st;
          h = (if kv_v_heads kv ! st > cells_get_used c + 2 * n then 0 else kv_v_heads kv ! st)
      in take n (filter (usable kv c) (cyc h (cells_size c))))"

definition n_usable :: "llama_kv_cache \<Rightarrow> nat \<Rightarrow> nat" where
  "n_usable kv st = card {i. i < cells_size (kv_v_cells kv ! st) \<and> usable kv (kv_v_cells kv ! st) i}"

lemma length_filter_cyc:
  assumes "h \<le> sz"
  shows "length (filter u (cyc h sz)) = card {i. i < sz \<and> u i}"
proof -
  have "length (filter u (cyc h sz)) = card (set (filter u (cyc h sz)))" by (rule distinct_card[symmetric]) simp
  also have "set (filter u (cyc h sz)) = {i. i < sz \<and> u i}" using assms by auto
  finally show ?thesis .
qed

lemma slot_choice_props:
  assumes "stream_ok sz kv st" "n \<le> n_usable kv st"
  shows "length (slot_choice kv st n) = n" "distinct (slot_choice kv st n)"
    "i \<in> set (slot_choice kv st n) \<Longrightarrow> i < sz \<and> usable kv (kv_v_cells kv ! st) i"
proof -
  let ?c = "kv_v_cells kv ! st"
  define h where "h = (if kv_v_heads kv ! st > cells_get_used ?c + 2 * n then 0 else kv_v_heads kv ! st)"
  have h: "h \<le> cells_size ?c" "slot_choice kv st n = take n (filter (usable kv ?c) (cyc h (cells_size ?c)))"
    using assms(1) by (auto simp: slot_choice_def Let_def stream_ok_def h_def)
  show "length (slot_choice kv st n) = n" using assms(2) by (simp add: h length_filter_cyc n_usable_def)
  show "distinct (slot_choice kv st n)" by (simp add: h)
  show "i \<in> set (slot_choice kv st n) \<Longrightarrow> i < sz \<and> usable kv (kv_v_cells kv ! st) i"
    using assms(1) by (auto simp: h stream_ok_def dest: in_set_takeD)
qed

lemma slot_loop_choice:
  assumes ok: "stream_ok sz kv st" and cfg: "swa_config_ok kv" and n: "1 \<le> n" "n \<le> sz"
  defines "c \<equiv> kv_v_cells kv ! st"
  defines "h \<equiv> (if kv_v_heads kv ! st > cells_get_used c + 2 * n then 0 else kv_v_heads kv ! st)"
  shows "slot_loop (slot_fuel c) kv c False n (h, 0, []) =
    Some (if n \<le> n_usable kv st then Some (slot_choice kv st n) else None)"
proof -
  have wf: "wf_cells c" "cells_size c = sz" "h \<le> sz" using ok by (auto simp: stream_ok_def c_def h_def)
  have "at_step h sz 0 h" using wf(3) by (simp add: at_step_def)
  moreover have "can_use kv c i = Some (usable kv c i)" if "i < cells_size c" for i
    using can_use_total[OF wf(1) _ cfg] that by (simp add: cells_size_def)
  ultimately have "slot_loop (slot_fuel c) kv c False n (h, 0, []) =
      Some (if n \<le> length (filter (usable kv c) (cyc h sz)) then Some (take n (filter (usable kv c) (cyc h sz))) else None)"
    using slot_loop_eq[of c kv "usable kv c" h n 0 h "slot_fuel c"] wf(2,3) n by (simp add: slot_fuel_def of_bool_def)
  then show ?thesis
    using wf(2,3) by (simp add: length_filter_cyc n_usable_def slot_choice_def Let_def flip: c_def h_def)
qed

section \<open>find\_slot\<close>

text \<open>What the assertions of \<^verbatim>\<open>find_slot\<close> require of a ubatch.\<close>

definition ubatch_n_seqs :: "llama_kv_cache \<Rightarrow> llama_ubatch \<Rightarrow> nat" where
  "ubatch_n_seqs kv u = (if kv_n_stream kv > 1 then u_n_seqs_unq u else 1)"

definition ubatch_n_tokens :: "llama_kv_cache \<Rightarrow> llama_ubatch \<Rightarrow> nat" where
  "ubatch_n_tokens kv u = u_n_tokens u div ubatch_n_seqs kv u"

definition ubatch_fits :: "llama_kv_cache \<Rightarrow> llama_ubatch \<Rightarrow> bool" where
  "ubatch_fits kv u \<longleftrightarrow> 1 \<le> ubatch_n_seqs kv u \<and> 1 \<le> ubatch_n_tokens kv u \<and> u_n_tokens u mod ubatch_n_seqs kv u = 0 \<and>
     (\<forall>s < ubatch_n_seqs kv u. s < length (u_seq_id_unq u) \<and> kv_seq_ok kv (u_seq_id_unq u ! s) \<and>
        (kv_n_stream kv > 1 \<longrightarrow> u_n_seq_id u ! (s * ubatch_n_tokens kv u) = 1 \<and>
           u_seq_id u ! (s * ubatch_n_tokens kv u) ! 0 = u_seq_id_unq u ! s))"

definition ubatch_stream :: "llama_kv_cache \<Rightarrow> llama_ubatch \<Rightarrow> nat \<Rightarrow> nat" where
  "ubatch_stream kv u s = kv_stream kv (u_seq_id_unq u ! s)"

lemma find_slot_seqs_eq:
  assumes ok: "kv_ok sz kv" and cfg: "swa_config_ok kv" and n: "1 \<le> n"
    and s: "\<And>s. s \<in> set ss \<Longrightarrow> s < length (u_seq_id_unq u) \<and> kv_seq_ok kv (u_seq_id_unq u ! s) \<and>
      (kv_n_stream kv > 1 \<longrightarrow> u_n_seq_id u ! (s * n) = 1 \<and> u_seq_id u ! (s * n) ! 0 = u_seq_id_unq u ! s)"
    and r: "ss \<noteq> [] \<or> si_s0 res \<le> si_s1 res"
  shows "find_slot_seqs kv u False n ss res = Some
    (if \<forall>s \<in> set ss. n \<le> n_usable kv (ubatch_stream kv u s)
     then res\<lparr>si_s0 := fold (\<lambda>s m. min m (ubatch_stream kv u s)) ss (si_s0 res),
              si_s1 := fold (\<lambda>s m. max m (ubatch_stream kv u s)) ss (si_s1 res),
              si_strm := si_strm res @ map (ubatch_stream kv u) ss,
              si_idxs := si_idxs res @ map (\<lambda>s. slot_choice kv (ubatch_stream kv u s) n) ss\<rparr>
     else slot_empty)"
  using s r
proof (induction ss arbitrary: res)
  case (Cons t ss)
  let ?st = "ubatch_stream kv u t"
  have t: "t < length (u_seq_id_unq u)" "kv_seq_ok kv (u_seq_id_unq u ! t)" using Cons.prems(1)[of t] by auto
  have lt: "?st < kv_n_stream kv" unfolding ubatch_stream_def by (rule kv_okD(2)[OF ok t(2)])
  have st: "stream_ok sz kv ?st" by (rule kv_okD(1)[OF ok lt])
  have sz: "cells_size (kv_v_cells kv ! ?st) = sz" using st by (simp add: stream_ok_def)
  have us: "n_usable kv ?st \<le> sz"
    using card_mono[of "{0..<sz}" "{i. i < sz \<and> usable kv (kv_v_cells kv ! ?st) i}"] by (simp add: n_usable_def sz subset_eq)
  have pre: "kv_n_stream kv > 1 \<longrightarrow> u_n_seq_id u ! (t * n) = 1 \<and> u_seq_id u ! (t * n) ! 0 = u_seq_id_unq u ! t" using Cons.prems(1)[of t] by simp
  show ?case
  proof (cases "n \<le> n_usable kv ?st")
    case False
    have "find_slot_seqs kv u False n (t # ss) res = Some slot_empty"
      using t pre sz False slot_loop_choice[OF st cfg n] by (auto simp: Let_def ubatch_stream_def)
    with False show ?thesis by simp
  next
    case True
    let ?res = "res\<lparr>si_s0 := min (si_s0 res) ?st, si_s1 := max (si_s1 res) ?st,
      si_strm := si_strm res @ [?st], si_idxs := si_idxs res @ [slot_choice kv ?st n]\<rparr>"
    have "find_slot_seqs kv u False n (t # ss) res = find_slot_seqs kv u False n ss ?res"
      using t pre sz True us slot_loop_choice[OF st cfg n] slot_choice_props(1)[OF st True] by (auto simp: Let_def ubatch_stream_def)
    also have "\<dots> = Some
      (if \<forall>s \<in> set ss. n \<le> n_usable kv (ubatch_stream kv u s)
       then ?res\<lparr>si_s0 := fold (\<lambda>s m. min m (ubatch_stream kv u s)) ss (si_s0 ?res),
              si_s1 := fold (\<lambda>s m. max m (ubatch_stream kv u s)) ss (si_s1 ?res),
              si_strm := si_strm ?res @ map (ubatch_stream kv u) ss,
              si_idxs := si_idxs ?res @ map (\<lambda>s. slot_choice kv (ubatch_stream kv u s) n) ss\<rparr>
       else slot_empty)"
      by (rule Cons.IH) (use Cons.prems(1) in auto)
    finally show ?thesis using True by simp
  qed
qed simp

lemma find_slot_eq:
  assumes ok: "kv_ok sz kv" and cfg: "swa_config_ok kv" and u: "ubatch_fits kv u"
  defines "n \<equiv> ubatch_n_tokens kv u" and "k \<equiv> ubatch_n_seqs kv u"
  shows "\<exists>sinfo. find_slot u False kv = Some sinfo \<and>
    (if \<forall>s < k. n \<le> n_usable kv (ubatch_stream kv u s)
     then si_strm sinfo = map (ubatch_stream kv u) [0..<k] \<and>
          si_idxs sinfo = map (\<lambda>s. slot_choice kv (ubatch_stream kv u s) n) [0..<k]
     else slot_is_empty sinfo)"
proof -
  have n1: "1 \<le> n" "[0..<k] \<noteq> []" using u by (auto simp: ubatch_fits_def n_def k_def)
  have k: "kv_n_stream kv > 1 \<Longrightarrow> k = u_n_seqs_unq u \<and> u_n_seqs_unq u \<noteq> 0 \<and> u_n_tokens u mod u_n_seqs_unq u = 0 \<and> n = u_n_tokens u div u_n_seqs_unq u"
    "\<not> kv_n_stream kv > 1 \<Longrightarrow> k = 1 \<and> n = u_n_tokens u"
    using u by (auto simp: ubatch_fits_def n_def k_def ubatch_n_seqs_def ubatch_n_tokens_def)
  let ?res = "\<lparr>si_s0 = LLAMA_MAX_SEQ, si_s1 = 0, si_strm = [], si_idxs = []\<rparr>"
  have "find_slot u False kv = find_slot_seqs kv u False n [0..<k] ?res"
    using k by (cases "kv_n_stream kv > 1") (simp_all add: find_slot_def Let_def)
  also have "\<dots> = Some
    (if \<forall>s \<in> set [0..<k]. n \<le> n_usable kv (ubatch_stream kv u s)
     then ?res\<lparr>si_s0 := fold (\<lambda>s m. min m (ubatch_stream kv u s)) [0..<k] (si_s0 ?res),
              si_s1 := fold (\<lambda>s m. max m (ubatch_stream kv u s)) [0..<k] (si_s1 ?res),
              si_strm := si_strm ?res @ map (ubatch_stream kv u) [0..<k],
              si_idxs := si_idxs ?res @ map (\<lambda>s. slot_choice kv (ubatch_stream kv u s) n) [0..<k]\<rparr>
     else slot_empty)"
    by (rule find_slot_seqs_eq[OF ok cfg n1(1)]) (use u n1(2) in \<open>auto simp: ubatch_fits_def n_def k_def\<close>)
  finally show ?thesis by (auto simp: slot_is_empty_def slot_empty_def)
qed

text \<open>
  C16.  \<^verbatim>\<open>find_slot\<close> (in the non-contiguous mode the program uses) ends without aborting.  It returns a
  slot exactly when every stream of the ubatch has enough usable cells, and the slot then holds, for
  each stream, the first usable cells in cyclic order from the search head: distinct, in range, as
  many as there are tokens, and each empty or masked out by the sliding window.
\<close>

theorem find_slot_correct:
  assumes "kv_ok sz kv" "swa_config_ok kv" "ubatch_fits kv u"
  shows "\<exists>sinfo. find_slot u False kv = Some sinfo \<and>
    (if \<forall>s < ubatch_n_seqs kv u. ubatch_n_tokens kv u \<le> n_usable kv (ubatch_stream kv u s)
     then si_strm sinfo = map (ubatch_stream kv u) [0..<ubatch_n_seqs kv u] \<and>
          length (si_idxs sinfo) = ubatch_n_seqs kv u \<and>
          (\<forall>s < ubatch_n_seqs kv u.
             si_idxs sinfo ! s = slot_choice kv (ubatch_stream kv u s) (ubatch_n_tokens kv u) \<and>
             distinct (si_idxs sinfo ! s) \<and> length (si_idxs sinfo ! s) = ubatch_n_tokens kv u \<and>
             (\<forall>i \<in> set (si_idxs sinfo ! s). i < sz \<and> usable kv (kv_v_cells kv ! ubatch_stream kv u s) i))
     else slot_is_empty sinfo)"
proof -
  let ?n = "ubatch_n_tokens kv u" and ?k = "ubatch_n_seqs kv u"
  from find_slot_eq[OF assms] obtain sinfo where r: "find_slot u False kv = Some sinfo"
    "if \<forall>s < ?k. ?n \<le> n_usable kv (ubatch_stream kv u s)
     then si_strm sinfo = map (ubatch_stream kv u) [0..<?k] \<and> si_idxs sinfo = map (\<lambda>s. slot_choice kv (ubatch_stream kv u s) ?n) [0..<?k]
     else slot_is_empty sinfo" by blast
  have st: "stream_ok sz kv (ubatch_stream kv u s)" if "s < ?k" for s
    using that assms(3) kv_okD(1,2)[OF assms(1)] by (auto simp: ubatch_fits_def ubatch_stream_def)
  show ?thesis
  proof (cases "\<forall>s < ?k. ?n \<le> n_usable kv (ubatch_stream kv u s)")
    case True
    with r slot_choice_props[OF st] show ?thesis by (intro exI[of _ sinfo]) auto
  next
    case False
    with r show ?thesis by (intro exI[of _ sinfo]) auto
  qed
qed

definition demo_ubatch :: llama_ubatch where
  "demo_ubatch = \<lparr>u_equal_seqs = False, u_n_tokens = 1, u_n_seq_tokens = 1, u_n_seqs = 1, u_n_seqs_unq = 1, u_n_pos = 1,
     u_token = Some [7], u_embd = None, u_pos = [7], u_n_seq_id = [1], u_seq_id = [[0]], u_seq_id_unq = [0],
     u_seq_idx = replicate 256 (-1), u_output = [1]\<rparr>"

lemma demo_ubatch_fits: "ubatch_fits demo_kv demo_ubatch"
  using demo_kv_seqs[of 0] by (simp add: ubatch_fits_def ubatch_n_seqs_def ubatch_n_tokens_def demo_kv_facts demo_ubatch_def)

lemma demo_swa: "swa_config_ok demo_kv"
  by (simp add: swa_config_ok_def demo_kv_facts)

lemma demo_usable: "i < 4 \<Longrightarrow> usable demo_kv (kv_v_cells demo_kv ! 0) i \<longleftrightarrow> i = 1"
proof -
  assume i: "i < 4"
  let ?c = "kv_v_cells demo_kv ! 0"
  have wf: "wf_cells ?c" "length (c_pos ?c) = 4"
    using kv_okD(1)[OF demo_kv_facts(1), of 0] by (auto simp: demo_kv_facts(5) stream_ok_def cells_size_def)
  have "v_pos (view ?c ! i) = -1 \<longleftrightarrow> i = 1" using i by (auto simp: demo_kv_facts(4) numeral_eq_Suc less_Suc_eq)
  then show ?thesis using usable_no_swa[OF wf(1) _ demo_kv_facts(6), of i] i wf(2) by simp
qed

theorem find_slot_correct_witness:
  "\<exists>sinfo. find_slot demo_ubatch False demo_kv = Some sinfo \<and> si_strm sinfo = [0] \<and> si_idxs sinfo = [[1]]"
proof -
  have u: "ubatch_n_seqs demo_kv demo_ubatch = 1" "ubatch_n_tokens demo_kv demo_ubatch = 1" "ubatch_stream demo_kv demo_ubatch 0 = 0"
    using demo_kv_seqs[of 0] by (simp_all add: ubatch_n_seqs_def ubatch_n_tokens_def ubatch_stream_def demo_kv_facts demo_ubatch_def)
  have sz: "cells_size (kv_v_cells demo_kv ! 0) = 4"
    using kv_okD(1)[OF demo_kv_facts(1), of 0] by (auto simp: demo_kv_facts(5) stream_ok_def)
  have "{i. i < 4 \<and> usable demo_kv (kv_v_cells demo_kv ! 0) i} = {1}" using demo_usable by auto
  then have nu: "n_usable demo_kv 0 = 1" by (simp add: n_usable_def sz)
  from find_slot_correct[OF demo_kv_facts(1) demo_swa demo_ubatch_fits] obtain sinfo where
    r: "find_slot demo_ubatch False demo_kv = Some sinfo" "si_strm sinfo = [0]" "length (si_idxs sinfo) = 1"
      "length (si_idxs sinfo ! 0) = 1" "\<forall>i \<in> set (si_idxs sinfo ! 0). i < 4 \<and> usable demo_kv (kv_v_cells demo_kv ! 0) i"
    by (auto simp: u nu)
  from r(3) obtain x where x: "si_idxs sinfo = [x]" by (metis length_0_conv length_Suc_conv One_nat_def)
  from r(4) x obtain y where y: "x = [y]" by (metis length_0_conv length_Suc_conv One_nat_def nth_Cons_0)
  from r(5) x y demo_usable[of y] have "y = 1" by auto
  with r x y show ?thesis by auto
qed

end
