(* ===== verification/Kv_Apply.thy ===== *)
theory Kv_Apply
  imports Kv_Slot
begin

text \<open>
  Correctness of \<^verbatim>\<open>apply_ubatch\<close> on slots of empty cells (all slots of a cache without sliding window):
  the tokens are written to their cells, nothing else changes, and every sequence gains the
  positions the ubatch has for it.
\<close>

section \<open>Placing one token\<close>

definition token_ids :: "llama_ubatch \<Rightarrow> nat \<Rightarrow> llama_seq_id list" where
  "token_ids u i = take (u_n_seq_id u ! i) (u_seq_id u ! i)"

definition token_cell :: "llama_ubatch \<Rightarrow> nat \<Rightarrow> kv_cell \<Rightarrow> kv_cell" where
  "token_cell u i v = v\<lparr>v_pos := u_pos u ! i,
     v_ext := (if is_pos_2d u then \<lparr>ext_x = u_pos u ! (i + u_n_tokens u * 2), ext_y = u_pos u ! (i + u_n_tokens u)\<rparr> else v_ext v),
     v_seq := set (token_ids u i)\<rparr>"

definition token_ok :: "llama_ubatch \<Rightarrow> nat \<Rightarrow> bool" where
  "token_ok u i \<longleftrightarrow> 0 \<le> u_pos u ! i \<and> u_n_seq_id u ! i \<le> length (u_seq_id u ! i) \<and> distinct (token_ids u i) \<and>
     (\<forall>s \<in> set (token_ids u i). seq_id_ok s)"

lemma seq_add_loop:
  assumes "wf_cells c" "i < length (c_pos c)" "c_pos c ! i \<noteq> -1" "n \<le> length ids"
    and "distinct (take n ids)" "\<And>s. s \<in> set (take n ids) \<Longrightarrow> seq_id_ok s" "c_seq c ! i = {}"
  shows "\<exists>c'. for_loop (\<lambda>s. cells_seq_add i (ids ! s)) [0..<n] c = Some c' \<and>
    cell_upd c i ((cell_at c i)\<lparr>v_seq := set (take n ids)\<rparr>) (c_has_shift c) c'"
  using assms(4-6)
proof (induction n)
  case 0
  have "(cell_at c i)\<lparr>v_seq := {}\<rparr> = cell_at c i" using assms(7) by (simp add: cell_at_def)
  then show ?case using cell_upd_refl[OF assms(1,2)] by simp
next
  case (Suc n)
  have tk: "take (Suc n) ids = take n ids @ [ids ! n]" using Suc.prems(1) by (simp add: take_Suc_conv_app_nth)
  with Suc obtain d where d: "for_loop (\<lambda>s. cells_seq_add i (ids ! s)) [0..<n] c = Some d"
    "cell_upd c i ((cell_at c i)\<lparr>v_seq := set (take n ids)\<rparr>) (c_has_shift c) d" by auto
  have at: "cell_at d i = (cell_at c i)\<lparr>v_seq := set (take n ids)\<rparr>" and l: "i < length (c_pos d)"
    using cell_upd_cell_at[OF d(2) assms(2)] cell_upd_length[OF d(2)] assms(2) by auto
  have f: "c_pos d ! i = c_pos c ! i" "c_seq d ! i = set (take n ids)" using at by (auto simp: cell_at_def)
  from cells_seq_add_ok[OF cell_updD(1)[OF d(2)] l, of "ids ! n"] Suc.prems(2,3) f assms(3) obtain e where
    e: "cells_seq_add i (ids ! n) d = Some e"
      "cell_upd d i ((cell_at d i)\<lparr>v_seq := insert (ids ! n) (set (take n ids))\<rparr>) (c_has_shift d) e" by (auto simp: tk)
  have "view e = (view c)[i := (cell_at c i)\<lparr>v_seq := set (take (Suc n) ids)\<rparr>]"
    using cell_updD(2)[OF e(2)] cell_updD(2)[OF d(2)] at by (simp add: tk)
  then have "cell_upd c i ((cell_at c i)\<lparr>v_seq := set (take (Suc n) ids)\<rparr>) (c_has_shift c) e"
    using cell_updD(1,3)[OF e(2)] cell_updD(3)[OF d(2)] by (simp add: cell_upd_def)
  with d(1) e(1) show ?case by (simp add: for_loop_append)
qed

lemma place_token_empty:
  assumes wf: "wf_cells c" and i: "idx < length (c_pos c)" and e: "c_pos c ! idx = -1" and t: "token_ok u i"
  shows "\<exists>c'. place_token u i idx (c, rm) = Some (c', rm) \<and> cell_upd c idx (token_cell u i (cell_at c idx)) (c_has_shift c) c'"
proof -
  have seq: "c_seq c ! idx = {}" using wf_cell_ok[OF wf i] e by (auto simp: cell_ok_def)
  from cells_pos_set_ok[OF wf i e, of "u_pos u ! i"] t obtain c1 where
    1: "cells_pos_set idx (u_pos u ! i) c = Some c1" "cell_upd c idx ((cell_at c idx)\<lparr>v_pos := u_pos u ! i\<rparr>) (c_has_shift c) c1"
    by (auto simp: token_ok_def)
  have l1: "idx < length (c_pos c1)" and at1: "cell_at c1 idx = (cell_at c idx)\<lparr>v_pos := u_pos u ! i\<rparr>"
    using cell_upd_length[OF 1(2)] cell_upd_cell_at[OF 1(2) i] i by auto
  let ?x = "\<lparr>ext_x = u_pos u ! (i + u_n_tokens u * 2), ext_y = u_pos u ! (i + u_n_tokens u)\<rparr>"
  let ?e = "if is_pos_2d u then ?x else c_ext c ! idx"
  have "\<exists>c2. (if is_pos_2d u then cells_ext_set idx ?x c1 else Some c1) = Some c2 \<and>
      cell_upd c1 idx ((cell_at c1 idx)\<lparr>v_ext := ?e\<rparr>) (c_has_shift c1) c2"
  proof (cases "is_pos_2d u")
    case False
    have "(cell_at c1 idx)\<lparr>v_ext := c_ext c ! idx\<rparr> = cell_at c1 idx" unfolding at1 by (simp add: cell_at_def)
    with False cell_upd_refl[OF cell_updD(1)[OF 1(2)] l1] show ?thesis by simp
  qed (use cells_ext_set_ok[OF cell_updD(1)[OF 1(2)] l1, of ?x] in auto)
  then obtain c2 where 2: "(if is_pos_2d u then cells_ext_set idx ?x c1 else Some c1) = Some c2"
    "cell_upd c1 idx ((cell_at c1 idx)\<lparr>v_ext := ?e\<rparr>) (c_has_shift c1) c2" by blast
  have l2: "idx < length (c_pos c2)" and at2: "cell_at c2 idx = (cell_at c idx)\<lparr>v_pos := u_pos u ! i, v_ext := ?e\<rparr>"
    using cell_upd_length[OF 2(2)] cell_upd_cell_at[OF 2(2) l1] l1 by (auto simp: at1)
  have f2: "c_pos c2 ! idx \<noteq> -1" "c_seq c2 ! idx = {}" using at2 seq t by (auto simp: cell_at_def token_ok_def)
  from seq_add_loop[OF cell_updD(1)[OF 2(2)] l2 f2(1) _ _ _ f2(2), of "u_n_seq_id u ! i" "u_seq_id u ! i"] t obtain c3 where
    3: "for_loop (\<lambda>s. cells_seq_add idx (u_seq_id u ! i ! s)) [0..<u_n_seq_id u ! i] c2 = Some c3"
      "cell_upd c2 idx ((cell_at c2 idx)\<lparr>v_seq := set (token_ids u i)\<rparr>) (c_has_shift c2) c3"
    by (auto simp: token_ok_def token_ids_def)
  have v: "(cell_at c2 idx)\<lparr>v_seq := set (token_ids u i)\<rparr> = token_cell u i (cell_at c idx)" by (simp add: at2 token_cell_def)
  have "view c3 = (view c)[idx := token_cell u i (cell_at c idx)]"
    using cell_updD(2)[OF 1(2)] cell_updD(2)[OF 2(2)] cell_updD(2)[OF 3(2)] by (simp add: v)
  then have "cell_upd c idx (token_cell u i (cell_at c idx)) (c_has_shift c) c3"
    using cell_updD(1,3)[OF 3(2)] cell_updD(3)[OF 2(2)] cell_updD(3)[OF 1(2)] by (simp add: cell_upd_def)
  moreover have "place_token u i idx (c, rm) = Some (c3, rm)"
    using wf i e 1(1) 2(1) 3(1) by (simp add: place_token_def step_simps)
  ultimately show ?thesis by blast
qed

section \<open>Placing a row of tokens\<close>

text \<open>Cell \<open>j\<close> after the tokens \<open>off, off + 1, \<dots>\<close> went to the cells \<open>idxs\<close>.\<close>

definition place_row :: "llama_ubatch \<Rightarrow> nat \<Rightarrow> nat list \<Rightarrow> kv_cell list \<Rightarrow> kv_cell list" where
  "place_row u off idxs V = fold (\<lambda>ii V. V[idxs ! ii := token_cell u (off + ii) (V ! (idxs ! ii))]) [0..<length idxs] V"

lemma place_row_prefix:
  fixes idxs :: "nat list" and V :: "kv_cell list" and u :: llama_ubatch and off :: nat
  assumes "distinct idxs" "\<And>k. k \<in> set idxs \<Longrightarrow> k < length V" "n \<le> length idxs"
  defines "W \<equiv> \<lambda>n. fold (\<lambda>ii V. V[idxs ! ii := token_cell u (off + ii) (V ! (idxs ! ii))]) [0..<n] V"
  shows "length (W n) = length V" "ii < n \<Longrightarrow> W n ! (idxs ! ii) = token_cell u (off + ii) (V ! (idxs ! ii))"
    "j < length V \<Longrightarrow> j \<notin> set (take n idxs) \<Longrightarrow> W n ! j = V ! j"
proof -
  have "length (W n) = length V \<and> (\<forall>ii < n. W n ! (idxs ! ii) = token_cell u (off + ii) (V ! (idxs ! ii))) \<and>
    (\<forall>j < length V. j \<notin> set (take n idxs) \<longrightarrow> W n ! j = V ! j)"
    using assms(3)
  proof (induction n)
    case (Suc n)
    have w: "W (Suc n) = (W n)[idxs ! n := token_cell u (off + n) (W n ! (idxs ! n))]" by (simp add: W_def)
    have n: "idxs ! n < length V" using Suc.prems assms(2) by simp
    have "idxs ! n \<notin> set (take n idxs)"
      using Suc.prems assms(1) by (auto simp: in_set_conv_nth nth_eq_iff_index_eq)
    note n = n this
    have ne: "ii < n \<Longrightarrow> idxs ! ii \<noteq> idxs ! n" for ii using Suc.prems assms(1) by (simp add: nth_eq_iff_index_eq)
    show ?case using Suc n by (auto simp: w nth_list_update less_Suc_eq take_Suc_conv_app_nth dest: ne)
  qed (simp add: W_def)
  then show "length (W n) = length V" "ii < n \<Longrightarrow> W n ! (idxs ! ii) = token_cell u (off + ii) (V ! (idxs ! ii))"
    "j < length V \<Longrightarrow> j \<notin> set (take n idxs) \<Longrightarrow> W n ! j = V ! j" by auto
qed

lemmas place_row_nth = place_row_prefix[OF _ _ order_refl, folded place_row_def, simplified]

lemma place_row_loop:
  assumes wf: "wf_cells c" and d: "distinct idxs" and r: "\<And>k. k \<in> set idxs \<Longrightarrow> k < length (c_pos c) \<and> c_pos c ! k = -1"
    and t: "\<And>ii. ii < length idxs \<Longrightarrow> token_ok u (off + ii)"
  shows "\<exists>c'. for_loop (\<lambda>ii. place_token u (off + ii) (idxs ! ii)) [0..<length idxs] (c, rm) = Some (c', rm) \<and>
    wf_cells c' \<and> view c' = place_row u off idxs (view c) \<and> c_has_shift c' = c_has_shift c"
proof -
  let ?W = "\<lambda>n. fold (\<lambda>ii V. V[idxs ! ii := token_cell u (off + ii) (V ! (idxs ! ii))]) [0..<n] (view c)"
  let ?I = "\<lambda>n st. snd st = rm \<and> wf_cells (fst st) \<and> view (fst st) = ?W n \<and> c_has_shift (fst st) = c_has_shift c"
  have "\<exists>st. for_loop (\<lambda>ii. place_token u (off + ii) (idxs ! ii)) [0..<length idxs] (c, rm) = Some st \<and> ?I (length idxs) st"
  proof (rule for_upt_rule[where I = ?I])
    show "?I 0 (c, rm)" using wf by simp
    fix n st assume n: "n < length idxs" and I: "?I n st"
    obtain e where st: "st = (e, rm)" using I by (cases st) auto
    note W = place_row_prefix[where u = u and off = off and V = "view c", OF d _ less_imp_le[OF n]]
    have k: "idxs ! n < length (c_pos c)" "c_pos c ! (idxs ! n) = -1" "idxs ! n \<notin> set (take n idxs)"
      using n r d by (auto simp: in_set_conv_nth nth_eq_iff_index_eq)
    have ve: "view e = ?W n" using I st by simp
    have le: "length (c_pos e) = length (c_pos c)" using W(1) r arg_cong[OF ve, of length] by simp
    have at: "cell_at e (idxs ! n) = cell_at c (idxs ! n)"
      using W(3)[of "idxs ! n"] r k le arg_cong[OF ve, of "\<lambda>V. V ! (idxs ! n)"] by simp
    then have p: "c_pos e ! (idxs ! n) = -1" using k(2) by (metis cell_at_simps(1))
    from place_token_empty[of e "idxs ! n" u "off + n" rm] I st k(1) le p t[OF n] obtain e' where
      e': "place_token u (off + n) (idxs ! n) (e, rm) = Some (e', rm)"
        "cell_upd e (idxs ! n) (token_cell u (off + n) (cell_at e (idxs ! n))) (c_has_shift e) e'" by auto
    have "view e' = ?W (Suc n)" using cell_updD(2)[OF e'(2)] ve k(1) le by (simp flip: nth_view add: ve)
    with e'(1) cell_updD(1,3)[OF e'(2)] I st show "\<exists>st'. place_token u (off + n) (idxs ! n) st = Some st' \<and> ?I (Suc n) st'" by auto
  qed
  then show ?thesis by (auto simp: place_row_def)
qed

text \<open>The positions a row adds.\<close>

definition row_positions :: "llama_ubatch \<Rightarrow> nat \<Rightarrow> nat \<Rightarrow> llama_seq_id \<Rightarrow> llama_pos set" where
  "row_positions u off n t = {u_pos u ! (off + ii) |ii. ii < n \<and> t \<in> set (token_ids u (off + ii))}"

lemma place_row_positions:
  assumes d: "distinct idxs" and r: "\<And>k. k \<in> set idxs \<Longrightarrow> k < length V \<and> v_seq (V ! k) = {}"
  shows "seq_positions (place_row u off idxs V) t = seq_positions V t \<union> row_positions u off (length idxs) t"
proof -
  note W = place_row_nth[where u = u and off = off and V = V, OF d]
  have len: "length (place_row u off idxs V) = length V" using W(1) r by simp
  have cell: "cell_positions t (place_row u off idxs V ! j) = (if j \<in> set idxs then {u_pos u ! (off + ii) |ii. ii < length idxs \<and> idxs ! ii = j \<and> t \<in> set (token_ids u (off + ii))}
      else cell_positions t (V ! j))" if "j < length V" for j
  proof (cases "j \<in> set idxs")
    case True
    then obtain ii where ii: "ii < length idxs" "idxs ! ii = j" by (auto simp: in_set_conv_nth)
    then have uq: "ii' < length idxs \<and> idxs ! ii' = j \<longleftrightarrow> ii' = ii" for ii' using d by (auto simp: nth_eq_iff_index_eq)
    have "place_row u off idxs V ! j = token_cell u (off + ii) (V ! j)" using W(2)[OF _ ii(1)] r ii(2) by simp
    moreover have "{u_pos u ! (off + ii') |ii'. ii' < length idxs \<and> idxs ! ii' = j \<and> t \<in> set (token_ids u (off + ii'))} =
        (if t \<in> set (token_ids u (off + ii)) then {u_pos u ! (off + ii)} else {})"
    proof -
      have "(ii' < length idxs \<and> idxs ! ii' = j \<and> t \<in> set (token_ids u (off + ii'))) \<longleftrightarrow> (ii' = ii \<and> t \<in> set (token_ids u (off + ii)))" for ii'
        using uq[of ii'] by blast
      then show ?thesis by auto
    qed
    ultimately show ?thesis using True by (simp add: cell_positions_def token_cell_def)
  qed (use W(3) r that in auto)
  have sp: "seq_positions X t = (\<Union>j < length X. cell_positions t (X ! j))" for X
    unfolding seq_positions_UN set_conv_nth by blast
  have old: "cell_positions t (V ! j) = {}" if "j \<in> set idxs" for j using r[OF that] by (simp add: cell_positions_def)
  show ?thesis
  proof
    show "seq_positions (place_row u off idxs V) t \<subseteq> seq_positions V t \<union> row_positions u off (length idxs) t"
      by (auto simp: sp len cell row_positions_def split: if_splits)
    show "seq_positions V t \<union> row_positions u off (length idxs) t \<subseteq> seq_positions (place_row u off idxs V) t"
    proof
      fix p assume "p \<in> seq_positions V t \<union> row_positions u off (length idxs) t"
      then consider (a) j where "j < length V" "p \<in> cell_positions t (V ! j)"
        | (b) ii where "ii < length idxs" "p = u_pos u ! (off + ii)" "t \<in> set (token_ids u (off + ii))"
        by (auto simp: sp row_positions_def)
      then show "p \<in> seq_positions (place_row u off idxs V) t"
      proof cases
        case a
        then have "j \<notin> set idxs" using old by blast
        with a cell[OF a(1)] show ?thesis by (auto simp: sp len intro!: bexI[of _ j])
      next
        case b
        then have "idxs ! ii \<in> set idxs" "idxs ! ii < length V" using r by auto
        moreover have "p \<in> cell_positions t (place_row u off idxs V ! (idxs ! ii))" using b calculation cell[of "idxs ! ii"] by auto
        ultimately show ?thesis by (auto simp: sp len)
      qed
    qed
  qed
qed

section \<open>apply\_ubatch\<close>

text \<open>A slot of empty cells for a ubatch: one row of \<open>n\<close> cells per stream.\<close>

definition slot_fits :: "nat \<Rightarrow> llama_kv_cache \<Rightarrow> slot_info \<Rightarrow> llama_ubatch \<Rightarrow> nat \<Rightarrow> bool" where
  "slot_fits sz kv si u n \<longleftrightarrow> si_strm si \<noteq> [] \<and> length (si_idxs si) = length (si_strm si) \<and> distinct (si_strm si) \<and>
     u_n_tokens u = length (si_strm si) * n \<and> 0 < n \<and>
     (\<forall>s < length (si_strm si). si_strm si ! s < kv_n_stream kv \<and> length (si_idxs si ! s) = n \<and> distinct (si_idxs si ! s) \<and>
        (\<forall>k \<in> set (si_idxs si ! s). k < sz \<and> c_pos (kv_v_cells kv ! (si_strm si ! s)) ! k = -1) \<and>
        (\<forall>ii < n. token_ok u (s * n + ii) \<and> token_ids u (s * n + ii) \<noteq> [] \<and>
           (\<forall>t \<in> set (token_ids u (s * n + ii)). kv_seq_ok kv t \<and> kv_stream kv t = si_strm si ! s)))"

text \<open>The cells of all streams, and the heads, after the first \<open>m\<close> rows.\<close>

definition rows_placed :: "llama_kv_cache \<Rightarrow> slot_info \<Rightarrow> llama_ubatch \<Rightarrow> nat \<Rightarrow> nat \<Rightarrow> llama_kv_cache \<Rightarrow> bool" where
  "rows_placed kv si u n m kv' \<longleftrightarrow> (\<exists>cs. kv' = kv\<lparr>kv_v_cells := cs\<rparr> \<and> length cs = length (kv_v_cells kv) \<and>
     (\<forall>s < length (si_strm si). let st = si_strm si ! s in
        if s < m then wf_cells (cs ! st) \<and> c_has_shift (cs ! st) = c_has_shift (kv_v_cells kv ! st) \<and>
          view (cs ! st) = place_row u (s * n) (si_idxs si ! s) (view (kv_v_cells kv ! st))
        else cs ! st = kv_v_cells kv ! st) \<and>
     (\<forall>st. st \<notin> set (si_strm si) \<longrightarrow> cs ! st = kv_v_cells kv ! st))"

definition heads_moved :: "slot_info \<Rightarrow> nat list \<Rightarrow> nat list" where
  "heads_moved si hs = fold (\<lambda>s hs. hs[si_strm si ! s := last (si_idxs si ! s) + 1]) [0..<length (si_strm si)] hs"

lemma fold_heads:
  "fold (\<lambda>s kv. kv\<lparr>kv_v_heads := (kv_v_heads kv)[f s := g s]\<rparr>) xs kv =
   kv\<lparr>kv_v_heads := fold (\<lambda>s hs. hs[f s := g s]) xs (kv_v_heads kv)\<rparr>"
  by (induction xs arbitrary: kv) auto

text \<open>
  The loop over the streams: what holds of every row when it is run on the cells of its stream
  holds of the result, and the streams without a row keep their cells.
\<close>

lemma stream_rows:
  assumes strm: "distinct strm" "\<forall>st \<in> set strm. st < length (kv_v_cells kv)" and init: "I 0 rm"
    and row: "\<And>s rm. s < length strm \<Longrightarrow> I s rm \<Longrightarrow> \<exists>c' rm'. row s (kv_v_cells kv ! (strm ! s), rm) = Some (c', rm') \<and> Q s c' \<and> I (Suc s) rm'"
  shows "\<exists>cs rm'. for_loop (\<lambda>s (kv, rm). do {
         let st = strm ! s;
         (cells, rm) \<leftarrow> row s (kv_v_cells kv ! st, rm);
         Some (kv\<lparr>kv_v_cells := (kv_v_cells kv)[st := cells]\<rparr>, rm)
       }) [0..<length strm] (kv, rm) = Some (kv\<lparr>kv_v_cells := cs\<rparr>, rm') \<and> length cs = length (kv_v_cells kv) \<and>
    (\<forall>s < length strm. Q s (cs ! (strm ! s))) \<and> (\<forall>st. st \<notin> set strm \<longrightarrow> cs ! st = kv_v_cells kv ! st) \<and> I (length strm) rm'"
proof -
  let ?f = "\<lambda>s (kv, rm). do {
         let st = strm ! s;
         (cells, rm) \<leftarrow> row s (kv_v_cells kv ! st, rm);
         Some (kv\<lparr>kv_v_cells := (kv_v_cells kv)[st := cells]\<rparr>, rm)
       }"
  let ?J = "\<lambda>m st. \<exists>cs. fst st = kv\<lparr>kv_v_cells := cs\<rparr> \<and> length cs = length (kv_v_cells kv) \<and> I m (snd st) \<and>
    (\<forall>s < length strm. if s < m then Q s (cs ! (strm ! s)) else cs ! (strm ! s) = kv_v_cells kv ! (strm ! s)) \<and>
    (\<forall>st. st \<notin> set strm \<longrightarrow> cs ! st = kv_v_cells kv ! st)"
  have "\<exists>st. for_loop ?f [0..<length strm] (kv, rm) = Some st \<and> ?J (length strm) st"
  proof (rule for_upt_rule[where I = ?J])
    show "?J 0 (kv, rm)" using init by (intro exI[of _ "kv_v_cells kv"]) simp
    fix s st assume s: "s < length strm" and J: "?J s st"
    obtain k r where st: "st = (k, r)" by (cases st)
    from J st obtain cs where cs: "k = kv\<lparr>kv_v_cells := cs\<rparr>" "length cs = length (kv_v_cells kv)" "I s r"
      "\<forall>s' < length strm. if s' < s then Q s' (cs ! (strm ! s')) else cs ! (strm ! s') = kv_v_cells kv ! (strm ! s')"
      "\<forall>st. st \<notin> set strm \<longrightarrow> cs ! st = kv_v_cells kv ! st" by auto
    have c: "cs ! (strm ! s) = kv_v_cells kv ! (strm ! s)" using cs(4) s by auto
    from row[OF s cs(3)] obtain c' r' where r': "row s (kv_v_cells kv ! (strm ! s), r) = Some (c', r')" "Q s c'" "I (Suc s) r'" by blast
    have run: "?f s st = Some (kv\<lparr>kv_v_cells := cs[strm ! s := c']\<rparr>, r')" using r'(1) by (simp add: st cs(1) c Let_def)
    have ne: "s' < length strm \<Longrightarrow> s' \<noteq> s \<Longrightarrow> strm ! s' \<noteq> strm ! s" for s' using strm(1) s by (simp add: nth_eq_iff_index_eq)
    have lt: "strm ! s < length cs" "strm ! s \<in> set strm" using strm(2) s cs(2) by auto
    have "?J (Suc s) (kv\<lparr>kv_v_cells := cs[strm ! s := c']\<rparr>, r')"
    proof (intro exI[of _ "cs[strm ! s := c']"] conjI allI impI)
      fix s' assume s': "s' < length strm"
      show "if s' < Suc s then Q s' (cs[strm ! s := c'] ! (strm ! s')) else cs[strm ! s := c'] ! (strm ! s') = kv_v_cells kv ! (strm ! s')"
        using cs(4) s' ne[OF s'] lt r'(2) by (cases "s' = s") (auto simp: less_Suc_eq)
    next
      fix st' assume "st' \<notin> set strm"
      then show "cs[strm ! s := c'] ! st' = kv_v_cells kv ! st'" using cs(5) lt(2) by (metis nth_list_update_neq)
    qed (use cs(2) r'(3) in simp_all)
    with run show "\<exists>st'. ?f s st = Some st' \<and> ?J (Suc s) st'" by blast
  qed
  then show ?thesis by auto
qed

lemma slot_fits_total:
  assumes "slot_fits sz kv si u n"
  shows "slot_size si = Some n" "u_n_tokens u = slot_n_stream si * n"
  using assms by (auto simp: slot_fits_def slot_size_def slot_n_stream_def)

lemma apply_ubatch_rows:
  assumes ok: "kv_ok sz kv" and fit: "slot_fits sz kv si u n"
  shows "\<exists>cs. apply_ubatch si u kv = Some (kv\<lparr>kv_v_cells := cs, kv_v_heads := heads_moved si (kv_v_heads kv)\<rparr>) \<and>
    rows_placed kv si u n (length (si_strm si)) (kv\<lparr>kv_v_cells := cs\<rparr>)"
proof -
  let ?rm = "replicate LLAMA_MAX_SEQ (-1 :: int)"
  let ?Q = "\<lambda>s c. wf_cells c \<and> c_has_shift c = c_has_shift (kv_v_cells kv ! (si_strm si ! s)) \<and>
    view c = place_row u (s * n) (si_idxs si ! s) (view (kv_v_cells kv ! (si_strm si ! s)))"
  have row: "\<exists>c' rm'. for_loop (\<lambda>ii. place_token u (s * n + ii) (si_idxs si ! s ! ii)) [0..<n] (kv_v_cells kv ! (si_strm si ! s), rm) = Some (c', rm') \<and>
      ?Q s c' \<and> rm' = ?rm" if s: "s < length (si_strm si)" and rm: "rm = ?rm" for s rm
  proof -
    have st: "si_strm si ! s < kv_n_stream kv" "length (si_idxs si ! s) = n" "distinct (si_idxs si ! s)"
      and tk: "\<And>ii. ii < n \<Longrightarrow> token_ok u (s * n + ii)"
      and em: "\<And>k. k \<in> set (si_idxs si ! s) \<Longrightarrow> k < sz \<and> c_pos (kv_v_cells kv ! (si_strm si ! s)) ! k = -1"
      using fit s by (auto simp: slot_fits_def)
    have so: "wf_cells (kv_v_cells kv ! (si_strm si ! s))" "length (c_pos (kv_v_cells kv ! (si_strm si ! s))) = sz"
      using kv_okD(1)[OF ok st(1)] by (auto simp: stream_ok_def cells_size_def)
    from place_row_loop[OF so(1) st(3), of u "s * n" ?rm] em so(2) tk st(2) show ?thesis by (auto simp: rm)
  qed
  have "distinct (si_strm si)" "\<forall>st \<in> set (si_strm si). st < length (kv_v_cells kv)"
    using fit kv_okD(4)[OF ok] by (auto simp: slot_fits_def in_set_conv_nth)
  from stream_rows[where I = "\<lambda>_ rm. rm = ?rm" and Q = ?Q and row = "\<lambda>s. for_loop (\<lambda>ii. place_token u (s * n + ii) (si_idxs si ! s ! ii)) [0..<n]",
      OF this refl row] obtain cs where
    cs: "for_loop (\<lambda>s (kv, rm). do {
         let st = si_strm si ! s;
         (cells, rm) \<leftarrow> for_loop (\<lambda>ii. place_token u (s * n + ii) (si_idxs si ! s ! ii)) [0..<n] (kv_v_cells kv ! st, rm);
         Some (kv\<lparr>kv_v_cells := (kv_v_cells kv)[st := cells]\<rparr>, rm)
       }) [0..<length (si_strm si)] (kv, ?rm) = Some (kv\<lparr>kv_v_cells := cs\<rparr>, ?rm)" "length cs = length (kv_v_cells kv)"
      "\<forall>s < length (si_strm si). ?Q s (cs ! (si_strm si ! s))" "\<forall>st. st \<notin> set (si_strm si) \<longrightarrow> cs ! st = kv_v_cells kv ! st" by blast
  have purge: "for_loop (purge_step ?rm) [0..<LLAMA_MAX_SEQ] (kv\<lparr>kv_v_cells := cs\<rparr>) = Some (kv\<lparr>kv_v_cells := cs\<rparr>)"
    by (rule for_loop_skip) (simp add: purge_step_def)
  have "apply_ubatch si u kv = Some (kv\<lparr>kv_v_cells := cs, kv_v_heads := heads_moved si (kv_v_heads kv)\<rparr>)"
    using cs(1) slot_fits_total[OF fit] purge by (simp add: apply_ubatch_def slot_n_stream_def fold_heads heads_moved_def Let_def)
  moreover have "rows_placed kv si u n (length (si_strm si)) (kv\<lparr>kv_v_cells := cs\<rparr>)"
    unfolding rows_placed_def using cs(2-4) by (intro exI[of _ cs]) (auto simp: Let_def)
  ultimately show ?thesis by blast
qed

definition ubatch_positions :: "llama_ubatch \<Rightarrow> llama_seq_id \<Rightarrow> llama_pos set" where
  "ubatch_positions u t = {u_pos u ! i |i. i < u_n_tokens u \<and> t \<in> set (token_ids u i)}"

lemma heads_moved_le:
  assumes "\<And>h. h \<in> set hs \<Longrightarrow> h \<le> sz" "\<And>s. s < length (si_strm si) \<Longrightarrow> last (si_idxs si ! s) < sz"
  shows "length (heads_moved si hs) = length hs" "h \<in> set (heads_moved si hs) \<Longrightarrow> h \<le> sz"
proof -
  have "m \<le> length (si_strm si) \<Longrightarrow> length (fold (\<lambda>s hs. hs[si_strm si ! s := last (si_idxs si ! s) + 1]) [0..<m] hs) = length hs \<and>
    (\<forall>h \<in> set (fold (\<lambda>s hs. hs[si_strm si ! s := last (si_idxs si ! s) + 1]) [0..<m] hs). h \<le> sz)" for m
  proof (induction m)
    case (Suc m)
    then show ?case using assms(2)[of m] by (auto simp: Suc_le_eq dest!: subsetD[OF set_update_subset_insert])
  qed (use assms(1) in auto)
  from this[of "length (si_strm si)"] show "length (heads_moved si hs) = length hs" "h \<in> set (heads_moved si hs) \<Longrightarrow> h \<le> sz"
    by (auto simp: heads_moved_def)
qed

text \<open>Facts about one placed row, for the cells of its stream.\<close>

lemma placed_row:
  assumes ok: "kv_ok sz kv" and fit: "slot_fits sz kv si u n" and s: "s < length (si_strm si)"
  defines "V \<equiv> view (kv_v_cells kv ! (si_strm si ! s))"
  shows "v \<in> set (place_row u (s * n) (si_idxs si ! s) V) \<Longrightarrow> placed kv (si_strm si ! s) v"
    "length (place_row u (s * n) (si_idxs si ! s) V) = sz"
    "seq_positions (place_row u (s * n) (si_idxs si ! s) V) t = seq_positions V t \<union> row_positions u (s * n) n t"
    "j < sz \<Longrightarrow> v_pos (place_row u (s * n) (si_idxs si ! s) V ! j) = -1 \<longleftrightarrow> v_pos (V ! j) = -1 \<and> j \<notin> set (si_idxs si ! s)"
    "j < sz \<Longrightarrow> j \<notin> set (si_idxs si ! s) \<Longrightarrow> place_row u (s * n) (si_idxs si ! s) V ! j = V ! j"
    "j \<in> set (si_idxs si ! s) \<Longrightarrow> v_shift (place_row u (s * n) (si_idxs si ! s) V ! j) = v_shift (V ! j)"
proof -
  let ?st = "si_strm si ! s" and ?ix = "si_idxs si ! s"
  let ?W = "place_row u (s * n) ?ix V"
  have st: "?st < kv_n_stream kv" "length ?ix = n" "distinct ?ix"
    and tk: "\<And>ii. ii < n \<Longrightarrow> token_ok u (s * n + ii) \<and> token_ids u (s * n + ii) \<noteq> [] \<and>
        (\<forall>t \<in> set (token_ids u (s * n + ii)). kv_seq_ok kv t \<and> kv_stream kv t = ?st)"
    and em: "\<And>k. k \<in> set ?ix \<Longrightarrow> k < sz \<and> c_pos (kv_v_cells kv ! ?st) ! k = -1"
    using fit s by (auto simp: slot_fits_def)
  have so: "wf_cells (kv_v_cells kv ! ?st)" "length V = sz" "\<And>v. v \<in> set V \<Longrightarrow> placed kv ?st v"
    using kv_okD(1)[OF ok st(1)] by (auto simp: stream_ok_def cells_size_def V_def)
  have emV: "k < length V \<and> v_pos (V ! k) = -1 \<and> v_seq (V ! k) = {}" if "k \<in> set ?ix" for k
    using em[OF that] so(1,2) wf_cell_ok[OF so(1), of k] by (auto simp: V_def cell_ok_def)
  note W = place_row_nth[where u = u and off = "s * n" and V = V, OF st(3)]
  show len: "length ?W = sz" using W(1) emV so(2) by simp
  have nth: "j < sz \<Longrightarrow> (\<exists>ii < n. j = ?ix ! ii \<and> ?W ! j = token_cell u (s * n + ii) (V ! j)) \<or> (j \<notin> set ?ix \<and> ?W ! j = V ! j)" for j
  proof (cases "j \<in> set ?ix")
    case True
    then obtain ii where "ii < n" "j = ?ix ! ii" using st(2) by (auto simp: in_set_conv_nth)
    then show ?thesis using W(2)[of ii] emV st(2) by auto
  qed (use W(3) emV so(2) in auto)
  show "placed kv ?st v" if "v \<in> set ?W"
  proof -
    from that obtain j where j: "j < sz" "v = ?W ! j" by (auto simp: in_set_conv_nth len)
    from nth[OF j(1)] show ?thesis
    proof
      assume "\<exists>ii < n. j = ?ix ! ii \<and> ?W ! j = token_cell u (s * n + ii) (V ! j)"
      then show ?thesis using tk j(2) by (auto simp: placed_def token_cell_def)
    qed (use so j in auto)
  qed
  show "seq_positions ?W t = seq_positions V t \<union> row_positions u (s * n) n t"
    using place_row_positions[OF st(3), of V u "s * n" t] emV st(2) by auto
  have pos: "u_pos u ! (s * n + ii) \<noteq> -1" if "ii < n" for ii using tk[OF that] by (auto simp: token_ok_def)
  show "v_pos (?W ! j) = -1 \<longleftrightarrow> v_pos (V ! j) = -1 \<and> j \<notin> set ?ix" if "j < sz"
    using nth[OF that] pos st(2) by (auto simp: token_cell_def)
  show "j < sz \<Longrightarrow> j \<notin> set ?ix \<Longrightarrow> ?W ! j = V ! j" using W(3) emV so(2) by auto
  show "v_shift (?W ! j) = v_shift (V ! j)" if "j \<in> set ?ix" using nth[of j] em[OF that] by (auto simp: token_cell_def)
qed

lemma kv_cells_update_inject: "kv\<lparr>kv_v_cells := a\<rparr> = kv\<lparr>kv_v_cells := b\<rparr> \<longleftrightarrow> a = b"
  by (auto dest: arg_cong[of _ _ kv_v_cells])

lemma rows_placedD:
  assumes "rows_placed kv si u n (length (si_strm si)) (kv\<lparr>kv_v_cells := cs\<rparr>)"
  shows "length cs = length (kv_v_cells kv)"
    "s < length (si_strm si) \<Longrightarrow> wf_cells (cs ! (si_strm si ! s)) \<and>
       view (cs ! (si_strm si ! s)) = place_row u (s * n) (si_idxs si ! s) (view (kv_v_cells kv ! (si_strm si ! s)))"
    "st \<notin> set (si_strm si) \<Longrightarrow> cs ! st = kv_v_cells kv ! st"
  using assms by (auto simp: rows_placed_def Let_def kv_cells_update_inject)

lemma rows_placed_ok:
  assumes ok: "kv_ok sz kv" and fit: "slot_fits sz kv si u n"
    and rp: "rows_placed kv si u n (length (si_strm si)) (kv\<lparr>kv_v_cells := cs\<rparr>)"
    and hs: "length hs = kv_n_stream kv" "\<forall>h \<in> set hs. h \<le> sz"
  shows "kv_ok sz (kv\<lparr>kv_v_cells := cs, kv_v_heads := hs\<rparr>)"
    "kv_seq_ok kv t \<Longrightarrow> kv_positions (kv\<lparr>kv_v_cells := cs, kv_v_heads := hs\<rparr>) t = kv_positions kv t \<union> ubatch_positions u t"
proof -
  let ?k = "length (si_strm si)" and ?kv = "kv\<lparr>kv_v_cells := cs, kv_v_heads := hs\<rparr>"
  note cs = rows_placedD[OF rp]
  have fr: "placed ?kv = placed kv" "kv_stream ?kv = kv_stream kv" "kv_seq_ok ?kv = kv_seq_ok kv"
    by (simp_all add: placed_def kv_seq_ok_def kv_stream_def fun_eq_iff)
  have so: "stream_ok sz ?kv st" if st: "st < kv_n_stream kv" for st
  proof (cases "st \<in> set (si_strm si)")
    case True
    then obtain s where s: "s < ?k" "si_strm si ! s = st" by (auto simp: in_set_conv_nth)
    have "cells_size (cs ! st) = sz" using cs(2)[OF s(1)] placed_row(2)[OF ok fit s(1)] s(2) by (metis cells_size_def length_view)
    then show ?thesis using cs(2)[OF s(1)] placed_row(1)[OF ok fit s(1)] s(2) hs st
      by (auto simp: stream_ok_def fr)
  next
    case False
    then show ?thesis using cs(3)[OF False] kv_okD(1)[OF ok st] hs st by (auto simp: stream_ok_def fr)
  qed
  show "kv_ok sz ?kv" using ok so cs(1) hs(1) by (simp add: kv_ok_def)
  have rowt: "\<exists>s ii. s < ?k \<and> ii < n \<and> i = s * n + ii" if "i < u_n_tokens u" for i
  proof -
    have "i < ?k * n" "0 < n" using that fit by (auto simp: slot_fits_def)
    then show ?thesis by (intro exI[of _ "i div n"] exI[of _ "i mod n"]) (simp add: less_mult_imp_div_less)
  qed
  have rows: "ii < n \<Longrightarrow> s < ?k \<Longrightarrow> s * n + ii < u_n_tokens u" for s ii
  proof -
    assume a: "ii < n" "s < ?k"
    have "s * n + ii < Suc s * n" using a by simp
    also have "\<dots> \<le> ?k * n" using a by (intro mult_right_mono) auto
    finally show ?thesis using fit by (simp add: slot_fits_def)
  qed
  have strm: "t \<in> set (token_ids u (s * n + ii)) \<Longrightarrow> s < ?k \<Longrightarrow> ii < n \<Longrightarrow> kv_stream kv t = si_strm si ! s" for t s ii
    using fit by (auto simp: slot_fits_def)
  show "kv_positions ?kv t = kv_positions kv t \<union> ubatch_positions u t" if t: "kv_seq_ok kv t"
  proof (cases "kv_stream kv t \<in> set (si_strm si)")
    case True
    then obtain s where s: "s < ?k" "si_strm si ! s = kv_stream kv t" by (auto simp: in_set_conv_nth)
    have "row_positions u (s * n) n t = ubatch_positions u t"
    proof -
      have "s' = s" if "s' < ?k" "ii < n" "t \<in> set (token_ids u (s' * n + ii))" for s' ii
        using strm[OF that(3,1,2)] s that(1) fit by (auto simp: slot_fits_def nth_eq_iff_index_eq)
      then show ?thesis using rowt rows s(1) unfolding row_positions_def ubatch_positions_def by blast
    qed
    then show ?thesis using cs(2)[OF s(1)] placed_row(3)[OF ok fit s(1), of t] s(2) by (simp add: kv_positions_def fr)
  next
    case False
    have "ubatch_positions u t = {}"
      using False rowt strm by (fastforce simp: ubatch_positions_def)
    then show ?thesis using cs(3)[OF False] by (simp add: kv_positions_def fr)
  qed
qed

lemma slot_heads_ok:
  assumes "kv_ok sz kv" "\<And>s. s < length (si_strm si) \<Longrightarrow> si_idxs si ! s \<noteq> [] \<and> (\<forall>k \<in> set (si_idxs si ! s). k < sz)"
  shows "length (heads_moved si (kv_v_heads kv)) = kv_n_stream kv" "\<forall>h \<in> set (heads_moved si (kv_v_heads kv)). h \<le> sz"
proof -
  have hd: "h \<le> sz" if "h \<in> set (kv_v_heads kv)" for h
    using that assms(1) by (auto simp: kv_ok_def stream_ok_def in_set_conv_nth)
  have "last (si_idxs si ! s) < sz" if "s < length (si_strm si)" for s using assms(2)[OF that] by auto
  from heads_moved_le[of "kv_v_heads kv" sz si, OF hd this] kv_okD(5)[OF assms(1)]
  show "length (heads_moved si (kv_v_heads kv)) = kv_n_stream kv" "\<forall>h \<in> set (heads_moved si (kv_v_heads kv)). h \<le> sz" by auto
qed

lemma apply_ubatch_ok:
  assumes ok: "kv_ok sz kv" and fit: "slot_fits sz kv si u n"
  shows "\<exists>cs hs. apply_ubatch si u kv = Some (kv\<lparr>kv_v_cells := cs, kv_v_heads := hs\<rparr>) \<and> kv_ok sz (kv\<lparr>kv_v_cells := cs, kv_v_heads := hs\<rparr>) \<and>
    rows_placed kv si u n (length (si_strm si)) (kv\<lparr>kv_v_cells := cs\<rparr>) \<and>
    (\<forall>t. kv_seq_ok kv t \<longrightarrow> kv_positions (kv\<lparr>kv_v_cells := cs, kv_v_heads := hs\<rparr>) t = kv_positions kv t \<union> ubatch_positions u t)"
proof -
  from apply_ubatch_rows[OF ok fit] obtain cs where
    run: "apply_ubatch si u kv = Some (kv\<lparr>kv_v_cells := cs, kv_v_heads := heads_moved si (kv_v_heads kv)\<rparr>)"
    and rp: "rows_placed kv si u n (length (si_strm si)) (kv\<lparr>kv_v_cells := cs\<rparr>)" by blast
  have "si_idxs si ! s \<noteq> [] \<and> (\<forall>k \<in> set (si_idxs si ! s). k < sz)" if "s < length (si_strm si)" for s
    using fit that by (auto simp: slot_fits_def)
  note hs = slot_heads_ok[OF ok this]
  show ?thesis using run rp rows_placed_ok[OF ok fit rp hs] by blast
qed

section \<open>Evaluation\<close>

text \<open>
  The purge visits the sequences that lost a cell.  Walking the array instead of counting to
  \<^verbatim>\<open>LLAMA_MAX_SEQ\<close> gives the equation that concrete runs are evaluated with.
\<close>

fun purge_list :: "llama_pos list \<Rightarrow> nat \<Rightarrow> llama_pos list \<Rightarrow> llama_kv_cache \<Rightarrow> llama_kv_cache option" where
  "purge_list rm s [] kv = Some kv"
| "purge_list rm s (r # rs) kv = (if r = -1 then purge_list rm (Suc s) rs kv else Option.bind (purge_step rm s kv) (purge_list rm (Suc s) rs))"

lemma purge_list_eq: "drop s rm = rs \<Longrightarrow> for_loop (purge_step rm) [s..<length rm] kv = purge_list rm s rs kv"
proof (induction rs arbitrary: s kv)
  case (Cons r rs)
  then have s: "s < length rm" by (cases "s < length rm") auto
  with Cons.prems have r: "rm ! s = r" "drop (Suc s) rm = rs" by (auto simp: Cons_nth_drop_Suc[symmetric])
  have skip: "r = -1 \<Longrightarrow> purge_step rm s kv = Some kv" using r(1) by (simp add: purge_step_def)
  show ?case using Cons.IH[OF r(2)] s skip by (cases "purge_step rm s kv") (auto simp: upt_conv_Cons)
qed simp

lemma place_token_rm: "place_token u i idx (c, rm) = Some (c', rm') \<Longrightarrow> length rm' = length rm"
  by (auto simp: place_token_def bind_eq_Some_conv split: if_splits)

lemma apply_ubatch_code [code]:
  "apply_ubatch sinfo ubatch kv = do {
     size \<leftarrow> slot_size sinfo;
     require (u_n_tokens ubatch = slot_n_stream sinfo * size);
     (kv, rm) \<leftarrow> for_loop (\<lambda>s (kv, rm). do {
         let st = si_strm sinfo ! s;
         (cells, rm) \<leftarrow> for_loop (\<lambda>ii. place_token ubatch (s * size + ii) (si_idxs sinfo ! s ! ii)) [0..<size]
           (kv_v_cells kv ! st, rm);
         Some (kv\<lparr>kv_v_cells := (kv_v_cells kv)[st := cells]\<rparr>, rm)
       }) [0..<slot_n_stream sinfo] (kv, replicate LLAMA_MAX_SEQ (-1));
     kv \<leftarrow> purge_list rm 0 rm kv;
     Some (fold (\<lambda>s kv. kv\<lparr>kv_v_heads := (kv_v_heads kv)[si_strm sinfo ! s := last (si_idxs sinfo ! s) + 1]\<rparr>)
       [0..<slot_n_stream sinfo] kv)
   }"
proof -
  have row: "length (snd x') = length (snd x)"
    if "for_loop (\<lambda>ii. place_token ubatch (off + ii) (idxs ! ii)) [0..<m] x = Some x'" for off idxs m x x'
    by (rule for_loop_inv[OF that, where I = "\<lambda>y. length (snd y) = length (snd x)"]) (auto dest: place_token_rm)
  have rows: "length (snd x') = LLAMA_MAX_SEQ"
    if "for_loop (\<lambda>s (kv, rm). do {
         let st = si_strm sinfo ! s;
         (cells, rm) \<leftarrow> for_loop (\<lambda>ii. place_token ubatch (s * m + ii) (si_idxs sinfo ! s ! ii)) [0..<m] (kv_v_cells kv ! st, rm);
         Some (kv\<lparr>kv_v_cells := (kv_v_cells kv)[st := cells]\<rparr>, rm)
       }) ss (kv, replicate LLAMA_MAX_SEQ (-1)) = Some x'" for m ss x'
    by (rule for_loop_inv[OF that, where I = "\<lambda>y. length (snd y) = LLAMA_MAX_SEQ"]) (auto simp: Let_def bind_eq_Some_conv dest!: row)
  have purge: "for_loop (purge_step rm) [0..<LLAMA_MAX_SEQ] k = purge_list rm 0 rm k" if "length rm = LLAMA_MAX_SEQ" for rm k
    using purge_list_eq[of 0 rm rm k] that by simp
  show ?thesis
    unfolding apply_ubatch_def by (intro Option.bind_cong refl) (auto dest!: rows simp: purge split: prod.split)
qed

end
