(* ===== verification/Kv_Prepare.thy ===== *)
theory Kv_Prepare
  imports Kv_Apply Batch_Split
begin

text \<open>
  Correctness of placing a batch in a cache without sliding window: \<^verbatim>\<open>find_slot\<close> followed by
  \<^verbatim>\<open>apply_ubatch\<close>, and \<^verbatim>\<open>prepare\<close>, the dry run that places all ubatches to learn their slots and then
  restores the cells.
\<close>

section \<open>find\_slot and apply\_ubatch\<close>

definition ubatch_placeable :: "llama_kv_cache \<Rightarrow> llama_ubatch \<Rightarrow> bool" where
  "ubatch_placeable kv u \<longleftrightarrow> ubatch_fits kv u \<and> distinct (map (ubatch_stream kv u) [0..<ubatch_n_seqs kv u]) \<and>
     (\<forall>s < ubatch_n_seqs kv u. \<forall>ii < ubatch_n_tokens kv u. let i = s * ubatch_n_tokens kv u + ii in
        token_ok u i \<and> token_ids u i \<noteq> [] \<and> (\<forall>t \<in> set (token_ids u i). kv_seq_ok kv t \<and> kv_stream kv t = ubatch_stream kv u s))"

definition n_empty :: "llama_kv_cache \<Rightarrow> nat \<Rightarrow> nat" where
  "n_empty kv st = card {i. i < length (view (kv_v_cells kv ! st)) \<and> v_pos (view (kv_v_cells kv ! st) ! i) = -1}"

definition has_room :: "llama_kv_cache \<Rightarrow> llama_ubatch \<Rightarrow> bool" where
  "has_room kv u \<longleftrightarrow> (\<forall>s < ubatch_n_seqs kv u. ubatch_n_tokens kv u \<le> n_empty kv (ubatch_stream kv u s))"

text \<open>The caches that differ only in their cells and heads accept the same ubatches.\<close>

definition same_shape :: "llama_kv_cache \<Rightarrow> llama_kv_cache \<Rightarrow> bool" where
  "same_shape kv kv' \<longleftrightarrow> (\<exists>cs hs. kv' = kv\<lparr>kv_v_cells := cs, kv_v_heads := hs\<rparr>)"

lemma same_shapeI [intro]: "same_shape kv (kv\<lparr>kv_v_cells := cs, kv_v_heads := hs\<rparr>)"
  by (auto simp: same_shape_def)

lemma same_shape_refl [simp]: "same_shape kv kv"
  unfolding same_shape_def by (rule exI[of _ "kv_v_cells kv"], rule exI[of _ "kv_v_heads kv"]) simp

lemma same_shape_trans: "same_shape a b \<Longrightarrow> same_shape b c \<Longrightarrow> same_shape a c"
  by (auto simp: same_shape_def) blast

lemma same_shape_eqI: "same_shape kv kv' \<Longrightarrow> kv_v_cells kv' = kv_v_cells kv \<Longrightarrow> kv_v_heads kv' = kv_v_heads kv \<Longrightarrow> kv' = kv"
  by (auto simp: same_shape_def)

lemma same_shape_frame:
  assumes "same_shape kv kv'"
  shows "ubatch_placeable kv' = ubatch_placeable kv" "kv_swa_type kv' = kv_swa_type kv" "kv_n_stream kv' = kv_n_stream kv"
    "kv_seq_ok kv' = kv_seq_ok kv" "kv_stream kv' = kv_stream kv" "ubatch_n_seqs kv' = ubatch_n_seqs kv"
    "ubatch_n_tokens kv' = ubatch_n_tokens kv" "ubatch_stream kv' = ubatch_stream kv" "kv_data kv' = kv_data kv"
proof -
  obtain cs hs where kv': "kv' = kv\<lparr>kv_v_cells := cs, kv_v_heads := hs\<rparr>" using assms by (auto simp: same_shape_def)
  show f: "kv_n_stream kv' = kv_n_stream kv" "kv_seq_ok kv' = kv_seq_ok kv" "kv_stream kv' = kv_stream kv"
    "kv_swa_type kv' = kv_swa_type kv" "kv_data kv' = kv_data kv"
    by (simp_all add: kv' kv_seq_ok_def kv_stream_def fun_eq_iff)
  then show g: "ubatch_n_seqs kv' = ubatch_n_seqs kv" "ubatch_n_tokens kv' = ubatch_n_tokens kv" "ubatch_stream kv' = ubatch_stream kv"
    by (simp_all add: ubatch_n_seqs_def ubatch_n_tokens_def ubatch_stream_def fun_eq_iff)
  show "ubatch_placeable kv' = ubatch_placeable kv"
    by (simp add: ubatch_placeable_def ubatch_fits_def f g fun_eq_iff)
qed

lemma n_usable_no_swa:
  assumes "stream_ok sz kv st" "kv_swa_type kv = LLAMA_SWA_TYPE_NONE"
  shows "n_usable kv st = n_empty kv st"
proof -
  have "{i. i < cells_size (kv_v_cells kv ! st) \<and> usable kv (kv_v_cells kv ! st) i} =
      {i. i < length (view (kv_v_cells kv ! st)) \<and> v_pos (view (kv_v_cells kv ! st) ! i) = -1}"
    using usable_no_swa[OF _ _ assms(2), of "kv_v_cells kv ! st"] assms(1) by (auto simp: stream_ok_def cells_size_def)
  then show ?thesis by (simp add: n_usable_def n_empty_def)
qed

lemma find_slot_fits:
  assumes ok: "kv_ok sz kv" and swa: "kv_swa_type kv = LLAMA_SWA_TYPE_NONE" and u: "ubatch_placeable kv u"
  shows "\<exists>si. find_slot u False kv = Some si \<and> (if has_room kv u then \<not> slot_is_empty si \<and> slot_fits sz kv si u (ubatch_n_tokens kv u) \<and>
      si_strm si = map (ubatch_stream kv u) [0..<ubatch_n_seqs kv u] else slot_is_empty si)"
proof -
  let ?n = "ubatch_n_tokens kv u" and ?k = "ubatch_n_seqs kv u"
  have fits: "ubatch_fits kv u" using u by (simp add: ubatch_placeable_def)
  have st: "ubatch_stream kv u s < kv_n_stream kv" "stream_ok sz kv (ubatch_stream kv u s)" if "s < ?k" for s
    using that fits kv_okD(1,2)[OF ok] by (auto simp: ubatch_fits_def ubatch_stream_def)
  have room: "has_room kv u \<longleftrightarrow> (\<forall>s < ?k. ?n \<le> n_usable kv (ubatch_stream kv u s))"
    unfolding has_room_def using n_usable_no_swa[OF st(2) swa] by auto
  have cfg: "swa_config_ok kv" by (simp add: swa_config_ok_def swa)
  from find_slot_eq[OF ok cfg fits] obtain si where si: "find_slot u False kv = Some si"
    "if has_room kv u then si_strm si = map (ubatch_stream kv u) [0..<?k] \<and> si_idxs si = map (\<lambda>s. slot_choice kv (ubatch_stream kv u s) ?n) [0..<?k]
     else slot_is_empty si" unfolding room by blast
  show ?thesis
  proof (cases "has_room kv u")
    case True
    have sl: "si_strm si = map (ubatch_stream kv u) [0..<?k]" "si_idxs si = map (\<lambda>s. slot_choice kv (ubatch_stream kv u s) ?n) [0..<?k]"
      using si(2) True by auto
    have ix: "length (slot_choice kv (ubatch_stream kv u s) ?n) = ?n" "distinct (slot_choice kv (ubatch_stream kv u s) ?n)"
      "\<And>i. i \<in> set (slot_choice kv (ubatch_stream kv u s) ?n) \<Longrightarrow> i < sz \<and> c_pos (kv_v_cells kv ! ubatch_stream kv u s) ! i = -1"
      if s: "s < ?k" for s
    proof -
      note p = slot_choice_props[OF st(2)[OF s], of ?n]
      have n: "?n \<le> n_usable kv (ubatch_stream kv u s)" using True s by (simp add: room)
      show "length (slot_choice kv (ubatch_stream kv u s) ?n) = ?n" "distinct (slot_choice kv (ubatch_stream kv u s) ?n)" by (fact p(1)[OF n], fact p(2)[OF n])
      show "i < sz \<and> c_pos (kv_v_cells kv ! ubatch_stream kv u s) ! i = -1" if "i \<in> set (slot_choice kv (ubatch_stream kv u s) ?n)" for i
        using p(3)[OF n that] usable_no_swa[OF _ _ swa, of "kv_v_cells kv ! ubatch_stream kv u s" i] st(2)[OF s] by (auto simp: stream_ok_def cells_size_def)
    qed
    have tot: "u_n_tokens u = ?k * ?n" using fits by (auto simp: ubatch_fits_def ubatch_n_tokens_def)
    have pos: "?k \<ge> 1" "0 < ?n" using fits by (auto simp: ubatch_fits_def)
    have "slot_fits sz kv si u ?n"
      unfolding slot_fits_def using u st(1) ix tot pos by (auto simp: sl ubatch_placeable_def Let_def)
    moreover have "\<not> slot_is_empty si" using pos by (simp add: slot_is_empty_def sl)
    ultimately show ?thesis using si(1) True sl(1) by simp
  qed (use si in auto)
qed

text \<open>
  Where the tokens of a ubatch go: row \<open>s\<close> of the slot lies in the stream of the \<open>s\<close>-th sequence of the
  ubatch and has one cell of its own for each of the \<open>n\<close> tokens of that sequence, empty before.  Its
  \<open>ii\<close>-th cell becomes the cell of token \<open>s * n + ii\<close> of the ubatch (position, two-dimensional position
  where the ubatch has one, and sequences, without pending shift).  All other cells of the stream and all other streams stay
  as they were.
\<close>

definition tokens_placed :: "nat \<Rightarrow> llama_kv_cache \<Rightarrow> llama_ubatch \<Rightarrow> slot_info \<Rightarrow> llama_kv_cache \<Rightarrow> bool" where
  "tokens_placed sz kv u si kv' \<longleftrightarrow> (let n = ubatch_n_tokens kv u in
     si_strm si = map (ubatch_stream kv u) [0..<ubatch_n_seqs kv u] \<and> length (si_idxs si) = ubatch_n_seqs kv u \<and>
     (\<forall>s < ubatch_n_seqs kv u.
        let ix = si_idxs si ! s; V = view (kv_v_cells kv ! ubatch_stream kv u s); V' = view (kv_v_cells kv' ! ubatch_stream kv u s) in
        length ix = n \<and> distinct ix \<and> length V' = sz \<and>
        (\<forall>ii < n. ix ! ii < sz \<and> v_pos (V ! (ix ! ii)) = -1 \<and> v_shift (V ! (ix ! ii)) = 0 \<and>
           V' ! (ix ! ii) = token_cell u (s * n + ii) (V ! (ix ! ii))) \<and>
        (\<forall>j < sz. j \<notin> set ix \<longrightarrow> V' ! j = V ! j)) \<and>
     (\<forall>st. st \<notin> set (si_strm si) \<longrightarrow> kv_v_cells kv' ! st = kv_v_cells kv ! st))"

lemma rows_placed_tokens:
  assumes ok: "kv_ok sz kv" and fit: "slot_fits sz kv si u (ubatch_n_tokens kv u)"
    and sm: "si_strm si = map (ubatch_stream kv u) [0..<ubatch_n_seqs kv u]"
    and rp: "rows_placed kv si u (ubatch_n_tokens kv u) (length (si_strm si)) (kv\<lparr>kv_v_cells := cs\<rparr>)"
  shows "tokens_placed sz kv u si (kv\<lparr>kv_v_cells := cs, kv_v_heads := hs\<rparr>)"
proof -
  let ?n = "ubatch_n_tokens kv u"
  have len: "length (si_strm si) = ubatch_n_seqs kv u" by (simp add: sm)
  have row: "length (si_idxs si ! s) = ?n \<and> distinct (si_idxs si ! s) \<and> length (view (cs ! ubatch_stream kv u s)) = sz \<and>
      (\<forall>ii < ?n. si_idxs si ! s ! ii < sz \<and> v_pos (view (kv_v_cells kv ! ubatch_stream kv u s) ! (si_idxs si ! s ! ii)) = -1 \<and>
         v_shift (view (kv_v_cells kv ! ubatch_stream kv u s) ! (si_idxs si ! s ! ii)) = 0 \<and>
         view (cs ! ubatch_stream kv u s) ! (si_idxs si ! s ! ii) =
           token_cell u (s * ?n + ii) (view (kv_v_cells kv ! ubatch_stream kv u s) ! (si_idxs si ! s ! ii))) \<and>
      (\<forall>j < sz. j \<notin> set (si_idxs si ! s) \<longrightarrow> view (cs ! ubatch_stream kv u s) ! j = view (kv_v_cells kv ! ubatch_stream kv u s) ! j)"
    if s: "s < ubatch_n_seqs kv u" for s
  proof -
    let ?ix = "si_idxs si ! s" and ?c = "kv_v_cells kv ! ubatch_stream kv u s"
    have st: "si_strm si ! s = ubatch_stream kv u s" using s by (simp add: sm)
    have ix: "length ?ix = ?n" "distinct ?ix" "\<And>k. k \<in> set ?ix \<Longrightarrow> k < sz \<and> c_pos ?c ! k = -1" "ubatch_stream kv u s < kv_n_stream kv"
      using fit s len by (auto simp: slot_fits_def st[symmetric])
    have sz: "length (c_pos ?c) = sz" "wf_cells ?c" using kv_okD(1)[OF ok ix(4)] by (simp_all add: stream_ok_def cells_size_def)
    have v: "view (cs ! ubatch_stream kv u s) = place_row u (s * ?n) ?ix (view ?c)"
      using rp s len st by (auto simp: rows_placed_def Let_def dest!: arg_cong[of _ _ kv_v_cells])
    note W = place_row_nth[where u = u and off = "s * ?n" and V = "view ?c", OF ix(2)]
    have k: "?ix ! ii < sz \<and> c_pos ?c ! (?ix ! ii) = -1 \<and> c_shift ?c ! (?ix ! ii) = 0" if "ii < ?n" for ii
      using ix(1,3) that wf_cell_ok[OF sz(2), of "?ix ! ii"] sz(1) by (auto simp: cell_ok_def)
    show ?thesis unfolding v using ix sz(1) W k by (auto simp: token_cell_def)
  qed
  have "cs ! st = kv_v_cells kv ! st" if "st \<notin> set (si_strm si)" for st
    using rp that by (auto simp: rows_placed_def dest!: arg_cong[of _ _ kv_v_cells])
  moreover have "length (si_idxs si) = ubatch_n_seqs kv u" using fit len by (simp add: slot_fits_def)
  ultimately show ?thesis unfolding tokens_placed_def Let_def
    using row by (simp add: sm del: length_view nth_view)
qed

text \<open>
  C17.  In a cache without sliding window, a ubatch for which every stream has enough empty cells gets
  a slot, and applying it to the slot succeeds and keeps the invariant.  Each token of the ubatch then
  occupies its own cell of the slot, empty before, with the position, the two-dimensional position
  and the sequences of that token and a pending shift of zero; the cells outside the slot are the
  same as before, in this and in the other streams, and of the rest of the cache only the search heads
  change (not the K and V data).  Hence every sequence gains exactly the positions of its tokens.
  Without enough room \<^verbatim>\<open>find_slot\<close> reports that there is no slot.
\<close>

theorem place_ubatch_correct:
  assumes "kv_ok sz kv" "kv_swa_type kv = LLAMA_SWA_TYPE_NONE" "ubatch_placeable kv u"
  shows "\<exists>si. find_slot u False kv = Some si \<and> (slot_is_empty si \<longleftrightarrow> \<not> has_room kv u) \<and>
    (has_room kv u \<longrightarrow> (\<exists>kv'. apply_ubatch si u kv = Some kv' \<and> kv_ok sz kv' \<and> same_shape kv kv' \<and> kv_data kv' = kv_data kv \<and>
      tokens_placed sz kv u si kv' \<and>
      (\<forall>t. kv_seq_ok kv t \<longrightarrow> kv_positions kv' t = kv_positions kv t \<union> ubatch_positions u t)))"
proof -
  from find_slot_fits[OF assms] obtain si where si: "find_slot u False kv = Some si"
    "if has_room kv u then \<not> slot_is_empty si \<and> slot_fits sz kv si u (ubatch_n_tokens kv u) \<and>
      si_strm si = map (ubatch_stream kv u) [0..<ubatch_n_seqs kv u] else slot_is_empty si" by blast
  show ?thesis
  proof (cases "has_room kv u")
    case True
    with si(2) have fit: "slot_fits sz kv si u (ubatch_n_tokens kv u)" "\<not> slot_is_empty si"
      and sm: "si_strm si = map (ubatch_stream kv u) [0..<ubatch_n_seqs kv u]" by simp_all
    from apply_ubatch_ok[OF assms(1) fit(1)] obtain cs hs where run: "apply_ubatch si u kv = Some (kv\<lparr>kv_v_cells := cs, kv_v_heads := hs\<rparr>)"
      and ok: "kv_ok sz (kv\<lparr>kv_v_cells := cs, kv_v_heads := hs\<rparr>)"
      and rp: "rows_placed kv si u (ubatch_n_tokens kv u) (length (si_strm si)) (kv\<lparr>kv_v_cells := cs\<rparr>)"
      and pos: "\<forall>t. kv_seq_ok kv t \<longrightarrow> kv_positions (kv\<lparr>kv_v_cells := cs, kv_v_heads := hs\<rparr>) t = kv_positions kv t \<union> ubatch_positions u t" by blast
    note tp = rows_placed_tokens[OF assms(1) fit(1) sm rp, of hs]
    show ?thesis using si(1) fit(2) True run ok tp pos by (intro exI[of _ si]) (auto simp: same_shape_def)
  qed (use si in auto)
qed

lemma demo_placeable: "ubatch_placeable demo_kv demo_ubatch"
  using demo_ubatch_fits demo_kv_seqs[of 0]
  by (simp add: ubatch_placeable_def ubatch_n_seqs_def ubatch_n_tokens_def ubatch_stream_def demo_kv_facts demo_ubatch_def
      token_ok_def token_ids_def seq_id_ok_def LLAMA_MAX_SEQ_def)

lemma demo_empty: "n_empty demo_kv 0 = 1"
proof -
  have "{i. i < length (view (kv_v_cells demo_kv ! 0)) \<and> v_pos (view (kv_v_cells demo_kv ! 0) ! i) = -1} = {1}"
    by (auto simp: demo_kv_facts(4) less_Suc_eq simp del: length_view)
  then show ?thesis by (simp add: n_empty_def del: length_view)
qed

lemma demo_room: "has_room demo_kv demo_ubatch"
  using demo_empty demo_kv_seqs[of 0]
  by (simp add: has_room_def ubatch_n_seqs_def ubatch_n_tokens_def ubatch_stream_def demo_kv_facts(5) demo_ubatch_def)

theorem place_ubatch_correct_witness:
  "\<exists>si kv'. find_slot demo_ubatch False demo_kv = Some si \<and> apply_ubatch si demo_ubatch demo_kv = Some kv' \<and> kv_positions kv' 0 = {5, 6, 7}"
proof -
  have "ubatch_positions demo_ubatch 0 = {7}" by (auto simp: ubatch_positions_def token_ids_def demo_ubatch_def)
  with place_ubatch_correct[OF demo_kv_facts(1,6) demo_placeable] demo_room demo_kv_seqs[of 0] demo_kv_positions(1)
  show ?thesis by fastforce
qed

section \<open>Restoring the cells\<close>

lemma collect_loop:
  assumes "\<And>s. s < k \<Longrightarrow> \<exists>c. f s = Some c"
  shows "\<exists>cs. for_loop (\<lambda>s acc. map_option (\<lambda>c. acc @ [c]) (f s)) [0..<k] [] = Some cs \<and> length cs = k \<and> (\<forall>s < k. f s = Some (cs ! s))"
proof -
  let ?I = "\<lambda>m acc. length acc = m \<and> (\<forall>s < m. f s = Some (acc ! s))"
  show ?thesis
  proof (rule for_upt_rule[where I = ?I])
    fix s acc assume "s < k" "?I s acc"
    with assms[of s] show "\<exists>acc'. map_option (\<lambda>c. acc @ [c]) (f s) = Some acc' \<and> ?I (Suc s) acc'"
      by (auto simp: nth_append less_Suc_eq)
  qed simp
qed

lemma slot_snapshots:
  assumes ok: "kv_ok sz kv" and fit: "slot_fits sz kv si u n"
  shows "\<exists>snaps. for_loop (\<lambda>s acc. map_option (\<lambda>c. acc @ [c]) (cells_cp_idxs (si_idxs si ! s) (kv_v_cells kv ! (si_strm si ! s))))
      [0..<slot_n_stream si] [] = Some snaps \<and> length snaps = length (si_strm si) \<and>
    (\<forall>s < length (si_strm si). cells_cp_idxs (si_idxs si ! s) (kv_v_cells kv ! (si_strm si ! s)) = Some (snaps ! s))"
  unfolding slot_n_stream_def
proof (rule collect_loop)
  fix s assume s: "s < length (si_strm si)"
  have st: "si_strm si ! s < kv_n_stream kv" "\<And>k. k \<in> set (si_idxs si ! s) \<Longrightarrow> k < sz \<and> c_pos (kv_v_cells kv ! (si_strm si ! s)) ! k = -1"
    using fit s by (auto simp: slot_fits_def)
  have wf: "wf_cells (kv_v_cells kv ! (si_strm si ! s))" "length (c_pos (kv_v_cells kv ! (si_strm si ! s))) = sz"
    using kv_okD(1)[OF ok st(1)] by (auto simp: stream_ok_def cells_size_def)
  have "k < length (c_pos (kv_v_cells kv ! (si_strm si ! s))) \<and> c_shift (kv_v_cells kv ! (si_strm si ! s)) ! k = 0" if "k \<in> set (si_idxs si ! s)" for k
    using st(2)[OF that] wf_cell_ok[OF wf(1), of k] wf(2) by (auto simp: cell_ok_def)
  from cells_cp_idxs_ok[OF this] show "\<exists>c. cells_cp_idxs (si_idxs si ! s) (kv_v_cells kv ! (si_strm si ! s)) = Some c" by blast
qed

lemma restore_row:
  assumes ok: "kv_ok sz kv" and fit: "slot_fits sz kv si u n" and s: "s < length (si_strm si)"
    and d: "wf_cells d" "view d = place_row u (s * n) (si_idxs si ! s) (view (kv_v_cells kv ! (si_strm si ! s)))"
      "c_has_shift d = c_has_shift (kv_v_cells kv ! (si_strm si ! s))"
    and snap: "cells_cp_idxs (si_idxs si ! s) (kv_v_cells kv ! (si_strm si ! s)) = Some snap"
  shows "cells_set_idxs (si_idxs si ! s) snap d = Some (kv_v_cells kv ! (si_strm si ! s))"
proof -
  let ?c = "kv_v_cells kv ! (si_strm si ! s)" and ?ix = "si_idxs si ! s"
  have st: "si_strm si ! s < kv_n_stream kv" "distinct ?ix" "\<And>k. k \<in> set ?ix \<Longrightarrow> k < sz \<and> c_pos ?c ! k = -1"
    using fit s by (auto simp: slot_fits_def)
  have wf: "wf_cells ?c" "length (c_pos ?c) = sz" using kv_okD(1)[OF ok st(1)] by (auto simp: stream_ok_def cells_size_def)
  note row = placed_row[OF ok fit s]
  have ld: "length (c_pos d) = sz" using arg_cong[OF d(2), of length] row(2) by simp
  have sh: "c_shift ?c ! k = 0 \<and> c_shift d ! k = 0" if k: "k \<in> set ?ix" for k
  proof -
    have c: "c_shift ?c ! k = 0" using st(3)[OF k] wf_cell_ok[OF wf(1), of k] wf(2) by (auto simp: cell_ok_def)
    have "v_shift (view d ! k) = v_shift (view ?c ! k)" unfolding d(2) by (rule row(6)[OF k])
    then show ?thesis using c st(3)[OF k] ld wf(2) by simp
  qed
  have same: "cell_at d k = cell_at ?c k" if "k < length (c_pos ?c)" "k \<notin> set ?ix" for k
    using row(5)[OF _ that(2)] that(1) wf(2) ld arg_cong[OF d(2), of "\<lambda>V. V ! k"] by simp
  from cells_set_idxs_restores[OF wf(1) d(1) _ st(2) _ sh same snap] ld wf(2) st(3) obtain e where
    e: "cells_set_idxs ?ix snap d = Some e" "wf_cells e" "view e = view ?c" "c_has_shift e = c_has_shift d" by auto
  with wf_cells_eqI[OF e(2) wf(1) e(3)] d(3) show ?thesis by simp
qed

definition heads_restored :: "slot_info \<Rightarrow> nat list \<Rightarrow> nat list \<Rightarrow> nat list" where
  "heads_restored si old hs = fold (\<lambda>s hs. hs[si_strm si ! s := old ! s]) [0..<length (si_strm si)] hs"

lemma restore_ok:
  assumes ok: "kv_ok sz kv" and fit: "slot_fits sz kv si u n"
    and rp: "rows_placed kv si u n (length (si_strm si)) (kv\<lparr>kv_v_cells := cs\<rparr>)"
    and snaps: "\<forall>s < length (si_strm si). cells_cp_idxs (si_idxs si ! s) (kv_v_cells kv ! (si_strm si ! s)) = Some (snaps ! s)"
  shows "restore_state \<lparr>ps_sinfo = si, ps_heads_old = old, ps_cells = snaps\<rparr> (kv\<lparr>kv_v_cells := cs, kv_v_heads := hs\<rparr>) =
    Some (kv\<lparr>kv_v_heads := heads_restored si old hs\<rparr>)"
proof -
  let ?k = "length (si_strm si)"
  let ?h = "\<lambda>m. fold (\<lambda>s hs. hs[si_strm si ! s := old ! s]) [0..<m] hs"
  from rp obtain cs' where "kv\<lparr>kv_v_cells := cs\<rparr> = kv\<lparr>kv_v_cells := cs'\<rparr>" and x: "length cs' = length (kv_v_cells kv)"
    "\<And>s. s < ?k \<Longrightarrow> wf_cells (cs' ! (si_strm si ! s)) \<and> c_has_shift (cs' ! (si_strm si ! s)) = c_has_shift (kv_v_cells kv ! (si_strm si ! s)) \<and>
       view (cs' ! (si_strm si ! s)) = place_row u (s * n) (si_idxs si ! s) (view (kv_v_cells kv ! (si_strm si ! s)))"
    "\<And>st. st \<notin> set (si_strm si) \<Longrightarrow> cs' ! st = kv_v_cells kv ! st" by (auto simp: rows_placed_def Let_def)
  then have "cs' = cs" by (simp add: kv_cells_update_inject)
  note x = x[unfolded this]
  let ?f = "\<lambda>s kv. do {
       let st = si_strm si ! s;
       cells \<leftarrow> cells_set_idxs (si_idxs si ! s) (snaps ! s) (kv_v_cells kv ! st);
       Some (kv_put st cells (old ! s) kv)
     }"
  let ?I = "\<lambda>m k. \<exists>ds. k = kv\<lparr>kv_v_cells := ds, kv_v_heads := ?h m\<rparr> \<and> length ds = length cs \<and>
    (\<forall>st. st \<notin> set (si_strm si) \<longrightarrow> ds ! st = kv_v_cells kv ! st) \<and>
    (\<forall>s < ?k. ds ! (si_strm si ! s) = (if s < m then kv_v_cells kv ! (si_strm si ! s) else cs ! (si_strm si ! s)))"
  have "\<exists>k. for_loop ?f [0..<?k] (kv\<lparr>kv_v_cells := cs, kv_v_heads := hs\<rparr>) = Some k \<and> ?I ?k k"
  proof (rule for_upt_rule[where I = ?I])
    show "?I 0 (kv\<lparr>kv_v_cells := cs, kv_v_heads := hs\<rparr>)" by (rule exI[of _ cs]) (simp add: x)
    fix s k assume s: "s < ?k" and "?I s k"
    then obtain ds where ds: "k = kv\<lparr>kv_v_cells := ds, kv_v_heads := ?h s\<rparr>" "length ds = length cs"
      "\<forall>st. st \<notin> set (si_strm si) \<longrightarrow> ds ! st = kv_v_cells kv ! st"
      "\<forall>s' < ?k. ds ! (si_strm si ! s') = (if s' < s then kv_v_cells kv ! (si_strm si ! s') else cs ! (si_strm si ! s'))" by blast
    let ?st = "si_strm si ! s"
    have "cells_set_idxs (si_idxs si ! s) (snaps ! s) (ds ! ?st) = Some (kv_v_cells kv ! ?st)"
      using restore_row[OF ok fit s, of "cs ! ?st" "snaps ! s"] x(2)[OF s] snaps s ds(4) by auto
    then have run: "?f s k = Some (kv\<lparr>kv_v_cells := ds[?st := kv_v_cells kv ! ?st], kv_v_heads := ?h (Suc s)\<rparr>)"
      by (simp add: ds(1) Let_def kv_put_def)
    have ne: "s' < ?k \<Longrightarrow> s' \<noteq> s \<Longrightarrow> si_strm si ! s' \<noteq> ?st" for s' using fit s by (auto simp: slot_fits_def nth_eq_iff_index_eq)
    have lt: "?st < length ds" using fit s ds(2) x(1) kv_okD(4)[OF ok] by (auto simp: slot_fits_def)
    have inl: "?st \<in> set (si_strm si)" using s by simp
    have "?I (Suc s) (kv\<lparr>kv_v_cells := ds[?st := kv_v_cells kv ! ?st], kv_v_heads := ?h (Suc s)\<rparr>)"
    proof (intro exI[of _ "ds[?st := kv_v_cells kv ! ?st]"] conjI allI impI)
      fix s' assume s': "s' < ?k"
      show "ds[?st := kv_v_cells kv ! ?st] ! (si_strm si ! s') = (if s' < Suc s then kv_v_cells kv ! (si_strm si ! s') else cs ! (si_strm si ! s'))"
        using ds(4) s' ne[OF s'] lt by (cases "s' = s") (auto simp: less_Suc_eq)
    next
      fix st assume "st \<notin> set (si_strm si)"
      then show "ds[?st := kv_v_cells kv ! ?st] ! st = kv_v_cells kv ! st" using ds(3) inl by (metis nth_list_update_neq)
    qed (use ds(2) in simp_all)
    with run show "\<exists>k'. ?f s k = Some k' \<and> ?I (Suc s) k'" by blast
  qed
  then obtain ds where ds: "for_loop ?f [0..<?k] (kv\<lparr>kv_v_cells := cs, kv_v_heads := hs\<rparr>) = Some (kv\<lparr>kv_v_cells := ds, kv_v_heads := ?h ?k\<rparr>)"
    "length ds = length cs" "\<forall>st. st \<notin> set (si_strm si) \<longrightarrow> ds ! st = kv_v_cells kv ! st"
    "\<forall>s < ?k. ds ! (si_strm si ! s) = kv_v_cells kv ! (si_strm si ! s)" by auto
  have "ds = kv_v_cells kv"
  proof (rule nth_equalityI)
    fix st show "ds ! st = kv_v_cells kv ! st" using ds(3,4) by (cases "st \<in> set (si_strm si)") (auto simp: in_set_conv_nth)
  qed (use ds(2) x(1) in simp)
  with ds(1) show ?thesis by (simp add: restore_state_def slot_n_stream_def heads_restored_def)
qed

section \<open>prepare\<close>

text \<open>What a call of \<open>prepare_loop\<close> achieves, and that its recovery stack undoes it.\<close>

definition replay :: "slot_info list \<Rightarrow> llama_ubatch list \<Rightarrow> llama_kv_cache \<Rightarrow> llama_kv_cache option" where
  "replay sinfos ubatches = for_loop (\<lambda>(si, u). apply_ubatch si u) (zip sinfos ubatches)"

definition undoes :: "llama_kv_cache \<Rightarrow> llama_kv_cache \<Rightarrow> prep_state list \<Rightarrow> bool" where
  "undoes kv kv1 new \<longleftrightarrow> (\<forall>hs. length hs = kv_n_stream kv \<longrightarrow> (\<exists>hs'. for_loop restore_state (rev new) (kv1\<lparr>kv_v_heads := hs\<rparr>) = Some (kv\<lparr>kv_v_heads := hs'\<rparr>) \<and>
     length hs' = kv_n_stream kv \<and> (kv_n_stream kv = 1 \<and> (new \<noteq> [] \<or> hs = kv_v_heads kv) \<longrightarrow> hs' = kv_v_heads kv)))"

lemma undoes_step:
  assumes un: "undoes kv' kv1 new" and ok: "kv_ok sz kv" and fit: "slot_fits sz kv si u n"
    and kv': "kv' = kv\<lparr>kv_v_cells := cs, kv_v_heads := hs0\<rparr>"
    and rp: "rows_placed kv si u n (length (si_strm si)) (kv\<lparr>kv_v_cells := cs\<rparr>)"
    and snaps: "\<forall>s < length (si_strm si). cells_cp_idxs (si_idxs si ! s) (kv_v_cells kv ! (si_strm si ! s)) = Some (snaps ! s)"
  shows "undoes kv kv1 (\<lparr>ps_sinfo = si, ps_heads_old = kv_v_heads kv, ps_cells = snaps\<rparr> # new)"
  unfolding undoes_def
proof (intro allI impI)
  fix hs :: "nat list" assume "length hs = kv_n_stream kv"
  then obtain hs1 where h1: "for_loop restore_state (rev new) (kv1\<lparr>kv_v_heads := hs\<rparr>) = Some (kv'\<lparr>kv_v_heads := hs1\<rparr>)" "length hs1 = kv_n_stream kv"
    using un unfolding undoes_def kv' by auto
  let ?ps = "\<lparr>ps_sinfo = si, ps_heads_old = kv_v_heads kv, ps_cells = snaps\<rparr>"
  have r: "restore_state ?ps (kv'\<lparr>kv_v_heads := hs1\<rparr>) = Some (kv\<lparr>kv_v_heads := heads_restored si (kv_v_heads kv) hs1\<rparr>)"
    using restore_ok[OF ok fit rp snaps, of "kv_v_heads kv" hs1] by (simp add: kv')
  have "length (fold (\<lambda>s hs. hs[f s := (g s :: nat)]) xs hs) = length hs" for f g and xs :: "nat list" and hs
    by (induction xs arbitrary: hs) auto
  then have l: "length (heads_restored si (kv_v_heads kv) hs1) = kv_n_stream kv" using h1(2) by (simp add: heads_restored_def)
  have "heads_restored si (kv_v_heads kv) hs1 = kv_v_heads kv" if one: "kv_n_stream kv = 1"
  proof -
    have "set (si_strm si) \<subseteq> {0}" using fit one by (auto simp: slot_fits_def in_set_conv_nth)
    moreover have "distinct (si_strm si)" "si_strm si \<noteq> []" using fit by (auto simp: slot_fits_def)
    ultimately have "si_strm si = [0]" by (cases "si_strm si"; cases "tl (si_strm si)") auto
    moreover obtain a b where "hs1 = [a]" "kv_v_heads kv = [b]"
      using h1(2) kv_okD(5)[OF ok] one by (metis length_0_conv length_Suc_conv One_nat_def)
    ultimately show ?thesis by (simp add: heads_restored_def)
  qed
  with h1 r l show "\<exists>hs'. for_loop restore_state (rev (?ps # new)) (kv1\<lparr>kv_v_heads := hs\<rparr>) = Some (kv\<lparr>kv_v_heads := hs'\<rparr>) \<and>
     length hs' = kv_n_stream kv \<and> (kv_n_stream kv = 1 \<and> (?ps # new \<noteq> [] \<or> hs = kv_v_heads kv) \<longrightarrow> hs' = kv_v_heads kv)"
    by (intro exI[of _ "heads_restored si (kv_v_heads kv) hs1"]) (simp add: for_loop_append)
qed

lemma undoes_Nil: "undoes kv kv []"
  unfolding undoes_def by auto

text \<open>In a unified cache a placed ubatch takes as many empty cells as it has tokens.\<close>

lemma unified_room:
  assumes "kv_n_stream kv = 1" "kv_ok sz kv" "ubatch_placeable kv u"
  shows "ubatch_n_seqs kv u = 1" "ubatch_n_tokens kv u = u_n_tokens u" "ubatch_stream kv u 0 = 0" "has_room kv u \<longleftrightarrow> u_n_tokens u \<le> n_empty kv 0"
proof -
  show n: "ubatch_n_seqs kv u = 1" "ubatch_n_tokens kv u = u_n_tokens u" using assms(1) by (simp_all add: ubatch_n_seqs_def ubatch_n_tokens_def)
  have "kv_seq_ok kv (u_seq_id_unq u ! 0)" using assms(3) n by (auto simp: ubatch_placeable_def ubatch_fits_def)
  from kv_okD(2)[OF assms(2) this] assms(1) show st: "ubatch_stream kv u 0 = 0" by (simp add: ubatch_stream_def)
  show "has_room kv u \<longleftrightarrow> u_n_tokens u \<le> n_empty kv 0" using n st by (simp add: has_room_def)
qed

lemma n_empty_after:
  assumes ok: "kv_ok sz kv" and fit: "slot_fits sz kv si u n" and st: "si_strm si = [0]" and cells: "view (cs ! 0) = place_row u (0 * n) (si_idxs si ! 0) (view (kv_v_cells kv ! 0))"
  shows "n_empty (kv\<lparr>kv_v_cells := cs, kv_v_heads := hs\<rparr>) 0 = n_empty kv 0 - n" "n \<le> n_empty kv 0"
proof -
  let ?ix = "si_idxs si ! 0" and ?V = "view (kv_v_cells kv ! 0)"
  have s: "0 < length (si_strm si)" using st by simp
  note row = placed_row[OF ok fit s, simplified st nth_Cons_0]
  have lt: "0 < kv_n_stream kv" and ix: "length ?ix = n" "distinct ?ix" "\<And>k. k \<in> set ?ix \<Longrightarrow> k < sz \<and> c_pos (kv_v_cells kv ! 0) ! k = -1"
    using fit st by (auto simp: slot_fits_def)
  have lV: "length ?V = sz" using kv_okD(1)[OF ok lt] by (simp add: stream_ok_def cells_size_def)
  let ?E = "{i. i < sz \<and> v_pos (?V ! i) = -1}"
  have e1: "n_empty kv 0 = card ?E" by (simp add: n_empty_def lV del: length_view)
  have "{i. i < length (view (cs ! 0)) \<and> v_pos (view (cs ! 0) ! i) = -1} = ?E - set ?ix"
    unfolding cells using row(2) row(4) by auto
  then have e2: "n_empty (kv\<lparr>kv_v_cells := cs, kv_v_heads := hs\<rparr>) 0 = card (?E - set ?ix)" by (simp add: n_empty_def)
  have sub: "set ?ix \<subseteq> ?E" using ix(3) lV by auto
  have c: "card (set ?ix) = n" using ix by (simp add: distinct_card)
  show "n_empty (kv\<lparr>kv_v_cells := cs, kv_v_heads := hs\<rparr>) 0 = n_empty kv 0 - n" using sub c by (simp add: e1 e2 card_Diff_subset)
  show "n \<le> n_empty kv 0" using card_mono[OF _ sub] c by (simp add: e1)
qed

lemma prepare_loop_ok:
  assumes "kv_ok sz kv" "kv_swa_type kv = LLAMA_SWA_TYPE_NONE" "\<forall>u \<in> set us. ubatch_placeable kv u"
  shows "\<exists>kv1 rs new ok. prepare_loop us kv res states = Some (kv1, res @ rs, states @ new, ok) \<and>
    length new = length rs \<and> kv_ok sz kv1 \<and> same_shape kv kv1 \<and> undoes kv kv1 new \<and>
    (ok \<longrightarrow> length rs = length us \<and> replay rs us kv = Some kv1 \<and>
      (\<forall>t. kv_seq_ok kv t \<longrightarrow> kv_positions kv1 t = kv_positions kv t \<union> (\<Union>u \<in> set us. ubatch_positions u t))) \<and>
    (kv_n_stream kv = 1 \<longrightarrow> (ok \<longleftrightarrow> sum_list (map u_n_tokens us) \<le> n_empty kv 0))"
  using assms
proof (induction us arbitrary: kv res states)
  case Nil
  show ?case using Nil.prems(1) undoes_Nil[of kv] by (auto simp: replay_def intro!: exI[of _ "[]"])
next
  case (Cons u us)
  have up: "ubatch_placeable kv u" using Cons.prems(3) by simp
  let ?n = "ubatch_n_tokens kv u"
  from find_slot_fits[OF Cons.prems(1,2) up] obtain si where si: "find_slot u False kv = Some si"
    "if has_room kv u then \<not> slot_is_empty si \<and> slot_fits sz kv si u ?n \<and>
      si_strm si = map (ubatch_stream kv u) [0..<ubatch_n_seqs kv u] else slot_is_empty si" by blast
  show ?case
  proof (cases "has_room kv u")
    case False
    have "kv_n_stream kv = 1 \<Longrightarrow> \<not> sum_list (map u_n_tokens (u # us)) \<le> n_empty kv 0"
      using False unified_room(4)[OF _ Cons.prems(1) up] by auto
    then show ?thesis using si False Cons.prems(1) undoes_Nil[of kv] by (auto intro!: exI[of _ "[]"])
  next
    case True
    then have fit: "slot_fits sz kv si u ?n" and ne: "\<not> slot_is_empty si"
      and strm: "si_strm si = map (ubatch_stream kv u) [0..<ubatch_n_seqs kv u]" using si(2) by auto
    from slot_snapshots[OF Cons.prems(1) fit] obtain snaps where
      sn: "for_loop (\<lambda>s acc. map_option (\<lambda>c. acc @ [c]) (cells_cp_idxs (si_idxs si ! s) (kv_v_cells kv ! (si_strm si ! s))))
        [0..<slot_n_stream si] [] = Some snaps"
      "\<forall>s < length (si_strm si). cells_cp_idxs (si_idxs si ! s) (kv_v_cells kv ! (si_strm si ! s)) = Some (snaps ! s)" by blast
    from apply_ubatch_ok[OF Cons.prems(1) fit] obtain cs hs where
      ap: "apply_ubatch si u kv = Some (kv\<lparr>kv_v_cells := cs, kv_v_heads := hs\<rparr>)" "kv_ok sz (kv\<lparr>kv_v_cells := cs, kv_v_heads := hs\<rparr>)"
        "rows_placed kv si u ?n (length (si_strm si)) (kv\<lparr>kv_v_cells := cs\<rparr>)"
        "\<forall>t. kv_seq_ok kv t \<longrightarrow> kv_positions (kv\<lparr>kv_v_cells := cs, kv_v_heads := hs\<rparr>) t = kv_positions kv t \<union> ubatch_positions u t" by blast
    let ?kv = "kv\<lparr>kv_v_cells := cs, kv_v_heads := hs\<rparr>"
    let ?ps = "\<lparr>ps_sinfo = si, ps_heads_old = kv_v_heads kv, ps_cells = snaps\<rparr>"
    have sh: "same_shape kv ?kv" by (rule same_shapeI)
    note fr = same_shape_frame[OF sh]
    have pl: "\<forall>v \<in> set us. ubatch_placeable ?kv v" using Cons.prems(3) fr(1) by simp
    have swa: "kv_swa_type ?kv = LLAMA_SWA_TYPE_NONE" using Cons.prems(2) by simp
    from Cons.IH[OF ap(2) swa pl, of "res @ [si]" "states @ [?ps]"] obtain kv1 rs new ok where
      r: "prepare_loop us ?kv (res @ [si]) (states @ [?ps]) = Some (kv1, (res @ [si]) @ rs, (states @ [?ps]) @ new, ok)"
        "length new = length rs" "kv_ok sz kv1" "same_shape ?kv kv1" "undoes ?kv kv1 new"
        "ok \<longrightarrow> length rs = length us \<and> replay rs us ?kv = Some kv1 \<and>
          (\<forall>t. kv_seq_ok ?kv t \<longrightarrow> kv_positions kv1 t = kv_positions ?kv t \<union> (\<Union>u \<in> set us. ubatch_positions u t))"
        "kv_n_stream ?kv = 1 \<longrightarrow> (ok \<longleftrightarrow> sum_list (map u_n_tokens us) \<le> n_empty ?kv 0)"
      by (elim exE conjE) (rule that)
    have run: "prepare_loop (u # us) kv res states = Some (kv1, res @ (si # rs), states @ (?ps # new), ok)"
      using si(1) ne sn(1) ap(1) r(1) by simp
    have un: "undoes kv kv1 (?ps # new)" by (rule undoes_step[OF r(5) Cons.prems(1) fit refl ap(3) sn(2)])
    have rep: "replay (si # rs) (u # us) kv = Some kv1" if ok using that r(6) ap(1) by (simp add: replay_def)
    have cnt: "ok \<longleftrightarrow> sum_list (map u_n_tokens (u # us)) \<le> n_empty kv 0" if one: "kv_n_stream kv = 1"
    proof -
      note ur = unified_room[OF one Cons.prems(1) up]
      have st: "si_strm si = [0]" using ur(1,3) by (simp add: strm)
      have "view (cs ! 0) = place_row u (0 * ?n) (si_idxs si ! 0) (view (kv_v_cells kv ! 0))"
        using ap(3) st by (auto simp: rows_placed_def Let_def kv_cells_update_inject)
      from n_empty_after(1)[OF Cons.prems(1) fit st this, of hs] n_empty_after(2)[OF Cons.prems(1) fit st this]
      show ?thesis using r(7) one ur(2) by auto
    qed
    show ?thesis
      using run r(2,3) same_shape_trans[OF sh r(4)] un r(6) rep cnt ap(4) fr(4)
      by (intro exI[of _ kv1] exI[of _ "si # rs"] exI[of _ "?ps # new"] exI[of _ ok]) (auto simp del: prepare_loop.simps)
  qed
qed

lemma prepare_loop_states:
  "prepare_loop us kv res states = Some (kv1, res1, states1, ok) \<Longrightarrow> length states \<le> length states1"
proof (induction us arbitrary: kv res states)
  case (Cons u us)
  from Cons.prems show ?case
    by (auto simp: bind_eq_Some_conv split: if_splits dest!: Cons.IH)
qed simp

lemma prepare_no_window:
  assumes "kv_ok sz kv" "kv_swa_type kv = LLAMA_SWA_TYPE_NONE" "\<forall>u \<in> set us. ubatch_placeable kv u" "us \<noteq> []"
  shows "\<exists>kv' sinfos. prepare us kv = Some (kv', sinfos) \<and> kv_v_cells kv' = kv_v_cells kv \<and> kv_data kv' = kv_data kv \<and>
    (kv_n_stream kv = 1 \<longrightarrow> kv' = kv \<and> (sinfos \<noteq> [] \<longleftrightarrow> sum_list (map u_n_tokens us) \<le> n_empty kv 0)) \<and>
    (sinfos \<noteq> [] \<longrightarrow> length sinfos = length us \<and> (\<exists>kv1. replay sinfos us kv = Some kv1 \<and> kv_ok sz kv1 \<and> same_shape kv kv1 \<and>
      (\<forall>t. kv_seq_ok kv t \<longrightarrow> kv_positions kv1 t = kv_positions kv t \<union> (\<Union>u \<in> set us. ubatch_positions u t))))"
proof -
  from prepare_loop_ok[OF assms(1-3), of "[]" "[]"] obtain kv1 rs new ok where
    r: "prepare_loop us kv [] [] = Some (kv1, [] @ rs, [] @ new, ok)" "length new = length rs" "kv_ok sz kv1" "same_shape kv kv1" "undoes kv kv1 new"
      "ok \<longrightarrow> length rs = length us \<and> replay rs us kv = Some kv1 \<and>
        (\<forall>t. kv_seq_ok kv t \<longrightarrow> kv_positions kv1 t = kv_positions kv t \<union> (\<Union>u \<in> set us. ubatch_positions u t))"
      "kv_n_stream kv = 1 \<longrightarrow> (ok \<longleftrightarrow> sum_list (map u_n_tokens us) \<le> n_empty kv 0)"
    by (elim exE conjE) (rule that)
  have hl: "length (kv_v_heads kv1) = kv_n_stream kv" using kv_okD(5)[OF r(3)] same_shape_frame(3)[OF r(4)] by simp
  have st: "kv1\<lparr>kv_v_heads := kv_v_heads kv1\<rparr> = kv1" by simp
  from r(5) hl obtain hs where hs: "for_loop restore_state (rev new) kv1 = Some (kv\<lparr>kv_v_heads := hs\<rparr>)"
    "kv_n_stream kv = 1 \<and> (new \<noteq> [] \<or> kv_v_heads kv1 = kv_v_heads kv) \<longrightarrow> hs = kv_v_heads kv"
    unfolding undoes_def using st by metis
  have empty: "new = [] \<Longrightarrow> kv1 = kv" "ok \<Longrightarrow> new \<noteq> []"
  proof -
    show "ok \<Longrightarrow> new \<noteq> []" using r(2,6) assms(4) by auto
    assume "new = []"
    then have "kv1 = kv\<lparr>kv_v_heads := hs\<rparr>" using hs(1) by simp
    moreover have "prepare_loop us kv [] [] = Some (kv1, [], [], ok)" using r(1,2) \<open>new = []\<close> by simp
    ultimately show "kv1 = kv" using assms(4)
      by (cases us) (auto simp: bind_eq_Some_conv split: if_splits dest!: prepare_loop_states)
  qed
  have "prepare us kv = Some (kv\<lparr>kv_v_heads := hs\<rparr>, if ok then rs else [])"
    using r(1) hs(1) empty(2) by (auto simp: prepare_def)
  moreover have "kv_n_stream kv = 1 \<Longrightarrow> kv\<lparr>kv_v_heads := hs\<rparr> = kv" using hs(2) empty(1) by (cases "new = []") auto
  moreover have "ok \<Longrightarrow> rs \<noteq> []" using empty(2) r(2) by auto
  ultimately show ?thesis using r(3,4,6,7) by (intro exI[of _ "kv\<lparr>kv_v_heads := hs\<rparr>"] exI[of _ "if ok then rs else []"]) auto
qed

text \<open>
  C18.  \<^verbatim>\<open>prepare\<close> is a dry run.  On a cache without sliding window it never aborts and leaves all cells
  exactly as they were; in a unified cache also the head, so the cache is unchanged.  It returns
  slots in a unified cache exactly when all tokens together fit into the empty cells, and applying
  the ubatches to the slots one after the other then succeeds, changes only cells and heads, and gives
  every sequence the positions of its tokens.
\<close>

theorem prepare_dry_run:
  assumes "kv_ok sz kv" "kv_swa_type kv = LLAMA_SWA_TYPE_NONE" "\<forall>u \<in> set us. ubatch_placeable kv u" "us \<noteq> []"
  shows "\<exists>kv' sinfos. prepare us kv = Some (kv', sinfos) \<and> kv_v_cells kv' = kv_v_cells kv \<and> kv_data kv' = kv_data kv \<and>
    (kv_n_stream kv = 1 \<longrightarrow> kv' = kv \<and> (sinfos \<noteq> [] \<longleftrightarrow> sum_list (map u_n_tokens us) \<le> n_empty kv 0)) \<and>
    (sinfos \<noteq> [] \<longrightarrow> length sinfos = length us \<and> (\<exists>kv1. replay sinfos us kv = Some kv1 \<and> kv_ok sz kv1 \<and> same_shape kv kv1 \<and>
      (\<forall>t. kv_seq_ok kv t \<longrightarrow> kv_positions kv1 t = kv_positions kv t \<union> (\<Union>u \<in> set us. ubatch_positions u t))))"
  by (rule prepare_no_window[OF assms])

theorem prepare_dry_run_witness:
  "\<exists>sinfos kv1. prepare [demo_ubatch] demo_kv = Some (demo_kv, sinfos) \<and> length sinfos = 1 \<and>
    replay sinfos [demo_ubatch] demo_kv = Some kv1 \<and> kv_positions kv1 0 = {5, 6, 7}"
proof -
  have "ubatch_positions demo_ubatch 0 = {7}" by (auto simp: ubatch_positions_def token_ids_def demo_ubatch_def)
  moreover have "u_n_tokens demo_ubatch = 1" by (simp add: demo_ubatch_def)
  ultimately show ?thesis
    using prepare_dry_run[OF demo_kv_facts(1,6), of "[demo_ubatch]"] demo_placeable demo_empty demo_kv_facts(5) demo_kv_seqs[of 0] demo_kv_positions(1)
    by fastforce
qed

text \<open>
  With several streams the heads are not restored: \<^verbatim>\<open>prepare\<close> saves the heads of all streams and then
  reads them back by the row number of the slot instead of its stream.  Two streams, sequence 0
  has one token (head 1) and sequence 1 none (head 0): preparing a ubatch for sequence 1 leaves its
  head at 1.
\<close>

definition one_token :: "llama_seq_id \<Rightarrow> llama_pos \<Rightarrow> llama_ubatch" where
  "one_token s p = \<lparr>u_equal_seqs = True, u_n_tokens = 1, u_n_seq_tokens = 1, u_n_seqs = 1, u_n_seqs_unq = 1, u_n_pos = 1,
     u_token = Some [7], u_embd = None, u_pos = [p], u_n_seq_id = [1], u_seq_id = [[s]], u_seq_id_unq = [s],
     u_seq_idx = [], u_output = [1]\<rparr>"

lemma prepare_head_not_restored:
  "(case kv_new demo_hparams True False False 2 2 1 0 LLAMA_SWA_TYPE_NONE [] of None \<Rightarrow> None
    | Some kv \<Rightarrow> (case Option.bind (find_slot (one_token 0 0) False kv) (\<lambda>si. apply_ubatch si (one_token 0 0) kv) of None \<Rightarrow> None
    | Some kv \<Rightarrow> (case prepare [one_token 1 0] kv of None \<Rightarrow> None
    | Some (kv', _) \<Rightarrow> Some (kv_v_heads kv, kv_v_heads kv')))) = Some ([1, 0], [1, 1])"
  by code_simp

end
