(* ===== verification/Kv_Input.thy ===== *)
theory Kv_Input
  imports Kv_Slot
begin

text \<open>
  The inputs the KV cache computes for a graph (\<^verbatim>\<open>set_input_*\<close> of \<^verbatim>\<open>llama-kv-cache.cpp\<close>): the cell
  indices K and V rows are written to, the accumulated shifts and the attention mask.  A mask entry
  is an \<open>int option\<close>: \<^term>\<open>None\<close> is \<^verbatim>\<open>-INFINITY\<close>, \<open>Some x\<close> the (integral) float \<open>x\<close>.  A tensor of the mask
  is the list of its rows, one per token.
\<close>

section \<open>Indices and shifts\<close>

text \<open>
  The offset of a stream is a product of 32-bit numbers, widened after the multiplication: it wraps.  For
  the transposed V cache the size is widened first, and the product does not wrap.
\<close>

definition set_input_k_idxs :: "llama_ubatch \<Rightarrow> slot_info \<Rightarrow> llama_kv_cache \<Rightarrow> nat list option" where
  "set_input_k_idxs ubatch sinfo kv = do {
     size \<leftarrow> slot_size sinfo;
     require (u_n_tokens ubatch = size * slot_n_stream sinfo);
     Some (concat (map (\<lambda>s. map (\<lambda>i. to_u32 (si_strm sinfo ! s * kv_get_size kv) + si_idxs sinfo ! s ! i) [0..<size]) [0..<slot_n_stream sinfo]))
   }"

definition set_input_v_idxs :: "llama_ubatch \<Rightarrow> slot_info \<Rightarrow> llama_kv_cache \<Rightarrow> nat list option" where
  "set_input_v_idxs ubatch sinfo kv =
     (if \<not> kv_v_trans kv then set_input_k_idxs ubatch sinfo kv
      else do {
        size \<leftarrow> slot_size sinfo;
        require (u_n_tokens ubatch = size * slot_n_stream sinfo);
        let kv_size = kv_get_size kv;
        n_max \<leftarrow> n_embd_v_gqa_max (kv_hparams kv);
        let n_embd_v_gqa = unat n_max;
        Some (concat (map (\<lambda>s. concat (map (\<lambda>i. map (\<lambda>j.
            si_strm sinfo ! s * kv_size * n_embd_v_gqa + j * kv_size + si_idxs sinfo ! s ! i) [0..<n_embd_v_gqa]) [0..<size])) [0..<slot_n_stream sinfo]))
      })"

definition set_input_k_shift :: "llama_kv_cache \<Rightarrow> llama_pos list option" where
  "set_input_k_shift kv = for_loop (\<lambda>s data. for_loop (\<lambda>i data. do {
       let cells = kv_v_cells kv ! s;
       e \<leftarrow> cells_is_empty i cells;
       x \<leftarrow> (if e then Some 0 else cells_get_shift i cells);
       Some (data @ [x])
     }) [0..<cells_size (kv_v_cells kv ! s)] data) [0..<kv_n_stream kv] []"

text \<open>\<^verbatim>\<open>llama_relative_position_bucket\<close> of \<^verbatim>\<open>llama-graph.cpp\<close> (floating point) is a parameter.\<close>

definition set_input_pos_bucket :: "(llama_pos \<Rightarrow> llama_pos \<Rightarrow> int) \<Rightarrow> nat \<Rightarrow> llama_ubatch \<Rightarrow> llama_kv_cache \<Rightarrow> int list list option" where
  "set_input_pos_bucket bucket n_kv ubatch kv = do {
     require (kv_n_stream kv = 1);
     require (\<not> u_equal_seqs ubatch);
     let cells = kv_v_cells kv ! 0;
     for_loop (\<lambda>i data. do {
         row \<leftarrow> for_loop (\<lambda>j row. do {
             e \<leftarrow> cells_is_empty j cells;
             p0 \<leftarrow> (if e then Some (-1) else cells_pos_get j cells);
             Some (row @ [bucket p0 (u_pos ubatch ! i)])
           }) [0..<n_kv] [];
         Some (data @ [row])
       }) [0..<u_n_tokens ubatch] []
   }"

section \<open>The attention mask\<close>

record args_set_input_kq_mask =
  ka_hparams :: llama_hparams
  ka_ubatch :: llama_ubatch
  ka_v_cells :: "llama_kv_cells list"
  ka_seq_to_stream :: "nat list"
  ka_n_swa :: nat
  ka_swa_type :: llama_swa_type
  ka_n_kv :: nat
  ka_n_stream :: nat
  ka_n_tps :: nat

text \<open>The four template parameters.\<close>

record mask_mode =
  mm_causal :: bool
  mm_swa :: bool
  mm_2d :: bool
  mm_alibi :: bool

definition kq_seq_pos_min :: "llama_ubatch \<Rightarrow> llama_seq_id \<Rightarrow> llama_pos" where
  "kq_seq_pos_min u = fold (\<lambda>i pm. pm(u_seq_id u ! i ! 0 := min (pm (u_seq_id u ! i ! 0)) (u_pos u ! i)))
     [0..<u_n_tokens u] (\<lambda>_. INT32_MAX)"

text \<open>The body of the loop over the cells: the value written for cell \<open>j\<close>, up to \<^verbatim>\<open>skip:\<close>.\<close>

definition kq_value :: "mask_mode \<Rightarrow> args_set_input_kq_mask \<Rightarrow> llama_kv_cells \<Rightarrow> llama_seq_id \<Rightarrow> nat \<Rightarrow> nat \<Rightarrow> int option option" where
  "kq_value mm a cells seq_id i j = do {
     let u = ka_ubatch a;
     let p1 = u_pos u ! i;
     let p1_x = (if mm_2d mm then u_pos u ! (i + u_n_tokens u * 2) else 0);
     let p1_y = (if mm_2d mm then u_pos u ! (i + u_n_tokens u) else 0);
     e \<leftarrow> cells_is_empty j cells;
     if e then Some None
     else do {
       has \<leftarrow> cells_seq_has j seq_id cells;
       if \<not> has then Some None
       else do {
         p0 \<leftarrow> cells_pos_get j cells;
         if mm_causal mm \<and> p0 > p1 then Some None
         else do {
           gt \<leftarrow> (if mm_causal mm \<and> mm_2d mm \<and> p0 = p1 then map_option (\<lambda>x. is_2d_gt x p1_x p1_y) (cells_ext_get j cells) else Some False);
           if gt then Some None
           else do {
             m \<leftarrow> (if mm_swa mm then is_masked_swa (ka_n_swa a) (ka_swa_type a) p0 p1 else Some False);
             if m then Some None
             else Some (Some (if mm_alibi mm then - \<bar>p0 - p1\<bar> else 0))
           }
         }
       }
     }
   }"

text \<open>Whether the body records cell \<open>j\<close> for the later tokens of the sequence.\<close>

definition kq_record :: "args_set_input_kq_mask \<Rightarrow> llama_kv_cells \<Rightarrow> llama_seq_id \<Rightarrow> nat \<Rightarrow> bool option" where
  "kq_record a cells seq_id j = do {
     e \<leftarrow> cells_is_empty j cells;
     if e then Some False
     else do {
       has \<leftarrow> cells_seq_has j seq_id cells;
       if \<not> has then Some False
       else map_option (\<lambda>p0. p0 + int (ka_n_swa a + 32) \<ge> kq_seq_pos_min (ka_ubatch a) seq_id) (cells_pos_get j cells)
     }
   }"

type_synonym mask_state = "int option list list \<times> (llama_seq_id \<Rightarrow> nat option) \<times> (llama_seq_id \<Rightarrow> nat list)"

definition kq_token :: "mask_mode \<Rightarrow> args_set_input_kq_mask \<Rightarrow> nat \<Rightarrow> mask_state \<Rightarrow> mask_state option" where
  "kq_token mm a i = (\<lambda>(data, seq_srct, seq_idxs). do {
     let seq_id = u_seq_id (ka_ubatch a) ! i ! 0;
     require (0 \<le> seq_id \<and> nat seq_id < length (ka_seq_to_stream a) \<and> ka_seq_to_stream a ! nat seq_id < length (ka_v_cells a));
     let cells = ka_v_cells a ! (ka_seq_to_stream a ! nat seq_id);
     (case (if mm_alibi mm then None else seq_srct seq_id) of
        Some srct \<Rightarrow> do {
          let idxs = seq_idxs seq_id;
          row \<leftarrow> for_loop (\<lambda>jj row. do {
              let j = idxs ! jj;
              v \<leftarrow> kq_value mm a cells seq_id i j;
              Some (row[j := v])
            }) [0..<min (ka_n_kv a) (length idxs)] (data ! srct);
          Some (data[i := row], seq_srct, seq_idxs)
        }
      | None \<Rightarrow> do {
          (row, idxs) \<leftarrow> for_loop (\<lambda>j (row, idxs). do {
              v \<leftarrow> kq_value mm a cells seq_id i j;
              r \<leftarrow> (if mm_alibi mm then Some False else kq_record a cells seq_id j);
              Some (row[j := v], if r then idxs @ [j] else idxs)
            }) [0..<ka_n_kv a] (data ! i, if mm_alibi mm then seq_idxs seq_id else []);
          Some (data[i := row], if mm_alibi mm then seq_srct else seq_srct(seq_id \<mapsto> i), seq_idxs(seq_id := idxs))
        })
   })"

definition set_input_kq_mask_impl :: "mask_mode \<Rightarrow> args_set_input_kq_mask \<Rightarrow> int option list list \<Rightarrow> int option list list option" where
  "set_input_kq_mask_impl mm a = for_loop (\<lambda>s data.
     map_option fst (for_loop (\<lambda>ii. kq_token mm a (s * ka_n_tps a + ii)) [0..<ka_n_tps a] (data, (\<lambda>_. None), (\<lambda>_. []))))
     [0..<ka_n_stream a]"

definition set_input_kq_mask :: "int option list list \<Rightarrow> nat \<Rightarrow> nat \<Rightarrow> llama_ubatch \<Rightarrow> bool \<Rightarrow> llama_kv_cache \<Rightarrow> int option list list option" where
  "set_input_kq_mask data n_kv n_stream ubatch causal_attn kv = do {
     require (n_stream \<noteq> 0 \<and> u_n_tokens ubatch mod n_stream = 0);
     set_input_kq_mask_impl
       \<lparr>mm_causal = causal_attn, mm_swa = (kv_swa_type kv \<noteq> LLAMA_SWA_TYPE_NONE), mm_2d = is_pos_2d ubatch, mm_alibi = hp_use_alibi (kv_hparams kv)\<rparr>
       \<lparr>ka_hparams = kv_hparams kv, ka_ubatch = ubatch, ka_v_cells = kv_v_cells kv, ka_seq_to_stream = kv_seq_to_stream kv,
        ka_n_swa = kv_n_swa kv, ka_swa_type = kv_swa_type kv, ka_n_kv = n_kv, ka_n_stream = n_stream, ka_n_tps = u_n_tokens ubatch div n_stream\<rparr>
       data
   }"

section \<open>The mask is the mask of each token on its own\<close>

text \<open>Reference: what the entry of token \<open>i\<close> for a cell should be.\<close>

definition mask_spec :: "mask_mode \<Rightarrow> args_set_input_kq_mask \<Rightarrow> nat \<Rightarrow> kv_cell \<Rightarrow> int option" where
  "mask_spec mm a i v =
     (let u = ka_ubatch a; p1 = u_pos u ! i in
      if v_pos v = -1 \<or> u_seq_id u ! i ! 0 \<notin> v_seq v then None
      else if mm_causal mm \<and> (v_pos v > p1 \<or>
        (mm_2d mm \<and> v_pos v = p1 \<and> is_2d_gt (v_ext v) (u_pos u ! (i + u_n_tokens u * 2)) (u_pos u ! (i + u_n_tokens u)))) then None
      else if mm_swa mm \<and> is_masked_swa (ka_n_swa a) (ka_swa_type a) (v_pos v) p1 = Some True then None
      else Some (if mm_alibi mm then - \<bar>v_pos v - p1\<bar> else 0))"

definition token_cells :: "args_set_input_kq_mask \<Rightarrow> nat \<Rightarrow> llama_kv_cells" where
  "token_cells a i = ka_v_cells a ! (ka_seq_to_stream a ! nat (u_seq_id (ka_ubatch a) ! i ! 0))"

definition mask_args_ok :: "mask_mode \<Rightarrow> args_set_input_kq_mask \<Rightarrow> bool" where
  "mask_args_ok mm a \<longleftrightarrow> ka_n_stream a * ka_n_tps a = u_n_tokens (ka_ubatch a) \<and>
     (mm_swa mm \<longleftrightarrow> ka_swa_type a \<noteq> LLAMA_SWA_TYPE_NONE) \<and> (ka_swa_type a = LLAMA_SWA_TYPE_CHUNKED \<longrightarrow> 0 < ka_n_swa a) \<and>
     (\<forall>i < u_n_tokens (ka_ubatch a). let s = u_seq_id (ka_ubatch a) ! i ! 0 in
        0 \<le> u_pos (ka_ubatch a) ! i \<and> seq_id_ok s \<and> nat s < length (ka_seq_to_stream a) \<and>
        ka_seq_to_stream a ! nat s < length (ka_v_cells a) \<and> wf_cells (token_cells a i) \<and> ka_n_kv a \<le> cells_size (token_cells a i))"

lemma kq_seq_pos_min_le:
  assumes "i < u_n_tokens u"
  shows "kq_seq_pos_min u (u_seq_id u ! i ! 0) \<le> u_pos u ! i"
proof -
  let ?f = "\<lambda>i pm. pm(u_seq_id u ! i ! 0 := min (pm (u_seq_id u ! i ! 0)) (u_pos u ! i))"
  have "i < n \<Longrightarrow> fold ?f [0..<n] (\<lambda>_. INT32_MAX) (u_seq_id u ! i ! 0) \<le> u_pos u ! i" for n
    by (induction n) (auto simp: less_Suc_eq min.coboundedI1)
  with assms show ?thesis by (simp add: kq_seq_pos_min_def)
qed

lemma kq_value_eq:
  assumes ok: "mask_args_ok mm a" and i: "i < u_n_tokens (ka_ubatch a)" and j: "j < ka_n_kv a"
  shows "kq_value mm a (token_cells a i) (u_seq_id (ka_ubatch a) ! i ! 0) i j = Some (mask_spec mm a i (cell_at (token_cells a i) j))"
proof -
  let ?c = "token_cells a i" and ?s = "u_seq_id (ka_ubatch a) ! i ! 0" and ?p = "u_pos (ka_ubatch a) ! i"
  have c: "wf_cells ?c" "j < length (c_pos ?c)" "seq_id_ok ?s" "0 \<le> ?p" and cfg: "ka_swa_type a = LLAMA_SWA_TYPE_CHUNKED \<longrightarrow> 0 < ka_n_swa a"
    using ok i j by (auto simp: mask_args_ok_def Let_def cells_size_def)
  show ?thesis
  proof (cases "c_pos ?c ! j = -1")
    case True
    then show ?thesis using c by (simp add: kq_value_def mask_spec_def Let_def step_simps)
  next
    case False
    then have p0: "0 \<le> c_pos ?c ! j" using wf_cell_ok[OF c(1,2)] by (auto simp: cell_ok_def)
    obtain b where "is_masked_swa (ka_n_swa a) (ka_swa_type a) (c_pos ?c ! j) ?p = Some b" using masked_defined[OF p0 c(4) cfg] by blast
    then show ?thesis using c False by (auto simp: kq_value_def mask_spec_def Let_def step_simps)
  qed
qed

definition recorded :: "args_set_input_kq_mask \<Rightarrow> nat \<Rightarrow> nat \<Rightarrow> bool" where
  "recorded a i j \<longleftrightarrow> (let v = cell_at (token_cells a i) j; s = u_seq_id (ka_ubatch a) ! i ! 0 in
     v_pos v \<noteq> -1 \<and> s \<in> v_seq v \<and> v_pos v + int (ka_n_swa a + 32) \<ge> kq_seq_pos_min (ka_ubatch a) s)"

lemma kq_record_eq:
  assumes ok: "mask_args_ok mm a" and i: "i < u_n_tokens (ka_ubatch a)" and j: "j < ka_n_kv a"
  shows "kq_record a (token_cells a i) (u_seq_id (ka_ubatch a) ! i ! 0) j = Some (recorded a i j)"
proof -
  let ?c = "token_cells a i" and ?s = "u_seq_id (ka_ubatch a) ! i ! 0"
  have c: "wf_cells ?c" "j < length (c_pos ?c)" "seq_id_ok ?s" using ok i j by (auto simp: mask_args_ok_def Let_def cells_size_def)
  then show ?thesis by (cases "c_pos ?c ! j = -1") (auto simp: kq_record_def recorded_def Let_def step_simps)
qed

lemma masked_beyond_window:
  assumes "0 \<le> p0" "p0 + int n < p1" "ty \<noteq> LLAMA_SWA_TYPE_NONE" "ty = LLAMA_SWA_TYPE_CHUNKED \<longrightarrow> 0 < n"
  shows "is_masked_swa n ty p0 p1 = Some True"
proof (cases "0 < n")
  case True
  then show ?thesis using masked_far assms by simp
next
  case False
  then show ?thesis using assms by (cases ty) (auto simp: is_masked_swa_def Let_def to_i32_def cxx_div_def)
qed

text \<open>A cell that was not recorded has the same entry for all tokens of the sequence.\<close>

lemma mask_spec_stable:
  assumes ok: "mask_args_ok mm a" and i: "i < u_n_tokens (ka_ubatch a)" "r < u_n_tokens (ka_ubatch a)"
    and s: "u_seq_id (ka_ubatch a) ! r ! 0 = u_seq_id (ka_ubatch a) ! i ! 0" and j: "j < ka_n_kv a"
    and nr: "\<not> recorded a i j" and al: "\<not> mm_alibi mm"
  shows "mask_spec mm a r (cell_at (token_cells a i) j) = mask_spec mm a i (cell_at (token_cells a i) j)"
proof (cases "c_pos (token_cells a i) ! j = -1 \<or> u_seq_id (ka_ubatch a) ! i ! 0 \<notin> c_seq (token_cells a i) ! j")
  case True
  then show ?thesis using s by (auto simp: mask_spec_def Let_def)
next
  case False
  let ?c = "token_cells a i" and ?u = "ka_ubatch a"
  let ?p0 = "c_pos ?c ! j" and ?s = "u_seq_id ?u ! i ! 0"
  have wf: "wf_cells ?c" "j < length (c_pos ?c)" and cfg: "ka_swa_type a = LLAMA_SWA_TYPE_CHUNKED \<longrightarrow> 0 < ka_n_swa a"
    and sw: "mm_swa mm \<longleftrightarrow> ka_swa_type a \<noteq> LLAMA_SWA_TYPE_NONE"
    using ok i(1) j by (auto simp: mask_args_ok_def Let_def cells_size_def)
  have p0: "0 \<le> ?p0" using False wf_cell_ok[OF wf] by (auto simp: cell_ok_def)
  have "?p0 + int (ka_n_swa a + 32) < kq_seq_pos_min ?u ?s" using nr False by (auto simp: recorded_def Let_def)
  moreover have "kq_seq_pos_min ?u ?s \<le> u_pos ?u ! i" by (rule kq_seq_pos_min_le[OF i(1)])
  moreover have "kq_seq_pos_min ?u ?s \<le> u_pos ?u ! r" using kq_seq_pos_min_le[OF i(2)] s by simp
  ultimately have lt: "?p0 + int (ka_n_swa a) < u_pos ?u ! i" "?p0 + int (ka_n_swa a) < u_pos ?u ! r" by auto
  then have p: "?p0 < u_pos ?u ! i" "?p0 < u_pos ?u ! r" by auto
  show ?thesis
  proof (cases "mm_swa mm")
    case True
    then show ?thesis using masked_beyond_window[OF p0 lt(1)] masked_beyond_window[OF p0 lt(2)] sw cfg s
      by (simp add: mask_spec_def Let_def)
  next
    case no: False
    then show ?thesis using p s al False by (simp add: mask_spec_def Let_def)
  qed
qed

definition mask_row :: "mask_mode \<Rightarrow> args_set_input_kq_mask \<Rightarrow> nat \<Rightarrow> int option list" where
  "mask_row mm a i = map (\<lambda>j. mask_spec mm a i (cell_at (token_cells a i) j)) [0..<ka_n_kv a]"

lemma fresh_row:
  assumes ok: "mask_args_ok mm a" and i: "i < u_n_tokens (ka_ubatch a)" and len: "length row = ka_n_kv a"
  shows "for_loop (\<lambda>j (row, idxs). do {
      v \<leftarrow> kq_value mm a (token_cells a i) (u_seq_id (ka_ubatch a) ! i ! 0) i j;
      r \<leftarrow> (if mm_alibi mm then Some False else kq_record a (token_cells a i) (u_seq_id (ka_ubatch a) ! i ! 0) j);
      Some (row[j := v], if r then idxs @ [j] else idxs)
    }) [0..<ka_n_kv a] (row, idxs) =
    Some (mask_row mm a i, idxs @ (if mm_alibi mm then [] else filter (recorded a i) [0..<ka_n_kv a]))"
proof -
  let ?f = "\<lambda>j (row, idxs). do {
      v \<leftarrow> kq_value mm a (token_cells a i) (u_seq_id (ka_ubatch a) ! i ! 0) i j;
      r \<leftarrow> (if mm_alibi mm then Some False else kq_record a (token_cells a i) (u_seq_id (ka_ubatch a) ! i ! 0) j);
      Some (row[j := v], if r then idxs @ [j] else idxs)
    }"
  have "n \<le> ka_n_kv a \<Longrightarrow> for_loop ?f [0..<n] (row, idxs) =
      Some (take n (mask_row mm a i) @ drop n row, idxs @ (if mm_alibi mm then [] else filter (recorded a i) [0..<n]))" for n
  proof (induction n)
    case (Suc n)
    then have n: "n < ka_n_kv a" "n < length (mask_row mm a i)" by (auto simp: mask_row_def)
    have upd: "(take n (mask_row mm a i) @ drop n row)[n := mask_spec mm a i (cell_at (token_cells a i) n)] =
        take (Suc n) (mask_row mm a i) @ drop (Suc n) row"
    proof -
      have "mask_row mm a i ! n = mask_spec mm a i (cell_at (token_cells a i) n)" using n by (simp add: mask_row_def)
      moreover have "drop n row = row ! n # drop (Suc n) row" using n(1) len by (simp add: Cons_nth_drop_Suc)
      ultimately show ?thesis using n(2) by (simp add: list_update_append take_Suc_conv_app_nth)
    qed
    show ?case using Suc n kq_value_eq[OF ok i n(1)] kq_record_eq[OF ok i n(1)] upd by (auto simp: for_loop_append)
  qed simp
  from this[of "ka_n_kv a"] len show ?thesis by (simp add: mask_row_def)
qed

lemma update_row:
  assumes ok: "mask_args_ok mm a" and i: "i < u_n_tokens (ka_ubatch a)" "r < u_n_tokens (ka_ubatch a)"
    and s: "u_seq_id (ka_ubatch a) ! r ! 0 = u_seq_id (ka_ubatch a) ! i ! 0" and al: "\<not> mm_alibi mm"
  defines "idxs \<equiv> filter (recorded a i) [0..<ka_n_kv a]"
  shows "for_loop (\<lambda>jj row. do {
      let j = idxs ! jj;
      v \<leftarrow> kq_value mm a (token_cells a i) (u_seq_id (ka_ubatch a) ! i ! 0) i j;
      Some (row[j := v])
    }) [0..<min (ka_n_kv a) (length idxs)] (mask_row mm a r) = Some (mask_row mm a i)"
proof -
  let ?f = "\<lambda>jj row. do {
      let j = idxs ! jj;
      v \<leftarrow> kq_value mm a (token_cells a i) (u_seq_id (ka_ubatch a) ! i ! 0) i j;
      Some (row[j := v])
    }"
  let ?I = "\<lambda>n row. length row = ka_n_kv a \<and> (\<forall>j < ka_n_kv a. j \<in> set (take n idxs) \<or> \<not> recorded a i j \<longrightarrow> row ! j = mask_row mm a i ! j)"
  have tc: "token_cells a r = token_cells a i" using s by (simp add: token_cells_def)
  have len: "length idxs \<le> ka_n_kv a" unfolding idxs_def by (metis length_filter_le length_upt minus_nat.diff_0)
  have "\<exists>row. for_loop ?f [0..<length idxs] (mask_row mm a r) = Some row \<and> ?I (length idxs) row"
  proof (rule for_upt_rule[where I = ?I])
    show "?I 0 (mask_row mm a r)" using mask_spec_stable[OF ok i s _ _ al] tc by (auto simp: mask_row_def)
    fix jj row assume jj: "jj < length idxs" and I: "?I jj row"
    have j: "idxs ! jj < ka_n_kv a" using nth_mem[OF jj] by (simp add: idxs_def)
    have "?f jj row = Some (row[idxs ! jj := mask_spec mm a i (cell_at (token_cells a i) (idxs ! jj))])"
      using kq_value_eq[OF ok i(1) j] by (simp add: Let_def)
    moreover have "?I (Suc jj) (row[idxs ! jj := mask_spec mm a i (cell_at (token_cells a i) (idxs ! jj))])"
      using I j jj by (auto simp: nth_list_update mask_row_def take_Suc_conv_app_nth)
    ultimately show "\<exists>row'. ?f jj row = Some row' \<and> ?I (Suc jj) row'" by blast
  qed
  then obtain row where row: "for_loop ?f [0..<length idxs] (mask_row mm a r) = Some row" "?I (length idxs) row" by blast
  have "row = mask_row mm a i"
  proof (rule nth_equalityI)
    show "length row = length (mask_row mm a i)" using row(2) by (simp add: mask_row_def)
    fix j assume "j < length row"
    then show "row ! j = mask_row mm a i ! j" using row(2) by (cases "recorded a i j") (auto simp: idxs_def)
  qed
  with row(1) len show ?thesis by (simp add: min_absorb2)
qed

definition mask_inv :: "mask_mode \<Rightarrow> args_set_input_kq_mask \<Rightarrow> nat \<Rightarrow> mask_state \<Rightarrow> bool" where
  "mask_inv mm a m st \<longleftrightarrow> (case st of (data, srct, sidxs) \<Rightarrow>
     length data = u_n_tokens (ka_ubatch a) \<and> (\<forall>row \<in> set data. length row = ka_n_kv a) \<and>
     (\<forall>i < m. data ! i = mask_row mm a i) \<and>
     (\<forall>q r. srct q = Some r \<longrightarrow> r < m \<and> u_seq_id (ka_ubatch a) ! r ! 0 = q \<and> sidxs q = filter (recorded a r) [0..<ka_n_kv a]))"

lemma length_mask_row [simp]: "length (mask_row mm a i) = ka_n_kv a"
  by (simp add: mask_row_def)

lemma kq_token_inv:
  assumes ok: "mask_args_ok mm a" and i: "i < u_n_tokens (ka_ubatch a)" and I: "mask_inv mm a i st"
  shows "\<exists>st'. kq_token mm a i st = Some st' \<and> mask_inv mm a (Suc i) st'"
proof -
  obtain data srct sidxs where st: "st = (data, srct, sidxs)" by (cases st) auto
  let ?s = "u_seq_id (ka_ubatch a) ! i ! 0"
  have len: "length data = u_n_tokens (ka_ubatch a)" "length (data ! i) = ka_n_kv a" "\<forall>row \<in> set data. length row = ka_n_kv a"
    and dn: "\<And>k. k < i \<Longrightarrow> data ! k = mask_row mm a k"
    and sr: "\<And>q r. srct q = Some r \<Longrightarrow> r < i \<and> u_seq_id (ka_ubatch a) ! r ! 0 = q \<and> sidxs q = filter (recorded a r) [0..<ka_n_kv a]"
    using I i by (auto simp: mask_inv_def st)
  have req: "0 \<le> ?s \<and> nat ?s < length (ka_seq_to_stream a) \<and> ka_seq_to_stream a ! nat ?s < length (ka_v_cells a)"
    using ok i by (auto simp: mask_args_ok_def Let_def seq_id_ok_def)
  have upd: "length (data[i := mask_row mm a i]) = u_n_tokens (ka_ubatch a)" "\<forall>row \<in> set (data[i := mask_row mm a i]). length row = ka_n_kv a"
    "\<And>k. k < Suc i \<Longrightarrow> data[i := mask_row mm a i] ! k = mask_row mm a k"
    using len i dn by (auto simp: nth_list_update less_Suc_eq dest!: subsetD[OF set_update_subset_insert])
  show ?thesis
  proof (cases "if mm_alibi mm then None else srct ?s")
    case None
    have "kq_token mm a i st = Some (data[i := mask_row mm a i], if mm_alibi mm then srct else srct(?s \<mapsto> i),
        sidxs(?s := (if mm_alibi mm then sidxs ?s else filter (recorded a i) [0..<ka_n_kv a])))"
      using None req fresh_row[OF ok i len(2), of "if mm_alibi mm then sidxs ?s else []"]
      by (simp add: kq_token_def st Let_def flip: token_cells_def split: if_splits)
    moreover have "mask_inv mm a (Suc i) (data[i := mask_row mm a i], if mm_alibi mm then srct else srct(?s \<mapsto> i),
        sidxs(?s := (if mm_alibi mm then sidxs ?s else filter (recorded a i) [0..<ka_n_kv a])))"
      unfolding mask_inv_def using upd sr dn by (auto simp: less_Suc_eq)
    ultimately show ?thesis by blast
  next
    case (Some r)
    then have al: "\<not> mm_alibi mm" and r: "srct ?s = Some r" by (auto split: if_splits)
    note rr = sr[OF r]
    have eq: "recorded a r = recorded a i" using rr by (auto simp: recorded_def token_cells_def fun_eq_iff)
    have "kq_token mm a i st = Some (data[i := mask_row mm a i], srct, sidxs)"
      using Some al r rr req dn[of r] update_row[OF ok i _ _ al, of r] i
      by (simp add: kq_token_def st Let_def eq flip: token_cells_def)
    moreover have "mask_inv mm a (Suc i) (data[i := mask_row mm a i], srct, sidxs)"
      unfolding mask_inv_def using upd sr by (auto simp: less_SucI)
    ultimately show ?thesis by blast
  qed
qed

lemma mask_impl_eq:
  assumes ok: "mask_args_ok mm a" and len: "length data = u_n_tokens (ka_ubatch a)" "\<forall>row \<in> set data. length row = ka_n_kv a"
  shows "set_input_kq_mask_impl mm a data = Some (map (mask_row mm a) [0..<u_n_tokens (ka_ubatch a)])"
proof -
  let ?N = "u_n_tokens (ka_ubatch a)" and ?t = "ka_n_tps a"
  let ?f = "\<lambda>s data. map_option fst (for_loop (\<lambda>ii. kq_token mm a (s * ?t + ii)) [0..<?t] (data, (\<lambda>_. None), (\<lambda>_. [])))"
  let ?I = "\<lambda>s data. mask_inv mm a (s * ?t) (data, (\<lambda>_. None), (\<lambda>_. []))"
  have N: "ka_n_stream a * ?t = ?N" using ok by (simp add: mask_args_ok_def)
  have "\<exists>d. for_loop ?f [0..<ka_n_stream a] data = Some d \<and> ?I (ka_n_stream a) d"
  proof (rule for_upt_rule[where I = ?I])
    show "?I 0 data" using len by (simp add: mask_inv_def)
    fix s d assume s: "s < ka_n_stream a" and I: "?I s d"
    have "\<exists>st. for_loop (\<lambda>ii. kq_token mm a (s * ?t + ii)) [0..<?t] (d, (\<lambda>_. None), (\<lambda>_. [])) = Some st \<and> mask_inv mm a (s * ?t + ?t) st"
    proof (rule for_upt_rule[where I = "\<lambda>ii. mask_inv mm a (s * ?t + ii)"])
      show "mask_inv mm a (s * ?t + 0) (d, (\<lambda>_. None), (\<lambda>_. []))" using I by simp
      fix ii st assume ii: "ii < ?t" and J: "mask_inv mm a (s * ?t + ii) st"
      have "s * ?t + ii < Suc s * ?t" using ii by simp
      also have "\<dots> \<le> ?N" unfolding N[symmetric] using s by (intro mult_right_mono) auto
      finally show "\<exists>st'. kq_token mm a (s * ?t + ii) st = Some st' \<and> mask_inv mm a (s * ?t + Suc ii) st'"
        using kq_token_inv[OF ok _ J] by simp
    qed
    then obtain st where st: "for_loop (\<lambda>ii. kq_token mm a (s * ?t + ii)) [0..<?t] (d, (\<lambda>_. None), (\<lambda>_. [])) = Some st"
      "mask_inv mm a (s * ?t + ?t) st" by blast
    have "?I (Suc s) (fst st)" using st(2) by (cases st) (auto simp: mask_inv_def add.commute)
    with st(1) show "\<exists>d'. ?f s d = Some d' \<and> ?I (Suc s) d'" by auto
  qed
  then obtain d where d: "for_loop ?f [0..<ka_n_stream a] data = Some d" "mask_inv mm a ?N (d, (\<lambda>_. None), (\<lambda>_. []))" by (auto simp: N)
  have "d = map (mask_row mm a) [0..<?N]" using d(2) by (intro nth_equalityI) (auto simp: mask_inv_def)
  with d(1) show ?thesis by (simp add: set_input_kq_mask_impl_def)
qed

text \<open>
  C19.  The attention mask of a ubatch, computed with the row-reuse optimisation for tokens of the same
  sequence, is the mask of every token on its own: entry \<open>j\<close> of the row of token \<open>i\<close> is minus infinity
  exactly when cell \<open>j\<close> is empty, does not belong to the first sequence of the token, lies in the future
  (causal attention, with the 2D order on equal positions) or is outside the sliding window, and is
  0 (or the ALiBi distance) otherwise.  No assertion fires.
\<close>

theorem kq_mask_correct:
  assumes "kv_ok sz kv" "swa_config_ok kv" "n_kv \<le> sz" "n_stream \<noteq> 0" "u_n_tokens u mod n_stream = 0"
    and "\<forall>i < u_n_tokens u. 0 \<le> u_pos u ! i \<and> kv_seq_ok kv (u_seq_id u ! i ! 0)"
    and "length data = u_n_tokens u" "\<forall>row \<in> set data. length row = n_kv"
  shows "set_input_kq_mask data n_kv n_stream u causal kv = Some (map (\<lambda>i. map (\<lambda>j.
      let v = view (kv_v_cells kv ! kv_stream kv (u_seq_id u ! i ! 0)) ! j; p1 = u_pos u ! i in
      if v_pos v = -1 \<or> u_seq_id u ! i ! 0 \<notin> v_seq v then None
      else if causal \<and> (v_pos v > p1 \<or> (is_pos_2d u \<and> v_pos v = p1 \<and>
        is_2d_gt (v_ext v) (u_pos u ! (i + u_n_tokens u * 2)) (u_pos u ! (i + u_n_tokens u)))) then None
      else if kv_swa_type kv \<noteq> LLAMA_SWA_TYPE_NONE \<and> is_masked_swa (kv_n_swa kv) (kv_swa_type kv) (v_pos v) p1 = Some True then None
      else Some (if hp_use_alibi (kv_hparams kv) then - \<bar>v_pos v - p1\<bar> else 0)) [0..<n_kv]) [0..<u_n_tokens u])"
proof -
  let ?mm = "\<lparr>mm_causal = causal, mm_swa = (kv_swa_type kv \<noteq> LLAMA_SWA_TYPE_NONE), mm_2d = is_pos_2d u, mm_alibi = hp_use_alibi (kv_hparams kv)\<rparr>"
  let ?a = "\<lparr>ka_hparams = kv_hparams kv, ka_ubatch = u, ka_v_cells = kv_v_cells kv, ka_seq_to_stream = kv_seq_to_stream kv,
    ka_n_swa = kv_n_swa kv, ka_swa_type = kv_swa_type kv, ka_n_kv = n_kv, ka_n_stream = n_stream, ka_n_tps = u_n_tokens u div n_stream\<rparr>"
  have st: "wf_cells (token_cells ?a i) \<and> cells_size (token_cells ?a i) = sz \<and> seq_id_ok (u_seq_id u ! i ! 0) \<and>
      kv_stream kv (u_seq_id u ! i ! 0) < length (kv_v_cells kv)" if "i < u_n_tokens u" for i
    using kv_ok_stream(1,2)[OF assms(1), of "u_seq_id u ! i ! 0"] kv_okD(2,3,4)[OF assms(1)] assms(6) that
    by (auto simp: token_cells_def kv_stream_def)
  have ok: "mask_args_ok ?mm ?a"
    using assms(2,3,4,5,6) st by (auto simp: mask_args_ok_def Let_def swa_config_ok_def kv_seq_ok_def kv_stream_def)
  have "set_input_kq_mask data n_kv n_stream u causal kv = Some (map (mask_row ?mm ?a) [0..<u_n_tokens u])"
    using mask_impl_eq[OF ok] assms(4,5,7,8) by (simp add: set_input_kq_mask_def)
  also have "map (mask_row ?mm ?a) [0..<u_n_tokens u] = map (\<lambda>i. map (\<lambda>j.
      let v = view (kv_v_cells kv ! kv_stream kv (u_seq_id u ! i ! 0)) ! j; p1 = u_pos u ! i in
      if v_pos v = -1 \<or> u_seq_id u ! i ! 0 \<notin> v_seq v then None
      else if causal \<and> (v_pos v > p1 \<or> (is_pos_2d u \<and> v_pos v = p1 \<and>
        is_2d_gt (v_ext v) (u_pos u ! (i + u_n_tokens u * 2)) (u_pos u ! (i + u_n_tokens u)))) then None
      else if kv_swa_type kv \<noteq> LLAMA_SWA_TYPE_NONE \<and> is_masked_swa (kv_n_swa kv) (kv_swa_type kv) (v_pos v) p1 = Some True then None
      else Some (if hp_use_alibi (kv_hparams kv) then - \<bar>v_pos v - p1\<bar> else 0)) [0..<n_kv]) [0..<u_n_tokens u]"
  proof (rule map_cong[OF refl])
    fix i assume "i \<in> set [0..<u_n_tokens u]"
    then have i: "i < u_n_tokens u" by simp
    have c: "token_cells ?a i = kv_v_cells kv ! kv_stream kv (u_seq_id u ! i ! 0)" by (simp add: token_cells_def kv_stream_def)
    have v: "view (kv_v_cells kv ! kv_stream kv (u_seq_id u ! i ! 0)) ! j = cell_at (token_cells ?a i) j" if "j < n_kv" for j
      using st[OF i] assms(3) that by (simp add: c cells_size_def)
    show "mask_row ?mm ?a i = map (\<lambda>j.
      let v = view (kv_v_cells kv ! kv_stream kv (u_seq_id u ! i ! 0)) ! j; p1 = u_pos u ! i in
      if v_pos v = -1 \<or> u_seq_id u ! i ! 0 \<notin> v_seq v then None
      else if causal \<and> (v_pos v > p1 \<or> (is_pos_2d u \<and> v_pos v = p1 \<and>
        is_2d_gt (v_ext v) (u_pos u ! (i + u_n_tokens u * 2)) (u_pos u ! (i + u_n_tokens u)))) then None
      else if kv_swa_type kv \<noteq> LLAMA_SWA_TYPE_NONE \<and> is_masked_swa (kv_n_swa kv) (kv_swa_type kv) (v_pos v) p1 = Some True then None
      else Some (if hp_use_alibi (kv_hparams kv) then - \<bar>v_pos v - p1\<bar> else 0)) [0..<n_kv]"
      unfolding mask_row_def by (rule map_cong) (auto simp: v mask_spec_def Let_def)
  qed
  finally show ?thesis .
qed

theorem kq_mask_correct_witness:
  "set_input_kq_mask [[None, None, None, None]] 4 1 demo_ubatch True demo_kv = Some [[Some 0, None, Some 0, None]]"
proof -
  have h: "hp_use_alibi demo_hparams = False" by (simp add: demo_hparams_def)
  have s: "kv_stream demo_kv 0 = 0" "kv_seq_ok demo_kv 0" using demo_kv_seqs[of 0] by auto
  have u: "u_n_tokens demo_ubatch = 1" "u_seq_id demo_ubatch ! 0 ! 0 = 0" "u_pos demo_ubatch ! 0 = 7" "\<not> is_pos_2d demo_ubatch"
    by (simp_all add: demo_ubatch_def is_pos_2d_def)
  show ?thesis
    using kq_mask_correct[OF demo_kv_facts(1) demo_swa, of 4 1 demo_ubatch "[[None, None, None, None]]" True]
    by (simp add: u s h demo_kv_facts numeral_eq_Suc)
qed

end
