(* ===== verification/Io.thy ===== *)
theory Io
  imports Prelude "HOL-Library.Word"
begin

text \<open>
  Byte streams: \<^verbatim>\<open>src/llama-io.cpp\<close>, the writers and readers of \<^verbatim>\<open>src/llama-context.cpp\<close>
  (\<^verbatim>\<open>llama_io_write_dummy\<close>, \<^verbatim>\<open>llama_io_write_buffer\<close>, \<^verbatim>\<open>llama_io_read_buffer\<close>) and the tensor accessors of
  \<^verbatim>\<open>ggml/src/ggml-backend.cpp\<close>.  Scalars are written as they lie in memory, on a little-endian machine.

  What is written is the list of chunks, one per call of \<^verbatim>\<open>write\<close>; the two writers are functions of it.
  A reader action takes a state and the rest of the input.  It ends in three ways: \<^term>\<open>Inr\<close> with a
  result, \<open>Thrown\<close> with a C++ exception and the state at that moment, or \<open>Aborted\<close>, a failed assertion.
\<close>

section \<open>Scalars\<close>

type_synonym byte = "8 word"

fun le_put :: "nat \<Rightarrow> nat \<Rightarrow> byte list" where
  "le_put 0 x = []"
| "le_put (Suc n) x = word_of_nat (x mod 256) # le_put n (x div 256)"

fun le_get :: "byte list \<Rightarrow> nat" where
  "le_get [] = 0"
| "le_get (b # bs) = unat b + 256 * le_get bs"

definition put_u32 :: "nat \<Rightarrow> byte list" where
  "put_u32 x = le_put 4 x"

definition put_u64 :: "nat \<Rightarrow> byte list" where
  "put_u64 x = le_put 8 x"

definition put_i32 :: "int \<Rightarrow> byte list" where
  "put_i32 x = le_put 4 (nat (x mod 2 ^ 32))"

definition i32_of :: "nat \<Rightarrow> int" where
  "i32_of x = (if x < 2 ^ 31 then int x else int x - 2 ^ 32)"

lemma length_le_put [simp]: "length (le_put n x) = n"
  by (induction n arbitrary: x) auto

lemma length_put [simp]: "length (put_u32 x) = 4" "length (put_u64 x) = 8" "length (put_i32 i) = 4"
  by (simp_all add: put_u32_def put_u64_def put_i32_def)

lemma unat_byte: "unat (word_of_nat (x mod 256) :: byte) = x mod 256"
  by (simp add: unat_of_nat)

lemma le_get_put: "x < 256 ^ n \<Longrightarrow> le_get (le_put n x) = x"
proof (induction n arbitrary: x)
  case (Suc n)
  then have "x div 256 < 256 ^ n" by (simp add: less_mult_imp_div_less mult.commute)
  with Suc.IH show ?case by (simp add: unat_byte)
qed simp

lemma le_get_scalars:
  "x < 2 ^ 32 \<Longrightarrow> le_get (put_u32 x) = x"
  "x < 2 ^ 64 \<Longrightarrow> le_get (put_u64 x) = x"
  "i32_ok i \<Longrightarrow> i32_of (le_get (put_i32 i)) = i"
proof -
  show "x < 2 ^ 32 \<Longrightarrow> le_get (put_u32 x) = x" "x < 2 ^ 64 \<Longrightarrow> le_get (put_u64 x) = x"
    by (simp_all add: put_u32_def put_u64_def le_get_put)
  assume i: "i32_ok i"
  have "nat (i mod 2 ^ 32) < 256 ^ 4" using pos_mod_bound[of "2 ^ 32" i] by simp
  then have "le_get (put_i32 i) = nat (i mod 2 ^ 32)" by (simp add: put_i32_def le_get_put)
  moreover have "i mod 2 ^ 32 = (if 0 \<le> i then i else i + 2 ^ 32)"
  proof (cases "0 \<le> i")
    case False
    have "i mod 2 ^ 32 = (i + 2 ^ 32) mod 2 ^ 32" by simp
    also have "\<dots> = i + 2 ^ 32" using False i by (intro mod_pos_pos_trivial) (auto simp: i32_ok_def)
    finally show ?thesis using False by simp
  qed (use i in \<open>simp add: i32_ok_def\<close>)
  ultimately show "i32_of (le_get (put_i32 i)) = i" using i by (auto simp: i32_of_def i32_ok_def)
qed

section \<open>Writers\<close>

datatype io_exn = End_of_buffer | N_stream_mismatch | Failed_restore | Wrong_arch

text \<open>\<^verbatim>\<open>llama_io_write_dummy\<close> counts, \<^verbatim>\<open>llama_io_write_buffer\<close> copies into a buffer of bounded size.\<close>

definition write_dummy :: "byte list list \<Rightarrow> nat" where
  "write_dummy chunks = fold (\<lambda>src size_written. size_written + length src) chunks 0"

fun write_buffer :: "byte list list \<Rightarrow> nat \<Rightarrow> byte list \<Rightarrow> io_exn + byte list" where
  "write_buffer [] buf_size written = Inr written"
| "write_buffer (src # chunks) buf_size written =
     (if length src > buf_size then Inl End_of_buffer
      else write_buffer chunks (buf_size - length src) (written @ src))"

definition write_string :: "byte list \<Rightarrow> byte list list" where
  "write_string str = [put_u32 (length str), str]"

lemma fold_add_length: "fold (\<lambda>c n. n + length c) cs k = k + length (concat cs)"
  by (induction cs arbitrary: k) auto

lemma write_dummy_eq: "write_dummy cs = length (concat cs)"
  by (simp add: write_dummy_def fold_add_length)

lemma write_buffer_eq:
  "write_buffer cs n w = (if length (concat cs) \<le> n then Inr (w @ concat cs) else Inl End_of_buffer)"
  by (induction cs arbitrary: n w) auto

section \<open>Reader actions\<close>

datatype 's fault = Aborted | Thrown io_exn 's

type_synonym ('s, 'a) io = "'s \<times> byte list \<Rightarrow> 's fault + ('a \<times> 's \<times> byte list)"

definition io_return :: "'a \<Rightarrow> ('s, 'a) io" where
  "io_return x = (\<lambda>(s, bs). Inr (x, s, bs))"

definition io_bind :: "('s, 'a) io \<Rightarrow> ('a \<Rightarrow> ('s, 'b) io) \<Rightarrow> ('s, 'b) io" where
  "io_bind a f = (\<lambda>st. case a st of Inl e \<Rightarrow> Inl e | Inr (x, st') \<Rightarrow> f x st')"

definition io_throw :: "io_exn \<Rightarrow> ('s, 'a) io" where
  "io_throw e = (\<lambda>(s, bs). Inl (Thrown e s))"

definition io_get :: "('s, 's) io" where
  "io_get = (\<lambda>(s, bs). Inr (s, s, bs))"

text \<open>A computation on the state that may fail an assertion.\<close>

definition io_run :: "('s \<Rightarrow> ('a \<times> 's) option) \<Rightarrow> ('s, 'a) io" where
  "io_run f = (\<lambda>(s, bs). case f s of None \<Rightarrow> Inl Aborted | Some (x, s') \<Rightarrow> Inr (x, s', bs))"

definition io_opt :: "'a option \<Rightarrow> ('s, 'a) io" where
  "io_opt r = io_run (\<lambda>s. map_option (\<lambda>x. (x, s)) r)"

definition io_read :: "nat \<Rightarrow> ('s, byte list) io" where
  "io_read n = (\<lambda>(s, bs). if n > length bs then Inl (Thrown End_of_buffer s) else Inr (take n bs, s, drop n bs))"

definition io_u32 :: "('s, nat) io" where
  "io_u32 = io_bind (io_read 4) (\<lambda>b. io_return (le_get b))"

definition io_u64 :: "('s, nat) io" where
  "io_u64 = io_bind (io_read 8) (\<lambda>b. io_return (le_get b))"

definition io_i32 :: "('s, int) io" where
  "io_i32 = io_bind (io_read 4) (\<lambda>b. io_return (i32_of (le_get b)))"

definition read_string :: "('s, byte list) io" where
  "read_string = io_bind io_u32 io_read"

text \<open>A loop whose body can leave the enclosing function by \<^verbatim>\<open>return false\<close>.\<close>

fun io_for :: "('a \<Rightarrow> ('s, bool) io) \<Rightarrow> 'a list \<Rightarrow> ('s, bool) io" where
  "io_for f [] = io_return True"
| "io_for f (x # xs) = io_bind (f x) (\<lambda>ok. if ok then io_for f xs else io_return False)"

named_theorems io_simps \<open>running reader actions\<close>

lemma io_return_run [io_simps]: "io_return x (s, bs) = Inr (x, s, bs)"
  by (simp add: io_return_def)

lemma io_get_run [io_simps]: "io_get (s, bs) = Inr (s, s, bs)"
  by (simp add: io_get_def)

lemma io_throw_run [io_simps]: "io_throw e (s, bs) = Inl (Thrown e s)"
  by (simp add: io_throw_def)

lemma io_bind_Inr [io_simps]: "a st = Inr (x, s, bs) \<Longrightarrow> io_bind a f st = f x (s, bs)"
  by (simp add: io_bind_def)

lemma io_bind_Inl [io_simps]: "a st = Inl e \<Longrightarrow> io_bind a f st = Inl e"
  by (simp add: io_bind_def)

lemma io_bind_assoc: "io_bind (io_bind a f) g = io_bind a (\<lambda>x. io_bind (f x) g)"
  by (auto simp: io_bind_def fun_eq_iff split: sum.splits)

lemma io_run_Some [io_simps]: "f s = Some (x, s') \<Longrightarrow> io_run f (s, bs) = Inr (x, s', bs)"
  by (simp add: io_run_def)

lemma io_opt_Some [io_simps]: "io_opt (Some x) (s, bs) = Inr (x, s, bs)"
  by (simp add: io_opt_def io_run_def)

lemma io_read_run [io_simps]: "length b = n \<Longrightarrow> io_read n (s, b @ bs) = Inr (b, s, bs)"
  by (auto simp: io_read_def)

lemma io_read_short [io_simps]: "length bs < n \<Longrightarrow> io_read n (s, bs) = Inl (Thrown End_of_buffer s)"
  by (simp add: io_read_def)

text \<open>
  A codec: a reader that undoes a writer on its valid values and reports the end of the buffer on
  every proper prefix.
\<close>

locale codec =
  fixes put :: "'a \<Rightarrow> byte list" and get :: "('s, 'a) io" and valid :: "'a \<Rightarrow> bool"
  assumes get_put: "valid x \<Longrightarrow> get (s, put x @ bs) = Inr (x, s, bs)"
    and get_prefix: "valid x \<Longrightarrow> n < length (put x) \<Longrightarrow> get (s, take n (put x)) = Inl (Thrown End_of_buffer s)"
begin

lemma bind_put: "valid x \<Longrightarrow> io_bind get f (s, put x @ bs) = f x (s, bs)"
  by (simp add: io_bind_def get_put)

lemma bind_prefix: "valid x \<Longrightarrow> n < length (put x) \<Longrightarrow> io_bind get f (s, take n (put x)) = Inl (Thrown End_of_buffer s)"
  by (simp add: io_bind_def get_prefix)

text \<open>An unfinished record: the bytes end inside \<open>put x\<close>.\<close>

lemma bind_cut:
  assumes "valid x" "n < length (put x @ bs)"
  shows "io_bind get f (s, take n (put x @ bs)) =
    (if n < length (put x) then Inl (Thrown End_of_buffer s) else f x (s, take (n - length (put x)) bs))"
  using assms bind_prefix[of x n f s] bind_put[of x f s "take (n - length (put x)) bs"] by (auto simp: not_less)

end

interpretation u32: codec put_u32 io_u32 "\<lambda>x. x < 2 ^ 32"
  by unfold_locales (simp_all add: io_u32_def io_simps le_get_scalars)

interpretation u64: codec put_u64 io_u64 "\<lambda>x. x < 2 ^ 64"
  by unfold_locales (simp_all add: io_u64_def io_simps le_get_scalars)

interpretation i32: codec put_i32 io_i32 i32_ok
  by unfold_locales (simp_all add: io_i32_def io_simps le_get_scalars)

interpretation str: codec "\<lambda>b. concat (write_string b)" read_string "\<lambda>b. length b < 2 ^ 32"
proof
  fix x :: "byte list" and s :: 's and bs n
  assume x: "length x < 2 ^ 32"
  show "read_string (s, concat (write_string x) @ bs) = Inr (x, s, bs)"
    using x by (simp add: read_string_def write_string_def u32.bind_put io_simps)
  assume "n < length (concat (write_string x))"
  then show "read_string (s, take n (concat (write_string x))) = Inl (Thrown End_of_buffer s)"
    using x u32.bind_cut[of "length x" n x io_read s] by (auto simp: read_string_def write_string_def io_simps)
qed

section \<open>Tensors\<close>

text \<open>A tensor is the bytes of its buffer.\<close>

definition tensor_set :: "nat \<Rightarrow> byte list \<Rightarrow> byte list \<Rightarrow> byte list option" where
  "tensor_set offset data t =
     (if data = [] then Some t
      else do {
        require (offset + length data \<le> length t);
        Some (take offset t @ data @ drop (offset + length data) t)
      })"

definition tensor_get :: "nat \<Rightarrow> nat \<Rightarrow> byte list \<Rightarrow> byte list option" where
  "tensor_get offset n t =
     (if n = 0 then Some []
      else do {
        require (offset + n \<le> length t);
        Some (take n (drop offset t))
      })"

end
