(* ===== verification/Kv_State.thy ===== *)
theory Kv_State
  imports Io Kv_Cache
begin

text \<open>
  Saving and restoring the KV cache: \<^verbatim>\<open>state_write\<close> and \<^verbatim>\<open>state_read\<close> of \<^verbatim>\<open>src/llama-kv-cache.cpp\<close>, and the
  \<^verbatim>\<open>state_seq_*\<close> entry points of \<^verbatim>\<open>src/llama-context.cpp\<close>.  The state \<open>kv_mem\<close> is the cache together with the
  bytes of the K and V tensors of its layers; \<open>tt\<close> is the table \<^verbatim>\<open>type_traits\<close> of ggml, a function from
  tensor types to type size and block size.
\<close>

section \<open>Layers\<close>

record ggml_type_traits =
  tt_blck_size :: nat
  tt_type_size :: nat

type_synonym traits = "int \<Rightarrow> ggml_type_traits"

definition ggml_blck_size :: "traits \<Rightarrow> int \<Rightarrow> nat" where
  "ggml_blck_size tt t = tt_blck_size (tt t)"

definition ggml_type_size :: "traits \<Rightarrow> int \<Rightarrow> nat" where
  "ggml_type_size tt t = tt_type_size (tt t)"

definition ggml_row_size :: "traits \<Rightarrow> int \<Rightarrow> nat \<Rightarrow> nat option" where
  "ggml_row_size tt t ne = do {
     require (ggml_blck_size tt t \<noteq> 0 \<and> ne mod ggml_blck_size tt t = 0);
     Some (ggml_type_size tt t * ne div ggml_blck_size tt t)
   }"

record kv_layer =
  kl_il :: nat
  kl_k_type :: int
  kl_v_type :: int
  kl_k_stream :: "byte list list"
  kl_v_stream :: "byte list list option"

record kv_mem =
  m_kv :: llama_kv_cache
  m_layers :: "kv_layer list"

definition layer_clear :: "kv_layer \<Rightarrow> kv_layer" where
  "layer_clear l = l\<lparr>kl_k_stream := map (map (\<lambda>_. 0)) (kl_k_stream l),
     kl_v_stream := map_option (map (map (\<lambda>_. 0))) (kl_v_stream l)\<rparr>"

definition mem_clear :: "kv_mem \<Rightarrow> kv_mem" where
  "mem_clear m = m\<lparr>m_kv := kv_clear True (m_kv m), m_layers := map layer_clear (m_layers m)\<rparr>"

text \<open>The row size of the keys and of the values of a layer.\<close>

definition k_size_row :: "traits \<Rightarrow> kv_mem \<Rightarrow> kv_layer \<Rightarrow> nat option" where
  "k_size_row tt m l = do {
     n \<leftarrow> n_embd_k_gqa (kv_hparams (m_kv m)) (kl_il l);
     ggml_row_size tt (kl_k_type l) (unat n)
   }"

definition v_size_row :: "traits \<Rightarrow> kv_mem \<Rightarrow> kv_layer \<Rightarrow> nat option" where
  "v_size_row tt m l = do {
     n \<leftarrow> n_embd_v_gqa (kv_hparams (m_kv m)) (kl_il l);
     ggml_row_size tt (kl_v_type l) (unat n)
   }"

definition v_n_embd :: "kv_mem \<Rightarrow> kv_layer \<Rightarrow> nat option" where
  "v_n_embd m l = map_option unat (n_embd_v_gqa (kv_hparams (m_kv m)) (kl_il l))"

section \<open>Writing\<close>

definition saved_cell :: "llama_seq_id \<Rightarrow> llama_kv_cells \<Rightarrow> nat \<Rightarrow> bool option" where
  "saved_cell seq_id cells i = do {
     e \<leftarrow> cells_is_empty i cells;
     if e then Some False
     else if seq_id = -1 then Some True
     else cells_seq_has i seq_id cells
   }"

text \<open>One step of the scan that collects the ranges, on the state \<^verbatim>\<open>(cell_count, cell_range_begin, cr.data)\<close>.\<close>

definition range_step :: "llama_seq_id \<Rightarrow> llama_kv_cells \<Rightarrow> nat \<Rightarrow> nat \<times> nat \<times> (nat \<times> nat) list \<Rightarrow> (nat \<times> nat \<times> (nat \<times> nat) list) option" where
  "range_step seq_id cells i = (\<lambda>(cell_count, range_begin, data). do {
     b \<leftarrow> saved_cell seq_id cells i;
     if b then Some (cell_count + 1, if range_begin = cells_size cells then i else range_begin, data)
     else if range_begin \<noteq> cells_size cells then Some (cell_count, cells_size cells, data @ [(range_begin, i)])
     else Some (cell_count, range_begin, data)
   })"

definition cell_ranges :: "llama_seq_id \<Rightarrow> llama_kv_cells \<Rightarrow> (nat \<times> (nat \<times> nat) list) option" where
  "cell_ranges seq_id cells = do {
     (cell_count, range_begin, data) \<leftarrow> for_loop (range_step seq_id cells) [0..<cells_size cells] (0, cells_size cells, []);
     let data = (if range_begin \<noteq> cells_size cells then data @ [(range_begin, cells_size cells)] else data);
     require (cell_count = sum_list (map (\<lambda>r. snd r - fst r) data));
     Some (cell_count, data)
   }"

definition write_cell :: "kv_mem \<Rightarrow> llama_seq_id \<Rightarrow> llama_kv_cells \<Rightarrow> nat \<Rightarrow> byte list list option" where
  "write_cell m seq_id cells i = do {
     seq_ids \<leftarrow> for_loop (\<lambda>cur ids.
         if int cur = seq_id \<or> seq_id = -1 then do {
           has \<leftarrow> cells_seq_has i (int cur) cells;
           Some (if has then ids @ [int cur] else ids)
         } else Some ids) [0..<kv_n_seq_max (m_kv m)] [];
     pos \<leftarrow> cells_pos_get i cells;
     Some ([put_i32 pos, put_u32 (length seq_ids)] @ map put_i32 seq_ids)
   }"

definition in_ranges :: "(nat \<Rightarrow> 'a option) \<Rightarrow> (nat \<times> nat) list \<Rightarrow> 'a list option" where
  "in_ranges f data = map_option concat (those (map (\<lambda>r. those (map f [fst r..<snd r])) data))"

definition state_write_meta :: "nat \<Rightarrow> (nat \<times> nat) list \<Rightarrow> llama_seq_id \<Rightarrow> kv_mem \<Rightarrow> byte list list option" where
  "state_write_meta strm data seq_id m = map_option concat (in_ranges (write_cell m seq_id (kv_v_cells (m_kv m) ! strm)) data)"

text \<open>The ranges of a tensor whose rows have \<open>row\<close> bytes, where \<open>off i\<close> is the offset of row \<open>i\<close> in bytes.\<close>

definition write_rows :: "(nat \<Rightarrow> nat) \<Rightarrow> nat \<Rightarrow> (nat \<times> nat) list \<Rightarrow> byte list \<Rightarrow> byte list list option" where
  "write_rows off row data t = those (map (\<lambda>r. tensor_get (off (fst r)) ((snd r - fst r) * row) t) data)"

definition write_k_layer :: "traits \<Rightarrow> nat \<Rightarrow> (nat \<times> nat) list \<Rightarrow> kv_mem \<Rightarrow> kv_layer \<Rightarrow> byte list list option" where
  "write_k_layer tt strm data m l = do {
     row \<leftarrow> k_size_row tt m l;
     rows \<leftarrow> write_rows (\<lambda>i. i * row) row data (kl_k_stream l ! strm);
     Some ([put_i32 (kl_k_type l), put_u64 row] @ rows)
   }"

definition write_v_layer :: "traits \<Rightarrow> nat \<Rightarrow> (nat \<times> nat) list \<Rightarrow> kv_mem \<Rightarrow> kv_layer \<Rightarrow> byte list list option" where
  "write_v_layer tt strm data m l = (case kl_v_stream l of None \<Rightarrow> Some [] | Some vs \<Rightarrow> do {
     row \<leftarrow> v_size_row tt m l;
     rows \<leftarrow> write_rows (\<lambda>i. i * row) row data (vs ! strm);
     Some ([put_i32 (kl_v_type l), put_u64 row] @ rows)
   })"

text \<open>
  The offset into a transposed V tensor is a 32-bit product, which wraps from 4 GiB on.  The reader below
  wraps only the row number: it multiplies with the element size as a \<^verbatim>\<open>size_t\<close>.
\<close>

definition write_vt_layer :: "traits \<Rightarrow> nat \<Rightarrow> (nat \<times> nat) list \<Rightarrow> kv_mem \<Rightarrow> kv_layer \<Rightarrow> byte list list option" where
  "write_vt_layer tt strm data m l = (case kl_v_stream l of None \<Rightarrow> Some [] | Some vs \<Rightarrow> do {
     n_embd \<leftarrow> v_n_embd m l;
     let el = ggml_type_size tt (kl_v_type l);
     let kv_size = cells_size (kv_v_cells (m_kv m) ! strm);
     rows \<leftarrow> those (map (\<lambda>j. write_rows (\<lambda>i. to_u32 ((i + j * kv_size) * el)) el data (vs ! strm)) [0..<n_embd]);
     Some ([put_i32 (kl_v_type l), put_u32 el, put_u32 n_embd] @ concat rows)
   })"

definition state_write_data :: "traits \<Rightarrow> nat \<Rightarrow> (nat \<times> nat) list \<Rightarrow> kv_mem \<Rightarrow> byte list list option" where
  "state_write_data tt strm data m = do {
     let v_trans = kv_v_trans (m_kv m);
     ks \<leftarrow> those (map (write_k_layer tt strm data m) (m_layers m));
     vs \<leftarrow> those (map (if v_trans then write_vt_layer tt strm data m else write_v_layer tt strm data m) (m_layers m));
     Some ([put_u32 (if v_trans then 1 else 0), put_u32 (length (m_layers m))] @ concat ks @ concat vs)
   }"

definition write_stream :: "traits \<Rightarrow> llama_seq_id \<Rightarrow> kv_mem \<Rightarrow> nat \<Rightarrow> byte list list option" where
  "write_stream tt seq_id m s = do {
     (cell_count, data) \<leftarrow> cell_ranges seq_id (kv_v_cells (m_kv m) ! s);
     if cell_count = 0 then Some [put_u32 cell_count]
     else do {
       meta \<leftarrow> state_write_meta s data seq_id m;
       rows \<leftarrow> state_write_data tt s data m;
       Some ([put_u32 cell_count] @ meta @ rows)
     }
   }"

definition state_write :: "traits \<Rightarrow> llama_seq_id \<Rightarrow> kv_mem \<Rightarrow> byte list list option" where
  "state_write tt seq_id m = do {
     ss \<leftarrow> those (map (write_stream tt seq_id m) [0..<kv_n_stream (m_kv m)]);
     Some (put_u32 (kv_n_stream (m_kv m)) # concat ss)
   }"

section \<open>Reading\<close>

definition io_kv :: "(llama_kv_cache \<Rightarrow> llama_kv_cache option) \<Rightarrow> (kv_mem, unit) io" where
  "io_kv f = io_run (\<lambda>m. map_option (\<lambda>kv. ((), m\<lparr>m_kv := kv\<rparr>)) (f (m_kv m)))"

definition io_cells :: "nat \<Rightarrow> (llama_kv_cells \<Rightarrow> llama_kv_cells option) \<Rightarrow> (kv_mem, unit) io" where
  "io_cells strm f = io_kv (\<lambda>kv. map_option (\<lambda>c. kv\<lparr>kv_v_cells := (kv_v_cells kv)[strm := c]\<rparr>) (f (kv_v_cells kv ! strm)))"

text \<open>The cells of one sequence: their positions, or \<^verbatim>\<open>return false\<close> (\<^term>\<open>None\<close>) on a cell with other sequences.\<close>

fun read_positions :: "nat \<Rightarrow> llama_pos list \<Rightarrow> (kv_mem, llama_pos list option) io" where
  "read_positions 0 ps = io_return (Some ps)"
| "read_positions (Suc n) ps =
     io_bind io_i32 (\<lambda>pos. io_bind io_u32 (\<lambda>n_seq_id.
       if n_seq_id \<noteq> 1 then io_return None
       else io_bind io_i32 (\<lambda>_. read_positions n (ps @ [pos]))))"

definition restore_ubatch :: "llama_kv_cache \<Rightarrow> llama_seq_id \<Rightarrow> llama_pos list \<Rightarrow> llama_ubatch" where
  "restore_ubatch kv dest ps =
     (let u = snd (ubatch_reserve (length ps) 1 (allocr_new (n_pos_per_embd (kv_hparams kv))))
      in u\<lparr>u_seq_id_unq := (u_seq_id_unq u)[0 := dest], u_pos := ps,
           u_n_seq_id := replicate (length ps) 1, u_seq_id := replicate (length ps) [dest]\<rparr>)"

definition check_restored :: "nat \<Rightarrow> slot_info \<Rightarrow> llama_ubatch \<Rightarrow> llama_seq_id \<Rightarrow> llama_kv_cache \<Rightarrow> unit option" where
  "check_restored strm sinfo u dest kv = do {
     require (slot_n_stream sinfo = 1);
     require (length (si_idxs sinfo ! 0) = u_n_tokens u);
     let cells = kv_v_cells kv ! strm;
     for_loop (\<lambda>i _. do {
         p \<leftarrow> cells_pos_get (si_idxs sinfo ! 0 ! i) cells;
         require (p = u_pos u ! i);
         has \<leftarrow> cells_seq_has (si_idxs sinfo ! 0 ! i) dest cells;
         require has
       }) [0..<u_n_tokens u] ()
   }"

text \<open>\<^verbatim>\<open>state_read_meta\<close>: the slot the cells went to; \<^term>\<open>None\<close> as result is \<^verbatim>\<open>return false\<close>.\<close>

definition read_meta_seq :: "nat \<Rightarrow> nat \<Rightarrow> llama_seq_id \<Rightarrow> (kv_mem, slot_info option) io" where
  "read_meta_seq strm cell_count dest =
     io_bind (io_kv (\<lambda>kv. map_option fst (kv_seq_rm dest (-1) (-1) kv))) (\<lambda>_.
     io_bind (read_positions cell_count []) (\<lambda>r. case r of
       None \<Rightarrow> io_return None
     | Some ps \<Rightarrow>
         io_bind io_get (\<lambda>m. let u = restore_ubatch (m_kv m) dest ps in
         io_bind (io_opt (find_slot u False (m_kv m))) (\<lambda>sinfo.
           if slot_is_empty sinfo then io_return None
           else
             io_bind (io_kv (apply_ubatch sinfo u)) (\<lambda>_.
             io_bind (io_kv (\<lambda>kv. map_option (\<lambda>_. kv) (check_restored strm sinfo u dest kv))) (\<lambda>_.
             io_return (Some sinfo)))))))"

definition read_cell :: "nat \<Rightarrow> nat \<Rightarrow> (kv_mem, bool) io" where
  "read_cell strm i =
     io_bind io_i32 (\<lambda>pos. io_bind io_u32 (\<lambda>n_seq_id.
     io_bind (io_cells strm (cells_pos_set i pos)) (\<lambda>_.
     io_for (\<lambda>j. io_bind io_i32 (\<lambda>seq_id. io_bind io_get (\<lambda>m.
       if seq_id < 0 \<or> nat seq_id \<ge> kv_n_seq_max (m_kv m) then io_return False
       else io_bind (io_cells strm (cells_seq_add i seq_id)) (\<lambda>_. io_return True)))) [0..<n_seq_id])))"

definition read_meta_all :: "nat \<Rightarrow> nat \<Rightarrow> (kv_mem, slot_info option) io" where
  "read_meta_all strm cell_count =
     io_bind io_get (\<lambda>m.
       if cell_count > cells_size (kv_v_cells (m_kv m) ! strm) then io_return None
       else
         io_bind (io_run (\<lambda>m. Some ((), mem_clear m))) (\<lambda>_.
         io_bind (io_for (read_cell strm) [0..<cell_count]) (\<lambda>ok.
           if \<not> ok then io_return None
           else
             io_bind (io_kv (\<lambda>kv. Some (kv\<lparr>kv_v_heads := (kv_v_heads kv)[strm := 0]\<rparr>))) (\<lambda>_.
             io_return (Some \<lparr>si_s0 = strm, si_s1 = strm, si_strm = [strm], si_idxs = [[0..<cell_count]]\<rparr>)))))"

definition state_read_meta :: "nat \<Rightarrow> nat \<Rightarrow> llama_seq_id \<Rightarrow> (kv_mem, slot_info option) io" where
  "state_read_meta strm cell_count dest =
     (if dest \<noteq> -1 then read_meta_seq strm cell_count dest else read_meta_all strm cell_count)"

text \<open>Storing \<open>cell_count\<close> rows: at once when the slot is contiguous, else row by row.\<close>

definition store_rows :: "(nat \<Rightarrow> nat) \<Rightarrow> nat \<Rightarrow> nat \<Rightarrow> slot_info \<Rightarrow> byte list \<Rightarrow> byte list \<Rightarrow> byte list option" where
  "store_rows off row cell_count sinfo src t =
     (if slot_is_contiguous sinfo then do {
        h \<leftarrow> slot_head sinfo;
        tensor_set (off h) src t
      }
      else for_loop (\<lambda>i. tensor_set (off (si_idxs sinfo ! 0 ! i)) (take row (drop (i * row) src))) [0..<cell_count] t)"

definition layer_set_k :: "nat \<Rightarrow> nat \<Rightarrow> (byte list \<Rightarrow> byte list option) \<Rightarrow> (kv_mem, unit) io" where
  "layer_set_k strm l f = io_run (\<lambda>m. let la = m_layers m ! l in
     map_option (\<lambda>t. ((), m\<lparr>m_layers := (m_layers m)[l := la\<lparr>kl_k_stream := (kl_k_stream la)[strm := t]\<rparr>]\<rparr>)) (f (kl_k_stream la ! strm)))"

definition layer_set_v :: "nat \<Rightarrow> nat \<Rightarrow> (byte list \<Rightarrow> byte list option) \<Rightarrow> (kv_mem, unit) io" where
  "layer_set_v strm l f = io_run (\<lambda>m. let la = m_layers m ! l; vs = the (kl_v_stream la) in
     map_option (\<lambda>t. ((), m\<lparr>m_layers := (m_layers m)[l := la\<lparr>kl_v_stream := Some (vs[strm := t])\<rparr>]\<rparr>)) (f (vs ! strm)))"

definition read_k_layer :: "traits \<Rightarrow> nat \<Rightarrow> nat \<Rightarrow> slot_info \<Rightarrow> nat \<Rightarrow> (kv_mem, bool) io" where
  "read_k_layer tt strm cell_count sinfo l =
     io_bind io_get (\<lambda>m. let la = m_layers m ! l in
     io_bind io_i32 (\<lambda>k_type_ref. if kl_k_type la \<noteq> k_type_ref then io_return False else
     io_bind io_u64 (\<lambda>row_ref. io_bind (io_opt (k_size_row tt m la)) (\<lambda>row. if row \<noteq> row_ref then io_return False else
     if cell_count = 0 then io_return True else
     io_bind (io_read (cell_count * row)) (\<lambda>src.
     io_bind (layer_set_k strm l (store_rows (\<lambda>i. i * row) row cell_count sinfo src)) (\<lambda>_. io_return True))))))"

definition read_v_layer :: "traits \<Rightarrow> nat \<Rightarrow> nat \<Rightarrow> slot_info \<Rightarrow> nat \<Rightarrow> (kv_mem, bool) io" where
  "read_v_layer tt strm cell_count sinfo l =
     io_bind io_get (\<lambda>m. let la = m_layers m ! l in
     if kl_v_stream la = None then io_return True else
     io_bind io_i32 (\<lambda>v_type_ref. if kl_v_type la \<noteq> v_type_ref then io_return False else
     io_bind io_u64 (\<lambda>row_ref. io_bind (io_opt (v_size_row tt m la)) (\<lambda>row. if row \<noteq> row_ref then io_return False else
     if cell_count = 0 then io_return True else
     io_bind (io_read (cell_count * row)) (\<lambda>src.
     io_bind (layer_set_v strm l (store_rows (\<lambda>i. i * row) row cell_count sinfo src)) (\<lambda>_. io_return True))))))"

definition read_vt_layer :: "traits \<Rightarrow> nat \<Rightarrow> nat \<Rightarrow> slot_info \<Rightarrow> nat \<Rightarrow> (kv_mem, bool) io" where
  "read_vt_layer tt strm cell_count sinfo l =
     io_bind io_get (\<lambda>m. let la = m_layers m ! l; kv_size = cells_size (kv_v_cells (m_kv m) ! strm) in
     if kl_v_stream la = None then io_return True else
     io_bind io_i32 (\<lambda>v_type_ref. if kl_v_type la \<noteq> v_type_ref then io_return False else
     io_bind io_u32 (\<lambda>el_ref. let el = ggml_type_size tt (kl_v_type la) in if el \<noteq> el_ref then io_return False else
     io_bind io_u32 (\<lambda>n_ref. io_bind (io_opt (v_n_embd m la)) (\<lambda>n_embd. if n_embd \<noteq> n_ref then io_return False else
     if cell_count = 0 then io_return True else
     io_for (\<lambda>j. io_bind (io_read (cell_count * el)) (\<lambda>src.
       io_bind (layer_set_v strm l (store_rows (\<lambda>i. to_u32 (i + j * kv_size) * el) el cell_count sinfo src)) (\<lambda>_. io_return True))) [0..<n_embd])))))"

definition state_read_data :: "traits \<Rightarrow> nat \<Rightarrow> nat \<Rightarrow> slot_info \<Rightarrow> (kv_mem, bool) io" where
  "state_read_data tt strm cell_count sinfo =
     io_bind io_u32 (\<lambda>v_trans. io_bind io_u32 (\<lambda>n_layer. io_bind io_get (\<lambda>m.
       if n_layer \<noteq> length (m_layers m) then io_return False
       else if cell_count > cells_size (kv_v_cells (m_kv m) ! strm) then io_return False
       else if kv_v_trans (m_kv m) \<noteq> (v_trans \<noteq> 0) then io_return False
       else
         io_bind (io_for (read_k_layer tt strm cell_count sinfo) [0..<length (m_layers m)]) (\<lambda>ok.
           if \<not> ok then io_return False
           else if kv_v_trans (m_kv m) then io_for (read_vt_layer tt strm cell_count sinfo) [0..<length (m_layers m)]
           else io_for (read_v_layer tt strm cell_count sinfo) [0..<length (m_layers m)]))))"

definition read_stream :: "traits \<Rightarrow> llama_seq_id \<Rightarrow> nat \<Rightarrow> (kv_mem, bool) io" where
  "read_stream tt seq_id s =
     io_bind io_u32 (\<lambda>cell_count.
       if cell_count = 0 then io_return True
       else io_bind io_get (\<lambda>m. let strm = (if seq_id = -1 then s else kv_stream (m_kv m) seq_id) in
         io_bind (state_read_meta strm cell_count seq_id) (\<lambda>r.
         io_bind (case r of None \<Rightarrow> io_return False | Some sinfo \<Rightarrow> state_read_data tt strm cell_count sinfo) (\<lambda>res.
           if res then io_return True
           else io_bind
             (if seq_id = -1 then io_run (\<lambda>m. Some ((), mem_clear m))
              else io_kv (\<lambda>kv. map_option fst (kv_seq_rm seq_id (-1) (-1) kv)))
             (\<lambda>_. io_throw Failed_restore)))))"

definition state_read :: "traits \<Rightarrow> llama_seq_id \<Rightarrow> (kv_mem, bool) io" where
  "state_read tt seq_id =
     io_bind io_get (\<lambda>m.
     io_bind (io_opt (require (seq_id = -1 \<or> kv_seq_ok (m_kv m) seq_id))) (\<lambda>_.
     io_bind io_u32 (\<lambda>n_stream_cur.
       if n_stream_cur \<noteq> kv_n_stream (m_kv m) then io_throw N_stream_mismatch
       else io_for (read_stream tt seq_id) [0..<kv_n_stream (m_kv m)])))"

section \<open>Entry points\<close>

text \<open>
  \<^verbatim>\<open>state_seq_get_size\<close>, \<^verbatim>\<open>state_seq_get_data\<close> and \<^verbatim>\<open>state_seq_set_data\<close> catch exceptions and return 0 for
  them.  The outer \<^term>\<open>None\<close> is a failed assertion.
\<close>

definition state_seq_get_size :: "traits \<Rightarrow> llama_seq_id \<Rightarrow> kv_mem \<Rightarrow> nat option" where
  "state_seq_get_size tt seq_id m = map_option write_dummy (state_write tt seq_id m)"

definition state_seq_get_data :: "traits \<Rightarrow> llama_seq_id \<Rightarrow> nat \<Rightarrow> kv_mem \<Rightarrow> (nat \<times> byte list) option" where
  "state_seq_get_data tt seq_id buf_size m = map_option (\<lambda>chunks.
     case write_buffer chunks buf_size [] of Inl _ \<Rightarrow> (0, []) | Inr w \<Rightarrow> (length w, w)) (state_write tt seq_id m)"

definition state_seq_set_data :: "traits \<Rightarrow> llama_seq_id \<Rightarrow> byte list \<Rightarrow> kv_mem \<Rightarrow> (nat \<times> kv_mem) option" where
  "state_seq_set_data tt seq_id src m = (case state_read tt seq_id (m, src) of
       Inl Aborted \<Rightarrow> None
     | Inl (Thrown e m') \<Rightarrow> Some (0, m')
     | Inr (_, m', rest) \<Rightarrow> Some (length src - length rest, m'))"

text \<open>Sequence files: a magic number, a version, the prompt tokens and the state.\<close>

definition LLAMA_STATE_SEQ_MAGIC :: nat where
  "LLAMA_STATE_SEQ_MAGIC = 0x67677371"

definition LLAMA_STATE_SEQ_VERSION :: nat where
  "LLAMA_STATE_SEQ_VERSION = 2"

definition state_seq_save_file :: "traits \<Rightarrow> llama_seq_id \<Rightarrow> llama_token list \<Rightarrow> kv_mem \<Rightarrow> byte list option" where
  "state_seq_save_file tt seq_id tokens m = map_option (\<lambda>chunks.
     put_u32 LLAMA_STATE_SEQ_MAGIC @ put_u32 LLAMA_STATE_SEQ_VERSION @ put_u32 (length tokens) @
     concat (map put_i32 tokens) @ concat chunks) (state_write tt seq_id m)"

fun read_tokens :: "nat \<Rightarrow> llama_token list \<Rightarrow> ('s, llama_token list) io" where
  "read_tokens 0 ts = io_return ts"
| "read_tokens (Suc n) ts = io_bind io_i32 (\<lambda>t. read_tokens n (ts @ [t]))"

definition io_left :: "('s, nat) io" where
  "io_left = (\<lambda>(s, bs). Inr (length bs, s, bs))"

text \<open>
  The result is the returned size (0 on failure) and the tokens; \<open>file_size\<close> is \<^verbatim>\<open>file.size()\<close>, and
  \<^verbatim>\<open>file.tell()\<close> is what has been read of it.
\<close>

definition state_seq_load_file :: "traits \<Rightarrow> llama_seq_id \<Rightarrow> nat \<Rightarrow> nat \<Rightarrow> (kv_mem, nat \<times> llama_token list) io" where
  "state_seq_load_file tt seq_id capacity file_size =
     io_bind io_u32 (\<lambda>magic. io_bind io_u32 (\<lambda>version.
       if magic \<noteq> LLAMA_STATE_SEQ_MAGIC \<or> version \<noteq> LLAMA_STATE_SEQ_VERSION then io_return (0, [])
       else io_bind io_u32 (\<lambda>n_token_count.
         if n_token_count > capacity then io_return (0, [])
         else io_bind (read_tokens n_token_count []) (\<lambda>tokens.
           io_bind io_left (\<lambda>state_size.
           io_bind (state_read tt seq_id) (\<lambda>_.
           io_bind io_left (\<lambda>left. let nread = state_size - left; tell = file_size - left in
             if nread = 0 then io_return (0, tokens)
             else io_bind (io_opt (require (nread \<le> state_size \<and> nread + 4 * 3 + 4 * n_token_count = tell))) (\<lambda>_.
               io_return (tell, tokens)))))))))"

end
