(* ===== verification/Kv_Restore.thy ===== *)
theory Kv_Restore
  imports Kv_State Kv_Prepare
begin

text \<open>
  Correctness of saving and restoring: the ranges written are exactly the cells selected, rows are
  stored where the slot says, and a sequence written by \<^verbatim>\<open>state_write\<close> is read back by \<^verbatim>\<open>state_read\<close> into
  the destination sequence with its positions and its K/V rows.
\<close>

section \<open>The cells that are written\<close>

definition saved :: "llama_seq_id \<Rightarrow> llama_kv_cells \<Rightarrow> nat \<Rightarrow> bool" where
  "saved s c i \<longleftrightarrow> c_pos c ! i \<noteq> -1 \<and> (s = -1 \<or> s \<in> c_seq c ! i)"

definition saved_cells :: "llama_seq_id \<Rightarrow> llama_kv_cells \<Rightarrow> nat list" where
  "saved_cells s c = filter (saved s c) [0..<cells_size c]"

definition flat :: "(nat \<times> nat) list \<Rightarrow> nat list" where
  "flat data = concat (map (\<lambda>r. [fst r..<snd r]) data)"

lemma flat_simps [simp]: "flat [] = []" "flat (xs @ ys) = flat xs @ flat ys" "flat [(a, b)] = [a..<b]" "flat (r # rs) = [fst r..<snd r] @ flat rs"
  by (simp_all add: flat_def)

lemma saved_cell_ok:
  assumes "wf_cells c" "i < cells_size c" "s = -1 \<or> seq_id_ok s"
  shows "saved_cell s c i = Some (saved s c i)"
  using assms by (auto simp: saved_cell_def saved_def step_simps cells_size_def)

definition range_inv :: "(nat \<Rightarrow> bool) \<Rightarrow> nat \<Rightarrow> nat \<Rightarrow> nat \<times> nat \<times> (nat \<times> nat) list \<Rightarrow> bool" where
  "range_inv P n k = (\<lambda>(cnt, beg, data). cnt = length (filter P [0..<k]) \<and> k \<le> n \<and> (\<forall>r \<in> set data. fst r < snd r \<and> snd r \<le> n) \<and>
     (if beg = n then flat data = filter P [0..<k] else beg < k \<and> flat data @ [beg..<k] = filter P [0..<k]))"

lemma cell_ranges_ok:
  assumes wf: "wf_cells c" and s: "s = -1 \<or> seq_id_ok s"
  shows "\<exists>data. cell_ranges s c = Some (length (saved_cells s c), data) \<and> flat data = saved_cells s c \<and>
    (\<forall>r \<in> set data. fst r < snd r \<and> snd r \<le> cells_size c)"
proof -
  let ?n = "cells_size c" and ?P = "saved s c"
  have "\<exists>st. for_loop (range_step s c) [0..<?n] (0, ?n, []) = Some st \<and> range_inv ?P ?n ?n st"
  proof (rule for_upt_rule[where I = "range_inv ?P ?n"])
    fix i st
    assume i: "i < ?n" and I: "range_inv ?P ?n i st"
    obtain cnt beg data where st: "st = (cnt, beg, data)" by (cases st)
    show "\<exists>st'. range_step s c i st = Some st' \<and> range_inv ?P ?n (Suc i) st'"
      using I i by (auto simp: st range_step_def saved_cell_ok[OF wf i s] range_inv_def Let_def upt_Suc_append split: if_splits)
  qed (simp add: range_inv_def)
  then obtain cnt beg data where r: "for_loop (range_step s c) [0..<?n] (0, ?n, []) = Some (cnt, beg, data)" "range_inv ?P ?n ?n (cnt, beg, data)"
    by (metis prod_cases3)
  let ?data = "if beg \<noteq> ?n then data @ [(beg, ?n)] else data"
  have d: "flat ?data = saved_cells s c" "\<forall>r \<in> set ?data. fst r < snd r \<and> snd r \<le> ?n" "cnt = length (saved_cells s c)"
    using r(2) by (auto simp: range_inv_def saved_cells_def split: if_splits)
  have sum: "sum_list (map (\<lambda>r. snd r - fst r) ds) = length (flat ds)" for ds
    by (induction ds) auto
  have "cell_ranges s c = Some (cnt, ?data)" using r(1) d(3) sum[of ?data] d(1) by (simp add: cell_ranges_def Let_def)
  then show ?thesis using d by blast
qed

lemma those_Some: "(\<And>x. x \<in> set xs \<Longrightarrow> f x = Some (g x)) \<Longrightarrow> those (map f xs) = Some (map g xs)"
  by (induction xs) auto

lemma in_ranges_Some:
  assumes "\<And>i. i \<in> set (flat data) \<Longrightarrow> f i = Some (g i)"
  shows "in_ranges f data = Some (map g (flat data))"
proof -
  have "those (map (\<lambda>r. those (map f [fst r..<snd r])) data) = Some (map (\<lambda>r. map g [fst r..<snd r]) data)"
  proof (rule those_Some, rule those_Some)
    fix r x assume "r \<in> set data" "x \<in> set [fst r..<snd r]"
    then show "f x = Some (g x)" using assms[of x] by (auto simp: flat_def)
  qed
  then show ?thesis by (simp add: in_ranges_def flat_def map_concat comp_def)
qed

section \<open>Rows of a tensor\<close>

definition trow :: "nat \<Rightarrow> nat \<Rightarrow> byte list \<Rightarrow> byte list" where
  "trow row i t = take row (drop (i * row) t)"

lemma trow_0 [simp]: "trow 0 i t = []"
  by (simp add: trow_def)

lemma row_bound: "i < k \<Longrightarrow> i * row + row \<le> k * (row :: nat)"
  by (metis Suc_leI add.commute mult_Suc mult_le_mono1)

lemma rows_concat:
  assumes "a \<le> b"
  shows "take ((b - a) * row) (drop (a * row) t) = concat (map (\<lambda>i. trow row i t) [a..<b])"
  using assms
proof (induction b rule: nat_induct_at_least)
  case (Suc b)
  have "take ((Suc b - a) * row) (drop (a * row) t) = take ((b - a) * row + row) (drop (a * row) t)"
    using Suc.hyps by (simp add: Suc_diff_le add.commute)
  also have "\<dots> = take ((b - a) * row) (drop (a * row) t) @ take row (drop (b * row) t)"
  proof -
    have "(b - a) * row + a * row = b * row" using Suc.hyps by (simp add: diff_mult_distrib)
    then show ?thesis by (simp only: take_add drop_drop)
  qed
  finally show ?case using Suc by (simp add: trow_def)
qed simp

lemma write_rows_at:
  assumes "\<And>r. r \<in> set data \<Longrightarrow> off (fst r) + (snd r - fst r) * row \<le> length t"
  shows "write_rows off row data t = Some (map (\<lambda>r. take ((snd r - fst r) * row) (drop (off (fst r)) t)) data)"
  unfolding write_rows_def by (rule those_Some) (use assms in \<open>auto simp: tensor_get_def\<close>)

lemma ranges_rows:
  assumes "\<And>r. r \<in> set data \<Longrightarrow> fst r < snd r \<and> off (fst r) = (fst r + base) * row"
  shows "concat (map (\<lambda>r. take ((snd r - fst r) * row) (drop (off (fst r)) t)) data) = concat (map (\<lambda>i. trow row (i + base) t) (flat data))"
  using assms
proof (induction data)
  case (Cons r data)
  have r: "fst r < snd r" "off (fst r) = (fst r + base) * row" using Cons.prems[of r] by auto
  have "take ((snd r - fst r) * row) (drop ((fst r + base) * row) t) = concat (map (\<lambda>i. trow row i t) [fst r + base..<snd r + base])"
    using rows_concat[of "fst r + base" "snd r + base" row t] r by simp
  also have "[fst r + base..<snd r + base] = map (\<lambda>i. i + base) [fst r..<snd r]" by (intro nth_equalityI) auto
  finally show ?case using Cons by (simp add: r(2) comp_def)
qed simp

lemma range_fits:
  assumes "fst r < snd r" "(snd r + base) * row \<le> (n :: nat)"
  shows "(fst r + base) * row + (snd r - fst r) * row \<le> n"
proof -
  have "(fst r + base) * row + (snd r - fst r) * row = (fst r + base + (snd r - fst r)) * row" by (simp add: algebra_simps)
  also have "fst r + base + (snd r - fst r) = snd r + base" using assms(1) by simp
  finally show ?thesis using assms(2) by simp
qed

lemma ranges_length:
  assumes "\<And>r. r \<in> set data \<Longrightarrow> fst r < snd r \<and> off (fst r) + (snd r - fst r) * row \<le> length t"
  shows "length (concat (map (\<lambda>r. take ((snd r - fst r) * row) (drop (off (fst r)) t)) data)) = length (flat data) * row"
  using assms
proof (induction data)
  case (Cons r data)
  have l: "length (take ((snd r - fst r) * row) (drop (off (fst r)) t)) = (snd r - fst r) * row" using Cons.prems[of r] by auto
  show ?case using Cons by (simp only: list.map concat.simps length_append l flat_simps length_upt add_mult_distrib) simp
qed simp

text \<open>Column \<open>j\<close> of \<open>n\<close> in a tensor with one column of \<open>sz\<close> elements per value: where the wrapped offset of a range lies.\<close>

lemma column_range:
  assumes r: "fst r < snd r" "snd r \<le> sz" "j < n"
  shows "n * sz * el \<le> k \<Longrightarrow> to_u32 ((fst r + j * sz) * el) + (snd r - fst r) * el \<le> k"
    "n * sz * el \<le> 2 ^ 32 \<Longrightarrow> to_u32 ((fst r + j * sz) * el) = (fst r + j * sz) * el"
proof -
  have "(snd r + j * sz) * el \<le> (Suc j * sz) * el" using r by (intro mult_le_mono1) simp
  also have "\<dots> \<le> n * sz * el" using r by (intro mult_le_mono1) simp
  finally have fit: "(fst r + j * sz) * el + (snd r - fst r) * el \<le> n * sz * el" by (rule range_fits[OF r(1)])
  then show "n * sz * el \<le> k \<Longrightarrow> to_u32 ((fst r + j * sz) * el) + (snd r - fst r) * el \<le> k"
    using to_u32_le[of "(fst r + j * sz) * el"] by linarith
  show "to_u32 ((fst r + j * sz) * el) = (fst r + j * sz) * el" if "n * sz * el \<le> 2 ^ 32"
  proof (cases "el = 0")
    case False
    then have "0 < (snd r - fst r) * el" using r(1) by simp
    then show ?thesis using fit that by (intro to_u32_id) linarith
  qed simp
qed

lemma write_rows_ok:
  assumes "\<And>r. r \<in> set data \<Longrightarrow> fst r < snd r \<and> snd r * row \<le> length t"
  shows "\<exists>cs. write_rows (\<lambda>i. i * row) row data t = Some cs \<and> concat cs = concat (map (\<lambda>i. trow row i t) (flat data))"
proof -
  have "fst r * row + (snd r - fst r) * row \<le> length t" if "r \<in> set data" for r
    using range_fits[of r 0 row "length t"] assms[OF that] by simp
  from write_rows_at[of data "\<lambda>i. i * row", OF this] ranges_rows[of data "\<lambda>i. i * row" 0 row t] assms show ?thesis by fastforce
qed

lemma tensor_set_rows:
  assumes "length d = n * row" "(k + n) * row \<le> length t"
  shows "\<exists>t'. tensor_set (k * row) d t = Some t' \<and> length t' = length t \<and>
    (\<forall>j. trow row j t' = (if k \<le> j \<and> j < k + n then trow row (j - k) d else trow row j t))"
proof (cases "d = []")
  case True
  then have "row = 0 \<or> n = 0" using assms(1) by auto
  with True show ?thesis by (auto simp: tensor_set_def)
next
  case False
  define u where "u = take (k * row) t @ d @ drop (k * row + length d) t"
  have fit: "k * row + length d \<le> length t" using assms by (simp add: algebra_simps)
  then have len: "length u = length t" by (simp add: u_def)
  have at: "u ! x = (if k * row \<le> x \<and> x < k * row + length d then d ! (x - k * row) else t ! x)" if "x < length t" for x
    using that fit by (auto simp: u_def nth_append)
  have "trow row j u = (if k \<le> j \<and> j < k + n then trow row (j - k) d else trow row j t)" for j
  proof (rule nth_equalityI)
    have *: "j * row + row \<le> k * row" if "j < k" using that by (rule row_bound)
    have **: "(k + n) * row \<le> j * row" if "k + n \<le> j" using that by (rule mult_le_mono1)
    have in1: "(j - k) * row + row \<le> n * row" if "k \<le> j" "j < k + n" using that by (intro row_bound) simp
    have in2: "j * row + row \<le> (k + n) * row" if "j < k + n" using that by (rule row_bound)
    show l: "length (trow row j u) = length (if k \<le> j \<and> j < k + n then trow row (j - k) d else trow row j t)"
      using in1 in2 assms len by (auto simp: trow_def)
    fix x assume x: "x < length (trow row j u)"
    then have x': "x < row" "j * row + x < length t" using len by (auto simp: trow_def)
    show "trow row j u ! x = (if k \<le> j \<and> j < k + n then trow row (j - k) d else trow row j t) ! x"
    proof (cases "k \<le> j \<and> j < k + n")
      case True
      have e: "j * row + x - k * row = (j - k) * row + x" using True mult_le_mono1[of k j row] by (simp add: diff_mult_distrib)
      have "j * row + x < k * row + length d" using in2 True x' assms(1) by (simp add: algebra_simps)
      then have "u ! (j * row + x) = d ! ((j - k) * row + x)" using at[OF x'(2)] True e mult_le_mono1[of k j row] by auto
      moreover have "drop ((j - k) * row) d ! x = d ! ((j - k) * row + x)" using in1 True x' assms(1) by (intro nth_drop) linarith
      ultimately show ?thesis using True x x' in1 assms(1) len by (simp add: trow_def)
    next
      case False
      have "\<not> (k * row \<le> j * row + x \<and> j * row + x < k * row + length d)"
        using False * ** x' assms(1) by (cases "j < k") (auto simp: algebra_simps)
      then have "u ! (j * row + x) = t ! (j * row + x)" unfolding at[OF x'(2)] by (rule if_not_P)
      then show ?thesis using False x x' len by (auto simp: trow_def)
    qed
  qed
  then show ?thesis using False fit len by (auto simp: tensor_set_def u_def)
qed

lemma slot_contiguous_one:
  assumes "si_idxs si = [idxs]" "idxs \<noteq> []"
  shows "slot_is_contiguous si \<longleftrightarrow> idxs = [hd idxs..<hd idxs + length idxs]"
proof -
  have "idxs = [hd idxs..<hd idxs + length idxs] \<longleftrightarrow> (\<forall>i < length idxs. idxs ! i = hd idxs + i)"
    unfolding list_eq_iff_nth_eq[of idxs] by simp
  moreover have "slot_is_contiguous si \<longleftrightarrow> (\<forall>i < length idxs. idxs ! i = hd idxs + i)"
    using assms by (simp add: slot_is_contiguous_def Let_def hd_conv_nth Ball_def)
  ultimately show ?thesis by (simp only:)
qed

text \<open>Both paths of the code put row \<open>i\<close> of the source at the \<open>i\<close>-th index and nothing else.\<close>

lemma store_rows_ok:
  assumes si: "si_idxs si = [idxs]" and ne: "idxs \<noteq> []" and d: "distinct idxs" and src: "length src = length idxs * row"
    and fit: "\<And>i. i \<in> set idxs \<Longrightarrow> off i = (i + base) * row \<and> (i + base + 1) * row \<le> length t"
  shows "\<exists>t'. store_rows off row (length idxs) si src t = Some t' \<and> length t' = length t \<and>
    (\<forall>i < length idxs. trow row (idxs ! i + base) t' = trow row i src) \<and>
    (\<forall>j. j \<notin> (\<lambda>i. i + base) ` set idxs \<longrightarrow> trow row j t' = trow row j t)"
proof (cases "slot_is_contiguous si")
  case True
  define h n where "h = hd idxs" and "n = length idxs"
  have idxs: "idxs = [h..<h + n]" using True slot_contiguous_one[OF si ne] by (simp add: h_def n_def)
  have n: "0 < n" "length idxs = n" using ne by (auto simp: n_def)
  have h: "h + n - 1 \<in> set idxs" "h \<in> set idxs" using n by (auto simp: idxs)
  from fit[OF h(1)] have "(h + base + n) * row \<le> length t" using n by (simp add: add_ac)
  from tensor_set_rows[OF src[unfolded n(2)] this] obtain t' where t': "tensor_set ((h + base) * row) src t = Some t'" "length t' = length t"
    "\<forall>j. trow row j t' = (if h + base \<le> j \<and> j < h + base + n then trow row (j - (h + base)) src else trow row j t)" by blast
  have at: "idxs ! i = h + i" if "i < n" for i using that by (simp add: idxs)
  have mem: "j \<in> (\<lambda>i. i + base) ` set idxs \<longleftrightarrow> h + base \<le> j \<and> j < h + base + n" for j
    unfolding idxs using image_add_atLeastLessThan'[of base h "h + n"] by (simp add: add_ac)
  have "slot_head si = Some h" using si ne by (simp add: slot_head_def hd_conv_nth h_def)
  then show ?thesis using True t' at mem n(2) fit[OF h(2)] by (auto simp: store_rows_def)
next
  case False
  let ?f = "\<lambda>i. tensor_set (off (idxs ! i)) (take row (drop (i * row) src))"
  let ?I = "\<lambda>n u. length u = length t \<and> (\<forall>i < n. trow row (idxs ! i + base) u = trow row i src) \<and>
    (\<forall>j. j \<notin> (\<lambda>i. i + base) ` set (take n idxs) \<longrightarrow> trow row j u = trow row j t)"
  have "\<exists>t'. for_loop ?f [0..<length idxs] t = Some t' \<and> ?I (length idxs) t'"
  proof (rule for_upt_rule[where I = ?I])
    fix n u assume n: "n < length idxs" and I: "?I n u"
    have l: "length (take row (drop (n * row) src)) = 1 * row" using row_bound[OF n, of row] src by simp
    have o: "off (idxs ! n) = (idxs ! n + base) * row" "(idxs ! n + base + 1) * row \<le> length u" using fit[of "idxs ! n"] n I by simp_all
    from tensor_set_rows[OF l o(2)] obtain u' where u': "?f n u = Some u'" "length u' = length u"
      "\<forall>j. trow row j u' = (if j = idxs ! n + base then trow row n src else trow row j u)"
      unfolding o(1) by (auto simp: trow_def less_Suc_eq_le le_antisym)
    have "idxs ! i \<noteq> idxs ! n" if "i < n" for i using that n d by (simp add: nth_eq_iff_index_eq)
    then have "?I (Suc n) u'" using u' I n by (auto simp: take_Suc_conv_app_nth less_Suc_eq)
    with u'(1) show "\<exists>u'. ?f n u = Some u' \<and> ?I (Suc n) u'" by blast
  qed simp
  then show ?thesis using False si by (auto simp: store_rows_def)
qed

text \<open>Where the offsets are only known to lie inside the tensor, the rows are stored somewhere in it.\<close>

lemma store_rows_length:
  assumes si: "si_idxs si = [idxs]" and ne: "idxs \<noteq> []" and src: "length src = length idxs * row"
    and fit: "\<And>i. i \<in> set idxs \<Longrightarrow> off i \<le> (i + base) * row \<and> (i + base + 1) * row \<le> length t"
  shows "\<exists>t'. store_rows off row (length idxs) si src t = Some t' \<and> length t' = length t"
proof (cases "slot_is_contiguous si")
  case True
  define h n where "h = hd idxs" and "n = length idxs"
  have idxs: "idxs = [h..<h + n]" using True slot_contiguous_one[OF si ne] by (simp add: h_def n_def)
  have n: "0 < n" "length idxs = n" using ne by (auto simp: n_def)
  have h: "h + n - 1 \<in> set idxs" "h \<in> set idxs" using n by (auto simp: idxs)
  have "off h + n * row \<le> (h + base + n) * row" using fit[OF h(2)] by (simp add: algebra_simps)
  also have "\<dots> \<le> length t" using fit[OF h(1)] n by (simp add: add_ac)
  finally have "off h + length src \<le> length t" by (simp add: src n(2))
  moreover have "slot_head si = Some h" using si ne by (simp add: slot_head_def hd_conv_nth h_def)
  ultimately show ?thesis using True by (auto simp: store_rows_def tensor_set_def)
next
  case False
  let ?f = "\<lambda>i. tensor_set (off (idxs ! i)) (take row (drop (i * row) src))"
  have "\<exists>t'. for_loop ?f [0..<length idxs] t = Some t' \<and> length t' = length t"
  proof (rule for_upt_rule[where I = "\<lambda>_ u. length u = length t"])
    fix n and u :: "byte list" assume n: "n < length idxs" and I: "length u = length t"
    have l: "length (take row (drop (n * row) src)) = row" using row_bound[OF n, of row] src by simp
    have "off (idxs ! n) + row \<le> length u" using fit[of "idxs ! n"] n I by simp
    then show "\<exists>u'. ?f n u = Some u' \<and> length u' = length t" using I l by (auto simp: tensor_set_def)
  qed simp
  then show ?thesis using False si by (simp add: store_rows_def)
qed

section \<open>Layers\<close>

text \<open>The K and V data of one cell, over all layers.\<close>

definition k_row :: "traits \<Rightarrow> kv_mem \<Rightarrow> nat \<Rightarrow> nat \<Rightarrow> kv_layer \<Rightarrow> byte list" where
  "k_row tt m st i la = trow (the (k_size_row tt m la)) i (kl_k_stream la ! st)"

definition v_row :: "traits \<Rightarrow> kv_mem \<Rightarrow> nat \<Rightarrow> nat \<Rightarrow> kv_layer \<Rightarrow> byte list" where
  "v_row tt m st i la = (case kl_v_stream la of None \<Rightarrow> []
     | Some vs \<Rightarrow>
         if kv_v_trans (m_kv m)
         then concat (map (\<lambda>j. trow (ggml_type_size tt (kl_v_type la)) (i + j * cells_size (kv_v_cells (m_kv m) ! st)) (vs ! st)) [0..<the (v_n_embd m la)])
         else trow (the (v_size_row tt m la)) i (vs ! st))"

definition cell_rows :: "traits \<Rightarrow> kv_mem \<Rightarrow> nat \<Rightarrow> nat \<Rightarrow> (byte list \<times> byte list) list" where
  "cell_rows tt m st i = map (\<lambda>la. (k_row tt m st i la, v_row tt m st i la)) (m_layers m)"

definition layer_ok :: "traits \<Rightarrow> nat \<Rightarrow> kv_mem \<Rightarrow> kv_layer \<Rightarrow> bool" where
  "layer_ok tt sz m la \<longleftrightarrow> i32_ok (kl_k_type la) \<and> length (kl_k_stream la) = kv_n_stream (m_kv m) \<and>
     (\<exists>row < 2 ^ 64. k_size_row tt m la = Some row \<and> (\<forall>t \<in> set (kl_k_stream la). sz * row \<le> length t)) \<and>
     (\<forall>vs. kl_v_stream la = Some vs \<longrightarrow> i32_ok (kl_v_type la) \<and> length vs = kv_n_stream (m_kv m) \<and>
        (if kv_v_trans (m_kv m)
         then ggml_type_size tt (kl_v_type la) < 2 ^ 32 \<and>
           (\<exists>n < 2 ^ 32. v_n_embd m la = Some n \<and> (\<forall>t \<in> set vs. n * sz * ggml_type_size tt (kl_v_type la) \<le> length t))
         else \<exists>row < 2 ^ 64. v_size_row tt m la = Some row \<and> (\<forall>t \<in> set vs. sz * row \<le> length t)))"

definition mem_ok :: "traits \<Rightarrow> nat \<Rightarrow> kv_mem \<Rightarrow> bool" where
  "mem_ok tt sz m \<longleftrightarrow> kv_ok sz (m_kv m) \<and> sz < 2 ^ 32 \<and> kv_n_stream (m_kv m) < 2 ^ 32 \<and> length (m_layers m) < 2 ^ 32 \<and>
     (\<forall>la \<in> set (m_layers m). layer_ok tt sz m la)"

text \<open>The transposed V tensors are small enough for the 32-bit offsets of writer and reader: at most 4 GiB per stream.\<close>

definition vt_small :: "traits \<Rightarrow> nat \<Rightarrow> kv_mem \<Rightarrow> bool" where
  "vt_small tt sz m \<longleftrightarrow> (kv_v_trans (m_kv m) \<longrightarrow> (\<forall>la \<in> set (m_layers m). kl_v_stream la \<noteq> None \<longrightarrow>
     the (v_n_embd m la) * sz * ggml_type_size tt (kl_v_type la) \<le> 2 ^ 32))"

text \<open>Two caches of the same model and type: their tensors may differ in the number of cells only.\<close>

definition same_layout :: "kv_mem \<Rightarrow> kv_mem \<Rightarrow> bool" where
  "same_layout a b \<longleftrightarrow> kv_hparams (m_kv a) = kv_hparams (m_kv b) \<and> kv_v_trans (m_kv a) = kv_v_trans (m_kv b) \<and>
     kv_n_stream (m_kv a) = kv_n_stream (m_kv b) \<and>
     map (\<lambda>l. (kl_il l, kl_k_type l, kl_v_type l, kl_v_stream l = None)) (m_layers a) =
     map (\<lambda>l. (kl_il l, kl_k_type l, kl_v_type l, kl_v_stream l = None)) (m_layers b)"

lemma same_layout_layer:
  assumes "same_layout a b" "l < length (m_layers b)"
  shows "length (m_layers a) = length (m_layers b)" "kl_k_type (m_layers a ! l) = kl_k_type (m_layers b ! l)"
    "kl_v_type (m_layers a ! l) = kl_v_type (m_layers b ! l)" "kl_v_stream (m_layers a ! l) = None \<longleftrightarrow> kl_v_stream (m_layers b ! l) = None"
    "k_size_row tt a (m_layers a ! l) = k_size_row tt b (m_layers b ! l)" "v_size_row tt a (m_layers a ! l) = v_size_row tt b (m_layers b ! l)"
    "v_n_embd a (m_layers a ! l) = v_n_embd b (m_layers b ! l)"
proof -
  show len: "length (m_layers a) = length (m_layers b)" using assms(1) by (auto simp: same_layout_def dest: map_eq_imp_length_eq)
  have "map (\<lambda>l. (kl_il l, kl_k_type l, kl_v_type l, kl_v_stream l = None)) (m_layers a) ! l =
     map (\<lambda>l. (kl_il l, kl_k_type l, kl_v_type l, kl_v_stream l = None)) (m_layers b) ! l"
    using assms(1) by (simp add: same_layout_def)
  with len assms(2) have e: "kl_il (m_layers a ! l) = kl_il (m_layers b ! l)" "kl_k_type (m_layers a ! l) = kl_k_type (m_layers b ! l)"
    "kl_v_type (m_layers a ! l) = kl_v_type (m_layers b ! l)" "kl_v_stream (m_layers a ! l) = None \<longleftrightarrow> kl_v_stream (m_layers b ! l) = None" by auto
  then show "kl_k_type (m_layers a ! l) = kl_k_type (m_layers b ! l)"
    "kl_v_type (m_layers a ! l) = kl_v_type (m_layers b ! l)" "kl_v_stream (m_layers a ! l) = None \<longleftrightarrow> kl_v_stream (m_layers b ! l) = None"
    "k_size_row tt a (m_layers a ! l) = k_size_row tt b (m_layers b ! l)" "v_size_row tt a (m_layers a ! l) = v_size_row tt b (m_layers b ! l)"
    "v_n_embd a (m_layers a ! l) = v_n_embd b (m_layers b ! l)"
    using assms(1) by (auto simp: same_layout_def k_size_row_def v_size_row_def v_n_embd_def)
qed

text \<open>
  What is written for the cells \<open>is\<close> of stream \<open>st\<close>, or for the ranges of cells \<open>data\<close> where the offset of a
  range may wrap.
\<close>

definition k_bytes :: "traits \<Rightarrow> kv_mem \<Rightarrow> nat \<Rightarrow> nat list \<Rightarrow> kv_layer \<Rightarrow> byte list" where
  "k_bytes tt m st is la = put_i32 (kl_k_type la) @ put_u64 (the (k_size_row tt m la)) @ concat (map (\<lambda>i. k_row tt m st i la) is)"

definition v_bytes :: "traits \<Rightarrow> kv_mem \<Rightarrow> nat \<Rightarrow> nat list \<Rightarrow> kv_layer \<Rightarrow> byte list" where
  "v_bytes tt m st is la = (case kl_v_stream la of None \<Rightarrow> []
     | Some vs \<Rightarrow> put_i32 (kl_v_type la) @ put_u64 (the (v_size_row tt m la)) @ concat (map (\<lambda>i. trow (the (v_size_row tt m la)) i (vs ! st)) is))"

definition vt_column :: "traits \<Rightarrow> kv_mem \<Rightarrow> nat \<Rightarrow> (nat \<times> nat) list \<Rightarrow> kv_layer \<Rightarrow> byte list \<Rightarrow> nat \<Rightarrow> byte list" where
  "vt_column tt m st data la t j = (let el = ggml_type_size tt (kl_v_type la); sz = cells_size (kv_v_cells (m_kv m) ! st) in
     concat (map (\<lambda>r. take ((snd r - fst r) * el) (drop (to_u32 ((fst r + j * sz) * el)) t)) data))"

definition vt_bytes :: "traits \<Rightarrow> kv_mem \<Rightarrow> nat \<Rightarrow> (nat \<times> nat) list \<Rightarrow> kv_layer \<Rightarrow> byte list" where
  "vt_bytes tt m st data la = (case kl_v_stream la of None \<Rightarrow> []
     | Some vs \<Rightarrow> (let el = ggml_type_size tt (kl_v_type la) in
         put_i32 (kl_v_type la) @ put_u32 el @ put_u32 (the (v_n_embd m la)) @
         concat (map (vt_column tt m st data la (vs ! st)) [0..<the (v_n_embd m la)])))"

definition data_bytes :: "traits \<Rightarrow> kv_mem \<Rightarrow> nat \<Rightarrow> (nat \<times> nat) list \<Rightarrow> byte list" where
  "data_bytes tt m st data = put_u32 (if kv_v_trans (m_kv m) then 1 else 0) @ put_u32 (length (m_layers m)) @
     concat (map (k_bytes tt m st (flat data)) (m_layers m)) @
     concat (map (if kv_v_trans (m_kv m) then vt_bytes tt m st data else v_bytes tt m st (flat data)) (m_layers m))"

text \<open>In a tensor of more than 4 GiB the writer saves the first column again in place of a later one.\<close>

lemma vt_column_wraps:
  assumes "j * cells_size (kv_v_cells (m_kv m) ! st) * ggml_type_size tt (kl_v_type la) = 2 ^ 32"
  shows "vt_column tt m st data la t j = vt_column tt m st data la t 0"
proof -
  let ?el = "ggml_type_size tt (kl_v_type la)"
  have "to_u32 ((i + j * cells_size (kv_v_cells (m_kv m) ! st)) * ?el) = to_u32 (i * ?el)" for i
    unfolding add_mult_distrib assms by (simp add: to_u32_def)
  then show ?thesis by (simp add: vt_column_def Let_def)
qed

lemma those_ex:
  assumes "\<forall>x \<in> set xs. \<exists>cs. f x = Some cs \<and> concat cs = g x"
  shows "\<exists>css. those (map f xs) = Some css \<and> concat (concat css) = concat (map g xs)"
  using assms
proof (induction xs)
  case (Cons x xs)
  then obtain cs css where "f x = Some cs" "concat cs = g x" "those (map f xs) = Some css" "concat (concat css) = concat (map g xs)"
    by (metis list.set_intros)
  then show ?case by auto
qed simp

lemma write_layers_ok:
  assumes ok: "mem_ok tt sz m" and la: "la \<in> set (m_layers m)" and st: "st < kv_n_stream (m_kv m)"
    and d: "\<forall>r \<in> set data. fst r < snd r \<and> snd r \<le> sz"
  shows "\<exists>cs. write_k_layer tt st data m la = Some cs \<and> concat cs = k_bytes tt m st (flat data) la"
    "\<not> kv_v_trans (m_kv m) \<Longrightarrow> \<exists>cs. write_v_layer tt st data m la = Some cs \<and> concat cs = v_bytes tt m st (flat data) la"
    "kv_v_trans (m_kv m) \<Longrightarrow> \<exists>cs. write_vt_layer tt st data m la = Some cs \<and> concat cs = vt_bytes tt m st data la"
proof -
  have l: "layer_ok tt sz m la" using ok la by (simp add: mem_ok_def)
  have sz: "cells_size (kv_v_cells (m_kv m) ! st) = sz" using ok st by (auto simp: mem_ok_def kv_ok_def stream_ok_def)
  have fit: "fst r < snd r \<and> snd r * row \<le> length t" if "r \<in> set data" "sz * row \<le> length t" for r row and t :: "byte list"
    using d that mult_le_mono1[of "snd r" sz row] by (meson le_trans)
  from l obtain row where row: "k_size_row tt m la = Some row" "\<forall>t \<in> set (kl_k_stream la). sz * row \<le> length t"
    by (auto simp: layer_ok_def)
  have "sz * row \<le> length (kl_k_stream la ! st)" using row(2) l st by (auto simp: layer_ok_def)
  from write_rows_ok[OF fit[OF _ this]] show "\<exists>cs. write_k_layer tt st data m la = Some cs \<and> concat cs = k_bytes tt m st (flat data) la"
    by (force simp: write_k_layer_def row k_bytes_def k_row_def)
  show "\<exists>cs. write_v_layer tt st data m la = Some cs \<and> concat cs = v_bytes tt m st (flat data) la" if tr: "\<not> kv_v_trans (m_kv m)"
  proof (cases "kl_v_stream la")
    case (Some vs)
    then obtain row where row: "v_size_row tt m la = Some row" "\<forall>t \<in> set vs. sz * row \<le> length t" "length vs = kv_n_stream (m_kv m)"
      using l tr by (auto simp: layer_ok_def)
    have "sz * row \<le> length (vs ! st)" using row st by auto
    from write_rows_ok[OF fit[OF _ this]] Some show ?thesis by (force simp: write_v_layer_def row v_bytes_def)
  qed (simp add: write_v_layer_def v_bytes_def)
  show "\<exists>cs. write_vt_layer tt st data m la = Some cs \<and> concat cs = vt_bytes tt m st data la" if tr: "kv_v_trans (m_kv m)"
  proof (cases "kl_v_stream la")
    case (Some vs)
    let ?el = "ggml_type_size tt (kl_v_type la)"
    from Some obtain n where n: "v_n_embd m la = Some n" "\<forall>t \<in> set vs. n * sz * ?el \<le> length t" "length vs = kv_n_stream (m_kv m)"
      using l tr by (auto simp: layer_ok_def)
    have "write_rows (\<lambda>i. to_u32 ((i + j * sz) * ?el)) ?el data (vs ! st) =
        Some (map (\<lambda>r. take ((snd r - fst r) * ?el) (drop (to_u32 ((fst r + j * sz) * ?el)) (vs ! st))) data)" if j: "j \<in> set [0..<n]" for j
    proof (rule write_rows_at)
      fix r assume r: "r \<in> set data"
      have "n * sz * ?el \<le> length (vs ! st)" using n st by auto
      then show "to_u32 ((fst r + j * sz) * ?el) + (snd r - fst r) * ?el \<le> length (vs ! st)"
        using column_range(1)[of r sz j n ?el] d r j by auto
    qed
    then have "those (map (\<lambda>j. write_rows (\<lambda>i. to_u32 ((i + j * sz) * ?el)) ?el data (vs ! st)) [0..<n]) =
        Some (map (\<lambda>j. map (\<lambda>r. take ((snd r - fst r) * ?el) (drop (to_u32 ((fst r + j * sz) * ?el)) (vs ! st))) data) [0..<n])"
      by (intro those_Some)
    moreover have "concat (concat (map f js)) = concat (map (\<lambda>j. concat (f j)) js)" for f :: "nat \<Rightarrow> byte list list" and js
      by (induction js) auto
    ultimately show ?thesis using Some n sz by (simp add: write_vt_layer_def vt_bytes_def vt_column_def[abs_def] Let_def)
  qed (simp add: write_vt_layer_def vt_bytes_def)
qed

lemma state_write_data_ok:
  assumes ok: "mem_ok tt sz m" and st: "st < kv_n_stream (m_kv m)"
    and d: "\<forall>r \<in> set data. fst r < snd r \<and> snd r \<le> sz"
  shows "\<exists>cs. state_write_data tt st data m = Some cs \<and> concat cs = data_bytes tt m st data"
proof -
  note w = write_layers_ok[OF ok _ st d]
  have "\<exists>ks. those (map (write_k_layer tt st data m) (m_layers m)) = Some ks \<and> concat (concat ks) = concat (map (k_bytes tt m st (flat data)) (m_layers m))"
    using w(1) by (intro those_ex ballI)
  then obtain ks where
    ks: "those (map (write_k_layer tt st data m) (m_layers m)) = Some ks" "concat (concat ks) = concat (map (k_bytes tt m st (flat data)) (m_layers m))" by blast
  have "\<exists>vs. those (map (if kv_v_trans (m_kv m) then write_vt_layer tt st data m else write_v_layer tt st data m) (m_layers m)) = Some vs \<and>
      concat (concat vs) = concat (map (if kv_v_trans (m_kv m) then vt_bytes tt m st data else v_bytes tt m st (flat data)) (m_layers m))"
    using w(2,3) by (intro those_ex) auto
  then obtain vs where "those (map (if kv_v_trans (m_kv m) then write_vt_layer tt st data m else write_v_layer tt st data m) (m_layers m)) = Some vs"
    "concat (concat vs) = concat (map (if kv_v_trans (m_kv m) then vt_bytes tt m st data else v_bytes tt m st (flat data)) (m_layers m))" by blast
  with ks show ?thesis by (simp add: state_write_data_def data_bytes_def Let_def)
qed

section \<open>Reading the rows back\<close>

lemma io_for_run:
  assumes "\<And>i bs. i < n \<Longrightarrow> f i (M i, b i @ bs) = Inr (True, M (Suc i), bs)"
  shows "io_for f [0..<n] (M 0, concat (map b [0..<n]) @ bs) = Inr (True, M n, bs)"
proof -
  have "io_for f [k..<n] (M k, concat (map b [k..<n]) @ bs) = Inr (True, M n, bs)" if "k \<le> n" for k
    using that
  proof (induction "n - k" arbitrary: k)
    case (Suc d)
    then have k: "k < n" by simp
    with Suc(1)[of "Suc k"] Suc(2) show ?case by (simp add: upt_conv_Cons io_simps assms)
  qed (simp add: io_simps)
  from this[of 0] show ?thesis by simp
qed

abbreviation set_k :: "nat \<Rightarrow> nat \<Rightarrow> byte list \<Rightarrow> kv_mem \<Rightarrow> kv_mem" where
  "set_k strm l t m \<equiv> m\<lparr>m_layers := (m_layers m)[l := (m_layers m ! l)\<lparr>kl_k_stream := (kl_k_stream (m_layers m ! l))[strm := t]\<rparr>]\<rparr>"

abbreviation set_v :: "nat \<Rightarrow> nat \<Rightarrow> byte list \<Rightarrow> kv_mem \<Rightarrow> kv_mem" where
  "set_v strm l t m \<equiv> m\<lparr>m_layers := (m_layers m)[l := (m_layers m ! l)\<lparr>kl_v_stream := Some ((the (kl_v_stream (m_layers m ! l)))[strm := t])\<rparr>]\<rparr>"

lemma layer_set_run [io_simps]:
  "f (kl_k_stream (m_layers m ! l) ! strm) = Some t \<Longrightarrow> layer_set_k strm l f (m, bs) = Inr ((), set_k strm l t m, bs)"
  "f (the (kl_v_stream (m_layers m ! l)) ! strm) = Some t \<Longrightarrow> layer_set_v strm l f (m, bs) = Inr ((), set_v strm l t m, bs)"
  by (simp_all add: layer_set_k_def layer_set_v_def io_run_def Let_def)

lemma read_k_layer_run:
  assumes "i32_ok (kl_k_type (m_layers m ! l))" "k_size_row tt m (m_layers m ! l) = Some row" "row < 2 ^ 64" "n \<noteq> 0" "length src = n * row"
    and "store_rows (\<lambda>i. i * row) row n si src (kl_k_stream (m_layers m ! l) ! strm) = Some t"
  shows "read_k_layer tt strm n si l (m, put_i32 (kl_k_type (m_layers m ! l)) @ put_u64 row @ src @ bs) = Inr (True, set_k strm l t m, bs)"
  using assms by (simp add: read_k_layer_def Let_def io_simps i32.bind_put u64.bind_put)

lemma read_v_layer_run:
  assumes "kl_v_stream (m_layers m ! l) = Some vs"
    and "i32_ok (kl_v_type (m_layers m ! l))" "v_size_row tt m (m_layers m ! l) = Some row" "row < 2 ^ 64" "n \<noteq> 0" "length src = n * row"
    and "store_rows (\<lambda>i. i * row) row n si src (vs ! strm) = Some t"
  shows "read_v_layer tt strm n si l (m, put_i32 (kl_v_type (m_layers m ! l)) @ put_u64 row @ src @ bs) = Inr (True, set_v strm l t m, bs)"
  using assms by (simp add: read_v_layer_def Let_def io_simps i32.bind_put u64.bind_put)

lemma read_v_layer_None:
  "kl_v_stream (m_layers m ! l) = None \<Longrightarrow> read_v_layer tt strm n si l (m, bs) = Inr (True, m, bs)"
  "kl_v_stream (m_layers m ! l) = None \<Longrightarrow> read_vt_layer tt strm n si l (m, bs) = Inr (True, m, bs)"
  by (simp_all add: read_v_layer_def read_vt_layer_def Let_def io_simps)

lemma stream_offset_inj:
  assumes "(i :: nat) < sz" "j < sz" "a * sz + i = b * sz + j"
  shows "a = b \<and> i = j"
proof -
  have "a = (a * sz + i) div sz" "b = (b * sz + j) div sz" "i = (a * sz + i) mod sz" "j = (b * sz + j) mod sz" using assms(1,2) by auto
  with assms(3) show ?thesis by metis
qed

text \<open>The columns of a transposed V tensor, stored one after the other.\<close>

lemma read_vt_layer_run:
  fixes T :: "nat \<Rightarrow> byte list"
  assumes v: "kl_v_stream (m_layers m ! l) = Some vs" "l < length (m_layers m)" "strm < length vs"
    and t: "i32_ok (kl_v_type (m_layers m ! l))" "v_n_embd m (m_layers m ! l) = Some N" "N < 2 ^ 32" "n \<noteq> 0"
      "ggml_type_size tt (kl_v_type (m_layers m ! l)) < 2 ^ 32" "cells_size (kv_v_cells (m_kv m) ! strm) = sz"
    and src: "\<And>j. j < N \<Longrightarrow> length (src j) = n * ggml_type_size tt (kl_v_type (m_layers m ! l))"
    and T: "T 0 = vs ! strm" "\<And>j. j < N \<Longrightarrow> store_rows (\<lambda>i. to_u32 (i + j * sz) * ggml_type_size tt (kl_v_type (m_layers m ! l))) (ggml_type_size tt (kl_v_type (m_layers m ! l))) n si (src j) (T j) = Some (T (Suc j))"
  shows "read_vt_layer tt strm n si l (m, put_i32 (kl_v_type (m_layers m ! l)) @ put_u32 (ggml_type_size tt (kl_v_type (m_layers m ! l))) @ put_u32 N @
      concat (map src [0..<N]) @ bs) = Inr (True, set_v strm l (T N) m, bs)"
proof -
  let ?el = "ggml_type_size tt (kl_v_type (m_layers m ! l))"
  let ?f = "\<lambda>j. io_bind (io_read (n * ?el)) (\<lambda>src.
       io_bind (layer_set_v strm l (store_rows (\<lambda>i. to_u32 (i + j * sz) * ?el) ?el n si src)) (\<lambda>_. io_return True))"
  let ?M = "\<lambda>j. set_v strm l (T j) m"
  have "set_v strm l (vs ! strm) m = m" using v by (simp add: list_update_same_conv)
  then have M0: "?M 0 = m" using T(1) by simp
  have "?f j (?M j, src j @ bs) = Inr (True, ?M (Suc j), bs)" if j: "j < N" for j bs
    using v src[OF j] T(2)[OF j] by (simp add: io_simps)
  from io_for_run[of N ?f ?M src bs, OF this]
  have loop: "io_for ?f [0..<N] (m, concat (map src [0..<N]) @ bs) = Inr (True, ?M N, bs)" by (simp only: M0)
  show ?thesis using v(1) t by (simp add: read_vt_layer_def Let_def io_simps i32.bind_put u32.bind_put loop)
qed

lemma vt_store_ok:
  fixes src :: "nat \<Rightarrow> byte list"
  assumes si: "si_idxs si = [idxs]" "idxs \<noteq> []" "distinct idxs" "\<forall>i \<in> set idxs. i < sz"
    and src: "\<forall>j < N. length (src j) = length idxs * el" and t: "N * sz * el \<le> length t"
  shows "\<exists>T. T 0 = t \<and> (\<forall>j < N. store_rows (\<lambda>i. to_u32 (i + j * sz) * el) el (length idxs) si (src j) (T j) = Some (T (Suc j))) \<and>
    length (T N) = length t \<and>
    (N * sz * el \<le> 2 ^ 32 \<longrightarrow>
      (\<forall>i < length idxs. \<forall>j < N. trow el (idxs ! i + j * sz) (T N) = trow el i (src j)) \<and>
      (\<forall>x < sz. x \<notin> set idxs \<longrightarrow> (\<forall>j. trow el (x + j * sz) (T N) = trow el (x + j * sz) t)))"
proof -
  let ?off = "\<lambda>j i. to_u32 (i + j * sz) * el"
  define T where "T = rec_nat t (\<lambda>j u. the (store_rows (?off j) el (length idxs) si (src j) u))"
  have T: "T 0 = t" "T (Suc j) = the (store_rows (?off j) el (length idxs) si (src j) (T j))" for j by (simp_all add: T_def)
  have inj: "x = y \<and> i = j" if "x + i * sz = y + j * sz" "x < sz" "y < sz" for x y i j
    using stream_offset_inj[OF that(2,3), of i j] that(1) by (simp add: add.commute)
  have fit: "(i + k * sz + 1) * el \<le> N * sz * el" if "i \<in> set idxs" "k < N" for i k
  proof -
    have "(i + k * sz + 1) * el \<le> (Suc k * sz) * el" using si(4) that by (intro mult_le_mono1) (simp add: Suc_le_eq)
    also have "\<dots> \<le> N * sz * el" using that(2) by (intro mult_le_mono1) simp
    finally show ?thesis .
  qed
  have run: "(\<forall>j < k. store_rows (?off j) el (length idxs) si (src j) (T j) = Some (T (Suc j))) \<and> length (T k) = length t" if "k \<le> N" for k
    using that
  proof (induction k)
    case (Suc k)
    then have k: "k < N" "length (src k) = length idxs * el" "length (T k) = length t" using src by auto
    have "?off k i \<le> (i + k * sz) * el \<and> (i + k * sz + 1) * el \<le> length (T k)" if "i \<in> set idxs" for i
      using fit[OF that k(1)] t k(3) to_u32_le[of "i + k * sz"] by simp
    from store_rows_length[OF si(1,2) k(2) this] Suc show ?case by (auto simp: T(2) less_Suc_eq)
  qed (simp add: T)
  have rows: "(\<forall>i < length idxs. \<forall>j < k. trow el (idxs ! i + j * sz) (T k) = trow el i (src j)) \<and>
    (\<forall>x < sz. x \<notin> set idxs \<longrightarrow> (\<forall>j. trow el (x + j * sz) (T k) = trow el (x + j * sz) t))"
    if small: "N * sz * el \<le> 2 ^ 32" and "k \<le> N" for k
    using that(2)
  proof (induction k)
    case (Suc k)
    then have IH: "\<forall>i < length idxs. \<forall>j < k. trow el (idxs ! i + j * sz) (T k) = trow el i (src j)"
      "\<forall>x < sz. x \<notin> set idxs \<longrightarrow> (\<forall>j. trow el (x + j * sz) (T k) = trow el (x + j * sz) t)" by auto
    have k: "k < N" "length (src k) = length idxs * el" "length (T k) = length t" using src run[of k] Suc.prems by auto
    have "?off k i = (i + k * sz) * el \<and> (i + k * sz + 1) * el \<le> length (T k)" if "i \<in> set idxs" for i
    proof (cases "el = 0")
      case False
      have "(i + k * sz + 1) * 1 \<le> (i + k * sz + 1) * el" using False by (intro mult_le_mono2) simp
      also have "\<dots> \<le> 2 ^ 32" using fit[OF that k(1)] small by linarith
      finally have "i + k * sz < 2 ^ 32" by simp
      then show ?thesis using fit[OF that k(1)] t k(3) by simp
    qed simp
    from store_rows_ok[OF si(1-3) k(2) this] obtain u where
      u: "store_rows (?off k) el (length idxs) si (src k) (T k) = Some u"
        "\<forall>i < length idxs. trow el (idxs ! i + k * sz) u = trow el i (src k)"
        "\<forall>j. j \<notin> (\<lambda>i. i + k * sz) ` set idxs \<longrightarrow> trow el j u = trow el j (T k)" by auto
    have Tu: "T (Suc k) = u" using u(1) T(2) by simp
    have old: "trow el (idxs ! i + j * sz) u = trow el i (src j)" if "i < length idxs" "j < k" for i j
    proof -
      have "idxs ! i + j * sz \<notin> (\<lambda>i. i + k * sz) ` set idxs"
        using inj[of "idxs ! i" j _ k] si(4) that by (metis (mono_tags, lifting) imageE less_irrefl_nat nth_mem)
      then show ?thesis using u(3) IH(1) that by simp
    qed
    have keep: "trow el (x + j * sz) u = trow el (x + j * sz) t" if "x < sz" "x \<notin> set idxs" for x j
    proof -
      have "x + j * sz \<notin> (\<lambda>i. i + k * sz) ` set idxs"
        using inj[of x j _ k] si(4) that by (metis (mono_tags, lifting) imageE)
      then show ?thesis using u(3) IH(2) that by simp
    qed
    show ?case using u(2) old keep by (auto simp: Tu less_Suc_eq)
  qed (simp add: T)
  show ?thesis using T(1) run[of N] rows[of N] by (intro exI[of _ T]) blast
qed

text \<open>A row of concatenated rows.\<close>

lemma trow_concat:
  assumes "\<forall>x \<in> set xs. length x = row"
  shows "length (concat xs) = length xs * row" "r < length xs \<Longrightarrow> trow row r (concat xs) = xs ! r"
proof -
  have len: "length (concat ys) = length ys * row" if "\<forall>x \<in> set ys. length x = row" for ys :: "byte list list"
    using that by (induction ys) auto
  show "length (concat xs) = length xs * row" by (rule len[OF assms])
  assume r: "r < length xs"
  then have xs: "concat xs = concat (take r xs) @ xs ! r @ concat (drop (Suc r) xs)"
    by (metis concat.simps(2) concat_append id_take_nth_drop)
  have "length (concat (take r xs)) = r * row" using len[of "take r xs"] assms r by (auto dest: in_set_takeD)
  then show "trow row r (concat xs) = xs ! r" using assms r by (subst xs) (simp add: trow_def)
qed

lemma copied_rows:
  assumes "\<forall>i \<in> set is. (i + base + 1) * row \<le> length t"
  defines "src \<equiv> concat (map (\<lambda>i. trow row (i + base) t) is)"
  shows "length src = length is * row" "r < length is \<Longrightarrow> trow row r src = trow row (is ! r + base) t"
proof -
  have "\<forall>x \<in> set (map (\<lambda>i. trow row (i + base) t) is). length x = row"
  proof
    fix x assume "x \<in> set (map (\<lambda>i. trow row (i + base) t) is)"
    then obtain i where "i \<in> set is" "x = trow row (i + base) t" by auto
    moreover from this assms(1) have "row + (i + base) * row \<le> length t" by auto
    ultimately show "length x = row" by (simp add: trow_def)
  qed
  from trow_concat[OF this] show "length src = length is * row" "r < length is \<Longrightarrow> trow row r src = trow row (is ! r + base) t"
    by (simp_all add: src_def)
qed

lemma size_row_frame [simp]:
  "k_size_row tt (m\<lparr>m_layers := ls\<rparr>) la = k_size_row tt m la" "v_size_row tt (m\<lparr>m_layers := ls\<rparr>) la = v_size_row tt m la"
  "v_n_embd (m\<lparr>m_layers := ls\<rparr>) la = v_n_embd m la"
  "k_size_row tt m (la\<lparr>kl_k_stream := ks\<rparr>) = k_size_row tt m la" "v_size_row tt m (la\<lparr>kl_k_stream := ks\<rparr>) = v_size_row tt m la"
  "v_n_embd m (la\<lparr>kl_k_stream := ks\<rparr>) = v_n_embd m la"
  "k_size_row tt m (la\<lparr>kl_v_stream := vs\<rparr>) = k_size_row tt m la" "v_size_row tt m (la\<lparr>kl_v_stream := vs\<rparr>) = v_size_row tt m la"
  "v_n_embd m (la\<lparr>kl_v_stream := vs\<rparr>) = v_n_embd m la"
  by (simp_all add: k_size_row_def v_size_row_def v_n_embd_def)

text \<open>The situation of \<^verbatim>\<open>state_read_data\<close>: the rows of the ranges \<open>data\<close> of cells of \<open>a\<close> go to the cells \<open>idxs\<close> of \<open>m\<close>.\<close>

definition copies :: "traits \<Rightarrow> nat \<Rightarrow> kv_mem \<Rightarrow> nat \<Rightarrow> (nat \<times> nat) list \<Rightarrow> nat \<Rightarrow> kv_mem \<Rightarrow> nat \<Rightarrow> slot_info \<Rightarrow> nat list \<Rightarrow> bool" where
  "copies tt sza a sta data szb m stb si idxs \<longleftrightarrow> mem_ok tt sza a \<and> mem_ok tt szb m \<and> same_layout a m \<and>
     sta < kv_n_stream (m_kv a) \<and> stb < kv_n_stream (m_kv m) \<and> flat data \<noteq> [] \<and> (\<forall>r \<in> set data. fst r < snd r \<and> snd r \<le> sza) \<and>
     si_idxs si = [idxs] \<and> length idxs = length (flat data) \<and> distinct idxs \<and> (\<forall>i \<in> set idxs. i < szb)"

lemma row_fits: "i < sz \<Longrightarrow> sz * row \<le> n \<Longrightarrow> (i + 0 + 1) * row \<le> (n :: nat)"
  using row_bound[of i sz row] by simp

lemma store_copied:
  assumes si: "si_idxs si = [idxs]" "idxs \<noteq> []" "distinct idxs" "length idxs = length is"
    and a: "\<forall>i \<in> set is. i < sza" "sza * row \<le> length t0" and b: "\<forall>i \<in> set idxs. i < szb" "szb * row \<le> length t"
  defines "src \<equiv> concat (map (\<lambda>i. trow row i t0) is)"
  shows "\<exists>t'. length src = length is * row \<and> store_rows (\<lambda>i. i * row) row (length is) si src t = Some t' \<and> length t' = length t \<and>
    (\<forall>r < length is. trow row (idxs ! r) t' = trow row (is ! r) t0) \<and> (\<forall>j. j \<notin> set idxs \<longrightarrow> trow row j t' = trow row j t)"
proof -
  have s: "length src = length is * row" "r < length is \<Longrightarrow> trow row r src = trow row (is ! r) t0" for r
    using copied_rows[of "is" 0 row t0] row_fits[OF _ a(2)] a(1) by (auto simp: src_def)
  have "i * row = (i + 0) * row \<and> (i + 0 + 1) * row \<le> length t" if "i \<in> set idxs" for i using row_fits[OF _ b(2)] b(1) that by simp
  from store_rows_ok[OF si(1-3) s(1)[folded si(4)] this] s si(4) show ?thesis by auto
qed

lemma sizes_cong:
  assumes "m_kv m = m_kv m'"
  shows "k_size_row tt m la = k_size_row tt m' la" "v_size_row tt m la = v_size_row tt m' la" "v_n_embd m la = v_n_embd m' la"
  using assms by (simp_all add: k_size_row_def v_size_row_def v_n_embd_def)

lemma copies_cells:
  assumes "copies tt sza a sta data szb m stb si idxs"
  shows "\<forall>i \<in> set (flat data). i < sza" "flat data \<noteq> []"
  using assms by (force simp: copies_def flat_def)+

lemma copiesD:
  assumes "copies tt sza a sta data szb m stb si idxs" "l < length (m_layers m)"
  shows "layer_ok tt sza a (m_layers a ! l)" "layer_ok tt szb m (m_layers m ! l)" "idxs \<noteq> []" "length (flat data) \<noteq> 0"
    "cells_size (kv_v_cells (m_kv a) ! sta) = sza" "cells_size (kv_v_cells (m_kv m) ! stb) = szb"
proof -
  have "length (m_layers a) = length (m_layers m)" using assms same_layout_layer(1)[of a m l] by (simp add: copies_def)
  then show "layer_ok tt sza a (m_layers a ! l)" "layer_ok tt szb m (m_layers m ! l)" "idxs \<noteq> []" "length (flat data) \<noteq> 0"
    "cells_size (kv_v_cells (m_kv a) ! sta) = sza" "cells_size (kv_v_cells (m_kv m) ! stb) = szb"
    using assms by (auto simp: copies_def mem_ok_def kv_ok_def stream_ok_def)
qed

lemma k_step:
  assumes c: "copies tt sza a sta data szb m stb si idxs" and l: "l < length (m_layers m)"
  defines "la \<equiv> m_layers a ! l" and "lb \<equiv> m_layers m ! l" and "is \<equiv> flat data"
  defines "row \<equiv> the (k_size_row tt m lb)"
  shows "\<exists>t. length t = length (kl_k_stream lb ! stb) \<and>
    (\<forall>ls bs. m_kv ls = m_kv m \<longrightarrow> m_layers ls ! l = lb \<longrightarrow>
       read_k_layer tt stb (length is) si l (ls, k_bytes tt a sta is la @ bs) = Inr (True, set_k stb l t ls, bs)) \<and>
    (\<forall>r < length is. trow row (idxs ! r) t = k_row tt a sta (is ! r) la) \<and>
    (\<forall>j. j \<notin> set idxs \<longrightarrow> trow row j t = trow row j (kl_k_stream lb ! stb))"
proof -
  note D = copiesD[OF c l, folded la_def lb_def is_def]
  have lay: "same_layout a m" "sta < kv_n_stream (m_kv a)" "stb < kv_n_stream (m_kv m)" using c by (auto simp: copies_def)
  note eq = same_layout_layer[OF lay(1) l, folded la_def lb_def is_def]
  from D(2) have row: "k_size_row tt m lb = Some row" "row < 2 ^ 64" "i32_ok (kl_k_type lb)" "szb * row \<le> length (kl_k_stream lb ! stb)"
    using lay(3) by (auto simp: layer_ok_def row_def)
  from D(1) eq(5)[of tt] row(1) have ra: "k_size_row tt a la = Some row" "sza * row \<le> length (kl_k_stream la ! sta)"
    using lay(2) by (auto simp: layer_ok_def)
  have "si_idxs si = [idxs]" "distinct idxs" "length idxs = length is" "\<forall>i \<in> set is. i < sza" "\<forall>i \<in> set idxs. i < szb"
    using c copies_cells(1)[OF c] by (auto simp: copies_def is_def)
  from store_copied[OF this(1) D(3) this(2-4) ra(2) this(5) row(4)] obtain t where
    t: "length (concat (map (\<lambda>i. trow row i (kl_k_stream la ! sta)) is)) = length is * row"
      "store_rows (\<lambda>i. i * row) row (length is) si (concat (map (\<lambda>i. trow row i (kl_k_stream la ! sta)) is)) (kl_k_stream lb ! stb) = Some t"
      "length t = length (kl_k_stream lb ! stb)" "\<forall>r < length is. trow row (idxs ! r) t = trow row (is ! r) (kl_k_stream la ! sta)"
      "\<forall>j. j \<notin> set idxs \<longrightarrow> trow row j t = trow row j (kl_k_stream lb ! stb)" by blast
  have kr: "k_row tt a sta i la = trow row i (kl_k_stream la ! sta)" for i by (simp add: k_row_def ra)
  have "read_k_layer tt stb (length is) si l (ls, k_bytes tt a sta is la @ bs) = Inr (True, set_k stb l t ls, bs)"
    if ls: "m_kv ls = m_kv m" "m_layers ls ! l = lb" for ls bs
    using read_k_layer_run[of ls l tt row "length is" _ si stb t bs, unfolded ls(2) sizes_cong[OF ls(1)]] row D(4) t(1,2) eq(2)
    by (simp add: k_bytes_def ra kr ls(2))
  then show ?thesis using t by (auto simp: kr)
qed

definition put_v :: "nat \<Rightarrow> byte list \<Rightarrow> kv_layer \<Rightarrow> kv_layer" where
  "put_v st t la = la\<lparr>kl_v_stream := map_option (\<lambda>vs. vs[st := t]) (kl_v_stream la)\<rparr>"

definition read_v :: "traits \<Rightarrow> bool \<Rightarrow> nat \<Rightarrow> nat \<Rightarrow> slot_info \<Rightarrow> nat \<Rightarrow> (kv_mem, bool) io" where
  "read_v tt v_trans = (if v_trans then read_vt_layer tt else read_v_layer tt)"

lemma v_step_rows:
  assumes c: "copies tt sza a sta data szb m stb si idxs" and l: "l < length (m_layers m)" and tr: "\<not> kv_v_trans (m_kv m)"
    and v: "kl_v_stream (m_layers m ! l) = Some vs"
  defines "la \<equiv> m_layers a ! l" and "lb \<equiv> m_layers m ! l" and "is \<equiv> flat data"
  shows "\<exists>t. (\<forall>ls x bs. m_kv ls = m_kv m \<longrightarrow> l < length (m_layers ls) \<longrightarrow> m_layers ls ! l = lb\<lparr>kl_k_stream := x\<rparr> \<longrightarrow>
       read_v_layer tt stb (length is) si l (ls, v_bytes tt a sta is la @ bs) =
         Inr (True, ls\<lparr>m_layers := (m_layers ls)[l := put_v stb t (m_layers ls ! l)]\<rparr>, bs)) \<and>
    (\<forall>r < length is. v_row tt m stb (idxs ! r) (put_v stb t lb) = v_row tt a sta (is ! r) la) \<and>
    (\<forall>j < szb. j \<notin> set idxs \<longrightarrow> v_row tt m stb j (put_v stb t lb) = v_row tt m stb j lb)"
proof -
  note D = copiesD[OF c l, folded la_def lb_def is_def]
  have lay: "same_layout a m" "sta < kv_n_stream (m_kv a)" "stb < kv_n_stream (m_kv m)" "kv_v_trans (m_kv a) = kv_v_trans (m_kv m)"
    using c by (auto simp: copies_def same_layout_def)
  note eq = same_layout_layer[OF lay(1) l, folded la_def lb_def is_def]
  from eq(4) v obtain vsa where va: "kl_v_stream la = Some vsa" by (auto simp: lb_def)
  have vb: "kl_v_stream lb = Some vs" using v by (simp add: lb_def)
  define row where "row = the (v_size_row tt m lb)"
  from D(2) have row: "v_size_row tt m lb = Some row" "row < 2 ^ 64" "i32_ok (kl_v_type lb)" "szb * row \<le> length (vs ! stb)" "stb < length vs"
    using lay(3) tr by (auto simp: layer_ok_def row_def vb)
  from D(1) eq(6)[of tt] row(1) have ra: "v_size_row tt a la = Some row" "sza * row \<le> length (vsa ! sta)"
    using lay(2,4) tr by (auto simp: layer_ok_def va)
  have "si_idxs si = [idxs]" "distinct idxs" "length idxs = length is" "\<forall>i \<in> set is. i < sza" "\<forall>i \<in> set idxs. i < szb"
    using c copies_cells(1)[OF c] by (auto simp: copies_def is_def)
  from store_copied[OF this(1) D(3) this(2-4) ra(2) this(5) row(4)] obtain t where
    t: "length (concat (map (\<lambda>i. trow row i (vsa ! sta)) is)) = length is * row"
      "store_rows (\<lambda>i. i * row) row (length is) si (concat (map (\<lambda>i. trow row i (vsa ! sta)) is)) (vs ! stb) = Some t"
      "\<forall>r < length is. trow row (idxs ! r) t = trow row (is ! r) (vsa ! sta)"
      "\<forall>j. j \<notin> set idxs \<longrightarrow> trow row j t = trow row j (vs ! stb)" by blast
  have "read_v_layer tt stb (length is) si l (ls, v_bytes tt a sta is la @ bs) =
      Inr (True, ls\<lparr>m_layers := (m_layers ls)[l := put_v stb t (m_layers ls ! l)]\<rparr>, bs)"
    if ls: "m_kv ls = m_kv m" "m_layers ls ! l = lb\<lparr>kl_k_stream := x\<rparr>" for ls x bs
    using read_v_layer_run[of ls l vs tt row "length is" _ si stb t bs, unfolded ls(2) sizes_cong[OF ls(1)]] row D(4) t(1,2) eq(3) vb
    by (simp add: v_bytes_def ra va ls(2) put_v_def)
  then show ?thesis using t(3,4) va vb row(1,5) ra(1) tr lay(4) by (auto simp: v_row_def put_v_def)
qed

lemma v_step_cols:
  assumes c: "copies tt sza a sta data szb m stb si idxs" and l: "l < length (m_layers m)" and tr: "kv_v_trans (m_kv m)"
    and v: "kl_v_stream (m_layers m ! l) = Some vs"
  defines "la \<equiv> m_layers a ! l" and "lb \<equiv> m_layers m ! l" and "is \<equiv> flat data"
  shows "\<exists>t. (\<forall>ls x bs. m_kv ls = m_kv m \<longrightarrow> l < length (m_layers ls) \<longrightarrow> m_layers ls ! l = lb\<lparr>kl_k_stream := x\<rparr> \<longrightarrow>
       read_vt_layer tt stb (length is) si l (ls, vt_bytes tt a sta data la @ bs) =
         Inr (True, ls\<lparr>m_layers := (m_layers ls)[l := put_v stb t (m_layers ls ! l)]\<rparr>, bs)) \<and>
    (vt_small tt sza a \<and> vt_small tt szb m \<longrightarrow>
      (\<forall>r < length is. v_row tt m stb (idxs ! r) (put_v stb t lb) = v_row tt a sta (is ! r) la) \<and>
      (\<forall>j < szb. j \<notin> set idxs \<longrightarrow> v_row tt m stb j (put_v stb t lb) = v_row tt m stb j lb))"
proof -
  note D = copiesD[OF c l, folded la_def lb_def is_def]
  have lay: "same_layout a m" "sta < kv_n_stream (m_kv a)" "stb < kv_n_stream (m_kv m)" "kv_v_trans (m_kv a)"
    using c tr by (auto simp: copies_def same_layout_def)
  note eq = same_layout_layer[OF lay(1) l, folded la_def lb_def is_def]
  from eq(4) v obtain vsa where va: "kl_v_stream la = Some vsa" by (auto simp: lb_def)
  have vb: "kl_v_stream lb = Some vs" using v by (simp add: lb_def)
  define el N where "el = ggml_type_size tt (kl_v_type lb)" and "N = the (v_n_embd m lb)"
  from D(2) have row: "v_n_embd m lb = Some N" "N < 2 ^ 32" "i32_ok (kl_v_type lb)" "el < 2 ^ 32" "N * szb * el \<le> length (vs ! stb)" "stb < length vs"
    using lay(3) tr by (auto simp: layer_ok_def el_def N_def vb)
  from D(1) eq(7) row(1) have ra: "v_n_embd a la = Some N" "N * sza * el \<le> length (vsa ! sta)"
    using lay(2,4) by (auto simp: layer_ok_def va el_def eq(3))
  define src where "src = vt_column tt a sta data la (vsa ! sta)"
  have cp: "si_idxs si = [idxs]" "distinct idxs" "length idxs = length is" "\<forall>i \<in> set is. i < sza" "\<forall>i \<in> set idxs. i < szb"
    and d: "\<And>r. r \<in> set data \<Longrightarrow> fst r < snd r \<and> snd r \<le> sza"
    using c copies_cells(1)[OF c] by (auto simp: copies_def is_def)
  have src: "src j = concat (map (\<lambda>r. take ((snd r - fst r) * el) (drop (to_u32 ((fst r + j * sza) * el)) (vsa ! sta))) data)" for j
    by (simp add: src_def vt_column_def el_def eq(3) D(5) Let_def)
  have s: "length (src j) = length is * el" if j: "j < N" for j
    unfolding src is_def using column_range(1)[OF _ _ j ra(2)] d by (intro ranges_length) blast
  have s2: "trow el r (src j) = trow el (is ! r + j * sza) (vsa ! sta)"
    if j: "j < N" and small: "N * sza * el \<le> 2 ^ 32" and r: "r < length is" for j r
  proof -
    have cols: "src j = concat (map (\<lambda>i. trow el (i + j * sza) (vsa ! sta)) is)"
      unfolding src is_def using column_range(2)[OF _ _ j small] d by (intro ranges_rows) blast
    have "\<forall>i \<in> set is. (i + j * sza + 1) * el \<le> length (vsa ! sta)"
    proof
      fix i assume "i \<in> set is"
      then have "(i + j * sza + 1) * el \<le> (Suc j * sza) * el" using cp(4) by (intro mult_le_mono1) (simp add: Suc_le_eq)
      also have "\<dots> \<le> N * sza * el" using j by (intro mult_le_mono1) simp
      finally show "(i + j * sza + 1) * el \<le> length (vsa ! sta)" using ra(2) by linarith
    qed
    from copied_rows(2)[OF this r] show ?thesis by (simp add: cols)
  qed
  have sz: "\<forall>j < N. length (src j) = length idxs * el" using cp s by auto
  from vt_store_ok[OF cp(1) D(3) cp(2,5) sz row(5)] obtain T where
    T: "T 0 = vs ! stb" "\<forall>j < N. store_rows (\<lambda>i. to_u32 (i + j * szb) * el) el (length idxs) si (src j) (T j) = Some (T (Suc j))"
      "N * szb * el \<le> 2 ^ 32 \<Longrightarrow> \<forall>i < length idxs. \<forall>j < N. trow el (idxs ! i + j * szb) (T N) = trow el i (src j)"
      "N * szb * el \<le> 2 ^ 32 \<Longrightarrow> \<forall>x < szb. x \<notin> set idxs \<longrightarrow> (\<forall>j. trow el (x + j * szb) (T N) = trow el (x + j * szb) (vs ! stb))" by blast
  have small: "N * sza * el \<le> 2 ^ 32" "N * szb * el \<le> 2 ^ 32" if "vt_small tt sza a" "vt_small tt szb m"
    using that lay(4) tr va vb ra(1) row(1) l eq(1,3) unfolding vt_small_def la_def lb_def el_def
    by (metis nth_mem option.distinct(1) option.sel)+
  have "read_vt_layer tt stb (length is) si l (ls, vt_bytes tt a sta data la @ bs) =
      Inr (True, ls\<lparr>m_layers := (m_layers ls)[l := put_v stb (T N) (m_layers ls ! l)]\<rparr>, bs)"
    if ls: "m_kv ls = m_kv m" "l < length (m_layers ls)" "m_layers ls ! l = lb\<lparr>kl_k_stream := x\<rparr>" for ls x bs
  proof -
    have b: "vt_bytes tt a sta data la = put_i32 (kl_v_type lb) @ put_u32 el @ put_u32 N @ concat (map src [0..<N])"
      by (simp add: vt_bytes_def va ra Let_def eq(3) el_def src_def)
    show ?thesis
      using read_vt_layer_run[of ls l vs stb N "length is" tt szb src T si bs, unfolded ls(3) sizes_cong[OF ls(1)]] row D(4,6) s T(1,2) vb ls cp(3)
      by (simp add: b put_v_def flip: el_def)
  qed
  moreover have "v_row tt m stb (idxs ! r) (put_v stb (T N) lb) = v_row tt a sta (is ! r) la" if r: "r < length is" and sm: "vt_small tt sza a" "vt_small tt szb m" for r
  proof -
    have "map (\<lambda>x. trow el (idxs ! r + x * szb) (T N)) [0..<N] = map (\<lambda>x. trow el (is ! r + x * sza) (vsa ! sta)) [0..<N]"
      using r T(3)[OF small(2)[OF sm]] s2[OF _ small(1)[OF sm]] cp(3) by (intro map_cong) auto
    then show ?thesis
      using vb va row(1,6) tr lay(4) eq(3) ra(1) D(5,6) by (simp add: v_row_def put_v_def del: map_eq_conv flip: el_def)
  qed
  moreover have "v_row tt m stb j (put_v stb (T N) lb) = v_row tt m stb j lb" 
    if j: "j < szb" "j \<notin> set idxs" and sm: "vt_small tt sza a" "vt_small tt szb m" for j
    using j T(4)[OF small(2)[OF sm]] vb row(6) tr D(6) by (simp add: v_row_def put_v_def flip: el_def)
  ultimately show ?thesis by blast
qed

lemma v_step:
  assumes c: "copies tt sza a sta data szb m stb si idxs" and l: "l < length (m_layers m)"
  defines "la \<equiv> m_layers a ! l" and "lb \<equiv> m_layers m ! l" and "is \<equiv> flat data"
  shows "\<exists>t. (\<forall>ls x bs. m_kv ls = m_kv m \<longrightarrow> l < length (m_layers ls) \<longrightarrow> m_layers ls ! l = lb\<lparr>kl_k_stream := x\<rparr> \<longrightarrow>
       read_v tt (kv_v_trans (m_kv m)) stb (length is) si l (ls, (if kv_v_trans (m_kv a) then vt_bytes tt a sta data else v_bytes tt a sta is) la @ bs) =
         Inr (True, ls\<lparr>m_layers := (m_layers ls)[l := put_v stb t (m_layers ls ! l)]\<rparr>, bs)) \<and>
    (vt_small tt sza a \<and> vt_small tt szb m \<longrightarrow>
      (\<forall>r < length is. v_row tt m stb (idxs ! r) (put_v stb t lb) = v_row tt a sta (is ! r) la) \<and>
      (\<forall>j < szb. j \<notin> set idxs \<longrightarrow> v_row tt m stb j (put_v stb t lb) = v_row tt m stb j lb))"
proof (cases "kl_v_stream (m_layers m ! l)")
  case None
  have la: "kl_v_stream la = None" using None same_layout_layer(4)[of a m l] c l by (auto simp: copies_def la_def)
  have upd: "ls\<lparr>m_layers := (m_layers ls)[l := put_v stb t (m_layers ls ! l)]\<rparr> = ls" "kl_v_stream (m_layers ls ! l) = None"
    if "m_layers ls ! l = lb\<lparr>kl_k_stream := x\<rparr>" for ls x t
  proof -
    show "kl_v_stream (m_layers ls ! l) = None" using None that by (simp add: lb_def)
    then have "put_v stb t (m_layers ls ! l) = m_layers ls ! l" by (simp add: put_v_def)
    then show "ls\<lparr>m_layers := (m_layers ls)[l := put_v stb t (m_layers ls ! l)]\<rparr> = ls" by simp
  qed
  have "read_v tt tr stb (length is) si l (ls, (if tr' then vt_bytes tt a sta data else v_bytes tt a sta is) la @ bs) =
      Inr (True, ls\<lparr>m_layers := (m_layers ls)[l := put_v stb t (m_layers ls ! l)]\<rparr>, bs)"
    if "m_layers ls ! l = lb\<lparr>kl_k_stream := x\<rparr>" for ls x bs t tr tr'
    unfolding upd(1)[OF that] using upd(2)[OF that] la by (simp add: read_v_def read_v_layer_None v_bytes_def vt_bytes_def)
  moreover have "kl_v_stream lb = None" "put_v stb t lb = lb" for t using None by (simp_all add: put_v_def lb_def)
  ultimately show ?thesis using la by (intro exI[of _ "[]"]) (auto simp: v_row_def)
next
  case (Some vs)
  have "kv_v_trans (m_kv a) = kv_v_trans (m_kv m)" using c by (simp add: copies_def same_layout_def)
  then show ?thesis
    using v_step_rows[OF c l _ Some] v_step_cols[OF c l _ Some] unfolding la_def lb_def is_def
    by (cases "kv_v_trans (m_kv m)") (simp_all add: read_v_def, blast)
qed

lemma map_upt_list_update:
  assumes "k < n"
  shows "(map (\<lambda>l. if l < k then f l else g l) [0..<n])[k := f k] = map (\<lambda>l. if l < Suc k then f l else g l) [0..<n]"
  using assms by (intro nth_equalityI) (auto simp: nth_list_update less_Suc_eq)

lemma map_upt_bounds: "map (\<lambda>l. if l < n then f l else g l) [0..<n] = map f [0..<n]"
  by auto

lemma state_read_data_ok:
  assumes c: "copies tt sza a sta data szb m stb si idxs"
  defines "is \<equiv> flat data"
  shows "\<exists>ls. state_read_data tt stb (length is) si (m, data_bytes tt a sta data @ bs) = Inr (True, m\<lparr>m_layers := ls\<rparr>, bs) \<and>
    (vt_small tt sza a \<and> vt_small tt szb m \<longrightarrow> (\<forall>r < length is. cell_rows tt (m\<lparr>m_layers := ls\<rparr>) stb (idxs ! r) = cell_rows tt a sta (is ! r)) \<and>
    (\<forall>st j. j < szb \<longrightarrow> st \<noteq> stb \<or> j \<notin> set idxs \<longrightarrow> cell_rows tt (m\<lparr>m_layers := ls\<rparr>) st j = cell_rows tt m st j))"
proof -
  let ?n = "length (m_layers m)" and ?L = "\<lambda>l. m_layers m ! l" and ?A = "\<lambda>l. m_layers a ! l"
  let ?vb = "\<lambda>l. (if kv_v_trans (m_kv a) then vt_bytes tt a sta data else v_bytes tt a sta is) (?A l)"
  from k_step[OF c, folded is_def] have "\<forall>l \<in> {..<?n}. \<exists>t. length t = length (kl_k_stream (?L l) ! stb) \<and>
    (\<forall>ls bs. m_kv ls = m_kv m \<longrightarrow> m_layers ls ! l = ?L l \<longrightarrow>
       read_k_layer tt stb (length is) si l (ls, k_bytes tt a sta is (?A l) @ bs) = Inr (True, set_k stb l t ls, bs)) \<and>
    (\<forall>r < length is. trow (the (k_size_row tt m (?L l))) (idxs ! r) t = k_row tt a sta (is ! r) (?A l)) \<and>
    (\<forall>j. j \<notin> set idxs \<longrightarrow> trow (the (k_size_row tt m (?L l))) j t = trow (the (k_size_row tt m (?L l))) j (kl_k_stream (?L l) ! stb))" by blast
  from bchoice[OF this] obtain tK where
    k1: "\<And>l ls bs. l < ?n \<Longrightarrow> m_kv ls = m_kv m \<Longrightarrow> m_layers ls ! l = ?L l \<Longrightarrow>
       read_k_layer tt stb (length is) si l (ls, k_bytes tt a sta is (?A l) @ bs) = Inr (True, set_k stb l (tK l) ls, bs)" and
    k2: "\<And>l r. l < ?n \<Longrightarrow> r < length is \<Longrightarrow> trow (the (k_size_row tt m (?L l))) (idxs ! r) (tK l) = k_row tt a sta (is ! r) (?A l)"
      "\<And>l j. l < ?n \<Longrightarrow> j \<notin> set idxs \<Longrightarrow> trow (the (k_size_row tt m (?L l))) j (tK l) = trow (the (k_size_row tt m (?L l))) j (kl_k_stream (?L l) ! stb)"
    by (metis lessThan_iff)
  define Q where "Q = (\<lambda>l t. (\<forall>ls x bs. m_kv ls = m_kv m \<longrightarrow> l < length (m_layers ls) \<longrightarrow> m_layers ls ! l = (?L l)\<lparr>kl_k_stream := x\<rparr> \<longrightarrow>
       read_v tt (kv_v_trans (m_kv m)) stb (length is) si l (ls, ?vb l @ bs) = Inr (True, ls\<lparr>m_layers := (m_layers ls)[l := put_v stb t (m_layers ls ! l)]\<rparr>, bs)) \<and>
    (vt_small tt sza a \<and> vt_small tt szb m \<longrightarrow>
      (\<forall>r < length is. v_row tt m stb (idxs ! r) (put_v stb t (?L l)) = v_row tt a sta (is ! r) (?A l)) \<and>
      (\<forall>j < szb. j \<notin> set idxs \<longrightarrow> v_row tt m stb j (put_v stb t (?L l)) = v_row tt m stb j (?L l))))"
  have "\<forall>l \<in> {..<?n}. \<exists>t. Q l t" using v_step[OF c, folded is_def] unfolding Q_def by blast
  from bchoice[OF this] obtain tV where tV: "\<And>l. l < ?n \<Longrightarrow> Q l (tV l)" by blast
  note v1 = tV[unfolded Q_def, THEN conjunct1, rule_format]
  have v2: "r < length is \<Longrightarrow> v_row tt m stb (idxs ! r) (put_v stb (tV l) (?L l)) = v_row tt a sta (is ! r) (?A l)"
    "j < szb \<Longrightarrow> j \<notin> set idxs \<Longrightarrow> v_row tt m stb j (put_v stb (tV l) (?L l)) = v_row tt m stb j (?L l)"
    if "l < ?n" "vt_small tt sza a \<and> vt_small tt szb m" for l r j
    using tV[OF that(1), unfolded Q_def] that(2) by blast+
  define LK where "LK = (\<lambda>l. (?L l)\<lparr>kl_k_stream := (kl_k_stream (?L l))[stb := tK l]\<rparr>)"
  define LV where "LV = (\<lambda>l. put_v stb (tV l) (LK l))"
  let ?M1 = "\<lambda>k. m\<lparr>m_layers := map (\<lambda>l. if l < k then LK l else ?L l) [0..<?n]\<rparr>"
  let ?M2 = "\<lambda>k. m\<lparr>m_layers := map (\<lambda>l. if l < k then LV l else LK l) [0..<?n]\<rparr>"
  have M: "?M1 0 = m" "?M1 ?n = ?M2 0" by (simp_all add: map_nth)
  have "read_k_layer tt stb (length is) si k (?M1 k, k_bytes tt a sta is (?A k) @ bs) = Inr (True, ?M1 (Suc k), bs)" if k: "k < ?n" for k bs
    using k1[of k "?M1 k" bs] k map_upt_list_update[OF k, of LK ?L] by (simp add: LK_def)
  from io_for_run[where M = ?M1, OF this]
  have K: "io_for (read_k_layer tt stb (length is) si) [0..<?n] (m, concat (map (\<lambda>l. k_bytes tt a sta is (?A l)) [0..<?n]) @ bs) = Inr (True, ?M1 ?n, bs)" for bs
    by (simp only: M(1))
  have "read_v tt (kv_v_trans (m_kv m)) stb (length is) si k (?M2 k, ?vb k @ bs) = Inr (True, ?M2 (Suc k), bs)" if k: "k < ?n" for k bs
    using v1[of k "?M2 k" "(kl_k_stream (?L k))[stb := tK k]" bs] k map_upt_list_update[OF k, of LV LK] by (simp add: LK_def LV_def)
  from io_for_run[where M = ?M2, OF this]
  have V: "io_for (read_v tt (kv_v_trans (m_kv m)) stb (length is) si) [0..<?n] (?M2 0, concat (map ?vb [0..<?n]) @ bs) = Inr (True, ?M2 ?n, bs)" for bs .
  have lay: "length (m_layers a) = ?n" "kv_v_trans (m_kv a) = kv_v_trans (m_kv m)" "?n < 2 ^ 32" "length is \<le> szb" "stb < kv_n_stream (m_kv m)" "stb < kv_n_stream (m_kv a)"
    using c card_mono[of "{..<szb}" "set idxs"] by (auto simp: is_def copies_def same_layout_def mem_ok_def distinct_card subset_eq dest: map_eq_imp_length_eq)
  have sz: "cells_size (kv_v_cells (m_kv m) ! stb) = szb" using c by (auto simp: copies_def mem_ok_def kv_ok_def stream_ok_def)
  have as: "m_layers a = map ?A [0..<?n]" by (metis lay(1) map_nth)
  have bytes: "data_bytes tt a sta data = put_u32 (if kv_v_trans (m_kv m) then 1 else 0) @ put_u32 ?n @
      concat (map (\<lambda>l. k_bytes tt a sta is (?A l)) [0..<?n]) @ concat (map ?vb [0..<?n])"
    unfolding data_bytes_def lay(1,2) is_def[symmetric] by (subst (1 2) as) (simp add: comp_def)
  have run: "state_read_data tt stb (length is) si (m, data_bytes tt a sta data @ bs) = Inr (True, ?M2 ?n, bs)"
    using lay sz K[of "concat (map ?vb [0..<?n]) @ bs"] V[of bs]
    by (simp add: bytes state_read_data_def u32.bind_put io_simps M(2) read_v_def del: map_map split: if_splits)
  let ?ls = "map LV [0..<?n]"
  have M2: "?M2 ?n = m\<lparr>m_layers := ?ls\<rparr>" by (simp add: map_upt_bounds)
  have kr: "k_row tt (m\<lparr>m_layers := ?ls\<rparr>) st j (LV l) = trow (the (k_size_row tt m (?L l))) j ((kl_k_stream (?L l))[stb := tK l] ! st)" for st j l
    by (simp add: k_row_def LV_def LK_def put_v_def)
  have vr: "v_row tt (m\<lparr>m_layers := ?ls\<rparr>) st j (LV l) = v_row tt m st j (put_v stb (tV l) (?L l))" for st j l
    by (cases "kl_v_stream (?L l)") (simp_all add: v_row_def LV_def LK_def put_v_def)
  have len: "stb < length (kl_k_stream (?L l))" if "l < ?n" for l using copiesD(2)[OF c that] lay(5) by (simp add: layer_ok_def)
  have other: "v_row tt m st j (put_v stb (tV l) (?L l)) = v_row tt m st j (?L l)" if "st \<noteq> stb" for st j l
    using that by (auto simp: v_row_def put_v_def split: option.splits)
  have rows: "cell_rows tt (m\<lparr>m_layers := ?ls\<rparr>) stb (idxs ! r) = cell_rows tt a sta (is ! r)" if r: "r < length is" and sm: "vt_small tt sza a \<and> vt_small tt szb m" for r
    unfolding cell_rows_def by (subst as) (use r sm len k2(1) v2(1) in \<open>auto simp: kr vr\<close>)
  have keep: "cell_rows tt (m\<lparr>m_layers := ?ls\<rparr>) st j = cell_rows tt m st j" 
    if j: "j < szb" "st \<noteq> stb \<or> j \<notin> set idxs" and sm: "vt_small tt sza a \<and> vt_small tt szb m" for st j
  proof -
    have "(k_row tt (m\<lparr>m_layers := ?ls\<rparr>) st j (LV l), v_row tt (m\<lparr>m_layers := ?ls\<rparr>) st j (LV l)) = (k_row tt m st j (?L l), v_row tt m st j (?L l))" if l: "l < ?n" for l
      unfolding kr vr using j len[OF l] k2(2)[OF l] v2(2)[OF l sm] other[of st j l] by (cases "st = stb") (auto simp: k_row_def)
    then have "map (\<lambda>l. (k_row tt (m\<lparr>m_layers := ?ls\<rparr>) st j (LV l), v_row tt (m\<lparr>m_layers := ?ls\<rparr>) st j (LV l))) [0..<?n] =
        map (\<lambda>l. (k_row tt m st j (?L l), v_row tt m st j (?L l))) [0..<?n]" by (intro map_cong refl) (auto simp only: set_upt atLeastLessThan_iff)
    also have "\<dots> = map (\<lambda>la. (k_row tt m st j la, v_row tt m st j la)) (map ?L [0..<?n])" by (simp only: map_map comp_def)
    moreover have "m_layers (m\<lparr>m_layers := ?ls\<rparr>) = ?ls" by simp
    ultimately show ?thesis by (simp only: cell_rows_def map_nth map_map comp_def)
  qed
  from run rows keep show ?thesis unfolding M2 by blast
qed

section \<open>The cells of one sequence\<close>

definition seq_cell_bytes :: "llama_seq_id \<Rightarrow> llama_pos \<Rightarrow> byte list" where
  "seq_cell_bytes s p = put_i32 p @ put_u32 1 @ put_i32 s"

lemma write_cell_seq:
  assumes "i < length (c_pos c)" "saved s c i" "seq_id_ok s" "nat s < kv_n_seq_max (m_kv m)"
  shows "write_cell m s c i = Some [put_i32 (c_pos c ! i), put_u32 1, put_i32 s]"
proof -
  let ?f = "\<lambda>cur ids. if int cur = s \<or> s = -1 then do {
           has \<leftarrow> cells_seq_has i (int cur) c;
           Some (if has then ids @ [int cur] else ids)
         } else Some ids"
  have s: "0 \<le> s" "s \<in> c_seq c ! i" "c_pos c ! i \<noteq> -1" using assms(2,3) by (auto simp: seq_id_ok_def saved_def)
  have "\<exists>ids. for_loop ?f [0..<kv_n_seq_max (m_kv m)] [] = Some ids \<and> ids = (if nat s < kv_n_seq_max (m_kv m) then [s] else [])"
  proof (rule for_upt_rule[where I = "\<lambda>k ids. ids = (if nat s < k then [s] else [])"])
    fix k ids assume "ids = (if nat s < k then [s] else [])"
    then show "\<exists>s'. ?f k ids = Some s' \<and> s' = (if nat s < Suc k then [s] else [])"
      using s assms(1,3) by (auto simp: cells_seq_has_ok less_Suc_eq)
  qed simp
  then show ?thesis using assms(1,4) s by (simp add: write_cell_def cells_get_ok)
qed

lemma state_write_meta_seq:
  assumes wf: "wf_cells (kv_v_cells (m_kv m) ! st)" and s: "seq_id_ok s" "nat s < kv_n_seq_max (m_kv m)"
    and d: "flat data = saved_cells s (kv_v_cells (m_kv m) ! st)"
  shows "\<exists>cs. state_write_meta st data s m = Some cs \<and>
    concat cs = concat (map (\<lambda>i. seq_cell_bytes s (c_pos (kv_v_cells (m_kv m) ! st) ! i)) (flat data))"
proof -
  let ?c = "kv_v_cells (m_kv m) ! st"
  have "in_ranges (write_cell m s ?c) data = Some (map (\<lambda>i. [put_i32 (c_pos ?c ! i), put_u32 1, put_i32 s]) (flat data))"
    by (rule in_ranges_Some) (use write_cell_seq[OF _ _ s] in \<open>auto simp: d saved_cells_def cells_size_def\<close>)
  moreover have "concat (concat (map (\<lambda>i. [put_i32 (c_pos ?c ! i), put_u32 1, put_i32 s]) is)) = concat (map (\<lambda>i. seq_cell_bytes s (c_pos ?c ! i)) is)" for "is"
    by (induction "is") (simp_all add: seq_cell_bytes_def)
  ultimately show ?thesis by (simp add: state_write_meta_def)
qed

lemma read_positions_run:
  assumes "\<forall>p \<in> set ps. i32_ok p" "i32_ok s"
  shows "read_positions (length ps) qs (m, concat (map (seq_cell_bytes s) ps) @ bs) = Inr (Some (qs @ ps), m, bs)"
  using assms(1)
proof (induction ps arbitrary: qs)
  case (Cons p ps)
  then show ?case using assms(2) by (simp add: seq_cell_bytes_def i32.bind_put u32.bind_put)
qed (simp add: io_simps)

lemma restore_ubatch_simps:
  fixes kv d ps
  defines "u \<equiv> restore_ubatch kv d ps"
  shows "u_n_tokens u = length ps" "u_n_seqs_unq u = 1" "u_seq_id_unq u = [d]" "u_pos u = ps" "u_n_pos u = n_pos_per_embd (kv_hparams kv)"
    "u_n_seq_id u = replicate (length ps) 1" "u_seq_id u = replicate (length ps) [d]"
    "i < length ps \<Longrightarrow> token_ids u i = [d]"
  by (simp_all add: u_def restore_ubatch_def ubatch_reserve_def Let_def split_reset_def allocr_clear_def allocr_new_def token_ids_def)

lemma restore_ubatch_placeable:
  assumes "kv_ok sz kv" "kv_seq_ok kv d" "ps \<noteq> []" "\<forall>p \<in> set ps. 0 \<le> p"
  defines "u \<equiv> restore_ubatch kv d ps"
  shows "ubatch_placeable kv u" "ubatch_n_seqs kv u = 1" "ubatch_n_tokens kv u = length ps" "ubatch_stream kv u 0 = kv_stream kv d"
    "ubatch_positions u t = (if t = d then set ps else {})"
proof -
  note f = restore_ubatch_simps[where kv = kv and d = d and ps = ps, folded u_def]
  show n: "ubatch_n_seqs kv u = 1" "ubatch_n_tokens kv u = length ps" "ubatch_stream kv u 0 = kv_stream kv d"
    by (simp_all add: ubatch_n_seqs_def ubatch_n_tokens_def ubatch_stream_def f)
  show "ubatch_positions u t = (if t = d then set ps else {})"
  proof -
    have "ubatch_positions u t = {ps ! i |i. i < length ps \<and> t = d}"
      unfolding ubatch_positions_def f(1,4) using f(8) by (intro Collect_cong) auto
    then show ?thesis by (auto simp: set_conv_nth)
  qed
  have "seq_id_ok d" by (rule kv_okD(3)[OF assms(1,2)])
  then show "ubatch_placeable kv u"
    using assms(2-4) by (auto simp: ubatch_placeable_def ubatch_fits_def n f Let_def token_ok_def Suc_le_eq)
qed

text \<open>The cells that can take the restored tokens: the empty ones and those of the old contents of \<open>d\<close>.\<close>

definition free_for :: "llama_kv_cache \<Rightarrow> llama_seq_id \<Rightarrow> nat set" where
  "free_for kv d = (let V = view (kv_v_cells kv ! kv_stream kv d) in {i. i < length V \<and> (v_pos (V ! i) = -1 \<or> v_seq (V ! i) = {d})})"

lemma seq_rm_all:
  assumes ok: "kv_ok sz kv" and d: "kv_seq_ok kv d" and p: "\<forall>p \<in> kv_positions kv d. p < INT32_MAX"
  shows "\<exists>cs hs. kv_seq_rm d (-1) (-1) kv = Some (kv\<lparr>kv_v_cells := cs, kv_v_heads := hs\<rparr>, True) \<and> kv_ok sz (kv\<lparr>kv_v_cells := cs, kv_v_heads := hs\<rparr>) \<and>
    kv_positions (kv\<lparr>kv_v_cells := cs, kv_v_heads := hs\<rparr>) = (kv_positions kv)(d := {}) \<and>
    {i. i < length (view (cs ! kv_stream kv d)) \<and> v_pos (view (cs ! kv_stream kv d) ! i) = -1} = free_for kv d"
proof -
  let ?st = "kv_stream kv d"
  note st = kv_ok_stream[OF ok d] and lt = kv_okD(2)[OF ok d]
  from kv_seq_rm_ok[OF ok d, of "-1" "-1"] obtain c h where
    r: "kv_seq_rm d (-1) (-1) kv = Some (kv_put ?st c h kv, True)" "wf_cells c" "cells_size c = sz"
      "view c = map (rm_cell d 0 INT32_MAX) (view (kv_v_cells kv ! ?st))" "h \<le> sz" by (auto simp: clamp_p0_def clamp_p1_def)
  have ok': "kv_ok sz (kv_put ?st c h kv)"
    by (rule kv_put_ok[OF ok lt r(2,3,5)]) (use r(4) st(3) placed_cells(1) in auto)
  have pos: "0 \<le> v_pos v \<and> v_pos v < INT32_MAX" if "v \<in> set (view (kv_v_cells kv ! ?st))" "d \<in> v_seq v" for v
  proof -
    have "cell_ok v" using st(1) that(1) by (auto simp: wf_cells_def)
    then have "0 \<le> v_pos v" using that(2) by (cases "v_pos v = -1") (auto simp: cell_ok_def)
    moreover have "v_pos v \<in> kv_positions kv d" using that by (auto simp: kv_positions_def seq_positions_def)
    ultimately show ?thesis using p by blast
  qed
  have "kv_positions (kv_put ?st c h kv) t = ((kv_positions kv)(d := {})) t" for t
  proof -
    have "kv_positions kv d - {0..<INT32_MAX} = {}" using pos by (force simp: kv_positions_def seq_positions_def)
    then show ?thesis by (auto simp: kv_positions_put[OF ok lt] r(4) rm_positions) (auto simp: kv_positions_def)
  qed
  moreover have "v_pos (rm_cell d 0 INT32_MAX v) = -1 \<longleftrightarrow> v_pos v = -1 \<or> v_seq v = {d}" if v: "v \<in> set (view (kv_v_cells kv ! ?st))" for v
    using pos[OF v] by (cases "d \<in> v_seq v") (auto simp: rm_cell_def)
  then have "{i. i < length (view c) \<and> v_pos (view c ! i) = -1} = free_for kv d"
    by (auto simp: r(4) free_for_def Let_def simp del: length_view nth_view)
  ultimately show ?thesis using r(1) ok' lt kv_okD(4)[OF ok]
    by (intro exI[of _ "(kv_v_cells kv)[?st := c]"] exI[of _ "(kv_v_heads kv)[?st := h]"]) (auto simp: kv_put_def fun_eq_iff)
qed

text \<open>What \<^verbatim>\<open>state_read_meta\<close> does for one sequence.\<close>

definition seq_restored :: "nat \<Rightarrow> llama_kv_cache \<Rightarrow> llama_seq_id \<Rightarrow> llama_pos list \<Rightarrow> nat list \<Rightarrow> llama_kv_cache \<Rightarrow> bool" where
  "seq_restored sz kv d ps idxs kv' \<longleftrightarrow> same_shape kv kv' \<and> kv_ok sz kv' \<and>
     length idxs = length ps \<and> distinct idxs \<and> set idxs \<subseteq> free_for kv d \<and> (\<forall>i \<in> set idxs. i < sz) \<and>
     (\<forall>t. kv_seq_ok kv t \<longrightarrow> kv_positions kv' t = (if t = d then set ps else kv_positions kv t)) \<and>
     (\<forall>r < length ps. v_pos (view (kv_v_cells kv' ! kv_stream kv d) ! (idxs ! r)) = ps ! r \<and>
        v_seq (view (kv_v_cells kv' ! kv_stream kv d) ! (idxs ! r)) = {d})"

lemma read_meta_seq_ok:
  assumes ok: "kv_ok sz kv" and d: "kv_seq_ok kv d" and swa: "kv_swa_type kv = LLAMA_SWA_TYPE_NONE" and p: "\<forall>p \<in> kv_positions kv d. p < INT32_MAX"
    and ps: "ps \<noteq> []" "\<forall>p \<in> set ps. 0 \<le> p \<and> i32_ok p" "i32_ok q" and room: "length ps \<le> card (free_for kv d)"
    and m: "m_kv m = kv"
  shows "\<exists>si idxs kv'. read_meta_seq (kv_stream kv d) (length ps) d (m, concat (map (seq_cell_bytes q) ps) @ bs) = Inr (Some si, m\<lparr>m_kv := kv'\<rparr>, bs) \<and>
    si_idxs si = [idxs] \<and> seq_restored sz kv d ps idxs kv'"
proof -
  let ?st = "kv_stream kv d"
  from seq_rm_all[OF ok d p] obtain cs hs where
    rm: "kv_seq_rm d (-1) (-1) kv = Some (kv\<lparr>kv_v_cells := cs, kv_v_heads := hs\<rparr>, True)" and ok1: "kv_ok sz (kv\<lparr>kv_v_cells := cs, kv_v_heads := hs\<rparr>)"
      and pos1: "kv_positions (kv\<lparr>kv_v_cells := cs, kv_v_heads := hs\<rparr>) = (kv_positions kv)(d := {})"
      and fr: "{i. i < length (view (cs ! ?st)) \<and> v_pos (view (cs ! ?st) ! i) = -1} = free_for kv d" by blast
  define kv1 where "kv1 = kv\<lparr>kv_v_cells := cs, kv_v_heads := hs\<rparr>"
  define u where "u = restore_ubatch kv1 d ps"
  have sh: "same_shape kv kv1" unfolding kv1_def ..
  note fm = same_shape_frame[OF sh]
  have d1: "kv_seq_ok kv1 d" "kv_stream kv1 d = ?st" using d fm by simp_all
  note pl = restore_ubatch_placeable[OF ok1[folded kv1_def] d1(1) ps(1), folded u_def] and f = restore_ubatch_simps[where kv = kv1 and d = d and ps = ps, folded u_def]
  have nn: "\<forall>p \<in> set ps. 0 \<le> p" using ps(2) by blast
  have "has_room kv1 u" using room pl(2-4)[OF nn] d1(2) fr by (simp add: has_room_def n_empty_def kv1_def)
  with find_slot_fits[OF ok1[folded kv1_def] _ pl(1)[OF nn]] swa fm pl(2,3,4)[OF nn] d1(2) obtain si where
    si: "find_slot u False kv1 = Some si" "\<not> slot_is_empty si" "slot_fits sz kv1 si u (length ps)" "si_strm si = [?st]" by auto
  from si(3,4) obtain idxs where idxs: "si_idxs si = [idxs]" "length idxs = length ps" "distinct idxs"
    "\<forall>k \<in> set idxs. k < sz \<and> c_pos (kv_v_cells kv1 ! ?st) ! k = -1" by (auto simp: slot_fits_def length_Suc_conv)
  from apply_ubatch_ok[OF ok1[folded kv1_def] si(3)] obtain cs2 hs2 where
    ap: "apply_ubatch si u kv1 = Some (kv1\<lparr>kv_v_cells := cs2, kv_v_heads := hs2\<rparr>)" "kv_ok sz (kv1\<lparr>kv_v_cells := cs2, kv_v_heads := hs2\<rparr>)"
      "rows_placed kv1 si u (length ps) 1 (kv1\<lparr>kv_v_cells := cs2\<rparr>)"
      "\<forall>t. kv_seq_ok kv1 t \<longrightarrow> kv_positions (kv1\<lparr>kv_v_cells := cs2, kv_v_heads := hs2\<rparr>) t = kv_positions kv1 t \<union> ubatch_positions u t"
    by (auto simp: si(4))
  define kv2 where "kv2 = kv1\<lparr>kv_v_cells := cs2, kv_v_heads := hs2\<rparr>"
  have lt: "?st < kv_n_stream kv" by (rule kv_okD(2)[OF ok d])
  have len1: "length (c_pos (kv_v_cells kv1 ! ?st)) = sz" and len2: "wf_cells (cs2 ! ?st)" "length (c_pos (cs2 ! ?st)) = sz"
    using kv_okD(1)[OF ok1[folded kv1_def], of ?st] kv_okD(1)[OF ap(2), of ?st] lt by (auto simp: stream_ok_def cells_size_def kv1_def)
  have "view (cs2 ! ?st) = place_row u 0 idxs (view (kv_v_cells kv1 ! ?st))"
    using ap(3) si(4) idxs(1) by (auto simp: rows_placed_def kv_cells_update_inject Let_def)
  then have tok: "view (cs2 ! ?st) ! (idxs ! r) = token_cell u r (view (kv_v_cells kv1 ! ?st) ! (idxs ! r))" if "r < length ps" for r
    using place_row_nth(2)[OF idxs(3), of "view (kv_v_cells kv1 ! ?st)" r u 0] idxs(2,4) that by (simp add: len1)
  have cell: "v_pos (view (cs2 ! ?st) ! (idxs ! r)) = ps ! r" "v_seq (view (cs2 ! ?st) ! (idxs ! r)) = {d}" if "r < length ps" for r
    using tok[OF that] that by (simp_all add: token_cell_def f)
  have ix: "idxs ! r < sz" if "r < length ps" for r using idxs that by simp
  have "check_restored ?st si u d kv2 = Some ()"
  proof -
    have "seq_id_ok d" by (rule kv_okD(3)[OF ok d])
    moreover have "ps ! r \<noteq> -1" if "r < length ps" for r using bspec[OF nn nth_mem[OF that]] by linarith
    ultimately show ?thesis
      using cell ix len2 idxs(2) d1
      by (auto simp: check_restored_def slot_n_stream_def si(4) idxs(1) f kv2_def Let_def cells_get_ok cells_seq_has_ok intro!: for_loop_skip)
  qed
  then have run: "read_meta_seq ?st (length ps) d (m, concat (map (seq_cell_bytes q) ps) @ bs) = Inr (Some si, m\<lparr>m_kv := kv2\<rparr>, bs)"
    using rm ap(1) si(1,2) m read_positions_run[of ps q "[]" "m\<lparr>m_kv := kv1\<rparr>" bs] ps(2,3)
    by (simp add: read_meta_seq_def io_simps io_kv_def Let_def flip: kv1_def kv2_def u_def)
  have "same_shape kv kv2" using same_shape_trans[OF sh] by (auto simp: kv2_def)
  moreover have "set idxs \<subseteq> free_for kv d" using idxs(4) len1 unfolding fr[symmetric] by (auto simp: kv1_def)
  moreover have "kv_positions kv2 t = (if t = d then set ps else kv_positions kv t)" if "kv_seq_ok kv t" for t
    using ap(4) that fm pl(5)[OF nn, of t] pos1 by (simp add: kv2_def flip: kv1_def)
  moreover have "kv_v_cells kv2 = cs2" by (simp add: kv2_def)
  ultimately have "seq_restored sz kv d ps idxs kv2"
    unfolding seq_restored_def using ap(2)[folded kv2_def] idxs cell by simp
  with run idxs(1) show ?thesis by blast
qed

section \<open>The round trip of a sequence\<close>

definition saved_ranges :: "llama_seq_id \<Rightarrow> llama_kv_cells \<Rightarrow> (nat \<times> nat) list" where
  "saved_ranges s c = snd (the (cell_ranges s c))"

lemma saved_ranges_ok:
  assumes "wf_cells c" "s = -1 \<or> seq_id_ok s"
  shows "cell_ranges s c = Some (length (saved_cells s c), saved_ranges s c)" "flat (saved_ranges s c) = saved_cells s c"
    "r \<in> set (saved_ranges s c) \<Longrightarrow> fst r < snd r \<and> snd r \<le> cells_size c"
  using cell_ranges_ok[OF assms] by (auto simp: saved_ranges_def)

definition seq_stream_bytes :: "traits \<Rightarrow> llama_seq_id \<Rightarrow> kv_mem \<Rightarrow> nat \<Rightarrow> byte list" where
  "seq_stream_bytes tt s m st = (let c = kv_v_cells (m_kv m) ! st; is = saved_cells s c in
     put_u32 (length is) @ (if is = [] then [] else concat (map (\<lambda>i. seq_cell_bytes s (c_pos c ! i)) is) @ data_bytes tt m st (saved_ranges s c)))"

lemma write_stream_ok:
  assumes ok: "mem_ok tt sz m" and s: "seq_id_ok s" "nat s < kv_n_seq_max (m_kv m)" and st: "st < kv_n_stream (m_kv m)"
  shows "\<exists>cs. write_stream tt s m st = Some cs \<and> concat cs = seq_stream_bytes tt s m st"
proof -
  let ?c = "kv_v_cells (m_kv m) ! st"
  have wf: "wf_cells ?c" "cells_size ?c = sz" using ok st by (auto simp: mem_ok_def kv_ok_def stream_ok_def)
  note d = saved_ranges_ok[OF wf(1) disjI2[OF s(1)]]
  have d3: "\<forall>r \<in> set (saved_ranges s ?c). fst r < snd r \<and> snd r \<le> sz" using d(3) wf(2) by blast
  show ?thesis
  proof (cases "saved_cells s ?c = []")
    case True
    then show ?thesis using d(1) by (simp add: write_stream_def seq_stream_bytes_def)
  next
    case False
    with state_write_meta_seq[OF wf(1) s d(2)] state_write_data_ok[OF ok st d3] d(1,2) show ?thesis
      by (fastforce simp: write_stream_def seq_stream_bytes_def Let_def)
  qed
qed

lemma state_write_ok:
  assumes "mem_ok tt sz m" "seq_id_ok s" "nat s < kv_n_seq_max (m_kv m)"
  shows "\<exists>cs. state_write tt s m = Some cs \<and>
    concat cs = put_u32 (kv_n_stream (m_kv m)) @ concat (map (seq_stream_bytes tt s m) [0..<kv_n_stream (m_kv m)])"
proof -
  have "\<exists>css. those (map (write_stream tt s m) [0..<kv_n_stream (m_kv m)]) = Some css \<and>
      concat (concat css) = concat (map (seq_stream_bytes tt s m) [0..<kv_n_stream (m_kv m)])"
    using write_stream_ok[OF assms] by (intro those_ex ballI) auto
  then show ?thesis by (auto simp: state_write_def)
qed

lemma saved_other_stream:
  assumes "kv_ok sz kv" "st < kv_n_stream kv" "st \<noteq> kv_stream kv s" "0 \<le> s"
  shows "saved_cells s (kv_v_cells kv ! st) = []"
proof -
  have "placed kv st v" if "v \<in> set (view (kv_v_cells kv ! st))" for v using kv_okD(1)[OF assms(1,2)] that by (auto simp: stream_ok_def)
  then have "s \<notin> c_seq (kv_v_cells kv ! st) ! i" if "i < length (c_pos (kv_v_cells kv ! st))" for i
    using that assms(3) by (fastforce simp: placed_def view_def)
  then show ?thesis using assms(4) by (auto simp: saved_cells_def saved_def cells_size_def filter_empty_conv)
qed

lemma saved_positions:
  assumes "kv_ok sz kv" "kv_seq_ok kv s"
  defines "c \<equiv> kv_v_cells kv ! kv_stream kv s"
  shows "(\<lambda>i. c_pos c ! i) ` set (saved_cells s c) = kv_positions kv s" "\<forall>i \<in> set (saved_cells s c). i < sz \<and> 0 \<le> c_pos c ! i"
proof -
  have wf: "wf_cells c" "length (c_pos c) = sz" using kv_ok_stream[OF assms(1,2)] by (auto simp: c_def cells_size_def)
  have cell: "0 \<le> c_pos c ! i" if "i < sz" "s \<in> c_seq c ! i" for i
    using wf_cell_ok[OF wf(1), of i] that wf(2) by (cases "c_pos c ! i = -1") (auto simp: cell_ok_def)
  have s: "0 \<le> s" using assms(2) by (simp add: kv_seq_ok_def)
  have mem: "i \<in> set (saved_cells s c) \<longleftrightarrow> i < sz \<and> s \<in> c_seq c ! i" for i
    using cell[of i] s by (auto simp: saved_cells_def saved_def cells_size_def wf(2))
  show "\<forall>i \<in> set (saved_cells s c). i < sz \<and> 0 \<le> c_pos c ! i" using mem cell by auto
  have "kv_positions kv s = {c_pos c ! i |i. i < sz \<and> s \<in> c_seq c ! i}"
    unfolding kv_positions_def seq_positions_def c_def[symmetric] by (force simp: view_def wf(2))
  then show "(\<lambda>i. c_pos c ! i) ` set (saved_cells s c) = kv_positions kv s" by (auto simp: mem)
qed

lemma read_stream_empty:
  assumes "0 \<le> s" "saved_cells s (kv_v_cells (m_kv a) ! st) = []"
  shows "read_stream tt d x (m, seq_stream_bytes tt s a st @ bs) = Inr (True, m, bs)"
  using assms by (simp add: read_stream_def seq_stream_bytes_def u32.bind_put io_simps)

lemma mem_ok_kv:
  assumes "mem_ok tt sz m" "same_shape (m_kv m) kv'" "kv_ok sz kv'"
  shows "mem_ok tt sz (m\<lparr>m_kv := kv'\<rparr>)" "same_layout a m \<Longrightarrow> same_layout a (m\<lparr>m_kv := kv'\<rparr>)"
    "st < kv_n_stream (m_kv m) \<Longrightarrow> cell_rows tt (m\<lparr>m_kv := kv'\<rparr>) st i = cell_rows tt m st i"
proof -
  from assms(2) have f: "kv_hparams kv' = kv_hparams (m_kv m)" "kv_n_stream kv' = kv_n_stream (m_kv m)" "kv_v_trans kv' = kv_v_trans (m_kv m)"
    by (auto simp: same_shape_def)
  then have sizes: "k_size_row tt (m\<lparr>m_kv := kv'\<rparr>) = k_size_row tt m" "v_size_row tt (m\<lparr>m_kv := kv'\<rparr>) = v_size_row tt m" "v_n_embd (m\<lparr>m_kv := kv'\<rparr>) = v_n_embd m"
    by (simp_all add: k_size_row_def v_size_row_def v_n_embd_def fun_eq_iff)
  have "m_kv (m\<lparr>m_kv := kv'\<rparr>) = kv'" by simp
  then have "layer_ok tt sz (m\<lparr>m_kv := kv'\<rparr>) = layer_ok tt sz m" unfolding layer_ok_def fun_eq_iff by (simp only: sizes f simp_thms)
  then show "mem_ok tt sz (m\<lparr>m_kv := kv'\<rparr>)"
    using assms(1,3) by (simp add: mem_ok_def f)
  show "same_layout a m \<Longrightarrow> same_layout a (m\<lparr>m_kv := kv'\<rparr>)" by (simp add: same_layout_def f)
  have "cells_size (kv_v_cells kv' ! st) = cells_size (kv_v_cells (m_kv m) ! st)" if "st < kv_n_stream (m_kv m)"
    using that assms(1,3) f(2) by (auto simp: mem_ok_def kv_ok_def stream_ok_def)
  then show "st < kv_n_stream (m_kv m) \<Longrightarrow> cell_rows tt (m\<lparr>m_kv := kv'\<rparr>) st i = cell_rows tt m st i"
    by (auto simp: cell_rows_def k_row_def v_row_def sizes f split: option.splits)
qed

lemma read_stream_seq:
  assumes a: "mem_ok tt sza a" "kv_seq_ok (m_kv a) s" and b: "mem_ok tt szb b" "kv_seq_ok (m_kv b) d" "kv_swa_type (m_kv b) = LLAMA_SWA_TYPE_NONE"
    and lay: "same_layout a b" and pa: "\<forall>p \<in> kv_positions (m_kv a) s. p < INT32_MAX" and pb: "\<forall>p \<in> kv_positions (m_kv b) d. p < INT32_MAX"
  defines "sta \<equiv> kv_stream (m_kv a) s" and "stb \<equiv> kv_stream (m_kv b) d"
  defines "src \<equiv> saved_cells s (kv_v_cells (m_kv a) ! sta)"
  assumes ne: "src \<noteq> []" and room: "length src \<le> card (free_for (m_kv b) d)"
  shows "\<exists>m' dst. read_stream tt d x (b, seq_stream_bytes tt s a sta @ bs) = Inr (True, m', bs) \<and>
    seq_restored szb (m_kv b) d (map (\<lambda>i. c_pos (kv_v_cells (m_kv a) ! sta) ! i) src) dst (m_kv m') \<and>
    (vt_small tt sza a \<and> vt_small tt szb b \<longrightarrow>
      (\<forall>r < length src. cell_rows tt m' stb (dst ! r) = cell_rows tt a sta (src ! r)) \<and>
      (\<forall>st < kv_n_stream (m_kv b). \<forall>i < szb. st \<noteq> stb \<or> i \<notin> set dst \<longrightarrow> cell_rows tt m' st i = cell_rows tt b st i))"
proof -
  let ?rs = "saved_ranges s (kv_v_cells (m_kv a) ! sta)"
  let ?ps = "map (\<lambda>i. c_pos (kv_v_cells (m_kv a) ! sta) ! i) src"
  have oka: "kv_ok sza (m_kv a)" and okb: "kv_ok szb (m_kv b)" using a b by (auto simp: mem_ok_def)
  note sp = saved_positions[OF oka a(2), folded sta_def, folded src_def]
  have lts: "sta < kv_n_stream (m_kv a)" "stb < kv_n_stream (m_kv b)" unfolding sta_def stb_def
    using kv_okD(2)[OF oka a(2)] kv_okD(2)[OF okb b(2)] by auto
  have ps: "\<forall>p \<in> set ?ps. 0 \<le> p \<and> i32_ok p"
  proof
    fix p assume "p \<in> set ?ps"
    then obtain i where "i \<in> set src" "p = c_pos (kv_v_cells (m_kv a) ! sta) ! i" by auto
    then have "0 \<le> p" "p \<in> kv_positions (m_kv a) s" using sp by auto
    with pa show "0 \<le> p \<and> i32_ok p" by (auto simp: i32_ok_def INT32_MAX_def)
  qed
  have s: "seq_id_ok s" "i32_ok s" using kv_okD(3)[OF oka a(2)] by (auto simp: seq_id_ok_def i32_ok_def LLAMA_MAX_SEQ_def)
  have d: "0 \<le> d" using b(2) by (simp add: kv_seq_ok_def)
  have psne: "?ps \<noteq> []" "length ?ps \<le> card (free_for (m_kv b) d)" using ne room by auto
  from read_meta_seq_ok[OF okb b(2,3) pb psne(1) ps s(2) psne(2) refl, of "data_bytes tt a sta ?rs @ bs"] obtain si dst kv' where
    r: "read_meta_seq stb (length src) d (b, concat (map (seq_cell_bytes s) ?ps) @ data_bytes tt a sta ?rs @ bs) = Inr (Some si, b\<lparr>m_kv := kv'\<rparr>, data_bytes tt a sta ?rs @ bs)"
      "si_idxs si = [dst]" "seq_restored szb (m_kv b) d ?ps dst kv'" by (auto simp: stb_def)
  from r(3) have sh: "same_shape (m_kv b) kv'" "kv_ok szb kv'" "length dst = length src" "distinct dst" "\<forall>i \<in> set dst. i < szb" by (auto simp: seq_restored_def)
  note mk = mem_ok_kv[OF b(1) sh(1,2)]
  have "wf_cells (kv_v_cells (m_kv a) ! sta)" "cells_size (kv_v_cells (m_kv a) ! sta) = sza"
    using kv_ok_stream(1,2)[OF oka a(2)] by (simp_all add: sta_def)
  note rs = saved_ranges_ok(2,3)[OF this(1) disjI2[OF s(1)]] this(2)
  have fl: "flat ?rs = src" by (simp add: rs(1) src_def)
  have c: "copies tt sza a sta ?rs szb (b\<lparr>m_kv := kv'\<rparr>) stb si dst"
    using a(1) mk(1) mk(2)[OF lay] lts sh ne r(2) rs(2,3) same_shape_frame(3)[OF sh(1)] by (auto simp: copies_def fl)
  have small: "vt_small tt szb (b\<lparr>m_kv := kv'\<rparr>) = vt_small tt szb b"
    using sh(1) by (auto simp: same_shape_def vt_small_def v_n_embd_def)
  from state_read_data_ok[OF c, of bs] obtain ls where
    q: "state_read_data tt stb (length src) si (b\<lparr>m_kv := kv'\<rparr>, data_bytes tt a sta ?rs @ bs) = Inr (True, b\<lparr>m_kv := kv', m_layers := ls\<rparr>, bs)"
      "vt_small tt sza a \<and> vt_small tt szb b \<Longrightarrow>
        (\<forall>r < length src. cell_rows tt (b\<lparr>m_kv := kv', m_layers := ls\<rparr>) stb (dst ! r) = cell_rows tt a sta (src ! r)) \<and>
        (\<forall>st j. j < szb \<longrightarrow> st \<noteq> stb \<or> j \<notin> set dst \<longrightarrow> cell_rows tt (b\<lparr>m_kv := kv', m_layers := ls\<rparr>) st j = cell_rows tt (b\<lparr>m_kv := kv'\<rparr>) st j)"
    unfolding fl small by auto
  have "length src < 2 ^ 32"
  proof -
    have "length src \<le> sza" unfolding src_def saved_cells_def
      using length_filter_le[of "saved s (kv_v_cells (m_kv a) ! sta)" "[0..<cells_size (kv_v_cells (m_kv a) ! sta)]"] kv_ok_stream(2)[OF oka a(2)] by (simp add: sta_def)
    then show ?thesis using a(1) by (simp add: mem_ok_def)
  qed
  moreover have "seq_stream_bytes tt s a sta = put_u32 (length src) @ concat (map (seq_cell_bytes s) ?ps) @ data_bytes tt a sta ?rs"
    using ne by (simp add: seq_stream_bytes_def src_def Let_def comp_def)
  ultimately have "read_stream tt d x (b, seq_stream_bytes tt s a sta @ bs) = Inr (True, b\<lparr>m_kv := kv', m_layers := ls\<rparr>, bs)"
    using r(1) q(1) ne d by (simp add: read_stream_def u32.bind_put io_simps state_read_meta_def Let_def flip: stb_def)
  then show ?thesis using r(3) q(2) mk(3)
    by (intro exI[of _ "b\<lparr>m_kv := kv', m_layers := ls\<rparr>"] exI[of _ dst]) auto
qed

lemma seq_roundtrip:
  assumes a: "mem_ok tt sza a" "kv_seq_ok (m_kv a) s" "nat s < kv_n_seq_max (m_kv a)" "kv_positions (m_kv a) s \<noteq> {}"
    and b: "mem_ok tt szb b" "kv_seq_ok (m_kv b) d" "kv_swa_type (m_kv b) = LLAMA_SWA_TYPE_NONE" "n_pos_per_embd (kv_hparams (m_kv b)) < 3"
    and lay: "same_layout a b"
    and p: "\<forall>p \<in> kv_positions (m_kv a) s. p < INT32_MAX" "\<forall>p \<in> kv_positions (m_kv b) d. p < INT32_MAX"
    and room: "length (saved_cells s (kv_v_cells (m_kv a) ! kv_stream (m_kv a) s)) \<le> card (free_for (m_kv b) d)"
  shows "\<exists>chunks m' src dst. state_write tt s a = Some chunks \<and> state_read tt d (b, concat chunks @ rest) = Inr (True, m', rest) \<and>
    kv_ok szb (m_kv m') \<and> (\<forall>t. kv_seq_ok (m_kv b) t \<longrightarrow> kv_positions (m_kv m') t = (if t = d then kv_positions (m_kv a) s else kv_positions (m_kv b) t)) \<and>
    src = saved_cells s (kv_v_cells (m_kv a) ! kv_stream (m_kv a) s) \<and> length dst = length src \<and> distinct dst \<and> set dst \<subseteq> free_for (m_kv b) d \<and>
    (\<forall>r < length src.
       v_pos (view (kv_v_cells (m_kv m') ! kv_stream (m_kv b) d) ! (dst ! r)) = c_pos (kv_v_cells (m_kv a) ! kv_stream (m_kv a) s) ! (src ! r) \<and>
       (vt_small tt sza a \<and> vt_small tt szb b \<longrightarrow>
          cell_rows tt m' (kv_stream (m_kv b) d) (dst ! r) = cell_rows tt a (kv_stream (m_kv a) s) (src ! r))) \<and>
    (vt_small tt sza a \<and> vt_small tt szb b \<longrightarrow>
       (\<forall>st < kv_n_stream (m_kv b). \<forall>i < szb. st \<noteq> kv_stream (m_kv b) d \<or> i \<notin> free_for (m_kv b) d \<longrightarrow> cell_rows tt m' st i = cell_rows tt b st i))"
proof -
  let ?sta = "kv_stream (m_kv a) s" and ?n = "kv_n_stream (m_kv b)"
  let ?small = "vt_small tt sza a \<and> vt_small tt szb b"
  let ?src = "saved_cells s (kv_v_cells (m_kv a) ! ?sta)"
  let ?ps = "map (\<lambda>i. c_pos (kv_v_cells (m_kv a) ! ?sta) ! i) ?src"
  have oka: "kv_ok sza (m_kv a)" using a by (simp add: mem_ok_def)
  have n: "kv_n_stream (m_kv a) = ?n" "?n < 2 ^ 32" using lay b(1) by (auto simp: same_layout_def mem_ok_def)
  have s: "seq_id_ok s" "0 \<le> s" using kv_okD(3)[OF oka a(2)] a(2) by (auto simp: kv_seq_ok_def)
  note sp = saved_positions[OF oka a(2)]
  have ne: "?src \<noteq> []" using sp(1) a(4) by auto
  from state_write_ok[OF a(1) s(1) a(3)] obtain chunks where
    w: "state_write tt s a = Some chunks" "concat chunks = put_u32 ?n @ concat (map (seq_stream_bytes tt s a) [0..<?n])" by (auto simp: n)
  from read_stream_seq[OF a(1,2) b(1-3) lay p ne room, of ?sta] have
    ex: "\<exists>m' dst. read_stream tt d ?sta (b, seq_stream_bytes tt s a ?sta @ bs) = Inr (True, m', bs) \<and>
      seq_restored szb (m_kv b) d ?ps dst (m_kv m') \<and>
      (?small \<longrightarrow> (\<forall>r < length ?src. cell_rows tt m' (kv_stream (m_kv b) d) (dst ! r) = cell_rows tt a ?sta (?src ! r)) \<and>
      (\<forall>st < ?n. \<forall>i < szb. st \<noteq> kv_stream (m_kv b) d \<or> i \<notin> set dst \<longrightarrow> cell_rows tt m' st i = cell_rows tt b st i))" for bs .
  let ?bytes = "\<lambda>k. concat (map (seq_stream_bytes tt s a) [k..<?n])"
  have lt: "?sta < ?n" using kv_okD(2)[OF oka a(2)] n by simp
  from ex[of "?bytes (Suc ?sta) @ rest"] obtain m' dst where
    r: "read_stream tt d ?sta (b, seq_stream_bytes tt s a ?sta @ ?bytes (Suc ?sta) @ rest) = Inr (True, m', ?bytes (Suc ?sta) @ rest)"
      "seq_restored szb (m_kv b) d ?ps dst (m_kv m')"
      "?small \<Longrightarrow> \<forall>r < length ?src. cell_rows tt m' (kv_stream (m_kv b) d) (dst ! r) = cell_rows tt a ?sta (?src ! r)"
      "?small \<Longrightarrow> \<forall>st < ?n. \<forall>i < szb. st \<noteq> kv_stream (m_kv b) d \<or> i \<notin> set dst \<longrightarrow> cell_rows tt m' st i = cell_rows tt b st i" by blast
  have skip: "io_for (read_stream tt d) ([k..<l] @ ys) (m, concat (map (seq_stream_bytes tt s a) [k..<l]) @ bs) = io_for (read_stream tt d) ys (m, bs)"
    if "l \<le> ?n" "\<And>i. k \<le> i \<Longrightarrow> i < l \<Longrightarrow> i \<noteq> ?sta" for k l ys m bs
    using that
  proof (induction "l - k" arbitrary: k)
    case (Suc x)
    then have k: "k < l" "k < kv_n_stream (m_kv a)" "k \<noteq> ?sta" by (auto simp: n)
    from read_stream_empty[OF s(2) saved_other_stream[OF oka k(2,3) s(2)]] Suc(1)[of "Suc k"] Suc(2-) k(1)
    show ?case by (simp add: upt_conv_Cons io_simps)
  qed simp
  have split: "[0..<?n] = [0..<?sta] @ ?sta # [Suc ?sta..<?n]" using lt by (metis less_imp_le_nat upt_add_eq_append upt_conv_Cons le_add_diff_inverse zero_le add_0)
  have "io_for (read_stream tt d) [0..<?n] (b, concat (map (seq_stream_bytes tt s a) [0..<?n]) @ rest) = Inr (True, m', rest)"
    unfolding split using skip[of ?sta 0 "?sta # [Suc ?sta..<?n]" b] skip[of ?n "Suc ?sta" "[]" m' rest] r(1) lt by (simp add: io_simps)
  then have "state_read tt d (b, concat chunks @ rest) = Inr (True, m', rest)"
    using b(2) n by (simp add: state_read_def w(2) io_simps u32.bind_put)
  moreover have "set ?ps = kv_positions (m_kv a) s" using sp(1) by simp
  with r(2) have R: "kv_ok szb (m_kv m')" "length dst = length ?src" "distinct dst" "set dst \<subseteq> free_for (m_kv b) d"
    "\<forall>t. kv_seq_ok (m_kv b) t \<longrightarrow> kv_positions (m_kv m') t = (if t = d then kv_positions (m_kv a) s else kv_positions (m_kv b) t)"
    "\<forall>r < length ?src. v_pos (view (kv_v_cells (m_kv m') ! kv_stream (m_kv b) d) ! (dst ! r)) = c_pos (kv_v_cells (m_kv a) ! ?sta) ! (?src ! r)"
    unfolding seq_restored_def by (simp_all only: length_map) (simp_all del: nth_view)
  moreover have "\<forall>st < ?n. \<forall>i < szb. st \<noteq> kv_stream (m_kv b) d \<or> i \<notin> free_for (m_kv b) d \<longrightarrow> cell_rows tt m' st i = cell_rows tt b st i" if ?small
    using r(4)[OF that] R(4) by blast
  ultimately show ?thesis using w(1) r(3) by (intro exI[of _ chunks] exI[of _ m'] exI[of _ ?src] exI[of _ dst]) blast
qed

text \<open>
  C21.  A sequence saved by \<^verbatim>\<open>state_write\<close> is restored by \<^verbatim>\<open>state_read\<close> into any sequence of a cache of the same
  model, possibly with another number of cells: the read succeeds and consumes exactly the bytes
  written, the destination then holds exactly the positions of the source, every restored cell has
  the K and V rows of its original in all layers (also when V is transposed), and the positions of
  the other sequences and the rows of all cells that were not free are as before.  The hypotheses
  ask for a cache without sliding window, one position per token, room for the cells and, when V is
  transposed, V tensors of at most 4 GiB per stream on both sides: the writer computes the offset of a
  range of V elements in 32 bits, so that in a larger tensor it saves the wrong elements.
\<close>

theorem state_seq_roundtrip:
  assumes a: "mem_ok tt sza a" "kv_seq_ok (m_kv a) s" "nat s < kv_n_seq_max (m_kv a)" "kv_positions (m_kv a) s \<noteq> {}"
    and b: "mem_ok tt szb b" "kv_seq_ok (m_kv b) d" "kv_swa_type (m_kv b) = LLAMA_SWA_TYPE_NONE" "n_pos_per_embd (kv_hparams (m_kv b)) < 3"
    and lay: "same_layout a b"
    and p: "\<forall>p \<in> kv_positions (m_kv a) s. p < INT32_MAX" "\<forall>p \<in> kv_positions (m_kv b) d. p < INT32_MAX"
    and room: "length (saved_cells s (kv_v_cells (m_kv a) ! kv_stream (m_kv a) s)) \<le> card (free_for (m_kv b) d)"
    and small: "vt_small tt sza a" "vt_small tt szb b"
  shows "\<exists>chunks m' src dst. state_write tt s a = Some chunks \<and> state_read tt d (b, concat chunks @ rest) = Inr (True, m', rest) \<and>
    kv_ok szb (m_kv m') \<and> (\<forall>t. kv_seq_ok (m_kv b) t \<longrightarrow> kv_positions (m_kv m') t = (if t = d then kv_positions (m_kv a) s else kv_positions (m_kv b) t)) \<and>
    src = saved_cells s (kv_v_cells (m_kv a) ! kv_stream (m_kv a) s) \<and> length dst = length src \<and> distinct dst \<and> set dst \<subseteq> free_for (m_kv b) d \<and>
    (\<forall>r < length src.
       v_pos (view (kv_v_cells (m_kv m') ! kv_stream (m_kv b) d) ! (dst ! r)) = c_pos (kv_v_cells (m_kv a) ! kv_stream (m_kv a) s) ! (src ! r) \<and>
       cell_rows tt m' (kv_stream (m_kv b) d) (dst ! r) = cell_rows tt a (kv_stream (m_kv a) s) (src ! r)) \<and>
    (\<forall>st < kv_n_stream (m_kv b). \<forall>i < szb. st \<noteq> kv_stream (m_kv b) d \<or> i \<notin> free_for (m_kv b) d \<longrightarrow> cell_rows tt m' st i = cell_rows tt b st i)"
  using seq_roundtrip[OF a b lay p room, of rest] by (simp only: small simp_thms)

text \<open>A cache with one layer of 256-byte K and V rows over the cells of \<^term>\<open>demo_kv\<close>.\<close>

definition demo_traits :: traits where
  "demo_traits t = \<lparr>tt_blck_size = 1, tt_type_size = 1\<rparr>"

definition demo_mem :: kv_mem where
  "demo_mem = \<lparr>m_kv = demo_kv, m_layers = [\<lparr>kl_il = 0, kl_k_type = 0, kl_v_type = 0,
     kl_k_stream = [map word_of_nat [0..<1024]], kl_v_stream = Some [map word_of_nat [0..<1024]]\<rparr>]\<rparr>"

lemma demo_mem_ok: "mem_ok demo_traits 4 demo_mem" "same_layout demo_mem demo_mem" "vt_small demo_traits 4 demo_mem"
proof -
  have tr: "kv_v_trans demo_kv = False" by (auto simp: demo_kv_def kv_new_def Let_def kv_put_def)
  then show "vt_small demo_traits 4 demo_mem" by (simp add: vt_small_def demo_mem_def)
  from tr show "mem_ok demo_traits 4 demo_mem"
    by (simp add: mem_ok_def demo_mem_def demo_kv_facts layer_ok_def k_size_row_def v_size_row_def ggml_row_size_def ggml_blck_size_def
        ggml_type_size_def demo_traits_def n_embd_k_gqa_def n_embd_v_gqa_def n_head_kv_def demo_hparams_def i32_ok_def)
qed (simp add: same_layout_def)

lemma demo_transfer:
  "kv_seq_ok (m_kv demo_mem) 2" "nat 2 < kv_n_seq_max (m_kv demo_mem)" "kv_positions (m_kv demo_mem) 2 = {1}" "kv_seq_ok (m_kv demo_mem) 5"
  "kv_swa_type (m_kv demo_mem) = LLAMA_SWA_TYPE_NONE" "n_pos_per_embd (kv_hparams (m_kv demo_mem)) < 3"
  "kv_positions (m_kv demo_mem) 5 = {}"
  "length (saved_cells 2 (kv_v_cells (m_kv demo_mem) ! kv_stream (m_kv demo_mem) 2)) \<le> card (free_for (m_kv demo_mem) 5)"
proof -
  have m: "m_kv demo_mem = demo_kv" by (simp add: demo_mem_def)
  show "kv_seq_ok (m_kv demo_mem) 2" "kv_seq_ok (m_kv demo_mem) 5" "kv_swa_type (m_kv demo_mem) = LLAMA_SWA_TYPE_NONE" "kv_positions (m_kv demo_mem) 2 = {1}"
    using demo_kv_seqs demo_kv_facts(6) demo_kv_positions by (simp_all add: m)
  show "nat 2 < kv_n_seq_max (m_kv demo_mem)" by (auto simp: m demo_kv_def kv_new_def Let_def kv_put_def)
  show "n_pos_per_embd (kv_hparams (m_kv demo_mem)) < 3" by (simp add: m demo_kv_facts n_pos_per_embd_def demo_hparams_def)
  show "kv_positions (m_kv demo_mem) 5 = {}" using demo_kv_seqs[of 5] by (auto simp: m kv_positions_def seq_positions_UN cell_positions_def demo_kv_facts(4))
  let ?c = "kv_v_cells demo_kv ! 0"
  have len: "length (c_pos ?c) = 4" using arg_cong[OF demo_kv_facts(4), of length] by simp
  have seq: "c_seq ?c ! i = v_seq (view ?c ! i)" "c_pos ?c ! i = v_pos (view ?c ! i)" if "i < 4" for i using that len by simp_all
  have "[0..<4] = [0, 1, 2, 3 :: nat]" by code_simp
  then have "saved_cells 2 ?c = [3]" using seq[of 0] seq[of 1] seq[of 2] seq[of 3] by (simp add: saved_cells_def saved_def cells_size_def len demo_kv_facts(4))
  moreover have "1 \<in> free_for demo_kv 5" "finite (free_for demo_kv 5)" using demo_kv_seqs[of 5] by (simp_all add: free_for_def Let_def demo_kv_facts(4) del: length_view)
  then have "0 < card (free_for demo_kv 5)" by (metis card_gt_0_iff empty_iff)
  ultimately show "length (saved_cells 2 (kv_v_cells (m_kv demo_mem) ! kv_stream (m_kv demo_mem) 2)) \<le> card (free_for (m_kv demo_mem) 5)"
    using demo_kv_seqs[of 2] by (simp add: m Suc_le_eq)
qed

theorem state_seq_roundtrip_witness:
  "\<exists>chunks m'. state_write demo_traits 2 demo_mem = Some chunks \<and> state_read demo_traits 5 (demo_mem, concat chunks @ []) = Inr (True, m', []) \<and>
    kv_positions (m_kv m') 5 = {1}"
proof -
  note t = demo_transfer
  have p: "kv_positions (m_kv demo_mem) 2 \<noteq> {}" "\<forall>p \<in> kv_positions (m_kv demo_mem) 2. p < INT32_MAX" "\<forall>p \<in> kv_positions (m_kv demo_mem) 5. p < INT32_MAX"
    by (auto simp: t INT32_MAX_def)
  from state_seq_roundtrip[OF demo_mem_ok(1) t(1,2) p(1) demo_mem_ok(1) t(4-6) demo_mem_ok(2) p(2,3) t(8) demo_mem_ok(3,3), of "[]"] t(3,4) show ?thesis by (auto simp del: append_Nil2)
qed

end
