(* ===== verification/Kv_Session.thy ===== *)
theory Kv_Session
  imports Kv_Restore
begin

text \<open>
  The entry points around \<^verbatim>\<open>state_write\<close> and \<^verbatim>\<open>state_read\<close>: the reported size, the bounded buffer, truncated
  input and sequence files.
\<close>

section \<open>Sizes\<close>

text \<open>
  C22.  \<^verbatim>\<open>state_seq_get_size\<close> is exact: a buffer of that size (or larger) receives the whole state and the
  size is returned; with any smaller buffer \<^verbatim>\<open>state_seq_get_data\<close> reports 0, and never a partial count.
\<close>

theorem state_seq_size_exact:
  assumes "state_seq_get_size tt s m = Some n"
  shows "\<exists>w. length w = n \<and> (\<forall>len. state_seq_get_data tt s len m = Some (if n \<le> len then (n, w) else (0, [])))"
proof -
  from assms obtain cs where "state_write tt s m = Some cs" "n = length (concat cs)"
    by (auto simp: state_seq_get_size_def write_dummy_eq)
  then show ?thesis by (intro exI[of _ "concat cs"]) (simp add: state_seq_get_data_def write_buffer_eq)
qed

section \<open>Truncated input\<close>

text \<open>
  The contract of a reader action: when it succeeds it has consumed a piece of its input, does the same
  whatever follows that piece, and on every proper prefix of the piece it throws at the end of the
  buffer.  The contract is closed under the ways actions are combined.
\<close>

definition strict :: "('s, 'a) io \<Rightarrow> bool" where
  "strict a \<longleftrightarrow> (\<forall>s bs x s' rest. a (s, bs) = Inr (x, s', rest) \<longrightarrow>
     (\<exists>used. bs = used @ rest \<and> (\<forall>rest'. a (s, used @ rest') = Inr (x, s', rest')) \<and>
        (\<forall>n < length used. \<exists>s''. a (s, take n used) = Inl (Thrown End_of_buffer s''))))"

named_theorems strict_intros \<open>strictness of reader actions\<close>

lemma strict_return [strict_intros]: "strict (io_return x)"
  by (auto simp: strict_def io_return_def)

lemma strict_get [strict_intros]: "strict io_get"
  by (auto simp: strict_def io_get_def)

lemma strict_throw [strict_intros]: "strict (io_throw e)"
  by (auto simp: strict_def io_throw_def)

lemma strict_run [strict_intros]: "strict (io_run f)"
  by (auto simp: strict_def io_run_def split: option.splits)

lemma strict_opt [strict_intros]: "strict (io_opt r)"
  unfolding io_opt_def by (rule strict_run)

lemma strict_read [strict_intros]: "strict (io_read n)"
  unfolding strict_def
proof (intro allI impI)
  fix s :: 's and bs x s' rest
  assume "io_read n (s, bs) = Inr (x, s', rest)"
  then have "n \<le> length bs" "x = take n bs" "s' = s" "rest = drop n bs" by (auto simp: io_read_def split: if_splits)
  then show "\<exists>used. bs = used @ rest \<and> (\<forall>rest'. io_read n (s, used @ rest') = Inr (x, s', rest')) \<and>
      (\<forall>k < length used. \<exists>s''. io_read n (s, take k used) = Inl (Thrown End_of_buffer s''))"
    by (intro exI[of _ "take n bs"]) (auto simp: io_read_def)
qed

lemma strict_bind [strict_intros]:
  assumes "strict a" "\<And>x. strict (f x)"
  shows "strict (io_bind a f)"
  unfolding strict_def
proof (intro allI impI)
  fix s bs y s' rest
  assume "io_bind a f (s, bs) = Inr (y, s', rest)"
  then obtain x s1 r1 where ax: "a (s, bs) = Inr (x, s1, r1)" "f x (s1, r1) = Inr (y, s', rest)"
    by (auto simp: io_bind_def split: sum.splits)
  from assms(1) ax(1) obtain u1 where u1: "bs = u1 @ r1" "\<And>r. a (s, u1 @ r) = Inr (x, s1, r)"
    "\<And>n. n < length u1 \<Longrightarrow> \<exists>s''. a (s, take n u1) = Inl (Thrown End_of_buffer s'')" unfolding strict_def by blast
  from assms(2)[of x] ax(2) obtain u2 where u2: "r1 = u2 @ rest" "\<And>r. f x (s1, u2 @ r) = Inr (y, s', r)"
    "\<And>n. n < length u2 \<Longrightarrow> \<exists>s''. f x (s1, take n u2) = Inl (Thrown End_of_buffer s'')" unfolding strict_def by blast
  have "\<exists>s''. io_bind a f (s, take n (u1 @ u2)) = Inl (Thrown End_of_buffer s'')" if n: "n < length (u1 @ u2)" for n
  proof (cases "n < length u1")
    case True
    with u1(3) show ?thesis by (fastforce simp: io_bind_def)
  next
    case False
    then have "take n (u1 @ u2) = u1 @ take (n - length u1) u2" by simp
    moreover have "n - length u1 < length u2" using False n by simp
    then obtain s'' where "f x (s1, take (n - length u1) u2) = Inl (Thrown End_of_buffer s'')" using u2(3) by blast
    ultimately show ?thesis using u1(2) by (simp add: io_bind_def)
  qed
  then show "\<exists>used. bs = used @ rest \<and> (\<forall>rest'. io_bind a f (s, used @ rest') = Inr (y, s', rest')) \<and>
      (\<forall>n < length used. \<exists>s''. io_bind a f (s, take n used) = Inl (Thrown End_of_buffer s''))"
    using u1 u2 by (intro exI[of _ "u1 @ u2"]) (simp add: io_bind_def)
qed

lemma strict_if [strict_intros]: "strict a \<Longrightarrow> strict b \<Longrightarrow> strict (if c then a else b)"
  by simp

lemma strict_for [strict_intros]: "(\<And>x. strict (f x)) \<Longrightarrow> strict (io_for f xs)"
  by (induction xs) (auto intro!: strict_intros)

lemma strict_scalars [strict_intros]: "strict io_u32" "strict io_u64" "strict io_i32"
  unfolding io_u32_def io_u64_def io_i32_def by (intro strict_intros)+

lemma strict_kv [strict_intros]: "strict (io_kv f)" "strict (io_cells st g)" "strict (layer_set_k st l h)" "strict (layer_set_v st l h)"
  unfolding io_cells_def io_kv_def layer_set_k_def layer_set_v_def by (intro strict_intros)+

lemma strict_read_positions [strict_intros]: "strict (read_positions n ps)"
  by (induction n arbitrary: ps) (auto intro!: strict_intros)

lemma strict_read_meta [strict_intros]: "strict (state_read_meta st n d)"
proof -
  have "strict (read_meta_seq st n d)"
    unfolding read_meta_seq_def Let_def by (intro strict_intros) (auto split: option.split intro!: strict_intros)
  moreover have "strict (read_meta_all st n)"
    unfolding read_meta_all_def read_cell_def by (intro strict_intros)
  ultimately show ?thesis by (simp add: state_read_meta_def)
qed

lemma strict_read_data [strict_intros]: "strict (state_read_data tt st n si)"
  unfolding state_read_data_def read_k_layer_def read_v_layer_def read_vt_layer_def Let_def by (intro strict_intros)

lemma strict_state_read [strict_intros]: "strict (state_read tt d)"
proof -
  have "strict (case r of None \<Rightarrow> io_return False | Some si \<Rightarrow> state_read_data tt st n si)" for r st n
    by (cases r) (auto intro!: strict_intros)
  then show ?thesis unfolding state_read_def read_stream_def Let_def by (intro strict_intros)
qed

text \<open>
  C23.  Truncated input is never accepted: if a saved state can be read, then every proper prefix of
  it makes the reader throw, and \<^verbatim>\<open>state_seq_set_data\<close> reports 0 without a failed assertion.
\<close>

theorem truncated_state_rejected:
  assumes "state_read tt d (m, src) = Inr (r, m', [])" "n < length src"
  shows "\<exists>m''. state_read tt d (m, take n src) = Inl (Thrown End_of_buffer m'') \<and> state_seq_set_data tt d (take n src) m = Some (0, m'')"
proof -
  from strict_state_read[of tt d] assms(1) obtain used where "src = used @ []"
    "\<forall>n < length used. \<exists>m''. state_read tt d (m, take n used) = Inl (Thrown End_of_buffer m'')" unfolding strict_def by blast
  with assms(2) obtain m'' where "state_read tt d (m, take n src) = Inl (Thrown End_of_buffer m'')" by auto
  then show ?thesis by (auto simp: state_seq_set_data_def)
qed

theorem truncated_state_rejected_witness:
  "\<exists>src m''. src \<noteq> [] \<and> state_seq_set_data demo_traits 5 (take (length src - 1) src) demo_mem = Some (0, m'')"
proof -
  note t = demo_transfer
  have p: "kv_positions (m_kv demo_mem) 2 \<noteq> {}" "\<forall>p \<in> kv_positions (m_kv demo_mem) 2. p < INT32_MAX" "\<forall>p \<in> kv_positions (m_kv demo_mem) 5. p < INT32_MAX"
    by (auto simp: t INT32_MAX_def)
  from seq_roundtrip[OF demo_mem_ok(1) t(1,2) p(1) demo_mem_ok(1) t(4-6) demo_mem_ok(2) p(2,3) t(8), of "[]"] obtain src m' where
    src: "state_read demo_traits 5 (demo_mem, src) = Inr (True, m', [])" by auto
  have "src \<noteq> []" using src t(4) by (auto simp: state_read_def io_simps io_u32_def io_read_def io_bind_def)
  then have "length src - 1 < length src" by simp
  from truncated_state_rejected[OF src this] \<open>src \<noteq> []\<close> show ?thesis by blast
qed

section \<open>Sequence files\<close>

lemma read_tokens_run:
  assumes "\<forall>t \<in> set ts. i32_ok t"
  shows "read_tokens (length ts) us (m, concat (map put_i32 ts) @ bs) = Inr (us @ ts, m, bs)"
  using assms
proof (induction ts arbitrary: us)
  case (Cons t ts)
  then show ?case by (simp add: i32.bind_put)
qed (simp add: io_simps)

lemma io_left_run [io_simps]: "io_left (s, bs) = Inr (length bs, s, bs)"
  by (simp add: io_left_def)

lemma load_file_run:
  assumes toks: "\<forall>t \<in> set tokens. i32_ok t" "length tokens \<le> capacity" "length tokens < 2 ^ 32"
    and r: "state_read tt d (m, tail) = Inr (ok, m', [])" "tail \<noteq> []"
    and fl: "file = put_u32 LLAMA_STATE_SEQ_MAGIC @ put_u32 LLAMA_STATE_SEQ_VERSION @ put_u32 (length tokens) @ concat (map put_i32 tokens) @ tail"
  shows "state_seq_load_file tt d capacity (length file) (m, file) = Inr ((length file, tokens), m', [])"
proof -
  have tk: "length (concat (map put_i32 tokens)) = 4 * length tokens" by (induction tokens) auto
  have len: "length file = length tail + 12 + 4 * length tokens" by (simp add: fl tk)
  have toks_read: "read_tokens (length tokens) [] (m, concat (map put_i32 tokens) @ tail) = Inr (tokens, m, tail)"
    using read_tokens_run[OF toks(1), of "[]"] by simp
  show ?thesis
    unfolding len unfolding state_seq_load_file_def fl using toks(2,3)
    by (simp add: u32.bind_put LLAMA_STATE_SEQ_MAGIC_def LLAMA_STATE_SEQ_VERSION_def toks_read r Let_def io_simps)
qed

text \<open>
  C24.  A sequence file round trip: loading what \<^verbatim>\<open>state_seq_save_file\<close> wrote returns the size of the file
  and the prompt tokens, passes the size assertions of the loader and restores the positions of the
  saved sequence into the destination.
\<close>

theorem seq_file_roundtrip:
  assumes a: "mem_ok tt sza a" "kv_seq_ok (m_kv a) s" "nat s < kv_n_seq_max (m_kv a)" "kv_positions (m_kv a) s \<noteq> {}"
    and b: "mem_ok tt szb b" "kv_seq_ok (m_kv b) d" "kv_swa_type (m_kv b) = LLAMA_SWA_TYPE_NONE" "n_pos_per_embd (kv_hparams (m_kv b)) < 3"
    and lay: "same_layout a b"
    and p: "\<forall>p \<in> kv_positions (m_kv a) s. p < INT32_MAX" "\<forall>p \<in> kv_positions (m_kv b) d. p < INT32_MAX"
    and room: "length (saved_cells s (kv_v_cells (m_kv a) ! kv_stream (m_kv a) s)) \<le> card (free_for (m_kv b) d)"
    and toks: "\<forall>t \<in> set tokens. i32_ok t" "length tokens \<le> capacity" "length tokens < 2 ^ 32"
  shows "\<exists>file m'. state_seq_save_file tt s tokens a = Some file \<and>
    state_seq_load_file tt d capacity (length file) (b, file) = Inr ((length file, tokens), m', []) \<and>
    (\<forall>t. kv_seq_ok (m_kv b) t \<longrightarrow> kv_positions (m_kv m') t = (if t = d then kv_positions (m_kv a) s else kv_positions (m_kv b) t))"
proof -
  from seq_roundtrip[OF a b lay p room, of "[]"] obtain chunks m' where
    r: "state_write tt s a = Some chunks" "state_read tt d (b, concat chunks) = Inr (True, m', [])"
      "\<forall>t. kv_seq_ok (m_kv b) t \<longrightarrow> kv_positions (m_kv m') t = (if t = d then kv_positions (m_kv a) s else kv_positions (m_kv b) t)" by auto
  have ne: "concat chunks \<noteq> []"
  proof
    assume "concat chunks = []"
    with r(2) b(2) show False by (simp add: state_read_def io_simps io_u32_def)
  qed
  note load_file_run[OF toks r(2) ne refl]
  with r(1,3) show ?thesis by (intro exI conjI) (simp only: state_seq_save_file_def option.map(2))+
qed

theorem seq_file_roundtrip_witness:
  "\<exists>file m'. state_seq_save_file demo_traits 2 [11, 12] demo_mem = Some file \<and>
    state_seq_load_file demo_traits 5 8 (length file) (demo_mem, file) = Inr ((length file, [11, 12]), m', []) \<and> kv_positions (m_kv m') 5 = {1}"
proof -
  note t = demo_transfer
  have p: "kv_positions (m_kv demo_mem) 2 \<noteq> {}" "\<forall>p \<in> kv_positions (m_kv demo_mem) 2. p < INT32_MAX" "\<forall>p \<in> kv_positions (m_kv demo_mem) 5. p < INT32_MAX"
    by (auto simp: t INT32_MAX_def)
  have toks: "\<forall>t \<in> set [11, 12]. i32_ok t" "length [11, 12 :: int] \<le> 8" "length [11, 12 :: int] < 2 ^ 32" by (auto simp: i32_ok_def)
  from seq_file_roundtrip[OF demo_mem_ok(1) t(1,2) p(1) demo_mem_ok(1) t(4-6) demo_mem_ok(2) p(2,3) t(8) toks] t(3,4) show ?thesis by auto
qed

theorem state_seq_size_exact_witness:
  "\<exists>n w. state_seq_get_size demo_traits 2 demo_mem = Some n \<and> state_seq_get_data demo_traits 2 n demo_mem = Some (n, w) \<and> 0 < n \<and>
    state_seq_get_data demo_traits 2 (n - 1) demo_mem = Some (0, [])"
proof -
  have "seq_id_ok 2" by (simp add: seq_id_ok_def LLAMA_MAX_SEQ_def)
  from state_write_ok[OF demo_mem_ok(1) this demo_transfer(2)] obtain cs where cs: "state_write demo_traits 2 demo_mem = Some cs" "4 \<le> length (concat cs)" by auto
  then have n: "state_seq_get_size demo_traits 2 demo_mem = Some (length (concat cs))" by (simp add: state_seq_get_size_def write_dummy_eq)
  from state_seq_size_exact[OF n] obtain w where
    "\<forall>len. state_seq_get_data demo_traits 2 len demo_mem = Some (if length (concat cs) \<le> len then (length (concat cs), w) else (0, []))" by blast
  with n cs(2) obtain k where "state_seq_get_size demo_traits 2 demo_mem = Some k" "4 \<le> k"
    "\<forall>len. state_seq_get_data demo_traits 2 len demo_mem = Some (if k \<le> len then (k, w) else (0, []))" by blast
  then show ?thesis by (intro exI[of _ k] exI[of _ w]) auto
qed

end
