(* ===== verification/Kv_Decode.thy ===== *)
theory Kv_Decode
  imports Batch_Init Kv_Prepare
begin

text \<open>
  The path of a batch through a unified KV cache: \<^verbatim>\<open>llama_batch_allocr::init\<close> accepts it, \<^verbatim>\<open>init_batch\<close> splits it
  and finds the slots, and the loop of \<^verbatim>\<open>llama_context::decode\<close> applies the ubatches one after the other.
\<close>

section \<open>Accepted tokens\<close>

text \<open>
  What the caller owes for every token: at least one sequence, no sequence twice, as many ids as
  announced, and no negative position.  That the ids are in range is checked by \<^verbatim>\<open>init\<close>.
\<close>

definition tokens_ok :: "llama_batch \<Rightarrow> bool" where
  "tokens_ok b \<longleftrightarrow> (\<forall>i < b_n_tokens b. seq_ids b i \<noteq> [] \<and> distinct (seq_ids b i) \<and>
     the (b_n_seq_id b) ! i \<le> length (the (b_seq_id b) ! i) \<and> 0 \<le> the (b_pos b) ! i)"

definition ids_in_range :: "llama_batch_allocr \<Rightarrow> bool" where
  "ids_in_range a \<longleftrightarrow> (\<forall>i < b_n_tokens (a_batch a). \<forall>s \<in> set (seq_ids (a_batch a) i). 0 \<le> s \<and> s < int (a_n_seq_max a))"

lemma validated_ids:
  assumes "batch_validate n_vocab n_seq_max b = Some True" "0 < n_seq_max" "i < b_n_tokens b" "s \<in> set (seq_ids (batch_default_seq b) i)"
  shows "0 \<le> s \<and> s < int n_seq_max"
proof (cases "b_seq_id b")
  case None
  then have "the (b_seq_id (batch_default_seq b)) ! i = [0]"
    using assms(3) by (auto simp: batch_default_seq_def Let_def split: option.splits)
  then have "s = 0" using assms(4) by (auto simp: seq_ids_def dest: in_set_takeD)
  then show ?thesis using assms(2) by simp
next
  case (Some ids)
  then obtain ns where ns: "b_n_seq_id b = Some ns"
    "\<not> (\<exists>i \<in> set [0..<b_n_tokens b]. \<exists>s \<in> set [0..<ns ! i]. ids ! i ! s < 0 \<or> ids ! i ! s \<ge> int n_seq_max)"
    using assms(1) by (auto simp: batch_validate_def split: if_splits option.splits)
  have "seq_ids (batch_default_seq b) i = take (ns ! i) (ids ! i)" by (simp add: batch_default_seq_def Let_def Some ns(1) seq_ids_def)
  then obtain k where k: "k < ns ! i" "s = ids ! i ! k" using assms(4) by (auto simp: in_set_conv_nth)
  with ns(2) assms(3) have "\<not> (ids ! i ! k < 0 \<or> ids ! i ! k \<ge> int n_seq_max)" by auto
  then show ?thesis using k(2) by simp
qed

lemma default_pos_ids:
  assumes "batch_default_pos mem n_seq_max b = Some b'"
  shows "seq_ids b' = seq_ids b" "b_n_tokens b' = b_n_tokens b"
  using assms by (auto simp: batch_default_pos_def seq_ids_def fun_eq_iff bind_eq_Some_conv split: option.splits prod.splits)

lemma default_logits_ids: "seq_ids (batch_default_logits out b) = seq_ids b" "b_n_tokens (batch_default_logits out b) = b_n_tokens b"
  by (auto simp: batch_default_logits_def seq_ids_def fun_eq_iff split: option.splits)

lemma default_seq_n [simp]: "b_n_tokens (batch_default_seq b) = b_n_tokens b"
  by (auto simp: batch_default_seq_def Let_def split: option.splits)

lemma batch_init_ids:
  assumes "batch_init b n_vocab mem n_embd n_seq_max out_all a0 = Some (a, True)" "0 < n_seq_max"
  shows "ids_in_range a" "a_n_seq_max a = n_seq_max" "n_seq_max \<le> LLAMA_MAX_SEQ" "a_n_pos_per_embd a = a_n_pos_per_embd a0" "0 < b_n_tokens (a_batch a)"
proof -
  from assms obtain b' where v: "batch_validate n_vocab n_seq_max b = Some True" "0 < b_n_tokens b"
    and b': "batch_default_pos mem n_seq_max (batch_default_seq b) = Some b'"
    and a: "a = split_reset (batch_stats n_embd n_seq_max ((allocr_clear a0)\<lparr>a_batch := batch_default_logits out_all b'\<rparr>))"
    by (auto simp: batch_init_def Let_def bind_eq_Some_conv split: if_splits)
  let ?a1 = "(allocr_clear a0)\<lparr>a_batch := batch_default_logits out_all b'\<rparr>"
  have "a_seq_pos ?a1 = (\<lambda>_. {})" by (simp add: allocr_clear_def)
  note st = batch_stats_pos[OF this]
  have ab: "a_batch a = batch_default_logits out_all b'" by (simp add: a split_reset_def st)
  show n: "a_n_seq_max a = n_seq_max" "a_n_pos_per_embd a = a_n_pos_per_embd a0" unfolding a split_reset_def by (simp_all add: st) (simp add: allocr_clear_def)
  have nt: "b_n_tokens (a_batch a) = b_n_tokens b" by (simp add: ab default_logits_ids default_pos_ids(2)[OF b'])
  then show "0 < b_n_tokens (a_batch a)" using v(2) by simp
  have "seq_ids (a_batch a) = seq_ids (batch_default_seq b)" by (simp add: ab default_logits_ids default_pos_ids(1)[OF b'])
  then show "ids_in_range a" unfolding ids_in_range_def n nt using validated_ids[OF v(1) assms(2)] by simp
  show "n_seq_max \<le> LLAMA_MAX_SEQ" using v(1) by (auto simp: batch_validate_def split: if_splits)
qed

section \<open>Ubatches of an accepted batch\<close>

lemma seq_unq_set: "snd (seq_unq_index n S idx0) = filter (\<lambda>s. s \<in> S) (map int [0..<n])"
proof -
  have "snd (fold (\<lambda>s (idx, unq). if int s \<in> S then (idx[s := int (length unq)], unq @ [int s]) else (idx, unq)) xs (idx, unq)) =
      unq @ filter (\<lambda>s. s \<in> S) (map int xs)" for xs idx unq
    by (induction xs arbitrary: idx unq) auto
  then show ?thesis by (simp add: seq_unq_index_def)
qed

lemma ubatch_of_fields:
  assumes "0 < a_n_pos_per_embd a"
  shows "u_n_seq_id (ubatch_of a idxs n e) = map (\<lambda>i. the (b_n_seq_id (a_batch a)) ! i) idxs"
    "u_seq_id (ubatch_of a idxs n e) = map (seq_ids (a_batch a)) idxs"
    "u_seq_id_unq (ubatch_of a idxs n e) = filter (\<lambda>s. s \<in> (\<Union>i \<in> set idxs. set (seq_ids (a_batch a) i))) (map int [0..<a_n_seq_max a])"
    "k < length idxs \<Longrightarrow> u_pos (ubatch_of a idxs n e) ! k = the (b_pos (a_batch a)) ! (idxs ! k)"
proof -
  let ?S = "\<Union>i \<in> set idxs. set (seq_ids (a_batch a) i)"
  obtain idx unq where x: "seq_unq_index (a_n_seq_max a) ?S (replicate LLAMA_MAX_SEQ (-1)) = (idx, unq)" by (cases "seq_unq_index (a_n_seq_max a) ?S (replicate LLAMA_MAX_SEQ (-1))")
  have unq: "unq = filter (\<lambda>s. s \<in> ?S) (map int [0..<a_n_seq_max a])" using seq_unq_set[of "a_n_seq_max a" ?S "replicate LLAMA_MAX_SEQ (-1)"] x by simp
  show "u_n_seq_id (ubatch_of a idxs n e) = map (\<lambda>i. the (b_n_seq_id (a_batch a)) ! i) idxs"
    "u_seq_id (ubatch_of a idxs n e) = map (seq_ids (a_batch a)) idxs"
    "u_seq_id_unq (ubatch_of a idxs n e) = filter (\<lambda>s. s \<in> ?S) (map int [0..<a_n_seq_max a])"
    by (simp_all add: ubatch_of_def Let_def x unq)
  have "[0..<a_n_pos_per_embd a] = 0 # [1..<a_n_pos_per_embd a]" using assms by (simp add: upt_conv_Cons)
  then show "k < length idxs \<Longrightarrow> u_pos (ubatch_of a idxs n e) ! k = the (b_pos (a_batch a)) ! (idxs ! k)"
    by (simp add: ubatch_of_def Let_def x nth_append)
qed

lemma ubatch_of_ids:
  assumes "0 < a_n_pos_per_embd a" "k < length idxs"
  shows "token_ids (ubatch_of a idxs n e) k = seq_ids (a_batch a) (idxs ! k)"
  using assms(2) by (simp add: token_ids_def ubatch_of_fields[OF assms(1)] seq_ids_def min_def)

lemma ubatch_of_positions:
  assumes "0 < a_n_pos_per_embd a"
  shows "ubatch_positions (ubatch_of a idxs n e) t = {the (b_pos (a_batch a)) ! i |i. i \<in> set idxs \<and> t \<in> set (seq_ids (a_batch a) i)}"
proof -
  have "ubatch_positions (ubatch_of a idxs n e) t = {the (b_pos (a_batch a)) ! (idxs ! k) |k. k < length idxs \<and> t \<in> set (seq_ids (a_batch a) (idxs ! k))}"
    unfolding ubatch_positions_def u_n_tokens_ubatch_of by (rule Collect_cong) (metis ubatch_of_ids[OF assms] ubatch_of_fields(4)[OF assms])
  then show ?thesis unfolding set_conv_nth[of idxs] by blast
qed

lemma ubatch_of_placeable:
  assumes kv: "kv_ok sz kv" "kv_n_stream kv = 1" "a_n_seq_max a \<le> length (kv_seq_to_stream kv)"
    and a: "tokens_ok (a_batch a)" "ids_in_range a" "0 < a_n_pos_per_embd a"
    and idxs: "idxs \<noteq> []" "set idxs \<subseteq> {0..<b_n_tokens (a_batch a)}"
  shows "ubatch_placeable kv (ubatch_of a idxs n e)"
proof -
  let ?u = "ubatch_of a idxs n e" and ?b = "a_batch a"
  note uf = ubatch_of_fields[OF a(3)]
  have tok: "seq_ids ?b (idxs ! k) \<noteq> []" "distinct (seq_ids ?b (idxs ! k))" "the (b_n_seq_id ?b) ! (idxs ! k) \<le> length (the (b_seq_id ?b) ! (idxs ! k))"
    "0 \<le> the (b_pos ?b) ! (idxs ! k)" "\<And>s. s \<in> set (seq_ids ?b (idxs ! k)) \<Longrightarrow> 0 \<le> s \<and> s < int (a_n_seq_max a)" if "k < length idxs" for k
  proof -
    have "idxs ! k < b_n_tokens ?b" using idxs(2) that by (metis atLeastLessThan_iff nth_mem subsetD)
    then show "seq_ids ?b (idxs ! k) \<noteq> []" "distinct (seq_ids ?b (idxs ! k))" "the (b_n_seq_id ?b) ! (idxs ! k) \<le> length (the (b_seq_id ?b) ! (idxs ! k))"
      "0 \<le> the (b_pos ?b) ! (idxs ! k)" "\<And>s. s \<in> set (seq_ids ?b (idxs ! k)) \<Longrightarrow> 0 \<le> s \<and> s < int (a_n_seq_max a)"
      using a(1,2) by (auto simp: tokens_ok_def ids_in_range_def)
  qed
  note ids = ubatch_of_ids[OF a(3)]
  have sok: "kv_seq_ok kv s \<and> kv_stream kv s = 0 \<and> seq_id_ok s" if "0 \<le> s" "s < int (a_n_seq_max a)" for s
  proof -
    have "kv_seq_ok kv s" using that kv(3) by (simp add: kv_seq_ok_def)
    then show ?thesis using kv_okD(2,3)[OF kv(1)] kv(2) by auto
  qed
  have one: "ubatch_n_seqs kv ?u = 1" "ubatch_n_tokens kv ?u = length idxs" using kv(2) by (simp_all add: ubatch_n_seqs_def ubatch_n_tokens_def)
  obtain s0 where s0: "s0 \<in> set (seq_ids ?b (idxs ! 0))" using tok(1)[of 0] idxs(1) by fastforce
  have "s0 \<in> set (u_seq_id_unq ?u)"
    unfolding uf(3) using s0 tok(5)[of 0 s0] idxs(1) by (auto intro!: image_eqI[of _ _ "nat s0"] bexI[of _ "idxs ! 0"])
  then have unq: "0 < length (u_seq_id_unq ?u)" by auto
  have u0: "0 \<le> u_seq_id_unq ?u ! 0 \<and> u_seq_id_unq ?u ! 0 < int (a_n_seq_max a)"
    using nth_mem[OF unq] unfolding uf(3) by auto
  have "token_ok ?u k \<and> token_ids ?u k \<noteq> [] \<and> (\<forall>t \<in> set (token_ids ?u k). kv_seq_ok kv t \<and> kv_stream kv t = ubatch_stream kv ?u 0)" if k: "k < length idxs" for k
    using tok[OF k] sok u0 ids[OF k] uf k by (auto simp: token_ok_def ubatch_stream_def seq_ids_def)
  then show "ubatch_placeable kv ?u"
    using one unq u0 sok kv(2) idxs(1) unfolding ubatch_placeable_def ubatch_fits_def by (auto simp: Let_def Suc_le_eq)
qed

text \<open>The ubatches that cover a batch, one by one.\<close>

lemma coversE:
  assumes "covers a ids us"
  obtains idxss where "ids = concat idxss" "length idxss = length us"
    "\<And>k. k < length us \<Longrightarrow> idxss ! k \<noteq> [] \<and> set (idxss ! k) \<subseteq> set ids \<and> (\<exists>n e. us ! k = ubatch_of a (idxss ! k) n e)"
proof -
  from assms obtain idxss where x: "ids = concat idxss"
    "list_all2 (\<lambda>u idxs. idxs \<noteq> [] \<and> (\<exists>n e. n \<noteq> 0 \<and> n dvd length idxs \<and> u = ubatch_of a idxs n e)) us idxss" unfolding covers_def by blast
  have len: "length idxss = length us" using x(2) by (simp add: list_all2_lengthD)
  show ?thesis
  proof (rule that[OF x(1) len])
    fix k assume k: "k < length us"
    then have "idxss ! k \<noteq> []" "\<exists>n e. us ! k = ubatch_of a (idxss ! k) n e" using x(2) unfolding list_all2_conv_all_nth by metis+
    moreover have "idxss ! k \<in> set idxss" using k len by simp
    then have "set (idxss ! k) \<subseteq> set ids" unfolding x(1) set_concat by blast
    ultimately show "idxss ! k \<noteq> [] \<and> set (idxss ! k) \<subseteq> set ids \<and> (\<exists>n e. us ! k = ubatch_of a (idxss ! k) n e)" by blast
  qed
qed

lemma covers_placeable:
  assumes kv: "kv_ok sz kv" "kv_n_stream kv = 1" "a_n_seq_max a \<le> length (kv_seq_to_stream kv)"
    and a: "tokens_ok (a_batch a)" "ids_in_range a" "0 < a_n_pos_per_embd a"
    and c: "covers a ids us" "set ids = {0..<b_n_tokens (a_batch a)}"
  shows "\<forall>u \<in> set us. ubatch_placeable kv u"
proof -
  obtain idxss where u: "\<And>k. k < length us \<Longrightarrow> idxss ! k \<noteq> [] \<and> set (idxss ! k) \<subseteq> set ids \<and> (\<exists>n e. us ! k = ubatch_of a (idxss ! k) n e)"
    by (rule coversE[OF c(1)]) (rule that)
  then show ?thesis using ubatch_of_placeable[OF kv a] unfolding c(2) by (metis in_set_conv_nth)
qed

lemma covers_positions:
  assumes np: "0 < a_n_pos_per_embd a" and c: "covers a ids us" "set ids = {0..<b_n_tokens (a_batch a)}"
  shows "(\<Union>u \<in> set us. ubatch_positions u t) = batch_positions (a_batch a) t" "sum_list (map u_n_tokens us) = length ids"
proof -
  obtain idxss where x: "ids = concat idxss" and len: "length idxss = length us"
    and u: "\<And>k. k < length us \<Longrightarrow> idxss ! k \<noteq> [] \<and> set (idxss ! k) \<subseteq> set ids \<and> (\<exists>n e. us ! k = ubatch_of a (idxss ! k) n e)"
    by (rule coversE[OF c(1)]) (rule that)
  have pos: "ubatch_positions (us ! k) t = {the (b_pos (a_batch a)) ! i |i. i \<in> set (idxss ! k) \<and> t \<in> set (seq_ids (a_batch a) i)}" if "k < length us" for k
    using u[OF that] ubatch_of_positions[OF np] by auto
  have "(\<Union>u \<in> set us. ubatch_positions u t) = (\<Union>k < length us. ubatch_positions (us ! k) t)"
    unfolding set_conv_nth[of us] by blast
  also have "\<dots> = (\<Union>k < length us. {the (b_pos (a_batch a)) ! i |i. i \<in> set (idxss ! k) \<and> t \<in> set (seq_ids (a_batch a) i)})"
    by (rule SUP_cong[OF refl]) (use pos in simp)
  also have "\<dots> = {the (b_pos (a_batch a)) ! i |i. i \<in> set ids \<and> t \<in> set (seq_ids (a_batch a) i)}"
    unfolding x len[symmetric] set_concat set_conv_nth[of idxss] by blast
  finally show "(\<Union>u \<in> set us. ubatch_positions u t) = batch_positions (a_batch a) t" unfolding batch_positions_def c(2) by auto
  have "u_n_tokens (us ! k) = length (idxss ! k)" if "k < length us" for k using u[OF that] by auto
  then have "map u_n_tokens us = map length idxss" using len by (intro nth_equalityI) auto
  then show "sum_list (map u_n_tokens us) = length ids" by (simp add: x length_concat)
qed

section \<open>Processing the ubatches\<close>

text \<open>
  The loop of \<^verbatim>\<open>llama_context::decode\<close> over the ubatches as far as the memory is concerned: \<^verbatim>\<open>apply\<close>, then \<^verbatim>\<open>next\<close>
  until it reports the end.
\<close>

fun process :: "(llama_kv_cache \<Rightarrow> cell_data list list option) \<Rightarrow> nat \<Rightarrow> llama_kv_cache_context \<Rightarrow> llama_kv_cache \<Rightarrow> llama_kv_cache option" where
  "process g 0 kc kv = None"
| "process g (Suc fuel) kc kv = do {
     (kc, kv, res) \<leftarrow> context_apply g kc kv;
     require res;
     (kc, more) \<leftarrow> context_next kc;
     if more then process g fuel kc kv else Some kv
   }"

lemma process_replay:
  assumes "length sis = length us" "i < length us"
    and "kc_status kc = LLAMA_MEMORY_STATUS_SUCCESS" "kc_sinfos kc = sis" "kc_ubatches kc = us" "kc_i_cur kc = i"
  shows "process g (length us - i) kc kv = replay (drop i sis) (drop i us) kv"
  using assms(2-)
proof (induction "length us - i" arbitrary: i kc kv)
  case (Suc n)
  let ?r = "apply_ubatch (sis ! i) (us ! i) kv"
  have ne: "us \<noteq> []" using Suc.prems(1) by auto
  have d: "drop i sis = sis ! i # drop (Suc i) sis" "drop i us = us ! i # drop (Suc i) us"
    using Suc.prems(1) assms(1) by (simp_all add: Cons_nth_drop_Suc)
  have n: "length us - i = Suc (length us - Suc i)" using Suc.prems(1) by simp
  have fail: "\<not> llama_memory_status_is_fail (kc_status kc)" using Suc.prems(2) by (simp add: llama_memory_status_is_fail_def)
  show ?case
  proof (cases ?r)
    case None
    then show ?thesis unfolding n d using Suc.prems(3-5) ne fail by (simp add: context_apply_def replay_def)
  next
    case (Some kv1)
    let ?kc = "kc\<lparr>kc_n_kv := kv_get_n_kv (sis ! i) kv1, kc_i_cur := Suc i\<rparr>"
    have step: "process g (length us - i) kc kv = (if \<not> Suc i \<ge> length us then process g (length us - Suc i) ?kc kv1 else Some kv1)"
      unfolding n using Some Suc.prems(2-5) ne fail by (simp add: context_apply_def context_next_def Let_def)
    have rep: "replay (drop i sis) (drop i us) kv = replay (drop (Suc i) sis) (drop (Suc i) us) kv1"
      unfolding d using Some by (simp add: replay_def)
    show ?thesis
    proof (cases "Suc i < length us")
      case True
      then show ?thesis using step rep Suc.hyps(1)[of "Suc i" ?kc kv1] Suc.hyps(2) Suc.prems by simp
    next
      case False
      then show ?thesis using step rep assms(1) by (simp add: replay_def)
    qed
  qed
qed simp

lemma split_ready_reset: "split_ready a \<Longrightarrow> split_reset a = a"
  by (cases a) (simp add: split_ready_def split_reset_def allocr_get_n_tokens_def)

text \<open>The result of splitting an accepted batch completely.\<close>

lemma accepted_split:
  assumes "split_ready a"
  shows "\<exists>a' us ks. split_all (b_n_tokens (a_batch a) + 1) (split_simple n) a [] = Some (a', us) \<and>
      allocr_get_n_used a' = allocr_get_n_tokens a' \<and> covers a ks us \<and> distinct ks \<and> set ks = {0..<b_n_tokens (a_batch a)} \<and> a_batch a' = a_batch a"
    "\<forall>i < b_n_tokens (a_batch a). seq_ids (a_batch a) i \<noteq> [] \<Longrightarrow>
     \<exists>a' us ks. split_all (b_n_tokens (a_batch a) + 1) (split_equal n False) a [] = Some (a', us) \<and>
      allocr_get_n_used a' = allocr_get_n_tokens a' \<and> covers a ks us \<and> distinct ks \<and> set ks = {0..<b_n_tokens (a_batch a)} \<and> a_batch a' = a_batch a"
proof -
  note u = split_ready_unused[OF assms] and inv = split_ready_inv[OF assms]
  have o: "a_out_ids a = []" using assms by (simp add: split_ready_def)
  from simple.split_all_partition[OF inv(2) u o, of n]
  show "\<exists>a' us ks. split_all (b_n_tokens (a_batch a) + 1) (split_simple n) a [] = Some (a', us) \<and>
      allocr_get_n_used a' = allocr_get_n_tokens a' \<and> covers a ks us \<and> distinct ks \<and> set ks = {0..<b_n_tokens (a_batch a)} \<and> a_batch a' = a_batch a"
    unfolding allocr_get_n_used_def allocr_get_n_tokens_def by metis
  assume "\<forall>i < b_n_tokens (a_batch a). seq_ids (a_batch a) i \<noteq> []"
  then have "equal_inv a \<and> (False \<longrightarrow> \<not> a_has_cpl a)" using inv(3) by blast
  from equal.split_all_partition[OF this u o, of n]
  show "\<exists>a' us ks. split_all (b_n_tokens (a_batch a) + 1) (split_equal n False) a [] = Some (a', us) \<and>
      allocr_get_n_used a' = allocr_get_n_tokens a' \<and> covers a ks us \<and> distinct ks \<and> set ks = {0..<b_n_tokens (a_batch a)} \<and> a_batch a' = a_batch a"
    unfolding allocr_get_n_used_def allocr_get_n_tokens_def by metis
qed

text \<open>
  C29.  Decoding a batch with a unified cache without window.  When \<^verbatim>\<open>init\<close> accepts the batch and the caller
  keeps the contract \<open>tokens_ok\<close>, \<^verbatim>\<open>init_batch\<close> never aborts and leaves the cache as it was; it succeeds
  exactly when the cache has an empty cell for every token, and then applying all ubatches succeeds,
  keeps the invariant and adds to every sequence exactly the positions the batch has in it.
\<close>

theorem decode_unified:
  assumes "batch_init b n_vocab mem n_embd n_seq_max output_all a0 = Some (a, True)" "0 < n_seq_max" "0 < a_n_pos_per_embd a0" "tokens_ok (a_batch a)"
    and "kv_ok sz kv" "kv_n_stream kv = 1" "kv_swa_type kv = LLAMA_SWA_TYPE_NONE" "n_seq_max \<le> length (kv_seq_to_stream kv)"
  shows "\<exists>a' kc. init_batch a n_ubatch kv = Some (a', kv, kc) \<and>
    (if b_n_tokens (a_batch a) \<le> n_empty kv 0
     then kc_status kc = LLAMA_MEMORY_STATUS_SUCCESS \<and> (\<exists>kv'. process g (length (kc_ubatches kc)) kc kv = Some kv' \<and> kv_ok sz kv' \<and>
       (\<forall>t. kv_seq_ok kv t \<longrightarrow> kv_positions kv' t = kv_positions kv t \<union> batch_positions (a_batch a) t))
     else kc_status kc = LLAMA_MEMORY_STATUS_FAILED_PREPARE)"
proof -
  note ids = batch_init_ids[OF assms(1,2)] and rd = batch_init_ready[OF assms(1)]
  have npos: "0 < a_n_pos_per_embd a" "a_n_seq_max a \<le> length (kv_seq_to_stream kv)" using ids(2,4) assms(3,8) by simp_all
  from accepted_split(1)[OF rd, of n_ubatch] obtain a' us ks where
    sp: "split_all (b_n_tokens (a_batch a) + 1) (split_simple n_ubatch) a [] = Some (a', us)" "allocr_get_n_used a' = allocr_get_n_tokens a'"
      "covers a ks us" "distinct ks" "set ks = {0..<b_n_tokens (a_batch a)}" by blast
  note cp = covers_placeable[OF assms(5,6) npos(2) assms(4) ids(1) npos(1) sp(3,5)] and cs = covers_positions[OF npos(1) sp(3,5)]
  have tot: "sum_list (map u_n_tokens us) = b_n_tokens (a_batch a)" using cs(2) distinct_card[OF sp(4)] sp(5) by simp
  then have ne: "us \<noteq> []" using ids(5) by auto
  from prepare_no_window[OF assms(5,7) cp ne] assms(6) obtain sis where
    p: "prepare us kv = Some (kv, sis)" "sis \<noteq> [] \<longleftrightarrow> b_n_tokens (a_batch a) \<le> n_empty kv 0"
      "sis \<noteq> [] \<longrightarrow> length sis = length us \<and> (\<exists>kv1. replay sis us kv = Some kv1 \<and> kv_ok sz kv1 \<and>
      (\<forall>t. kv_seq_ok kv t \<longrightarrow> kv_positions kv1 t = kv_positions kv t \<union> (\<Union>u \<in> set us. ubatch_positions u t)))" unfolding tot by auto
  let ?kc = "if sis = [] then context_status LLAMA_MEMORY_STATUS_FAILED_PREPARE else context_batch sis us"
  have run: "init_batch a n_ubatch kv = Some (a', kv, ?kc)"
    using sp(1,2) p(1) assms(6) split_ready_reset[OF rd] by (simp add: init_batch_def Let_def allocr_get_n_tokens_def del: split_all.simps)
  show ?thesis
  proof (cases "sis = []")
    case True
    then show ?thesis using run p(2) by (intro exI[of _ a'] exI[of _ ?kc]) (simp add: context_status_def)
  next
    case False
    then have "process g (length us) (context_batch sis us) kv = replay sis us kv"
      using process_replay[of sis us 0 "context_batch sis us" g kv] p(3) ne by (simp add: context_batch_def context_status_def)
    moreover have "kc_ubatches (context_batch sis us) = us" "kc_status (context_batch sis us) = LLAMA_MEMORY_STATUS_SUCCESS"
      by (simp_all add: context_batch_def context_status_def)
    ultimately show ?thesis using run p(2,3) False cs(1) by (intro exI[of _ a'] exI[of _ ?kc]) auto
  qed
qed

theorem decode_unified_witness:
  "\<exists>a a' kv kc. batch_init (llama_batch_get_one [3, 1] 2) 10 None 4 1 False (allocr_new 1) = Some (a, True) \<and>
    init_batch a 1 kv = Some (a', kv, kc) \<and> kc_status kc = LLAMA_MEMORY_STATUS_SUCCESS \<and>
    (\<exists>kv'. process (\<lambda>_. None) (length (kc_ubatches kc)) kc kv = Some kv' \<and> kv_positions kv' 0 = {0, 1})"
proof -
  let ?i = "batch_init (llama_batch_get_one [3, 1] 2) 10 None 4 1 False (allocr_new 1)"
  have "case ?i of None \<Rightarrow> False | Some (a, r) \<Rightarrow> r \<and> b_n_tokens (a_batch a) = 2 \<and>
      map (seq_ids (a_batch a)) [0, 1] = [[0], [0]] \<and> the (b_pos (a_batch a)) = [0, 1] \<and>
      the (b_n_seq_id (a_batch a)) = [1, 1] \<and> map length (the (b_seq_id (a_batch a))) = [1, 1]" by code_simp
  then obtain a where a: "?i = Some (a, True)" and b: "b_n_tokens (a_batch a) = 2" "seq_ids (a_batch a) 0 = [0]" "seq_ids (a_batch a) 1 = [0]"
    "the (b_pos (a_batch a)) = [0, 1]" "the (b_n_seq_id (a_batch a)) = [1, 1]" "map length (the (b_seq_id (a_batch a))) = [1, 1]"
    by (auto split: option.splits prod.splits)
  have two: "i < 2 \<longleftrightarrow> i = 0 \<or> i = 1" for i :: nat by auto
  have "length (the (b_seq_id (a_batch a)) ! 0) = 1 \<and> length (the (b_seq_id (a_batch a)) ! 1) = 1"
    using b(6) by (cases "the (b_seq_id (a_batch a))"; cases "tl (the (b_seq_id (a_batch a)))") auto
  then have tok: "tokens_ok (a_batch a)" unfolding tokens_ok_def b(1) using b(2-5) by (auto simp: two)
  have "batch_positions (a_batch a) 0 = (\<lambda>i. the (b_pos (a_batch a)) ! i) ` {i. i < 2 \<and> 0 \<in> set (seq_ids (a_batch a) i)}"
    unfolding batch_positions_def b(1) by blast
  also have "{i. i < 2 \<and> 0 \<in> set (seq_ids (a_batch a) i)} = {0, 1}" using b(2,3) by (auto simp: two)
  finally have bp: "batch_positions (a_batch a) 0 = {0, 1}" by (simp add: b(4))
  from kv_new_demo[of 1 1 demo_hparams True False True 4 0 LLAMA_SWA_TYPE_NONE "[]"] obtain kv where
    kv: "kv_new demo_hparams True False True 4 1 1 0 LLAMA_SWA_TYPE_NONE [] = Some kv" "kv_ok 4 kv" "kv_n_stream kv = 1"
      "kv_seq_to_stream kv = replicate LLAMA_MAX_SEQ 0" by (auto simp: LLAMA_MAX_SEQ_def)
  have f: "kv_swa_type kv = LLAMA_SWA_TYPE_NONE" "kv_v_cells kv = [cells_resize 4 cells_new]" using kv(1) by (auto simp: kv_new_def Let_def)
  have v: "view (kv_v_cells kv ! 0) = replicate 4 empty_cell" by (simp add: f(2) cells_resize_new(2))
  have "{i. i < length (view (kv_v_cells kv ! 0)) \<and> v_pos (view (kv_v_cells kv ! 0) ! i) = -1} = {0..<4}" unfolding v by auto
  then have e: "n_empty kv 0 = 4" by (simp add: n_empty_def del: length_view nth_view)
  have sq: "kv_seq_ok kv 0" "kv_positions kv 0 = {}" using v by (auto simp: kv_seq_ok_def kv(4) LLAMA_MAX_SEQ_def kv_positions_def kv_stream_def seq_positions_def)
  from decode_unified[OF a _ _ tok kv(2,3) f(1), of 1 "\<lambda>_. None"] b(1) e obtain a' kc kv' where
    "init_batch a 1 kv = Some (a', kv, kc)" "kc_status kc = LLAMA_MEMORY_STATUS_SUCCESS" "process (\<lambda>_. None) (length (kc_ubatches kc)) kc kv = Some kv'"
    "\<forall>t. kv_seq_ok kv t \<longrightarrow> kv_positions kv' t = kv_positions kv t \<union> batch_positions (a_batch a) t"
    by (auto simp: allocr_new_def kv(4) LLAMA_MAX_SEQ_def)
  with a sq bp show ?thesis by (metis sup_bot_left)
qed

end
