(* ===== verification/Kv_Iswa.thy ===== *)
theory Kv_Iswa
  imports Kv_Cache Kv_State
begin

text \<open>
  \<^verbatim>\<open>src/llama-kv-cache-iswa.cpp\<close>: a memory made of two KV caches that see the same ubatches, one for the
  layers with full attention and one, usually smaller, for the layers with a sliding window.
\<close>

section \<open>Construction\<close>

unbundle bit_operations_syntax

record llama_kv_cache_iswa =
  is_unified :: bool
  is_kv_base :: llama_kv_cache
  is_kv_swa :: llama_kv_cache

definition GGML_PAD32 :: "u32 \<Rightarrow> u32 \<Rightarrow> u32" where
  "GGML_PAD32 x n = (x + n - 1) AND NOT (n - 1)"

definition iswa_size_swa :: "bool \<Rightarrow> bool \<Rightarrow> u32 \<Rightarrow> u32 \<Rightarrow> u32 \<Rightarrow> u32 \<Rightarrow> u32" where
  "iswa_size_swa swa_full unified size_base n_swa n_seq_max n_ubatch =
     (let size_swa = GGML_PAD32 (min size_base (n_swa * (if unified then n_seq_max else 1) + n_ubatch)) 256
      in if swa_full then size_base else size_swa)"

text \<open>The layer filters; \<^verbatim>\<open>filter\<close> is the caller's filter, which may be absent.\<close>

definition filter_base :: "llama_hparams \<Rightarrow> (nat \<Rightarrow> bool) option \<Rightarrow> nat \<Rightarrow> bool option" where
  "filter_base hp flt il = (case flt of Some f \<Rightarrow> if \<not> f il then Some False else map_option Not (is_swa hp il)
     | None \<Rightarrow> map_option Not (is_swa hp il))"

definition filter_swa :: "llama_hparams \<Rightarrow> (nat \<Rightarrow> bool) option \<Rightarrow> nat \<Rightarrow> bool option" where
  "filter_swa hp flt il = (case flt of Some f \<Rightarrow> if \<not> f il then Some False else is_swa hp il
     | None \<Rightarrow> is_swa hp il)"

text \<open>The data of the two caches is allocated for the layers the filter selects; \<open>alloc\<close> stands for that.\<close>

definition iswa_new :: "llama_hparams \<Rightarrow> bool \<Rightarrow> bool \<Rightarrow> bool \<Rightarrow> bool \<Rightarrow> u32 \<Rightarrow> u32 \<Rightarrow> u32 \<Rightarrow> u32 \<Rightarrow> (nat \<Rightarrow> bool) option \<Rightarrow>
    ((nat \<Rightarrow> bool option) \<Rightarrow> u32 \<Rightarrow> cell_data list list) \<Rightarrow> llama_kv_cache_iswa option" where
  "iswa_new hp can_shift v_trans swa_full unified kv_size n_seq_max n_ubatch n_pad flt alloc = do {
     let size_base = kv_size;
     let size_swa = iswa_size_swa swa_full unified size_base (word_of_nat (hp_n_swa hp)) n_seq_max n_ubatch;
     base \<leftarrow> kv_new hp can_shift v_trans unified (unat size_base) (unat n_seq_max) (unat n_pad) 0 LLAMA_SWA_TYPE_NONE
       (alloc (filter_base hp flt) size_base);
     swa \<leftarrow> kv_new hp can_shift v_trans unified (unat size_swa) (unat n_seq_max) (unat n_pad) (hp_n_swa hp) (hp_swa_type hp)
       (alloc (filter_swa hp flt) size_swa);
     Some \<lparr>is_unified = unified, is_kv_base = base, is_kv_swa = swa\<rparr>
   }"

section \<open>Sequence operations\<close>

definition iswa_clear :: "bool \<Rightarrow> llama_kv_cache_iswa \<Rightarrow> llama_kv_cache_iswa" where
  "iswa_clear data kv = kv\<lparr>is_kv_base := kv_clear data (is_kv_base kv), is_kv_swa := kv_clear data (is_kv_swa kv)\<rparr>"

definition iswa_seq_rm :: "llama_seq_id \<Rightarrow> llama_pos \<Rightarrow> llama_pos \<Rightarrow> llama_kv_cache_iswa \<Rightarrow> (llama_kv_cache_iswa \<times> bool) option" where
  "iswa_seq_rm seq_id p0 p1 kv = do {
     (base, res0) \<leftarrow> kv_seq_rm seq_id p0 p1 (is_kv_base kv);
     (swa, res1) \<leftarrow> kv_seq_rm seq_id p0 p1 (is_kv_swa kv);
     Some (kv\<lparr>is_kv_base := base, is_kv_swa := swa\<rparr>, res0 \<and> res1)
   }"

text \<open>The operations that act on both caches and return nothing.\<close>

definition iswa_both :: "(llama_kv_cache \<Rightarrow> llama_kv_cache option) \<Rightarrow> llama_kv_cache_iswa \<Rightarrow> llama_kv_cache_iswa option" where
  "iswa_both f kv = do {
     base \<leftarrow> f (is_kv_base kv);
     swa \<leftarrow> f (is_kv_swa kv);
     Some (kv\<lparr>is_kv_base := base, is_kv_swa := swa\<rparr>)
   }"

definition iswa_seq_cp :: "llama_seq_id \<Rightarrow> llama_seq_id \<Rightarrow> llama_pos \<Rightarrow> llama_pos \<Rightarrow> llama_kv_cache_iswa \<Rightarrow> llama_kv_cache_iswa option" where
  "iswa_seq_cp src dst p0 p1 = iswa_both (kv_seq_cp src dst p0 p1)"

definition iswa_seq_keep :: "llama_seq_id \<Rightarrow> llama_kv_cache_iswa \<Rightarrow> llama_kv_cache_iswa option" where
  "iswa_seq_keep seq_id = iswa_both (kv_seq_keep seq_id)"

definition iswa_seq_add :: "llama_seq_id \<Rightarrow> llama_pos \<Rightarrow> llama_pos \<Rightarrow> llama_pos \<Rightarrow> llama_kv_cache_iswa \<Rightarrow> llama_kv_cache_iswa option" where
  "iswa_seq_add seq_id p0 p1 shift = iswa_both (kv_seq_add seq_id p0 p1 shift)"

definition iswa_seq_div :: "llama_seq_id \<Rightarrow> llama_pos \<Rightarrow> llama_pos \<Rightarrow> int \<Rightarrow> llama_kv_cache_iswa \<Rightarrow> llama_kv_cache_iswa option" where
  "iswa_seq_div seq_id p0 p1 d = iswa_both (kv_seq_div seq_id p0 p1 d)"

definition iswa_seq_pos_min :: "llama_seq_id \<Rightarrow> llama_kv_cache_iswa \<Rightarrow> llama_pos option" where
  "iswa_seq_pos_min seq_id kv = kv_seq_pos_min seq_id (is_kv_swa kv)"

definition iswa_seq_pos_max :: "llama_seq_id \<Rightarrow> llama_kv_cache_iswa \<Rightarrow> llama_pos option" where
  "iswa_seq_pos_max seq_id kv = kv_seq_pos_max seq_id (is_kv_swa kv)"

definition iswa_get_can_shift :: "llama_kv_cache_iswa \<Rightarrow> bool" where
  "iswa_get_can_shift kv \<longleftrightarrow> kv_can_shift (is_kv_base kv) \<and> kv_can_shift (is_kv_swa kv) \<and>
     kv_get_size (is_kv_base kv) = kv_get_size (is_kv_swa kv)"

section \<open>Contexts\<close>

text \<open>The contexts of the two caches are null in a context that only carries a status.\<close>

record llama_kv_cache_iswa_context =
  ic_i_next :: nat
  ic_ubatches :: "llama_ubatch list"
  ic_base :: "llama_kv_cache_context option"
  ic_swa :: "llama_kv_cache_context option"
  ic_status :: llama_memory_status

definition iswa_context_status :: "llama_memory_status \<Rightarrow> llama_kv_cache_iswa_context" where
  "iswa_context_status st = \<lparr>ic_i_next = 0, ic_ubatches = [], ic_base = None, ic_swa = None, ic_status = st\<rparr>"

definition iswa_context_of :: "llama_ubatch list \<Rightarrow> llama_kv_cache_context \<Rightarrow> llama_kv_cache_context \<Rightarrow> llama_kv_cache_iswa_context" where
  "iswa_context_of ubatches base swa = \<lparr>ic_i_next = 0, ic_ubatches = ubatches, ic_base = Some base, ic_swa = Some swa,
     ic_status = llama_memory_status_combine (kc_status base) (kc_status swa)\<rparr>"

definition iswa_context_full :: "llama_kv_cache_iswa \<Rightarrow> llama_kv_cache_iswa_context" where
  "iswa_context_full kv = iswa_context_of [] (context_full (is_kv_base kv)) (context_full (is_kv_swa kv))"

definition iswa_context_batch :: "slot_info list \<Rightarrow> slot_info list \<Rightarrow> llama_ubatch list \<Rightarrow> llama_kv_cache_iswa_context" where
  "iswa_context_batch sinfos_base sinfos_swa ubatches =
     iswa_context_of ubatches (context_batch sinfos_base ubatches) (context_batch sinfos_swa ubatches)"

definition iswa_init_full :: "llama_kv_cache_iswa \<Rightarrow> llama_kv_cache_iswa_context" where
  "iswa_init_full kv = iswa_context_full kv"

definition iswa_init_update :: "llama_kv_cache_iswa \<Rightarrow> llama_kv_cache_iswa \<times> llama_kv_cache_iswa_context" where
  "iswa_init_update kv =
     (let (base, ctx_base) = init_update (is_kv_base kv); (swa, ctx_swa) = init_update (is_kv_swa kv)
      in (kv\<lparr>is_kv_base := base, is_kv_swa := swa\<rparr>, iswa_context_of [] ctx_base ctx_swa))"

text \<open>
  One attempt of \<^verbatim>\<open>init_batch\<close> with a way of splitting: no context is the \<^verbatim>\<open>break\<close> out of the \<^verbatim>\<open>do\<close> block.  The
  caches keep what the attempt left of them.
\<close>

definition iswa_attempt :: "(llama_batch_allocr \<Rightarrow> (llama_batch_allocr \<times> llama_ubatch) option) \<Rightarrow> llama_batch_allocr \<Rightarrow> llama_kv_cache_iswa \<Rightarrow>
    (llama_batch_allocr \<times> llama_kv_cache_iswa \<times> llama_kv_cache_iswa_context option) option" where
  "iswa_attempt split balloc kv = do {
     let balloc = split_reset balloc;
     (balloc, ubatches) \<leftarrow> split_all (allocr_get_n_tokens balloc + 1) split balloc [];
     if allocr_get_n_used balloc < allocr_get_n_tokens balloc then Some (balloc, kv, None)
     else do {
       (base, sinfos_base) \<leftarrow> prepare ubatches (is_kv_base kv);
       let kv = kv\<lparr>is_kv_base := base\<rparr>;
       if sinfos_base = [] then Some (balloc, kv, None)
       else do {
         (swa, sinfos_swa) \<leftarrow> prepare ubatches (is_kv_swa kv);
         let kv = kv\<lparr>is_kv_swa := swa\<rparr>;
         if sinfos_swa = [] then Some (balloc, kv, None)
         else do {
           require (length sinfos_base = length sinfos_swa);
           Some (balloc, kv, Some (iswa_context_batch sinfos_base sinfos_swa ubatches))
         }
       }
     }
   }"

definition iswa_init_batch :: "llama_batch_allocr \<Rightarrow> nat \<Rightarrow> llama_kv_cache_iswa \<Rightarrow>
    (llama_batch_allocr \<times> llama_kv_cache_iswa \<times> llama_kv_cache_iswa_context) option" where
  "iswa_init_batch balloc n_ubatch kv = do {
     (balloc, kv, res) \<leftarrow> (if \<not> is_unified kv then Some (balloc, kv, None) else iswa_attempt (split_simple n_ubatch) balloc kv);
     case res of Some ctx \<Rightarrow> Some (balloc, kv, ctx)
     | None \<Rightarrow> do {
         (balloc, kv, res) \<leftarrow> iswa_attempt (split_equal n_ubatch (\<not> is_unified kv)) balloc kv;
         case res of Some ctx \<Rightarrow> Some (balloc, kv, ctx)
         | None \<Rightarrow> Some (balloc, kv, iswa_context_status LLAMA_MEMORY_STATUS_FAILED_PREPARE)
       }
   }"

definition iswa_context_next :: "llama_kv_cache_iswa_context \<Rightarrow> (llama_kv_cache_iswa_context \<times> bool) option" where
  "iswa_context_next ic = do {
     require (ic_status ic = LLAMA_MEMORY_STATUS_SUCCESS);
     base \<leftarrow> ic_base ic;
     swa \<leftarrow> ic_swa ic;
     (base, _) \<leftarrow> context_next base;
     (swa, _) \<leftarrow> context_next swa;
     let i_next = ic_i_next ic + 1;
     Some (ic\<lparr>ic_base := Some base, ic_swa := Some swa, ic_i_next := i_next\<rparr>, \<not> i_next \<ge> length (ic_ubatches ic))
   }"

definition iswa_context_apply :: "(llama_kv_cache \<Rightarrow> cell_data list list option) \<Rightarrow> llama_kv_cache_iswa_context \<Rightarrow> llama_kv_cache_iswa \<Rightarrow>
    (llama_kv_cache_iswa_context \<times> llama_kv_cache_iswa \<times> bool) option" where
  "iswa_context_apply shift_graph ic kv = do {
     require (\<not> llama_memory_status_is_fail (ic_status ic));
     base \<leftarrow> ic_base ic;
     swa \<leftarrow> ic_swa ic;
     (base, kv_base, res0) \<leftarrow> context_apply shift_graph base (is_kv_base kv);
     (swa, kv_swa, res1) \<leftarrow> context_apply shift_graph swa (is_kv_swa kv);
     Some (ic\<lparr>ic_base := Some base, ic_swa := Some swa\<rparr>, kv\<lparr>is_kv_base := kv_base, is_kv_swa := kv_swa\<rparr>, res0 \<and> res1)
   }"

definition iswa_context_get_ubatch :: "llama_kv_cache_iswa_context \<Rightarrow> llama_ubatch option" where
  "iswa_context_get_ubatch ic = do {
     require (ic_status ic = LLAMA_MEMORY_STATUS_SUCCESS);
     require (ic_i_next ic < length (ic_ubatches ic));
     Some (ic_ubatches ic ! ic_i_next ic)
   }"

section \<open>Saving and restoring\<close>

definition LLAMA_STATE_SEQ_FLAGS_PARTIAL_ONLY :: u32 where
  "LLAMA_STATE_SEQ_FLAGS_PARTIAL_ONLY = 1"

definition iswa_state_write :: "traits \<Rightarrow> llama_seq_id \<Rightarrow> u32 \<Rightarrow> kv_mem \<times> kv_mem \<Rightarrow> byte list list option" where
  "iswa_state_write tt seq_id flags = (\<lambda>(base, swa). do {
     cs0 \<leftarrow> (if flags AND LLAMA_STATE_SEQ_FLAGS_PARTIAL_ONLY = 0 then state_write tt seq_id base else Some []);
     cs1 \<leftarrow> state_write tt seq_id swa;
     Some (cs0 @ cs1)
   })"

text \<open>Reader actions on one of two memories, as actions on the pair.\<close>

definition io_first :: "('s, 'a) io \<Rightarrow> ('s \<times> 't, 'a) io" where
  "io_first f = (\<lambda>((s, t), bs). case f (s, bs) of
       Inl Aborted \<Rightarrow> Inl Aborted
     | Inl (Thrown e s') \<Rightarrow> Inl (Thrown e (s', t))
     | Inr (x, s', rest) \<Rightarrow> Inr (x, (s', t), rest))"

definition io_second :: "('t, 'a) io \<Rightarrow> ('s \<times> 't, 'a) io" where
  "io_second f = (\<lambda>((s, t), bs). case f (t, bs) of
       Inl Aborted \<Rightarrow> Inl Aborted
     | Inl (Thrown e t') \<Rightarrow> Inl (Thrown e (s, t'))
     | Inr (x, t', rest) \<Rightarrow> Inr (x, (s, t'), rest))"

definition iswa_state_read :: "traits \<Rightarrow> llama_seq_id \<Rightarrow> u32 \<Rightarrow> (kv_mem \<times> kv_mem, bool) io" where
  "iswa_state_read tt seq_id flags =
     io_bind (if flags AND LLAMA_STATE_SEQ_FLAGS_PARTIAL_ONLY = 0 then io_first (state_read tt seq_id) else io_return True) (\<lambda>_.
       io_second (state_read tt seq_id))"

end
