(* ===== verification/Kv_Swa.thy ===== *)
theory Kv_Swa
  imports Kv_Prepare
begin

text \<open>
  Correctness of \<^verbatim>\<open>apply_ubatch\<close> in a cache with a sliding window, where a slot may contain cells that
  are still in use but masked: the old content of such a cell is dropped, and afterwards every
  position of that sequence up to the dropped one is purged, so that the positions of a sequence stay
  contiguous.  The result is related to placing the ubatch in the cache whose slot has been emptied.
\<close>

section \<open>Emptying the cells of a slot\<close>

definition freed :: "nat list \<Rightarrow> kv_cell list \<Rightarrow> kv_cell list" where
  "freed idxs V = map (\<lambda>j. if j \<in> set idxs \<and> v_pos (V ! j) \<noteq> -1 then empty_cell else V ! j) [0..<length V]"

definition free_cells :: "nat list \<Rightarrow> llama_kv_cells \<Rightarrow> llama_kv_cells" where
  "free_cells idxs c = fold (\<lambda>k c. if c_pos c ! k = -1 then c else the (cells_rm k c)) idxs c"

lemma length_freed [simp]: "length (freed idxs V) = length V"
  by (simp add: freed_def)

lemma freed_nth: "j < length V \<Longrightarrow> freed idxs V ! j = (if j \<in> set idxs \<and> v_pos (V ! j) \<noteq> -1 then empty_cell else V ! j)"
  by (simp add: freed_def)

lemma freed_cells: "v \<in> set (freed idxs V) \<Longrightarrow> v = empty_cell \<or> v \<in> set V"
  by (auto simp: freed_def)

lemma free_cells_ok:
  assumes "wf_cells c" "\<forall>k \<in> set idxs. k < length (c_pos c)"
  shows "wf_cells (free_cells idxs c) \<and> view (free_cells idxs c) = freed idxs (view c) \<and> c_has_shift (free_cells idxs c) = c_has_shift c"
  using assms
proof (induction idxs arbitrary: c)
  case Nil
  then show ?case by (auto simp: free_cells_def intro!: nth_equalityI simp: freed_nth)
next
  case (Cons k ks)
  have k: "k < length (c_pos c)" using Cons.prems by simp
  obtain d where d: "d = (if c_pos c ! k = -1 then c else the (cells_rm k c))" by blast
  have dd: "wf_cells d" "view d = (view c)[k := if c_pos c ! k = -1 then cell_at c k else empty_cell]" "c_has_shift d = c_has_shift c"
  proof -
    have "wf_cells d \<and> view d = (view c)[k := if c_pos c ! k = -1 then cell_at c k else empty_cell] \<and> c_has_shift d = c_has_shift c"
    proof (cases "c_pos c ! k = -1")
      case True
      then show ?thesis using Cons.prems(1) k by (simp add: d flip: nth_view)
    next
      case False
      from cells_rm_ok[OF Cons.prems(1) k False] obtain c' where "cells_rm k c = Some c'" "cell_upd c k empty_cell (c_has_shift c) c'" by blast
      then show ?thesis using False by (simp add: d cell_upd_def)
    qed
    then show "wf_cells d" "view d = (view c)[k := if c_pos c ! k = -1 then cell_at c k else empty_cell]" "c_has_shift d = c_has_shift c" by auto
  qed
  have len: "length (c_pos d) = length (c_pos c)" using arg_cong[OF dd(2), of length] by simp
  have "freed ks (view d) = freed (k # ks) (view c)"
    unfolding dd(2) using k by (intro nth_equalityI) (auto simp: freed_nth nth_list_update)
  moreover have "free_cells (k # ks) c = free_cells ks d" by (simp add: free_cells_def d)
  ultimately show ?case using Cons.IH[of d] dd len Cons.prems(2) by simp
qed

section \<open>Placing tokens over used cells\<close>

text \<open>A cell a token may go to: empty, or in use by one sequence.\<close>

definition replaceable :: "kv_cell \<Rightarrow> bool" where
  "replaceable v \<longleftrightarrow> v_pos v = -1 \<or> (\<exists>t. v_seq v = {t})"

definition rm_upd :: "kv_cell \<Rightarrow> llama_pos list \<Rightarrow> llama_pos list" where
  "rm_upd v rm = (if v_pos v = -1 then rm else let t = nat (the_elem (v_seq v)) in rm[t := max (rm ! t) (v_pos v)])"

lemma place_token_any:
  assumes wf: "wf_cells c" and i: "idx < length (c_pos c)" and r: "replaceable (cell_at c idx)" and t: "token_ok u i"
  shows "\<exists>c'. place_token u i idx (c, rm) = Some (c', rm_upd (cell_at c idx) rm) \<and>
    cell_upd c idx (token_cell u i (if c_pos c ! idx = -1 then cell_at c idx else empty_cell)) (c_has_shift c) c'"
proof (cases "c_pos c ! idx = -1")
  case True
  then show ?thesis using place_token_empty[OF wf i True t, of rm] by (simp add: rm_upd_def)
next
  case False
  with r obtain s where s: "c_seq c ! idx = {s}" by (auto simp: replaceable_def)
  from cells_rm_ok[OF wf i False] obtain d where d: "cells_rm idx c = Some d" "cell_upd c idx empty_cell (c_has_shift c) d" by blast
  have at: "cell_at d idx = empty_cell" and l: "idx < length (c_pos d)" using cell_upd_cell_at[OF d(2) i] cell_upd_length[OF d(2)] i by auto
  then have e: "c_pos d ! idx = -1" by (metis cell_at_simps(1) empty_cell_simps(1))
  let ?rm = "rm_upd (cell_at c idx) rm"
  from place_token_empty[OF cell_updD(1)[OF d(2)] l e t, of ?rm] obtain c' where
    c': "place_token u i idx (d, ?rm) = Some (c', ?rm)" "cell_upd d idx (token_cell u i empty_cell) (c_has_shift d) c'" by (auto simp: at)
  have rm: "?rm = rm[nat s := max (rm ! nat s) (c_pos c ! idx)]" using False s by (simp add: rm_upd_def Let_def)
  have "place_token u i idx (c, rm) = place_token u i idx (d, ?rm)"
    using wf i False s d(1) cells_seq_get_ok[OF wf i s] cells_is_empty_ok[OF cell_updD(1)[OF d(2)] l] e
    by (simp add: place_token_def step_simps rm)
  moreover have "view c' = (view c)[idx := token_cell u i empty_cell]" using cell_updD(2)[OF c'(2)] cell_updD(2)[OF d(2)] by simp
  ultimately show ?thesis using c'(1) cell_updD[OF c'(2)] cell_updD(3)[OF d(2)] False by (simp add: cell_upd_def)
qed

lemma place_row_any:
  assumes wf: "wf_cells c" and d: "distinct idxs" and r: "\<And>k. k \<in> set idxs \<Longrightarrow> k < length (c_pos c) \<and> replaceable (cell_at c k)"
    and t: "\<And>ii. ii < length idxs \<Longrightarrow> token_ok u (off + ii)"
  shows "\<exists>c'. for_loop (\<lambda>ii. place_token u (off + ii) (idxs ! ii)) [0..<length idxs] (c, rm) =
      Some (c', fold rm_upd (map ((!) (view c)) idxs) rm) \<and>
    wf_cells c' \<and> view c' = place_row u off idxs (freed idxs (view c)) \<and> c_has_shift c' = c_has_shift c"
proof -
  let ?F = "freed idxs (view c)" and ?L = "length (c_pos c)"
  let ?I = "\<lambda>n st. snd st = fold rm_upd (map ((!) (view c)) (take n idxs)) rm \<and> wf_cells (fst st) \<and> c_has_shift (fst st) = c_has_shift c \<and>
    length (c_pos (fst st)) = ?L \<and> (\<forall>ii < n. cell_at (fst st) (idxs ! ii) = token_cell u (off + ii) (?F ! (idxs ! ii))) \<and>
    (\<forall>j < ?L. j \<notin> set (take n idxs) \<longrightarrow> cell_at (fst st) j = cell_at c j)"
  have "\<exists>st. for_loop (\<lambda>ii. place_token u (off + ii) (idxs ! ii)) [0..<length idxs] (c, rm) = Some st \<and> ?I (length idxs) st"
  proof (rule for_upt_rule[where I = ?I])
    show "?I 0 (c, rm)" using wf by simp
    fix n st assume n: "n < length idxs" and I: "?I n st"
    obtain e m where st: "st = (e, m)" by (cases st)
    let ?k = "idxs ! n"
    have k: "?k < ?L" "replaceable (cell_at c ?k)" "?k \<notin> set (take n idxs)"
      using n r d by (auto simp: in_set_conv_nth nth_eq_iff_index_eq)
    have at: "cell_at e ?k = cell_at c ?k" and le: "length (c_pos e) = ?L" using I st k by auto
    then have p: "c_pos e ! ?k = c_pos c ! ?k" by (metis cell_at_simps(1))
    have wfe: "wf_cells e" "?k < length (c_pos e)" using I st k(1) le by auto
    from place_token_any[OF wfe, of u "off + n" m, unfolded at p] k(2) t[OF n] obtain e' where
      e': "place_token u (off + n) ?k (e, m) = Some (e', rm_upd (cell_at c ?k) m)"
        "cell_upd e ?k (token_cell u (off + n) (if c_pos c ! ?k = -1 then cell_at c ?k else empty_cell)) (c_has_shift e) e'" by blast
    have F: "?F ! ?k = (if c_pos c ! ?k = -1 then cell_at c ?k else empty_cell)" using k(1) n by (simp add: freed_nth)
    have len: "length (c_pos e') = ?L" using cell_upd_length[OF e'(2)] le by simp
    have ne: "ii < n \<Longrightarrow> idxs ! ii \<noteq> ?k" for ii using n d by (simp add: nth_eq_iff_index_eq)
    have "cell_at e' (idxs ! ii) = token_cell u (off + ii) (?F ! (idxs ! ii))" if "ii < Suc n" for ii
      using cell_upd_cell_at[OF e'(2), of "idxs ! ii"] I st that n r ne le F by (auto simp: less_Suc_eq)
    moreover have "cell_at e' j = cell_at c j" if "j < ?L" "j \<notin> set (take (Suc n) idxs)" for j
      using cell_upd_cell_at[OF e'(2), of j] I st that n le by (auto simp: take_Suc_conv_app_nth)
    moreover have "rm_upd (cell_at c ?k) m = fold rm_upd (map ((!) (view c)) (take (Suc n) idxs)) rm"
      using I st n k(1) by (simp add: take_Suc_conv_app_nth)
    ultimately show "\<exists>st'. place_token u (off + n) (idxs ! n) st = Some st' \<and> ?I (Suc n) st'"
      using e'(1) cell_updD[OF e'(2)] I st len by auto
  qed
  then obtain c' where c': "for_loop (\<lambda>ii. place_token u (off + ii) (idxs ! ii)) [0..<length idxs] (c, rm) = Some (c', fold rm_upd (map ((!) (view c)) idxs) rm)"
    "wf_cells c'" "c_has_shift c' = c_has_shift c" "length (c_pos c') = ?L"
    "\<And>ii. ii < length idxs \<Longrightarrow> cell_at c' (idxs ! ii) = token_cell u (off + ii) (?F ! (idxs ! ii))"
    "\<And>j. j < ?L \<Longrightarrow> j \<notin> set idxs \<Longrightarrow> cell_at c' j = cell_at c j" by auto
  note W = place_row_nth[where u = u and off = off and V = ?F, OF d]
  have lw: "length (place_row u off idxs ?F) = ?L" using W(1) r by simp
  have "view c' = place_row u off idxs ?F"
  proof (rule nth_equalityI)
    fix j assume "j < length (view c')"
    then have j: "j < ?L" using c'(4) by simp
    show "view c' ! j = place_row u off idxs ?F ! j"
    proof (cases "j \<in> set idxs")
      case True
      then obtain ii where "ii < length idxs" "j = idxs ! ii" by (auto simp: in_set_conv_nth)
      then show ?thesis using c'(4,5) W(2)[of ii] j r by simp
    next
      case False
      then show ?thesis using c'(4,6) W(3)[of j] j r by (simp add: freed_nth)
    qed
  qed (use c'(4) lw in simp)
  with c'(1-3) show ?thesis by blast
qed

text \<open>What the array \<^verbatim>\<open>seq_pos_max_rm\<close> holds after the cells \<open>vs\<close> have been overwritten.\<close>

lemma rm_after:
  assumes "\<forall>v \<in> set vs. replaceable v \<and> (\<forall>s \<in> v_seq v. 0 \<le> s)" "t < length rm"
  defines "r \<equiv> fold rm_upd vs rm ! t"
  shows "length (fold rm_upd vs rm) = length rm" "rm ! t \<le> r"
    "\<forall>v \<in> set vs. v_pos v \<noteq> -1 \<and> v_seq v = {int t} \<longrightarrow> v_pos v \<le> r"
    "r = rm ! t \<or> (\<exists>v \<in> set vs. v_pos v = r \<and> v_pos v \<noteq> -1 \<and> v_seq v = {int t})"
proof -
  have "length (fold rm_upd vs rm) = length rm \<and> rm ! t \<le> fold rm_upd vs rm ! t \<and>
    (\<forall>v \<in> set vs. v_pos v \<noteq> -1 \<and> v_seq v = {int t} \<longrightarrow> v_pos v \<le> fold rm_upd vs rm ! t) \<and>
    (fold rm_upd vs rm ! t = rm ! t \<or> (\<exists>v \<in> set vs. v_pos v = fold rm_upd vs rm ! t \<and> v_pos v \<noteq> -1 \<and> v_seq v = {int t}))"
    using assms(1,2)
  proof (induction vs arbitrary: rm)
    case (Cons v vs)
    have len: "length (rm_upd v rm) = length rm" by (simp add: rm_upd_def Let_def)
    have upd: "rm_upd v rm ! t = (if v_pos v \<noteq> -1 \<and> v_seq v = {int t} then max (rm ! t) (v_pos v) else rm ! t)"
    proof (cases "v_pos v = -1")
      case False
      then obtain s where s: "v_seq v = {s}" "0 \<le> s" using Cons.prems(1) by (force simp: replaceable_def)
      then have "nat s = t \<longleftrightarrow> s = int t" by auto
      then show ?thesis using False s Cons.prems(2) by (auto simp: rm_upd_def Let_def nth_list_update)
    qed (simp add: rm_upd_def)
    show ?case using Cons.IH[of "rm_upd v rm"] Cons.prems len upd by (auto split: if_splits simp: max_def)
  qed simp
  then show "length (fold rm_upd vs rm) = length rm" "rm ! t \<le> r"
    "\<forall>v \<in> set vs. v_pos v \<noteq> -1 \<and> v_seq v = {int t} \<longrightarrow> v_pos v \<le> r"
    "r = rm ! t \<or> (\<exists>v \<in> set vs. v_pos v = r \<and> v_pos v \<noteq> -1 \<and> v_seq v = {int t})" by (simp_all add: r_def)
qed

section \<open>The rows of a slot over used cells\<close>

text \<open>As \<open>slot_fits\<close>, but the cells of the slot may be in use by one sequence.\<close>

definition slot_over :: "nat \<Rightarrow> llama_kv_cache \<Rightarrow> slot_info \<Rightarrow> llama_ubatch \<Rightarrow> nat \<Rightarrow> bool" where
  "slot_over sz kv si u n \<longleftrightarrow> si_strm si \<noteq> [] \<and> length (si_idxs si) = length (si_strm si) \<and> distinct (si_strm si) \<and>
     u_n_tokens u = length (si_strm si) * n \<and> 0 < n \<and>
     (\<forall>s < length (si_strm si). si_strm si ! s < kv_n_stream kv \<and> length (si_idxs si ! s) = n \<and> distinct (si_idxs si ! s) \<and>
        (\<forall>k \<in> set (si_idxs si ! s). k < sz \<and> replaceable (view (kv_v_cells kv ! (si_strm si ! s)) ! k)) \<and>
        (\<forall>ii < n. token_ok u (s * n + ii) \<and> token_ids u (s * n + ii) \<noteq> [] \<and>
           (\<forall>t \<in> set (token_ids u (s * n + ii)). kv_seq_ok kv t \<and> kv_stream kv t = si_strm si ! s)))"

lemma fold_streams:
  fixes strm :: "nat list" and cs :: "'a list" and g :: "nat \<Rightarrow> 'a"
  assumes "distinct strm" "\<forall>st \<in> set strm. st < length cs"
  defines "ds \<equiv> \<lambda>m. fold (\<lambda>s cs. cs[strm ! s := g s]) [0..<m] cs"
  shows "length (ds m) = length cs" "m \<le> length strm \<Longrightarrow> s < m \<Longrightarrow> ds m ! (strm ! s) = g s" "m \<le> length strm \<Longrightarrow> st \<notin> set strm \<Longrightarrow> ds m ! st = cs ! st"
proof -
  have len: "length (ds m) = length cs" for m by (induction m) (simp_all add: ds_def)
  show "length (ds m) = length cs" by (rule len)
  have "(\<forall>s < m. ds m ! (strm ! s) = g s) \<and> (\<forall>st. st \<notin> set strm \<longrightarrow> ds m ! st = cs ! st)" if "m \<le> length strm" for m
    using that
  proof (induction m)
    case (Suc m)
    have m: "strm ! m < length (ds m)" "strm ! m \<in> set strm" using Suc.prems assms(2) len by auto
    have d: "ds (Suc m) = (ds m)[strm ! m := g m]" by (simp add: ds_def)
    have "s < m \<Longrightarrow> strm ! m = strm ! s \<longleftrightarrow> False" for s using Suc.prems assms(1) by (simp add: nth_eq_iff_index_eq)
    with Suc m show ?case unfolding d by (auto simp: less_Suc_eq nth_list_update)
  qed (simp add: ds_def)
  then show "m \<le> length strm \<Longrightarrow> s < m \<Longrightarrow> ds m ! (strm ! s) = g s" "m \<le> length strm \<Longrightarrow> st \<notin> set strm \<Longrightarrow> ds m ! st = cs ! st" by auto
qed

definition kv_freed :: "llama_kv_cache \<Rightarrow> slot_info \<Rightarrow> llama_kv_cache" where
  "kv_freed kv si = kv\<lparr>kv_v_cells := fold (\<lambda>s cs. cs[si_strm si ! s := free_cells (si_idxs si ! s) (kv_v_cells kv ! (si_strm si ! s))])
       [0..<length (si_strm si)] (kv_v_cells kv)\<rparr>"

lemma kv_freed_frame [simp]:
  "kv_v_heads (kv_freed kv si) = kv_v_heads kv" "kv_n_stream (kv_freed kv si) = kv_n_stream kv"
  "kv_seq_ok (kv_freed kv si) = kv_seq_ok kv" "kv_stream (kv_freed kv si) = kv_stream kv" "placed (kv_freed kv si) = placed kv"
  "kv_seq_to_stream (kv_freed kv si) = kv_seq_to_stream kv"
  "(kv_freed kv si)\<lparr>kv_v_cells := cs\<rparr> = kv\<lparr>kv_v_cells := cs\<rparr>" "kv_data (kv_freed kv si) = kv_data kv"
  by (simp_all add: kv_freed_def kv_seq_ok_def kv_stream_def placed_def fun_eq_iff)

lemma kv_freed_cells:
  assumes ok: "kv_ok sz kv" and over: "slot_over sz kv si u n"
  shows "st \<notin> set (si_strm si) \<Longrightarrow> kv_v_cells (kv_freed kv si) ! st = kv_v_cells kv ! st"
    "s < length (si_strm si) \<Longrightarrow> wf_cells (kv_v_cells (kv_freed kv si) ! (si_strm si ! s)) \<and>
       view (kv_v_cells (kv_freed kv si) ! (si_strm si ! s)) = freed (si_idxs si ! s) (view (kv_v_cells kv ! (si_strm si ! s))) \<and>
       c_has_shift (kv_v_cells (kv_freed kv si) ! (si_strm si ! s)) = c_has_shift (kv_v_cells kv ! (si_strm si ! s))"
    "length (kv_v_cells (kv_freed kv si)) = length (kv_v_cells kv)"
proof -
  have "distinct (si_strm si)" "\<forall>st \<in> set (si_strm si). st < length (kv_v_cells kv)"
    using over kv_okD(4)[OF ok] by (auto simp: slot_over_def in_set_conv_nth)
  note f = fold_streams(1)[OF this] fold_streams(2,3)[OF this order_refl]
  show "st \<notin> set (si_strm si) \<Longrightarrow> kv_v_cells (kv_freed kv si) ! st = kv_v_cells kv ! st" "length (kv_v_cells (kv_freed kv si)) = length (kv_v_cells kv)"
    by (simp_all add: kv_freed_def f(1,3))
  assume s: "s < length (si_strm si)"
  have st: "si_strm si ! s < kv_n_stream kv" "\<forall>k \<in> set (si_idxs si ! s). k < sz" using over s by (auto simp: slot_over_def)
  have so: "wf_cells (kv_v_cells kv ! (si_strm si ! s))" "length (c_pos (kv_v_cells kv ! (si_strm si ! s))) = sz"
    using kv_okD(1)[OF ok st(1)] by (auto simp: stream_ok_def cells_size_def)
  have "kv_v_cells (kv_freed kv si) ! (si_strm si ! s) = free_cells (si_idxs si ! s) (kv_v_cells kv ! (si_strm si ! s))"
    using f(2)[OF s] by (simp add: kv_freed_def)
  then show "wf_cells (kv_v_cells (kv_freed kv si) ! (si_strm si ! s)) \<and>
       view (kv_v_cells (kv_freed kv si) ! (si_strm si ! s)) = freed (si_idxs si ! s) (view (kv_v_cells kv ! (si_strm si ! s))) \<and>
       c_has_shift (kv_v_cells (kv_freed kv si) ! (si_strm si ! s)) = c_has_shift (kv_v_cells kv ! (si_strm si ! s))"
    using free_cells_ok[OF so(1)] st(2) so(2) by simp
qed

lemma kv_freed_fits:
  assumes ok: "kv_ok sz kv" and over: "slot_over sz kv si u n"
  shows "kv_ok sz (kv_freed kv si)" "slot_fits sz (kv_freed kv si) si u n"
proof -
  note fc = kv_freed_cells[OF ok over]
  have so: "stream_ok sz (kv_freed kv si) st" if st: "st < kv_n_stream kv" for st
  proof (cases "st \<in> set (si_strm si)")
    case True
    then obtain s where s: "s < length (si_strm si)" "si_strm si ! s = st" by (auto simp: in_set_conv_nth)
    have o: "stream_ok sz kv st" by (rule kv_okD(1)[OF ok st])
    have v: "view (kv_v_cells (kv_freed kv si) ! st) = freed (si_idxs si ! s) (view (kv_v_cells kv ! st))" using fc(2)[OF s(1)] s(2) by simp
    have "cells_size (kv_v_cells (kv_freed kv si) ! st) = sz"
      using arg_cong[OF v, of length] o by (simp add: stream_ok_def cells_size_def)
    moreover have "placed kv st v" if "v \<in> set (view (kv_v_cells (kv_freed kv si) ! st))" for v
      using freed_cells[OF that[unfolded v]] o by (auto simp: stream_ok_def placed_def)
    ultimately show ?thesis using fc(2)[OF s(1)] s(2) o by (simp add: stream_ok_def)
  next
    case False
    then show ?thesis using fc(1)[OF False] kv_okD(1)[OF ok st] by (simp add: stream_ok_def)
  qed
  then show okf: "kv_ok sz (kv_freed kv si)" using ok fc(3) by (simp add: kv_ok_def)
  have "k < sz \<and> c_pos (kv_v_cells (kv_freed kv si) ! (si_strm si ! s)) ! k = -1"
    if s: "s < length (si_strm si)" and k: "k \<in> set (si_idxs si ! s)" for s k
  proof -
    have st: "si_strm si ! s < kv_n_stream kv" "k < sz" using over s k by (auto simp: slot_over_def)
    have l: "length (c_pos (kv_v_cells kv ! (si_strm si ! s))) = sz" "length (c_pos (kv_v_cells (kv_freed kv si) ! (si_strm si ! s))) = sz"
      using kv_okD(1)[OF ok st(1)] so[OF st(1)] by (auto simp: stream_ok_def cells_size_def)
    have "v_pos (view (kv_v_cells (kv_freed kv si) ! (si_strm si ! s)) ! k) = -1"
      using conjunct1[OF conjunct2[OF fc(2)[OF s]]] k st(2) l(1) by (auto simp: freed_nth)
    then show ?thesis using st(2) l(2) by simp
  qed
  then show "slot_fits sz (kv_freed kv si) si u n" using over by (auto simp: slot_fits_def slot_over_def)
qed

text \<open>The old contents of the cells of a slot, in the order in which they are overwritten.\<close>

definition slot_cells :: "llama_kv_cache \<Rightarrow> slot_info \<Rightarrow> nat \<Rightarrow> kv_cell list" where
  "slot_cells kv si m = concat (map (\<lambda>s. map ((!) (view (kv_v_cells kv ! (si_strm si ! s)))) (si_idxs si ! s)) [0..<m])"

lemma over_rows:
  assumes ok: "kv_ok sz kv" and over: "slot_over sz kv si u n"
  shows "\<exists>cs. for_loop (\<lambda>s (kv, rm). do {
         let st = si_strm si ! s;
         (cells, rm) \<leftarrow> for_loop (\<lambda>ii. place_token u (s * n + ii) (si_idxs si ! s ! ii)) [0..<n] (kv_v_cells kv ! st, rm);
         Some (kv\<lparr>kv_v_cells := (kv_v_cells kv)[st := cells]\<rparr>, rm)
       }) [0..<length (si_strm si)] (kv, rm0) = Some (kv\<lparr>kv_v_cells := cs\<rparr>, fold rm_upd (slot_cells kv si (length (si_strm si))) rm0) \<and>
    rows_placed (kv_freed kv si) si u n (length (si_strm si)) (kv\<lparr>kv_v_cells := cs\<rparr>)"
proof -
  let ?I = "\<lambda>m rm. rm = fold rm_upd (slot_cells kv si m) rm0"
  let ?Q = "\<lambda>s c. wf_cells c \<and> c_has_shift c = c_has_shift (kv_v_cells kv ! (si_strm si ! s)) \<and>
    view c = place_row u (s * n) (si_idxs si ! s) (freed (si_idxs si ! s) (view (kv_v_cells kv ! (si_strm si ! s))))"
  have row: "\<exists>c' rm'. for_loop (\<lambda>ii. place_token u (s * n + ii) (si_idxs si ! s ! ii)) [0..<n] (kv_v_cells kv ! (si_strm si ! s), rm) = Some (c', rm') \<and>
      ?Q s c' \<and> ?I (Suc s) rm'" if s: "s < length (si_strm si)" and rm: "?I s rm" for s rm
  proof -
    have st: "si_strm si ! s < kv_n_stream kv" "length (si_idxs si ! s) = n" "distinct (si_idxs si ! s)"
      and tk: "\<And>ii. ii < n \<Longrightarrow> token_ok u (s * n + ii)"
      and em: "\<And>k. k \<in> set (si_idxs si ! s) \<Longrightarrow> k < sz \<and> replaceable (view (kv_v_cells kv ! (si_strm si ! s)) ! k)"
      using over s by (auto simp: slot_over_def)
    have so: "wf_cells (kv_v_cells kv ! (si_strm si ! s))" "length (c_pos (kv_v_cells kv ! (si_strm si ! s))) = sz"
      using kv_okD(1)[OF ok st(1)] by (auto simp: stream_ok_def cells_size_def)
    have em': "k < length (c_pos (kv_v_cells kv ! (si_strm si ! s))) \<and> replaceable (cell_at (kv_v_cells kv ! (si_strm si ! s)) k)"
      if "k \<in> set (si_idxs si ! s)" for k using conjunct1[OF em[OF that]] conjunct2[OF em[OF that]] so(2) by simp
    have r: "fold rm_upd (map ((!) (view (kv_v_cells kv ! (si_strm si ! s)))) (si_idxs si ! s)) rm = fold rm_upd (slot_cells kv si (Suc s)) rm0"
      by (simp add: rm slot_cells_def)
    from place_row_any[OF so(1) st(3) em', of u "s * n" rm, unfolded st(2) r, OF _ tk] show ?thesis by blast
  qed
  have st: "distinct (si_strm si)" "\<forall>st \<in> set (si_strm si). st < length (kv_v_cells kv)"
    using over kv_okD(4)[OF ok] by (auto simp: slot_over_def in_set_conv_nth)
  have i0: "?I 0 rm0" by (simp add: slot_cells_def)
  from stream_rows[where I = ?I and Q = ?Q and row = "\<lambda>s. for_loop (\<lambda>ii. place_token u (s * n + ii) (si_idxs si ! s ! ii)) [0..<n]",
      OF st i0 row] obtain cs rm' where
    cs: "for_loop (\<lambda>s (kv, rm). do {
         let st = si_strm si ! s;
         (cells, rm) \<leftarrow> for_loop (\<lambda>ii. place_token u (s * n + ii) (si_idxs si ! s ! ii)) [0..<n] (kv_v_cells kv ! st, rm);
         Some (kv\<lparr>kv_v_cells := (kv_v_cells kv)[st := cells]\<rparr>, rm)
       }) [0..<length (si_strm si)] (kv, rm0) = Some (kv\<lparr>kv_v_cells := cs\<rparr>, rm')" "length cs = length (kv_v_cells kv)"
      "\<forall>s < length (si_strm si). ?Q s (cs ! (si_strm si ! s))" "\<forall>st. st \<notin> set (si_strm si) \<longrightarrow> cs ! st = kv_v_cells kv ! st"
      "?I (length (si_strm si)) rm'" by blast
  note fc = kv_freed_cells[OF ok over]
  have "rows_placed (kv_freed kv si) si u n (length (si_strm si)) (kv\<lparr>kv_v_cells := cs\<rparr>)"
    unfolding rows_placed_def
  proof (intro exI[of _ cs] conjI allI impI)
    fix s assume "s < length (si_strm si)"
    then show "let st = si_strm si ! s in if s < length (si_strm si) then wf_cells (cs ! st) \<and> c_has_shift (cs ! st) = c_has_shift (kv_v_cells (kv_freed kv si) ! st) \<and>
        view (cs ! st) = place_row u (s * n) (si_idxs si ! s) (view (kv_v_cells (kv_freed kv si) ! st)) else cs ! st = kv_v_cells (kv_freed kv si) ! st"
      using cs(3) fc(2)[of s] by (simp add: Let_def)
  next
    fix st assume st: "st \<notin> set (si_strm si)"
    then show "cs ! st = kv_v_cells (kv_freed kv si) ! st" using cs(4) fc(1) by simp
  qed (use cs(2) fc(3) in simp_all)
  with cs(1)[unfolded cs(5)] show ?thesis by blast
qed

section \<open>Purging\<close>

text \<open>
  A cell that lost sequences, or its content altogether, against a cell as it was before; and a
  cache whose cells are all of this kind.
\<close>

definition cell_le :: "kv_cell \<Rightarrow> kv_cell \<Rightarrow> bool" where
  "cell_le v w \<longleftrightarrow> v_pos v = -1 \<or> (v_pos v = v_pos w \<and> v_seq v \<subseteq> v_seq w \<and> v_shift v = v_shift w)"

abbreviation cell_of :: "llama_kv_cache \<Rightarrow> nat \<Rightarrow> nat \<Rightarrow> kv_cell" where
  "cell_of kv st j \<equiv> view (kv_v_cells kv ! st) ! j"

definition kv_le :: "llama_kv_cache \<Rightarrow> llama_kv_cache \<Rightarrow> bool" where
  "kv_le kv' kv \<longleftrightarrow> (\<forall>st < kv_n_stream kv. cells_size (kv_v_cells kv' ! st) = cells_size (kv_v_cells kv ! st) \<and>
     (\<forall>j < cells_size (kv_v_cells kv ! st). cell_le (cell_of kv' st j) (cell_of kv st j)))"

lemma cell_le_refl [simp]: "cell_le v v"
  by (simp add: cell_le_def)

lemma cell_le_trans: "cell_le a b \<Longrightarrow> cell_le b c \<Longrightarrow> cell_le a c"
  by (auto simp: cell_le_def)

lemma kv_le_refl [simp]: "kv_le kv kv"
  by (simp add: kv_le_def)

lemma kv_le_trans: "kv_le a b \<Longrightarrow> kv_le b c \<Longrightarrow> kv_n_stream b = kv_n_stream c \<Longrightarrow> kv_le a c"
  unfolding kv_le_def
proof (intro allI impI conjI)
  fix st j assume "\<forall>st < kv_n_stream b. cells_size (kv_v_cells a ! st) = cells_size (kv_v_cells b ! st) \<and>
      (\<forall>j < cells_size (kv_v_cells b ! st). cell_le (cell_of a st j) (cell_of b st j))"
    "\<forall>st < kv_n_stream c. cells_size (kv_v_cells b ! st) = cells_size (kv_v_cells c ! st) \<and>
      (\<forall>j < cells_size (kv_v_cells c ! st). cell_le (cell_of b st j) (cell_of c st j))"
    "kv_n_stream b = kv_n_stream c" and st: "st < kv_n_stream c"
  note a = this(1)[rule_format, of st] this(2)[rule_format, of st] this(3)
  show "cells_size (kv_v_cells a ! st) = cells_size (kv_v_cells c ! st)" using a st by simp
  assume "j < cells_size (kv_v_cells c ! st)"
  then show "cell_le (cell_of a st j) (cell_of c st j)" using a st cell_le_trans by simp blast
qed

text \<open>
  What the purge makes of a cell: after the sequences below \<open>m\<close> have been visited, the cell has lost the
  sequences for which a position at or above its own was dropped.
\<close>

definition purge_one :: "llama_seq_id \<Rightarrow> llama_pos \<Rightarrow> kv_cell \<Rightarrow> kv_cell" where
  "purge_one s r v = (if s \<in> v_seq v \<and> v_pos v \<le> r then cell_seq_rm s v else v)"

definition with_seqs :: "kv_cell \<Rightarrow> llama_seq_id set \<Rightarrow> kv_cell" where
  "with_seqs v S = (if S = v_seq v then v else if S = {} then empty_cell else v\<lparr>v_seq := S\<rparr>)"

definition purge_cell :: "nat \<Rightarrow> llama_pos list \<Rightarrow> kv_cell \<Rightarrow> kv_cell" where
  "purge_cell m rm v = with_seqs v {t \<in> v_seq v. nat t < m \<longrightarrow> rm ! nat t < v_pos v}"

lemma with_seqs_simps [simp]: "v_seq (with_seqs v S) = S" "S \<noteq> {} \<Longrightarrow> v_pos (with_seqs v S) = v_pos v" "with_seqs v (v_seq v) = v"
  by (simp_all add: with_seqs_def)

lemma with_seqs_rm: "S \<subseteq> v_seq v \<Longrightarrow> s \<in> S \<Longrightarrow> cell_seq_rm s (with_seqs v S) = with_seqs v (S - {s})"
  by (cases "S = v_seq v"; cases "S = {s}") (auto simp: with_seqs_def)

lemma purge_cell_0 [simp]: "purge_cell 0 rm v = v"
  by (simp add: purge_cell_def)

lemma purge_cell_Suc:
  assumes "cell_ok v"
  shows "purge_one (int m) (rm ! m) (purge_cell m rm v) = purge_cell (Suc m) rm v"
proof -
  let ?S = "{t \<in> v_seq v. nat t < m \<longrightarrow> rm ! nat t < v_pos v}"
  have mem: "t \<in> {t \<in> v_seq v. nat t < Suc m \<longrightarrow> rm ! nat t < v_pos v} \<longleftrightarrow> t \<in> (if v_pos v \<le> rm ! m then ?S - {int m} else ?S)" for t
  proof (cases "t \<in> v_seq v")
    case True
    then obtain k where "t = int k" using assms by (auto simp: cell_ok_def seq_id_ok_def dest!: zero_le_imp_eq_int)
    then show ?thesis using True by (auto simp: less_Suc_eq)
  qed simp
  have S: "{t \<in> v_seq v. nat t < Suc m \<longrightarrow> rm ! nat t < v_pos v} = (if v_pos v \<le> rm ! m then ?S - {int m} else ?S)"
    by (rule set_eqI) (rule mem)
  have sub: "?S \<subseteq> v_seq v" by blast
  show ?thesis
  proof (cases "int m \<in> ?S")
    case True
    then have "?S \<noteq> {}" by blast
    then show ?thesis using with_seqs_rm[OF sub True] True unfolding purge_one_def purge_cell_def S with_seqs_simps(1) by simp
  next
    case False
    then show ?thesis unfolding purge_one_def purge_cell_def S with_seqs_simps(1) by simp
  qed
qed

lemma purge_cell_le: "cell_le (purge_cell m rm v) v"
  by (auto simp: cell_le_def purge_cell_def with_seqs_def)

lemma kv_ok_cell:
  assumes "kv_ok sz kv" "st < kv_n_stream kv" "j < sz"
  shows "cell_ok (cell_of kv st j)" "placed kv st (cell_of kv st j)" "cell_of kv st j = cell_at (kv_v_cells kv ! st) j" "j < length (c_pos (kv_v_cells kv ! st))"
proof -
  have so: "wf_cells (kv_v_cells kv ! st)" "length (c_pos (kv_v_cells kv ! st)) = sz" "\<forall>v \<in> set (view (kv_v_cells kv ! st)). placed kv st v"
    using kv_okD(1)[OF assms(1,2)] by (auto simp: stream_ok_def cells_size_def)
  show "j < length (c_pos (kv_v_cells kv ! st))" "cell_of kv st j = cell_at (kv_v_cells kv ! st) j" using so(2) assms(3) by simp_all
  then show "cell_ok (cell_of kv st j)" using wf_cell_ok[OF so(1)] by simp
  have "cell_of kv st j \<in> set (view (kv_v_cells kv ! st))" using so(2) assms(3) by (intro nth_mem) simp
  then show "placed kv st (cell_of kv st j)" using so(3) by blast
qed

lemma kv_ok_size: "kv_ok sz kv \<Longrightarrow> st < kv_n_stream kv \<Longrightarrow> cells_size (kv_v_cells kv ! st) = sz"
  using kv_okD(1) by (auto simp: stream_ok_def)

lemma purge_step_ok:
  assumes ok: "kv_ok sz kv" and rm: "-1 \<le> rm ! s" "rm ! s \<noteq> -1 \<Longrightarrow> kv_seq_ok kv (int s)"
  shows "\<exists>kv'. purge_step rm s kv = Some kv' \<and> kv_ok sz kv' \<and> same_shape kv kv' \<and>
    (\<forall>st < kv_n_stream kv. \<forall>j < sz. cell_of kv' st j = purge_one (int s) (rm ! s) (cell_of kv st j)) \<and>
    (\<forall>t. kv_seq_ok kv t \<longrightarrow> kv_positions kv' t = (if t = int s then {p \<in> kv_positions kv t. rm ! s < p} else kv_positions kv t))"
proof (cases "rm ! s = -1")
  case True
  have "{p \<in> kv_positions kv t. -1 < p} = kv_positions kv t" if "kv_seq_ok kv t" for t
    using kv_positions_nonneg[OF ok that] by force
  moreover have "purge_one (int s) (-1) (cell_of kv st j) = cell_of kv st j" if "st < kv_n_stream kv" "j < sz" for st j
    using kv_ok_cell(1)[OF ok that] by (auto simp: purge_one_def cell_ok_def)
  ultimately show ?thesis using True ok by (intro exI[of _ kv]) (simp add: purge_step_def)
next
  case False
  note sid = rm(2)[OF False]
  have r: "0 \<le> rm ! s" using rm(1) False by simp
  let ?P = "kv_positions kv (int s)" and ?st = "kv_stream kv (int s)"
  define m where "m = (if ?P = {} then -1 else Min ?P)"
  have pmin: "cells_seq_pos_min (int s) (kv_v_cells kv ! ?st) = Some m"
    using cells_seq_pos_min_ok[OF kv_ok_stream(1)[OF ok sid] kv_okD(3)[OF ok sid]] by (simp add: kv_positions_def m_def)
  have s2s: "s < length (kv_seq_to_stream kv)" "kv_seq_to_stream kv ! s = ?st" using sid by (auto simp: kv_seq_ok_def kv_stream_def)
  have fin: "finite ?P" by (simp add: kv_positions_def)
  have low: "m \<le> p" if "p \<in> ?P" for p using that fin by (auto simp: m_def)
  have pos: "v_pos (cell_of kv st j) \<in> ?P" "st = ?st" if "st < kv_n_stream kv" "j < sz" "int s \<in> v_seq (cell_of kv st j)" for st j
  proof -
    show st: "st = ?st" using kv_ok_cell(2)[OF ok that(1,2)] that(3) by (auto simp: placed_def)
    have "cell_of kv st j \<in> set (view (kv_v_cells kv ! st))" using kv_ok_cell(4)[OF ok that(1,2)] by (intro nth_mem) simp
    with that(3) show "v_pos (cell_of kv st j) \<in> ?P" unfolding st kv_positions_def seq_positions_def by blast
  qed
  show ?thesis
  proof (cases "m \<le> rm ! s")
    case le: False
    have "{p \<in> ?P. rm ! s < p} = ?P" using low le by fastforce
    moreover have "purge_one (int s) (rm ! s) (cell_of kv st j) = cell_of kv st j" if "st < kv_n_stream kv" "j < sz" for st j
      using pos(1)[OF that] low le by (force simp: purge_one_def simp del: nth_view)
    ultimately show ?thesis using False le pmin s2s ok by (intro exI[of _ kv]) (auto simp: purge_step_def)
  next
    case le: True
    from kv_seq_rm_mapped[OF ok sid, of m "rm ! s + 1"] obtain kv' where
      k: "kv_seq_rm (int s) m (rm ! s + 1) kv = Some (kv', True)"
        "stream_mapped sz (rm_cell (int s) (clamp_p0 m) (clamp_p1 (rm ! s + 1))) ?st kv kv'" by blast
    note d = stream_mappedD[OF k(2) ok kv_okD(2)[OF ok sid]]
    have c1: "clamp_p1 (rm ! s + 1) = rm ! s + 1" using r by (simp add: clamp_p1_def)
    have "clamp_p0 m \<le> p" if "p \<in> ?P" for p
      using low[OF that] kv_positions_nonneg[OF ok sid that] by (simp add: clamp_p0_def)
    note cp = this
    then have eq: "?P - {clamp_p0 m..<rm ! s + 1} = {p \<in> ?P. rm ! s < p}" by force
    have "kv_positions kv' t = (if t = int s then ?P - {clamp_p0 m..<rm ! s + 1} else kv_positions kv t)" for t
      by (auto simp: d(2) rm_positions c1) (auto simp: kv_positions_def)
    then have "kv_positions kv' t = (if t = int s then {p \<in> kv_positions kv t. rm ! s < p} else kv_positions kv t)" for t
      unfolding eq by simp
    moreover have "cell_of kv' st j = purge_one (int s) (rm ! s) (cell_of kv st j)" if st: "st < kv_n_stream kv" "j < sz" for st j
    proof -
      let ?v = "cell_of kv st j"
      have "rm_cell (int s) (clamp_p0 m) (rm ! s + 1) ?v = purge_one (int s) (rm ! s) ?v"
        using cp[OF pos(1)[OF st]] by (auto simp: rm_cell_def purge_one_def simp del: nth_view cell_seq_rm.simps)
      moreover have "purge_one (int s) (rm ! s) ?v = ?v" if "st \<noteq> ?st" using pos(2)[OF st] that by (auto simp: purge_one_def simp del: nth_view)
      ultimately show ?thesis using kv_ok_cell(4)[OF ok st] unfolding d(7) c1 by (auto simp del: nth_view)
    qed
    moreover have "same_shape kv kv'" using k(2) by (auto simp: stream_mapped_def kv_put_def)
    ultimately show ?thesis using False le pmin s2s k(1) d(1)[OF placed_cells(1)] by (auto simp: purge_step_def)
  qed
qed

lemma purge_ok:
  assumes ok: "kv_ok sz kv" and rm: "\<forall>s < LLAMA_MAX_SEQ. -1 \<le> rm ! s \<and> (rm ! s \<noteq> -1 \<longrightarrow> kv_seq_ok kv (int s))"
  shows "\<exists>kv'. for_loop (purge_step rm) [0..<LLAMA_MAX_SEQ] kv = Some kv' \<and> kv_ok sz kv' \<and> same_shape kv kv' \<and>
    (\<forall>st < kv_n_stream kv. \<forall>j < sz. cell_of kv' st j = purge_cell LLAMA_MAX_SEQ rm (cell_of kv st j)) \<and>
    (\<forall>t. kv_seq_ok kv t \<longrightarrow> kv_positions kv' t = {p \<in> kv_positions kv t. rm ! nat t < p})"
proof -
  let ?I = "\<lambda>m k. kv_ok sz k \<and> same_shape kv k \<and> (\<forall>st < kv_n_stream kv. \<forall>j < sz. cell_of k st j = purge_cell m rm (cell_of kv st j)) \<and>
    (\<forall>t. kv_seq_ok kv t \<longrightarrow> kv_positions k t = (if nat t < m then {p \<in> kv_positions kv t. rm ! nat t < p} else kv_positions kv t))"
  have "\<exists>k. for_loop (purge_step rm) [0..<LLAMA_MAX_SEQ] kv = Some k \<and> ?I LLAMA_MAX_SEQ k"
  proof (rule for_upt_rule[where I = ?I])
    fix s k assume s: "s < LLAMA_MAX_SEQ" and I: "?I s k"
    note f = same_shape_frame[of kv k]
    from purge_step_ok[of sz k rm s] I rm s f(4) obtain k' where
      k: "purge_step rm s k = Some k'" "kv_ok sz k'" "same_shape k k'"
        "\<forall>st < kv_n_stream k. \<forall>j < sz. cell_of k' st j = purge_one (int s) (rm ! s) (cell_of k st j)"
        "\<forall>t. kv_seq_ok kv t \<longrightarrow> kv_positions k' t = (if t = int s then {p \<in> kv_positions k t. rm ! s < p} else kv_positions k t)" by auto
    have "kv_positions k' t = (if nat t < Suc s then {p \<in> kv_positions kv t. rm ! nat t < p} else kv_positions kv t)" if t: "kv_seq_ok kv t" for t
    proof -
      have "0 \<le> t" using t by (simp add: kv_seq_ok_def)
      then show ?thesis using k(5) t I by (cases "t = int s") (auto simp: less_Suc_eq)
    qed
    moreover have "cell_of k' st j = purge_cell (Suc s) rm (cell_of kv st j)" if st: "st < kv_n_stream kv" "j < sz" for st j
      using k(4) st I f(3) purge_cell_Suc[OF kv_ok_cell(1)[OF ok st], of s rm] by auto
    ultimately show "\<exists>k'. purge_step rm s k = Some k' \<and> ?I (Suc s) k'"
      using k(1-3) I by (intro exI[of _ k']) (auto intro: same_shape_trans simp del: nth_view)
  qed (use ok in simp)
  then obtain k where k: "for_loop (purge_step rm) [0..<LLAMA_MAX_SEQ] kv = Some k" "?I LLAMA_MAX_SEQ k" by blast
  have "nat t < LLAMA_MAX_SEQ" if "kv_seq_ok kv t" for t using kv_okD(3)[OF ok that] seq_id_ok_nat by blast
  with k show ?thesis by auto
qed

section \<open>apply\_ubatch\<close>

lemma slot_cellsD:
  assumes ok: "kv_ok sz kv" and over: "slot_over sz kv si u n" and v: "v \<in> set (slot_cells kv si (length (si_strm si)))"
  shows "\<exists>s < length (si_strm si). \<exists>j \<in> set (si_idxs si ! s). v = view (kv_v_cells kv ! (si_strm si ! s)) ! j"
    "replaceable v" "t \<in> v_seq v \<Longrightarrow> kv_seq_ok kv t"
proof -
  from v obtain s j where s: "s < length (si_strm si)" "j \<in> set (si_idxs si ! s)" "v = view (kv_v_cells kv ! (si_strm si ! s)) ! j"
    by (auto simp: slot_cells_def)
  then show "\<exists>s < length (si_strm si). \<exists>j \<in> set (si_idxs si ! s). v = view (kv_v_cells kv ! (si_strm si ! s)) ! j" by blast
  have st: "si_strm si ! s < kv_n_stream kv" "j < sz" "replaceable v" using over s by (auto simp: slot_over_def)
  then show "replaceable v" by simp
  have "v \<in> set (view (kv_v_cells kv ! (si_strm si ! s)))"
    unfolding s(3) using kv_okD(1)[OF ok st(1)] st(2) by (intro nth_mem) (simp add: stream_ok_def cells_size_def)
  then show "t \<in> v_seq v \<Longrightarrow> kv_seq_ok kv t" using kv_okD(1)[OF ok st(1)] by (auto simp: stream_ok_def placed_def)
qed

text \<open>Dropping the cells of the slot loses only positions up to the greatest one dropped.\<close>

lemma freed_positions:
  assumes ok: "kv_ok sz kv" and over: "slot_over sz kv si u n" and t: "kv_seq_ok kv t"
    and r: "\<forall>v \<in> set (slot_cells kv si (length (si_strm si))). v_pos v \<noteq> -1 \<and> v_seq v = {t} \<longrightarrow> v_pos v \<le> r"
  shows "kv_positions (kv_freed kv si) t \<subseteq> kv_positions kv t" "p \<in> kv_positions kv t \<Longrightarrow> r < p \<Longrightarrow> p \<in> kv_positions (kv_freed kv si) t"
proof -
  let ?st = "kv_stream kv t"
  note fc = kv_freed_cells[OF ok over]
  have sub: "seq_positions (freed idxs V) t \<subseteq> seq_positions V t" for idxs V
    by (auto simp: seq_positions_def dest!: freed_cells)
  show "kv_positions (kv_freed kv si) t \<subseteq> kv_positions kv t"
  proof (cases "?st \<in> set (si_strm si)")
    case True
    then obtain s where "s < length (si_strm si)" "si_strm si ! s = ?st" by (auto simp: in_set_conv_nth)
    then show ?thesis using fc(2)[of s] sub by (simp add: kv_positions_def)
  qed (simp add: kv_positions_def fc(1))
  assume p: "p \<in> kv_positions kv t" "r < p"
  let ?V = "view (kv_v_cells kv ! ?st)"
  from p(1) obtain j where j: "j < length ?V" "t \<in> v_seq (?V ! j)" "v_pos (?V ! j) = p"
    by (auto simp: kv_positions_def seq_positions_def in_set_conv_nth simp del: length_view nth_view)
  show "p \<in> kv_positions (kv_freed kv si) t"
  proof (cases "?st \<in> set (si_strm si)")
    case True
    then obtain s where s: "s < length (si_strm si)" "si_strm si ! s = ?st" by (auto simp: in_set_conv_nth)
    have "\<not> (j \<in> set (si_idxs si ! s) \<and> p \<noteq> -1)"
    proof
      assume a: "j \<in> set (si_idxs si ! s) \<and> p \<noteq> -1"
      then have c: "?V ! j \<in> set (slot_cells kv si (length (si_strm si)))" using s by (force simp: slot_cells_def simp del: nth_view)
      then have "v_seq (?V ! j) = {t}" using slot_cellsD(2)[OF ok over c] j(2,3) a by (auto simp: replaceable_def simp del: nth_view)
      with r c a j(3) p(2) show False by auto
    qed
    then have "freed (si_idxs si ! s) ?V ! j = ?V ! j" unfolding freed_nth[OF j(1)] using j(3) by (auto simp del: length_view nth_view)
    then have "?V ! j \<in> set (freed (si_idxs si ! s) ?V)" using j(1) by (metis length_freed nth_mem)
    then show ?thesis using fc(2)[OF s(1)] s(2) j(2,3) by (auto simp: kv_positions_def seq_positions_def simp del: nth_view)
  next
    case False
    then show ?thesis using p(1) by (simp add: kv_positions_def fc(1))
  qed
qed

definition in_slot :: "slot_info \<Rightarrow> nat \<Rightarrow> nat \<Rightarrow> bool" where
  "in_slot si st j \<longleftrightarrow> (\<exists>s < length (si_strm si). si_strm si ! s = st \<and> j \<in> set (si_idxs si ! s))"

lemma rows_placed_cells:
  assumes ok: "kv_ok sz kv" and fit: "slot_fits sz kv si u n" and rp: "rows_placed kv si u n (length (si_strm si)) (kv\<lparr>kv_v_cells := cs\<rparr>)"
  shows "st < kv_n_stream kv \<Longrightarrow> j < sz \<Longrightarrow> \<not> in_slot si st j \<Longrightarrow> view (cs ! st) ! j = cell_of kv st j"
    "s < length (si_strm si) \<Longrightarrow> ii < n \<Longrightarrow>
       view (cs ! (si_strm si ! s)) ! (si_idxs si ! s ! ii) = token_cell u (s * n + ii) (cell_of kv (si_strm si ! s) (si_idxs si ! s ! ii))"
proof -
  have row: "view (cs ! (si_strm si ! s)) = place_row u (s * n) (si_idxs si ! s) (view (kv_v_cells kv ! (si_strm si ! s)))"
    "length (si_idxs si ! s) = n" "distinct (si_idxs si ! s)" "\<And>k. k \<in> set (si_idxs si ! s) \<Longrightarrow> k < length (view (kv_v_cells kv ! (si_strm si ! s)))"
    "length (view (kv_v_cells kv ! (si_strm si ! s))) = sz"
    if s: "s < length (si_strm si)" for s
  proof -
    have st: "si_strm si ! s < kv_n_stream kv" "\<forall>k \<in> set (si_idxs si ! s). k < sz" using fit s by (auto simp: slot_fits_def)
    show "length (view (kv_v_cells kv ! (si_strm si ! s))) = sz" using kv_okD(1)[OF ok st(1)] by (simp add: stream_ok_def cells_size_def)
    with st(2) show "\<And>k. k \<in> set (si_idxs si ! s) \<Longrightarrow> k < length (view (kv_v_cells kv ! (si_strm si ! s)))" by simp
  qed (use rows_placedD(2)[OF rp s] fit s in \<open>auto simp: slot_fits_def\<close>)
  show "view (cs ! (si_strm si ! s)) ! (si_idxs si ! s ! ii) = token_cell u (s * n + ii) (cell_of kv (si_strm si ! s) (si_idxs si ! s ! ii))"
    if "s < length (si_strm si)" "ii < n"
    using place_row_nth(2)[OF row(3,4)[OF that(1)], of ii] row(1,2)[OF that(1)] that(2) by simp
  assume j: "st < kv_n_stream kv" "j < sz" "\<not> in_slot si st j"
  show "view (cs ! st) ! j = cell_of kv st j"
  proof (cases "st \<in> set (si_strm si)")
    case True
    then obtain s where s: "s < length (si_strm si)" "si_strm si ! s = st" by (auto simp: in_set_conv_nth)
    then have "j \<notin> set (si_idxs si ! s)" using j(3) by (auto simp: in_slot_def)
    then show ?thesis using place_row_nth(3)[OF row(3,4)[OF s(1)], of j] row(1,5)[OF s(1)] s(2) j(2) by simp
  qed (simp add: rows_placedD(3)[OF rp])
qed

text \<open>
  The result of \<^verbatim>\<open>apply_ubatch\<close> cell by cell: the cells of the slot get their tokens, and then every cell is
  purged with the array \<^verbatim>\<open>seq_pos_max_rm\<close> that the old contents of the slot determine.
\<close>

definition slot_rm :: "llama_kv_cache \<Rightarrow> slot_info \<Rightarrow> llama_pos list" where
  "slot_rm kv si = fold rm_upd (slot_cells kv si (length (si_strm si))) (replicate LLAMA_MAX_SEQ (-1))"

definition reused :: "kv_cell \<Rightarrow> kv_cell" where
  "reused v = (if v_pos v = -1 then v else empty_cell)"

definition applied_cells :: "nat \<Rightarrow> nat \<Rightarrow> slot_info \<Rightarrow> llama_ubatch \<Rightarrow> llama_kv_cache \<Rightarrow> llama_kv_cache \<Rightarrow> bool" where
  "applied_cells sz n si u kv kv' \<longleftrightarrow>
    (\<forall>st < kv_n_stream kv. \<forall>j < sz. \<not> in_slot si st j \<longrightarrow> cell_of kv' st j = purge_cell LLAMA_MAX_SEQ (slot_rm kv si) (cell_of kv st j)) \<and>
    (\<forall>s < length (si_strm si). \<forall>ii < n. cell_of kv' (si_strm si ! s) (si_idxs si ! s ! ii) =
       purge_cell LLAMA_MAX_SEQ (slot_rm kv si) (token_cell u (s * n + ii) (reused (cell_of kv (si_strm si ! s) (si_idxs si ! s ! ii)))))"

lemma freed_slot:
  assumes ok: "kv_ok sz kv" and over: "slot_over sz kv si u n" and j: "st < kv_n_stream kv" "j < sz"
  shows "\<not> in_slot si st j \<Longrightarrow> cell_of (kv_freed kv si) st j = cell_of kv st j"
    "in_slot si st j \<Longrightarrow> cell_of (kv_freed kv si) st j = reused (cell_of kv st j)"
proof -
  have jl: "j < length (view (kv_v_cells kv ! st))" using kv_ok_cell(4)[OF ok j] by simp
  have row: "cell_of (kv_freed kv si) st j = (if j \<in> set (si_idxs si ! s) then reused (cell_of kv st j) else cell_of kv st j)"
    if s: "s < length (si_strm si)" "si_strm si ! s = st" for s
  proof -
    have "view (kv_v_cells (kv_freed kv si) ! st) = freed (si_idxs si ! s) (view (kv_v_cells kv ! st))"
      using kv_freed_cells(2)[OF ok over s(1)] s(2) by simp
    then show ?thesis using jl by (simp only: freed_nth) (simp add: reused_def)
  qed
  show "cell_of (kv_freed kv si) st j = cell_of kv st j" if n: "\<not> in_slot si st j"
  proof (cases "st \<in> set (si_strm si)")
    case True
    then obtain s where s: "s < length (si_strm si)" "si_strm si ! s = st" by (auto simp: in_set_conv_nth)
    then have "j \<notin> set (si_idxs si ! s)" using n by (auto simp: in_slot_def)
    then show ?thesis using row[OF s] by simp
  qed (simp add: kv_freed_cells(1)[OF ok over])
  show "cell_of (kv_freed kv si) st j = reused (cell_of kv st j)" if "in_slot si st j"
    using that row by (auto simp: in_slot_def simp del: nth_view)
qed

lemma apply_ubatch_over:
  assumes ok: "kv_ok sz kv" and over: "slot_over sz kv si u n"
  shows "\<exists>kv'. apply_ubatch si u kv = Some kv' \<and> kv_ok sz kv' \<and> same_shape kv kv' \<and> applied_cells sz n si u kv kv' \<and>
    (\<forall>t. kv_seq_ok kv t \<longrightarrow> (\<exists>r \<ge> -1. kv_positions kv' t = {p \<in> kv_positions kv t \<union> ubatch_positions u t. r < p} \<and>
       (r \<noteq> -1 \<longrightarrow> (\<exists>v \<in> set (slot_cells kv si (length (si_strm si))). v_pos v = r \<and> v_seq v = {t}))))"
proof -
  let ?k = "length (si_strm si)" and ?init = "replicate LLAMA_MAX_SEQ (-1 :: int)"
  let ?vs = "slot_cells kv si ?k"
  let ?rm = "fold rm_upd ?vs ?init"
  note ff = kv_freed_fits[OF ok over] and sc = slot_cellsD[OF ok over]
  from over_rows[OF ok over, of ?init] obtain cs where
    cs: "for_loop (\<lambda>s (kv, rm). do {
         let st = si_strm si ! s;
         (cells, rm) \<leftarrow> for_loop (\<lambda>ii. place_token u (s * n + ii) (si_idxs si ! s ! ii)) [0..<n] (kv_v_cells kv ! st, rm);
         Some (kv\<lparr>kv_v_cells := (kv_v_cells kv)[st := cells]\<rparr>, rm)
       }) [0..<?k] (kv, ?init) = Some (kv\<lparr>kv_v_cells := cs\<rparr>, ?rm)" "rows_placed (kv_freed kv si) si u n ?k (kv\<lparr>kv_v_cells := cs\<rparr>)" by blast
  have rp: "rows_placed (kv_freed kv si) si u n ?k ((kv_freed kv si)\<lparr>kv_v_cells := cs\<rparr>)" using cs(2) by simp
  let ?kv1 = "kv\<lparr>kv_v_cells := cs\<rparr>"
  have hs: "length (kv_v_heads kv) = kv_n_stream (kv_freed kv si)" "\<forall>h \<in> set (kv_v_heads kv). h \<le> sz"
    using ok by (auto simp: kv_ok_def stream_ok_def in_set_conv_nth)
  note rpo = rows_placed_ok[OF ff rp hs]
  have kv1: "(kv_freed kv si)\<lparr>kv_v_cells := cs, kv_v_heads := kv_v_heads kv\<rparr> = ?kv1" by simp
  have k1: "kv_ok sz ?kv1" using rpo(1) unfolding kv1 .
  have k1p: "kv_positions ?kv1 t = kv_positions (kv_freed kv si) t \<union> ubatch_positions u t" if "kv_seq_ok kv t" for t
    using rpo(2)[of t] that unfolding kv1 by simp
  have fr1: "same_shape kv ?kv1" using same_shapeI[of kv "kv_v_heads kv" cs] by simp
  have nonneg: "\<forall>v \<in> set ?vs. replaceable v \<and> (\<forall>s \<in> v_seq v. 0 \<le> s)" using sc(2,3) by (auto simp: kv_seq_ok_def)
  note ra = rm_after[OF nonneg, of _ ?init]
  have rm: "\<forall>s < LLAMA_MAX_SEQ. -1 \<le> ?rm ! s \<and> (?rm ! s \<noteq> -1 \<longrightarrow> kv_seq_ok ?kv1 (int s))"
  proof (intro allI impI conjI)
    fix s assume s: "s < LLAMA_MAX_SEQ"
    show "-1 \<le> ?rm ! s" using ra(2)[of s] s by simp
    assume "?rm ! s \<noteq> -1"
    with ra(4)[of s] s obtain v where "v \<in> set ?vs" "v_seq v = {int s}" by auto
    with sc(3)[of v "int s"] show "kv_seq_ok ?kv1 (int s)" by (simp add: kv_seq_ok_def)
  qed
  from purge_ok[OF k1 rm] obtain kv2 where
    k2: "for_loop (purge_step ?rm) [0..<LLAMA_MAX_SEQ] ?kv1 = Some kv2" "kv_ok sz kv2" "same_shape ?kv1 kv2"
      "\<forall>st < kv_n_stream kv. \<forall>j < sz. cell_of kv2 st j = purge_cell LLAMA_MAX_SEQ ?rm (view (cs ! st) ! j)"
      "\<forall>t. kv_seq_ok ?kv1 t \<longrightarrow> kv_positions kv2 t = {p \<in> kv_positions ?kv1 t. ?rm ! nat t < p}" by auto
  let ?kv' = "kv2\<lparr>kv_v_heads := heads_moved si (kv_v_heads kv2)\<rparr>"
  have run: "apply_ubatch si u kv = Some ?kv'"
    using cs(1) slot_fits_total[OF ff(2)] k2(1) by (simp add: apply_ubatch_def slot_n_stream_def fold_heads heads_moved_def Let_def)
  have "si_idxs si ! s \<noteq> [] \<and> (\<forall>k \<in> set (si_idxs si ! s). k < sz)" if "s < ?k" for s
    using over that by (auto simp: slot_over_def)
  note hm = slot_heads_ok[OF k2(2) this]
  have fr: "placed ?kv' = placed kv2" "kv_stream ?kv' = kv_stream kv2" "kv_seq_ok ?kv' = kv_seq_ok kv2" "kv_positions ?kv' = kv_positions kv2"
    by (simp_all add: placed_def kv_seq_ok_def kv_stream_def kv_positions_def fun_eq_iff)
  have ok': "kv_ok sz ?kv'" using k2(2) hm by (simp add: kv_ok_def stream_ok_def fr)
  have sh: "same_shape kv ?kv'"
    using same_shape_trans[OF same_shape_trans[OF fr1 k2(3)] same_shapeI[of kv2 _ "kv_v_cells kv2"]] by simp
  note rc = rows_placed_cells[OF ff rp] and fs = freed_slot[OF ok over]
  have cells: "applied_cells sz n si u kv ?kv'"
    unfolding applied_cells_def slot_rm_def
  proof (intro conjI allI impI)
    fix st j assume j: "st < kv_n_stream kv" "j < sz" "\<not> in_slot si st j"
    show "cell_of ?kv' st j = purge_cell LLAMA_MAX_SEQ ?rm (cell_of kv st j)" using k2(4) j rc(1)[of st j] fs(1)[OF j(1,2)] by simp
  next
    fix s ii assume s: "s < ?k" "ii < n"
    let ?st = "si_strm si ! s" and ?j = "si_idxs si ! s ! ii"
    have st: "?st < kv_n_stream kv" "?j < sz" "in_slot si ?st ?j" using over s by (auto simp: slot_over_def in_slot_def)
    show "cell_of ?kv' ?st ?j = purge_cell LLAMA_MAX_SEQ ?rm (token_cell u (s * n + ii) (reused (cell_of kv ?st ?j)))"
      using k2(4) st rc(2)[OF s] fs(2)[OF st(1,2)] by simp
  qed
  have pos: "\<exists>r \<ge> -1. kv_positions ?kv' t = {p \<in> kv_positions kv t \<union> ubatch_positions u t. r < p} \<and>
       (r \<noteq> -1 \<longrightarrow> (\<exists>v \<in> set ?vs. v_pos v = r \<and> v_seq v = {t}))" if t: "kv_seq_ok kv t" for t
  proof (intro exI[of _ "?rm ! nat t"] conjI impI)
    have nt: "nat t < LLAMA_MAX_SEQ" "int (nat t) = t" using kv_okD(3)[OF ok t] seq_id_ok_nat by auto
    show "-1 \<le> ?rm ! nat t" using rm nt(1) by blast
    have "\<forall>v \<in> set ?vs. v_pos v \<noteq> -1 \<and> v_seq v = {t} \<longrightarrow> v_pos v \<le> ?rm ! nat t" using ra(3)[of "nat t"] nt by simp
    note fp = freed_positions[OF ok over t this]
    have "kv_positions ?kv' t = {p \<in> kv_positions ?kv1 t. ?rm ! nat t < p}" using k2(5) t fr by (simp add: kv_seq_ok_def)
    also have "\<dots> = {p \<in> kv_positions kv t \<union> ubatch_positions u t. ?rm ! nat t < p}" using fp unfolding k1p[OF t] by blast
    finally show "kv_positions ?kv' t = {p \<in> kv_positions kv t \<union> ubatch_positions u t. ?rm ! nat t < p}" .
    assume "?rm ! nat t \<noteq> -1"
    with ra(4)[of "nat t"] nt show "\<exists>v \<in> set ?vs. v_pos v = ?rm ! nat t \<and> v_seq v = {t}" by auto
  qed
  show ?thesis using run ok' sh cells pos by blast
qed

section \<open>find\_slot and apply\_ubatch\<close>

lemma masked_older:
  assumes "is_masked_swa n_swa swa_type p0 q = Some True" "0 \<le> p" "p \<le> p0" "p0 \<le> q"
  shows "is_masked_swa n_swa swa_type p q = Some True"
  using assms by (cases swa_type) (auto simp: is_masked_swa_def Let_def split: if_splits)

lemma usable_used:
  assumes wf: "wf_cells c" and i: "i < length (c_pos c)" and u: "usable kv c i" and p: "c_pos c ! i \<noteq> -1"
  shows "\<exists>t. c_seq c ! i = {t} \<and> is_masked_swa (kv_n_swa kv) (kv_swa_type kv) (c_pos c ! i) (Max (seq_positions (view c) t) + 1) = Some True"
proof -
  have "card (c_seq c ! i) = 1"
    using u p i by (auto simp: usable_def can_use_def step_simps wf split: if_splits)
  then obtain t where t: "c_seq c ! i = {t}" by (meson card_1_singletonE)
  have "seq_id_ok t" using wf_cell_ok[OF wf i] t by (auto simp: cell_ok_def)
  note mx = cells_seq_pos_max_ok[OF wf this]
  have "c_pos c ! i \<in> seq_positions (view c) t" using t i by (auto simp: seq_positions_def view_def intro!: exI[of _ "cell_at c i"])
  then have "seq_positions (view c) t \<noteq> {}" by blast
  then have "is_masked_swa (kv_n_swa kv) (kv_swa_type kv) (c_pos c ! i) (Max (seq_positions (view c) t) + 1) = Some True"
    using u p i t mx cells_seq_get_ok[OF wf i t] by (simp add: usable_def can_use_def step_simps wf)
  with t show ?thesis by blast
qed

lemma find_slot_over:
  assumes ok: "kv_ok sz kv" and cfg: "swa_config_ok kv" and u: "ubatch_placeable kv u"
    and room: "\<forall>s < ubatch_n_seqs kv u. ubatch_n_tokens kv u \<le> n_usable kv (ubatch_stream kv u s)"
  shows "\<exists>si. find_slot u False kv = Some si \<and> slot_over sz kv si u (ubatch_n_tokens kv u) \<and>
    (\<forall>s < length (si_strm si). si_strm si ! s < kv_n_stream kv \<and> (\<forall>k \<in> set (si_idxs si ! s). k < sz \<and> usable kv (kv_v_cells kv ! (si_strm si ! s)) k))"
proof -
  let ?n = "ubatch_n_tokens kv u" and ?k = "ubatch_n_seqs kv u"
  have fits: "ubatch_fits kv u" using u by (simp add: ubatch_placeable_def)
  have st: "ubatch_stream kv u s < kv_n_stream kv" "stream_ok sz kv (ubatch_stream kv u s)" if "s < ?k" for s
    using that fits kv_okD(1,2)[OF ok] by (auto simp: ubatch_fits_def ubatch_stream_def)
  from find_slot_eq[OF ok cfg fits] room obtain si where si: "find_slot u False kv = Some si"
    "si_strm si = map (ubatch_stream kv u) [0..<?k]" "si_idxs si = map (\<lambda>s. slot_choice kv (ubatch_stream kv u s) ?n) [0..<?k]" by auto
  have us: "\<forall>s < ?k. \<forall>k \<in> set (si_idxs si ! s). k < sz \<and> usable kv (kv_v_cells kv ! ubatch_stream kv u s) k"
    using slot_choice_props(3)[OF st(2)] room by (auto simp: si(3))
  have rep: "replaceable (view (kv_v_cells kv ! ubatch_stream kv u s) ! k)" if s: "s < ?k" and k: "k \<in> set (si_idxs si ! s)" for s k
  proof -
    have c: "wf_cells (kv_v_cells kv ! ubatch_stream kv u s)" "k < length (c_pos (kv_v_cells kv ! ubatch_stream kv u s))"
      "usable kv (kv_v_cells kv ! ubatch_stream kv u s) k"
      using st(2)[OF s] us s k by (auto simp: stream_ok_def cells_size_def)
    from usable_used[OF c] c(2) show ?thesis by (auto simp: replaceable_def)
  qed
  have ix: "length (si_idxs si ! s) = ?n" "distinct (si_idxs si ! s)" if "s < ?k" for s
    using slot_choice_props(1,2)[OF st(2)] room that by (auto simp: si(3))
  have tot: "u_n_tokens u = ?k * ?n" "?k \<ge> 1" "0 < ?n" using fits by (auto simp: ubatch_fits_def ubatch_n_tokens_def)
  have len: "length (si_strm si) = ?k" "length (si_idxs si) = ?k" "\<And>s. s < ?k \<Longrightarrow> si_strm si ! s = ubatch_stream kv u s" by (auto simp: si(2,3))
  have "slot_over sz kv si u ?n"
    unfolding slot_over_def len(1,2) using u st(1) ix us rep tot len by (auto simp: si(2) ubatch_placeable_def Let_def)
  moreover have "\<forall>s < length (si_strm si). si_strm si ! s < kv_n_stream kv \<and> (\<forall>k \<in> set (si_idxs si ! s). k < sz \<and> usable kv (kv_v_cells kv ! (si_strm si ! s)) k)"
    using us st(1) len by simp
  ultimately show ?thesis using si(1) by blast
qed

lemma dropped_masked:
  assumes ok: "kv_ok sz kv" and t: "kv_seq_ok kv t"
    and s: "st < kv_n_stream kv" "k < sz" "usable kv (kv_v_cells kv ! st) k"
    and v: "v = view (kv_v_cells kv ! st) ! k" "v_pos v \<noteq> -1" "v_seq v = {t}"
  shows "v_pos v \<in> kv_positions kv t"
    "\<forall>p \<in> kv_positions kv t. p \<le> v_pos v \<longrightarrow> (\<forall>q > Max (kv_positions kv t). is_masked_swa (kv_n_swa kv) (kv_swa_type kv) p q = Some True)"
proof -
  let ?c = "kv_v_cells kv ! st"
  have so: "wf_cells ?c" "length (c_pos ?c) = sz" "\<forall>v \<in> set (view ?c). placed kv st v" using kv_okD(1)[OF ok s(1)] by (auto simp: stream_ok_def cells_size_def)
  have vat: "v = cell_at ?c k" and vin: "v \<in> set (view ?c)" using v(1) s(2) so(2) by (auto intro!: nth_mem simp del: nth_view) simp
  then have st: "kv_stream kv t = st" using so(3) v(3) by (auto simp: placed_def)
  then have P: "kv_positions kv t = seq_positions (view ?c) t" by (simp add: kv_positions_def)
  show mem: "v_pos v \<in> kv_positions kv t" unfolding P using vin v(3) by (auto simp: seq_positions_def)
  have fin: "finite (kv_positions kv t)" by (simp add: P)
  have m: "is_masked_swa (kv_n_swa kv) (kv_swa_type kv) (v_pos v) (Max (kv_positions kv t) + 1) = Some True"
    using usable_used[OF so(1) _ s(3)] s(2) so(2) v(2,3) vat unfolding P by auto
  show "\<forall>p \<in> kv_positions kv t. p \<le> v_pos v \<longrightarrow> (\<forall>q > Max (kv_positions kv t). is_masked_swa (kv_n_swa kv) (kv_swa_type kv) p q = Some True)"
  proof (intro ballI impI allI)
    fix p q assume p: "p \<in> kv_positions kv t" "p \<le> v_pos v" and q: "Max (kv_positions kv t) < q"
    have le: "v_pos v \<le> Max (kv_positions kv t)" using mem fin by simp
    have "is_masked_swa (kv_n_swa kv) (kv_swa_type kv) p (Max (kv_positions kv t) + 1) = Some True"
      using masked_older[OF m kv_positions_nonneg[OF ok t p(1)] p(2)] le by simp
    then show "is_masked_swa (kv_n_swa kv) (kv_swa_type kv) p q = Some True" using masked_mono[of _ _ p] p(2) le q by fastforce
  qed
qed

text \<open>
  C25.  Placing a ubatch in a cache with a sliding window, when every stream has enough usable cells:
  \<^verbatim>\<open>find_slot\<close> finds a slot and \<^verbatim>\<open>apply_ubatch\<close> succeeds and keeps the invariant.  Every sequence gains the
  positions of its tokens and loses exactly those up to some bound, so a sequence that is contiguous
  with its new tokens stays contiguous; and what is lost is masked by the window for every position
  after the last one the sequence had, so no later token can miss it.
\<close>

theorem place_ubatch_swa:
  assumes "kv_ok sz kv" "swa_config_ok kv" "ubatch_placeable kv u"
    and "\<forall>s < ubatch_n_seqs kv u. ubatch_n_tokens kv u \<le> n_usable kv (ubatch_stream kv u s)"
  shows "\<exists>si kv'. find_slot u False kv = Some si \<and> apply_ubatch si u kv = Some kv' \<and> kv_ok sz kv' \<and> kv_data kv' = kv_data kv \<and>
    (\<forall>t. kv_seq_ok kv t \<longrightarrow> (\<exists>r \<ge> -1. (r \<noteq> -1 \<longrightarrow> r \<in> kv_positions kv t) \<and>
       kv_positions kv' t = {p \<in> kv_positions kv t \<union> ubatch_positions u t. r < p} \<and>
       (\<forall>p \<in> kv_positions kv t. p \<le> r \<longrightarrow> (\<forall>q > Max (kv_positions kv t). is_masked_swa (kv_n_swa kv) (kv_swa_type kv) p q = Some True))))"
proof -
  from find_slot_over[OF assms] obtain si where si: "find_slot u False kv = Some si" "slot_over sz kv si u (ubatch_n_tokens kv u)"
    "\<forall>s < length (si_strm si). si_strm si ! s < kv_n_stream kv \<and> (\<forall>k \<in> set (si_idxs si ! s). k < sz \<and> usable kv (kv_v_cells kv ! (si_strm si ! s)) k)" by blast
  from apply_ubatch_over[OF assms(1) si(2)] obtain kv' where
    kv': "apply_ubatch si u kv = Some kv'" "kv_ok sz kv'" "same_shape kv kv'"
      "\<forall>t. kv_seq_ok kv t \<longrightarrow> (\<exists>r \<ge> -1. kv_positions kv' t = {p \<in> kv_positions kv t \<union> ubatch_positions u t. r < p} \<and>
       (r \<noteq> -1 \<longrightarrow> (\<exists>v \<in> set (slot_cells kv si (length (si_strm si))). v_pos v = r \<and> v_seq v = {t})))" by blast
  have "\<exists>r \<ge> -1. (r \<noteq> -1 \<longrightarrow> r \<in> kv_positions kv t) \<and> kv_positions kv' t = {p \<in> kv_positions kv t \<union> ubatch_positions u t. r < p} \<and>
       (\<forall>p \<in> kv_positions kv t. p \<le> r \<longrightarrow> (\<forall>q > Max (kv_positions kv t). is_masked_swa (kv_n_swa kv) (kv_swa_type kv) p q = Some True))"
    if t: "kv_seq_ok kv t" for t
  proof -
    from kv'(4) t obtain r where r: "-1 \<le> r" "kv_positions kv' t = {p \<in> kv_positions kv t \<union> ubatch_positions u t. r < p}"
      "r \<noteq> -1 \<longrightarrow> (\<exists>v \<in> set (slot_cells kv si (length (si_strm si))). v_pos v = r \<and> v_seq v = {t})" by blast
    show ?thesis
    proof (cases "r = -1")
      case True
      have "\<not> p \<le> r" if "p \<in> kv_positions kv t" for p using kv_positions_nonneg[OF assms(1) t that] True by simp
      with r True show ?thesis by blast
    next
      case False
      then obtain v where v: "v \<in> set (slot_cells kv si (length (si_strm si)))" "v_pos v = r" "v_seq v = {t}" using r(3) by blast
      from slot_cellsD(1)[OF assms(1) si(2) v(1)] obtain s k where
        sk: "s < length (si_strm si)" "k \<in> set (si_idxs si ! s)" "v = view (kv_v_cells kv ! (si_strm si ! s)) ! k" by blast
      have x: "si_strm si ! s < kv_n_stream kv" "k < sz" "usable kv (kv_v_cells kv ! (si_strm si ! s)) k" using si(3) sk(1,2) by auto
      from dropped_masked[OF assms(1) t x sk(3)] v False r show ?thesis by blast
    qed
  qed
  with si(1) kv'(1,2) same_shape_frame(9)[OF kv'(3)] show ?thesis by blast
qed

section \<open>A concrete window\<close>

text \<open>A full cache of three cells with a window of two: sequence 0 at the positions 0, 1 and 2.\<close>

definition swa_ops :: "cells_op list" where
  "swa_ops = [Op_pos_set 0 0, Op_seq_add 0 0, Op_pos_set 1 1, Op_seq_add 1 0, Op_pos_set 2 2, Op_seq_add 2 0]"

definition demo_swa_kv :: llama_kv_cache where
  "demo_swa_kv = kv_put 0 (the (cells_run swa_ops (cells_resize 3 cells_new))) 1
     (the (kv_new demo_hparams True False True 3 1 1 2 LLAMA_SWA_TYPE_STANDARD []))"

lemma demo_swa_facts:
  "kv_ok 3 demo_swa_kv" "kv_seq_to_stream demo_swa_kv = replicate 256 0" "kv_n_stream demo_swa_kv = 1"
  "kv_swa_type demo_swa_kv = LLAMA_SWA_TYPE_STANDARD" "kv_n_swa demo_swa_kv = 2"
  "view (kv_v_cells demo_swa_kv ! 0) = map (\<lambda>p. empty_cell\<lparr>v_pos := p, v_seq := {0}\<rparr>) [0, 1, 2]"
proof -
  from kv_new_demo[of 1 1 demo_hparams True False True 3 2 LLAMA_SWA_TYPE_STANDARD "[]"] obtain kv where
    kv: "kv_new demo_hparams True False True 3 1 1 2 LLAMA_SWA_TYPE_STANDARD [] = Some kv" "kv_ok 3 kv" "kv_n_stream kv = 1"
      "kv_seq_to_stream kv = replicate LLAMA_MAX_SEQ 0" by (auto simp: LLAMA_MAX_SEQ_def)
  have "cells_pre_run swa_ops (view (cells_resize 3 cells_new))"
    by (simp add: cells_resize_new(2) swa_ops_def numeral_eq_Suc seq_id_ok_def LLAMA_MAX_SEQ_def)
  from cells_run_ok[OF cells_resize_new(1) this] obtain c where
    c: "cells_run swa_ops (cells_resize 3 cells_new) = Some c" "wf_cells c" "view c = fold cells_spec swa_ops (replicate 3 empty_cell)"
    by (auto simp: cells_resize_new(2))
  have d: "demo_swa_kv = kv_put 0 c 1 kv" unfolding demo_swa_kv_def c(1) kv(1) by simp
  have v: "view c = map (\<lambda>p. empty_cell\<lparr>v_pos := p, v_seq := {0}\<rparr>) [0, 1, 2]" by (simp add: c(3) swa_ops_def numeral_eq_Suc)
  have sz: "cells_size c = 3" using arg_cong[OF v, of length] by (simp add: cells_size_def)
  show "kv_ok 3 demo_swa_kv"
    unfolding d by (rule kv_put_ok[OF kv(2) _ c(2) sz]) (auto simp: v kv placed_def kv_seq_ok_def kv_stream_def LLAMA_MAX_SEQ_def)
  have l: "length (kv_v_cells kv) = 1" using kv(2,3) by (simp add: kv_ok_def)
  show "kv_seq_to_stream demo_swa_kv = replicate 256 0" "kv_n_stream demo_swa_kv = 1" by (simp_all add: d kv(3,4) LLAMA_MAX_SEQ_def)
  show "view (kv_v_cells demo_swa_kv ! 0) = map (\<lambda>p. empty_cell\<lparr>v_pos := p, v_seq := {0}\<rparr>) [0, 1, 2]" using l v by (simp add: d)
  show "kv_swa_type demo_swa_kv = LLAMA_SWA_TYPE_STANDARD" "kv_n_swa demo_swa_kv = 2" using kv(1) by (auto simp: d kv_new_def Let_def)
qed

lemma demo_swa_seq: "kv_seq_ok demo_swa_kv 0" "kv_stream demo_swa_kv 0 = 0" "kv_positions demo_swa_kv 0 = {0, 1, 2}"
  by (simp_all add: kv_seq_ok_def kv_stream_def kv_positions_def seq_positions_UN cell_positions_def demo_swa_facts insert_commute)

lemma demo_swa_usable: "0 < n_usable demo_swa_kv 0"
proof -
  let ?c = "kv_v_cells demo_swa_kv ! 0"
  have c: "wf_cells ?c" "length (c_pos ?c) = 3" using kv_okD(1)[OF demo_swa_facts(1), of 0] by (auto simp: demo_swa_facts(3) stream_ok_def cells_size_def)
  have "view ?c ! 0 = empty_cell\<lparr>v_pos := 0, v_seq := {0}\<rparr>" by (simp add: demo_swa_facts(6) del: nth_view)
  from arg_cong[OF this, of v_pos] arg_cong[OF this, of v_seq] have at: "c_pos ?c ! 0 = 0" "c_seq ?c ! 0 = {0}" using c(2) by simp_all
  have s: "seq_id_ok 0" by (simp add: seq_id_ok_def LLAMA_MAX_SEQ_def)
  have "cells_seq_pos_max 0 ?c = Some 2"
    using cells_seq_pos_max_ok[OF c(1) s] demo_swa_seq by (simp add: kv_positions_def)
  then have "usable demo_swa_kv ?c 0"
    using at c cells_seq_get_ok[OF c(1) _ at(2)] by (simp add: usable_def can_use_def step_simps is_masked_swa_def demo_swa_facts(4,5))
  then have "0 \<in> {i. i < cells_size ?c \<and> usable demo_swa_kv ?c i}" using c(2) by (simp add: cells_size_def)
  then show ?thesis unfolding n_usable_def by (intro card_gt_0_iff[THEN iffD2]) (auto intro: finite_subset[of _ "{0..<cells_size ?c}"])
qed

lemma demo_swa_placeable: "ubatch_placeable demo_swa_kv (one_token 0 3)" "ubatch_n_seqs demo_swa_kv (one_token 0 3) = 1"
  "ubatch_n_tokens demo_swa_kv (one_token 0 3) = 1" "ubatch_stream demo_swa_kv (one_token 0 3) 0 = 0"
  using demo_swa_seq(1,2)
  by (simp_all add: ubatch_placeable_def ubatch_fits_def ubatch_n_seqs_def ubatch_n_tokens_def ubatch_stream_def demo_swa_facts(3) one_token_def
      token_ok_def token_ids_def seq_id_ok_def LLAMA_MAX_SEQ_def)

theorem place_ubatch_swa_witness:
  "\<exists>si kv'. find_slot (one_token 0 3) False demo_swa_kv = Some si \<and> apply_ubatch si (one_token 0 3) demo_swa_kv = Some kv' \<and>
    {2, 3} \<subseteq> kv_positions kv' 0 \<and> kv_positions kv' 0 \<subseteq> {0..3}"
proof -
  have cfg: "swa_config_ok demo_swa_kv" by (simp add: swa_config_ok_def demo_swa_facts(4))
  have room: "\<forall>s < ubatch_n_seqs demo_swa_kv (one_token 0 3). ubatch_n_tokens demo_swa_kv (one_token 0 3) \<le> n_usable demo_swa_kv (ubatch_stream demo_swa_kv (one_token 0 3) s)"
    using demo_swa_usable by (simp add: demo_swa_placeable)
  have up: "ubatch_positions (one_token 0 3) 0 = {3}" by (auto simp: ubatch_positions_def token_ids_def one_token_def)
  from place_ubatch_swa[OF demo_swa_facts(1) cfg demo_swa_placeable(1) room] obtain si kv' where
    k: "find_slot (one_token 0 3) False demo_swa_kv = Some si" "apply_ubatch si (one_token 0 3) demo_swa_kv = Some kv'"
      "\<forall>t. kv_seq_ok demo_swa_kv t \<longrightarrow> (\<exists>r \<ge> -1. (r \<noteq> -1 \<longrightarrow> r \<in> kv_positions demo_swa_kv t) \<and>
       kv_positions kv' t = {p \<in> kv_positions demo_swa_kv t \<union> ubatch_positions (one_token 0 3) t. r < p} \<and>
       (\<forall>p \<in> kv_positions demo_swa_kv t. p \<le> r \<longrightarrow> (\<forall>q > Max (kv_positions demo_swa_kv t). is_masked_swa (kv_n_swa demo_swa_kv) (kv_swa_type demo_swa_kv) p q = Some True)))"
    by blast
  from mp[OF spec[OF k(3)] demo_swa_seq(1)] obtain r where
    r: "kv_positions kv' 0 = {p \<in> {0, 1, 2} \<union> {3}. r < p}"
      "\<forall>p \<in> {0, 1, 2}. p \<le> r \<longrightarrow> (\<forall>q > Max {0, 1, 2}. is_masked_swa 2 LLAMA_SWA_TYPE_STANDARD p q = Some True)"
    unfolding demo_swa_seq(3) demo_swa_facts(4,5) up by blast
  have "\<not> 2 \<le> r"
  proof
    assume "2 \<le> r"
    then have "is_masked_swa 2 LLAMA_SWA_TYPE_STANDARD 2 3 = Some True" using r(2) by simp
    then show False by (simp add: is_masked_swa_def)
  qed
  then have "{2, 3} \<subseteq> kv_positions kv' 0 \<and> kv_positions kv' 0 \<subseteq> {0..3}" unfolding r(1) by auto
  with k(1,2) show ?thesis by blast
qed

text \<open>
  \<^verbatim>\<open>prepare\<close> is documented to restore the cells to their original state, but it saves only the cells of the
  slot: what \<^verbatim>\<open>apply_ubatch\<close> purged elsewhere is lost.  Here, with a window of three and ubatches of two
  tokens, the second ubatch of the dry run overwrites position 3 and purges position 2, which is then
  missing when the first ubatch is really placed, although its token at position 4 is to attend to it.
\<close>

definition two_tokens :: "llama_seq_id \<Rightarrow> llama_pos \<Rightarrow> llama_ubatch" where
  "two_tokens s p = \<lparr>u_equal_seqs = True, u_n_tokens = 2, u_n_seq_tokens = 2, u_n_seqs = 1, u_n_seqs_unq = 1, u_n_pos = 1,
     u_token = Some [7, 8], u_embd = None, u_pos = [p, p + 1], u_n_seq_id = [1, 1], u_seq_id = [[s], [s]], u_seq_id_unq = [s],
     u_seq_idx = [], u_output = [1, 1]\<rparr>"

lemma prepare_purges:
  "(case kv_new demo_hparams True False True 5 1 1 3 LLAMA_SWA_TYPE_STANDARD [] of None \<Rightarrow> None
    | Some kv \<Rightarrow> (case cells_run [Op_pos_set 0 3, Op_seq_add 0 0, Op_pos_set 1 2, Op_seq_add 1 0, Op_pos_set 4 1, Op_seq_add 4 0] (kv_v_cells kv ! 0) of None \<Rightarrow> None
    | Some c \<Rightarrow> (case prepare [two_tokens 0 4, two_tokens 0 6] (kv_put 0 c 2 kv) of None \<Rightarrow> None
    | Some (kv', sis) \<Rightarrow> Some (c_pos c, map si_idxs sis, c_pos (kv_v_cells kv' ! 0), is_masked_swa 3 LLAMA_SWA_TYPE_STANDARD 2 4)))) =
   Some ([3, 2, -1, -1, 1], [[[2, 3]], [[4, 0]]], [3, -1, -1, -1, 1], Some False)"
  by code_simp

end
