(* ===== verification/Kv_Window.thy ===== *)
theory Kv_Window
  imports Kv_Swa
begin

text \<open>
  \<^verbatim>\<open>prepare\<close> in a cache with a sliding window.  The dry run may purge cells outside the slots and these are
  not restored; what is shown is that it never aborts, that a cell is afterwards as it was or has lost
  sequences, and that the slots it returns can be applied and lead to the cells of the dry run.
\<close>

section \<open>Restoring after a purge\<close>

text \<open>No pending K-shift: \<^verbatim>\<open>cp\<close> and \<^verbatim>\<open>set\<close> of the cells assert this of the cells they copy.\<close>

definition no_shift :: "llama_kv_cache \<Rightarrow> bool" where
  "no_shift kv \<longleftrightarrow> (\<forall>st < kv_n_stream kv. \<forall>j < cells_size (kv_v_cells kv ! st). v_shift (cell_of kv st j) = 0)"

lemma kv_leI:
  assumes "kv_ok sz kv'" "kv_ok sz kv" "kv_n_stream kv' = kv_n_stream kv"
    and "\<And>st j. st < kv_n_stream kv \<Longrightarrow> j < sz \<Longrightarrow> cell_le (cell_of kv' st j) (cell_of kv st j)"
  shows "kv_le kv' kv"
  unfolding kv_le_def using assms kv_ok_size[OF assms(1)] kv_ok_size[OF assms(2)] by simp

lemma kv_leD: "kv_le kv' kv \<Longrightarrow> kv_ok sz kv \<Longrightarrow> st < kv_n_stream kv \<Longrightarrow> j < sz \<Longrightarrow> cell_le (cell_of kv' st j) (cell_of kv st j)"
  using kv_ok_size by (auto simp: kv_le_def)

lemma no_shiftD: "no_shift kv \<Longrightarrow> kv_ok sz kv \<Longrightarrow> st < kv_n_stream kv \<Longrightarrow> j < sz \<Longrightarrow> v_shift (cell_of kv st j) = 0"
  using kv_ok_size by (auto simp: no_shift_def)

lemma cell_le_shift: "cell_le v w \<Longrightarrow> cell_ok v \<Longrightarrow> v_shift w = 0 \<Longrightarrow> v_shift v = 0"
  by (auto simp: cell_le_def cell_ok_def)

lemma no_shift_le:
  assumes "kv_le kv' kv" "no_shift kv" "kv_ok sz kv" "kv_ok sz kv'" "kv_n_stream kv' = kv_n_stream kv"
  shows "no_shift kv'"
  unfolding no_shift_def
proof (intro allI impI)
  fix st j assume st: "st < kv_n_stream kv'" "j < cells_size (kv_v_cells kv' ! st)"
  then have j: "j < sz" "st < kv_n_stream kv" using kv_ok_size[OF assms(4)] assms(5) by auto
  show "v_shift (cell_of kv' st j) = 0"
    by (rule cell_le_shift[OF kv_leD[OF assms(1,3) j(2,1)] kv_ok_cell(1)[OF assms(4) st(1) j(1)] no_shiftD[OF assms(2,3) j(2,1)]])
qed

lemma window_snapshots:
  assumes ok: "kv_ok sz kv" and ns: "no_shift kv" and over: "slot_over sz kv si u n"
  shows "\<exists>snaps. for_loop (\<lambda>s acc. map_option (\<lambda>c. acc @ [c]) (cells_cp_idxs (si_idxs si ! s) (kv_v_cells kv ! (si_strm si ! s))))
      [0..<slot_n_stream si] [] = Some snaps \<and> length snaps = length (si_strm si) \<and>
    (\<forall>s < length (si_strm si). cells_cp_idxs (si_idxs si ! s) (kv_v_cells kv ! (si_strm si ! s)) = Some (snaps ! s))"
  unfolding slot_n_stream_def
proof (rule collect_loop)
  fix s assume s: "s < length (si_strm si)"
  have st: "si_strm si ! s < kv_n_stream kv" "\<And>k. k \<in> set (si_idxs si ! s) \<Longrightarrow> k < sz" using over s by (auto simp: slot_over_def)
  have "k < length (c_pos (kv_v_cells kv ! (si_strm si ! s))) \<and> c_shift (kv_v_cells kv ! (si_strm si ! s)) ! k = 0" if k: "k \<in> set (si_idxs si ! s)" for k
    using no_shiftD[OF ns ok st(1) st(2)[OF k]] kv_ok_cell(3,4)[OF ok st(1) st(2)[OF k]] by simp
  from cells_cp_idxs_ok[OF this] show "\<exists>c. cells_cp_idxs (si_idxs si ! s) (kv_v_cells kv ! (si_strm si ! s)) = Some c" by blast
qed

text \<open>The streams of a slot are fewer than the streams of the cache, so row numbers are in range of the heads.\<close>

lemma slot_rows_le:
  assumes "slot_over sz kv si u n"
  shows "length (si_strm si) \<le> kv_n_stream kv"
proof -
  have "card (set (si_strm si)) \<le> card {0..<kv_n_stream kv}"
    using assms by (intro card_mono) (auto simp: slot_over_def in_set_conv_nth)
  then show ?thesis using assms by (simp add: slot_over_def distinct_card)
qed

lemma restore_window:
  assumes ok: "kv_ok sz kv" and ns: "no_shift kv" and over: "slot_over sz kv si u n"
    and snaps: "\<forall>s < length (si_strm si). cells_cp_idxs (si_idxs si ! s) (kv_v_cells kv ! (si_strm si ! s)) = Some (snaps ! s)"
    and X: "kv_ok sz X" "same_shape kv X" "no_shift X"
  shows "\<exists>Y. restore_state \<lparr>ps_sinfo = si, ps_heads_old = kv_v_heads kv, ps_cells = snaps\<rparr> X = Some Y \<and> kv_ok sz Y \<and> same_shape kv Y \<and>
    (\<forall>st < kv_n_stream kv. \<forall>j < sz. cell_of Y st j = (if in_slot si st j then cell_of kv st j else cell_of X st j))"
proof -
  let ?k = "length (si_strm si)"
  let ?in = "\<lambda>m st j. \<exists>s < m. si_strm si ! s = st \<and> j \<in> set (si_idxs si ! s)"
  let ?f = "\<lambda>s kv'. do {
       let st = si_strm si ! s;
       cells \<leftarrow> cells_set_idxs (si_idxs si ! s) (snaps ! s) (kv_v_cells kv' ! st);
       Some (kv_put st cells (kv_v_heads kv ! s) kv')
     }"
  let ?I = "\<lambda>m Y. kv_ok sz Y \<and> same_shape kv Y \<and> (\<forall>st < kv_n_stream kv. \<forall>j < sz. cell_of Y st j = (if ?in m st j then cell_of kv st j else cell_of X st j))"
  have "\<exists>Y. for_loop ?f [0..<?k] X = Some Y \<and> ?I ?k Y"
  proof (rule for_upt_rule[where I = ?I])
    fix s Y assume s: "s < ?k" and I: "?I s Y"
    let ?st = "si_strm si ! s"
    have Y: "kv_ok sz Y" "same_shape kv Y" using I by auto
    note fr = same_shape_frame[OF Y(2)]
    have st: "?st < kv_n_stream kv" "distinct (si_idxs si ! s)" "\<And>k. k \<in> set (si_idxs si ! s) \<Longrightarrow> k < sz" using over s by (auto simp: slot_over_def)
    have stY: "?st < kv_n_stream Y" using st(1) fr(3) by simp
    have wf: "wf_cells (kv_v_cells kv ! ?st)" "length (c_pos (kv_v_cells kv ! ?st)) = sz" "wf_cells (kv_v_cells Y ! ?st)" "length (c_pos (kv_v_cells Y ! ?st)) = sz"
      using kv_okD(1)[OF ok st(1)] kv_okD(1)[OF Y(1) stY] by (auto simp: stream_ok_def cells_size_def)
    have rng: "k < length (c_pos (kv_v_cells kv ! ?st))" if "k \<in> set (si_idxs si ! s)" for k using st(3)[OF that] wf(2) by simp
    have sh: "c_shift (kv_v_cells kv ! ?st) ! k = 0 \<and> c_shift (kv_v_cells Y ! ?st) ! k = 0" if k: "k \<in> set (si_idxs si ! s)" for k
    proof -
      have "v_shift (cell_of kv ?st k) = 0" "v_shift (cell_of X ?st k) = 0"
        using no_shiftD[OF ns ok st(1) st(3)[OF k]] no_shiftD[OF X(3,1) _ st(3)[OF k]] st(1) same_shape_frame(3)[OF X(2)] by auto
      moreover have "cell_of Y ?st k = cell_of kv ?st k \<or> cell_of Y ?st k = cell_of X ?st k" using I st(1) st(3)[OF k] by meson
      ultimately have "v_shift (cell_of Y ?st k) = 0" by auto
      with \<open>v_shift (cell_of kv ?st k) = 0\<close> show ?thesis
        using kv_ok_cell(3)[OF ok st(1) st(3)[OF k]] kv_ok_cell(3)[OF Y(1) stY st(3)[OF k]] by simp
    qed
    from cells_set_idxs_ok[OF wf(1,3) _ st(2) rng sh] wf(2,4) snaps s obtain c where
      c: "cells_set_idxs (si_idxs si ! s) (snaps ! s) (kv_v_cells Y ! ?st) = Some c" "wf_cells c" "length (c_pos c) = sz"
        "\<forall>k < sz. cell_at c k = (if k \<in> set (si_idxs si ! s) then cell_at (kv_v_cells kv ! ?st) k else cell_at (kv_v_cells Y ! ?st) k)" by auto
    have vc: "view c ! j = (if j \<in> set (si_idxs si ! s) then cell_of kv ?st j else cell_of Y ?st j)" if "j < sz" for j
      using c(3,4) that kv_ok_cell(3)[OF ok st(1) that] kv_ok_cell(3)[OF Y(1) stY that] by simp
    have hd: "kv_v_heads kv ! s \<le> sz" using kv_okD(1)[OF ok, of s] s slot_rows_le[OF over] by (simp add: stream_ok_def)
    have pl: "placed Y = placed kv" using fr(4,5) by (simp add: placed_def fun_eq_iff)
    have okY: "kv_ok sz (kv_put ?st c (kv_v_heads kv ! s) Y)"
    proof (rule kv_put_ok[OF Y(1) stY c(2) _ hd])
      show "cells_size c = sz" using c(3) by (simp add: cells_size_def)
      fix v assume "v \<in> set (view c)"
      then obtain j where j: "j < sz" "v = view c ! j" using c(3) by (auto simp: in_set_conv_nth simp del: nth_view)
      then show "placed Y ?st v" using vc[OF j(1)] kv_ok_cell(2)[OF ok st(1) j(1)] kv_ok_cell(2)[OF Y(1) stY j(1)] pl by (simp split: if_splits)
    qed
    have "same_shape Y (kv_put ?st c (kv_v_heads kv ! s) Y)" by (auto simp: kv_put_def)
    note shp = same_shape_trans[OF Y(2) this]
    have cells: "cell_of (kv_put ?st c (kv_v_heads kv ! s) Y) r j = (if ?in (Suc s) r j then cell_of kv r j else cell_of X r j)"
      if r: "r < kv_n_stream kv" "j < sz" for r j
    proof (cases "r = ?st")
      case True
      then have "cell_of (kv_put ?st c (kv_v_heads kv ! s) Y) r j = view c ! j" using stY kv_okD(4)[OF Y(1)] by simp
      also have "\<dots> = (if ?in (Suc s) r j then cell_of kv r j else cell_of X r j)"
        using vc[OF r(2)] I r True by (auto simp: less_Suc_eq simp del: nth_view)
      finally show ?thesis .
    next
      case False
      then show ?thesis using I r by (auto simp: less_Suc_eq simp del: nth_view)
    qed
    have "?f s Y = Some (kv_put ?st c (kv_v_heads kv ! s) Y)" using c(1) by (simp add: Let_def)
    with okY shp cells show "\<exists>Y'. ?f s Y = Some Y' \<and> ?I (Suc s) Y'" by blast
  qed (use X in simp)
  then obtain Y where Y: "for_loop ?f [0..<?k] X = Some Y" "?I ?k Y" by blast
  then show ?thesis unfolding restore_state_def slot_n_stream_def in_slot_def by (intro exI[of _ Y]) simp
qed

section \<open>The dry run\<close>

lemma same_shape_left: "same_shape a b \<Longrightarrow> same_shape a c \<Longrightarrow> same_shape b c"
  by (auto simp: same_shape_def) blast

text \<open>
  A run of \<open>prepare_loop\<close> that found slots: the slots with the states they were found in, the state
  after the last one and the saved cells.  It may stop before all ubatches are placed.
\<close>

inductive dry_run :: "nat \<Rightarrow> llama_ubatch list \<Rightarrow> llama_kv_cache \<Rightarrow> (slot_info \<times> llama_kv_cache) list \<Rightarrow> llama_kv_cache \<Rightarrow> prep_state list \<Rightarrow> bool" for sz where
  dry_stop: "kv_ok sz kv \<Longrightarrow> no_shift kv \<Longrightarrow> dry_run sz us kv [] kv []"
| dry_step: "kv_ok sz kv \<Longrightarrow> no_shift kv \<Longrightarrow> slot_over sz kv si u n \<Longrightarrow>
    \<forall>s < length (si_strm si). cells_cp_idxs (si_idxs si ! s) (kv_v_cells kv ! (si_strm si ! s)) = Some (snaps ! s) \<Longrightarrow>
    apply_ubatch si u kv = Some kv2 \<Longrightarrow> same_shape kv kv2 \<Longrightarrow> applied_cells sz n si u kv kv2 \<Longrightarrow> dry_run sz us kv2 tr kvn sts \<Longrightarrow>
    dry_run sz (u # us) kv ((si, kv) # tr) kvn (\<lparr>ps_sinfo = si, ps_heads_old = kv_v_heads kv, ps_cells = snaps\<rparr> # sts)"

inductive_cases dry_run_ConsE: "dry_run sz us kv (p # tr) kvn sts"

lemma dry_run_ok: "dry_run sz us kv tr kvn sts \<Longrightarrow> kv_ok sz kv \<and> no_shift kv"
  by (cases rule: dry_run.cases) auto

text \<open>What restoring leaves in a cell: its content when it was first used, else its content at the end.\<close>

fun ahead :: "(slot_info \<times> llama_kv_cache) list \<Rightarrow> llama_kv_cache \<Rightarrow> nat \<Rightarrow> nat \<Rightarrow> kv_cell" where
  "ahead [] kvn st j = cell_of kvn st j"
| "ahead ((si, kv) # tr) kvn st j = (if in_slot si st j then cell_of kv st j else ahead tr kvn st j)"

lemma in_slotE:
  assumes "in_slot si st j" "slot_over sz kv si u n"
  obtains s ii where "s < length (si_strm si)" "ii < n" "si_strm si ! s = st" "si_idxs si ! s ! ii = j"
proof -
  from assms(1) obtain s where s: "s < length (si_strm si)" "si_strm si ! s = st" "j \<in> set (si_idxs si ! s)" by (auto simp: in_slot_def)
  moreover have "length (si_idxs si ! s) = n" using assms(2) s(1) by (auto simp: slot_over_def)
  ultimately show ?thesis using that by (auto simp: in_set_conv_nth)
qed

lemma purge_cell_shift: "v_shift v = 0 \<Longrightarrow> v_shift (purge_cell m rm v) = 0"
  by (simp add: purge_cell_def with_seqs_def)

lemma no_shift_applied:
  assumes ok: "kv_ok sz kv" and ns: "no_shift kv" and over: "slot_over sz kv si u n"
    and kv2: "kv_ok sz kv2" "same_shape kv kv2" and ap: "applied_cells sz n si u kv kv2"
  shows "no_shift kv2"
  unfolding no_shift_def
proof (intro allI impI)
  fix st j assume st: "st < kv_n_stream kv2" and "j < cells_size (kv_v_cells kv2 ! st)"
  then have j: "st < kv_n_stream kv" "j < sz" using kv_ok_size[OF kv2(1)] same_shape_frame(3)[OF kv2(2)] by auto
  note z = no_shiftD[OF ns ok j]
  show "v_shift (cell_of kv2 st j) = 0"
  proof (cases "in_slot si st j")
    case True
    from in_slotE[OF True over] obtain s ii where s: "s < length (si_strm si)" "ii < n" "si_strm si ! s = st" "si_idxs si ! s ! ii = j" .
    then have "cell_of kv2 st j = purge_cell LLAMA_MAX_SEQ (slot_rm kv si) (token_cell u (s * n + ii) (reused (cell_of kv st j)))"
      using ap unfolding applied_cells_def by blast
    moreover have "v_shift (token_cell u (s * n + ii) (reused (cell_of kv st j))) = 0" using z by (simp add: token_cell_def reused_def)
    ultimately show ?thesis by (simp add: purge_cell_shift del: nth_view)
  next
    case False
    then have "cell_of kv2 st j = purge_cell LLAMA_MAX_SEQ (slot_rm kv si) (cell_of kv st j)" using ap j unfolding applied_cells_def by blast
    with z show ?thesis by (simp add: purge_cell_shift del: nth_view)
  qed
qed

lemma dry_run_end: "dry_run sz us kv tr kvn sts \<Longrightarrow> same_shape kv kvn"
  by (induction rule: dry_run.induct) (auto intro: same_shape_trans)

lemma dry_run_restore:
  assumes "dry_run sz us kv tr kvn sts"
  shows "\<exists>Y. for_loop restore_state (rev sts) kvn = Some Y \<and> kv_ok sz Y \<and> no_shift Y \<and> same_shape kv Y \<and>
    (\<forall>st < kv_n_stream kv. \<forall>j < sz. cell_of Y st j = ahead tr kvn st j)"
  using assms
proof (induction rule: dry_run.induct)
  case (dry_step kv si u n snaps kv2 us tr kvn sts)
  note fr = same_shape_frame(3)[OF dry_step.hyps(6)]
  from dry_step.IH obtain Z where Z: "for_loop restore_state (rev sts) kvn = Some Z" "kv_ok sz Z" "no_shift Z" "same_shape kv2 Z"
    "\<forall>st < kv_n_stream kv. \<forall>j < sz. cell_of Z st j = ahead tr kvn st j" unfolding fr by blast
  note sh = same_shape_trans[OF dry_step.hyps(6) Z(4)]
  from restore_window[OF dry_step.hyps(1-4) Z(2) sh Z(3)] obtain Y where
    Y: "restore_state \<lparr>ps_sinfo = si, ps_heads_old = kv_v_heads kv, ps_cells = snaps\<rparr> Z = Some Y" "kv_ok sz Y" "same_shape kv Y"
      "\<forall>st < kv_n_stream kv. \<forall>j < sz. cell_of Y st j = (if in_slot si st j then cell_of kv st j else cell_of Z st j)" by blast
  have n: "kv_n_stream Y = kv_n_stream kv" "kv_n_stream Z = kv_n_stream kv" using same_shape_frame(3) Y(3) sh by auto
  have "v_shift (cell_of Y st j) = 0" if j: "st < kv_n_stream kv" "j < sz" for st j
    using Y(4) j no_shiftD[OF dry_step.hyps(2,1) j] no_shiftD[OF Z(3,2), of st j] n(2) by (simp del: nth_view)
  then have "no_shift Y" unfolding no_shift_def using kv_ok_size[OF Y(2)] n(1) by simp
  with Y Z(1,5) show ?case by (intro exI[of _ Y]) (simp add: for_loop_append del: nth_view)
qed simp

lemma ahead_le:
  assumes "dry_run sz us kv tr kvn sts" "st < kv_n_stream kv" "j < sz"
  shows "cell_le (ahead tr kvn st j) (cell_of kv st j)"
  using assms
proof (induction rule: dry_run.induct)
  case (dry_step kv si u n snaps kv2 us tr kvn sts)
  show ?case
  proof (cases "in_slot si st j")
    case False
    then have "cell_of kv2 st j = purge_cell LLAMA_MAX_SEQ (slot_rm kv si) (cell_of kv st j)"
      using dry_step.hyps(7) dry_step.prems unfolding applied_cells_def by blast
    then have "cell_le (cell_of kv2 st j) (cell_of kv st j)" using purge_cell_le by simp
    then show ?thesis using dry_step.IH dry_step.prems same_shape_frame(3)[OF dry_step.hyps(6)] False cell_le_trans[of _ "cell_of kv2 st j"] by (simp del: nth_view)
  qed simp
qed simp

lemma purge_stable:
  assumes "cell_le w (purge_cell m rm v)" "cell_ok w"
  shows "purge_cell m rm w = w"
proof (cases "v_pos w = -1")
  case True
  then show ?thesis using assms(2) by (simp add: purge_cell_def cell_ok_def with_seqs_def)
next
  case False
  let ?S = "{t \<in> v_seq v. nat t < m \<longrightarrow> rm ! nat t < v_pos v}"
  have w: "v_pos w = v_pos (purge_cell m rm v)" "v_seq w \<subseteq> ?S" using assms(1) False by (auto simp: cell_le_def purge_cell_def)
  have "v_pos w = v_pos v" if "v_seq w \<noteq> {}"
  proof -
    have "?S \<noteq> {}" using w(2) that by blast
    then show ?thesis unfolding w(1) purge_cell_def by (rule with_seqs_simps(2))
  qed
  then have "{t \<in> v_seq w. nat t < m \<longrightarrow> rm ! nat t < v_pos w} = v_seq w" using w(2) by fastforce
  then show ?thesis by (simp add: purge_cell_def)
qed

section \<open>Replaying the slots\<close>

lemma slot_over_cong:
  assumes "slot_over sz kv si u n" "same_shape kv X" "\<forall>st < kv_n_stream kv. \<forall>j < sz. in_slot si st j \<longrightarrow> cell_of X st j = cell_of kv st j"
  shows "slot_over sz X si u n" "slot_rm X si = slot_rm kv si"
proof -
  have eq: "cell_of X (si_strm si ! s) k = cell_of kv (si_strm si ! s) k" if "s < length (si_strm si)" "k \<in> set (si_idxs si ! s)" for s k
    using assms(1,3) that unfolding slot_over_def in_slot_def by blast
  show "slot_over sz X si u n"
    using assms(1) eq same_shape_frame(3-5)[OF assms(2)] unfolding slot_over_def by auto
  have "slot_cells X si (length (si_strm si)) = slot_cells kv si (length (si_strm si))"
    unfolding slot_cells_def using eq by (intro arg_cong[of _ _ concat] map_cong refl) auto
  then show "slot_rm X si = slot_rm kv si" by (simp add: slot_rm_def)
qed

lemma replay_step:
  assumes run: "dry_run sz (u # us) kv ((si, kv) # tr) kvn sts'" and over: "slot_over sz kv si u n" and ap: "applied_cells sz n si u kv kv2"
    and sh: "same_shape kv kv2" and rest: "dry_run sz us kv2 tr kvn sts"
    and X: "kv_ok sz X" "same_shape kv X"
      "\<forall>st < kv_n_stream kv. \<forall>j < sz. cell_of X st j = cell_of kv st j \<or> cell_of X st j = ahead ((si, kv) # tr) kvn st j"
  shows "\<exists>X2. apply_ubatch si u X = Some X2 \<and> kv_ok sz X2 \<and> same_shape kv2 X2 \<and>
    (\<forall>st < kv_n_stream kv. \<forall>j < sz. cell_of X2 st j = cell_of kv2 st j \<or> cell_of X2 st j = ahead tr kvn st j)"
proof -
  have "\<forall>st < kv_n_stream kv. \<forall>j < sz. in_slot si st j \<longrightarrow> cell_of X st j = cell_of kv st j" using X(3) by (metis ahead.simps(2))
  note eq = this and so = slot_over_cong[OF over X(2) this]
  note fr = same_shape_frame(3)[OF X(2)] same_shape_frame(3)[OF sh]
  from apply_ubatch_over[OF X(1) so(1)] obtain X2 where
    X2: "apply_ubatch si u X = Some X2" "kv_ok sz X2" "same_shape X X2" "applied_cells sz n si u X X2" by blast
  have "cell_of X2 st j = cell_of kv2 st j \<or> cell_of X2 st j = ahead tr kvn st j" if j: "st < kv_n_stream kv" "j < sz" for st j
  proof (cases "in_slot si st j")
    case True
    from in_slotE[OF True over] obtain s ii where s: "s < length (si_strm si)" "ii < n" "si_strm si ! s = st" "si_idxs si ! s ! ii = j" .
    have "cell_of X2 st j = purge_cell LLAMA_MAX_SEQ (slot_rm X si) (token_cell u (s * n + ii) (reused (cell_of X st j)))"
      "cell_of kv2 st j = purge_cell LLAMA_MAX_SEQ (slot_rm kv si) (token_cell u (s * n + ii) (reused (cell_of kv st j)))"
      using X2(4) ap s unfolding applied_cells_def by blast+
    then show ?thesis using eq True j so(2) by simp
  next
    case False
    have o: "cell_of X2 st j = purge_cell LLAMA_MAX_SEQ (slot_rm kv si) (cell_of X st j)"
      "cell_of kv2 st j = purge_cell LLAMA_MAX_SEQ (slot_rm kv si) (cell_of kv st j)"
      using X2(4) ap j False fr(1) so(2) unfolding applied_cells_def by auto
    consider "cell_of X st j = cell_of kv st j" | "cell_of X st j = ahead tr kvn st j" using X(3) j False unfolding ahead.simps by metis
    then show ?thesis
    proof cases
      case 2
      have "cell_le (ahead tr kvn st j) (cell_of kv2 st j)" using ahead_le[OF rest] j fr(2) by simp
      then have "cell_le (cell_of X st j) (purge_cell LLAMA_MAX_SEQ (slot_rm kv si) (cell_of kv st j))" by (simp only: 2 o(2))
      from purge_stable[OF this kv_ok_cell(1)[OF X(1)]] j fr(1) 2 o(1) show ?thesis by simp
    qed (use o in simp)
  qed
  with X2(1,2) same_shape_left[OF sh same_shape_trans[OF X(2) X2(3)]] show ?thesis by blast
qed

lemma dry_run_replay:
  assumes "dry_run sz us kv tr kvn sts" "kv_ok sz X" "same_shape kv X"
    "\<forall>st < kv_n_stream kv. \<forall>j < sz. cell_of X st j = cell_of kv st j \<or> cell_of X st j = ahead tr kvn st j"
  shows "\<exists>X'. replay (map fst tr) us X = Some X' \<and> kv_ok sz X' \<and> same_shape kv X' \<and>
    (\<forall>st < kv_n_stream kv. \<forall>j < sz. cell_of X' st j = cell_of kvn st j)"
  using assms
proof (induction arbitrary: X rule: dry_run.induct)
  case (dry_step kv si u n snaps kv2 us tr kvn sts)
  note run = dry_run.dry_step[OF dry_step.hyps]
  from replay_step[OF run dry_step.hyps(3,7,6,8) dry_step.prems] obtain X2 where
    X2: "apply_ubatch si u X = Some X2" "kv_ok sz X2" "same_shape kv2 X2"
      "\<forall>st < kv_n_stream kv. \<forall>j < sz. cell_of X2 st j = cell_of kv2 st j \<or> cell_of X2 st j = ahead tr kvn st j" by blast
  note fr = same_shape_frame(3)[OF dry_step.hyps(6)]
  from dry_step.IH[OF X2(2,3)] X2(4) fr obtain X' where
    "replay (map fst tr) us X2 = Some X'" "kv_ok sz X'" "same_shape kv2 X'" "\<forall>st < kv_n_stream kv. \<forall>j < sz. cell_of X' st j = cell_of kvn st j" by auto
  with X2(1) same_shape_trans[OF dry_step.hyps(6)] show ?case by (auto simp: replay_def)
qed (auto simp: replay_def)

lemma find_slot_window:
  assumes "kv_ok sz kv" "swa_config_ok kv" "ubatch_placeable kv u"
  shows "\<exists>si. find_slot u False kv = Some si \<and> (slot_is_empty si \<or> slot_over sz kv si u (ubatch_n_tokens kv u))"
proof (cases "\<forall>s < ubatch_n_seqs kv u. ubatch_n_tokens kv u \<le> n_usable kv (ubatch_stream kv u s)")
  case True
  from find_slot_over[OF assms True] show ?thesis by blast
next
  case False
  have "ubatch_fits kv u" using assms(3) by (simp add: ubatch_placeable_def)
  from find_slot_eq[OF assms(1,2) this] False show ?thesis by auto
qed

lemma prepare_loop_window:
  assumes "kv_ok sz kv" "swa_config_ok kv" "no_shift kv" "\<forall>u \<in> set us. ubatch_placeable kv u"
  shows "\<exists>kv1 tr new ok. prepare_loop us kv res states = Some (kv1, res @ map fst tr, states @ new, ok) \<and>
    dry_run sz us kv tr kv1 new \<and> (new = [] \<longleftrightarrow> tr = []) \<and> (ok \<longrightarrow> length tr = length us)"
  using assms
proof (induction us arbitrary: kv res states)
  case Nil
  then show ?case by (auto intro!: exI[of _ "[]"] dry_stop)
next
  case (Cons u us)
  have up: "ubatch_placeable kv u" using Cons.prems(4) by simp
  let ?n = "ubatch_n_tokens kv u"
  from find_slot_window[OF Cons.prems(1,2) up] obtain si where si: "find_slot u False kv = Some si" "slot_is_empty si \<or> slot_over sz kv si u ?n" by blast
  show ?case
  proof (cases "slot_is_empty si")
    case True
    then show ?thesis using si(1) dry_stop[OF Cons.prems(1,3)] by (intro exI[of _ kv] exI[of _ "[]"] exI[of _ False]) simp
  next
    case False
    then have over: "slot_over sz kv si u ?n" using si(2) by blast
    from window_snapshots[OF Cons.prems(1,3) over] obtain snaps where
      sn: "for_loop (\<lambda>s acc. map_option (\<lambda>c. acc @ [c]) (cells_cp_idxs (si_idxs si ! s) (kv_v_cells kv ! (si_strm si ! s))))
        [0..<slot_n_stream si] [] = Some snaps"
      "\<forall>s < length (si_strm si). cells_cp_idxs (si_idxs si ! s) (kv_v_cells kv ! (si_strm si ! s)) = Some (snaps ! s)" by blast
    from apply_ubatch_over[OF Cons.prems(1) over] obtain kv2 where
      ap: "apply_ubatch si u kv = Some kv2" "kv_ok sz kv2" "same_shape kv kv2" "applied_cells sz ?n si u kv kv2" by blast
    let ?ps = "\<lparr>ps_sinfo = si, ps_heads_old = kv_v_heads kv, ps_cells = snaps\<rparr>"
    have ns: "no_shift kv2" by (rule no_shift_applied[OF Cons.prems(1,3) over ap(2-4)])
    have cfg: "swa_config_ok kv2" using Cons.prems(2) ap(3) by (auto simp: same_shape_def swa_config_ok_def)
    have pl: "\<forall>v \<in> set us. ubatch_placeable kv2 v" using Cons.prems(4) same_shape_frame(1)[OF ap(3)] by simp
    from Cons.IH[OF ap(2) cfg ns pl, of "res @ [si]" "states @ [?ps]"] obtain kv1 tr new ok where
      r: "prepare_loop us kv2 (res @ [si]) (states @ [?ps]) = Some (kv1, (res @ [si]) @ map fst tr, (states @ [?ps]) @ new, ok)"
        "dry_run sz us kv2 tr kv1 new" "ok \<longrightarrow> length tr = length us" by (elim exE conjE) (rule that)
    have "prepare_loop (u # us) kv res states = Some (kv1, res @ map fst ((si, kv) # tr), states @ (?ps # new), ok)"
      using si(1) False sn(1) ap(1) r(1) by simp
    moreover have "dry_run sz (u # us) kv ((si, kv) # tr) kv1 (?ps # new)"
      by (rule dry_step[OF Cons.prems(1,3) over sn(2) ap(1,3,4) r(2)])
    ultimately show ?thesis using r(3) by (intro exI[of _ kv1] exI[of _ "(si, kv) # tr"] exI[of _ "?ps # new"] exI[of _ ok]) simp
  qed
qed

text \<open>The cells of two caches are the same, up to the flag that a shift is pending.\<close>

definition same_cells :: "llama_kv_cache \<Rightarrow> llama_kv_cache \<Rightarrow> bool" where
  "same_cells kv kv' \<longleftrightarrow> (\<forall>st < kv_n_stream kv. view (kv_v_cells kv' ! st) = view (kv_v_cells kv ! st))"

lemma same_cellsI:
  assumes "kv_ok sz kv" "kv_ok sz kv'" "kv_n_stream kv' = kv_n_stream kv" "\<forall>st < kv_n_stream kv. \<forall>j < sz. cell_of kv' st j = cell_of kv st j"
  shows "same_cells kv kv'"
  unfolding same_cells_def
proof (intro allI impI nth_equalityI)
  fix st assume st: "st < kv_n_stream kv"
  have l: "length (view (kv_v_cells kv ! st)) = sz" "length (view (kv_v_cells kv' ! st)) = sz"
    using kv_ok_size[OF assms(1) st] kv_ok_size[OF assms(2)] st assms(3) by (auto simp: cells_size_def)
  then show "length (view (kv_v_cells kv' ! st)) = length (view (kv_v_cells kv ! st))" by simp
  fix j assume "j < length (view (kv_v_cells kv' ! st))"
  then show "cell_of kv' st j = cell_of kv st j" unfolding l(2) using assms(4) st by blast
qed

lemma prepare_swa:
  assumes "kv_ok sz kv" "swa_config_ok kv" "no_shift kv" "\<forall>u \<in> set us. ubatch_placeable kv u" "us \<noteq> []"
  shows "\<exists>kv' sis. prepare us kv = Some (kv', sis) \<and> kv_ok sz kv' \<and> same_shape kv kv' \<and> no_shift kv' \<and> kv_le kv' kv \<and>
    (sis \<noteq> [] \<longrightarrow> length sis = length us \<and> (\<exists>X Y. replay sis us kv = Some X \<and> replay sis us kv' = Some Y \<and>
      kv_ok sz Y \<and> same_shape kv Y \<and> same_cells X Y))"
proof -
  from prepare_loop_window[OF assms(1-4), of "[]" "[]"] obtain kv1 tr new ok where
    r: "prepare_loop us kv [] [] = Some (kv1, map fst tr, new, ok)" "dry_run sz us kv tr kv1 new" "new = [] \<longleftrightarrow> tr = []"
      "ok \<longrightarrow> length tr = length us" by auto
  from dry_run_restore[OF r(2)] obtain Y where
    Y: "for_loop restore_state (rev new) kv1 = Some Y" "kv_ok sz Y" "no_shift Y" "same_shape kv Y"
      "\<forall>st < kv_n_stream kv. \<forall>j < sz. cell_of Y st j = ahead tr kv1 st j" by blast
  have "new \<noteq> [] \<or> \<not> ok" using r(3,4) assms(5) by auto
  then have run: "prepare us kv = Some (Y, if ok then map fst tr else [])" using r(1) Y(1) by (auto simp: prepare_def require_def)
  have le: "kv_le Y kv" using kv_leI[OF Y(2) assms(1) same_shape_frame(3)[OF Y(4)]] Y(5) ahead_le[OF r(2)] by simp
  from dry_run_replay[OF r(2) assms(1) same_shape_refl] obtain X1 where
    X1: "replay (map fst tr) us kv = Some X1" "kv_ok sz X1" "same_shape kv X1" "\<forall>st < kv_n_stream kv. \<forall>j < sz. cell_of X1 st j = cell_of kv1 st j" by blast
  from dry_run_replay[OF r(2) Y(2,4)] Y(5) obtain X2 where
    X2: "replay (map fst tr) us Y = Some X2" "kv_ok sz X2" "same_shape kv X2" "\<forall>st < kv_n_stream kv. \<forall>j < sz. cell_of X2 st j = cell_of kv1 st j" by blast
  have "same_cells X1 X2" using same_cellsI[OF X1(2) X2(2)] X1(4) X2(4) same_shape_frame(3) X1(3) X2(3) by simp
  with run Y le X1 X2 r(4) show ?thesis by (intro exI[of _ Y] exI[of _ "if ok then map fst tr else []"]) auto
qed


lemma kv_le_positions:
  assumes "kv_le kv' kv" "kv_ok sz kv" "kv_ok sz kv'" "same_shape kv kv'" "kv_seq_ok kv t"
  shows "kv_positions kv' t \<subseteq> kv_positions kv t"
proof
  fix p assume p: "p \<in> kv_positions kv' t"
  note fr = same_shape_frame[OF assms(4)]
  have st: "kv_stream kv t < kv_n_stream kv" by (rule kv_okD(2)[OF assms(2,5)])
  have len: "length (view (kv_v_cells kv ! kv_stream kv t)) = sz" "length (view (kv_v_cells kv' ! kv_stream kv t)) = sz"
    using kv_ok_size[OF assms(2) st] kv_ok_size[OF assms(3)] st fr(3) by (auto simp: cells_size_def)
  from p obtain v where "v \<in> set (view (kv_v_cells kv' ! kv_stream kv t))" "t \<in> v_seq v" "v_pos v = p"
    unfolding kv_positions_def seq_positions_def fr(5) by blast
  then obtain j where j: "j < sz" "t \<in> v_seq (cell_of kv' (kv_stream kv t) j)" "v_pos (cell_of kv' (kv_stream kv t) j) = p"
    using len(2) by (auto simp: in_set_conv_nth simp del: nth_view length_view)
  have "cell_le (cell_of kv' (kv_stream kv t) j) (cell_of kv (kv_stream kv t) j)" by (rule kv_leD[OF assms(1,2) st j(1)])
  then have "t \<in> v_seq (cell_of kv (kv_stream kv t) j)" "v_pos (cell_of kv (kv_stream kv t) j) = p"
    using j(2,3) kv_positions_nonneg[OF assms(3) _ p] assms(5) fr(4) by (auto simp: cell_le_def)
  moreover have "cell_of kv (kv_stream kv t) j \<in> set (view (kv_v_cells kv ! kv_stream kv t))" using len(1) j(1) by (intro nth_mem) simp
  ultimately show "p \<in> kv_positions kv t" unfolding kv_positions_def seq_positions_def by blast
qed

text \<open>
  C26.  The dry run of \<^verbatim>\<open>prepare\<close> in a cache with a sliding window and no pending shift: none of its
  assertions fails, on any sequence of placeable ubatches, whether or not a slot is found for each; it
  keeps the invariant, and afterwards every cell is as it was or has lost sequences, so no sequence
  has gained a position.  When it returns slots there is one for every ubatch, applying them one after
  the other succeeds, and the final cells are the same as if the dry run had not touched the cache.
\<close>

theorem prepare_window:
  assumes "kv_ok sz kv" "swa_config_ok kv" "no_shift kv" "\<forall>u \<in> set us. ubatch_placeable kv u" "us \<noteq> []"
  shows "\<exists>kv' sis. prepare us kv = Some (kv', sis) \<and> kv_ok sz kv' \<and> same_shape kv kv' \<and> no_shift kv' \<and> kv_le kv' kv \<and>
    (\<forall>t. kv_seq_ok kv t \<longrightarrow> kv_positions kv' t \<subseteq> kv_positions kv t) \<and>
    (sis \<noteq> [] \<longrightarrow> length sis = length us \<and> (\<exists>X Y. replay sis us kv = Some X \<and> replay sis us kv' = Some Y \<and>
      kv_ok sz Y \<and> same_shape kv Y \<and> same_cells X Y))"
proof -
  from prepare_swa[OF assms] obtain kv' sis where
    k: "prepare us kv = Some (kv', sis)" "kv_ok sz kv'" "same_shape kv kv'" "no_shift kv'" "kv_le kv' kv"
      "sis \<noteq> [] \<longrightarrow> length sis = length us \<and> (\<exists>X Y. replay sis us kv = Some X \<and> replay sis us kv' = Some Y \<and>
        kv_ok sz Y \<and> same_shape kv Y \<and> same_cells X Y)" by (elim exE conjE) (rule that)
  have "\<forall>t. kv_seq_ok kv t \<longrightarrow> kv_positions kv' t \<subseteq> kv_positions kv t" using kv_le_positions[OF k(5) assms(1) k(2,3)] by blast
  with k show ?thesis by (intro exI[of _ kv'] exI[of _ sis] conjI)
qed

theorem prepare_window_witness:
  "\<exists>kv' sis. prepare [one_token 0 3] demo_swa_kv = Some (kv', sis) \<and> kv_positions kv' 0 \<subseteq> {0, 1, 2} \<and> (sis \<noteq> [] \<longrightarrow> length sis = 1)"
proof -
  have sz: "cells_size (kv_v_cells demo_swa_kv ! 0) = 3" using kv_ok_size[OF demo_swa_facts(1)] by (simp add: demo_swa_facts(3))
  have "v_shift (cell_of demo_swa_kv 0 j) = 0" if "j < 3" for j using that by (auto simp: demo_swa_facts(6) less_Suc_eq numeral_eq_Suc)
  then have ns: "no_shift demo_swa_kv" using sz by (auto simp: no_shift_def demo_swa_facts(3))
  have cfg: "swa_config_ok demo_swa_kv" by (simp add: swa_config_ok_def demo_swa_facts(4))
  from prepare_window[OF demo_swa_facts(1) cfg ns, of "[one_token 0 3]"] demo_swa_placeable(1) obtain kv' sis where
    "prepare [one_token 0 3] demo_swa_kv = Some (kv', sis)" "\<forall>t. kv_seq_ok demo_swa_kv t \<longrightarrow> kv_positions kv' t \<subseteq> kv_positions demo_swa_kv t"
    "sis \<noteq> [] \<longrightarrow> length sis = 1" by auto
  with demo_swa_seq(1,3) show ?thesis by (metis (no_types))
qed

end
