(* ===== verification/Iswa_Size.thy ===== *)
theory Iswa_Size
  imports Kv_Iswa Kv_Window
begin

text \<open>
  The size of the sliding-window cache, and why it is enough: with that many cells there is always
  room for a full ubatch.
\<close>

section \<open>The computed size\<close>

lemma and_not_mask_word: "(y :: 'a :: len word) AND NOT (mask n) = push_bit n (drop_bit n y)"
  by (rule bit_word_eqI) (auto simp: bit_simps)

lemma GGML_PAD32_eq:
  assumes "unat x + 255 < 2 ^ 32"
  shows "unat (GGML_PAD32 x 256) = (unat x + 255) div 256 * 256"
proof -
  have s: "unat (x + 255) = unat x + 255" using assms by (simp add: unat_add_lem[THEN iffD1])
  have "(255 :: u32) = mask 8" by (simp add: mask_eq_exp_minus_1)
  then have "GGML_PAD32 x 256 = push_bit 8 (drop_bit 8 (x + 255))"
    by (simp add: GGML_PAD32_def and_not_mask_word[symmetric] add.commute)
  also have "\<dots> = drop_bit 8 (x + 255) * 256" by (simp add: push_bit_eq_mult)
  finally have p: "GGML_PAD32 x 256 = drop_bit 8 (x + 255) * 256" .
  have d: "unat (drop_bit 8 (x + 255)) = (unat x + 255) div 256" unfolding unat_drop_bit_eq s by (simp add: drop_bit_eq_div)
  have "(unat x + 255) div 256 * 256 < 2 ^ 32" using assms by linarith
  then show ?thesis unfolding p by (subst unat_mult_lem[THEN iffD1]) (simp_all add: d)
qed

definition seqs_per_stream :: "bool \<Rightarrow> u32 \<Rightarrow> nat" where
  "seqs_per_stream unified n_seq_max = (if unified then unat n_seq_max else 1)"

lemma iswa_need_eq:
  assumes "n_swa * seqs_per_stream unified n_seq_max + unat n_ubatch + 255 < 2 ^ 32"
  shows "unat (word_of_nat n_swa * (if unified then n_seq_max else 1) + n_ubatch :: u32) = n_swa * seqs_per_stream unified n_seq_max + unat n_ubatch"
proof -
  let ?k = "if unified then n_seq_max else 1" and ?N = "seqs_per_stream unified n_seq_max"
  have k: "unat ?k = ?N" by (simp add: seqs_per_stream_def)
  show ?thesis
  proof (cases "?N = 0")
    case True
    then have "?k = 0" using k by (metis unat_eq_zero)
    then show ?thesis using True by simp
  next
    case False
    then have "n_swa \<le> n_swa * ?N" by simp
    then have "n_swa < 2 ^ 32" using assms by linarith
    then have n: "unat (word_of_nat n_swa :: u32) = n_swa" by (simp add: unsigned_of_nat take_bit_nat_eq_self)
    have m: "unat (word_of_nat n_swa * ?k) = n_swa * ?N" using assms by (subst unat_mult_lem[THEN iffD1]) (simp_all add: n k)
    show ?thesis using assms by (subst unat_add_lem[THEN iffD1]) (simp_all add: m)
  qed
qed

lemma iswa_size_swa_eq:
  fixes n_swa :: nat
  defines "need \<equiv> \<lambda>unified size_base n_seq_max n_ubatch. min (unat size_base) (n_swa * seqs_per_stream unified n_seq_max + unat n_ubatch)"
  assumes "n_swa * seqs_per_stream unified n_seq_max + unat n_ubatch + 255 < 2 ^ 32"
  shows "unat (iswa_size_swa False unified size_base (word_of_nat n_swa) n_seq_max n_ubatch) =
    (need unified size_base n_seq_max n_ubatch + 255) div 256 * 256"
proof -
  let ?x = "min size_base (word_of_nat n_swa * (if unified then n_seq_max else 1) + n_ubatch)"
  have u: "unat ?x = need unified size_base n_seq_max n_ubatch"
    using iswa_need_eq[OF assms(2)] unfolding need_def by (auto simp: min_def word_le_nat_alt)
  have "unat ?x + 255 < 2 ^ 32" using assms(2) unfolding u need_def by linarith
  then show ?thesis by (simp add: iswa_size_swa_def GGML_PAD32_eq u del: min_less_iff_conj)
qed

text \<open>
  C27.  The computed size of the sliding-window cache, when the 32-bit computation does not overflow: it
  is the smallest multiple of 256 that holds the windows of all sequences of a stream and one ubatch,
  or the base size, whichever is less.  With a full-size cache it is the base size.
\<close>

theorem iswa_size_swa_bounds:
  assumes "n_swa * seqs_per_stream unified n_seq_max + unat n_ubatch + 255 < 2 ^ 32"
  shows "(let sz = unat (iswa_size_swa False unified size_base (word_of_nat n_swa) n_seq_max n_ubatch);
              need = min (unat size_base) (n_swa * seqs_per_stream unified n_seq_max + unat n_ubatch) in
      256 dvd sz \<and> need \<le> sz \<and> sz < need + 256) \<and>
    iswa_size_swa True unified size_base (word_of_nat n_swa) n_seq_max n_ubatch = size_base"
proof -
  have "m \<le> (m + 255) div 256 * 256" "(m + 255) div 256 * 256 < m + 256" for m :: nat
    using div_mult_mod_eq[of "m + 255" 256] mod_less_divisor[of 256 "m + 255"] by linarith+
  then show ?thesis unfolding iswa_size_swa_eq[OF assms] Let_def by (simp add: iswa_size_swa_def)
qed

theorem iswa_size_swa_bounds_witness:
  "let sz = unat (iswa_size_swa False True 32768 (word_of_nat 1024) 4 512) in 256 dvd sz \<and> 4608 \<le> sz \<and> sz < 4864"
  using iswa_size_swa_bounds[of 1024 True 4 512 32768] by (simp add: seqs_per_stream_def)

section \<open>Room for a ubatch\<close>

text \<open>The positions of a sequence that its next position still sees are no more than the window.\<close>

lemma unmasked_card:
  assumes "ty \<noteq> LLAMA_SWA_TYPE_NONE" "ty = LLAMA_SWA_TYPE_CHUNKED \<longrightarrow> 0 < n"
  shows "finite {p. 0 \<le> p \<and> p \<le> m \<and> is_masked_swa n ty p (m + 1) \<noteq> Some True}"
    "card {p. 0 \<le> p \<and> p \<le> m \<and> is_masked_swa n ty p (m + 1) \<noteq> Some True} \<le> n"
proof -
  let ?U = "{p. 0 \<le> p \<and> p \<le> m \<and> is_masked_swa n ty p (m + 1) \<noteq> Some True}"
  have sub: "?U \<subseteq> {m + 1 - int n..m}"
  proof (cases ty)
    case LLAMA_SWA_TYPE_CHUNKED
    have "(m + 1) div int n * int n \<ge> m + 1 - int n" using assms(2) LLAMA_SWA_TYPE_CHUNKED
      by (metis diff_left_mono less_imp_le minus_mod_eq_div_mult of_nat_0_less_iff pos_mod_bound)
    then show ?thesis using LLAMA_SWA_TYPE_CHUNKED assms(2) by (auto simp: is_masked_swa_def Let_def)
  qed (use assms swa_cast_le[of n] in \<open>auto simp: is_masked_swa_def Let_def\<close>)
  show "finite ?U" by (rule finite_subset[OF sub]) simp
  have "card ?U \<le> card {m + 1 - int n..m}" by (rule card_mono[OF _ sub]) simp
  then show "card ?U \<le> n" by simp
qed

text \<open>
  A stream as text generation leaves it: every used cell belongs to one of the sequences in \<open>T\<close>, and no
  two cells hold the same position of the same sequence.
\<close>

definition one_cell_per_token :: "llama_kv_cache \<Rightarrow> nat \<Rightarrow> llama_seq_id set \<Rightarrow> bool" where
  "one_cell_per_token kv st T \<longleftrightarrow> (let V = view (kv_v_cells kv ! st) in
     (\<forall>i < length V. v_pos (V ! i) \<noteq> -1 \<longrightarrow> (\<exists>t \<in> T. v_seq (V ! i) = {t})) \<and>
     (\<forall>i < length V. \<forall>j < length V. v_pos (V ! i) \<noteq> -1 \<and> v_seq (V ! i) = v_seq (V ! j) \<and> v_pos (V ! i) = v_pos (V ! j) \<longrightarrow> i = j))"

lemma unusable_window:
  assumes ok: "kv_ok sz kv" and st: "st < kv_n_stream kv" and cfg: "swa_config_ok kv" and i: "i < sz"
    and nu: "\<not> usable kv (kv_v_cells kv ! st) i" and t: "v_seq (cell_of kv st i) = {t}"
  shows "v_pos (cell_of kv st i) \<in> {p. 0 \<le> p \<and> p \<le> Max (seq_positions (view (kv_v_cells kv ! st)) t) \<and>
    is_masked_swa (kv_n_swa kv) (kv_swa_type kv) p (Max (seq_positions (view (kv_v_cells kv ! st)) t) + 1) \<noteq> Some True}"
proof -
  let ?c = "kv_v_cells kv ! st"
  have wf: "wf_cells ?c" "i < length (c_pos ?c)" using kv_okD(1)[OF ok st] i by (auto simp: stream_ok_def cells_size_def)
  have at: "c_seq ?c ! i = {t}" "c_pos ?c ! i = v_pos (cell_of kv st i)" using t wf(2) by auto
  have ne: "c_pos ?c ! i \<noteq> -1" using can_use_empty[OF wf, of kv] nu by (auto simp: usable_def)
  have co: "cell_ok (cell_of kv st i)" by (rule kv_ok_cell(1)[OF ok st i])
  then have tid: "seq_id_ok t" using t by (simp add: cell_ok_def del: nth_view)
  have "-1 \<le> v_pos (cell_of kv st i)" using co by (simp add: cell_ok_def del: nth_view)
  then have p: "0 \<le> c_pos ?c ! i" using ne unfolding at(2) by linarith
  have "cell_of kv st i \<in> set (view ?c)" using wf(2) by (intro nth_mem) simp
  then have mem: "c_pos ?c ! i \<in> seq_positions (view ?c) t" unfolding at(2) using t by (auto simp: seq_positions_def simp del: nth_view)
  then have mx: "cells_seq_pos_max t ?c = Some (Max (seq_positions (view ?c) t))" "c_pos ?c ! i \<le> Max (seq_positions (view ?c) t)"
    using cells_seq_pos_max_ok[OF wf(1) tid] by auto
  have "is_masked_swa (kv_n_swa kv) (kv_swa_type kv) (c_pos ?c ! i) (Max (seq_positions (view ?c) t) + 1) \<noteq> Some True"
    using nu ne wf at(1) mx(1) cells_seq_get_ok[OF wf at(1)] by (auto simp: usable_def can_use_def step_simps)
  then show ?thesis using p mx(2) unfolding at(2) by blast
qed

lemma unusable_card:
  assumes ok: "kv_ok sz kv" and st: "st < kv_n_stream kv" and cfg: "swa_config_ok kv" and ty: "kv_swa_type kv \<noteq> LLAMA_SWA_TYPE_NONE"
    and one: "one_cell_per_token kv st T" and T: "finite T"
  shows "card {i. i < sz \<and> \<not> usable kv (kv_v_cells kv ! st) i} \<le> card T * kv_n_swa kv"
proof -
  let ?V = "view (kv_v_cells kv ! st)" and ?B = "{i. i < sz \<and> \<not> usable kv (kv_v_cells kv ! st) i}"
  let ?W = "\<lambda>t. {p. 0 \<le> p \<and> p \<le> Max (seq_positions ?V t) \<and> is_masked_swa (kv_n_swa kv) (kv_swa_type kv) p (Max (seq_positions ?V t) + 1) \<noteq> Some True}"
  have so: "length ?V = sz" "wf_cells (kv_v_cells kv ! st)" using kv_okD(1)[OF ok st] by (auto simp: stream_ok_def cells_size_def)
  have used: "v_pos (?V ! i) \<noteq> -1" if "i \<in> ?B" for i
    using that so can_use_empty[OF so(2), of i kv] by (auto simp: usable_def)
  have own: "\<exists>t \<in> T. v_seq (?V ! i) = {t}" if "i \<in> ?B" for i
    using one used[OF that] that so(1) unfolding one_cell_per_token_def Let_def by auto
  let ?f = "\<lambda>i. (the_elem (v_seq (?V ! i)), v_pos (?V ! i))"
  have inj: "inj_on ?f ?B"
  proof (rule inj_onI)
    fix i j assume ij: "i \<in> ?B" "j \<in> ?B" "?f i = ?f j"
    then have "v_seq (?V ! i) = v_seq (?V ! j)" "v_pos (?V ! i) = v_pos (?V ! j)" using own[OF ij(1)] own[OF ij(2)] by (auto simp del: nth_view)
    moreover have "i < length ?V" "j < length ?V" using ij so(1) by auto
    ultimately show "i = j" using one used[OF ij(1)] unfolding one_cell_per_token_def Let_def by blast
  qed
  have img: "?f ` ?B \<subseteq> Sigma T ?W"
  proof
    fix x assume "x \<in> ?f ` ?B"
    then obtain i where i: "i \<in> ?B" "x = ?f i" by blast
    from own[OF i(1)] obtain t where t: "t \<in> T" "v_seq (?V ! i) = {t}" by blast
    have "v_pos (?V ! i) \<in> ?W t" by (rule unusable_window[OF ok st cfg _ _ t(2)]) (use i(1) in auto)
    then show "x \<in> Sigma T ?W" unfolding i(2) t(2) using t(1) by simp
  qed
  have W: "finite (?W t)" "card (?W t) \<le> kv_n_swa kv" for t
    using unmasked_card[OF ty, of "kv_n_swa kv"] cfg by (auto simp: swa_config_ok_def)
  have "card ?B = card (?f ` ?B)" by (rule card_image[OF inj, symmetric])
  also have "\<dots> \<le> card (Sigma T ?W)" by (rule card_mono[OF _ img]) (simp add: T W(1))
  also have "\<dots> = (\<Sum>t \<in> T. card (?W t))" by (rule card_SigmaI[OF T]) (simp add: W(1))
  also have "\<dots> \<le> (\<Sum>t \<in> T. kv_n_swa kv)" by (rule sum_mono[OF W(2)])
  finally show ?thesis by simp
qed

text \<open>
  C28.  A sliding-window cache of the computed size always has room for a ubatch: if every used cell of a
  stream holds one token of one of its sequences (all of them in a unified cache, one otherwise), then
  at least \<^verbatim>\<open>n_ubatch\<close> cells of the stream are empty or masked for all further tokens, whatever the
  positions are.  In a unified cache \<^verbatim>\<open>find_slot\<close> therefore finds a slot for every ubatch of up to
  \<^verbatim>\<open>n_ubatch\<close> tokens.  The base cache must not be smaller than the windows and one ubatch together.
\<close>

theorem swa_cache_room:
  assumes "kv_ok sz kv" "st < kv_n_stream kv" "swa_config_ok kv" "kv_swa_type kv \<noteq> LLAMA_SWA_TYPE_NONE"
    and "one_cell_per_token kv st T" "finite T" "card T \<le> seqs_per_stream unified n_seq_max"
    and "kv_n_swa kv * seqs_per_stream unified n_seq_max + unat n_ubatch + 255 < 2 ^ 32"
    and "kv_n_swa kv * seqs_per_stream unified n_seq_max + unat n_ubatch \<le> unat size_base"
    and "sz = unat (iswa_size_swa False unified size_base (word_of_nat (kv_n_swa kv)) n_seq_max n_ubatch)"
  shows "unat n_ubatch \<le> n_usable kv st \<and>
    (\<forall>u. kv_n_stream kv = 1 \<and> ubatch_placeable kv u \<and> u_n_tokens u \<le> unat n_ubatch \<longrightarrow>
      (\<exists>si. find_slot u False kv = Some si \<and> \<not> slot_is_empty si))"
proof (rule conjI)
  let ?N = "seqs_per_stream unified n_seq_max" and ?c = "kv_v_cells kv ! st"
  have s: "cells_size ?c = sz" by (rule kv_ok_size[OF assms(1,2)])
  have "kv_n_swa kv * ?N + unat n_ubatch \<le> sz" unfolding assms(10) iswa_size_swa_eq[OF assms(8)] using assms(9) by (simp add: min_absorb2)
  moreover have "card {i. i < sz \<and> \<not> usable kv ?c i} \<le> kv_n_swa kv * ?N"
    using unusable_card[OF assms(1-6)] mult_le_mono1[OF assms(7), of "kv_n_swa kv"] unfolding mult.commute[of "kv_n_swa kv"] by linarith
  moreover have "card {i. i < sz \<and> usable kv ?c i} + card {i. i < sz \<and> \<not> usable kv ?c i} = sz"
  proof -
    have "{i. i < sz \<and> usable kv ?c i} \<union> {i. i < sz \<and> \<not> usable kv ?c i} = {0..<sz}" by auto
    moreover have "card ({i. i < sz \<and> usable kv ?c i} \<union> {i. i < sz \<and> \<not> usable kv ?c i}) =
        card {i. i < sz \<and> usable kv ?c i} + card {i. i < sz \<and> \<not> usable kv ?c i}" by (rule card_Un_disjoint) auto
    ultimately show ?thesis by simp
  qed
  ultimately show room: "unat n_ubatch \<le> n_usable kv st" unfolding n_usable_def s by linarith
  show "\<forall>u. kv_n_stream kv = 1 \<and> ubatch_placeable kv u \<and> u_n_tokens u \<le> unat n_ubatch \<longrightarrow>
      (\<exists>si. find_slot u False kv = Some si \<and> \<not> slot_is_empty si)"
  proof (intro allI impI, elim conjE)
    fix u assume u: "kv_n_stream kv = 1" "ubatch_placeable kv u" "u_n_tokens u \<le> unat n_ubatch"
    note ur = unified_room[OF u(1) assms(1) u(2)]
    have "\<forall>s < ubatch_n_seqs kv u. ubatch_n_tokens kv u \<le> n_usable kv (ubatch_stream kv u s)"
      using room u(3) assms(2) u(1) ur(1-3) by simp
    from find_slot_over[OF assms(1,3) u(2) this] obtain si where
      "find_slot u False kv = Some si" "slot_over sz kv si u (ubatch_n_tokens kv u)" by blast
    moreover from this(2) have "\<not> slot_is_empty si" by (auto simp: slot_over_def slot_is_empty_def)
    ultimately show "\<exists>si. find_slot u False kv = Some si \<and> \<not> slot_is_empty si" by blast
  qed
qed

text \<open>A unified cache with a window of two for one sequence and ubatches of four: 256 cells, three of them used.\<close>

definition demo_window :: llama_kv_cache where
  "demo_window = kv_put 0 (the (cells_run swa_ops (cells_resize 256 cells_new))) 3
     (the (kv_new demo_hparams True False True 256 1 1 2 LLAMA_SWA_TYPE_STANDARD []))"

lemma demo_window_facts:
  "kv_ok 256 demo_window" "kv_n_stream demo_window = 1" "kv_swa_type demo_window = LLAMA_SWA_TYPE_STANDARD" "kv_n_swa demo_window = 2"
  "kv_seq_to_stream demo_window = replicate 256 0" "one_cell_per_token demo_window 0 {0}"
proof -
  from kv_new_demo[of 1 1 demo_hparams True False True 256 2 LLAMA_SWA_TYPE_STANDARD "[]"] obtain kv where
    kv: "kv_new demo_hparams True False True 256 1 1 2 LLAMA_SWA_TYPE_STANDARD [] = Some kv" "kv_ok 256 kv" "kv_n_stream kv = 1"
      "kv_seq_to_stream kv = replicate LLAMA_MAX_SEQ 0" by (auto simp: LLAMA_MAX_SEQ_def)
  have "cells_pre_run swa_ops (view (cells_resize 256 cells_new))"
    by (simp add: cells_resize_new(2) swa_ops_def seq_id_ok_def LLAMA_MAX_SEQ_def nth_list_update)
  from cells_run_ok[OF cells_resize_new(1) this] obtain c where
    c: "cells_run swa_ops (cells_resize 256 cells_new) = Some c" "wf_cells c" "view c = fold cells_spec swa_ops (replicate 256 empty_cell)"
    by (auto simp: cells_resize_new(2))
  let ?e = "\<lambda>p. empty_cell\<lparr>v_pos := p, v_seq := {0}\<rparr>"
  have v: "view c = (replicate 256 empty_cell)[0 := ?e 0, 1 := ?e 1, 2 := ?e 2]"
    unfolding c(3) swa_ops_def by (simp add: nth_list_update)
  have d: "demo_window = kv_put 0 c 3 kv" unfolding demo_window_def c(1) kv(1) by simp
  have sz: "cells_size c = 256" using arg_cong[OF v, of length] by (simp add: cells_size_def)
  have cell: "view c ! i = (if i < 3 then ?e (int i) else empty_cell)" if "i < 256" for i
    unfolding v using that by (cases "i = 0"; cases "i = 1"; cases "i = 2") auto
  have l: "length (kv_v_cells kv) = 1" "length (view c) = 256" using kv(2,3) sz by (simp_all add: kv_ok_def cells_size_def)
  show "kv_ok 256 demo_window" unfolding d
  proof (rule kv_put_ok[OF kv(2) _ c(2) sz])
    fix w assume "w \<in> set (view c)"
    then obtain i where "i < 256" "w = view c ! i" using l(2) by (auto simp: in_set_conv_nth simp del: nth_view length_view)
    then show "placed kv 0 w" using cell by (auto simp: placed_def kv_seq_ok_def kv_stream_def kv LLAMA_MAX_SEQ_def simp del: nth_view)
  qed (use kv(3) in auto)
  have vw: "view (kv_v_cells demo_window ! 0) = view c" using l(1) by (simp add: d)
  show "one_cell_per_token demo_window 0 {0}"
    unfolding one_cell_per_token_def vw Let_def l(2) using cell by (auto simp del: nth_view)
  show "kv_n_stream demo_window = 1" "kv_seq_to_stream demo_window = replicate 256 0" by (simp_all add: d kv(3,4) LLAMA_MAX_SEQ_def)
  show "kv_swa_type demo_window = LLAMA_SWA_TYPE_STANDARD" "kv_n_swa demo_window = 2" using kv(1) by (auto simp: d kv_new_def Let_def)
qed

theorem swa_cache_room_witness: "4 \<le> n_usable demo_window 0 \<and> (\<exists>si. find_slot (one_token 0 3) False demo_window = Some si \<and> \<not> slot_is_empty si)"
proof -
  note f = demo_window_facts
  have cfg: "swa_config_ok demo_window" by (simp add: swa_config_ok_def f)
  have "256 = unat (iswa_size_swa False True 1024 (word_of_nat (kv_n_swa demo_window)) 1 4)"
    using iswa_size_swa_eq[of 2 True 1 4 1024] by (simp add: f seqs_per_stream_def)
  note room = swa_cache_room[OF f(1) _ cfg _ f(6) _ _ _ _ this]
  have "ubatch_placeable demo_window (one_token 0 3)"
    by (simp add: ubatch_placeable_def ubatch_fits_def ubatch_n_seqs_def ubatch_n_tokens_def ubatch_stream_def f one_token_def
      token_ok_def token_ids_def seq_id_ok_def LLAMA_MAX_SEQ_def kv_seq_ok_def kv_stream_def)
  moreover have "u_n_tokens (one_token 0 3) = 1" by (simp add: one_token_def)
  ultimately show ?thesis using room by (simp add: f seqs_per_stream_def)
qed

end
