(* ===== verification/Recurrent.thy ===== *)
theory Recurrent
  imports Kv_State
begin

text \<open>
  Recurrent memory: \<^verbatim>\<open>src/llama-memory-recurrent.cpp\<close>, the cells of state-space and RWKV models.  A cell
  holds the whole state of the sequences in its set; \<^verbatim>\<open>cells[s].tail\<close> is the cell of sequence \<open>s\<close>, so the
  list of cells is also the table of tails.  \<^verbatim>\<open>src\<close> is the row of the state tensors in which the state of
  a cell lies until the next graph moves it, \<^verbatim>\<open>src0\<close> what that graph is told.  An access outside the
  list of cells is \<^term>\<open>None\<close>, like a failed assertion; \<^verbatim>\<open>used\<close> and \<^verbatim>\<open>n\<close> are 32-bit words.
\<close>

section \<open>Cells\<close>

record mem_cell =
  mc_pos :: llama_pos
  mc_src :: int
  mc_src0 :: int
  mc_tail :: int
  mc_seq_id :: seq_set_t

definition mem_cell_new :: mem_cell where
  "mem_cell_new = \<lparr>mc_pos = -1, mc_src = -1, mc_src0 = -1, mc_tail = -1, mc_seq_id = {}\<rparr>"

definition has_seq_id :: "llama_seq_id \<Rightarrow> mem_cell \<Rightarrow> bool" where
  "has_seq_id s c \<longleftrightarrow> s \<in> mc_seq_id c"

definition mc_is_empty :: "mem_cell \<Rightarrow> bool" where
  "mc_is_empty c \<longleftrightarrow> mc_seq_id c = {}"

definition is_same_seq :: "mem_cell \<Rightarrow> mem_cell \<Rightarrow> bool" where
  "is_same_seq c other \<longleftrightarrow> mc_seq_id c = mc_seq_id other"

text \<open>A tensor of the state is its type and the bytes of its buffer; a filtered layer has none.\<close>

type_synonym rs_tensor = "int \<times> byte list"

record llama_memory_recurrent =
  rs_hparams :: llama_hparams
  rs_n_seq_max :: nat
  rs_head :: nat
  rs_size :: nat
  rs_used :: u32
  rs_n :: u32
  rs_z :: int
  rs_cells :: "mem_cell list"
  rs_r_l :: "rs_tensor option list"
  rs_s_l :: "rs_tensor option list"

definition rs_tensor_new :: "traits \<Rightarrow> int \<Rightarrow> u32 \<Rightarrow> nat \<Rightarrow> rs_tensor option" where
  "rs_tensor_new tt ty n_embd mem_size = do {
     n \<leftarrow> ggml_row_size tt ty (unat (n_embd * word_of_nat mem_size));
     Some (ty, replicate n 0)
   }"

definition rec_layer :: "traits \<Rightarrow> int \<Rightarrow> u32 option \<Rightarrow> nat \<Rightarrow> (nat \<Rightarrow> bool) option \<Rightarrow> nat \<Rightarrow> rs_tensor option option" where
  "rec_layer tt ty n_embd mem_size flt i =
     (if (case flt of None \<Rightarrow> False | Some f \<Rightarrow> \<not> f i) then Some None
      else do {
        n \<leftarrow> n_embd;
        t \<leftarrow> rs_tensor_new tt ty n mem_size;
        Some (Some t)
      })"

definition rec_new :: "traits \<Rightarrow> llama_hparams \<Rightarrow> int \<Rightarrow> int \<Rightarrow> nat \<Rightarrow> nat \<Rightarrow> (nat \<Rightarrow> bool) option \<Rightarrow> llama_memory_recurrent option" where
  "rec_new tt hp type_r type_s mem_size n_seq_max flt = do {
     r \<leftarrow> those (map (rec_layer tt type_r (n_embd_r hp) mem_size flt) [0..<hp_n_layer hp]);
     s \<leftarrow> those (map (rec_layer tt type_s (n_embd_s hp) mem_size flt) [0..<hp_n_layer hp]);
     Some \<lparr>rs_hparams = hp, rs_n_seq_max = n_seq_max, rs_head = 0, rs_size = mem_size, rs_used = 0, rs_n = 0, rs_z = -1,
       rs_cells = replicate mem_size mem_cell_new, rs_r_l = r, rs_s_l = s\<rparr>
   }"

definition zero_tensors :: "rs_tensor option list \<Rightarrow> rs_tensor option list" where
  "zero_tensors = map (map_option (\<lambda>(ty, bs). (ty, map (\<lambda>_. 0) bs)))"

definition rec_clear :: "bool \<Rightarrow> llama_memory_recurrent \<Rightarrow> llama_memory_recurrent" where
  "rec_clear data m =
     (let m = m\<lparr>rs_cells := map (\<lambda>c. c\<lparr>mc_pos := -1, mc_seq_id := {}, mc_src := -1, mc_tail := -1\<rparr>) (rs_cells m),
                rs_head := 0, rs_used := 0\<rparr>
      in if data then m\<lparr>rs_r_l := zero_tensors (rs_r_l m), rs_s_l := zero_tensors (rs_s_l m)\<rparr> else m)"

section \<open>Sequence operations\<close>

definition rec_valid :: "llama_seq_id \<Rightarrow> mem_cell list \<Rightarrow> bool" where
  "rec_valid i cells \<longleftrightarrow> 0 \<le> i \<and> nat i < length cells"

definition mc_upd :: "llama_seq_id \<Rightarrow> (mem_cell \<Rightarrow> mem_cell) \<Rightarrow> mem_cell list \<Rightarrow> mem_cell list" where
  "mc_upd i f cells = cells[nat i := f (cells ! nat i)]"

text \<open>One iteration of the loop of \<^verbatim>\<open>seq_rm\<close>, on the cells, \<^verbatim>\<open>used\<close> and \<^verbatim>\<open>new_head\<close>.\<close>

definition rec_rm_step :: "llama_seq_id \<Rightarrow> llama_pos \<Rightarrow> llama_pos \<Rightarrow> nat \<Rightarrow> mem_cell list \<times> u32 \<times> nat \<Rightarrow> mem_cell list \<times> u32 \<times> nat" where
  "rec_rm_step seq_id p0 p1 i = (\<lambda>(cells, used, new_head).
     let c = cells ! i in
     if mc_pos c \<ge> p0 \<and> mc_pos c < p1 \<and> (seq_id < 0 \<or> has_seq_id seq_id c) then
       (let c = c\<lparr>mc_seq_id := (if seq_id < 0 then {} else mc_seq_id c - {seq_id})\<rparr> in
        if mc_is_empty c then
          (cells[i := c\<lparr>mc_pos := -1, mc_src := -1\<rparr>], if mc_pos c \<ge> 0 then used - 1 else used,
           if new_head = length cells then i else new_head)
        else (cells[i := c], used, new_head))
     else (cells, used, new_head))"

definition rec_lower_head :: "nat \<Rightarrow> llama_memory_recurrent \<Rightarrow> llama_memory_recurrent" where
  "rec_lower_head new_head m =
     (if new_head \<noteq> rs_size m \<and> new_head < rs_head m then m\<lparr>rs_head := new_head\<rparr> else m)"

definition rec_rm_cells :: "llama_seq_id \<Rightarrow> llama_pos \<Rightarrow> llama_pos \<Rightarrow> llama_memory_recurrent \<Rightarrow> llama_memory_recurrent" where
  "rec_rm_cells seq_id p0 p1 m =
     (let (cells, used, new_head) = fold (rec_rm_step seq_id p0 p1) [0..<rs_size m] (rs_cells m, rs_used m, rs_size m)
      in rec_lower_head new_head (m\<lparr>rs_cells := cells, rs_used := used\<rparr>))"

definition rec_seq_rm :: "llama_seq_id \<Rightarrow> llama_pos \<Rightarrow> llama_pos \<Rightarrow> llama_memory_recurrent \<Rightarrow> (llama_memory_recurrent \<times> bool) option" where
  "rec_seq_rm seq_id p0 p1 m =
     (let p0 = clamp_p0 p0; p1 = clamp_p1 p1; cells = rs_cells m in
      if seq_id \<ge> int (rs_size m) then Some (m, False)
      else if 0 \<le> seq_id then
        let tail_id = mc_tail (cells ! nat seq_id) in
        if tail_id \<ge> 0 then do {
          require (rec_valid tail_id cells);
          let p = mc_pos (cells ! nat tail_id);
          if 0 < p0 \<and> p0 \<le> p \<and> p1 > p then Some (m, False)
          else Some (rec_rm_cells seq_id p0 p1
            (if p0 \<le> p \<and> p < p1 then m\<lparr>rs_cells := mc_upd seq_id (\<lambda>c. c\<lparr>mc_tail := -1\<rparr>) cells\<rparr> else m), True)
        } else Some (rec_rm_cells seq_id p0 p1 m, True)
      else if p0 \<noteq> p1 \<and> (p0 \<noteq> 0 \<or> p1 \<noteq> INT32_MAX) then Some (m, False)
      else Some (rec_rm_cells seq_id p0 p1 m, True))"

text \<open>
  A sequence leaves its cell: the block that \<^verbatim>\<open>seq_cp\<close> runs for its destination and \<^verbatim>\<open>find_slot\<close> for the
  sequences that become shared.
\<close>

definition leave_cell :: "llama_seq_id \<Rightarrow> mem_cell list \<times> u32 \<Rightarrow> (mem_cell list \<times> u32) option" where
  "leave_cell seq_id = (\<lambda>(cells, used).
     let tail = mc_tail (cells ! nat seq_id) in
     if tail \<ge> 0 then do {
       require (rec_valid tail cells);
       let cells = mc_upd tail (\<lambda>c. c\<lparr>mc_seq_id := mc_seq_id c - {seq_id}\<rparr>) cells;
       let cells = mc_upd seq_id (\<lambda>c. c\<lparr>mc_tail := -1\<rparr>) cells;
       if mc_is_empty (cells ! nat tail) then
         Some (mc_upd tail (\<lambda>c. c\<lparr>mc_pos := -1, mc_src := -1\<rparr>) cells, used - 1)
       else Some (cells, used)
     } else Some (cells, used))"

definition rec_seq_cp :: "llama_seq_id \<Rightarrow> llama_seq_id \<Rightarrow> llama_pos \<Rightarrow> llama_pos \<Rightarrow> llama_memory_recurrent \<Rightarrow> llama_memory_recurrent option" where
  "rec_seq_cp seq_id_src seq_id_dst p0 p1 m =
     (if seq_id_src = seq_id_dst then Some m
      else if rec_valid seq_id_dst (rs_cells m) \<and> rec_valid seq_id_src (rs_cells m) then do {
        (cells, used) \<leftarrow> leave_cell seq_id_dst (rs_cells m, rs_used m);
        let tail = mc_tail (cells ! nat seq_id_src);
        if tail \<ge> 0 then do {
          require (rec_valid tail cells);
          let cells = mc_upd tail (\<lambda>c. c\<lparr>mc_seq_id := insert seq_id_dst (mc_seq_id c)\<rparr>) cells;
          Some (m\<lparr>rs_cells := mc_upd seq_id_dst (\<lambda>c. c\<lparr>mc_tail := tail\<rparr>) cells, rs_used := used\<rparr>)
        } else Some (m\<lparr>rs_cells := cells, rs_used := used\<rparr>)
      } else Some m)"

definition rec_keep_step :: "llama_seq_id \<Rightarrow> nat \<Rightarrow> mem_cell list \<times> u32 \<times> nat \<Rightarrow> mem_cell list \<times> u32 \<times> nat" where
  "rec_keep_step seq_id i = (\<lambda>(cells, used, new_head).
     let c = cells ! i; c = (if int i \<noteq> seq_id then c\<lparr>mc_tail := -1\<rparr> else c) in
     if \<not> has_seq_id seq_id c then
       (cells[i := c\<lparr>mc_pos := -1, mc_src := -1, mc_seq_id := {}\<rparr>], if mc_pos c \<ge> 0 then used - 1 else used,
        if new_head = length cells then i else new_head)
     else (cells[i := c\<lparr>mc_seq_id := {seq_id}\<rparr>], used, new_head))"

definition rec_seq_keep :: "llama_seq_id \<Rightarrow> llama_memory_recurrent \<Rightarrow> llama_memory_recurrent" where
  "rec_seq_keep seq_id m =
     (let (cells, used, new_head) = fold (rec_keep_step seq_id) [0..<rs_size m] (rs_cells m, rs_used m, rs_size m)
      in rec_lower_head new_head (m\<lparr>rs_cells := cells, rs_used := used\<rparr>))"

text \<open>
  The body that \<^verbatim>\<open>seq_add\<close> and \<^verbatim>\<open>seq_div\<close> share: change the position of the tail of a sequence.  Positions are
  32-bit; the sum in \<^verbatim>\<open>seq_add\<close> is brought back to that width.
\<close>

definition rec_move :: "llama_seq_id \<Rightarrow> llama_pos \<Rightarrow> llama_pos \<Rightarrow> (llama_pos \<Rightarrow> llama_pos option) \<Rightarrow> llama_memory_recurrent \<Rightarrow> llama_memory_recurrent option" where
  "rec_move seq_id p0 p1 f m =
     (if 0 \<le> seq_id \<and> seq_id < int (rs_size m) then
        let tail_id = mc_tail (rs_cells m ! nat seq_id) in
        if tail_id \<ge> 0 then do {
          require (rec_valid tail_id (rs_cells m));
          let c = rs_cells m ! nat tail_id;
          if has_seq_id seq_id c \<and> p0 \<le> mc_pos c \<and> mc_pos c < p1 then do {
            p \<leftarrow> f (mc_pos c);
            Some (m\<lparr>rs_cells := mc_upd tail_id (\<lambda>c. c\<lparr>mc_pos := p\<rparr>) (rs_cells m)\<rparr>)
          } else Some m
        } else Some m
      else Some m)"

definition rec_seq_add :: "llama_seq_id \<Rightarrow> llama_pos \<Rightarrow> llama_pos \<Rightarrow> llama_pos \<Rightarrow> llama_memory_recurrent \<Rightarrow> llama_memory_recurrent option" where
  "rec_seq_add seq_id p0 p1 shift m =
     (if shift = 0 then Some m
      else if clamp_p0 p0 = clamp_p1 p1 then Some m
      else rec_move seq_id (clamp_p0 p0) (clamp_p1 p1) (\<lambda>p. Some (to_i32 (p + shift))) m)"

definition rec_seq_div :: "llama_seq_id \<Rightarrow> llama_pos \<Rightarrow> llama_pos \<Rightarrow> int \<Rightarrow> llama_memory_recurrent \<Rightarrow> llama_memory_recurrent option" where
  "rec_seq_div seq_id p0 p1 d m =
     (if d = 1 then Some m
      else if clamp_p0 p0 = clamp_p1 p1 then Some m
      else rec_move seq_id (clamp_p0 p0) (clamp_p1 p1) (\<lambda>p. if d = 0 then None else Some (cxx_div p d)) m)"

definition rec_seq_pos_min :: "llama_seq_id \<Rightarrow> llama_memory_recurrent \<Rightarrow> llama_pos" where
  "rec_seq_pos_min seq_id m =
     (let result = fold (\<lambda>i result. if has_seq_id seq_id (rs_cells m ! i) then min result (mc_pos (rs_cells m ! i)) else result)
        [0..<rs_size m] INT32_MAX
      in if result = INT32_MAX then -1 else result)"

definition rec_seq_pos_max :: "llama_seq_id \<Rightarrow> llama_memory_recurrent \<Rightarrow> llama_pos" where
  "rec_seq_pos_max seq_id m =
     fold (\<lambda>i result. if has_seq_id seq_id (rs_cells m ! i) then max result (mc_pos (rs_cells m ! i)) else result)
       [0..<rs_size m] (-1)"

definition rec_get_can_shift :: "llama_memory_recurrent \<Rightarrow> bool" where
  "rec_get_can_shift m = True"

section \<open>Finding a slot\<close>

text \<open>The first token of sequence set \<open>s\<close>, and the ids of that set.\<close>

definition set_token :: "llama_ubatch \<Rightarrow> nat \<Rightarrow> nat" where
  "set_token u s = s * u_n_seq_tokens u"

definition set_ids :: "llama_ubatch \<Rightarrow> nat \<Rightarrow> llama_seq_id list" where
  "set_ids u s = take (u_n_seq_id u ! set_token u s) (u_seq_id u ! set_token u s)"

definition set_first :: "llama_ubatch \<Rightarrow> nat \<Rightarrow> llama_seq_id option" where
  "set_first u s = (case u_seq_id u ! set_token u s of [] \<Rightarrow> None | q # _ \<Rightarrow> Some q)"

text \<open>The checks of the ids; a sequence that is not the first of its set leaves its cell.\<close>

fun claim_ids :: "nat \<Rightarrow> llama_seq_id list \<Rightarrow> mem_cell list \<times> u32 \<Rightarrow> ((mem_cell list \<times> u32) \<times> bool) option" where
  "claim_ids j [] st = Some (st, True)"
| "claim_ids j (seq_id # ids) st =
     (if seq_id < 0 \<or> nat seq_id \<ge> length (fst st) then Some (st, False)
      else do {
        st \<leftarrow> (if j > 0 then leave_cell seq_id st else Some st);
        claim_ids (Suc j) ids st
      })"

fun claim_sets :: "llama_ubatch \<Rightarrow> nat list \<Rightarrow> mem_cell list \<times> u32 \<Rightarrow> ((mem_cell list \<times> u32) \<times> bool) option" where
  "claim_sets u [] st = Some (st, True)"
| "claim_sets u (s # ss) st = do {
     (st, ok) \<leftarrow> claim_ids 0 (set_ids u s) st;
     if ok then claim_sets u ss st else Some (st, False)
   }"

text \<open>The search for the first empty cell, and for the next one.\<close>

fun seek_empty :: "nat \<Rightarrow> mem_cell list \<Rightarrow> nat \<Rightarrow> nat" where
  "seek_empty 0 cells p = p"
| "seek_empty (Suc k) cells p =
     (let p = (if p \<ge> length cells then p - length cells else p)
      in if mc_is_empty (cells ! p) then p else seek_empty k cells (p + 1))"

fun seek_next :: "nat \<Rightarrow> mem_cell list \<Rightarrow> nat \<Rightarrow> nat" where
  "seek_next 0 cells p = p"
| "seek_next (Suc k) cells p =
     (let p = p + 1; p = (if p \<ge> length cells then p - length cells else p)
      in if mc_is_empty (cells ! p) then p else seek_next k cells p)"

text \<open>Copy the old tail into the empty cell.\<close>

definition copy_tail :: "llama_seq_id \<Rightarrow> int \<Rightarrow> nat \<Rightarrow> mem_cell list \<Rightarrow> mem_cell list option" where
  "copy_tail seq_id tail next_empty cells = do {
     let orig = cells ! nat tail;
     let cells = cells[next_empty := (cells ! next_empty)\<lparr>mc_pos := mc_pos orig, mc_src := mc_src orig\<rparr>];
     let cells = mc_upd tail (\<lambda>c. c\<lparr>mc_seq_id := mc_seq_id c - {seq_id}\<rparr>) cells;
     let cells = cells[next_empty := (cells ! next_empty)\<lparr>mc_seq_id := insert seq_id (mc_seq_id (cells ! next_empty))\<rparr>];
     require (\<not> mc_is_empty (cells ! nat tail));
     Some cells
   }"

text \<open>One sequence set gets a cell of its own: the state is the cells, the empty cell, \<^verbatim>\<open>min\<close> and \<^verbatim>\<open>max\<close>.\<close>

definition own_cell :: "llama_ubatch \<Rightarrow> nat \<Rightarrow> mem_cell list \<times> nat \<times> int \<times> int \<Rightarrow> (mem_cell list \<times> nat \<times> int \<times> int) option" where
  "own_cell u s = (\<lambda>(cells, next_empty, mn, mx). do {
     seq_id \<leftarrow> set_first u s;
     require (rec_valid seq_id cells);
     let tail = mc_tail (cells ! nat seq_id);
     has_cell \<leftarrow> (if tail \<ge> 0 then do {
         require (rec_valid tail cells \<and> has_seq_id seq_id (cells ! nat tail));
         Some (card (mc_seq_id (cells ! nat tail)) = 1)
       } else Some False);
     (cells, next_empty) \<leftarrow> (if has_cell then Some (cells, next_empty)
       else do {
         require (next_empty < length cells \<and> mc_is_empty (cells ! next_empty));
         cells \<leftarrow> (if tail \<ge> 0 then copy_tail seq_id tail next_empty cells else Some cells);
         let cells = mc_upd seq_id (\<lambda>c. c\<lparr>mc_tail := int next_empty\<rparr>) cells;
         Some (cells, if s + 1 < u_n_seqs u then seek_next (length cells) cells next_empty else next_empty)
       });
     let tail = mc_tail (cells ! nat seq_id);
     Some (cells, next_empty, min mn tail, max mx tail)
   })"

text \<open>Gather the cells of the sets at \<^verbatim>\<open>min\<close>, in the order of the ubatch, by swaps.\<close>

definition swap_tail :: "int \<Rightarrow> int \<Rightarrow> mem_cell \<Rightarrow> mem_cell" where
  "swap_tail src_id dst_id c =
     (if mc_tail c = src_id then c\<lparr>mc_tail := dst_id\<rparr>
      else if mc_tail c = dst_id then c\<lparr>mc_tail := src_id\<rparr> else c)"

definition take_contents :: "mem_cell \<Rightarrow> mem_cell \<Rightarrow> mem_cell" where
  "take_contents other c = c\<lparr>mc_pos := mc_pos other, mc_src := mc_src other, mc_seq_id := mc_seq_id other\<rparr>"

definition gather :: "llama_ubatch \<Rightarrow> int \<Rightarrow> nat \<Rightarrow> mem_cell list \<Rightarrow> mem_cell list option" where
  "gather u mn s cells = do {
     let dst_id = int s + mn;
     seq_id \<leftarrow> set_first u s;
     require (rec_valid seq_id cells);
     let src_id = mc_tail (cells ! nat seq_id);
     if dst_id \<noteq> src_id then do {
       require (rec_valid dst_id cells \<and> rec_valid src_id cells);
       let dst = cells ! nat dst_id;
       let src = cells ! nat src_id;
       let cells = mc_upd src_id (take_contents dst) (mc_upd dst_id (take_contents src) cells);
       Some (map (swap_tail src_id dst_id) cells)
     } else Some cells
   }"

definition settle_id :: "int \<Rightarrow> llama_seq_id \<Rightarrow> mem_cell list \<Rightarrow> mem_cell list option" where
  "settle_id cell_id seq_id cells = do {
     require (rec_valid seq_id cells);
     let cells = mc_upd cell_id (\<lambda>c. c\<lparr>mc_seq_id := insert seq_id (mc_seq_id c)\<rparr>) cells;
     Some (mc_upd seq_id (\<lambda>c. c\<lparr>mc_tail := cell_id\<rparr>) cells)
   }"

definition settle :: "llama_ubatch \<Rightarrow> int \<Rightarrow> nat \<Rightarrow> mem_cell list \<Rightarrow> mem_cell list option" where
  "settle u mn s cells = do {
     require (u_n_seq_tokens u > 0 \<and> set_token u s + u_n_seq_tokens u - 1 < length (u_pos u));
     let last_pos = u_pos u ! (set_token u s + u_n_seq_tokens u - 1);
     let cell_id = int s + mn;
     require (rec_valid cell_id cells);
     let cells = mc_upd cell_id (\<lambda>c. c\<lparr>mc_pos := last_pos, mc_seq_id := {}\<rparr>) cells;
     for_loop (settle_id cell_id) (set_ids u s) cells
   }"

text \<open>The first cell of the range that no cell names as its source becomes the zeroed state.\<close>

definition refcounts :: "mem_cell list \<Rightarrow> nat list option" where
  "refcounts cells = for_loop (\<lambda>c counts.
     if mc_src c \<ge> 0 then do {
       require (nat (mc_src c) < length counts);
       Some (counts[nat (mc_src c) := counts ! nat (mc_src c) + 1])
     } else Some counts) cells (replicate (length cells) 0)"

definition stage_src :: "int \<Rightarrow> nat \<Rightarrow> mem_cell list \<Rightarrow> mem_cell list option" where
  "stage_src z i cells = do {
     require (i < length cells);
     let c = cells ! i;
     if mc_src c < 0 then do {
       require (z \<ge> 0);
       Some (cells[i := c\<lparr>mc_src0 := z, mc_src := int i\<rparr>])
     } else Some (cells[i := c\<lparr>mc_src0 := mc_src c, mc_src := int i\<rparr>])
   }"

definition rec_find_slot :: "llama_ubatch \<Rightarrow> llama_memory_recurrent \<Rightarrow> (llama_memory_recurrent \<times> bool) option" where
  "rec_find_slot u m = do {
     let n_seqs = u_n_seqs u;
     let m = (if rs_head m > unat (rs_used m + 2 * word_of_nat n_seqs) then m\<lparr>rs_head := 0\<rparr> else m);
     require (u_equal_seqs u);
     ((cells, used), ok) \<leftarrow> claim_sets u [0..<n_seqs] (rs_cells m, rs_used m);
     if \<not> ok then Some (m\<lparr>rs_cells := cells, rs_used := used\<rparr>, False)
     else do {
       let next_empty = seek_empty (length cells) cells (rs_head m);
       (cells, _, mn, mx) \<leftarrow> for_loop (own_cell u) [0..<n_seqs] (cells, next_empty, int (rs_size m) - 1, 0);
       cells \<leftarrow> for_loop (gather u mn) [0..<n_seqs] cells;
       cells \<leftarrow> for_loop (settle u mn) [0..<n_seqs] cells;
       counts \<leftarrow> refcounts cells;
       require (mn \<ge> 0 \<and> nat mx < length cells);
       let range = [nat mn..<Suc (nat mx)];
       let z = (case find (\<lambda>i. counts ! i = 0) range of None \<Rightarrow> -1 | Some i \<Rightarrow> int i);
       cells \<leftarrow> for_loop (stage_src z) range cells;
       let n = word_of_int (mx - mn + 1);
       Some (m\<lparr>rs_cells := cells, rs_z := z, rs_head := nat mn, rs_n := n,
               rs_used := word_of_nat (length (filter (\<lambda>c. \<not> mc_is_empty c) cells))\<rparr>,
             word_of_nat n_seqs \<le> n)
     }
   }"

definition rec_prepare_loop :: "llama_ubatch list \<Rightarrow> llama_memory_recurrent \<Rightarrow> (llama_memory_recurrent \<times> bool) option" where
  "rec_prepare_loop ubatches m = for_loop (\<lambda>u (m, success). if success then rec_find_slot u m else Some (m, False)) ubatches (m, True)"

definition rec_prepare :: "llama_ubatch list \<Rightarrow> llama_memory_recurrent \<Rightarrow> (llama_memory_recurrent \<times> bool) option" where
  "rec_prepare ubatches m = do {
     (m', success) \<leftarrow> rec_prepare_loop ubatches m;
     Some (m'\<lparr>rs_cells := rs_cells m, rs_used := rs_used m, rs_head := rs_head m\<rparr>, success)
   }"

section \<open>The context of a batch\<close>

record llama_memory_recurrent_context =
  rc_status :: llama_memory_status
  rc_i_next :: nat
  rc_ubatches :: "llama_ubatch list"
  rc_is_full :: bool

definition rec_context_status :: "llama_memory_status \<Rightarrow> llama_memory_recurrent_context" where
  "rec_context_status st = \<lparr>rc_status = st, rc_i_next = 0, rc_ubatches = [], rc_is_full = False\<rparr>"

definition rec_context_full :: llama_memory_recurrent_context where
  "rec_context_full = (rec_context_status LLAMA_MEMORY_STATUS_SUCCESS)\<lparr>rc_is_full := True\<rparr>"

definition rec_context_batch :: "llama_ubatch list \<Rightarrow> llama_memory_recurrent_context" where
  "rec_context_batch ubatches = (rec_context_status LLAMA_MEMORY_STATUS_SUCCESS)\<lparr>rc_ubatches := ubatches\<rparr>"

definition rec_init_batch :: "llama_batch_allocr \<Rightarrow> nat \<Rightarrow> bool \<Rightarrow> llama_memory_recurrent \<Rightarrow>
    (llama_batch_allocr \<times> llama_memory_recurrent \<times> llama_memory_recurrent_context) option" where
  "rec_init_batch balloc n_ubatch embd_all m = do {
     let balloc = split_reset balloc;
     (balloc, ubatches) \<leftarrow> split_all (allocr_get_n_tokens balloc + 1)
       (if embd_all then split_seq n_ubatch else split_equal n_ubatch True) balloc [];
     if allocr_get_n_used balloc < allocr_get_n_tokens balloc then
       Some (balloc, m, rec_context_status LLAMA_MEMORY_STATUS_FAILED_PREPARE)
     else do {
       (m, ok) \<leftarrow> rec_prepare ubatches m;
       Some (balloc, m, if ok then rec_context_batch ubatches else rec_context_status LLAMA_MEMORY_STATUS_FAILED_PREPARE)
     }
   }"

definition rec_init_full :: llama_memory_recurrent_context where
  "rec_init_full = rec_context_full"

definition rec_init_update :: llama_memory_recurrent_context where
  "rec_init_update = rec_context_status LLAMA_MEMORY_STATUS_NO_UPDATE"

definition rec_context_next :: "llama_memory_recurrent_context \<Rightarrow> (llama_memory_recurrent_context \<times> bool) option" where
  "rec_context_next rc = do {
     require (rc_status rc = LLAMA_MEMORY_STATUS_SUCCESS);
     let rc = rc\<lparr>rc_i_next := rc_i_next rc + 1\<rparr>;
     Some (rc, \<not> rc_i_next rc \<ge> length (rc_ubatches rc))
   }"

definition rec_context_apply :: "llama_memory_recurrent_context \<Rightarrow> llama_memory_recurrent \<Rightarrow> (llama_memory_recurrent \<times> bool) option" where
  "rec_context_apply rc m = do {
     require (\<not> llama_memory_status_is_fail (rc_status rc));
     if rc_ubatches rc = [] then do {
       require (rc_status rc = LLAMA_MEMORY_STATUS_NO_UPDATE);
       Some (m, True)
     } else do {
       require (rc_i_next rc < length (rc_ubatches rc));
       (m, _) \<leftarrow> rec_find_slot (rc_ubatches rc ! rc_i_next rc) m;
       Some (m, True)
     }
   }"

definition rec_context_get_ubatch :: "llama_memory_recurrent_context \<Rightarrow> llama_ubatch option" where
  "rec_context_get_ubatch rc = do {
     require (rc_status rc = LLAMA_MEMORY_STATUS_SUCCESS \<and> rc_i_next rc < length (rc_ubatches rc));
     Some (rc_ubatches rc ! rc_i_next rc)
   }"

definition get_n_rs :: "llama_memory_recurrent_context \<Rightarrow> llama_memory_recurrent \<Rightarrow> nat" where
  "get_n_rs rc m = (if rc_is_full rc then rs_size m else unat (rs_n m))"

definition get_head :: "llama_memory_recurrent_context \<Rightarrow> llama_memory_recurrent \<Rightarrow> nat" where
  "get_head rc m = (if rc_is_full rc then 0 else rs_head m)"

definition get_rs_z :: "llama_memory_recurrent_context \<Rightarrow> llama_memory_recurrent \<Rightarrow> int" where
  "get_rs_z rc m = (if rc_is_full rc then 0 else rs_z m)"

definition s_copy :: "nat \<Rightarrow> llama_memory_recurrent \<Rightarrow> int option" where
  "s_copy i m = (if i + rs_head m < length (rs_cells m) then Some (mc_src0 (rs_cells m ! (i + rs_head m))) else None)"

section \<open>The graph\<close>

text \<open>
  \<^verbatim>\<open>set_input\<close> of \<^verbatim>\<open>llm_graph_input_rs\<close> and \<^verbatim>\<open>build_rs\<close> of \<^verbatim>\<open>src/llama-graph.cpp\<close>, on the rows of one state
  tensor.  \<open>scale0\<close> is what \<^verbatim>\<open>ggml_scale_inplace\<close> with factor 0 does to a row.  The result is the rows the model
  reads as the states of the sequence sets, and the tensor.  \<open>store_rows_at\<close> is how the model writes the new
  states back (\<^verbatim>\<open>build_rwkv_token_shift_store\<close> and the copies of the Mamba graphs).
\<close>

definition rs_set_input :: "llama_memory_recurrent_context \<Rightarrow> llama_memory_recurrent \<Rightarrow> int list option" where
  "rs_set_input rc m = those (map (\<lambda>i. s_copy i m) [0..<get_n_rs rc m])"

definition get_rows :: "'row list \<Rightarrow> int list \<Rightarrow> 'row list option" where
  "get_rows rows idx = those (map (\<lambda>i. if 0 \<le> i \<and> nat i < length rows then Some (rows ! nat i) else None) idx)"

definition store_rows_at :: "nat \<Rightarrow> 'row list \<Rightarrow> 'row list \<Rightarrow> 'row list" where
  "store_rows_at offset new rows = take offset rows @ new @ drop (offset + length new) rows"

definition build_rs :: "('row \<Rightarrow> 'row) \<Rightarrow> int list \<Rightarrow> nat \<Rightarrow> llama_memory_recurrent_context \<Rightarrow> llama_memory_recurrent \<Rightarrow> 'row list \<Rightarrow>
    ('row list \<times> 'row list) option" where
  "build_rs scale0 copies n_seqs rc m states = do {
     let z = get_rs_z rc m;
     require (n_seqs \<le> length copies \<and> get_head rc m + length copies \<le> length states);
     states \<leftarrow> (if z \<ge> 0 then do {
         require (nat z < length states);
         Some (states[nat z := scale0 (states ! nat z)])
       } else Some states);
     output_states \<leftarrow> get_rows states (take n_seqs copies);
     states_extra \<leftarrow> get_rows states (drop n_seqs copies);
     Some (output_states, store_rows_at (get_head rc m + n_seqs) states_extra states)
   }"

text \<open>
  One ubatch through \<^verbatim>\<open>llama_context::process_ubatch\<close>: the memory context is applied, the inputs are set and
  the graph runs.  \<open>model\<close> is what the layers compute from the states of the sequence sets.
\<close>

definition rec_forward :: "('row \<Rightarrow> 'row) \<Rightarrow> ('row list \<Rightarrow> 'row list) \<Rightarrow> llama_memory_recurrent_context \<Rightarrow> llama_memory_recurrent \<Rightarrow> 'row list \<Rightarrow>
    (llama_memory_recurrent \<times> 'row list \<times> 'row list) option" where
  "rec_forward scale0 model rc m states = do {
     ubatch \<leftarrow> rec_context_get_ubatch rc;
     (m, _) \<leftarrow> rec_context_apply rc m;
     copies \<leftarrow> rs_set_input rc m;
     (output_states, states) \<leftarrow> build_rs scale0 copies (u_n_seqs ubatch) rc m states;
     Some (m, output_states, store_rows_at (get_head rc m) (model output_states) states)
   }"

end
