(* ===== verification/Rec_State.thy ===== *)
theory Rec_State
  imports Recurrent
begin

text \<open>
  Saving and restoring the recurrent memory: \<^verbatim>\<open>state_write\<close> and \<^verbatim>\<open>state_read\<close> of
  \<^verbatim>\<open>src/llama-memory-recurrent.cpp\<close>.  One row of the R and S tensors is the state of one cell.  The
  branches for a transposed S tensor are there although \<^verbatim>\<open>s_trans\<close> is always 0.
\<close>

section \<open>Sizes\<close>

definition r_size_row :: "traits \<Rightarrow> llama_memory_recurrent \<Rightarrow> int \<Rightarrow> nat option" where
  "r_size_row tt m ty = do {
     n \<leftarrow> n_embd_r (rs_hparams m);
     ggml_row_size tt ty (unat n)
   }"

definition s_size_row :: "traits \<Rightarrow> llama_memory_recurrent \<Rightarrow> int \<Rightarrow> nat option" where
  "s_size_row tt m ty = do {
     n \<leftarrow> n_embd_s (rs_hparams m);
     ggml_row_size tt ty (unat n)
   }"

definition size_r_bytes :: "llama_memory_recurrent \<Rightarrow> nat" where
  "size_r_bytes m = fold (\<lambda>r n. case r of None \<Rightarrow> n | Some (ty, t) \<Rightarrow> n + length t) (rs_r_l m) 0"

definition size_s_bytes :: "llama_memory_recurrent \<Rightarrow> nat" where
  "size_s_bytes m = fold (\<lambda>s n. case s of None \<Rightarrow> n | Some (ty, t) \<Rightarrow> n + length t) (rs_s_l m) 0"

section \<open>Writing\<close>

definition rec_saved :: "llama_seq_id \<Rightarrow> mem_cell \<Rightarrow> bool" where
  "rec_saved seq_id c \<longleftrightarrow> seq_id = -1 \<and> \<not> mc_is_empty c \<or> has_seq_id seq_id c"

definition rec_range_step :: "llama_seq_id \<Rightarrow> mem_cell list \<Rightarrow> nat \<Rightarrow> nat \<times> nat \<times> (nat \<times> nat) list \<Rightarrow> nat \<times> nat \<times> (nat \<times> nat) list" where
  "rec_range_step seq_id cells i = (\<lambda>(cell_count, range_begin, data).
     if rec_saved seq_id (cells ! i) then (cell_count + 1, if range_begin = length cells then i else range_begin, data)
     else if range_begin \<noteq> length cells then (cell_count, length cells, data @ [(range_begin, i)])
     else (cell_count, range_begin, data))"

definition rec_ranges :: "llama_seq_id \<Rightarrow> mem_cell list \<Rightarrow> (nat \<times> (nat \<times> nat) list) option" where
  "rec_ranges seq_id cells = do {
     let (cell_count, range_begin, data) = fold (rec_range_step seq_id cells) [0..<length cells] (0, length cells, []);
     let data = (if range_begin \<noteq> length cells then data @ [(range_begin, length cells)] else data);
     require (cell_count = sum_list (map (\<lambda>r. snd r - fst r) data));
     Some (cell_count, data)
   }"

text \<open>\<^verbatim>\<open>std::set\<close> is traversed in increasing order.\<close>

definition rec_write_cell :: "llama_seq_id \<Rightarrow> mem_cell \<Rightarrow> byte list list" where
  "rec_write_cell seq_id c =
     (let n_seq_id = (if seq_id = -1 then card (mc_seq_id c) else 0)
      in [put_i32 (mc_pos c), put_u32 n_seq_id] @ (if n_seq_id \<noteq> 0 then map put_i32 (sorted_list_of_set (mc_seq_id c)) else []))"

definition rec_write_meta :: "(nat \<times> nat) list \<Rightarrow> llama_seq_id \<Rightarrow> mem_cell list \<Rightarrow> byte list list" where
  "rec_write_meta data seq_id cells = concat (concat (map (\<lambda>r. map (\<lambda>i. rec_write_cell seq_id (cells ! i)) [fst r..<snd r]) data))"

definition rec_write_layer :: "(int \<Rightarrow> nat option) \<Rightarrow> (nat \<times> nat) list \<Rightarrow> rs_tensor option \<Rightarrow> byte list list option" where
  "rec_write_layer size_row data l = (case l of None \<Rightarrow> Some [] | Some (ty, t) \<Rightarrow> do {
     row \<leftarrow> size_row ty;
     rows \<leftarrow> write_rows (\<lambda>i. i * row) row data t;
     Some ([put_i32 ty, put_u64 row] @ rows)
   })"

definition rec_write_st_layer :: "traits \<Rightarrow> (nat \<times> nat) list \<Rightarrow> llama_memory_recurrent \<Rightarrow> rs_tensor option \<Rightarrow> byte list list option" where
  "rec_write_st_layer tt data m l = (case l of None \<Rightarrow> Some [] | Some (ty, t) \<Rightarrow> do {
     n \<leftarrow> n_embd_s (rs_hparams m);
     let el = ggml_type_size tt ty;
     rows \<leftarrow> those (map (\<lambda>j. write_rows (\<lambda>i. to_u32 ((i + j * rs_size m) * el)) el data t) [0..<unat n]);
     Some ([put_i32 ty, put_u32 el, put_u32 (unat n)] @ concat rows)
   })"

definition rec_write_data :: "traits \<Rightarrow> (nat \<times> nat) list \<Rightarrow> llama_memory_recurrent \<Rightarrow> byte list list option" where
  "rec_write_data tt data m = do {
     let s_trans = (0 :: nat);
     let n_layer = hp_n_layer (rs_hparams m);
     rs \<leftarrow> those (map (\<lambda>il. rec_write_layer (r_size_row tt m) data (rs_r_l m ! il)) [0..<n_layer]);
     ss \<leftarrow> those (map (\<lambda>il. if s_trans = 0 then rec_write_layer (s_size_row tt m) data (rs_s_l m ! il)
        else rec_write_st_layer tt data m (rs_s_l m ! il)) [0..<n_layer]);
     Some ([put_u32 s_trans, put_u32 n_layer] @ concat rs @ concat ss)
   }"

definition rec_state_write :: "traits \<Rightarrow> llama_seq_id \<Rightarrow> llama_memory_recurrent \<Rightarrow> byte list list option" where
  "rec_state_write tt seq_id m = do {
     (cell_count, data) \<leftarrow> rec_ranges seq_id (rs_cells m);
     rows \<leftarrow> rec_write_data tt data m;
     Some ([put_u32 cell_count] @ rec_write_meta data seq_id (rs_cells m) @ rows)
   }"

section \<open>Reading\<close>

definition io_rec :: "(llama_memory_recurrent \<Rightarrow> llama_memory_recurrent option) \<Rightarrow> (llama_memory_recurrent, unit) io" where
  "io_rec f = io_run (\<lambda>m. map_option (\<lambda>m'. ((), m')) (f m))"

text \<open>The positions of the cells of one sequence; \<^term>\<open>None\<close> is \<^verbatim>\<open>return false\<close>.\<close>

fun rec_read_positions :: "nat \<Rightarrow> llama_pos list \<Rightarrow> (llama_memory_recurrent, llama_pos list option) io" where
  "rec_read_positions 0 ps = io_return (Some ps)"
| "rec_read_positions (Suc n) ps =
     io_bind io_i32 (\<lambda>pos. io_bind io_u32 (\<lambda>n_seq_id.
       if n_seq_id \<noteq> 0 then io_return None else rec_read_positions n (ps @ [pos])))"

definition rec_restore_ubatch :: "llama_memory_recurrent \<Rightarrow> llama_seq_id \<Rightarrow> llama_pos list \<Rightarrow> llama_ubatch" where
  "rec_restore_ubatch m dest ps =
     (let u = snd (ubatch_reserve (length ps) 1 (allocr_new (n_pos_per_embd (rs_hparams m))))
      in u\<lparr>u_pos := ps, u_n_seq_id := (u_n_seq_id u)[0 := 1], u_seq_id := (u_seq_id u)[0 := [dest]]\<rparr>)"

text \<open>The debug check: the sums of head and count are 32-bit.\<close>

definition rec_check_restored :: "nat \<Rightarrow> llama_ubatch \<Rightarrow> llama_seq_id \<Rightarrow> llama_memory_recurrent \<Rightarrow> llama_memory_recurrent option" where
  "rec_check_restored cell_count u dest m = do {
     let end = (word_of_nat (rs_head m) + word_of_nat cell_count :: u32);
     let last = unat (end - 1);
     require (unat end \<le> rs_size m);
     require (rs_head m < length (rs_cells m) \<and> mc_pos (rs_cells m ! rs_head m) = u_pos u ! 0);
     require (last < length (rs_cells m) \<and> mc_pos (rs_cells m ! last) = u_pos u ! (cell_count - 1));
     require (has_seq_id dest (rs_cells m ! rs_head m));
     require (has_seq_id dest (rs_cells m ! last));
     Some m
   }"

text \<open>\<^verbatim>\<open>find_slot\<close> with its result, and the change of the memory it makes in either case.\<close>

definition io_find_slot :: "llama_ubatch \<Rightarrow> (llama_memory_recurrent, bool) io" where
  "io_find_slot u = io_run (\<lambda>m. map_option (\<lambda>(m', ok). (ok, m')) (rec_find_slot u m))"

text \<open>Make sure the recurrent states will keep their restored state.\<close>

definition keep_src :: "nat \<Rightarrow> llama_memory_recurrent \<Rightarrow> llama_memory_recurrent option" where
  "keep_src cell_count m = do {
     cells \<leftarrow> for_loop (\<lambda>i cells. do {
         let cell_id = unat (word_of_nat (rs_head m) + word_of_nat i :: u32);
         require (cell_id < length cells);
         Some (cells[cell_id := (cells ! cell_id)\<lparr>mc_src := int cell_id\<rparr>])
       }) [0..<cell_count] (rs_cells m);
     Some (m\<lparr>rs_cells := cells\<rparr>)
   }"

definition rec_read_meta_seq :: "nat \<Rightarrow> llama_seq_id \<Rightarrow> (llama_memory_recurrent, bool) io" where
  "rec_read_meta_seq cell_count dest =
     io_bind (io_rec (\<lambda>m. map_option fst (rec_seq_rm dest (-1) (-1) m))) (\<lambda>_.
     if cell_count = 0 then io_return True
     else
       io_bind (rec_read_positions cell_count []) (\<lambda>r. case r of
         None \<Rightarrow> io_return False
       | Some ps \<Rightarrow> io_bind io_get (\<lambda>m. let u = rec_restore_ubatch m dest ps in
           io_bind (io_find_slot u) (\<lambda>ok.
             if \<not> ok then io_return False
             else
               io_bind (io_rec (rec_check_restored cell_count u dest)) (\<lambda>_.
               io_bind (io_rec (keep_src cell_count)) (\<lambda>_. io_return True))))))"

text \<open>One sequence id of cell \<open>i\<close> of a whole restore.\<close>

definition rec_read_id :: "nat \<Rightarrow> (llama_memory_recurrent, bool) io" where
  "rec_read_id i =
     io_bind io_i32 (\<lambda>seq_id.
       if seq_id < 0 then io_return False
       else
         io_bind (io_rec (\<lambda>m. Some (m\<lparr>rs_cells := mc_upd (int i) (\<lambda>c. c\<lparr>mc_seq_id := insert seq_id (mc_seq_id c)\<rparr>) (rs_cells m)\<rparr>))) (\<lambda>_.
         io_bind (io_run (\<lambda>m. do { require (rec_valid seq_id (rs_cells m)); Some (mc_tail (rs_cells m ! nat seq_id), m) })) (\<lambda>tail.
           if tail \<noteq> -1 then io_return False
           else io_bind (io_rec (\<lambda>m. Some (m\<lparr>rs_cells := mc_upd seq_id (\<lambda>c. c\<lparr>mc_tail := int i\<rparr>) (rs_cells m)\<rparr>))) (\<lambda>_. io_return True))))"

definition rec_read_cell :: "nat \<Rightarrow> (llama_memory_recurrent, bool) io" where
  "rec_read_cell i =
     io_bind io_i32 (\<lambda>pos. io_bind io_u32 (\<lambda>n_seq_id.
     io_bind (io_rec (\<lambda>m. Some (m\<lparr>rs_cells := mc_upd (int i) (\<lambda>c. c\<lparr>mc_pos := pos\<rparr>) (rs_cells m)\<rparr>))) (\<lambda>_.
     io_for (\<lambda>j. rec_read_id i) [0..<n_seq_id])))"

definition rec_read_meta_all :: "nat \<Rightarrow> (llama_memory_recurrent, bool) io" where
  "rec_read_meta_all cell_count =
     io_bind io_get (\<lambda>m.
       if cell_count > rs_size m then io_return False
       else
         io_bind (io_rec (\<lambda>m. Some (rec_clear True m))) (\<lambda>_.
         io_bind (io_for rec_read_cell [0..<cell_count]) (\<lambda>ok.
           if \<not> ok then io_return False
           else
             io_bind (io_rec (\<lambda>m. Some (m\<lparr>rs_head := 0, rs_used := word_of_nat cell_count\<rparr>))) (\<lambda>_.
             io_bind (io_rec (keep_src cell_count)) (\<lambda>_. io_return True)))))"

definition rec_read_meta :: "nat \<Rightarrow> llama_seq_id \<Rightarrow> (llama_memory_recurrent, bool) io" where
  "rec_read_meta cell_count dest = (if dest \<noteq> -1 then rec_read_meta_seq cell_count dest else rec_read_meta_all cell_count)"

text \<open>
  The loops over the R and the S tensors have the same body; \<open>get\<close> and \<open>put\<close> are the access to the list of
  tensors it works on.
\<close>

definition set_layer :: "(llama_memory_recurrent \<Rightarrow> rs_tensor option list) \<Rightarrow> (rs_tensor option list \<Rightarrow> llama_memory_recurrent \<Rightarrow> llama_memory_recurrent) \<Rightarrow>
    nat \<Rightarrow> (byte list \<Rightarrow> byte list option) \<Rightarrow> (llama_memory_recurrent, unit) io" where
  "set_layer get put il f = io_rec (\<lambda>m. case get m ! il of None \<Rightarrow> Some m
     | Some (ty, t) \<Rightarrow> map_option (\<lambda>t'. put ((get m)[il := Some (ty, t')]) m) (f t))"

definition rec_read_layer :: "(llama_memory_recurrent \<Rightarrow> rs_tensor option list) \<Rightarrow> (rs_tensor option list \<Rightarrow> llama_memory_recurrent \<Rightarrow> llama_memory_recurrent) \<Rightarrow>
    (llama_memory_recurrent \<Rightarrow> int \<Rightarrow> nat option) \<Rightarrow> nat \<Rightarrow> nat \<Rightarrow> (llama_memory_recurrent, bool) io" where
  "rec_read_layer get put size_row cell_count il =
     io_bind io_get (\<lambda>m. case get m ! il of None \<Rightarrow> io_return True | Some (ty, t) \<Rightarrow>
     io_bind io_i32 (\<lambda>type_ref. if ty \<noteq> type_ref then io_return False else
     io_bind io_u64 (\<lambda>row_ref. io_bind (io_opt (size_row m ty)) (\<lambda>row. if row \<noteq> row_ref then io_return False else
     if cell_count = 0 then io_return True else
     io_bind (io_read (cell_count * row)) (\<lambda>src.
     io_bind (set_layer get put il (tensor_set (rs_head m * row) src)) (\<lambda>_. io_return True))))))"

definition put_r :: "rs_tensor option list \<Rightarrow> llama_memory_recurrent \<Rightarrow> llama_memory_recurrent" where
  "put_r ls m = m\<lparr>rs_r_l := ls\<rparr>"

definition put_s :: "rs_tensor option list \<Rightarrow> llama_memory_recurrent \<Rightarrow> llama_memory_recurrent" where
  "put_s ls m = m\<lparr>rs_s_l := ls\<rparr>"

definition rec_read_r_layer :: "traits \<Rightarrow> nat \<Rightarrow> nat \<Rightarrow> (llama_memory_recurrent, bool) io" where
  "rec_read_r_layer tt = rec_read_layer rs_r_l put_r (r_size_row tt)"

definition rec_read_s_layer :: "traits \<Rightarrow> nat \<Rightarrow> nat \<Rightarrow> (llama_memory_recurrent, bool) io" where
  "rec_read_s_layer tt = rec_read_layer rs_s_l put_s (s_size_row tt)"

definition rec_read_st_layer :: "traits \<Rightarrow> nat \<Rightarrow> nat \<Rightarrow> (llama_memory_recurrent, bool) io" where
  "rec_read_st_layer tt cell_count il =
     io_bind io_get (\<lambda>m. case rs_s_l m ! il of None \<Rightarrow> io_return True | Some (ty, t) \<Rightarrow>
     io_bind io_i32 (\<lambda>s_type_ref. if ty \<noteq> s_type_ref then io_return False else
     io_bind io_u32 (\<lambda>el_ref. let el = ggml_type_size tt ty in if el \<noteq> el_ref then io_return False else
     io_bind io_u32 (\<lambda>n_ref. io_bind (io_opt (n_embd_s (rs_hparams m))) (\<lambda>n. if unat n \<noteq> n_ref then io_return False else
     if cell_count = 0 then io_return True else
     io_for (\<lambda>j. io_bind (io_read (cell_count * el)) (\<lambda>src.
       io_bind (set_layer rs_s_l put_s il (tensor_set (to_u32 (rs_head m + j * rs_size m) * el) src)) (\<lambda>_. io_return True))) [0..<unat n])))))"

definition rec_read_data :: "traits \<Rightarrow> nat \<Rightarrow> (llama_memory_recurrent, bool) io" where
  "rec_read_data tt cell_count =
     io_bind io_u32 (\<lambda>s_trans. io_bind io_u32 (\<lambda>n_layer. io_bind io_get (\<lambda>m.
       if n_layer \<noteq> hp_n_layer (rs_hparams m) then io_return False
       else if cell_count > rs_size m then io_return False
       else if s_trans \<noteq> 0 then io_return False
       else
         io_bind (io_for (rec_read_r_layer tt cell_count) [0..<n_layer]) (\<lambda>ok.
           if \<not> ok then io_return False
           else if s_trans = 0 then io_for (rec_read_s_layer tt cell_count) [0..<n_layer]
           else io_for (rec_read_st_layer tt cell_count) [0..<n_layer]))))"

definition rec_state_read :: "traits \<Rightarrow> llama_seq_id \<Rightarrow> (llama_memory_recurrent, unit) io" where
  "rec_state_read tt seq_id =
     io_bind io_u32 (\<lambda>cell_count.
     io_bind (rec_read_meta cell_count seq_id) (\<lambda>res.
     io_bind (if res then rec_read_data tt cell_count else io_return False) (\<lambda>res.
       if res then io_return ()
       else
         io_bind (io_rec (\<lambda>m. if seq_id = -1 then Some (rec_clear True m) else map_option fst (rec_seq_rm seq_id (-1) (-1) m))) (\<lambda>_.
         io_throw Failed_restore))))"

end
