(* ===== verification/Rec_Ops.thy ===== *)
theory Rec_Ops
  imports Recurrent
begin

text \<open>
  The sequence operations of the recurrent memory.  The invariant \<open>rec_ok\<close> is what the debug check in
  \<^verbatim>\<open>find_slot\<close> looks for, that the tails and the sequence sets say the same thing, together with the count of
  used cells and the place of the states.  \<open>rec_at\<close> is the memory as a table: the position and the state
  row of every sequence.  Each operation keeps the invariant and is an update of the table.
\<close>

section \<open>Reading cells\<close>

abbreviation tl_of :: "mem_cell list \<Rightarrow> int \<Rightarrow> int" where
  "tl_of C q \<equiv> mc_tail (C ! nat q)"

abbreviation sq_of :: "mem_cell list \<Rightarrow> int \<Rightarrow> int set" where
  "sq_of C i \<equiv> mc_seq_id (C ! nat i)"

abbreviation sr_of :: "mem_cell list \<Rightarrow> int \<Rightarrow> int" where
  "sr_of C i \<equiv> mc_src (C ! nat i)"

abbreviation ps_of :: "mem_cell list \<Rightarrow> int \<Rightarrow> int" where
  "ps_of C i \<equiv> mc_pos (C ! nat i)"

abbreviation ids :: "mem_cell list \<Rightarrow> int set" where
  "ids C \<equiv> {0..<int (length C)}"

definition cells_ok :: "mem_cell list \<Rightarrow> bool" where
  "cells_ok C \<longleftrightarrow>
     (\<forall>q \<in> ids C. tl_of C q = -1 \<or> tl_of C q \<in> ids C) \<and>
     (\<forall>i \<in> ids C. sq_of C i \<subseteq> ids C) \<and>
     (\<forall>i \<in> ids C. \<forall>q \<in> ids C. q \<in> sq_of C i \<longleftrightarrow> tl_of C q = i) \<and>
     (\<forall>i \<in> ids C. sr_of C i = -1 \<or> sr_of C i = i) \<and>
     (\<forall>i \<in> ids C. if sq_of C i = {} then ps_of C i = -1 else 0 \<le> ps_of C i \<and> sr_of C i = i)"

definition busy :: "mem_cell list \<Rightarrow> nat set" where
  "busy C = {i. i < length C \<and> mc_seq_id (C ! i) \<noteq> {}}"

definition rec_ok :: "llama_memory_recurrent \<Rightarrow> bool" where
  "rec_ok m \<longleftrightarrow> 0 < rs_size m \<and> rs_size m < 2 ^ 30 \<and> rs_head m < rs_size m \<and> length (rs_cells m) = rs_size m \<and>
     cells_ok (rs_cells m) \<and> rs_used m = word_of_nat (card (busy (rs_cells m)))"

definition rec_at :: "mem_cell list \<Rightarrow> llama_seq_id \<Rightarrow> (llama_pos \<times> int) option" where
  "rec_at C q = (if q \<in> ids C \<and> tl_of C q \<noteq> -1 then Some (ps_of C (tl_of C q), tl_of C q) else None)"

lemma rec_valid_ids [simp]: "rec_valid i C \<longleftrightarrow> i \<in> ids C"
  by (auto simp: rec_valid_def)

lemma finite_busy [simp]: "finite (busy C)"
  by (simp add: busy_def)

lemma mc_upd_length [simp]: "length (mc_upd i f C) = length C"
  by (simp add: mc_upd_def)

lemma mc_upd_nth: "i \<in> ids C \<Longrightarrow> j \<in> ids C \<Longrightarrow> mc_upd i f C ! nat j = (if j = i then f (C ! nat i) else C ! nat j)"
  by (auto simp: mc_upd_def nth_list_update)

lemma cells_okD:
  assumes "cells_ok C"
  shows "q \<in> ids C \<Longrightarrow> tl_of C q = -1 \<or> tl_of C q \<in> ids C"
    "i \<in> ids C \<Longrightarrow> sq_of C i \<subseteq> ids C"
    "i \<in> ids C \<Longrightarrow> q \<in> ids C \<Longrightarrow> q \<in> sq_of C i \<longleftrightarrow> tl_of C q = i"
    "i \<in> ids C \<Longrightarrow> sr_of C i = -1 \<or> sr_of C i = i"
    "i \<in> ids C \<Longrightarrow> sq_of C i = {} \<Longrightarrow> ps_of C i = -1"
    "i \<in> ids C \<Longrightarrow> sq_of C i \<noteq> {} \<Longrightarrow> 0 \<le> ps_of C i \<and> sr_of C i = i"
proof -
  note ok = assms[unfolded cells_ok_def]
  show "q \<in> ids C \<Longrightarrow> tl_of C q = -1 \<or> tl_of C q \<in> ids C" "i \<in> ids C \<Longrightarrow> sq_of C i \<subseteq> ids C"
    "i \<in> ids C \<Longrightarrow> q \<in> ids C \<Longrightarrow> q \<in> sq_of C i \<longleftrightarrow> tl_of C q = i" "i \<in> ids C \<Longrightarrow> sr_of C i = -1 \<or> sr_of C i = i"
    using ok by blast+
  have e: "i \<in> ids C \<Longrightarrow> if sq_of C i = {} then ps_of C i = -1 else 0 \<le> ps_of C i \<and> sr_of C i = i"
    using ok by blast
  show "i \<in> ids C \<Longrightarrow> sq_of C i = {} \<Longrightarrow> ps_of C i = -1" "i \<in> ids C \<Longrightarrow> sq_of C i \<noteq> {} \<Longrightarrow> 0 \<le> ps_of C i \<and> sr_of C i = i"
    by (drule e, simp)+
qed

lemma cells_okI:
  assumes "\<And>q. q \<in> ids C \<Longrightarrow> tl_of C q = -1 \<or> tl_of C q \<in> ids C"
    and "\<And>i q. i \<in> ids C \<Longrightarrow> q \<in> sq_of C i \<Longrightarrow> q \<in> ids C \<and> tl_of C q = i"
    and "\<And>q. q \<in> ids C \<Longrightarrow> tl_of C q \<noteq> -1 \<Longrightarrow> q \<in> sq_of C (tl_of C q)"
    and "\<And>i. i \<in> ids C \<Longrightarrow> sr_of C i = -1 \<or> sr_of C i = i"
    and "\<And>i. i \<in> ids C \<Longrightarrow> sq_of C i = {} \<Longrightarrow> ps_of C i = -1"
    and "\<And>i. i \<in> ids C \<Longrightarrow> sq_of C i \<noteq> {} \<Longrightarrow> 0 \<le> ps_of C i \<and> sr_of C i = i"
  shows "cells_ok C"
proof -
  have "q \<in> sq_of C i \<longleftrightarrow> tl_of C q = i" if "i \<in> ids C" "q \<in> ids C" for i q
  proof
    assume "q \<in> sq_of C i"
    then show "tl_of C q = i" using assms(2)[OF that(1)] by blast
  next
    assume t: "tl_of C q = i"
    then have "tl_of C q \<noteq> -1" using that(1) by auto
    then show "q \<in> sq_of C i" using assms(3)[OF that(2)] t by simp
  qed
  then have "\<forall>i \<in> ids C. \<forall>q \<in> ids C. q \<in> sq_of C i \<longleftrightarrow> tl_of C q = i" by blast
  moreover have "\<forall>q \<in> ids C. tl_of C q = -1 \<or> tl_of C q \<in> ids C" using assms(1) by blast
  moreover have "\<forall>i \<in> ids C. sq_of C i \<subseteq> ids C" using assms(2) by blast
  moreover have "\<forall>i \<in> ids C. sr_of C i = -1 \<or> sr_of C i = i" using assms(4) by blast
  moreover have "\<forall>i \<in> ids C. if sq_of C i = {} then ps_of C i = -1 else 0 \<le> ps_of C i \<and> sr_of C i = i"
    by (rule ballI, case_tac "sq_of C i = {}") (use assms(5,6) in simp_all)
  ultimately show ?thesis unfolding cells_ok_def by (intro conjI)
qed

lemma rec_okD:
  assumes "rec_ok m"
  shows "0 < rs_size m" "rs_size m < 2 ^ 30" "rs_head m < rs_size m" "length (rs_cells m) = rs_size m"
    "cells_ok (rs_cells m)" "rs_used m = word_of_nat (card (busy (rs_cells m)))"
  using assms by (auto simp: rec_ok_def)

lemma tail_mem: "cells_ok C \<Longrightarrow> q \<in> ids C \<Longrightarrow> tl_of C q \<noteq> -1 \<Longrightarrow> tl_of C q \<in> ids C \<and> q \<in> sq_of C (tl_of C q)"
  using cells_okD(1,3) by metis

text \<open>Counting on words: the used cells after some of them are freed.\<close>

lemma used_minus:
  assumes "finite B" "F \<subseteq> B"
  shows "word_of_nat (card B) - word_of_nat (card F) = (word_of_nat (card (B - F)) :: u32)"
  using assms by (simp add: card_Diff_subset finite_subset card_mono of_nat_diff)

text \<open>Rows of empty cells that still name themselves as source: they hold a cleared state.\<close>

definition fresh :: "mem_cell list \<Rightarrow> int set" where
  "fresh C = {i \<in> ids C. sq_of C i = {} \<and> sr_of C i = i}"

text \<open>What the operations promise: the invariant, the new table, and no new rows that count as cleared.\<close>

definition becomes :: "mem_cell list \<Rightarrow> (llama_seq_id \<Rightarrow> (llama_pos \<times> int) option) \<Rightarrow> mem_cell list \<Rightarrow> bool" where
  "becomes C f C' \<longleftrightarrow> cells_ok C' \<and> length C' = length C \<and> fresh C' \<subseteq> fresh C \<and> rec_at C' = f"

lemma rec_at_eqI:
  assumes "length C' = length C"
    and "\<And>q. q \<in> ids C \<Longrightarrow> tl_of C' q = -1 \<or> tl_of C' q \<noteq> -1 \<and> ps_of C' (tl_of C' q) = ps_of C (tl_of C' q)"
  shows "rec_at C' = (\<lambda>q. if q \<in> ids C \<and> tl_of C' q \<noteq> -1 then Some (ps_of C (tl_of C' q), tl_of C' q) else None)"
  using assms by (auto simp: rec_at_def fun_eq_iff)

section \<open>Leaving a cell\<close>

lemma leave_cell_fields:
  assumes "cells_ok C" "q \<in> ids C" "tl_of C q \<noteq> -1"
  defines "t \<equiv> tl_of C q"
  obtains C' where "leave_cell q (C, used) = Some (C', if sq_of C t = {q} then used - 1 else used)" "length C' = length C"
    "\<And>j. j \<in> ids C \<Longrightarrow> tl_of C' j = (if j = q then -1 else tl_of C j)"
    "\<And>j. j \<in> ids C \<Longrightarrow> sq_of C' j = (if j = t then sq_of C j - {q} else sq_of C j)"
    "\<And>j. j \<in> ids C \<Longrightarrow> ps_of C' j = (if j = t \<and> sq_of C t = {q} then -1 else ps_of C j)"
    "\<And>j. j \<in> ids C \<Longrightarrow> sr_of C' j = (if j = t \<and> sq_of C t = {q} then -1 else sr_of C j)"
proof -
  have t: "t \<in> ids C" "q \<in> sq_of C t" "t \<ge> 0" using tail_mem[OF assms(1-3)] by (auto simp: t_def)
  let ?C1 = "mc_upd q (\<lambda>c. c\<lparr>mc_tail := -1\<rparr>) (mc_upd t (\<lambda>c. c\<lparr>mc_seq_id := mc_seq_id c - {q}\<rparr>) C)"
  let ?C2 = "mc_upd t (\<lambda>c. c\<lparr>mc_pos := -1, mc_src := -1\<rparr>) ?C1"
  have e: "mc_is_empty (?C1 ! nat t) \<longleftrightarrow> sq_of C t = {q}" using t assms(2) by (auto simp: mc_is_empty_def mc_upd_nth)
  have run: "leave_cell q (C, used) = Some (if sq_of C t = {q} then (?C2, used - 1) else (?C1, used))"
    unfolding leave_cell_def using t e by (simp add: Let_def flip: t_def)
  show ?thesis
    by (rule that[of "if sq_of C t = {q} then ?C2 else ?C1"]) (use t assms(2) run in \<open>auto simp: mc_upd_nth\<close>)
qed

lemma busy_iff: "i \<in> busy C \<longleftrightarrow> int i \<in> ids C \<and> sq_of C (int i) \<noteq> {}"
  by (auto simp: busy_def)

lemma leave_cell_ok:
  assumes ok: "cells_ok C" and q: "q \<in> ids C"
  obtains C' used' where "leave_cell q (C, used) = Some (C', used')" "becomes C ((rec_at C)(q := None)) C'"
    "used = word_of_nat (card (busy C)) \<Longrightarrow> used' = word_of_nat (card (busy C'))" "tl_of C' q = -1"
proof (cases "tl_of C q = -1")
  case True
  then have "leave_cell q (C, used) = Some (C, used)" by (simp add: leave_cell_def)
  moreover have "becomes C ((rec_at C)(q := None)) C" using ok True by (auto simp: becomes_def rec_at_def)
  ultimately show ?thesis using that True by blast
next
  case False
  define t where "t = tl_of C q"
  have t: "t \<in> ids C" "q \<in> sq_of C t" using tail_mem[OF ok q False] by (auto simp: t_def)
  obtain C' where run: "leave_cell q (C, used) = Some (C', if sq_of C t = {q} then used - 1 else used)" and len: "length C' = length C"
    and tl: "\<And>j. j \<in> ids C \<Longrightarrow> tl_of C' j = (if j = q then -1 else tl_of C j)"
    and sq: "\<And>j. j \<in> ids C \<Longrightarrow> sq_of C' j = (if j = t then sq_of C j - {q} else sq_of C j)"
    and ps: "\<And>j. j \<in> ids C \<Longrightarrow> ps_of C' j = (if j = t \<and> sq_of C t = {q} then -1 else ps_of C j)"
    and sr: "\<And>j. j \<in> ids C \<Longrightarrow> sr_of C' j = (if j = t \<and> sq_of C t = {q} then -1 else sr_of C j)"
    using leave_cell_fields[OF ok q False, of used] unfolding t_def by blast
  have own: "tl_of C j \<noteq> t" if "j \<in> ids C" "sq_of C t = {q}" "j \<noteq> q" for j
    using that t cells_okD(3)[OF ok t(1) that(1)] by auto
  have sub: "sq_of C t - {q} = {} \<longleftrightarrow> sq_of C t = {q}" using t(2) by blast
  have "cells_ok C'"
  proof (rule cells_okI)
    fix j assume "j \<in> ids C'"
    then have j: "j \<in> ids C" by (simp add: len)
    show "tl_of C' j = -1 \<or> tl_of C' j \<in> ids C'" using cells_okD(1)[OF ok j] by (simp add: tl[OF j] len)
    show "sr_of C' j = -1 \<or> sr_of C' j = j" using cells_okD(4)[OF ok j] by (simp add: sr[OF j])
    show "sq_of C' j = {} \<Longrightarrow> ps_of C' j = -1"
      using cells_okD(5)[OF ok j] sub j t by (cases "j = t") (auto simp: ps sq)
    show "sq_of C' j \<noteq> {} \<Longrightarrow> 0 \<le> ps_of C' j \<and> sr_of C' j = j"
      using cells_okD(6)[OF ok j] sub t by (cases "j = t") (use j in \<open>auto simp: ps sr sq\<close>)
    show "j' \<in> ids C' \<and> tl_of C' j' = j" if "j' \<in> sq_of C' j" for j'
    proof -
      have m: "j' \<in> sq_of C j" "j' = q \<longrightarrow> j \<noteq> t" using that by (auto simp: sq[OF j] split: if_splits)
      have j': "j' \<in> ids C" using cells_okD(2)[OF ok j] m by blast
      have "tl_of C j' = j" using cells_okD(3)[OF ok j j'] m by blast
      then show ?thesis using m j' by (auto simp: tl[OF j'] len t_def)
    qed
    show "tl_of C' j \<noteq> -1 \<Longrightarrow> j \<in> sq_of C' (tl_of C' j)"
      using tail_mem[OF ok j] by (auto simp: tl[OF j] sq split: if_splits)
  qed
  moreover have "fresh C' \<subseteq> fresh C" using t sub by (auto simp: fresh_def len sq sr split: if_splits)
  moreover have "rec_at C' = (rec_at C)(q := None)"
  proof
    fix j
    show "rec_at C' j = ((rec_at C)(q := None)) j"
    proof (cases "j \<in> ids C \<and> tl_of C' j \<noteq> -1")
      case True
      then have j: "j \<in> ids C" "j \<noteq> q" "tl_of C' j = tl_of C j" "tl_of C j \<noteq> -1" by (auto simp: tl split: if_splits)
      then have "ps_of C' (tl_of C j) = ps_of C (tl_of C j)" using tail_mem[OF ok j(1) j(4)] own[OF j(1)] j by (auto simp: ps)
      then show ?thesis using True j by (simp add: rec_at_def len)
    next
      case False
      then show ?thesis by (auto simp: rec_at_def len tl)
    qed
  qed
  ultimately have "becomes C ((rec_at C)(q := None)) C'" using len by (simp add: becomes_def)
  moreover have "(if sq_of C t = {q} then used - 1 else used) = word_of_nat (card (busy C'))" if "used = word_of_nat (card (busy C))"
  proof -
    have "busy C' = (if sq_of C t = {q} then busy C - {nat t} else busy C)"
    proof (rule set_eqI)
      fix i
      show "i \<in> busy C' \<longleftrightarrow> i \<in> (if sq_of C t = {q} then busy C - {nat t} else busy C)"
      proof (cases "int i = t")
        case True
        then have "i = nat t" by simp
        moreover have "sq_of C t \<noteq> {}" using t(2) by blast
        ultimately show ?thesis using t sub by (simp add: busy_iff len sq[OF t(1)])
      next
        case False
        then have "i \<noteq> nat t" using t by auto
        then show ?thesis using False by (cases "int i \<in> ids C") (simp_all add: busy_iff len sq del: nat_int)
      qed
    qed
    moreover have "{nat t} \<subseteq> busy C" using t by (auto simp: busy_def)
    ultimately show ?thesis using used_minus[of "busy C" "{nat t}"] that by simp
  qed
  ultimately show ?thesis using that[OF run] tl[OF q] by simp
qed

section \<open>Copying a sequence\<close>

lemma join_cell_ok:
  assumes ok: "cells_ok C" and q: "q \<in> ids C" "tl_of C q = -1" and s: "s \<in> ids C" "tl_of C s = t" "t \<noteq> -1"
  defines "C' \<equiv> mc_upd q (\<lambda>c. c\<lparr>mc_tail := t\<rparr>) (mc_upd t (\<lambda>c. c\<lparr>mc_seq_id := insert q (mc_seq_id c)\<rparr>) C)"
  shows "becomes C ((rec_at C)(q := rec_at C s)) C'" "busy C' = busy C"
proof -
  have t: "t \<in> ids C" "s \<in> sq_of C t" using tail_mem[OF ok s(1)] s by auto
  have len: "length C' = length C" by (simp add: C'_def)
  have tl: "tl_of C' j = (if j = q then t else tl_of C j)" and sq: "sq_of C' j = (if j = t then insert q (sq_of C j) else sq_of C j)"
    and ps: "ps_of C' j = ps_of C j" and sr: "sr_of C' j = sr_of C j" if "j \<in> ids C" for j
    using that t q by (auto simp: C'_def mc_upd_nth)
  have emp: "sq_of C' j = {} \<longleftrightarrow> sq_of C j = {}" if "j \<in> ids C" for j using that t(2) by (auto simp: sq)
  have "cells_ok C'"
  proof (rule cells_okI)
    fix j assume "j \<in> ids C'"
    then have j: "j \<in> ids C" by (simp add: len)
    show "tl_of C' j = -1 \<or> tl_of C' j \<in> ids C'" using cells_okD(1)[OF ok j] t by (simp add: tl[OF j] len)
    show "sr_of C' j = -1 \<or> sr_of C' j = j" using cells_okD(4)[OF ok j] by (simp add: sr[OF j])
    show "sq_of C' j = {} \<Longrightarrow> ps_of C' j = -1" using cells_okD(5)[OF ok j] by (simp add: ps[OF j] emp[OF j])
    show "sq_of C' j \<noteq> {} \<Longrightarrow> 0 \<le> ps_of C' j \<and> sr_of C' j = j" using cells_okD(6)[OF ok j] by (simp add: ps[OF j] sr[OF j] emp[OF j])
    show "j' \<in> ids C' \<and> tl_of C' j' = j" if "j' \<in> sq_of C' j" for j'
    proof (cases "j' \<in> sq_of C j")
      case True
      then have j': "j' \<in> ids C" using cells_okD(2)[OF ok j] by blast
      then have "tl_of C j' = j" "j' \<noteq> q" using cells_okD(3)[OF ok j j'] True q j by auto
      then show ?thesis using j' by (simp add: tl[OF j'] len)
    next
      case False
      then have "j' = q" "j = t" using that by (auto simp: sq[OF j] split: if_splits)
      then show ?thesis using q by (simp add: tl[OF q(1)] len)
    qed
    show "tl_of C' j \<noteq> -1 \<Longrightarrow> j \<in> sq_of C' (tl_of C' j)"
      using tail_mem[OF ok j] t by (auto simp: tl[OF j] sq split: if_splits)
  qed
  moreover have "fresh C' \<subseteq> fresh C" by (auto simp: fresh_def len emp sr)
  moreover have "rec_at C' = (rec_at C)(q := rec_at C s)"
    using tail_mem[OF ok] q s t by (auto simp: fun_eq_iff rec_at_def len tl ps split: if_splits)
  ultimately show "becomes C ((rec_at C)(q := rec_at C s)) C'" using len by (simp add: becomes_def)
  show "busy C' = busy C"
  proof (rule set_eqI)
    fix i
    show "i \<in> busy C' \<longleftrightarrow> i \<in> busy C" using emp[of "int i"] by (cases "int i \<in> ids C") (simp_all add: busy_iff len del: nat_int)
  qed
qed

lemma becomesD:
  assumes "becomes C f C'"
  shows "cells_ok C'" "length C' = length C" "fresh C' \<subseteq> fresh C" "rec_at C' = f"
  using assms by (auto simp: becomes_def)

lemma becomes_trans: "becomes C f C' \<Longrightarrow> becomes C' g C'' \<Longrightarrow> becomes C g C''"
  by (auto simp: becomes_def)

lemma rec_at_tail: "q \<in> ids C \<Longrightarrow> tl_of C q = (case rec_at C q of None \<Rightarrow> -1 | Some (p, t) \<Rightarrow> t)"
  by (simp add: rec_at_def)

lemma rec_ok_update:
  assumes "rec_ok m" "becomes (rs_cells m) f C'" "u = word_of_nat (card (busy C'))" "h < rs_size m"
  shows "rec_ok (m\<lparr>rs_cells := C', rs_used := u, rs_head := h\<rparr>)"
  using assms by (simp add: rec_ok_def becomes_def)

text \<open>
  The table after \<^verbatim>\<open>seq_cp\<close>.  The range of positions plays no role.
\<close>

lemma rec_seq_cp_ok:
  assumes "rec_ok m"
  obtains m' where "rec_seq_cp src dst p0 p1 m = Some m'" "rec_ok m'"
    "becomes (rs_cells m) (if src \<in> ids (rs_cells m) \<and> dst \<in> ids (rs_cells m) then (rec_at (rs_cells m))(dst := rec_at (rs_cells m) src)
       else rec_at (rs_cells m)) (rs_cells m')"
    "rs_size m' = rs_size m" "rs_head m' = rs_head m"
proof (cases "src = dst \<or> \<not> (src \<in> ids (rs_cells m) \<and> dst \<in> ids (rs_cells m))")
  case True
  then have "rec_seq_cp src dst p0 p1 m = Some m" by (auto simp: rec_seq_cp_def)
  moreover have "becomes (rs_cells m) (rec_at (rs_cells m)) (rs_cells m)" using rec_okD(5)[OF assms] by (simp add: becomes_def)
  moreover have "(rec_at (rs_cells m))(dst := rec_at (rs_cells m) src) = rec_at (rs_cells m)" if "src = dst" using that by simp
  ultimately show ?thesis using that[of m] assms True by auto
next
  case False
  let ?C = "rs_cells m"
  have v: "src \<in> ids ?C" "dst \<in> ids ?C" "src \<noteq> dst" using False by auto
  obtain C1 u1 where l: "leave_cell dst (?C, rs_used m) = Some (C1, u1)" "becomes ?C ((rec_at ?C)(dst := None)) C1"
      "rs_used m = word_of_nat (card (busy ?C)) \<Longrightarrow> u1 = word_of_nat (card (busy C1))" "tl_of C1 dst = -1"
    using leave_cell_ok[OF rec_okD(5)[OF assms] v(2), of "rs_used m"] by metis
  note u1 = l(3)[OF rec_okD(6)[OF assms]] and b = becomesD[OF l(2)]
  have v1: "src \<in> ids C1" "dst \<in> ids C1" using v b by auto
  have src: "rec_at C1 src = rec_at ?C src" using v(3) b(4) by simp
  show ?thesis
  proof (cases "tl_of C1 src = -1")
    case True
    then have none: "rec_at ?C src = None" using src by (simp add: rec_at_def)
    have "rec_seq_cp src dst p0 p1 m = Some (m\<lparr>rs_cells := C1, rs_used := u1\<rparr>)" using v True by (simp add: rec_seq_cp_def l(1))
    then show ?thesis using that[of "m\<lparr>rs_cells := C1, rs_used := u1\<rparr>"] rec_ok_update[OF assms l(2) u1 rec_okD(3)[OF assms]] v l(2) none
      by simp
  next
    case t: False
    let ?t = "tl_of C1 src"
    let ?C2 = "mc_upd dst (\<lambda>c. c\<lparr>mc_tail := ?t\<rparr>) (mc_upd ?t (\<lambda>c. c\<lparr>mc_seq_id := insert dst (mc_seq_id c)\<rparr>) C1)"
    have tv: "?t \<in> ids C1" using tail_mem[OF b(1) v1(1) t] by simp
    note j = join_cell_ok[OF b(1) v1(2) l(4) v1(1) refl t]
    have "becomes ?C ((rec_at C1)(dst := rec_at C1 src)) ?C2" by (rule becomes_trans[OF l(2) j(1)])
    then have bb: "becomes ?C ((rec_at ?C)(dst := rec_at ?C src)) ?C2" using src b(4) by simp
    have run: "rec_seq_cp src dst p0 p1 m = Some (m\<lparr>rs_cells := ?C2, rs_used := u1\<rparr>)"
      using v t tv by (simp add: rec_seq_cp_def l(1) Let_def)
    have "u1 = word_of_nat (card (busy ?C2))" using u1 j(2) by simp
    then show ?thesis using that[OF run] rec_ok_update[OF assms bb _ rec_okD(3)[OF assms]] v bb by simp
  qed
qed

section \<open>Removing and keeping sequences\<close>

text \<open>A loop over the cells in which iteration \<open>i\<close> only changes cell \<open>i\<close> and the counters.\<close>

lemma fold_cells:
  assumes step: "\<And>i C u h. i < length C \<Longrightarrow> step i (C, u, h) =
      (C[i := f i (C ! i)], if d i (C ! i) then u - 1 else u, if g i (C ! i) \<and> h = length C then i else h)"
    and k: "k \<le> length C"
  shows "\<exists>h \<le> length C. fold step [0..<k] (C, u :: u32, length C) =
    (map (\<lambda>i. f i (C ! i)) [0..<k] @ drop k C, u - word_of_nat (card {i. i < k \<and> d i (C ! i)}), h)"
  using k
proof (induction k)
  case (Suc k)
  let ?D = "map (\<lambda>i. f i (C ! i)) [0..<k] @ drop k C"
  from Suc obtain h where h: "h \<le> length C"
    "fold step [0..<k] (C, u, length C) = (?D, u - word_of_nat (card {i. i < k \<and> d i (C ! i)}), h)" by auto
  have nth: "?D ! k = C ! k" using Suc.prems by (simp add: nth_append)
  have upd: "?D[k := f k (C ! k)] = map (\<lambda>i. f i (C ! i)) [0..<Suc k] @ drop (Suc k) C"
    using Suc.prems by (simp add: list_update_append flip: Cons_nth_drop_Suc)
  have "{i. i < Suc k \<and> d i (C ! i)} = (if d k (C ! k) then insert k {i. i < k \<and> d i (C ! i)} else {i. i < k \<and> d i (C ! i)})"
    by (auto simp: less_Suc_eq)
  then have cnt: "word_of_nat (card {i. i < Suc k \<and> d i (C ! i)}) = (word_of_nat (card {i. i < k \<and> d i (C ! i)}) + (if d k (C ! k) then 1 else 0) :: u32)"
    by simp
  show ?case
    by (rule exI[of _ "if g k (C ! k) \<and> h = length C then k else h"])
      (use Suc.prems h(1) step[of k ?D] in \<open>simp add: h(2) nth upd cnt\<close>)
qed simp

lemma rec_lower_head_simps [simp]:
  "rs_cells (rec_lower_head h m) = rs_cells m" "rs_used (rec_lower_head h m) = rs_used m" "rs_size (rec_lower_head h m) = rs_size m"
  by (simp_all add: rec_lower_head_def)

lemma rec_lower_head_le: "rs_head (rec_lower_head h m) \<le> rs_head m"
  by (simp add: rec_lower_head_def)

lemma rec_lower_head_ok:
  assumes "rec_ok m" "becomes (rs_cells m) f C'" "u = word_of_nat (card (busy C'))"
  shows "rec_ok (rec_lower_head h (m\<lparr>rs_cells := C', rs_used := u\<rparr>))"
  using assms rec_lower_head_le[of h "m\<lparr>rs_cells := C', rs_used := u\<rparr>"] by (auto simp: rec_ok_def becomes_def)

lemma rec_seq_keep_ok:
  fixes q :: llama_seq_id
  assumes "rec_ok m"
  defines "m' \<equiv> rec_seq_keep q m"
  shows "rec_ok m'" "becomes (rs_cells m) (\<lambda>j. if j = q then rec_at (rs_cells m) q else None) (rs_cells m')" "rs_size m' = rs_size m"
proof -
  let ?C = "rs_cells m"
  note ok = rec_okD(5)[OF assms(1)]
  define f where "f = (\<lambda>i c. let c = (if int i \<noteq> q then c\<lparr>mc_tail := -1\<rparr> else c) in
    if has_seq_id q c then c\<lparr>mc_seq_id := {q}\<rparr> else c\<lparr>mc_pos := -1, mc_src := -1, mc_seq_id := {}\<rparr>)"
  let ?F = "{i. i < length ?C \<and> (\<not> has_seq_id q (?C ! i) \<and> mc_pos (?C ! i) \<ge> 0)}"
  define C' where "C' = map (\<lambda>i. f i (?C ! i)) [0..<length ?C]"
  have step: "rec_keep_step q i (C, u, h) = (C[i := f i (C ! i)], if \<not> has_seq_id q (C ! i) \<and> mc_pos (C ! i) \<ge> 0 then u - 1 else u,
      if \<not> has_seq_id q (C ! i) \<and> h = length C then i else h)" for i C u h
    by (cases "has_seq_id q (C ! i)"; cases "int i = q") (simp_all add: rec_keep_step_def f_def has_seq_id_def)
  from fold_cells[of "rec_keep_step q" f _ _ "length ?C" ?C "rs_used m", OF step order_refl] obtain h where
    fold: "fold (rec_keep_step q) [0..<length ?C] (?C, rs_used m, length ?C) = (C', rs_used m - word_of_nat (card ?F), h)"
    unfolding C'_def by auto
  have m': "m' = rec_lower_head h (m\<lparr>rs_cells := C', rs_used := rs_used m - word_of_nat (card ?F)\<rparr>)"
    using fold rec_okD(4)[OF assms(1)] by (simp add: m'_def rec_seq_keep_def)
  have len: "length C' = length ?C" by (simp add: C'_def)
  have nth: "C' ! nat j = f (nat j) (?C ! nat j)" if "j \<in> ids ?C" for j using that by (simp add: C'_def nat_less_iff)
  have tl: "tl_of C' j = (if j = q then tl_of ?C j else -1)" and sq: "sq_of C' j = sq_of ?C j \<inter> {q}"
    and ps: "ps_of C' j = (if q \<in> sq_of ?C j then ps_of ?C j else -1)" and sr: "sr_of C' j = (if q \<in> sq_of ?C j then sr_of ?C j else -1)"
    if "j \<in> ids ?C" for j using that by (auto simp: nth f_def Let_def has_seq_id_def)
  have "cells_ok C'"
  proof (rule cells_okI)
    fix j assume "j \<in> ids C'"
    then have j: "j \<in> ids ?C" by (simp add: len)
    show "tl_of C' j = -1 \<or> tl_of C' j \<in> ids C'" using cells_okD(1)[OF ok j] by (auto simp: tl[OF j] len)
    show "sr_of C' j = -1 \<or> sr_of C' j = j" using cells_okD(4)[OF ok j] by (simp add: sr[OF j])
    show "sq_of C' j = {} \<Longrightarrow> ps_of C' j = -1" by (auto simp: sq[OF j] ps[OF j])
    show "sq_of C' j \<noteq> {} \<Longrightarrow> 0 \<le> ps_of C' j \<and> sr_of C' j = j" using cells_okD(6)[OF ok j] by (auto simp: ps[OF j] sr[OF j] sq[OF j])
    show "j' \<in> ids C' \<and> tl_of C' j' = j" if "j' \<in> sq_of C' j" for j'
      using that cells_okD(2,3)[OF ok j] by (auto simp: sq[OF j] len tl)
    show "tl_of C' j \<noteq> -1 \<Longrightarrow> j \<in> sq_of C' (tl_of C' j)"
      using tail_mem[OF ok j] by (auto simp: tl[OF j] sq split: if_splits)
  qed
  moreover have "fresh C' \<subseteq> fresh ?C" by (auto simp: fresh_def len sq sr split: if_splits)
  moreover have "rec_at C' j = (if j = q then rec_at ?C q else None)" for j
    using tail_mem[OF ok, of q] by (cases "j \<in> ids ?C") (auto simp: rec_at_def len tl ps)
  ultimately have b: "becomes ?C (\<lambda>j. if j = q then rec_at ?C q else None) C'" using len by (simp add: becomes_def fun_eq_iff)
  then show "becomes ?C (\<lambda>j. if j = q then rec_at ?C q else None) (rs_cells m')" by (simp add: m')
  have F: "?F \<subseteq> busy ?C"
  proof
    fix i assume i: "i \<in> ?F"
    then have "int i \<in> ids ?C" by simp
    then show "i \<in> busy ?C" using cells_okD(5)[OF ok, of "int i"] i by (auto simp: busy_def)
  qed
  have "busy C' = busy ?C - ?F"
  proof (rule set_eqI)
    fix i
    show "i \<in> busy C' \<longleftrightarrow> i \<in> busy ?C - ?F"
    proof (cases "i < length ?C")
      case True
      then have i: "int i \<in> ids ?C" by simp
      show ?thesis using cells_okD(6)[OF ok i] i sq[OF i] by (auto simp: busy_def len has_seq_id_def)
    qed (simp add: busy_def len)
  qed
  then have u: "rs_used m - word_of_nat (card ?F) = word_of_nat (card (busy C'))"
    using used_minus[OF finite_busy F] rec_okD(6)[OF assms(1)] by simp
  show "rec_ok m'" unfolding m' by (rule rec_lower_head_ok[OF assms(1) b u])
  show "rs_size m' = rs_size m" by (simp add: m')
qed

text \<open>A loop in which at most one iteration does something.\<close>

lemma fold_skip: "(\<And>i. i \<in> set xs \<Longrightarrow> step i a = a) \<Longrightarrow> fold step xs a = a"
  by (induction xs) auto

lemma fold_single:
  assumes "\<And>i. i \<in> set xs \<Longrightarrow> i \<noteq> t \<Longrightarrow> step i a = a \<and> step i b = b" "step t a = b" "distinct xs" "t \<in> set xs"
  shows "fold step xs a = b"
proof -
  obtain ys zs where xs: "xs = ys @ t # zs" using assms(4) by (meson split_list)
  have "fold step ys a = a" "fold step zs b = b" by (rule fold_skip, use assms(1,3) xs in fastforce)+
  then show ?thesis using xs assms(2) by simp
qed

lemma rec_rm_step_skip: "\<not> (p0 \<le> mc_pos (C ! i) \<and> mc_pos (C ! i) < p1 \<and> has_seq_id q (C ! i)) \<Longrightarrow> 0 \<le> q \<Longrightarrow>
  rec_rm_step q p0 p1 i (C, u, h) = (C, u, h)"
  by (auto simp: rec_rm_step_def)

lemma rec_rm_cells_none:
  assumes "0 \<le> q" "\<And>i. i < rs_size m \<Longrightarrow> \<not> (p0 \<le> mc_pos (rs_cells m ! i) \<and> mc_pos (rs_cells m ! i) < p1 \<and> has_seq_id q (rs_cells m ! i))"
  shows "rec_rm_cells q p0 p1 m = m"
proof -
  have "fold (rec_rm_step q p0 p1) [0..<rs_size m] (rs_cells m, rs_used m, rs_size m) = (rs_cells m, rs_used m, rs_size m)"
    by (rule fold_skip, rule rec_rm_step_skip) (use assms in auto)
  then show ?thesis by (simp add: rec_rm_cells_def rec_lower_head_def)
qed

lemma mc_tail_seq: "c\<lparr>mc_tail := t, mc_seq_id := S\<rparr> = c\<lparr>mc_seq_id := S, mc_tail := t\<rparr>"
  by simp

text \<open>Removing the whole of a sequence is leaving its cell.\<close>

lemma rec_rm_cells_leave:
  assumes m: "rec_ok m" and q: "q \<in> ids (rs_cells m)" "tl_of (rs_cells m) q = t" "t \<noteq> -1"
    and p: "p0 \<le> ps_of (rs_cells m) t" "ps_of (rs_cells m) t < p1"
  obtains C' u' h where "leave_cell q (rs_cells m, rs_used m) = Some (C', u')"
    "rec_rm_cells q p0 p1 (m\<lparr>rs_cells := mc_upd q (\<lambda>c. c\<lparr>mc_tail := -1\<rparr>) (rs_cells m)\<rparr>) =
       rec_lower_head h (m\<lparr>rs_cells := C', rs_used := u'\<rparr>)"
proof -
  let ?C = "rs_cells m" and ?N = "rs_size m"
  let ?C1 = "mc_upd q (\<lambda>c. c\<lparr>mc_tail := -1\<rparr>) ?C"
  note ok = rec_okD(5)[OF m] and len = rec_okD(4)[OF m]
  have t: "t \<in> ids ?C" "q \<in> sq_of ?C t" using tail_mem[OF ok q(1)] q by auto
  have pos: "0 \<le> ps_of ?C t" using cells_okD(6)[OF ok t(1)] t(2) by auto
  obtain C' u' h' where st: "rec_rm_step q p0 p1 (nat t) (?C1, rs_used m, ?N) = (C', u', h')" by (metis surj_pair)
  have tt: "?C1 ! nat t = (if t = q then (?C ! nat t)\<lparr>mc_tail := -1\<rparr> else ?C ! nat t)" using q t by (simp add: mc_upd_nth)
  have only: "\<not> has_seq_id q (?C ! i)" if "i < ?N" "i \<noteq> nat t" for i
    using cells_okD(3)[OF ok, of "int i" q] that q t len by (auto simp: has_seq_id_def)
  have C': "length C' = length ?C" "\<And>i. i < ?N \<Longrightarrow> i \<noteq> nat t \<Longrightarrow> C' ! i = ?C1 ! i"
    using st by (auto simp: rec_rm_step_def Let_def split: if_splits)
  have sid: "mc_seq_id (?C1 ! i) = mc_seq_id (?C ! i)" if "i < ?N" for i using mc_upd_nth[OF q(1), of "int i"] that len by auto
  have skip: "rec_rm_step q p0 p1 i (?C1, rs_used m, ?N) = (?C1, rs_used m, ?N) \<and> rec_rm_step q p0 p1 i (C', u', h') = (C', u', h')"
    if "i \<in> set [0..<?N]" "i \<noteq> nat t" for i
    using only[of i] that q C' sid[of i] by (intro conjI rec_rm_step_skip) (auto simp: has_seq_id_def)
  have fold: "fold (rec_rm_step q p0 p1) [0..<?N] (?C1, rs_used m, ?N) = (C', u', h')"
    by (rule fold_single[where t = "nat t" and step = "rec_rm_step q p0 p1"]) (use skip st t len in auto)
  have "leave_cell q (?C, rs_used m) = Some (C', u')"
    using st t q p pos tt by (auto simp: leave_cell_def rec_rm_step_def Let_def has_seq_id_def mc_is_empty_def mc_upd_nth
      mc_upd_def list_update_swap nth_list_update mc_tail_seq split: if_splits)
  then show ?thesis by (rule that[of C' u' h']) (simp add: rec_rm_cells_def fold)
qed

text \<open>The call removes the sequence exactly when its position lies in the range, and refuses a range that
  starts after 0 and contains the position.\<close>

definition rm_hits :: "llama_pos \<Rightarrow> llama_pos \<Rightarrow> (llama_pos \<times> int) option \<Rightarrow> bool" where
  "rm_hits p0 p1 e = (case e of None \<Rightarrow> False | Some (p, i) \<Rightarrow> clamp_p0 p0 \<le> p \<and> p < clamp_p1 p1)"

lemma becomes_refl: "cells_ok C \<Longrightarrow> becomes C (rec_at C) C"
  by (simp add: becomes_def)

lemma rec_seq_rm_ok:
  fixes p0 p1 :: llama_pos
  assumes m: "rec_ok m" and q: "0 \<le> q"
  defines "hit \<equiv> rm_hits p0 p1 (rec_at (rs_cells m) q)"
  obtains m' where "rec_seq_rm q p0 p1 m = Some (m', q \<in> ids (rs_cells m) \<and> \<not> (hit \<and> 0 < p0))" "rec_ok m'"
    "becomes (rs_cells m) (if hit \<and> \<not> 0 < p0 then (rec_at (rs_cells m))(q := None) else rec_at (rs_cells m)) (rs_cells m')"
    "rs_size m' = rs_size m"
proof (cases "q \<in> ids (rs_cells m)")
  case False
  then have "rec_seq_rm q p0 p1 m = Some (m, False)" "\<not> hit" using q rec_okD(4)[OF m]
    by (auto simp: rec_seq_rm_def hit_def rm_hits_def rec_at_def)
  then show ?thesis using that[of m] m False becomes_refl[OF rec_okD(5)[OF m]] by simp
next
  case True
  let ?C = "rs_cells m" and ?t = "tl_of (rs_cells m) q"
  note ok = rec_okD(5)[OF m]
  have sz: "\<not> q \<ge> int (rs_size m)" using True rec_okD(4)[OF m] by simp
  have c0: "0 < clamp_p0 p0 \<longleftrightarrow> 0 < p0" by (simp add: clamp_p0_def)
  show ?thesis
  proof (cases "?t = -1")
    case t: True
    have none: "\<not> has_seq_id q (?C ! i)" if "i < rs_size m" for i
      using cells_okD(3)[OF ok, of "int i", OF _ True] t rec_okD(4)[OF m] that by (simp add: has_seq_id_def)
    have n: "rec_rm_cells q (clamp_p0 p0) (clamp_p1 p1) m = m" using none by (intro rec_rm_cells_none[OF q]) blast
    have "\<not> hit" using t by (simp add: hit_def rm_hits_def rec_at_def)
    moreover have "rec_seq_rm q p0 p1 m = Some (m, True)" using q sz t n by (simp add: rec_seq_rm_def Let_def)
    ultimately show ?thesis using that[of m] m True becomes_refl[OF ok] by simp
  next
    case False
    have t: "?t \<in> ids ?C" "q \<in> sq_of ?C ?t" using tail_mem[OF ok True False] by auto
    have hit: "hit \<longleftrightarrow> clamp_p0 p0 \<le> ps_of ?C ?t \<and> ps_of ?C ?t < clamp_p1 p1"
      using True False by (simp add: hit_def rm_hits_def rec_at_def)
    have run: "rec_seq_rm q p0 p1 m = (if hit \<and> 0 < p0 then Some (m, False)
        else Some (rec_rm_cells q (clamp_p0 p0) (clamp_p1 p1) (if hit then m\<lparr>rs_cells := mc_upd q (\<lambda>c. c\<lparr>mc_tail := -1\<rparr>) ?C\<rparr> else m), True))"
      using q sz t False by (auto simp: rec_seq_rm_def Let_def hit c0)
    consider "hit" "0 < p0" | "hit" "\<not> 0 < p0" | "\<not> hit" by blast
    then show ?thesis
    proof cases
      case 1
      then show ?thesis using that[of m] run m True becomes_refl[OF ok] by simp
    next
      case 2
      obtain C' u' h where l: "leave_cell q (?C, rs_used m) = Some (C', u')"
          "rec_rm_cells q (clamp_p0 p0) (clamp_p1 p1) (m\<lparr>rs_cells := mc_upd q (\<lambda>c. c\<lparr>mc_tail := -1\<rparr>) ?C\<rparr>) =
           rec_lower_head h (m\<lparr>rs_cells := C', rs_used := u'\<rparr>)"
        using rec_rm_cells_leave[OF m True refl False, of "clamp_p0 p0" "clamp_p1 p1"] 2 hit by metis
      from leave_cell_ok[OF ok True, of "rs_used m"] l(1) have
        b: "becomes ?C ((rec_at ?C)(q := None)) C'" "u' = word_of_nat (card (busy C'))"
        using rec_okD(6)[OF m] by (metis option.inject prod.inject)+
      show ?thesis using that[of "rec_lower_head h (m\<lparr>rs_cells := C', rs_used := u'\<rparr>)"] rec_lower_head_ok[OF m b, of h] run 2 True l(2) b(1)
        by simp
    next
      case 3
      have "rec_rm_cells q (clamp_p0 p0) (clamp_p1 p1) m = m"
      proof (rule rec_rm_cells_none[OF q])
        fix i assume "i < rs_size m"
        then have i: "int i \<in> ids ?C" using rec_okD(4)[OF m] by simp
        show "\<not> (clamp_p0 p0 \<le> mc_pos (?C ! i) \<and> mc_pos (?C ! i) < clamp_p1 p1 \<and> has_seq_id q (?C ! i))"
          using cells_okD(3)[OF ok i True] 3 hit by (auto simp: has_seq_id_def)
      qed
      then show ?thesis using that[of m] run 3 m True becomes_refl[OF ok] by simp
    qed
  qed
qed

section \<open>Moving positions, clearing, construction\<close>

text \<open>A cell moves with all the sequences that share it.\<close>

definition moved :: "int \<Rightarrow> llama_pos \<Rightarrow> (llama_seq_id \<Rightarrow> (llama_pos \<times> int) option) \<Rightarrow> llama_seq_id \<Rightarrow> (llama_pos \<times> int) option" where
  "moved t p T j = map_option (\<lambda>(x, i). (if i = t then p else x, i)) (T j)"

lemma rec_move_ok:
  assumes m: "rec_ok m" and f: "\<And>p t. rec_at (rs_cells m) q = Some (p, t) \<Longrightarrow> p0 \<le> p \<Longrightarrow> p < p1 \<Longrightarrow> \<exists>p'. f p = Some p' \<and> 0 \<le> p'"
  obtains m' where "rec_move q p0 p1 f m = Some m'" "rec_ok m'" "rs_size m' = rs_size m"
    "becomes (rs_cells m) (case rec_at (rs_cells m) q of None \<Rightarrow> rec_at (rs_cells m)
       | Some (p, t) \<Rightarrow> if p0 \<le> p \<and> p < p1 then moved t (the (f p)) (rec_at (rs_cells m)) else rec_at (rs_cells m)) (rs_cells m')"
proof -
  let ?C = "rs_cells m"
  note ok = rec_okD(5)[OF m] and len = rec_okD(4)[OF m]
  show ?thesis
  proof (cases "rec_at ?C q")
    case None
    then have "rec_move q p0 p1 f m = Some m" using cells_okD(1)[OF ok, of q] len
      by (auto simp: rec_move_def rec_at_def Let_def split: if_splits)
    then show ?thesis using that[of m] m None becomes_refl[OF ok] by simp
  next
    case (Some e)
    obtain p t where e: "e = (p, t)" by (cases e)
    have q: "q \<in> ids ?C" "tl_of ?C q = t" "t \<noteq> -1" "ps_of ?C t = p" using Some e by (auto simp: rec_at_def split: if_splits)
    have t: "t \<in> ids ?C" "q \<in> sq_of ?C t" using tail_mem[OF ok q(1)] q by auto
    show ?thesis
    proof (cases "p0 \<le> p \<and> p < p1")
      case False
      have "rec_move q p0 p1 f m = Some m" using q t False len by (auto simp: rec_move_def Let_def)
      then show ?thesis using that[of m] m Some e False becomes_refl[OF ok] by simp
    next
      case True
      then obtain p' where p': "f p = Some p'" "0 \<le> p'" using f Some e by blast
      let ?C' = "mc_upd t (\<lambda>c. c\<lparr>mc_pos := p'\<rparr>) ?C"
      have run: "rec_move q p0 p1 f m = Some (m\<lparr>rs_cells := ?C'\<rparr>)"
        using q t True len p' by (auto simp: rec_move_def Let_def has_seq_id_def)
      have fld: "tl_of ?C' j = tl_of ?C j" "sq_of ?C' j = sq_of ?C j" "sr_of ?C' j = sr_of ?C j" "ps_of ?C' j = (if j = t then p' else ps_of ?C j)"
        if "j \<in> ids ?C" for j using that t by (auto simp: mc_upd_nth)
      have "cells_ok ?C'"
      proof (rule cells_okI; unfold mc_upd_length)
        fix j assume j: "j \<in> ids ?C"
        show "tl_of ?C' j = -1 \<or> tl_of ?C' j \<in> ids ?C" "sr_of ?C' j = -1 \<or> sr_of ?C' j = j"
          using cells_okD(1,4)[OF ok j] by (simp_all add: fld[OF j])
        show "tl_of ?C' j \<noteq> -1 \<Longrightarrow> j \<in> sq_of ?C' (tl_of ?C' j)" using tail_mem[OF ok j] by (simp add: fld[OF j]) (simp add: fld)
        show "j' \<in> ids ?C \<and> tl_of ?C' j' = j" if "j' \<in> sq_of ?C' j" for j'
          using that cells_okD(2,3)[OF ok j] by (auto simp: fld[OF j] fld)
        show "sq_of ?C' j = {} \<Longrightarrow> ps_of ?C' j = -1" using cells_okD(5)[OF ok j] t j by (auto simp: fld)
        show "sq_of ?C' j \<noteq> {} \<Longrightarrow> 0 \<le> ps_of ?C' j \<and> sr_of ?C' j = j" using cells_okD(6)[OF ok j] p' by (simp add: fld[OF j])
      qed
      moreover have "fresh ?C' \<subseteq> fresh ?C" by (auto simp: fresh_def fld)
      moreover have "rec_at ?C' j = moved t p' (rec_at ?C) j" for j
        using tail_mem[OF ok, of j] by (auto simp: rec_at_def moved_def fld)
      ultimately have b: "becomes ?C (moved t p' (rec_at ?C)) ?C'" by (simp add: becomes_def fun_eq_iff)
      have "busy ?C' = busy ?C"
      proof (rule set_eqI)
        fix i
        show "i \<in> busy ?C' \<longleftrightarrow> i \<in> busy ?C" using fld(2)[of "int i"] by (cases "int i \<in> ids ?C") (simp_all add: busy_iff del: nat_int)
      qed
      then have "rec_ok (m\<lparr>rs_cells := ?C'\<rparr>)" using becomesD[OF b] m by (simp add: rec_ok_def)
      then show ?thesis using that[OF run] b Some e True p' by simp
    qed
  qed
qed

lemma cleared_cells:
  assumes "\<forall>c \<in> set C. mc_pos c = -1 \<and> mc_seq_id c = {} \<and> mc_src c = -1 \<and> mc_tail c = -1"
  shows "cells_ok C" "fresh C = {}" "busy C = {}" "rec_at C = (\<lambda>_. None)"
proof -
  have c: "tl_of C j = -1" "sq_of C j = {}" "sr_of C j = -1" "ps_of C j = -1" if "j \<in> ids C" for j
    using assms that by (simp_all add: nat_less_iff)
  show "cells_ok C" by (rule cells_okI) (simp_all add: c)
  show "fresh C = {}" "rec_at C = (\<lambda>_. None)" using c by (auto simp: fresh_def rec_at_def)
  show "busy C = {}" using assms by (auto simp: busy_def)
qed

lemma rec_clear_ok:
  assumes "rec_ok m"
  shows "rec_ok (rec_clear data m)" "becomes (rs_cells m) (\<lambda>_. None) (rs_cells (rec_clear data m))" "rs_size (rec_clear data m) = rs_size m"
proof -
  have c: "\<forall>c \<in> set (rs_cells (rec_clear data m)). mc_pos c = -1 \<and> mc_seq_id c = {} \<and> mc_src c = -1 \<and> mc_tail c = -1"
    by (auto simp: rec_clear_def Let_def)
  show "rs_size (rec_clear data m) = rs_size m" by (simp add: rec_clear_def Let_def)
  show "rec_ok (rec_clear data m)" using assms cleared_cells(1,3)[OF c] by (simp add: rec_ok_def) (simp add: rec_clear_def Let_def)
  show "becomes (rs_cells m) (\<lambda>_. None) (rs_cells (rec_clear data m))"
    using cleared_cells[OF c] by (simp add: becomes_def) (simp add: rec_clear_def Let_def)
qed

lemma rec_new_ok:
  assumes "rec_new tt hp type_r type_s mem_size n_seq_max flt = Some m" "0 < mem_size" "mem_size < 2 ^ 30"
  shows "rec_ok m" "rec_at (rs_cells m) = (\<lambda>_. None)" "fresh (rs_cells m) = {}"
proof -
  have m: "rs_cells m = replicate mem_size mem_cell_new" "rs_size m = mem_size" "rs_head m = 0" "rs_used m = 0"
    using assms(1) by (auto simp: rec_new_def split: Option.bind_splits)
  have c: "\<forall>c \<in> set (rs_cells m). mc_pos c = -1 \<and> mc_seq_id c = {} \<and> mc_src c = -1 \<and> mc_tail c = -1"
    by (simp add: m mem_cell_new_def)
  show "rec_ok m" "rec_at (rs_cells m) = (\<lambda>_. None)" "fresh (rs_cells m) = {}"
    using cleared_cells[OF c] assms(2,3) m by (simp_all add: rec_ok_def)
qed

section \<open>The positions of a sequence\<close>

lemma fold_pos:
  assumes ok: "cells_ok C" and f: "\<And>x y. f (f x y) y = f x y"
  shows "fold (\<lambda>i r. if has_seq_id q (C ! i) then f r (mc_pos (C ! i)) else r) [0..<length C] a =
    (case rec_at C q of None \<Rightarrow> a | Some (p, t) \<Rightarrow> f a p)"
proof -
  let ?step = "\<lambda>i r. if has_seq_id q (C ! i) then f r (mc_pos (C ! i)) else r"
  have at: "q \<in> ids C \<and> tl_of C q = int i" if "i < length C" "has_seq_id q (C ! i)" for i
    using cells_okD(2,3)[OF ok, of "int i"] that by (auto simp: has_seq_id_def)
  show ?thesis
  proof (cases "rec_at C q")
    case None
    then have "\<not> has_seq_id q (C ! i)" if "i < length C" for i using at[OF that] by (auto simp: rec_at_def split: if_splits)
    then have "fold ?step [0..<length C] a = a" by (intro fold_skip) auto
    with None show ?thesis by simp
  next
    case (Some e)
    obtain p t where e: "e = (p, t)" by (cases e)
    have q: "q \<in> ids C" "tl_of C q = t" "t \<noteq> -1" "ps_of C t = p" using Some e by (auto simp: rec_at_def split: if_splits)
    have t: "t \<in> ids C" "q \<in> sq_of C t" using tail_mem[OF ok q(1)] q by auto
    have "fold ?step [0..<length C] a = f a p"
      by (rule fold_single[where t = "nat t"]) (use at q t in \<open>auto simp: has_seq_id_def\<close>)
    with Some e show ?thesis by simp
  qed
qed

lemma rec_at_nonneg:
  assumes "rec_ok m" "rec_at (rs_cells m) q = Some (p, t)"
  shows "0 \<le> p"
proof -
  note ok = rec_okD(5)[OF assms(1)]
  have q: "q \<in> ids (rs_cells m)" "tl_of (rs_cells m) q = t" "t \<noteq> -1" "ps_of (rs_cells m) t = p"
    using assms(2) by (auto simp: rec_at_def split: if_splits)
  then show ?thesis using cells_okD(6)[OF ok, of t] tail_mem[OF ok q(1)] by auto
qed

lemma rec_seq_pos_ok:
  assumes "rec_ok m"
  shows "rec_seq_pos_max q m = (case rec_at (rs_cells m) q of None \<Rightarrow> -1 | Some (p, t) \<Rightarrow> p)"
    "(\<And>p t. rec_at (rs_cells m) q = Some (p, t) \<Longrightarrow> p < INT32_MAX) \<Longrightarrow>
     rec_seq_pos_min q m = (case rec_at (rs_cells m) q of None \<Rightarrow> -1 | Some (p, t) \<Rightarrow> p)"
proof -
  note ok = rec_okD(5)[OF assms] and len = rec_okD(4)[OF assms]
  have pos: "0 \<le> p" if "rec_at (rs_cells m) q = Some (p, t)" for p t by (rule rec_at_nonneg[OF assms that])
  show "rec_seq_pos_max q m = (case rec_at (rs_cells m) q of None \<Rightarrow> -1 | Some (p, t) \<Rightarrow> p)"
    using fold_pos[OF ok, of max q "-1"] len pos by (auto simp: rec_seq_pos_max_def max_def split: option.splits)
  assume b: "\<And>p t. rec_at (rs_cells m) q = Some (p, t) \<Longrightarrow> p < INT32_MAX"
  show "rec_seq_pos_min q m = (case rec_at (rs_cells m) q of None \<Rightarrow> -1 | Some (p, t) \<Rightarrow> p)"
    using fold_pos[OF ok, of min q INT32_MAX] len b by (force simp: rec_seq_pos_min_def min_def split: option.splits)
qed

section \<open>Sequences of operations\<close>

datatype rec_op = Rec_clear bool | Rec_rm llama_seq_id llama_pos llama_pos | Rec_cp llama_seq_id llama_seq_id llama_pos llama_pos
  | Rec_keep llama_seq_id | Rec_add llama_seq_id llama_pos llama_pos llama_pos | Rec_div llama_seq_id llama_pos llama_pos int

fun rec_exec :: "rec_op \<Rightarrow> llama_memory_recurrent \<Rightarrow> llama_memory_recurrent option" where
  "rec_exec (Rec_clear data) m = Some (rec_clear data m)"
| "rec_exec (Rec_rm q p0 p1) m = map_option fst (rec_seq_rm q p0 p1 m)"
| "rec_exec (Rec_cp src dst p0 p1) m = rec_seq_cp src dst p0 p1 m"
| "rec_exec (Rec_keep q) m = Some (rec_seq_keep q m)"
| "rec_exec (Rec_add q p0 p1 shift) m = rec_seq_add q p0 p1 shift m"
| "rec_exec (Rec_div q p0 p1 d) m = rec_seq_div q p0 p1 d m"

text \<open>The same operations on a table with \<open>n\<close> sequences.\<close>

type_synonym rec_table = "llama_seq_id \<Rightarrow> (llama_pos \<times> int) option"

definition table_move :: "llama_seq_id \<Rightarrow> llama_pos \<Rightarrow> llama_pos \<Rightarrow> (llama_pos \<Rightarrow> llama_pos) \<Rightarrow> rec_table \<Rightarrow> rec_table" where
  "table_move q p0 p1 f T = (case T q of None \<Rightarrow> T | Some (p, t) \<Rightarrow> if clamp_p0 p0 \<le> p \<and> p < clamp_p1 p1 then moved t (f p) T else T)"

fun rec_spec :: "nat \<Rightarrow> rec_op \<Rightarrow> rec_table \<Rightarrow> rec_table" where
  "rec_spec n (Rec_clear data) T = (\<lambda>_. None)"
| "rec_spec n (Rec_rm q p0 p1) T = (if rm_hits p0 p1 (T q) \<and> \<not> 0 < p0 then T(q := None) else T)"
| "rec_spec n (Rec_cp src dst p0 p1) T = (if src \<in> {0..<int n} \<and> dst \<in> {0..<int n} then T(dst := T src) else T)"
| "rec_spec n (Rec_keep q) T = (\<lambda>j. if j = q then T q else None)"
| "rec_spec n (Rec_add q p0 p1 shift) T = table_move q p0 p1 (\<lambda>p. p + shift) T"
| "rec_spec n (Rec_div q p0 p1 d) T = table_move q p0 p1 (\<lambda>p. p div d) T"

text \<open>
  What the caller owes: the sequence to remove is named (not \<^verbatim>\<open>-1\<close>, see C32), a position that is shifted
  stays between 0 and \<^verbatim>\<open>INT32_MAX\<close>, and divisors are positive.
\<close>

fun rec_pre :: "rec_op \<Rightarrow> rec_table \<Rightarrow> bool" where
  "rec_pre (Rec_rm q p0 p1) T \<longleftrightarrow> 0 \<le> q"
| "rec_pre (Rec_add q p0 p1 shift) T \<longleftrightarrow> (case T q of None \<Rightarrow> True
     | Some (p, t) \<Rightarrow> clamp_p0 p0 \<le> p \<and> p < clamp_p1 p1 \<longrightarrow> 0 \<le> p + shift \<and> p + shift \<le> INT32_MAX)"
| "rec_pre (Rec_div q p0 p1 d) T \<longleftrightarrow> 0 < d"
| "rec_pre _ T \<longleftrightarrow> True"

lemma moved_id: "(\<And>x. T j = Some (x, t) \<Longrightarrow> x = p) \<Longrightarrow> moved t p T j = T j"
  by (cases "T j") (auto simp: moved_def)

lemma rec_at_shared: "rec_at C q = Some (p, t) \<Longrightarrow> rec_at C j = Some (x, t) \<Longrightarrow> x = p"
  by (auto simp: rec_at_def split: if_splits)

lemma rec_at_pos: "cells_ok C \<Longrightarrow> rec_at C q = Some (p, t) \<Longrightarrow> 0 \<le> p"
  using tail_mem[of C q] cells_okD(6)[of C t] by (fastforce simp: rec_at_def split: if_splits)

lemma table_move_id:
  assumes "f = (\<lambda>p. p) \<or> clamp_p0 p0 = clamp_p1 p1"
  shows "table_move q p0 p1 f (rec_at C) = rec_at C"
proof (cases "rec_at C q")
  case (Some e)
  obtain p t where e: "e = (p, t)" by (cases e)
  have "moved t p (rec_at C) = rec_at C" using rec_at_shared Some e by (intro ext moved_id) metis
  then show ?thesis using assms Some e by (auto simp: table_move_def)
qed (simp add: table_move_def)

lemma rec_move_table:
  assumes m: "rec_ok m" and f: "\<And>p t. rec_at (rs_cells m) q = Some (p, t) \<Longrightarrow> clamp_p0 p0 \<le> p \<Longrightarrow> p < clamp_p1 p1 \<Longrightarrow> f p = Some (g p) \<and> 0 \<le> g p"
  obtains m' where "rec_move q (clamp_p0 p0) (clamp_p1 p1) f m = Some m'" "rec_ok m'" "rs_size m' = rs_size m"
    "becomes (rs_cells m) (table_move q p0 p1 g (rec_at (rs_cells m))) (rs_cells m')"
proof (rule rec_move_ok[OF m, of q "clamp_p0 p0" "clamp_p1 p1" f])
  show "\<exists>p'. f p = Some p' \<and> 0 \<le> p'" if "rec_at (rs_cells m) q = Some (p, t)" "clamp_p0 p0 \<le> p" "p < clamp_p1 p1" for p t
    using f[OF that] by blast
next
  fix m' assume a: "rec_move q (clamp_p0 p0) (clamp_p1 p1) f m = Some m'" "rec_ok m'" "rs_size m' = rs_size m"
    and b: "becomes (rs_cells m) (case rec_at (rs_cells m) q of None \<Rightarrow> rec_at (rs_cells m)
       | Some (p, t) \<Rightarrow> if clamp_p0 p0 \<le> p \<and> p < clamp_p1 p1 then moved t (the (f p)) (rec_at (rs_cells m)) else rec_at (rs_cells m)) (rs_cells m')"
  have "becomes (rs_cells m) (table_move q p0 p1 g (rec_at (rs_cells m))) (rs_cells m')"
  proof (cases "rec_at (rs_cells m) q")
    case None
    then show ?thesis using b by (simp add: table_move_def)
  next
    case (Some e)
    obtain p t where e: "e = (p, t)" by (cases e)
    with Some f[of p t] b show ?thesis by (auto simp: table_move_def)
  qed
  then show thesis using that a by blast
qed

lemma rec_exec_ok:
  assumes m: "rec_ok m" and pre: "rec_pre op (rec_at (rs_cells m))"
  shows "\<exists>m'. rec_exec op m = Some m' \<and> rec_ok m' \<and> rs_size m' = rs_size m \<and>
    becomes (rs_cells m) (rec_spec (rs_size m) op (rec_at (rs_cells m))) (rs_cells m')"
proof (cases op)
  case (Rec_clear data)
  then show ?thesis using rec_clear_ok[OF m, of data] by simp
next
  case (Rec_rm q p0 p1)
  then have q: "0 \<le> q" using pre by simp
  show ?thesis using Rec_rm by (rule_tac rec_seq_rm_ok[OF m q, of p0 p1]) simp
next
  case (Rec_cp src dst p0 p1)
  then show ?thesis using rec_okD(4)[OF m] by (rule_tac rec_seq_cp_ok[OF m, of src dst p0 p1]) simp
next
  case (Rec_keep q)
  then show ?thesis using rec_seq_keep_ok[OF m, of q] by simp
next
  case (Rec_add q p0 p1 shift)
  show ?thesis
  proof (cases "shift = 0 \<or> clamp_p0 p0 = clamp_p1 p1")
    case True
    then show ?thesis using Rec_add m becomes_refl[OF rec_okD(5)[OF m]] table_move_id[of "\<lambda>p. p + shift" p0 p1 q "rs_cells m"]
      by (auto simp: rec_seq_add_def)
  next
    case False
    obtain m' where
      "rec_move q (clamp_p0 p0) (clamp_p1 p1) (\<lambda>p. Some (to_i32 (p + shift))) m = Some m'" "rec_ok m'" "rs_size m' = rs_size m"
      "becomes (rs_cells m) (table_move q p0 p1 (\<lambda>p. p + shift) (rec_at (rs_cells m))) (rs_cells m')"
    proof (rule rec_move_table[OF m])
      show "Some (to_i32 (p + shift)) = Some (p + shift) \<and> 0 \<le> p + shift"
        if "rec_at (rs_cells m) q = Some (p, t)" "clamp_p0 p0 \<le> p" "p < clamp_p1 p1" for p t
        using pre Rec_add that by (simp add: i32_okI)
    qed
    then show ?thesis using Rec_add False by (simp add: rec_seq_add_def)
  qed
next
  case (Rec_div q p0 p1 d)
  then have d: "0 < d" using pre by simp
  show ?thesis
  proof (cases "d = 1 \<or> clamp_p0 p0 = clamp_p1 p1")
    case True
    then show ?thesis using Rec_div m becomes_refl[OF rec_okD(5)[OF m]] table_move_id[of "\<lambda>p. p div d" p0 p1 q "rs_cells m"]
      by (auto simp: rec_seq_div_def)
  next
    case False
    let ?f = "\<lambda>p. if d = 0 then None else Some (cxx_div p d)"
    obtain m' where
      "rec_move q (clamp_p0 p0) (clamp_p1 p1) ?f m = Some m'" "rec_ok m'" "rs_size m' = rs_size m"
      "becomes (rs_cells m) (table_move q p0 p1 (\<lambda>p. p div d) (rec_at (rs_cells m))) (rs_cells m')"
    proof (rule rec_move_table[OF m])
      show "?f p = Some (p div d) \<and> 0 \<le> p div d" if "rec_at (rs_cells m) q = Some (p, t)" for p t
        using d rec_at_pos[OF rec_okD(5)[OF m] that] by (simp add: cxx_div_nonneg pos_imp_zdiv_nonneg_iff)
    qed
    then show ?thesis using Rec_div False by (simp add: rec_seq_div_def)
  qed
qed

text \<open>A sequence of operations, each of which finds its precondition satisfied.\<close>

definition rec_run :: "rec_op list \<Rightarrow> llama_memory_recurrent \<Rightarrow> llama_memory_recurrent option" where
  "rec_run = for_loop rec_exec"

fun rec_pres :: "nat \<Rightarrow> rec_op list \<Rightarrow> rec_table \<Rightarrow> bool" where
  "rec_pres n [] T \<longleftrightarrow> True"
| "rec_pres n (op # ops) T \<longleftrightarrow> rec_pre op T \<and> rec_pres n ops (rec_spec n op T)"

text \<open>
  C30.  The sequence operations of the recurrent memory refine operations on a table from sequences to
  positions and state rows: in every history whose steps respect their preconditions no assertion fires
  and no access leaves the cells, the tails keep agreeing with the sequence sets of the cells and
  \<^verbatim>\<open>used\<close> with the number of cells in use, and the table is the one the abstract operations compute.
  The preconditions leave out \<^verbatim>\<open>seq_rm\<close> of all sequences at once, which breaks the invariant (C32), shifts
  that take a position below 0 or beyond \<^verbatim>\<open>INT32_MAX\<close>, and divisors that are not positive.  What the table
  says of \<^verbatim>\<open>seq_cp\<close> is what the code does: it shares the whole state of the source, whatever the range
  (\<^verbatim>\<open>llama.h\<close> promises the tokens in the range only); likewise \<^verbatim>\<open>seq_rm\<close> removes a whole state or nothing.
\<close>

theorem rec_run_refines:
  assumes "rec_ok m" "rec_pres (rs_size m) ops (rec_at (rs_cells m))"
  shows "\<exists>m'. rec_run ops m = Some m' \<and> rec_ok m' \<and> rs_size m' = rs_size m \<and>
    rec_at (rs_cells m') = fold (rec_spec (rs_size m)) ops (rec_at (rs_cells m))"
  using assms
proof (induction ops arbitrary: m)
  case (Cons op ops)
  from rec_exec_ok[of m op] Cons.prems obtain m1 where m1: "rec_exec op m = Some m1" "rec_ok m1" "rs_size m1 = rs_size m"
    "rec_at (rs_cells m1) = rec_spec (rs_size m) op (rec_at (rs_cells m))" using becomesD(4) by fastforce
  with Cons.IH[of m1] Cons.prems show ?case by (simp add: rec_run_def)
qed (simp add: rec_run_def)

section \<open>Evaluation\<close>

text \<open>Four cells: sequences 0 and 1 share the state in cell 2, sequence 3 has its own, sequence 2 is new.\<close>

definition demo_cells :: "mem_cell list" where
  "demo_cells = [mem_cell_new\<lparr>mc_tail := 2\<rparr>, mem_cell_new\<lparr>mc_tail := 2\<rparr>,
     \<lparr>mc_pos = 5, mc_src = 2, mc_src0 = 2, mc_tail = -1, mc_seq_id = {0, 1}\<rparr>,
     \<lparr>mc_pos = 7, mc_src = 3, mc_src0 = 3, mc_tail = 3, mc_seq_id = {3}\<rparr>]"

definition demo_rec :: llama_memory_recurrent where
  "demo_rec = \<lparr>rs_hparams = demo_hparams, rs_n_seq_max = 4, rs_head = 2, rs_size = 4, rs_used = 2, rs_n = 2, rs_z = -1,
     rs_cells = demo_cells, rs_r_l = [], rs_s_l = []\<rparr>"

lemma demo_cells_ok: "cells_ok demo_cells"
  by code_simp

lemma demo_rec_ok: "rec_ok demo_rec"
proof -
  have "busy demo_cells = {2, 3}" by (auto simp: busy_def demo_cells_def mem_cell_new_def less_Suc_eq numeral_eq_Suc)
  then show ?thesis using demo_cells_ok by (simp add: rec_ok_def demo_rec_def) (simp add: demo_cells_def)
qed

lemma demo_rec_at: "rec_at demo_cells 0 = Some (5, 2)" "rec_at demo_cells 1 = Some (5, 2)" "rec_at demo_cells 2 = None" "rec_at demo_cells 3 = Some (7, 3)"
  by (simp_all add: rec_at_def demo_cells_def mem_cell_new_def)

theorem rec_run_refines_witness:
  "\<exists>m'. rec_run [Rec_cp 3 2 (-1) (-1), Rec_rm 0 (-1) (-1), Rec_add 1 0 (-1) 10, Rec_rm 3 7 8, Rec_div 2 0 (-1) 2] demo_rec = Some m' \<and> rec_ok m' \<and>
    rec_at (rs_cells m') 0 = None \<and> rec_at (rs_cells m') 1 = Some (15, 2) \<and> rec_at (rs_cells m') 2 = Some (3, 3) \<and> rec_at (rs_cells m') 3 = Some (3, 3)"
proof -
  let ?ops = "[Rec_cp 3 2 (-1) (-1), Rec_rm 0 (-1) (-1), Rec_add 1 0 (-1) 10, Rec_rm 3 7 8, Rec_div 2 0 (-1) 2]"
  have c: "rs_cells demo_rec = demo_cells" "rs_size demo_rec = 4" by (simp_all add: demo_rec_def)
  have e: "fold (rec_spec 4) ?ops (rec_at demo_cells) 0 = None" "fold (rec_spec 4) ?ops (rec_at demo_cells) 1 = Some (15, 2)"
    "fold (rec_spec 4) ?ops (rec_at demo_cells) 2 = Some (3, 3)" "fold (rec_spec 4) ?ops (rec_at demo_cells) 3 = Some (3, 3)"
    and p: "rec_pres 4 ?ops (rec_at demo_cells)"
    by (simp_all add: demo_rec_at rm_hits_def table_move_def moved_def clamp_p0_def clamp_p1_def INT32_MAX_def)
  obtain m' where m': "rec_run ?ops demo_rec = Some m'" "rec_ok m'" "rec_at (rs_cells m') = fold (rec_spec 4) ?ops (rec_at demo_cells)"
    using rec_run_refines[OF demo_rec_ok, of ?ops] p unfolding c by blast
  then show ?thesis unfolding m'(3)[symmetric] by (intro exI[of _ m']) (simp only: m'(3) e simp_thms m'(1,2))
qed

end
