(* ===== verification/Rec_Slot.thy ===== *)
theory Rec_Slot
  imports Rec_Ops
begin

text \<open>
  \<^verbatim>\<open>find_slot\<close> of the recurrent memory, phase by phase: the sequences that become shared leave their
  cells, every sequence set gets a cell of its own, the cells are gathered at the front of the range in the
  order of the ubatch, and positions, tails and sources are updated.
\<close>

section \<open>Claiming the sequences\<close>

lemma claim_ids_ok:
  assumes "cells_ok C" "used = word_of_nat (card (busy C))"
  shows "\<exists>C' u' D. claim_ids j qs (C, used) = Some ((C', u'), set qs \<subseteq> ids C) \<and> D \<subseteq> set qs \<and>
    becomes C (\<lambda>q. if q \<in> D then None else rec_at C q) C' \<and> u' = word_of_nat (card (busy C')) \<and>
    (set qs \<subseteq> ids C \<longrightarrow> D = set (drop (if j = 0 then 1 else 0) qs))"
  using assms
proof (induction qs arbitrary: j C used)
  case Nil
  then show ?case by (intro exI[of _ C] exI[of _ used] exI[of _ "{}"]) (simp add: becomes_def)
next
  case (Cons q qs)
  show ?case
  proof (cases "q \<in> ids C")
    case False
    then have "claim_ids j (q # qs) (C, used) = Some ((C, used), False)" by auto
    with False Cons.prems show ?thesis by (intro exI[of _ C] exI[of _ used] exI[of _ "{}"]) (auto simp: becomes_def)
  next
    case True
    obtain C1 u1 where l: "(if j > 0 then leave_cell q (C, used) else Some (C, used)) = Some (C1, u1)"
      "becomes C (\<lambda>x. if x \<in> (if j > 0 then {q} else {}) then None else rec_at C x) C1" "u1 = word_of_nat (card (busy C1))"
    proof (cases "j > 0")
      case True
      from leave_cell_ok[OF Cons.prems(1) \<open>q \<in> ids C\<close>, of used] Cons.prems(2) obtain C1 u1 where
        "leave_cell q (C, used) = Some (C1, u1)" "becomes C ((rec_at C)(q := None)) C1" "u1 = word_of_nat (card (busy C1))" by metis
      moreover have "(rec_at C)(q := None) = (\<lambda>x. if x \<in> {q} then None else rec_at C x)" by auto
      ultimately show ?thesis using that[of C1 u1] True by simp
    next
      case False
      then show ?thesis using that[of C used] Cons.prems becomes_refl by simp
    qed
    note b = becomesD[OF l(2)]
    from Cons.IH[OF b(1) l(3), of "Suc j"] obtain C' u' D where
      r: "claim_ids (Suc j) qs (C1, u1) = Some ((C', u'), set qs \<subseteq> ids C)" "D \<subseteq> set qs"
        "becomes C1 (\<lambda>q. if q \<in> D then None else rec_at C1 q) C'" "u' = word_of_nat (card (busy C'))"
        "set qs \<subseteq> ids C \<longrightarrow> D = set qs" using b(2) by auto
    have "claim_ids j (q # qs) (C, used) = claim_ids (Suc j) qs (C1, u1)" using True l(1) by auto
    moreover have "becomes C (\<lambda>x. if x \<in> (if j > 0 then {q} else {}) \<union> D then None else rec_at C x) C'"
      using becomes_trans[OF l(2) r(3)] b(4) by (rule_tac back_subst[of "\<lambda>f. becomes C f C'"]) (auto simp: fun_eq_iff)
    ultimately show ?thesis using r True
      by (intro exI[of _ C'] exI[of _ u'] exI[of _ "(if j > 0 then {q} else {}) \<union> D"]) auto
  qed
qed

definition later_ids :: "llama_ubatch \<Rightarrow> nat list \<Rightarrow> int set" where
  "later_ids u ss = (\<Union>s \<in> set ss. set (drop 1 (set_ids u s)))"

lemma claim_sets_ok:
  assumes "cells_ok C" "used = word_of_nat (card (busy C))"
  shows "\<exists>C' u' D. claim_sets u ss (C, used) = Some ((C', u'), \<forall>s \<in> set ss. set (set_ids u s) \<subseteq> ids C) \<and>
    becomes C (\<lambda>q. if q \<in> D then None else rec_at C q) C' \<and> u' = word_of_nat (card (busy C')) \<and>
    ((\<forall>s \<in> set ss. set (set_ids u s) \<subseteq> ids C) \<longrightarrow> D = later_ids u ss)"
  using assms
proof (induction ss arbitrary: C used)
  case Nil
  then show ?case by (intro exI[of _ C] exI[of _ used] exI[of _ "{}"]) (simp add: becomes_def later_ids_def)
next
  case (Cons s ss)
  from claim_ids_ok[OF Cons.prems, of 0 "set_ids u s"] obtain C1 u1 D1 where
    l: "claim_ids 0 (set_ids u s) (C, used) = Some ((C1, u1), set (set_ids u s) \<subseteq> ids C)"
      "becomes C (\<lambda>q. if q \<in> D1 then None else rec_at C q) C1" "u1 = word_of_nat (card (busy C1))"
      "set (set_ids u s) \<subseteq> ids C \<longrightarrow> D1 = set (drop 1 (set_ids u s))" by auto
  note b = becomesD[OF l(2)]
  show ?case
  proof (cases "set (set_ids u s) \<subseteq> ids C")
    case False
    then have "claim_sets u (s # ss) (C, used) = Some ((C1, u1), False)" using l(1) by simp
    with False l show ?thesis by auto
  next
    case True
    from Cons.IH[OF b(1) l(3), unfolded b(2)] obtain C' u' D where
      r: "claim_sets u ss (C1, u1) = Some ((C', u'), \<forall>s \<in> set ss. set (set_ids u s) \<subseteq> ids C)"
        "becomes C1 (\<lambda>q. if q \<in> D then None else rec_at C1 q) C'" "u' = word_of_nat (card (busy C'))"
        "(\<forall>s \<in> set ss. set (set_ids u s) \<subseteq> ids C) \<longrightarrow> D = later_ids u ss" by blast
    have "claim_sets u (s # ss) (C, used) = claim_sets u ss (C1, u1)" using True l(1) by simp
    moreover have "becomes C (\<lambda>x. if x \<in> D1 \<union> D then None else rec_at C x) C'"
      using becomes_trans[OF l(2) r(2)] b(4) by (rule_tac back_subst[of "\<lambda>f. becomes C f C'"]) (auto simp: fun_eq_iff)
    ultimately show ?thesis using r True l(4)
      by (intro exI[of _ C'] exI[of _ u'] exI[of _ "D1 \<union> D"]) (auto simp: later_ids_def)
  qed
qed

section \<open>A cell for every sequence set\<close>

text \<open>
  The cells between the phases, relative to the cells \<open>C0\<close> before them: \<open>A\<close> are the sequences that have a
  cell of their own now.  A new sequence has a tail but its cell has no sequence yet.
\<close>

definition placing :: "mem_cell list \<Rightarrow> int set \<Rightarrow> mem_cell list \<Rightarrow> bool" where
  "placing C0 A C \<longleftrightarrow> length C = length C0 \<and> A \<subseteq> ids C \<and>
     (\<forall>q \<in> ids C. tl_of C q = -1 \<or> tl_of C q \<in> ids C) \<and>
     (\<forall>i \<in> ids C. \<forall>q \<in> sq_of C i. q \<in> ids C \<and> tl_of C q = i \<and> tl_of C0 q \<noteq> -1) \<and>
     (\<forall>q \<in> ids C. tl_of C q \<noteq> -1 \<longrightarrow> q \<in> sq_of C (tl_of C q) \<or> sq_of C (tl_of C q) = {} \<and> q \<in> A \<and> tl_of C0 q = -1) \<and>
     (\<forall>q \<in> A. tl_of C q \<noteq> -1 \<and> (\<forall>j \<in> ids C. tl_of C j = tl_of C q \<longrightarrow> j = q)) \<and>
     (\<forall>q \<in> ids C. tl_of C0 q \<noteq> -1 \<longrightarrow> tl_of C q \<noteq> -1 \<and> sr_of C (tl_of C q) = tl_of C0 q \<and> ps_of C (tl_of C q) = ps_of C0 (tl_of C0 q)) \<and>
     (\<forall>q \<in> ids C. tl_of C0 q = -1 \<longrightarrow> q \<notin> A \<longrightarrow> tl_of C q = -1) \<and>
     (\<forall>i \<in> ids C. sq_of C i = {} \<longrightarrow> ps_of C i = -1 \<and> (sr_of C i = -1 \<or> sr_of C i \<in> fresh C0))"

lemma placingD:
  assumes "placing C0 A C"
  shows "length C = length C0" "A \<subseteq> ids C"
    "q \<in> ids C \<Longrightarrow> tl_of C q = -1 \<or> tl_of C q \<in> ids C"
    "i \<in> ids C \<Longrightarrow> q \<in> sq_of C i \<Longrightarrow> q \<in> ids C \<and> tl_of C q = i \<and> tl_of C0 q \<noteq> -1"
    "q \<in> ids C \<Longrightarrow> tl_of C q \<noteq> -1 \<Longrightarrow> q \<in> sq_of C (tl_of C q) \<or> sq_of C (tl_of C q) = {} \<and> q \<in> A \<and> tl_of C0 q = -1"
    "q \<in> A \<Longrightarrow> tl_of C q \<noteq> -1 \<and> (\<forall>j \<in> ids C. tl_of C j = tl_of C q \<longrightarrow> j = q)"
    "q \<in> ids C \<Longrightarrow> tl_of C0 q \<noteq> -1 \<Longrightarrow> tl_of C q \<noteq> -1 \<and> sr_of C (tl_of C q) = tl_of C0 q \<and> ps_of C (tl_of C q) = ps_of C0 (tl_of C0 q)"
    "q \<in> ids C \<Longrightarrow> tl_of C0 q = -1 \<Longrightarrow> q \<notin> A \<Longrightarrow> tl_of C q = -1"
    "i \<in> ids C \<Longrightarrow> sq_of C i = {} \<Longrightarrow> ps_of C i = -1 \<and> (sr_of C i = -1 \<or> sr_of C i \<in> fresh C0)"
proof -
  note p = assms[unfolded placing_def]
  show "length C = length C0" using p by (elim conjE)
  show "A \<subseteq> ids C" using p by (elim conjE)
  have "\<forall>q \<in> ids C. tl_of C q = -1 \<or> tl_of C q \<in> ids C" using p by (elim conjE)
  then show "q \<in> ids C \<Longrightarrow> tl_of C q = -1 \<or> tl_of C q \<in> ids C" by blast
  have "\<forall>i \<in> ids C. \<forall>q \<in> sq_of C i. q \<in> ids C \<and> tl_of C q = i \<and> tl_of C0 q \<noteq> -1" using p by (elim conjE)
  then show "i \<in> ids C \<Longrightarrow> q \<in> sq_of C i \<Longrightarrow> q \<in> ids C \<and> tl_of C q = i \<and> tl_of C0 q \<noteq> -1" by blast
  have "\<forall>q \<in> ids C. tl_of C q \<noteq> -1 \<longrightarrow> q \<in> sq_of C (tl_of C q) \<or> sq_of C (tl_of C q) = {} \<and> q \<in> A \<and> tl_of C0 q = -1" using p by (elim conjE)
  then show "q \<in> ids C \<Longrightarrow> tl_of C q \<noteq> -1 \<Longrightarrow> q \<in> sq_of C (tl_of C q) \<or> sq_of C (tl_of C q) = {} \<and> q \<in> A \<and> tl_of C0 q = -1" by blast
  have "\<forall>q \<in> A. tl_of C q \<noteq> -1 \<and> (\<forall>j \<in> ids C. tl_of C j = tl_of C q \<longrightarrow> j = q)" using p by (elim conjE)
  then show "q \<in> A \<Longrightarrow> tl_of C q \<noteq> -1 \<and> (\<forall>j \<in> ids C. tl_of C j = tl_of C q \<longrightarrow> j = q)" by blast
  have "\<forall>q \<in> ids C. tl_of C0 q \<noteq> -1 \<longrightarrow> tl_of C q \<noteq> -1 \<and> sr_of C (tl_of C q) = tl_of C0 q \<and> ps_of C (tl_of C q) = ps_of C0 (tl_of C0 q)" using p by (elim conjE)
  then show "q \<in> ids C \<Longrightarrow> tl_of C0 q \<noteq> -1 \<Longrightarrow> tl_of C q \<noteq> -1 \<and> sr_of C (tl_of C q) = tl_of C0 q \<and> ps_of C (tl_of C q) = ps_of C0 (tl_of C0 q)" by blast
  have "\<forall>q \<in> ids C. tl_of C0 q = -1 \<longrightarrow> q \<notin> A \<longrightarrow> tl_of C q = -1" using p by (elim conjE)
  then show "q \<in> ids C \<Longrightarrow> tl_of C0 q = -1 \<Longrightarrow> q \<notin> A \<Longrightarrow> tl_of C q = -1" by blast
  have "\<forall>i \<in> ids C. sq_of C i = {} \<longrightarrow> ps_of C i = -1 \<and> (sr_of C i = -1 \<or> sr_of C i \<in> fresh C0)" using p by (elim conjE)
  then show "i \<in> ids C \<Longrightarrow> sq_of C i = {} \<Longrightarrow> ps_of C i = -1 \<and> (sr_of C i = -1 \<or> sr_of C i \<in> fresh C0)" by blast
qed

lemma placing_start:
  assumes "cells_ok C"
  shows "placing C {} C"
  unfolding placing_def
proof (intro conjI ballI impI)
  fix i assume i: "i \<in> ids C"
  show "tl_of C i = -1 \<or> tl_of C i \<in> ids C" by (rule cells_okD(1)[OF assms i])
  show "q \<in> ids C" "tl_of C q = i" if "q \<in> sq_of C i" for q using cells_okD(2,3)[OF assms i] that by blast+
  then show "tl_of C q \<noteq> -1" if "q \<in> sq_of C i" for q using that i by auto
  assume t: "tl_of C i \<noteq> -1"
  show "i \<in> sq_of C (tl_of C i) \<or> sq_of C (tl_of C i) = {} \<and> i \<in> {} \<and> tl_of C i = -1" using tail_mem[OF assms i t] by blast
  show "sr_of C (tl_of C i) = tl_of C i" using tail_mem[OF assms i t] cells_okD(6)[OF assms, of "tl_of C i"] by blast
next
  fix i assume i: "i \<in> ids C" and e: "sq_of C i = {}"
  show "ps_of C i = -1" by (rule cells_okD(5)[OF assms i e])
  show "sr_of C i = -1 \<or> sr_of C i \<in> fresh C" using cells_okD(4)[OF assms i] i e by (auto simp: fresh_def)
qed auto

text \<open>A cell is free when it has no sequence and is no one's tail.  There is one when it is needed.\<close>

definition free_cell :: "mem_cell list \<Rightarrow> int \<Rightarrow> bool" where
  "free_cell C i \<longleftrightarrow> i \<in> ids C \<and> sq_of C i = {} \<and> (\<forall>q \<in> ids C. tl_of C q \<noteq> i)"

lemma free_exists:
  assumes P: "placing C0 A C" and q: "q \<in> ids C" and s: "tl_of C q = -1 \<or> (\<exists>j \<in> ids C. j \<noteq> q \<and> tl_of C j = tl_of C q)"
  shows "\<exists>i. free_cell C i"
proof (rule ccontr)
  assume none: "\<nexists>i. free_cell C i"
  have "ids C \<subseteq> tl_of C ` (ids C - {q})"
  proof
    fix i assume i: "i \<in> ids C"
    have "\<exists>x \<in> ids C. tl_of C x = i"
    proof (cases "sq_of C i = {}")
      case True
      then show ?thesis using none i by (auto simp: free_cell_def)
    next
      case False
      then obtain x where "x \<in> sq_of C i" by blast
      then show ?thesis using placingD(4)[OF P i] by blast
    qed
    then obtain x where x: "x \<in> ids C" "tl_of C x = i" by blast
    show "i \<in> tl_of C ` (ids C - {q})"
    proof (cases "x = q")
      case True
      then have "tl_of C q \<noteq> -1" using x(2) i by auto
      then obtain j where "j \<in> ids C" "j \<noteq> q" "tl_of C j = tl_of C q" using s by blast
      then show ?thesis using x True by (intro image_eqI[of _ _ j]) auto
    qed (use x in blast)
  qed
  then have "card (ids C) \<le> card (ids C - {q})" by (rule surj_card_le[rotated]) simp
  moreover have "card (ids C - {q}) < card (ids C)" using q by (intro card_Diff1_less) auto
  ultimately show False by simp
qed

section \<open>The circular search\<close>

lemma offset_inj:
  assumes "(p + d) mod n = (p + e) mod n" "d < n" "e < (n :: nat)"
  shows "d = e"
proof -
  have "(int p + int d) mod int n = (int p + int e) mod int n" using assms(1) by (metis of_nat_add of_nat_mod)
  then have "int n dvd int d - int e" by (simp add: mod_eq_dvd_iff)
  then have "int d - int e = 0 \<or> int n \<le> \<bar>int d - int e\<bar>" using dvd_imp_le_int by (metis abs_of_nat)
  then show ?thesis using assms(2,3) by linarith
qed

lemma offset_ex: "i < n \<Longrightarrow> \<exists>d < n. i = (p + d) mod (n :: nat)"
proof (intro exI conjI)
  assume i: "i < n"
  have "(p + (i + n - p mod n) mod n) mod n = (p mod n + (i + n - p mod n)) mod n" by (simp add: mod_simps)
  also have "p mod n + (i + n - p mod n) = i + n" using i mod_less_divisor[of n p] by linarith
  finally show "i = (p + (i + n - p mod n) mod n) mod n" using i by simp
  show "(i + n - p mod n) mod n < n" using i by simp
qed

lemma seek_empty_spec:
  assumes "p \<le> length C" "d < k" "mc_is_empty (C ! ((p + d) mod length C))" "\<And>e. e < d \<Longrightarrow> \<not> mc_is_empty (C ! ((p + e) mod length C))"
    and "0 < length C"
  shows "seek_empty k C p = (p + d) mod length C"
  using assms
proof (induction k arbitrary: p d)
  case (Suc k)
  let ?n = "length C"
  have p: "(if p \<ge> ?n then p - ?n else p) = p mod ?n" using Suc.prems(1,5) by (auto simp: le_mod_geq)
  show ?case
  proof (cases d)
    case 0
    then show ?thesis using Suc.prems p by (simp add: Let_def)
  next
    case (Suc d')
    have ne: "\<not> mc_is_empty (C ! (p mod ?n))" using Suc.prems(4)[of 0] Suc by simp
    have sh: "(p mod ?n + 1 + e) mod ?n = (p + Suc e) mod ?n" for e by (metis Suc_eq_plus1 add.assoc add.commute mod_add_left_eq)
    have "seek_empty k C (p mod ?n + 1) = (p mod ?n + 1 + d') mod ?n"
    proof (rule Suc.IH)
      show "p mod ?n + 1 \<le> ?n" using Suc.prems(5) by (simp add: Suc_leI)
      show "d' < k" using Suc.prems(2) Suc by simp
      show "mc_is_empty (C ! ((p mod ?n + 1 + d') mod ?n))" using Suc.prems(3) Suc sh by metis
      show "\<not> mc_is_empty (C ! ((p mod ?n + 1 + e) mod ?n))" if "e < d'" for e using Suc.prems(4)[of "Suc e"] that Suc sh by simp
    qed (rule Suc.prems(5))
    then show ?thesis using ne p Suc sh by (simp add: Let_def)
  qed
qed simp

lemma seek_next_spec:
  assumes "p < length C" "0 < d" "d \<le> k" "mc_is_empty (C ! ((p + d) mod length C))"
    "\<And>e. 0 < e \<Longrightarrow> e < d \<Longrightarrow> \<not> mc_is_empty (C ! ((p + e) mod length C))"
  shows "seek_next k C p = (p + d) mod length C"
  using assms
proof (induction k arbitrary: p d)
  case (Suc k)
  let ?n = "length C"
  have p: "(if p + 1 \<ge> ?n then p + 1 - ?n else p + 1) = (p + 1) mod ?n" using Suc.prems(1) by (auto simp: le_mod_geq)
  show ?case
  proof (cases "d = 1")
    case True
    then show ?thesis unfolding seek_next.simps Let_def p using Suc.prems by simp
  next
    case False
    then obtain d' where d: "d = Suc d'" "0 < d'" using Suc.prems(2) by (cases d) auto
    have ne: "\<not> mc_is_empty (C ! ((p + 1) mod ?n))" using Suc.prems(5)[of 1] d by simp
    have sh: "((p + 1) mod ?n + e) mod ?n = (p + Suc e) mod ?n" for e by (simp add: mod_simps)
    have "seek_next k C ((p + 1) mod ?n) = ((p + 1) mod ?n + d') mod ?n"
    proof (rule Suc.IH)
      show "(p + 1) mod ?n < ?n" using Suc.prems(1) by (intro mod_less_divisor) linarith
      show "0 < d'" "d' \<le> k" using Suc.prems(3) d by auto
      show "mc_is_empty (C ! (((p + 1) mod ?n + d') mod ?n))" using Suc.prems(4) d sh by metis
      show "\<not> mc_is_empty (C ! (((p + 1) mod ?n + e) mod ?n))" if "0 < e" "e < d'" for e using Suc.prems(5)[of "Suc e"] that d sh by simp
    qed
    then show ?thesis unfolding seek_next.simps Let_def p using ne d sh by simp
  qed
qed simp

text \<open>
  Where the search stands: \<open>next_empty\<close> is a free cell if there is one, at distance \<open>d\<close> from the start \<open>p\<close>; the
  reserved cells lie before it and the other free cells after it.
\<close>

definition scan :: "mem_cell list \<Rightarrow> nat \<Rightarrow> nat \<Rightarrow> nat \<Rightarrow> bool" where
  "scan C p d e \<longleftrightarrow> d < length C \<and> e = (p + d) mod length C \<and> free_cell C (int e) \<and>
     (\<forall>i < length C. mc_is_empty (C ! i) \<and> \<not> free_cell C (int i) \<longrightarrow> (\<exists>k < d. i = (p + k) mod length C)) \<and>
     (\<forall>k < d. \<not> free_cell C (int ((p + k) mod length C)))"

definition scanned :: "mem_cell list \<Rightarrow> nat \<Rightarrow> nat \<Rightarrow> bool" where
  "scanned C p e \<longleftrightarrow> ((\<exists>i. free_cell C i) \<longrightarrow> (\<exists>d. scan C p d e))"

lemma free_cell_nat: "free_cell C i \<Longrightarrow> nat i < length C \<and> int (nat i) = i \<and> mc_is_empty (C ! nat i)"
  by (auto simp: free_cell_def mc_is_empty_def)

lemma scanned_start:
  assumes ok: "cells_ok C" and p: "p < length C"
  shows "scanned C p (seek_empty (length C) C p)"
  unfolding scanned_def
proof
  let ?n = "length C"
  assume "\<exists>i. free_cell C i"
  then obtain i where i: "free_cell C i" by blast
  have emp: "free_cell C (int j) \<longleftrightarrow> mc_is_empty (C ! j)" if "j < ?n" for j
    using that cells_okD(3)[OF ok, of "int j"] by (auto simp: free_cell_def mc_is_empty_def)
  define d where "d = (LEAST d. mc_is_empty (C ! ((p + d) mod ?n)))"
  obtain d0 where d0: "d0 < ?n" "nat i = (p + d0) mod ?n" using offset_ex[of "nat i" ?n p] free_cell_nat[OF i] by blast
  have e0: "mc_is_empty (C ! ((p + d0) mod ?n))" using free_cell_nat[OF i] d0(2) by simp
  have d: "mc_is_empty (C ! ((p + d) mod ?n))" unfolding d_def by (rule LeastI[of _ d0]) (rule e0)
  have dn: "d < ?n" using Least_le[of "\<lambda>d. mc_is_empty (C ! ((p + d) mod ?n))", OF e0] d0(1) by (simp add: d_def)
  have before: "\<not> mc_is_empty (C ! ((p + k) mod ?n))" if "k < d" for k using not_less_Least[of k] that by (simp add: d_def)
  have m: "(p + k) mod ?n < ?n" for k by (rule mod_less_divisor) (use p in linarith)
  have "seek_empty ?n C p = (p + d) mod ?n" by (rule seek_empty_spec) (use p dn d before in auto)
  then have "scan C p d (seek_empty ?n C p)" unfolding scan_def using d dn before by (simp add: emp[OF m] emp)
  then show "\<exists>d. scan C p d (seek_empty ?n C p)" by blast
qed

text \<open>Taking the cell and searching on.\<close>

lemma scanned_next:
  assumes sc: "scan C p d e" and len: "length C' = length C"
    and fr: "\<And>i. free_cell C' i \<longleftrightarrow> free_cell C i \<and> i \<noteq> int e"
    and em: "\<And>i. i < length C \<Longrightarrow> i \<noteq> e \<Longrightarrow> mc_is_empty (C' ! i) \<longleftrightarrow> mc_is_empty (C ! i)"
  shows "scanned C' p (seek_next (length C') C' e)"
  unfolding scanned_def
proof
  let ?n = "length C"
  have d: "d < ?n" and e1: "e = (p + d) mod ?n" and res: "\<And>i. i < ?n \<Longrightarrow> mc_is_empty (C ! i) \<Longrightarrow> \<not> free_cell C (int i) \<Longrightarrow> \<exists>k < d. i = (p + k) mod ?n"
    and nf: "\<And>k. k < d \<Longrightarrow> \<not> free_cell C (int ((p + k) mod ?n))"
    using sc unfolding scan_def by blast+
  have e: "e = (p + d) mod ?n" "e < ?n" using e1 d mod_less_divisor[of ?n "p + d"] by linarith+
  assume "\<exists>i. free_cell C' i"
  then obtain i where i: "free_cell C i" "i \<noteq> int e" "free_cell C' i" using fr by blast
  obtain d0 where d0: "d0 < ?n" "nat i = (p + d0) mod ?n" using offset_ex[of "nat i" ?n p] free_cell_nat[OF i(1)] by blast
  have gt: "d < d0"
  proof (rule ccontr)
    assume "\<not> d < d0"
    then consider "d0 < d" | "d0 = d" by linarith
    then show False
      using nf[of d0] i d0 e free_cell_nat[OF i(1)] by cases auto
  qed
  define x where "x = (LEAST x. 0 < x \<and> mc_is_empty (C' ! ((e + x) mod ?n)))"
  have sh: "(e + x) mod ?n = (p + (d + x)) mod ?n" for x by (simp add: e(1) mod_simps add.assoc)
  have e0: "0 < d0 - d \<and> mc_is_empty (C' ! ((e + (d0 - d)) mod ?n))" using gt sh[of "d0 - d"] d0 free_cell_nat[OF i(3)] by simp
  have x: "0 < x" "mc_is_empty (C' ! ((e + x) mod ?n))" unfolding x_def using LeastI[of "\<lambda>x. 0 < x \<and> mc_is_empty (C' ! ((e + x) mod ?n))", OF e0] by blast+
  have xle: "d + x \<le> d0" using Least_le[of "\<lambda>x. 0 < x \<and> mc_is_empty (C' ! ((e + x) mod ?n))", OF e0] gt by (simp add: x_def)
  have before: "\<not> mc_is_empty (C' ! ((e + k) mod ?n))" if "0 < k" "k < x" for k
    using not_less_Least[of k "\<lambda>x. 0 < x \<and> mc_is_empty (C' ! ((e + x) mod ?n))"] that by (simp add: x_def)
  have nxt: "seek_next (length C') C' e = (p + (d + x)) mod ?n"
    using seek_next_spec[of e C' x "length C'"] e len x xle d0(1) before sh by simp
  have m: "(p + k) mod ?n < ?n" for k by (rule mod_less_divisor) (use d in linarith)
  have lt: "d + x < ?n" using xle d0 by linarith
  let ?y = "(p + (d + x)) mod ?n"
  have ye: "?y \<noteq> e" using offset_inj[of p "d + x" ?n d] lt d x(1) e(1) by auto
  have yem: "mc_is_empty (C ! ?y)" using x(2) em[OF m ye] sh by metis
  have yf: "free_cell C (int ?y)"
  proof (rule ccontr)
    assume "\<not> free_cell C (int ?y)"
    then obtain k where "k < d" "?y = (p + k) mod ?n" using res[OF m yem] by blast
    then show False using offset_inj[of p "d + x" ?n k] lt d by simp
  qed
  have "scan C' p (d + x) ?y"
    unfolding scan_def
  proof (intro conjI allI impI)
    show "d + x < length C'" "?y = (p + (d + x)) mod length C'" using lt len by auto
    show "free_cell C' (int ?y)" using fr yf ye by simp
    show "\<exists>k < d + x. i = (p + k) mod length C'" if "i < length C'" "mc_is_empty (C' ! i) \<and> \<not> free_cell C' (int i)" for i
    proof (cases "i = e")
      case True
      then show ?thesis using e(1) x(1) len by (intro exI[of _ d]) simp
    next
      case False
      then have "mc_is_empty (C ! i)" "\<not> free_cell C (int i)" using that em fr len by auto
      moreover have "i < ?n" using that(1) len by simp
      ultimately obtain k where "k < d" "i = (p + k) mod ?n" using res[of i] by blast
      then show ?thesis using len by (intro exI[of _ k]) simp
    qed
    show "\<not> free_cell C' (int ((p + k) mod length C'))" if "k < d + x" for k
    proof -
      consider "k < d" | "k = d" | "d < k" by linarith
      then show ?thesis
      proof cases
        case 1
        then show ?thesis using nf fr len by simp
      next
        case 2
        then show ?thesis using e fr len by simp
      next
        case 3
        then have "\<not> mc_is_empty (C' ! ((p + k) mod ?n))" using before[of "k - d"] that sh[of "k - d"] by simp
        then show ?thesis using free_cell_nat[of C' "int ((p + k) mod ?n)"] len by auto
      qed
    qed
  qed
  then show "\<exists>d. scan C' p d (seek_next (length C') C' e)" using nxt by auto
qed

section \<open>One step of the phase\<close>

text \<open>Sequence \<open>q\<close> moves from its shared cell, or from nowhere, to the free cell \<open>e\<close>.\<close>

definition move_to :: "mem_cell list \<Rightarrow> int \<Rightarrow> int \<Rightarrow> mem_cell list \<Rightarrow> bool" where
  "move_to C q e C' \<longleftrightarrow> length C' = length C \<and> (let t = tl_of C q in \<forall>j \<in> ids C.
     tl_of C' j = (if j = q then e else tl_of C j) \<and>
     sq_of C' j = (if t = -1 then sq_of C j else if j = e then {q} else if j = t then sq_of C j - {q} else sq_of C j) \<and>
     ps_of C' j = (if t \<noteq> -1 \<and> j = e then ps_of C t else ps_of C j) \<and>
     sr_of C' j = (if t \<noteq> -1 \<and> j = e then sr_of C t else sr_of C j))"

lemma move_toD:
  assumes "move_to C q e C'"
  shows "length C' = length C"
    "j \<in> ids C \<Longrightarrow> tl_of C' j = (if j = q then e else tl_of C j)"
    "j \<in> ids C \<Longrightarrow> sq_of C' j = (if tl_of C q = -1 then sq_of C j else if j = e then {q} else if j = tl_of C q then sq_of C j - {q} else sq_of C j)"
    "j \<in> ids C \<Longrightarrow> ps_of C' j = (if tl_of C q \<noteq> -1 \<and> j = e then ps_of C (tl_of C q) else ps_of C j)"
    "j \<in> ids C \<Longrightarrow> sr_of C' j = (if tl_of C q \<noteq> -1 \<and> j = e then sr_of C (tl_of C q) else sr_of C j)"
  using assms unfolding move_to_def Let_def by (simp, metis+)

lemma move_to_free:
  assumes P: "placing C0 A C" and q: "q \<in> ids C" and e: "free_cell C e" and mv: "move_to C q e C'"
    and sh: "tl_of C q \<noteq> -1 \<Longrightarrow> q \<in> sq_of C (tl_of C q) \<and> (\<exists>j \<in> sq_of C (tl_of C q). j \<noteq> q)"
  shows "free_cell C' i \<longleftrightarrow> free_cell C i \<and> i \<noteq> e"
    "i \<in> ids C \<Longrightarrow> i \<noteq> e \<Longrightarrow> sq_of C' i = {} \<longleftrightarrow> sq_of C i = {}"
proof -
  note m = move_toD[OF mv]
  show em: "sq_of C' i = {} \<longleftrightarrow> sq_of C i = {}" if "i \<in> ids C" "i \<noteq> e" for i
    using m(3)[OF that(1)] that sh by (cases "i = tl_of C q") auto
  show "free_cell C' i \<longleftrightarrow> free_cell C i \<and> i \<noteq> e"
  proof (cases "i \<in> ids C \<and> i \<noteq> e")
    case True
    have "(\<forall>j \<in> ids C. tl_of C' j \<noteq> i) \<longleftrightarrow> (\<forall>j \<in> ids C. tl_of C j \<noteq> i)" if "sq_of C i = {}"
    proof -
      have "tl_of C q \<noteq> i" using sh that True by auto
      then show ?thesis using m(2) True q by auto
    qed
    then show ?thesis using True em[of i] m(1) by (auto simp: free_cell_def)
  next
    case False
    have "tl_of C' q = e" using m(2)[OF q] by simp
    then show ?thesis using False m(1) q by (auto simp: free_cell_def)
  qed
qed

lemma move_to_placing:
  assumes P: "placing C0 A C" and q: "q \<in> ids C" "q \<notin> A" and e: "free_cell C e" and mv: "move_to C q e C'"
    and sh: "tl_of C q \<noteq> -1 \<Longrightarrow> q \<in> sq_of C (tl_of C q) \<and> (\<exists>j \<in> sq_of C (tl_of C q). j \<noteq> q)"
  shows "placing C0 (insert q A) C'"
proof -
  note m = move_toD[OF mv] and p = placingD[OF P]
  let ?t = "tl_of C q"
  have ids: "ids C' = ids C" using m(1) by simp
  have eC: "e \<in> ids C" "sq_of C e = {}" "\<And>j. j \<in> ids C \<Longrightarrow> tl_of C j \<noteq> e" using e by (auto simp: free_cell_def)
  have te: "?t \<noteq> e" by (rule eC(3)[OF q(1)])
  have t0: "tl_of C0 q = -1" if "?t = -1" using p(7)[OF q(1)] that by blast
  have tA: "?t \<noteq> tl_of C j" if "j \<in> A" for j
  proof
    assume "?t = tl_of C j"
    then have "q = j" using p(6)[OF that] q(1) by blast
    then show False using q(2) that by simp
  qed
  show ?thesis
    unfolding placing_def ids
  proof (intro conjI)
    show "length C' = length C0" using m(1) p(1) by simp
    show "insert q A \<subseteq> ids C" using p(2) q by blast
    show "\<forall>j \<in> ids C. tl_of C' j = -1 \<or> tl_of C' j \<in> ids C" using m(2) p(3) eC(1) by auto
    show "\<forall>i \<in> ids C. \<forall>j \<in> sq_of C' i. j \<in> ids C \<and> tl_of C' j = i \<and> tl_of C0 j \<noteq> -1"
    proof (intro ballI)
      fix i j assume i: "i \<in> ids C" and j: "j \<in> sq_of C' i"
      consider "?t \<noteq> -1" "i = e" "j = q" | "j \<in> sq_of C i" "?t \<noteq> -1" "i = ?t" "j \<noteq> q" | "j \<in> sq_of C i" "?t = -1 \<or> i \<noteq> ?t"
        using m(3)[OF i] j by (auto split: if_splits)
      then show "j \<in> ids C \<and> tl_of C' j = i \<and> tl_of C0 j \<noteq> -1"
      proof cases
        case 1
        then show ?thesis using q m(2)[OF q(1)] p(8)[OF q(1) _ q(2)] by auto
      next
        case 2
        then show ?thesis using p(4)[OF i 2(1)] m(2)[of j] by simp
      next
        case 3
        have j': "j \<in> ids C" "tl_of C j = i" "tl_of C0 j \<noteq> -1" using p(4)[OF i 3(1)] by auto
        then have "j \<noteq> q" using 3(2) i by auto
        then show ?thesis using j' m(2)[of j] by simp
      qed
    qed
    show "\<forall>j \<in> ids C. tl_of C' j \<noteq> -1 \<longrightarrow> j \<in> sq_of C' (tl_of C' j) \<or> sq_of C' (tl_of C' j) = {} \<and> j \<in> insert q A \<and> tl_of C0 j = -1"
    proof (intro ballI impI)
      fix j assume j: "j \<in> ids C" and n: "tl_of C' j \<noteq> -1"
      show "j \<in> sq_of C' (tl_of C' j) \<or> sq_of C' (tl_of C' j) = {} \<and> j \<in> insert q A \<and> tl_of C0 j = -1"
      proof (cases "j = q")
        case True
        then show ?thesis using m(2)[OF q(1)] m(3)[OF eC(1)] eC t0 by simp
      next
        case False
        then have tl: "tl_of C' j = tl_of C j" using m(2)[OF j] by simp
        have x: "tl_of C j \<in> ids C" "tl_of C j \<noteq> e" using p(3)[OF j] n tl eC(3)[OF j] by auto
        show ?thesis using p(5)[OF j] n False m(3)[OF x(1)] x(2) tA[of j] sh by (auto simp: tl)
      qed
    qed
    show "\<forall>j \<in> insert q A. tl_of C' j \<noteq> -1 \<and> (\<forall>k \<in> ids C. tl_of C' k = tl_of C' j \<longrightarrow> k = j)"
    proof (intro ballI conjI impI)
      fix j assume j: "j \<in> insert q A"
      then have j': "j \<in> ids C" using p(2) q by blast
      show "tl_of C' j \<noteq> -1" using m(2)[OF j'] p(6)[of j] j eC(1) by (cases "j = q") auto
      fix k assume k: "k \<in> ids C" "tl_of C' k = tl_of C' j"
      show "k = j" using j k m(2)[OF j'] m(2)[OF k(1)] eC(3) p(6)[of j] j' q by (cases "j = q"; cases "k = q") auto
    qed
    show "\<forall>j \<in> ids C. tl_of C0 j \<noteq> -1 \<longrightarrow> tl_of C' j \<noteq> -1 \<and> sr_of C' (tl_of C' j) = tl_of C0 j \<and> ps_of C' (tl_of C' j) = ps_of C0 (tl_of C0 j)"
    proof (intro ballI impI)
      fix j assume j: "j \<in> ids C" and n: "tl_of C0 j \<noteq> -1"
      note pj = p(7)[OF j n]
      show "tl_of C' j \<noteq> -1 \<and> sr_of C' (tl_of C' j) = tl_of C0 j \<and> ps_of C' (tl_of C' j) = ps_of C0 (tl_of C0 j)"
      proof (cases "j = q")
        case True
        then show ?thesis using pj m(2)[OF j] m(4,5)[OF eC(1)] eC(1) by auto
      next
        case False
        have "tl_of C j \<in> ids C" "tl_of C j \<noteq> e" using p(3)[OF j] pj eC(3)[OF j] by auto
        then show ?thesis using False pj m(2)[OF j] m(4,5)[of "tl_of C j"] by simp
      qed
    qed
    show "\<forall>j \<in> ids C. tl_of C0 j = -1 \<longrightarrow> j \<notin> insert q A \<longrightarrow> tl_of C' j = -1" using m(2) p(8) by auto
    show "\<forall>i \<in> ids C. sq_of C' i = {} \<longrightarrow> ps_of C' i = -1 \<and> (sr_of C' i = -1 \<or> sr_of C' i \<in> fresh C0)"
    proof (intro ballI impI)
      fix i assume i: "i \<in> ids C" and em: "sq_of C' i = {}"
      have x: "\<not> (?t \<noteq> -1 \<and> i = e)" using m(3)[OF i] em by auto
      have "sq_of C i = {}" using m(3)[OF i] em sh x by (auto split: if_splits)
      then show "ps_of C' i = -1 \<and> (sr_of C' i = -1 \<or> sr_of C' i \<in> fresh C0)" using p(9)[OF i] m(4,5)[OF i] x by simp
    qed
  qed
qed

lemma own_cell_run:
  assumes q: "q \<in> ids C" "set_first u s = Some q" and e: "free_cell C (int e)"
    and sh: "tl_of C q \<noteq> -1 \<Longrightarrow> tl_of C q \<in> ids C \<and> q \<in> sq_of C (tl_of C q) \<and> card (sq_of C (tl_of C q)) \<noteq> 1 \<and> (\<exists>j \<in> sq_of C (tl_of C q). j \<noteq> q)"
  obtains C' where "move_to C q (int e) C'"
    "own_cell u s (C, e, mn, mx) = Some (C', if s + 1 < u_n_seqs u then seek_next (length C') C' e else e, min mn (int e), max mx (int e))"
proof -
  let ?t = "tl_of C q" and ?o = "C ! nat (tl_of C q)"
  have eC: "int e \<in> ids C" "mc_seq_id (C ! e) = {}" "?t \<noteq> int e" using e q by (auto simp: free_cell_def)
  let ?C1 = "C[e := (C ! e)\<lparr>mc_pos := mc_pos ?o, mc_src := mc_src ?o\<rparr>]"
  let ?C2 = "mc_upd ?t (\<lambda>c. c\<lparr>mc_seq_id := mc_seq_id c - {q}\<rparr>) ?C1"
  let ?C3 = "?C2[e := (?C2 ! e)\<lparr>mc_seq_id := insert q (mc_seq_id (?C2 ! e))\<rparr>]"
  define D where "D = (if ?t = -1 then C else ?C3)"
  define C' where "C' = mc_upd q (\<lambda>c. c\<lparr>mc_tail := int e\<rparr>) D"
  have D: "length D = length C" by (simp add: D_def)
  have C': "C' ! nat j = (if j = q then (D ! nat j)\<lparr>mc_tail := int e\<rparr> else D ! nat j)" if "j \<in> ids C" for j
    using mc_upd_nth[of q D j] q that D by (auto simp: C'_def)
  have tC: "?t \<in> ids C" if "?t \<noteq> -1" using sh that by blast
  have Dn: "D ! nat j = (if ?t = -1 then C ! nat j
      else if j = int e then (C ! e)\<lparr>mc_pos := mc_pos ?o, mc_src := mc_src ?o, mc_seq_id := {q}\<rparr>
      else if j = ?t then ?o\<lparr>mc_seq_id := mc_seq_id ?o - {q}\<rparr> else C ! nat j)" if "j \<in> ids C" for j
  proof (cases "?t = -1")
    case False
    have n: "nat ?t \<noteq> e" "nat ?t < length C" "e < length C" "nat j < length C" "nat j = e \<longleftrightarrow> j = int e" "nat j = nat ?t \<longleftrightarrow> j = ?t"
      using tC[OF False] eC that by auto
    have "?C3 ! k = (if k = e then (C ! e)\<lparr>mc_pos := mc_pos ?o, mc_src := mc_src ?o, mc_seq_id := {q}\<rparr>
      else if k = nat ?t then ?o\<lparr>mc_seq_id := mc_seq_id ?o - {q}\<rparr> else C ! k)" if "k < length C" for k
      using n(1-3) eC(2) that by (auto simp: mc_upd_def nth_list_update)
    from this[OF n(4)] show ?thesis using False n(5,6) by (simp only: D_def if_False)
  qed (simp add: D_def)
  have mv: "move_to C q (int e) C'"
    unfolding move_to_def Let_def
  proof (intro conjI ballI)
    show "length C' = length C" by (simp add: C'_def D)
    fix j assume j: "j \<in> ids C"
    show "tl_of C' j = (if j = q then int e else tl_of C j)"
      "sq_of C' j = (if ?t = -1 then sq_of C j else if j = int e then {q} else if j = ?t then sq_of C j - {q} else sq_of C j)"
      "ps_of C' j = (if ?t \<noteq> -1 \<and> j = int e then ps_of C ?t else ps_of C j)"
      "sr_of C' j = (if ?t \<noteq> -1 \<and> j = int e then sr_of C ?t else sr_of C j)"
      using C'[OF j] Dn[OF j] eC by auto
  qed
  have tq: "tl_of C' q = int e" using C'[OF q(1)] by simp
  have len: "length C' = length C" by (simp add: C'_def D)
  have nonempty: "\<not> mc_is_empty (?C3 ! nat ?t)" if "?t \<noteq> -1"
    using Dn[OF tC[OF that]] sh[OF that] that eC by (auto simp: D_def mc_is_empty_def)
  have run: "own_cell u s (C, e, mn, mx) = Some (C', if s + 1 < u_n_seqs u then seek_next (length C') C' e else e, min mn (int e), max mx (int e))"
  proof -
    have c: "(if ?t \<ge> 0 then copy_tail q ?t e C else Some C) = Some D"
    proof (cases "?t = -1")
      case False
      then have "?t \<ge> 0" "copy_tail q ?t e C = Some ?C3" using tC nonempty unfolding copy_tail_def Let_def by simp_all
      then show ?thesis using False by (simp only: D_def if_True if_False)
    qed (simp add: D_def)
    have h: "(if ?t \<ge> 0 then Option.bind (require (rec_valid ?t C \<and> has_seq_id q (C ! nat ?t))) (\<lambda>_. Some (card (sq_of C ?t) = 1)) else Some False) = Some False"
      using sh tC by (cases "?t = -1") (auto simp: has_seq_id_def)
    show ?thesis using q eC tq c h by (simp add: own_cell_def Let_def mc_is_empty_def flip: C'_def)
  qed
  show ?thesis by (rule that[OF mv run])
qed

lemma own_cell_ok:
  assumes P: "placing C0 A C" and q: "q \<in> ids C" "q \<notin> A" "set_first u s = Some q" and sc: "scanned C p e"
  shows "\<exists>C' e'. own_cell u s (C, e, mn, mx) = Some (C', e', min mn (tl_of C' q), max mx (tl_of C' q)) \<and>
    placing C0 (insert q A) C' \<and> (s + 1 < u_n_seqs u \<longrightarrow> scanned C' p e') \<and> (\<forall>j \<in> A. tl_of C' j = tl_of C j) \<and>
    (\<forall>i \<in> ids C. sr_of C' i = sr_of C i \<or> i = tl_of C' q)"
proof -
  let ?t = "tl_of C q"
  note p = placingD[OF P]
  have mem: "?t \<in> ids C" "q \<in> sq_of C ?t" "finite (sq_of C ?t)" if "?t \<noteq> -1"
  proof -
    show "?t \<in> ids C" "q \<in> sq_of C ?t" using p(3,5)[OF q(1)] that q(2) by auto
    then have "sq_of C ?t \<subseteq> ids C" using p(4) by blast
    then show "finite (sq_of C ?t)" by (rule finite_subset) simp
  qed
  show ?thesis
  proof (cases "?t \<noteq> -1 \<and> card (sq_of C ?t) = 1")
    case True
    then obtain x where x: "sq_of C ?t = {x}" using card_1_singletonE by metis
    then have own: "sq_of C ?t = {q}" using mem True by auto
    have run: "own_cell u s (C, e, mn, mx) = Some (C, e, min mn ?t, max mx ?t)"
      using q True mem own by (simp add: own_cell_def Let_def has_seq_id_def)
    have "placing C0 (insert q A) C"
      unfolding placing_def
    proof (intro conjI)
      show "\<forall>j \<in> insert q A. tl_of C j \<noteq> -1 \<and> (\<forall>k \<in> ids C. tl_of C k = tl_of C j \<longrightarrow> k = j)"
      proof (intro ballI conjI impI)
        fix j assume j: "j \<in> insert q A"
        show "tl_of C j \<noteq> -1" using p(6)[of j] j True by blast
        fix k assume k: "k \<in> ids C" "tl_of C k = tl_of C j"
        show "k = j"
        proof (cases "j = q")
          case True
          then show ?thesis using p(5)[OF k(1)] k own \<open>?t \<noteq> -1 \<and> card (sq_of C ?t) = 1\<close> by auto
        next
          case False
          then show ?thesis using p(6)[of j] j k by blast
        qed
      qed
      show "\<forall>j \<in> ids C. tl_of C j \<noteq> -1 \<longrightarrow> j \<in> sq_of C (tl_of C j) \<or> sq_of C (tl_of C j) = {} \<and> j \<in> insert q A \<and> tl_of C0 j = -1"
        using p(5) by blast
      show "length C = length C0" by (rule p(1))
      show "insert q A \<subseteq> ids C" using p(2) q(1) by blast
      show "\<forall>j \<in> ids C. tl_of C j = -1 \<or> tl_of C j \<in> ids C" using p(3) by blast
      show "\<forall>i \<in> ids C. \<forall>j \<in> sq_of C i. j \<in> ids C \<and> tl_of C j = i \<and> tl_of C0 j \<noteq> -1" using p(4) by blast
      show "\<forall>j \<in> ids C. tl_of C0 j \<noteq> -1 \<longrightarrow> tl_of C j \<noteq> -1 \<and> sr_of C (tl_of C j) = tl_of C0 j \<and> ps_of C (tl_of C j) = ps_of C0 (tl_of C0 j)"
        using p(7) by blast
      show "\<forall>j \<in> ids C. tl_of C0 j = -1 \<longrightarrow> j \<notin> insert q A \<longrightarrow> tl_of C j = -1" using p(8) by blast
      show "\<forall>i \<in> ids C. sq_of C i = {} \<longrightarrow> ps_of C i = -1 \<and> (sr_of C i = -1 \<or> sr_of C i \<in> fresh C0)" using p(9) by blast
    qed
    then show ?thesis using run sc by (intro exI[of _ C] exI[of _ e]) blast
  next
    case False
    have sh: "?t \<noteq> -1 \<Longrightarrow> ?t \<in> ids C \<and> q \<in> sq_of C ?t \<and> card (sq_of C ?t) \<noteq> 1 \<and> (\<exists>j \<in> sq_of C ?t. j \<noteq> q)"
    proof -
      assume t: "?t \<noteq> -1"
      have "\<exists>j \<in> sq_of C ?t. j \<noteq> q"
      proof (rule ccontr)
        assume "\<not> (\<exists>j \<in> sq_of C ?t. j \<noteq> q)"
        then have "sq_of C ?t = {q}" using mem(2)[OF t] by blast
        then show False using False t by simp
      qed
      then show ?thesis using mem[OF t] False t by blast
    qed
    have "?t = -1 \<or> (\<exists>j \<in> ids C. j \<noteq> q \<and> tl_of C j = ?t)"
    proof (cases "?t = -1")
      case f: False
      then obtain j where j: "j \<in> sq_of C ?t" "j \<noteq> q" using sh by blast
      then show ?thesis using p(4)[OF mem(1)[OF f] j(1)] by blast
    qed simp
    from free_exists[OF P q(1) this] obtain d where d: "scan C p d e" using sc unfolding scanned_def by blast
    then have e: "free_cell C (int e)" unfolding scan_def by blast
    obtain C' where C': "move_to C q (int e) C'"
      "own_cell u s (C, e, mn, mx) = Some (C', if s + 1 < u_n_seqs u then seek_next (length C') C' e else e, min mn (int e), max mx (int e))"
      by (rule own_cell_run[OF q(1,3) e sh])
    note m = move_toD[OF C'(1)]
    have sh': "?t \<noteq> -1 \<Longrightarrow> q \<in> sq_of C ?t \<and> (\<exists>j \<in> sq_of C ?t. j \<noteq> q)" using sh by blast
    have pl: "placing C0 (insert q A) C'" by (rule move_to_placing[OF P q(1,2) e C'(1) sh'])
    have sn: "scanned C' p (seek_next (length C') C' e)"
    proof (rule scanned_next[OF d m(1)])
      show "free_cell C' i \<longleftrightarrow> free_cell C i \<and> i \<noteq> int e" for i by (rule move_to_free(1)[OF P q(1) e C'(1) sh'])
      show "mc_is_empty (C' ! i) \<longleftrightarrow> mc_is_empty (C ! i)" if "i < length C" "i \<noteq> e" for i
        using move_to_free(2)[OF P q(1) e C'(1) sh', of "int i"] that by (simp add: mc_is_empty_def)
    qed
    have tq: "tl_of C' q = int e" using m(2)[OF q(1)] by simp
    have tA: "\<forall>j \<in> A. tl_of C' j = tl_of C j" using m(2) p(2) q(2) by (metis subsetD)
    have sr: "\<forall>i \<in> ids C. sr_of C' i = sr_of C i \<or> i = tl_of C' q" using m(5) tq by (metis (no_types))
    show ?thesis using C'(2) pl sn tA sr by (intro exI[of _ C'] exI[of _ "if s + 1 < u_n_seqs u then seek_next (length C') C' e else e"]) (simp add: tq)
  qed
qed

end
