(* ===== verification/Rec_Find.thy ===== *)
theory Rec_Find
  imports Rec_Slot
begin

text \<open>
  The rest of \<^verbatim>\<open>find_slot\<close> of the recurrent memory, and the whole: the call succeeds for every ubatch whose
  sequence sets are disjoint and fit into the memory, keeps the invariant, and tells the graph where
  every state is.
\<close>

section \<open>Ubatches\<close>

definition set_last_pos :: "llama_ubatch \<Rightarrow> nat \<Rightarrow> llama_pos" where
  "set_last_pos u s = u_pos u ! (set_token u s + u_n_seq_tokens u - 1)"

definition rec_ubatch_ok :: "llama_ubatch \<Rightarrow> nat \<Rightarrow> bool" where
  "rec_ubatch_ok u n \<longleftrightarrow> u_equal_seqs u \<and> 0 < u_n_seqs u \<and> 0 < u_n_seq_tokens u \<and> u_n_seqs u * u_n_seq_tokens u \<le> length (u_pos u) \<and>
     (\<forall>s < u_n_seqs u. set_ids u s \<noteq> [] \<and> distinct (set_ids u s) \<and> set (set_ids u s) \<subseteq> {0..<int n} \<and> 0 \<le> set_last_pos u s) \<and>
     (\<forall>s < u_n_seqs u. \<forall>r < u_n_seqs u. s \<noteq> r \<longrightarrow> set (set_ids u s) \<inter> set (set_ids u r) = {})"

lemma rec_ubatch_okD:
  assumes "rec_ubatch_ok u n"
  shows "u_equal_seqs u" "0 < u_n_seqs u" "0 < u_n_seq_tokens u" "u_n_seqs u * u_n_seq_tokens u \<le> length (u_pos u)"
    "s < u_n_seqs u \<Longrightarrow> set_ids u s \<noteq> []" "s < u_n_seqs u \<Longrightarrow> distinct (set_ids u s)"
    "s < u_n_seqs u \<Longrightarrow> set (set_ids u s) \<subseteq> {0..<int n}" "s < u_n_seqs u \<Longrightarrow> 0 \<le> set_last_pos u s"
    "s < u_n_seqs u \<Longrightarrow> r < u_n_seqs u \<Longrightarrow> q \<in> set (set_ids u s) \<Longrightarrow> q \<in> set (set_ids u r) \<Longrightarrow> s = r"
  using assms unfolding rec_ubatch_ok_def by blast+

definition seq_of :: "llama_ubatch \<Rightarrow> nat \<Rightarrow> llama_seq_id" where
  "seq_of u s = hd (set_ids u s)"

definition firsts :: "llama_ubatch \<Rightarrow> nat \<Rightarrow> int set" where
  "firsts u k = seq_of u ` {..<k}"

definition batch_ids :: "llama_ubatch \<Rightarrow> int set" where
  "batch_ids u = (\<Union>s < u_n_seqs u. set (set_ids u s))"

lemma seq_of_ok:
  assumes "rec_ubatch_ok u n" "s < u_n_seqs u"
  shows "set_first u s = Some (seq_of u s)" "seq_of u s \<in> set (set_ids u s)" "seq_of u s \<in> {0..<int n}"
    "set (set_ids u s) = insert (seq_of u s) (set (drop 1 (set_ids u s)))" "seq_of u s \<notin> set (drop 1 (set_ids u s))"
proof -
  note d = rec_ubatch_okD(5-7)[OF assms]
  show "seq_of u s \<in> set (set_ids u s)" using d(1) by (simp add: seq_of_def)
  then show "seq_of u s \<in> {0..<int n}" using d(3) by blast
  obtain q qs where q: "set_ids u s = q # qs" using d(1) by (cases "set_ids u s") auto
  show "set_first u s = Some (seq_of u s)" using q by (auto simp: set_first_def seq_of_def set_ids_def take_Cons' split: list.splits if_splits)
  show "set (set_ids u s) = insert (seq_of u s) (set (drop 1 (set_ids u s)))" "seq_of u s \<notin> set (drop 1 (set_ids u s))"
    using q d(2) by (auto simp: seq_of_def)
qed

lemma seq_of_inj: "rec_ubatch_ok u n \<Longrightarrow> s < u_n_seqs u \<Longrightarrow> r < u_n_seqs u \<Longrightarrow> seq_of u s = seq_of u r \<Longrightarrow> s = r"
  using rec_ubatch_okD(9) seq_of_ok(2) by metis

lemma firsts_Suc: "firsts u (Suc k) = insert (seq_of u k) (firsts u k)"
  by (simp add: firsts_def lessThan_Suc)

lemma card_firsts: "rec_ubatch_ok u n \<Longrightarrow> card (firsts u (u_n_seqs u)) = u_n_seqs u"
  unfolding firsts_def by (subst card_image) (auto simp: inj_on_def dest: seq_of_inj)

section \<open>A cell for every set\<close>

definition own_inv :: "llama_ubatch \<Rightarrow> nat \<Rightarrow> mem_cell list \<Rightarrow> nat \<Rightarrow> mem_cell list \<times> nat \<times> int \<times> int \<Rightarrow> bool" where
  "own_inv u p C0 k = (\<lambda>(C, e, mn, mx). placing C0 (firsts u k) C \<and> (k < u_n_seqs u \<longrightarrow> scanned C p e) \<and>
     (\<forall>q \<in> firsts u k. mn \<le> tl_of C q \<and> tl_of C q \<le> mx) \<and>
     (if k = 0 then mn = int (length C0) - 1 \<and> mx = 0 else mn \<in> tl_of C ` firsts u k \<and> mx \<in> tl_of C ` firsts u k) \<and>
     (\<forall>i \<in> ids C. sr_of C i = -1 \<or> sr_of C i = i \<or> i \<in> tl_of C ` firsts u k))"

lemma own_inv_step:
  assumes u: "rec_ubatch_ok u (length C0)" and k: "k < u_n_seqs u" and I: "own_inv u p C0 k st"
  shows "\<exists>st'. own_cell u k st = Some st' \<and> own_inv u p C0 (Suc k) st'"
proof -
  obtain C e mn mx where st: "st = (C, e, mn, mx)" by (cases st) auto
  let ?q = "seq_of u k" and ?A = "firsts u k"
  have P: "placing C0 ?A C" and sc: "scanned C p e" and rng: "\<And>q. q \<in> ?A \<Longrightarrow> mn \<le> tl_of C q \<and> tl_of C q \<le> mx"
    and att: "if k = 0 then mn = int (length C0) - 1 \<and> mx = 0 else mn \<in> tl_of C ` ?A \<and> mx \<in> tl_of C ` ?A"
    and sr: "\<And>i. i \<in> ids C \<Longrightarrow> sr_of C i = -1 \<or> sr_of C i = i \<or> i \<in> tl_of C ` ?A"
    using I k unfolding st own_inv_def by auto
  have len: "length C = length C0" by (rule placingD(1)[OF P])
  have q: "?q \<in> ids C" "set_first u k = Some ?q" using seq_of_ok(1,3)[OF u k] len by auto
  have qA: "?q \<notin> ?A"
  proof
    assume "?q \<in> ?A"
    then obtain r where "r < k" "seq_of u r = ?q" by (auto simp: firsts_def)
    then show False using seq_of_inj[OF u, of r k] k by simp
  qed
  from own_cell_ok[OF P q(1) qA q(2) sc, of mn mx] obtain C' e' where
    r: "own_cell u k (C, e, mn, mx) = Some (C', e', min mn (tl_of C' ?q), max mx (tl_of C' ?q))"
      "placing C0 (insert ?q ?A) C'" "k + 1 < u_n_seqs u \<longrightarrow> scanned C' p e'" "\<forall>j \<in> ?A. tl_of C' j = tl_of C j"
      "\<forall>i \<in> ids C. sr_of C' i = sr_of C i \<or> i = tl_of C' ?q" by blast
  have len': "length C' = length C" using placingD(1)[OF r(2)] len by simp
  have im: "tl_of C' ` ?A = tl_of C ` ?A" by (rule image_cong[OF refl]) (use r(4) in blast)
  have tq: "tl_of C' ?q \<in> ids C" using placingD(3)[OF r(2), of ?q] placingD(6)[OF r(2) insertI1, THEN conjunct1] q(1) len' by simp
  have b: "\<forall>j \<in> insert ?q ?A. min mn (tl_of C' ?q) \<le> tl_of C' j \<and> tl_of C' j \<le> max mx (tl_of C' ?q)"
    using rng r(4) by (auto simp: min_le_iff_disj le_max_iff_disj)
  have "min mn (tl_of C' ?q) \<in> insert (tl_of C' ?q) (tl_of C ` ?A) \<and> max mx (tl_of C' ?q) \<in> insert (tl_of C' ?q) (tl_of C ` ?A)"
  proof (cases "k = 0")
    case True
    then show ?thesis using att tq len by simp
  next
    case False
    then show ?thesis using att by (simp add: min_def max_def)
  qed
  moreover have "\<forall>i \<in> ids C'. sr_of C' i = -1 \<or> sr_of C' i = i \<or> i \<in> insert (tl_of C' ?q) (tl_of C ` ?A)"
  proof
    fix i assume "i \<in> ids C'"
    then have "i \<in> ids C" using len' by simp
    then show "sr_of C' i = -1 \<or> sr_of C' i = i \<or> i \<in> insert (tl_of C' ?q) (tl_of C ` ?A)" using r(5) sr[of i] by (metis insertCI)
  qed
  ultimately have "own_inv u p C0 (Suc k) (C', e', min mn (tl_of C' ?q), max mx (tl_of C' ?q))"
    unfolding own_inv_def using r(2,3) b by (simp add: firsts_Suc im)
  then show ?thesis using r(1) st by blast
qed

text \<open>The result of the phase: the sets own distinct cells in the range from \<open>mn\<close> to \<open>mx\<close>.\<close>

definition owned :: "llama_ubatch \<Rightarrow> mem_cell list \<Rightarrow> int \<Rightarrow> int \<Rightarrow> mem_cell list \<Rightarrow> bool" where
  "owned u C0 mn mx C \<longleftrightarrow> placing C0 (firsts u (u_n_seqs u)) C \<and> mn \<in> ids C \<and> mx \<in> ids C \<and>
     (\<forall>q \<in> firsts u (u_n_seqs u). mn \<le> tl_of C q \<and> tl_of C q \<le> mx) \<and>
     (\<forall>i \<in> ids C. sr_of C i = -1 \<or> sr_of C i = i \<or> mn \<le> i \<and> i \<le> mx)"

lemma own_loop:
  assumes ok: "cells_ok C0" and u: "rec_ubatch_ok u (length C0)" and p: "p < length C0"
  shows "\<exists>C e mn mx. for_loop (own_cell u) [0..<u_n_seqs u] (C0, seek_empty (length C0) C0 p, int (length C0) - 1, 0) = Some (C, e, mn, mx) \<and>
    owned u C0 mn mx C \<and> (u_n_seqs u = 1 \<longrightarrow> mn = mx)"
proof -
  let ?st = "(C0, seek_empty (length C0) C0 p, int (length C0) - 1, 0 :: int)"
  have "own_inv u p C0 0 ?st"
    using placing_start[OF ok] scanned_start[OF ok p] cells_okD(4)[OF ok] unfolding own_inv_def by (simp add: firsts_def)
  from for_upt_rule[of "own_inv u p C0", OF this] own_inv_step[OF u] obtain st where
    st: "for_loop (own_cell u) [0..<u_n_seqs u] ?st = Some st" "own_inv u p C0 (u_n_seqs u) st" by blast
  obtain C e mn mx where s: "st = (C, e, mn, mx)" by (cases st) auto
  have I: "placing C0 (firsts u (u_n_seqs u)) C" "\<forall>q \<in> firsts u (u_n_seqs u). mn \<le> tl_of C q \<and> tl_of C q \<le> mx"
    "mn \<in> tl_of C ` firsts u (u_n_seqs u)" "mx \<in> tl_of C ` firsts u (u_n_seqs u)"
    "\<forall>i \<in> ids C. sr_of C i = -1 \<or> sr_of C i = i \<or> i \<in> tl_of C ` firsts u (u_n_seqs u)"
    using st(2) rec_ubatch_okD(2)[OF u] unfolding s own_inv_def by auto
  have "tl_of C q \<in> ids C" if "q \<in> firsts u (u_n_seqs u)" for q
    using placingD(2)[OF I(1)] placingD(3)[OF I(1), of q] placingD(6)[OF I(1) that] that by blast
  then have "mn \<in> ids C" "mx \<in> ids C" using I(3,4) by blast+
  moreover have "\<forall>i \<in> ids C. sr_of C i = -1 \<or> sr_of C i = i \<or> mn \<le> i \<and> i \<le> mx" using I(2,5) by blast
  moreover have "mn = mx" if "u_n_seqs u = 1" using I(3,4) that by (auto simp: firsts_def)
  ultimately show ?thesis using st(1) s I unfolding owned_def by blast
qed

section \<open>Gathering\<close>

definition sw :: "int \<Rightarrow> int \<Rightarrow> int \<Rightarrow> int" where
  "sw a b i = (if i = a then b else if i = b then a else i)"

lemma sw_simps [simp]: "sw a b (sw a b i) = i" "sw a b a = b" "sw a b b = a"
  by (auto simp: sw_def)

lemma sw_eq_iff: "sw a b i = j \<longleftrightarrow> i = sw a b j"
  by (auto simp: sw_def)

lemma sw_mem: "a \<in> I \<Longrightarrow> b \<in> I \<Longrightarrow> sw a b i \<in> I \<longleftrightarrow> i \<in> I"
  by (auto simp: sw_def)

definition swapped :: "int \<Rightarrow> int \<Rightarrow> mem_cell list \<Rightarrow> mem_cell list \<Rightarrow> bool" where
  "swapped a b C C' \<longleftrightarrow> length C' = length C \<and> (\<forall>j \<in> ids C. tl_of C' j = sw a b (tl_of C j) \<and>
     sq_of C' j = sq_of C (sw a b j) \<and> ps_of C' j = ps_of C (sw a b j) \<and> sr_of C' j = sr_of C (sw a b j))"

lemma swappedD:
  assumes "swapped a b C C'"
  shows "length C' = length C" "j \<in> ids C \<Longrightarrow> tl_of C' j = sw a b (tl_of C j)" "j \<in> ids C \<Longrightarrow> sq_of C' j = sq_of C (sw a b j)"
    "j \<in> ids C \<Longrightarrow> ps_of C' j = ps_of C (sw a b j)" "j \<in> ids C \<Longrightarrow> sr_of C' j = sr_of C (sw a b j)"
  using assms unfolding swapped_def by blast+

lemma swap_cells:
  assumes "a \<in> ids C" "b \<in> ids C" "b \<noteq> a"
  shows "swapped a b C (map (swap_tail a b) (mc_upd a (take_contents (C ! nat b)) (mc_upd b (take_contents (C ! nat a)) C)))"
  unfolding swapped_def
proof (intro conjI ballI)
  fix j assume j: "j \<in> ids C"
  let ?D = "mc_upd a (take_contents (C ! nat b)) (mc_upd b (take_contents (C ! nat a)) C)"
  have nth: "map (swap_tail a b) ?D ! nat j = swap_tail a b (?D ! nat j)" using j by (simp add: nat_less_iff)
  have D: "?D ! nat j = (if j = a then take_contents (C ! nat b) (C ! nat j) else if j = b then take_contents (C ! nat a) (C ! nat j) else C ! nat j)"
    using assms j by (simp add: mc_upd_nth)
  show "tl_of (map (swap_tail a b) ?D) j = sw a b (tl_of C j)" unfolding nth D by (simp add: swap_tail_def take_contents_def sw_def)
  show "sq_of (map (swap_tail a b) ?D) j = sq_of C (sw a b j)" "ps_of (map (swap_tail a b) ?D) j = ps_of C (sw a b j)"
    "sr_of (map (swap_tail a b) ?D) j = sr_of C (sw a b j)"
    unfolding nth D using assms by (simp_all add: swap_tail_def take_contents_def sw_def)
qed simp

lemma swapped_placing:
  assumes P: "placing C0 A C" and ab: "a \<in> ids C" "b \<in> ids C" and S: "swapped a b C C'"
  shows "placing C0 A C'"
proof -
  note p = placingD[OF P] and w = swappedD[OF S]
  have ids: "ids C' = ids C" using w(1) by simp
  have neg: "sw a b t = -1 \<longleftrightarrow> t = -1" for t using ab by (auto simp: sw_def)
  have mem: "sw a b t \<in> ids C \<longleftrightarrow> t \<in> ids C" for t by (rule sw_mem[OF ab])
  have at: "sq_of C' (tl_of C' q) = sq_of C (tl_of C q)" "ps_of C' (tl_of C' q) = ps_of C (tl_of C q)" "sr_of C' (tl_of C' q) = sr_of C (tl_of C q)"
    if "q \<in> ids C" "tl_of C q \<noteq> -1" for q
  proof -
    have "sw a b (tl_of C q) \<in> ids C" using p(3)[OF that(1)] that(2) mem by simp
    then show "sq_of C' (tl_of C' q) = sq_of C (tl_of C q)" "ps_of C' (tl_of C' q) = ps_of C (tl_of C q)" "sr_of C' (tl_of C' q) = sr_of C (tl_of C q)"
      using w(2)[OF that(1)] w(3-5) by simp_all
  qed
  show ?thesis
    unfolding placing_def ids
  proof (intro conjI)
    show "length C' = length C0" using w(1) p(1) by simp
    show "A \<subseteq> ids C" by (rule p(2))
    show "\<forall>q \<in> ids C. tl_of C' q = -1 \<or> tl_of C' q \<in> ids C" using w(2) p(3) mem neg by metis
    show "\<forall>i \<in> ids C. \<forall>q \<in> sq_of C' i. q \<in> ids C \<and> tl_of C' q = i \<and> tl_of C0 q \<noteq> -1"
    proof (intro ballI)
      fix i q assume i: "i \<in> ids C" and q: "q \<in> sq_of C' i"
      then have "q \<in> ids C \<and> tl_of C q = sw a b i \<and> tl_of C0 q \<noteq> -1" using p(4)[of "sw a b i" q] mem[of i] w(3)[OF i] by simp
      then show "q \<in> ids C \<and> tl_of C' q = i \<and> tl_of C0 q \<noteq> -1" using w(2)[of q] by simp
    qed
    show "\<forall>q \<in> ids C. tl_of C' q \<noteq> -1 \<longrightarrow> q \<in> sq_of C' (tl_of C' q) \<or> sq_of C' (tl_of C' q) = {} \<and> q \<in> A \<and> tl_of C0 q = -1"
      using p(5) at(1) w(2) neg by metis
    show "\<forall>q \<in> A. tl_of C' q \<noteq> -1 \<and> (\<forall>j \<in> ids C. tl_of C' j = tl_of C' q \<longrightarrow> j = q)"
    proof (intro ballI conjI impI)
      fix q assume q: "q \<in> A"
      then have q': "q \<in> ids C" using p(2) by blast
      show "tl_of C' q \<noteq> -1" using p(6)[OF q] w(2)[OF q'] neg by simp
      fix j assume j: "j \<in> ids C" "tl_of C' j = tl_of C' q"
      then have "tl_of C j = tl_of C q" using w(2)[OF j(1)] w(2)[OF q'] by (metis sw_simps(1))
      then show "j = q" using p(6)[OF q] j(1) by blast
    qed
    show "\<forall>q \<in> ids C. tl_of C0 q \<noteq> -1 \<longrightarrow> tl_of C' q \<noteq> -1 \<and> sr_of C' (tl_of C' q) = tl_of C0 q \<and> ps_of C' (tl_of C' q) = ps_of C0 (tl_of C0 q)"
    proof (intro ballI impI)
      fix q assume q: "q \<in> ids C" "tl_of C0 q \<noteq> -1"
      show "tl_of C' q \<noteq> -1 \<and> sr_of C' (tl_of C' q) = tl_of C0 q \<and> ps_of C' (tl_of C' q) = ps_of C0 (tl_of C0 q)"
        using p(7)[OF q] at[OF q(1)] w(2)[OF q(1)] neg by simp
    qed
    show "\<forall>q \<in> ids C. tl_of C0 q = -1 \<longrightarrow> q \<notin> A \<longrightarrow> tl_of C' q = -1" using p(8) w(2) neg by simp
    show "\<forall>i \<in> ids C. sq_of C' i = {} \<longrightarrow> ps_of C' i = -1 \<and> (sr_of C' i = -1 \<or> sr_of C' i \<in> fresh C0)"
      using p(9) w(3-5) mem by simp
  qed
qed

text \<open>The gathered cells: set \<open>s\<close> owns cell \<open>mn + s\<close>.\<close>

lemma owned_room:
  assumes O: "owned u C0 mn mx C" and u: "rec_ubatch_ok u (length C0)"
  shows "int (u_n_seqs u) \<le> mx - mn + 1"
proof -
  let ?A = "firsts u (u_n_seqs u)"
  have P: "placing C0 ?A C" and rng: "\<forall>q \<in> ?A. mn \<le> tl_of C q \<and> tl_of C q \<le> mx" using O unfolding owned_def by blast+
  have "inj_on (tl_of C) ?A"
  proof (rule inj_onI)
    fix x y assume xy: "x \<in> ?A" "y \<in> ?A" "tl_of C x = tl_of C y"
    then show "x = y" using placingD(6)[OF P xy(2)] placingD(2)[OF P] by blast
  qed
  then have "card ?A = card (tl_of C ` ?A)" by (simp add: card_image)
  also have "\<dots> \<le> card {mn..mx}" using rng by (intro card_mono) auto
  finally show ?thesis using card_firsts[OF u] rec_ubatch_okD(2)[OF u] by simp
qed

definition gathered :: "llama_ubatch \<Rightarrow> mem_cell list \<Rightarrow> int \<Rightarrow> int \<Rightarrow> nat \<Rightarrow> mem_cell list \<Rightarrow> bool" where
  "gathered u C0 mn mx k C \<longleftrightarrow> owned u C0 mn mx C \<and> (\<forall>s < k. tl_of C (seq_of u s) = mn + int s)"

lemma gather_step:
  assumes u: "rec_ubatch_ok u (length C0)" and k: "k < u_n_seqs u" and G: "gathered u C0 mn mx k C"
  shows "\<exists>C'. gather u mn k C = Some C' \<and> gathered u C0 mn mx (Suc k) C'"
proof -
  let ?A = "firsts u (u_n_seqs u)" and ?q = "seq_of u k" and ?dst = "int k + mn"
  have O: "owned u C0 mn mx C" and dn: "\<And>s. s < k \<Longrightarrow> tl_of C (seq_of u s) = mn + int s" using G unfolding gathered_def by blast+
  have P: "placing C0 ?A C" and b: "mn \<in> ids C" "mx \<in> ids C" and rng: "\<And>q. q \<in> ?A \<Longrightarrow> mn \<le> tl_of C q \<and> tl_of C q \<le> mx"
    and sr: "\<And>i. i \<in> ids C \<Longrightarrow> sr_of C i = -1 \<or> sr_of C i = i \<or> mn \<le> i \<and> i \<le> mx"
    using O unfolding owned_def by blast+
  note p = placingD[OF P]
  let ?src = "tl_of C ?q"
  have fA: "seq_of u s \<in> ?A" if "s < u_n_seqs u" for s using that by (auto simp: firsts_def)
  have q: "?q \<in> ids C" "set_first u k = Some ?q" using seq_of_ok[OF u k] p(1) by auto
  have src: "mn \<le> ?src" "?src \<le> mx" "?src \<in> ids C" using rng[OF fA[OF k]] b by auto
  have dst: "mn \<le> ?dst" "?dst \<le> mx" "?dst \<in> ids C" using owned_room[OF O u] k b by auto
  show ?thesis
  proof (cases "?dst = ?src")
    case True
    have "gathered u C0 mn mx (Suc k) C" unfolding gathered_def
    proof (intro conjI O allI impI)
      fix s assume "s < Suc k"
      then show "tl_of C (seq_of u s) = mn + int s" using dn[of s] True by (cases "s = k") auto
    qed
    then show ?thesis using True q by (simp add: gather_def)
  next
    case False
    let ?C' = "map (swap_tail ?src ?dst) (mc_upd ?src (take_contents (C ! nat ?dst)) (mc_upd ?dst (take_contents (C ! nat ?src)) C))"
    have run: "gather u mn k C = Some ?C'" using q src dst False by (simp add: gather_def Let_def)
    have S: "swapped ?src ?dst C ?C'" by (rule swap_cells[OF src(3) dst(3) False])
    note w = swappedD[OF S]
    have P': "placing C0 ?A ?C'" by (rule swapped_placing[OF P src(3) dst(3) S])
    have ids: "ids ?C' = ids C" using w(1) by simp
    have "owned u C0 mn mx ?C'"
      unfolding owned_def ids
    proof (intro conjI ballI P' b)
      fix x assume x: "x \<in> ?A"
      then have "tl_of ?C' x = sw ?src ?dst (tl_of C x)" using w(2) p(2) by blast
      then show "mn \<le> tl_of ?C' x" "tl_of ?C' x \<le> mx" using rng[OF x] src dst by (auto simp: sw_def)
    next
      fix i assume i: "i \<in> ids C"
      show "sr_of ?C' i = -1 \<or> sr_of ?C' i = i \<or> mn \<le> i \<and> i \<le> mx"
      proof (cases "i = ?src \<or> i = ?dst")
        case True
        then show ?thesis using src dst by blast
      next
        case False
        then show ?thesis using w(5)[OF i] sr[OF i] by (simp add: sw_def)
      qed
    qed
    moreover have "tl_of ?C' (seq_of u s) = mn + int s" if "s < Suc k" for s
    proof -
      have "s < u_n_seqs u" using that k by simp
      then have s: "s < u_n_seqs u" "seq_of u s \<in> ids C" using fA p(2) by blast+
      have t: "tl_of ?C' (seq_of u s) = sw ?src ?dst (tl_of C (seq_of u s))" by (rule w(2)[OF s(2)])
      show ?thesis
      proof (cases "s = k")
        case True
        then show ?thesis using t by simp
      next
        case False
        then have d: "tl_of C (seq_of u s) = mn + int s" using dn that by simp
        have "tl_of C (seq_of u s) \<noteq> ?src" using p(6)[OF fA[OF k]] s seq_of_inj[OF u s(1) k] False by blast
        moreover have "tl_of C (seq_of u s) \<noteq> ?dst" using d False by simp
        ultimately show ?thesis using t d by (simp add: sw_def)
      qed
    qed
    ultimately show ?thesis using run unfolding gathered_def by blast
  qed
qed

lemma gather_loop:
  assumes u: "rec_ubatch_ok u (length C0)" and O: "owned u C0 mn mx C"
  shows "\<exists>C'. for_loop (gather u mn) [0..<u_n_seqs u] C = Some C' \<and> gathered u C0 mn mx (u_n_seqs u) C'"
proof (rule for_upt_rule)
  show "gathered u C0 mn mx 0 C" using O by (simp add: gathered_def)
  show "\<exists>C'. gather u mn k C = Some C' \<and> gathered u C0 mn mx (Suc k) C'" if "k < u_n_seqs u" "gathered u C0 mn mx k C" for k C
    by (rule gather_step[OF u that])
qed

section \<open>Positions and sequence sets\<close>

lemma settle_ids_ok:
  assumes "set qs \<subseteq> ids C" "c \<in> ids C"
  shows "\<exists>C'. for_loop (settle_id c) qs C = Some C' \<and> length C' = length C \<and> (\<forall>j \<in> ids C.
    tl_of C' j = (if j \<in> set qs then c else tl_of C j) \<and> sq_of C' j = (if j = c then set qs \<union> sq_of C j else sq_of C j) \<and>
    ps_of C' j = ps_of C j \<and> sr_of C' j = sr_of C j)"
  using assms
proof (induction qs arbitrary: C)
  case (Cons q qs)
  let ?D = "mc_upd q (\<lambda>x. x\<lparr>mc_tail := c\<rparr>) (mc_upd c (\<lambda>x. x\<lparr>mc_seq_id := insert q (mc_seq_id x)\<rparr>) C)"
  have D: "settle_id c q C = Some ?D" "length ?D = length C" using Cons.prems by (auto simp: settle_id_def Let_def)
  have f: "tl_of ?D j = (if j = q then c else tl_of C j)" "sq_of ?D j = (if j = c then insert q (sq_of C j) else sq_of C j)"
    "ps_of ?D j = ps_of C j" "sr_of ?D j = sr_of C j" if "j \<in> ids C" for j
    using that Cons.prems by (auto simp: mc_upd_nth)
  from Cons.IH[of ?D] Cons.prems D(2) obtain C' where C': "for_loop (settle_id c) qs ?D = Some C'" "length C' = length C"
    "\<forall>j \<in> ids C. tl_of C' j = (if j \<in> set qs then c else tl_of ?D j) \<and> sq_of C' j = (if j = c then set qs \<union> sq_of ?D j else sq_of ?D j) \<and>
      ps_of C' j = ps_of ?D j \<and> sr_of C' j = sr_of ?D j" by auto
  have "\<forall>j \<in> ids C. tl_of C' j = (if j \<in> set (q # qs) then c else tl_of C j) \<and>
      sq_of C' j = (if j = c then set (q # qs) \<union> sq_of C j else sq_of C j) \<and> ps_of C' j = ps_of C j \<and> sr_of C' j = sr_of C j"
  proof
    fix j assume j: "j \<in> ids C"
    note c = bspec[OF C'(3) j]
    show "tl_of C' j = (if j \<in> set (q # qs) then c else tl_of C j) \<and>
      sq_of C' j = (if j = c then set (q # qs) \<union> sq_of C j else sq_of C j) \<and> ps_of C' j = ps_of C j \<and> sr_of C' j = sr_of C j"
      using c unfolding f[OF j] by auto
  qed
  then show ?case using C'(1,2) D(1) by auto
qed simp

definition settled :: "llama_ubatch \<Rightarrow> int \<Rightarrow> nat \<Rightarrow> mem_cell list \<Rightarrow> mem_cell list \<Rightarrow> bool" where
  "settled u mn k C C' \<longleftrightarrow> length C' = length C \<and>
     (\<forall>s < k. \<forall>j \<in> set (set_ids u s). tl_of C' j = mn + int s) \<and>
     (\<forall>j \<in> ids C. (\<forall>s < k. j \<notin> set (set_ids u s)) \<longrightarrow> tl_of C' j = tl_of C j) \<and>
     (\<forall>s < k. sq_of C' (mn + int s) = set (set_ids u s) \<and> ps_of C' (mn + int s) = set_last_pos u s) \<and>
     (\<forall>i \<in> ids C. i < mn \<or> mn + int k \<le> i \<longrightarrow> sq_of C' i = sq_of C i \<and> ps_of C' i = ps_of C i) \<and>
     (\<forall>i \<in> ids C. sr_of C' i = sr_of C i)"

lemma settledD:
  assumes "settled u mn k C C'"
  shows "length C' = length C" "s < k \<Longrightarrow> j \<in> set (set_ids u s) \<Longrightarrow> tl_of C' j = mn + int s"
    "j \<in> ids C \<Longrightarrow> (\<And>s. s < k \<Longrightarrow> j \<notin> set (set_ids u s)) \<Longrightarrow> tl_of C' j = tl_of C j"
    "s < k \<Longrightarrow> sq_of C' (mn + int s) = set (set_ids u s)" "s < k \<Longrightarrow> ps_of C' (mn + int s) = set_last_pos u s"
    "i \<in> ids C \<Longrightarrow> i < mn \<or> mn + int k \<le> i \<Longrightarrow> sq_of C' i = sq_of C i \<and> ps_of C' i = ps_of C i"
    "i \<in> ids C \<Longrightarrow> sr_of C' i = sr_of C i"
  using assms unfolding settled_def by blast+

lemma settle_step:
  assumes u: "rec_ubatch_ok u (length C)" and k: "k < u_n_seqs u" and S: "settled u mn k C D" and mn: "0 \<le> mn" "mn + int k < int (length C)"
  shows "\<exists>D'. settle u mn k D = Some D' \<and> settled u mn (Suc k) C D'"
proof -
  let ?c = "int k + mn" and ?q = "set_ids u k"
  note d = settledD[OF S]
  have c: "?c \<in> ids D" using mn d(1) by simp
  have qs: "set ?q \<subseteq> ids D" using rec_ubatch_okD(7)[OF u k] d(1) by simp
  have tok: "u_n_seq_tokens u > 0 \<and> set_token u k + u_n_seq_tokens u - 1 < length (u_pos u)"
  proof -
    have "Suc k * u_n_seq_tokens u \<le> u_n_seqs u * u_n_seq_tokens u" using k by (intro mult_right_mono) auto
    then show ?thesis using rec_ubatch_okD(3,4)[OF u] by (auto simp: set_token_def)
  qed
  let ?E = "mc_upd ?c (\<lambda>c. c\<lparr>mc_pos := set_last_pos u k, mc_seq_id := {}\<rparr>) D"
  have E: "tl_of ?E j = tl_of D j" "sq_of ?E j = (if j = ?c then {} else sq_of D j)" "ps_of ?E j = (if j = ?c then set_last_pos u k else ps_of D j)"
    "sr_of ?E j = sr_of D j" if "j \<in> ids D" for j using that c by (auto simp: mc_upd_nth)
  from settle_ids_ok[of ?q ?E ?c] qs c obtain D' where D': "for_loop (settle_id ?c) ?q ?E = Some D'" "length D' = length D"
    "\<forall>j \<in> ids D. tl_of D' j = (if j \<in> set ?q then ?c else tl_of ?E j) \<and> sq_of D' j = (if j = ?c then set ?q \<union> sq_of ?E j else sq_of ?E j) \<and>
      ps_of D' j = ps_of ?E j \<and> sr_of D' j = sr_of ?E j" by (auto simp del: ex_simps)
  have f: "tl_of D' j = (if j \<in> set ?q then ?c else tl_of D j)" "sq_of D' j = (if j = ?c then set ?q else sq_of D j)"
    "ps_of D' j = (if j = ?c then set_last_pos u k else ps_of D j)" "sr_of D' j = sr_of D j" if "j \<in> ids D" for j
    using bspec[OF D'(3) that] unfolding E[OF that] by auto
  have run: "settle u mn k D = Some D'" using tok c D'(1) by (simp add: settle_def Let_def set_last_pos_def)
  have ids: "ids D = ids C" using d(1) by simp
  have "settled u mn (Suc k) C D'"
    unfolding settled_def
  proof (intro conjI allI impI ballI)
    show "length D' = length C" using D'(2) d(1) by simp
  next
    fix s j assume s: "s < Suc k" and j: "j \<in> set (set_ids u s)"
    have sn: "s < u_n_seqs u" using s k by simp
    then have "j \<in> ids D" using rec_ubatch_okD(7)[OF u sn] j ids by blast
    moreover have "j \<in> set ?q \<longleftrightarrow> s = k" using rec_ubatch_okD(9)[OF u sn k j] j by blast
    ultimately show "tl_of D' j = mn + int s" using f(1)[of j] d(2)[of s j] s j by (cases "s = k") auto
  next
    fix j assume j: "j \<in> ids C" and no: "\<forall>s < Suc k. j \<notin> set (set_ids u s)"
    then show "tl_of D' j = tl_of C j" using f(1)[of j] ids d(3)[OF j] by auto
  next
    fix s assume s: "s < Suc k"
    have c': "mn + int s \<in> ids D" "mn + int s = ?c \<longleftrightarrow> s = k" using s mn ids by auto
    show "sq_of D' (mn + int s) = set (set_ids u s)" using f(2)[OF c'(1)] c'(2) d(4)[of s] s by (cases "s = k") auto
    show "ps_of D' (mn + int s) = set_last_pos u s" using f(3)[OF c'(1)] c'(2) d(5)[of s] s by (cases "s = k") auto
  next
    fix i assume i: "i \<in> ids C" and r: "i < mn \<or> mn + int (Suc k) \<le> i"
    then have x: "i \<noteq> ?c" "i < mn \<or> mn + int k \<le> i" by auto
    show "sq_of D' i = sq_of C i" "ps_of D' i = ps_of C i" using f(2,3)[of i] x(1) d(6)[OF i x(2)] i ids by auto
  next
    fix i assume i: "i \<in> ids C"
    show "sr_of D' i = sr_of C i" using f(4)[of i] d(7)[OF i] i ids by auto
  qed
  then show ?thesis using run by blast
qed

lemma settle_loop:
  assumes u: "rec_ubatch_ok u (length C)" and mn: "0 \<le> mn" "mn + int (u_n_seqs u) \<le> int (length C)"
  shows "\<exists>C'. for_loop (settle u mn) [0..<u_n_seqs u] C = Some C' \<and> settled u mn (u_n_seqs u) C C'"
proof (rule for_upt_rule)
  show "settled u mn 0 C C" by (simp add: settled_def)
  show "\<exists>D'. settle u mn k D = Some D' \<and> settled u mn (Suc k) C D'" if "k < u_n_seqs u" "settled u mn k C D" for k D
    by (rule settle_step[OF u that mn(1)]) (use that mn in simp)
qed

section \<open>Sources\<close>

lemma refcounts_ok:
  assumes "\<forall>c \<in> set C. mc_src c < 0 \<or> nat (mc_src c) < length C"
  obtains counts where "refcounts C = Some counts" "length counts = length C"
    "\<And>i. i < length C \<Longrightarrow> counts ! i = 0 \<longleftrightarrow> (\<forall>c \<in> set C. mc_src c \<noteq> int i)"
proof -
  let ?f = "\<lambda>c counts. if mc_src c \<ge> 0 then Option.bind (require (nat (mc_src c) < length counts))
      (\<lambda>_. Some (counts[nat (mc_src c) := counts ! nat (mc_src c) + 1])) else Some counts"
  have "\<exists>counts'. for_loop ?f cs counts = Some counts' \<and> length counts' = length counts \<and>
      (\<forall>i < length counts. counts' ! i = (0 :: nat) \<longleftrightarrow> counts ! i = 0 \<and> (\<forall>c \<in> set cs. mc_src c \<noteq> int i))"
    if "\<forall>c \<in> set cs. mc_src c < 0 \<or> nat (mc_src c) < length counts" for cs counts
    using that
  proof (induction cs arbitrary: counts)
    case (Cons c cs)
    show ?case
    proof (cases "mc_src c \<ge> 0")
      case True
      let ?k = "counts[nat (mc_src c) := counts ! nat (mc_src c) + 1]"
      have k: "nat (mc_src c) < length counts" using Cons.prems True by auto
      from Cons.IH[of ?k] Cons.prems obtain r where r: "for_loop ?f cs ?k = Some r" "length r = length counts"
        "\<forall>i < length counts. r ! i = 0 \<longleftrightarrow> ?k ! i = 0 \<and> (\<forall>c \<in> set cs. mc_src c \<noteq> int i)" by auto
      have "?k ! i = 0 \<longleftrightarrow> counts ! i = 0 \<and> mc_src c \<noteq> int i" if "i < length counts" for i
        using that k True by (auto simp: nth_list_update)
      then show ?thesis using r True k by (intro exI[of _ r]) auto
    next
      case False
      then have "mc_src c \<noteq> int i" for i by auto
      then show ?thesis using Cons.IH[of counts] Cons.prems False by auto
    qed
  qed simp
  from this[of C "replicate (length C) 0"] assms obtain counts where "refcounts C = Some counts" "length counts = length C"
    "\<forall>i < length C. counts ! i = 0 \<longleftrightarrow> (\<forall>c \<in> set C. mc_src c \<noteq> int i)" by (auto simp: refcounts_def)
  then show ?thesis using that by blast
qed

definition s0_of :: "mem_cell list \<Rightarrow> int \<Rightarrow> int" where
  "s0_of C i = mc_src0 (C ! nat i)"

text \<open>The sources staged for the graph: all cells from \<open>a\<close> to \<open>b\<close> read from where their state was, or from \<open>z\<close>.\<close>

definition staged :: "int \<Rightarrow> int \<Rightarrow> int \<Rightarrow> mem_cell list \<Rightarrow> mem_cell list \<Rightarrow> bool" where
  "staged z a b C C' \<longleftrightarrow> length C' = length C \<and> (\<forall>i \<in> ids C.
     tl_of C' i = tl_of C i \<and> sq_of C' i = sq_of C i \<and> ps_of C' i = ps_of C i \<and>
     sr_of C' i = (if a \<le> i \<and> i < b then i else sr_of C i) \<and>
     (a \<le> i \<and> i < b \<longrightarrow> s0_of C' i = (if sr_of C i < 0 then z else sr_of C i)))"

lemma stage_step:
  assumes S: "staged z a (int b) C D" and b: "b < length C" "a \<le> int b" "sr_of C (int b) < 0 \<longrightarrow> 0 \<le> z"
  shows "\<exists>D'. stage_src z b D = Some D' \<and> staged z a (int (Suc b)) C D'"
proof -
  let ?D' = "D[b := (D ! b)\<lparr>mc_src0 := (if mc_src (D ! b) < 0 then z else mc_src (D ! b)), mc_src := int b\<rparr>]"
  have len: "length D = length C" using S by (simp add: staged_def)
  have S': "tl_of D i = tl_of C i" "sq_of D i = sq_of C i" "ps_of D i = ps_of C i" "sr_of D i = (if a \<le> i \<and> i < int b then i else sr_of C i)"
     "a \<le> i \<and> i < int b \<longrightarrow> s0_of D i = (if sr_of C i < 0 then z else sr_of C i)" if "i \<in> ids C" for i
    using S that unfolding staged_def by blast+
  have srb: "mc_src (D ! b) = sr_of C (int b)" using S'(4)[of "int b"] b by simp
  have run: "stage_src z b D = Some ?D'" using b len srb by (simp add: stage_src_def Let_def)
  have nth: "?D' ! nat i = (if i = int b then (D ! b)\<lparr>mc_src0 := (if mc_src (D ! b) < 0 then z else mc_src (D ! b)), mc_src := int b\<rparr> else D ! nat i)"
    if "i \<in> ids C" for i using that b len by (auto simp: nth_list_update)
  have "staged z a (int (Suc b)) C ?D'"
    unfolding staged_def
  proof (intro conjI ballI)
    show "length ?D' = length C" using len by simp
    fix i assume i: "i \<in> ids C"
    show "tl_of ?D' i = tl_of C i" "sq_of ?D' i = sq_of C i" "ps_of ?D' i = ps_of C i"
      unfolding nth[OF i] using S'(1-3)[OF i] by auto
    show "sr_of ?D' i = (if a \<le> i \<and> i < int (Suc b) then i else sr_of C i)"
      unfolding nth[OF i] using S'(4)[OF i] b by auto
    show "a \<le> i \<and> i < int (Suc b) \<longrightarrow> s0_of ?D' i = (if sr_of C i < 0 then z else sr_of C i)"
      unfolding s0_of_def nth[OF i] using S'(5)[OF i] srb by (auto simp: s0_of_def)
  qed
  then show ?thesis using run by blast
qed

lemma stage_loop:
  assumes "\<And>i. i \<in> ids C \<Longrightarrow> int a \<le> i \<Longrightarrow> i < int b \<Longrightarrow> sr_of C i < 0 \<Longrightarrow> 0 \<le> z" "b \<le> length C" "a \<le> b"
  shows "\<exists>C'. for_loop (stage_src z) [a..<b] C = Some C' \<and> staged z (int a) (int b) C C'"
  using assms
proof (induction b)
  case (Suc b)
  show ?case
  proof (cases "a = Suc b")
    case True
    then show ?thesis by (intro exI[of _ C]) (simp add: staged_def)
  next
    case False
    then have ab: "a \<le> b" using Suc.prems(3) by simp
    from Suc.IH Suc.prems ab obtain D where D: "for_loop (stage_src z) [a..<b] C = Some D" "staged z (int a) (int b) C D" by auto
    from stage_step[OF D(2)] Suc.prems(1)[of "int b"] Suc.prems(2) ab obtain D' where
      "stage_src z b D = Some D'" "staged z (int a) (int (Suc b)) C D'" by auto
    then show ?thesis using D(1) ab by (simp add: for_loop_append del: of_nat_Suc)
  qed
qed (simp add: staged_def)

text \<open>When a cell of the range has no source, some row of the range is nobody's source.\<close>

lemma zero_row_exists:
  assumes "a \<in> ids C" "b \<in> ids C" and out: "\<And>i. i \<in> ids C \<Longrightarrow> sr_of C i = -1 \<or> sr_of C i = i \<or> a \<le> i \<and> i \<le> b"
    and i: "a \<le> i" "i \<le> b" "sr_of C i < 0"
  shows "\<exists>r. a \<le> r \<and> r \<le> b \<and> (\<forall>j \<in> ids C. sr_of C j \<noteq> r)"
proof (rule ccontr)
  assume "\<nexists>r. a \<le> r \<and> r \<le> b \<and> (\<forall>j \<in> ids C. sr_of C j \<noteq> r)"
  then have all: "\<exists>j \<in> ids C. sr_of C j = r" if "a \<le> r" "r \<le> b" for r using that by blast
  have "{a..b} \<subseteq> sr_of C ` ({a..b} - {i})"
  proof
    fix r assume r: "r \<in> {a..b}"
    then have "a \<le> r" "r \<le> b" by auto
    then obtain j where j: "j \<in> ids C" "sr_of C j = r" using all by blast
    have "r \<noteq> -1" using r assms(1) by auto
    then have "a \<le> j \<and> j \<le> b" using out[OF j(1)] j(2) r by auto
    moreover have "j \<noteq> i" using i(3) j(2) r assms(1) by auto
    ultimately show "r \<in> sr_of C ` ({a..b} - {i})" using j(2) by (intro image_eqI[of _ _ j]) auto
  qed
  then have "card {a..b} \<le> card ({a..b} - {i})" by (rule surj_card_le[rotated]) simp
  moreover have "card ({a..b} - {i}) < card {a..b}" using i by (intro card_Diff1_less) auto
  ultimately show False by simp
qed

end
