(* ===== verification/Rec_Graph.thy ===== *)
theory Rec_Graph
  imports Rec_Find
begin

text \<open>
  \<^verbatim>\<open>find_slot\<close> of the recurrent memory as a whole, together with the graph that moves the states.  The memory
  and the rows of a state tensor represent a table from sequences to a position and a state; processing a
  ubatch updates the entries of its sequences and no others.
\<close>

section \<open>The result of find_slot\<close>

text \<open>
  \<open>C\<close> are the cells before the call, \<open>C'\<close> the cells after it, \<open>h\<close> the first cell of the range, \<open>n\<close> its
  length, \<open>z\<close> the row to be zeroed.
\<close>

definition slot_result :: "llama_ubatch \<Rightarrow> mem_cell list \<Rightarrow> int \<Rightarrow> int \<Rightarrow> int \<Rightarrow> mem_cell list \<Rightarrow> bool" where
  "slot_result u C z h n C' \<longleftrightarrow> cells_ok C' \<and> length C' = length C \<and>
     0 \<le> h \<and> int (u_n_seqs u) \<le> n \<and> h + n \<le> int (length C) \<and> (z = -1 \<or> h \<le> z \<and> z < h + n) \<and>
     (\<forall>s < u_n_seqs u. \<forall>q \<in> set (set_ids u s). rec_at C' q = Some (set_last_pos u s, h + int s)) \<and>
     (\<forall>q. q \<notin> batch_ids u \<longrightarrow> rec_at C q = None \<longrightarrow> rec_at C' q = None) \<and>
     (\<forall>q p t. q \<notin> batch_ids u \<longrightarrow> rec_at C q = Some (p, t) \<longrightarrow> (\<exists>t'. rec_at C' q = Some (p, t') \<and> \<not> (h \<le> t' \<and> t' < h + int (u_n_seqs u)) \<and>
        (if h \<le> t' \<and> t' < h + n then s0_of C' t' = t else t' = t) \<and> t \<noteq> z)) \<and>
     (\<forall>s < u_n_seqs u. case rec_at C (seq_of u s) of Some (p, t) \<Rightarrow> s0_of C' (h + int s) = t \<and> t \<noteq> z
        | None \<Rightarrow> s0_of C' (h + int s) \<in> insert z (fresh C)) \<and>
     (\<forall>i. h \<le> i \<longrightarrow> i < h + n \<longrightarrow> s0_of C' i \<in> ids C) \<and>
     (\<forall>i \<in> fresh C'. if h \<le> i \<and> i < h + n then h + int (u_n_seqs u) \<le> i \<and> s0_of C' i \<in> insert z (fresh C) else i \<in> fresh C)"

text \<open>The cells after gathering and settling, with the facts the last phase needs.\<close>

lemma placed_src:
  assumes P: "placing C1 A C3" and ok: "cells_ok C1" and i: "i \<in> ids C3"
  shows "sr_of C3 i = -1 \<or> sr_of C3 i \<in> ids C3"
    "sq_of C3 i \<noteq> {} \<Longrightarrow> sr_of C3 i \<noteq> -1 \<and> 0 \<le> ps_of C3 i"
proof -
  note p = placingD[OF P]
  have ids: "ids C3 = ids C1" using p(1) by simp
  have ne: "sr_of C3 i \<in> ids C1 \<and> 0 \<le> ps_of C3 i" if e: "sq_of C3 i \<noteq> {}"
  proof -
    obtain q where q: "q \<in> sq_of C3 i" using e by blast
    have q': "q \<in> ids C3" "tl_of C3 q = i" "tl_of C1 q \<noteq> -1" using p(4)[OF i q] by auto
    have "tl_of C1 q \<in> ids C1" "q \<in> sq_of C1 (tl_of C1 q)" using tail_mem[OF ok _ q'(3)] q'(1) ids by auto
    then have "0 \<le> ps_of C1 (tl_of C1 q)" using cells_okD(6)[OF ok, of "tl_of C1 q"] by blast
    then show ?thesis using p(7)[OF q'(1,3)] q'(2) \<open>tl_of C1 q \<in> ids C1\<close> by simp
  qed
  show "sr_of C3 i = -1 \<or> sr_of C3 i \<in> ids C3"
  proof (cases "sq_of C3 i = {}")
    case True
    then show ?thesis using p(9)[OF i] ids by (auto simp: fresh_def)
  qed (use ne ids in blast)
  show "sq_of C3 i \<noteq> {} \<Longrightarrow> sr_of C3 i \<noteq> -1 \<and> 0 \<le> ps_of C3 i" using ne by auto
qed

lemma not_batch_first: "q \<notin> batch_ids u \<Longrightarrow> rec_ubatch_ok u n \<Longrightarrow> q \<notin> firsts u (u_n_seqs u) \<and> (\<forall>s < u_n_seqs u. q \<notin> set (set_ids u s))"
  using seq_of_ok(2) unfolding batch_ids_def firsts_def by blast

lemma not_front:
  assumes G: "gathered u C1 mn mx (u_n_seqs u) C3" and u: "rec_ubatch_ok u (length C1)" and q: "q \<in> ids C3" "q \<notin> batch_ids u"
  shows "\<not> (mn \<le> tl_of C3 q \<and> tl_of C3 q < mn + int (u_n_seqs u))"
proof
  assume a: "mn \<le> tl_of C3 q \<and> tl_of C3 q < mn + int (u_n_seqs u)"
  define s where "s = nat (tl_of C3 q - mn)"
  have P: "placing C1 (firsts u (u_n_seqs u)) C3" using G unfolding gathered_def owned_def by blast
  have s: "s < u_n_seqs u" "tl_of C3 q = mn + int s" using a by (auto simp: s_def)
  then have "tl_of C3 (seq_of u s) = tl_of C3 q" using G unfolding gathered_def by simp
  moreover have f: "seq_of u s \<in> firsts u (u_n_seqs u)" using s(1) by (auto simp: firsts_def)
  ultimately have "q = seq_of u s" using placingD(6)[OF P f] q(1) by metis
  then show False using not_batch_first[OF q(2) u] f by simp
qed

text \<open>The last phases in one: \<open>C3\<close> are the gathered cells, \<open>C5\<close> the final ones.\<close>

definition finished :: "llama_ubatch \<Rightarrow> int \<Rightarrow> int \<Rightarrow> int \<Rightarrow> mem_cell list \<Rightarrow> mem_cell list \<Rightarrow> bool" where
  "finished u mn mx z C3 C5 \<longleftrightarrow> length C5 = length C3 \<and>
     (\<forall>s < u_n_seqs u. \<forall>q \<in> set (set_ids u s). tl_of C5 q = mn + int s) \<and>
     (\<forall>q \<in> ids C3. q \<notin> batch_ids u \<longrightarrow> tl_of C5 q = tl_of C3 q) \<and>
     (\<forall>s < u_n_seqs u. sq_of C5 (mn + int s) = set (set_ids u s) \<and> ps_of C5 (mn + int s) = set_last_pos u s) \<and>
     (\<forall>i \<in> ids C3. \<not> (mn \<le> i \<and> i < mn + int (u_n_seqs u)) \<longrightarrow> sq_of C5 i = sq_of C3 i \<and> ps_of C5 i = ps_of C3 i) \<and>
     (\<forall>i \<in> ids C3. sr_of C5 i = (if mn \<le> i \<and> i \<le> mx then i else sr_of C3 i)) \<and>
     (\<forall>i. mn \<le> i \<longrightarrow> i \<le> mx \<longrightarrow> s0_of C5 i = (if sr_of C3 i < 0 then z else sr_of C3 i))"

lemma finishedD:
  assumes "finished u mn mx z C3 C5"
  shows "length C5 = length C3"
    "s < u_n_seqs u \<Longrightarrow> q \<in> set (set_ids u s) \<Longrightarrow> tl_of C5 q = mn + int s"
    "q \<in> ids C3 \<Longrightarrow> q \<notin> batch_ids u \<Longrightarrow> tl_of C5 q = tl_of C3 q"
    "s < u_n_seqs u \<Longrightarrow> sq_of C5 (mn + int s) = set (set_ids u s) \<and> ps_of C5 (mn + int s) = set_last_pos u s"
    "i \<in> ids C3 \<Longrightarrow> \<not> (mn \<le> i \<and> i < mn + int (u_n_seqs u)) \<Longrightarrow> sq_of C5 i = sq_of C3 i \<and> ps_of C5 i = ps_of C3 i"
    "i \<in> ids C3 \<Longrightarrow> sr_of C5 i = (if mn \<le> i \<and> i \<le> mx then i else sr_of C3 i)"
    "mn \<le> i \<Longrightarrow> i \<le> mx \<Longrightarrow> s0_of C5 i = (if sr_of C3 i < 0 then z else sr_of C3 i)"
  using assms unfolding finished_def by blast+

lemma finishedI:
  assumes S: "settled u mn (u_n_seqs u) C3 C4" and T: "staged z mn (mx + 1) C4 C5" and u: "rec_ubatch_ok u (length C3)"
    and b: "0 \<le> mn" "mx < int (length C3)" "int (u_n_seqs u) \<le> mx - mn + 1"
  shows "finished u mn mx z C3 C5"
proof -
  note d = settledD[OF S]
  have len: "length C4 = length C3" "length C5 = length C4" using d(1) T by (auto simp: staged_def)
  have t: "tl_of C5 i = tl_of C4 i" "sq_of C5 i = sq_of C4 i" "ps_of C5 i = ps_of C4 i" "sr_of C5 i = (if mn \<le> i \<and> i < mx + 1 then i else sr_of C4 i)"
    "mn \<le> i \<and> i < mx + 1 \<longrightarrow> s0_of C5 i = (if sr_of C4 i < 0 then z else sr_of C4 i)" if "i \<in> ids C3" for i
    using T that len(1) unfolding staged_def by (simp_all del: not_less)
  have idq: "q \<in> ids C3" if "s < u_n_seqs u" "q \<in> set (set_ids u s)" for s q using rec_ubatch_okD(7)[OF u that(1)] that(2) by blast
  have ids: "mn + int s \<in> ids C3" if "s < u_n_seqs u" for s using that b by simp
  show ?thesis
    unfolding finished_def
  proof (intro conjI allI impI ballI)
    show "length C5 = length C3" using len by simp
    show "tl_of C5 q = mn + int s" if "s < u_n_seqs u" "q \<in> set (set_ids u s)" for s q using t(1)[OF idq[OF that]] d(2)[OF that] by simp
    show "tl_of C5 q = tl_of C3 q" if "q \<in> ids C3" "q \<notin> batch_ids u" for q
      using t(1)[OF that(1)] d(3)[OF that(1)] that(2) by (auto simp: batch_ids_def)
    show "sq_of C5 (mn + int s) = set (set_ids u s)" "ps_of C5 (mn + int s) = set_last_pos u s" if "s < u_n_seqs u" for s
      using t(2,3)[OF ids[OF that]] d(4,5)[OF that] by auto
    show "sq_of C5 i = sq_of C3 i" "ps_of C5 i = ps_of C3 i" if "i \<in> ids C3" "\<not> (mn \<le> i \<and> i < mn + int (u_n_seqs u))" for i
      using t(2,3)[OF that(1)] d(6)[OF that(1)] that(2) by auto
    show "sr_of C5 i = (if mn \<le> i \<and> i \<le> mx then i else sr_of C3 i)" if "i \<in> ids C3" for i using t(4)[OF that] d(7)[OF that] by auto
    show "s0_of C5 i = (if sr_of C3 i < 0 then z else sr_of C3 i)" if "mn \<le> i" "i \<le> mx" for i
    proof -
      have i: "i \<in> ids C3" using that b by simp
      show ?thesis using t(5)[OF i] d(7)[OF i] that by simp
    qed
  qed
qed

lemma front_cell: "mn \<le> i \<and> i < mn + int k \<Longrightarrow> \<exists>s < k. i = mn + int s"
  by (intro exI[of _ "nat (i - mn)"]) auto

lemma batch_setE: "q \<in> batch_ids u \<Longrightarrow> (\<And>s. s < u_n_seqs u \<Longrightarrow> q \<in> set (set_ids u s) \<Longrightarrow> thesis) \<Longrightarrow> thesis"
  by (auto simp: batch_ids_def)

lemma finished_ok:
  assumes u: "rec_ubatch_ok u (length C1)" and ok: "cells_ok C1" and G: "gathered u C1 mn mx (u_n_seqs u) C3"
    and F: "finished u mn mx z C3 C5" and later: "\<And>q. q \<in> batch_ids u \<Longrightarrow> q \<notin> firsts u (u_n_seqs u) \<Longrightarrow> tl_of C1 q = -1"
  shows "cells_ok C5"
proof -
  have O: "owned u C1 mn mx C3" using G unfolding gathered_def by blast
  have P: "placing C1 (firsts u (u_n_seqs u)) C3" and b: "mn \<in> ids C3" "mx \<in> ids C3"
    and out: "\<And>i. i \<in> ids C3 \<Longrightarrow> sr_of C3 i = -1 \<or> sr_of C3 i = i \<or> mn \<le> i \<and> i \<le> mx" using O unfolding owned_def by blast+
  note p = placingD[OF P] and f = finishedD[OF F] and room = owned_room[OF O u]
  have front: "tl_of C3 (seq_of u s) = mn + int s" if "s < u_n_seqs u" for s using G that unfolding gathered_def by blast
  show ?thesis
  proof (rule cells_okI)
    fix q assume "q \<in> ids C5"
    then have q: "q \<in> ids C3" using f(1) by simp
    show "tl_of C5 q = -1 \<or> tl_of C5 q \<in> ids C5"
    proof (cases "q \<in> batch_ids u")
      case True
      then obtain s where s: "s < u_n_seqs u" "q \<in> set (set_ids u s)" by (rule batch_setE)
      then show ?thesis using f(2)[OF s] b room f(1) by simp
    next
      case False
      then show ?thesis using f(3)[OF q False] p(3)[OF q] f(1) by simp
    qed
    show "q \<in> sq_of C5 (tl_of C5 q)" if t: "tl_of C5 q \<noteq> -1"
    proof (cases "q \<in> batch_ids u")
      case True
      then obtain s where s: "s < u_n_seqs u" "q \<in> set (set_ids u s)" by (rule batch_setE)
      then show ?thesis using f(2)[OF s] f(4)[OF s(1)] by simp
    next
      case False
      have e: "tl_of C5 q = tl_of C3 q" by (rule f(3)[OF q False])
      have "tl_of C3 q \<in> ids C3" "q \<in> sq_of C3 (tl_of C3 q)"
        using p(3,5)[OF q] t e not_batch_first[OF False u] by auto
      then show ?thesis using f(5)[of "tl_of C3 q"] not_front[OF G u q False] e by simp
    qed
  next
    fix i assume "i \<in> ids C5"
    then have i: "i \<in> ids C3" using f(1) by simp
    show "sr_of C5 i = -1 \<or> sr_of C5 i = i" using f(6)[OF i] out[OF i] by auto
    let ?front = "mn \<le> i \<and> i < mn + int (u_n_seqs u)"
    have fr: "sq_of C5 i \<noteq> {} \<and> 0 \<le> ps_of C5 i \<and> sr_of C5 i = i" if in_front: "?front"
    proof -
      obtain s where s: "s < u_n_seqs u" "i = mn + int s" using front_cell[OF in_front] by blast
      show ?thesis using f(4)[OF s(1)] s f(6)[OF i] room rec_ubatch_okD(5,8)[OF u s(1)] by simp
    qed
    show "ps_of C5 i = -1" if e: "sq_of C5 i = {}"
    proof -
      have "\<not> ?front" using fr e by blast
      then show ?thesis using f(5)[OF i] p(9)[OF i] e by simp
    qed
    show "0 \<le> ps_of C5 i \<and> sr_of C5 i = i" if e: "sq_of C5 i \<noteq> {}"
    proof (cases ?front)
      case False
      then show ?thesis using f(5)[OF i False] placed_src(2)[OF P ok i] e f(6)[OF i] out[OF i] by auto
    qed (use fr in blast)
    show "q \<in> ids C5 \<and> tl_of C5 q = i" if q: "q \<in> sq_of C5 i" for q
    proof (cases ?front)
      case True
      then obtain s where s: "s < u_n_seqs u" "i = mn + int s" using front_cell by blast
      then have "q \<in> set (set_ids u s)" using q f(4)[OF s(1)] by simp
      then show ?thesis using f(2)[OF s(1)] s rec_ubatch_okD(7)[OF u s(1)] f(1) p(1) by auto
    next
      case False
      then have qi: "q \<in> sq_of C3 i" using f(5)[OF i False] q by simp
      have q': "q \<in> ids C3" "tl_of C3 q = i" "tl_of C1 q \<noteq> -1" using p(4)[OF i qi] by auto
      have "q \<notin> batch_ids u"
      proof
        assume "q \<in> batch_ids u"
        then have "q \<in> firsts u (u_n_seqs u)" using later q'(3) by blast
        then obtain s where "s < u_n_seqs u" "q = seq_of u s" by (auto simp: firsts_def)
        then show False using front[of s] q'(2) False by simp
      qed
      then show ?thesis using f(3)[OF q'(1)] q' f(1) by simp
    qed
  qed
qed

lemma later_not_first:
  assumes u: "rec_ubatch_ok u n"
  shows "q \<in> later_ids u [0..<u_n_seqs u] \<longleftrightarrow> q \<in> batch_ids u \<and> q \<notin> firsts u (u_n_seqs u)"
proof -
  have "q \<notin> firsts u (u_n_seqs u)" if s: "s < u_n_seqs u" "q \<in> set (drop 1 (set_ids u s))" for s
  proof
    assume "q \<in> firsts u (u_n_seqs u)"
    then obtain r where r: "r < u_n_seqs u" "q = seq_of u r" by (auto simp: firsts_def)
    have "q \<in> set (set_ids u s)" using s(2) by (meson in_set_dropD)
    then have "s = r" using rec_ubatch_okD(9)[OF u s(1) r(1)] seq_of_ok(2)[OF u r(1)] r(2) by blast
    then show False using seq_of_ok(5)[OF u r(1)] s(2) r(2) by simp
  qed
  moreover have "\<exists>s < u_n_seqs u. q \<in> set (drop 1 (set_ids u s))" if q: "q \<in> batch_ids u" "q \<notin> firsts u (u_n_seqs u)"
  proof -
    obtain s where s: "s < u_n_seqs u" "q \<in> set (set_ids u s)" using q(1) by (rule batch_setE)
    then show ?thesis using seq_of_ok(4)[OF u s(1)] q(2) by (auto simp: firsts_def)
  qed
  moreover have "later_ids u [0..<u_n_seqs u] \<subseteq> batch_ids u"
    by (auto simp: later_ids_def batch_ids_def dest: in_set_dropD)
  moreover have "q \<in> later_ids u [0..<u_n_seqs u] \<longleftrightarrow> (\<exists>s < u_n_seqs u. q \<in> set (drop 1 (set_ids u s)))"
    by (auto simp: later_ids_def)
  ultimately show ?thesis by blast
qed

text \<open>The cells after the claims, as the table sees them.\<close>

lemma claimed_tail:
  assumes b: "becomes C (\<lambda>q. if q \<in> L then None else rec_at C q) C1" and q: "q \<in> ids C"
  shows "q \<in> L \<Longrightarrow> tl_of C1 q = -1" "q \<notin> L \<Longrightarrow> rec_at C q = None \<Longrightarrow> tl_of C1 q = -1"
    "q \<notin> L \<Longrightarrow> rec_at C q = Some (p, t) \<Longrightarrow> tl_of C1 q = t \<and> t \<noteq> -1 \<and> ps_of C1 t = p"
proof -
  have at: "rec_at C1 q = (if q \<in> L then None else rec_at C q)" and len: "length C1 = length C"
    using becomesD[OF b] by (auto simp: fun_eq_iff)
  show "q \<in> L \<Longrightarrow> tl_of C1 q = -1" "q \<notin> L \<Longrightarrow> rec_at C q = None \<Longrightarrow> tl_of C1 q = -1"
    using at q len by (auto simp: rec_at_def[of C1 q] split: if_splits)
  assume "q \<notin> L" "rec_at C q = Some (p, t)"
  then have "rec_at C1 q = Some (p, t)" using at by simp
  then show "tl_of C1 q = t \<and> t \<noteq> -1 \<and> ps_of C1 t = p" by (auto simp: rec_at_def[of C1 q] split: if_splits)
qed

text \<open>All phases: \<open>C\<close> before the call, \<open>C1\<close> after the claims, \<open>C3\<close> gathered, \<open>C5\<close> at the end.\<close>

definition slot_run :: "llama_ubatch \<Rightarrow> int \<Rightarrow> int \<Rightarrow> int \<Rightarrow> mem_cell list \<Rightarrow> mem_cell list \<Rightarrow> mem_cell list \<Rightarrow> mem_cell list \<Rightarrow> bool" where
  "slot_run u mn mx z C C1 C3 C5 \<longleftrightarrow> rec_ubatch_ok u (length C) \<and>
     becomes C (\<lambda>q. if q \<in> later_ids u [0..<u_n_seqs u] then None else rec_at C q) C1 \<and>
     gathered u C1 mn mx (u_n_seqs u) C3 \<and> finished u mn mx z C3 C5 \<and> (z = -1 \<or> mn \<le> z \<and> z \<le> mx) \<and>
     (\<forall>i \<in> ids C3. z \<noteq> -1 \<longrightarrow> sr_of C3 i \<noteq> z) \<and> (\<forall>i. mn \<le> i \<longrightarrow> i \<le> mx \<longrightarrow> sr_of C3 i < 0 \<longrightarrow> z \<noteq> -1)"

lemma slot_runD:
  assumes "slot_run u mn mx z C C1 C3 C5"
  shows "rec_ubatch_ok u (length C)" "rec_ubatch_ok u (length C1)"
    "becomes C (\<lambda>q. if q \<in> later_ids u [0..<u_n_seqs u] then None else rec_at C q) C1"
    "gathered u C1 mn mx (u_n_seqs u) C3" "finished u mn mx z C3 C5" "placing C1 (firsts u (u_n_seqs u)) C3"
    "ids C3 = ids C" "ids C5 = ids C" "mn \<in> ids C" "mx \<in> ids C" "int (u_n_seqs u) \<le> mx - mn + 1"
    "i \<in> ids C \<Longrightarrow> sr_of C3 i = -1 \<or> sr_of C3 i = i \<or> mn \<le> i \<and> i \<le> mx"
    "s < u_n_seqs u \<Longrightarrow> tl_of C3 (seq_of u s) = mn + int s"
    "z = -1 \<or> mn \<le> z \<and> z \<le> mx"
proof -
  show u: "rec_ubatch_ok u (length C)" and b: "becomes C (\<lambda>q. if q \<in> later_ids u [0..<u_n_seqs u] then None else rec_at C q) C1"
    and G: "gathered u C1 mn mx (u_n_seqs u) C3" and F: "finished u mn mx z C3 C5" and "z = -1 \<or> mn \<le> z \<and> z \<le> mx"
    using assms unfolding slot_run_def by blast+
  show u1: "rec_ubatch_ok u (length C1)" using u becomesD(2)[OF b] by simp
  have O: "owned u C1 mn mx C3" and "\<And>s. s < u_n_seqs u \<Longrightarrow> tl_of C3 (seq_of u s) = mn + int s" using G unfolding gathered_def by blast+
  then show "s < u_n_seqs u \<Longrightarrow> tl_of C3 (seq_of u s) = mn + int s" by blast
  show P: "placing C1 (firsts u (u_n_seqs u)) C3" using O unfolding owned_def by blast
  show ids: "ids C3 = ids C" "ids C5 = ids C" using placingD(1)[OF P] finishedD(1)[OF F] becomesD(2)[OF b] by auto
  show "mn \<in> ids C" "mx \<in> ids C" "i \<in> ids C \<Longrightarrow> sr_of C3 i = -1 \<or> sr_of C3 i = i \<or> mn \<le> i \<and> i \<le> mx"
    using O unfolding owned_def ids(1) by blast+
  show "int (u_n_seqs u) \<le> mx - mn + 1" by (rule owned_room[OF O u1])
qed

text \<open>What the graph reads: the row a cell had, or \<open>z\<close>, or a cleared row.\<close>

lemma slot_run_src0:
  assumes R: "slot_run u mn mx z C C1 C3 C5" and i: "mn \<le> i" "i \<le> mx"
  shows "sr_of C3 i \<noteq> -1 \<Longrightarrow> s0_of C5 i = sr_of C3 i \<and> sr_of C3 i \<noteq> z" "s0_of C5 i \<in> ids C"
    "sq_of C3 i = {} \<Longrightarrow> s0_of C5 i \<in> insert z (fresh C)"
proof -
  note r = slot_runD[OF R] and f = finishedD(7)[OF slot_runD(5)[OF R] i]
  have z: "sr_of C3 i < 0 \<Longrightarrow> z \<noteq> -1" "j \<in> ids C3 \<Longrightarrow> z \<noteq> -1 \<Longrightarrow> sr_of C3 j \<noteq> z" for j
    using R i unfolding slot_run_def by blast+
  have i3: "i \<in> ids C3" using i r(9,10) r(7) by simp
  have src: "sr_of C3 i = -1 \<or> sr_of C3 i \<in> ids C" using placed_src(1)[OF r(6) becomesD(1)[OF r(3)] i3] r(7) by simp
  have zi: "z \<in> ids C" if "sr_of C3 i = -1" using z(1) that r(9,10,14) by auto
  show a: "sr_of C3 i \<noteq> -1 \<Longrightarrow> s0_of C5 i = sr_of C3 i \<and> sr_of C3 i \<noteq> z" using f src z(2)[OF i3] by auto
  show "s0_of C5 i \<in> ids C" using f src zi by auto
  assume "sq_of C3 i = {}"
  then have "sr_of C3 i = -1 \<or> sr_of C3 i \<in> fresh C" using placingD(9)[OF r(6) i3] becomesD(3)[OF r(3)] by blast
  then show "s0_of C5 i \<in> insert z (fresh C)" using a f by (cases "sr_of C3 i = -1") auto
qed

lemma slot_run_others:
  assumes R: "slot_run u mn mx z C C1 C3 C5" and q: "q \<notin> batch_ids u" "q \<in> ids C"
  shows "rec_at C q = None \<Longrightarrow> rec_at C5 q = None"
    "rec_at C q = Some (p, t) \<Longrightarrow> \<exists>t'. rec_at C5 q = Some (p, t') \<and> \<not> (mn \<le> t' \<and> t' < mn + int (u_n_seqs u)) \<and>
        (if mn \<le> t' \<and> t' \<le> mx then s0_of C5 t' = t else t' = t) \<and> t \<noteq> z"
proof -
  note r = slot_runD[OF R] and f = finishedD[OF slot_runD(5)[OF R]] and pl = placingD[OF slot_runD(6)[OF R]]
  have nb: "q \<notin> firsts u (u_n_seqs u)" "q \<notin> later_ids u [0..<u_n_seqs u]"
    using not_batch_first[OF q(1) r(1)] later_not_first[OF r(1)] q(1) by blast+
  have q3: "q \<in> ids C3" using q(2) r(7) by simp
  have tl: "tl_of C5 q = tl_of C3 q" by (rule f(3)[OF q3 q(1)])
  show "rec_at C q = None \<Longrightarrow> rec_at C5 q = None"
    using claimed_tail(2)[OF r(3) q(2) nb(2)] pl(8)[OF q3 _ nb(1)] tl by (simp add: rec_at_def)
  assume "rec_at C q = Some (p, t)"
  then have t1: "tl_of C1 q = t" "t \<noteq> -1" "ps_of C1 t = p" using claimed_tail(3)[OF r(3) q(2) nb(2)] by auto
  let ?t = "tl_of C3 q"
  have t3: "?t \<noteq> -1" "sr_of C3 ?t = t" "ps_of C3 ?t = p" using pl(7)[OF q3] t1 by auto
  have ti: "?t \<in> ids C3" using pl(3)[OF q3] t3(1) by blast
  have nf: "\<not> (mn \<le> ?t \<and> ?t < mn + int (u_n_seqs u))" by (rule not_front[OF r(4) r(2) q3 q(1)])
  have "rec_at C5 q = Some (p, ?t)" using tl t3 f(5)[OF ti nf] q(2) r(8) by (simp add: rec_at_def)
  moreover have "if mn \<le> ?t \<and> ?t \<le> mx then s0_of C5 ?t = t else ?t = t"
    using slot_run_src0(1)[OF R, of ?t] r(12)[of ?t] ti r(7) t3 t1(2) by auto
  moreover have "t \<noteq> z" using R ti t3(2) t1(2) unfolding slot_run_def by blast
  ultimately show "\<exists>t'. rec_at C5 q = Some (p, t') \<and> \<not> (mn \<le> t' \<and> t' < mn + int (u_n_seqs u)) \<and>
        (if mn \<le> t' \<and> t' \<le> mx then s0_of C5 t' = t else t' = t) \<and> t \<noteq> z" using nf by blast
qed

lemma slot_run_batch:
  assumes R: "slot_run u mn mx z C C1 C3 C5" and s: "s < u_n_seqs u"
  shows "q \<in> set (set_ids u s) \<Longrightarrow> rec_at C5 q = Some (set_last_pos u s, mn + int s)"
    "case rec_at C (seq_of u s) of Some (p, t) \<Rightarrow> s0_of C5 (mn + int s) = t \<and> t \<noteq> z | None \<Rightarrow> s0_of C5 (mn + int s) \<in> insert z (fresh C)"
proof -
  note r = slot_runD[OF R] and f = finishedD[OF slot_runD(5)[OF R]] and pl = placingD[OF slot_runD(6)[OF R]]
  have m: "mn + int s \<noteq> -1" "mn \<le> mn + int s" "mn + int s \<le> mx" using r(9,11) s by auto
  show "rec_at C5 q = Some (set_last_pos u s, mn + int s)" if q: "q \<in> set (set_ids u s)"
  proof -
    have "q \<in> ids C5" using rec_ubatch_okD(7)[OF r(1) s] q r(8) by blast
    then show ?thesis using f(2)[OF s q] f(4)[OF s] m(1) by (simp add: rec_at_def)
  qed
  let ?q = "seq_of u s"
  have q: "?q \<in> ids C" "?q \<in> ids C3" "?q \<in> firsts u (u_n_seqs u)" using seq_of_ok(3)[OF r(1) s] r(7) s by (auto simp: firsts_def)
  have nl: "?q \<notin> later_ids u [0..<u_n_seqs u]" using later_not_first[OF r(1)] q(3) by blast
  have t: "tl_of C3 ?q = mn + int s" by (rule r(13)[OF s])
  show "case rec_at C ?q of Some (p, t) \<Rightarrow> s0_of C5 (mn + int s) = t \<and> t \<noteq> z | None \<Rightarrow> s0_of C5 (mn + int s) \<in> insert z (fresh C)"
  proof (cases "rec_at C ?q")
    case None
    have "tl_of C1 ?q = -1" by (rule claimed_tail(2)[OF r(3) q(1) nl None])
    then have "?q \<notin> sq_of C3 (mn + int s)" using pl(4)[of "mn + int s" ?q] pl(3)[OF q(2)] t m(1) by auto
    then have "sq_of C3 (mn + int s) = {}" using pl(5)[OF q(2)] t m(1) by auto
    then show ?thesis using slot_run_src0(3)[OF R m(2,3)] None by simp
  next
    case (Some e)
    obtain p t0 where e: "e = (p, t0)" by (cases e)
    have "tl_of C1 ?q = t0" "t0 \<noteq> -1" using claimed_tail(3)[OF r(3) q(1) nl] Some e by auto
    then have "sr_of C3 (mn + int s) = t0" using pl(7)[OF q(2)] t by simp
    then show ?thesis using slot_run_src0(1)[OF R m(2,3)] \<open>t0 \<noteq> -1\<close> Some e by simp
  qed
qed

lemma slot_run_fresh:
  assumes R: "slot_run u mn mx z C C1 C3 C5" and i: "i \<in> fresh C5"
  shows "if mn \<le> i \<and> i \<le> mx then mn + int (u_n_seqs u) \<le> i \<and> s0_of C5 i \<in> insert z (fresh C) else i \<in> fresh C"
proof -
  note r = slot_runD[OF R] and f = finishedD[OF slot_runD(5)[OF R]] and pl = placingD[OF slot_runD(6)[OF R]]
  have i5: "i \<in> ids C5" "sq_of C5 i = {}" "sr_of C5 i = i" using i by (auto simp: fresh_def)
  have i3: "i \<in> ids C3" using i5(1) r(7,8) by simp
  have nf: "\<not> (mn \<le> i \<and> i < mn + int (u_n_seqs u))"
  proof
    assume "mn \<le> i \<and> i < mn + int (u_n_seqs u)"
    then obtain s where "s < u_n_seqs u" "i = mn + int s" using front_cell by blast
    then show False using f(4)[of s] i5(2) rec_ubatch_okD(5)[OF r(1)] by simp
  qed
  have e: "sq_of C3 i = {}" using f(5)[OF i3 nf] i5(2) by simp
  show ?thesis
  proof (cases "mn \<le> i \<and> i \<le> mx")
    case True
    then show ?thesis using nf slot_run_src0(3)[OF R _ _ e] by auto
  next
    case False
    then have "sr_of C3 i = i" using f(6)[OF i3] unfolding i5(3) by (simp only: if_False)
    then have "i \<in> fresh C1" using pl(9)[OF i3 e] i3 by auto
    then show ?thesis using becomesD(3)[OF r(3)] False by auto
  qed
qed

lemma slot_run_result:
  assumes R: "slot_run u mn mx z C C1 C3 C5"
  shows "slot_result u C z mn (mx - mn + 1) C5"
proof -
  note r = slot_runD[OF R]
  have later: "tl_of C1 q = -1" if "q \<in> batch_ids u" "q \<notin> firsts u (u_n_seqs u)" for q
  proof -
    obtain s where "s < u_n_seqs u" "q \<in> set (set_ids u s)" using \<open>q \<in> batch_ids u\<close> by (rule batch_setE)
    then have "q \<in> ids C" using rec_ubatch_okD(7)[OF r(1)] by blast
    then show ?thesis using claimed_tail(1)[OF r(3)] later_not_first[OF r(1)] that by blast
  qed
  have inC: "q \<in> ids C" if "rec_at C q = Some e" for q e using that by (auto simp: rec_at_def split: if_splits)
  have rng: "i < mn + (mx - mn + 1) \<longleftrightarrow> i \<le> mx" for i by auto
  show ?thesis
    unfolding slot_result_def rng
  proof (intro conjI allI impI ballI)
    show "cells_ok C5" by (rule finished_ok[OF r(2) becomesD(1)[OF r(3)] r(4,5) later])
    show "length C5 = length C" using finishedD(1)[OF r(5)] placingD(1)[OF r(6)] becomesD(2)[OF r(3)] by simp
    show "0 \<le> mn" "int (u_n_seqs u) \<le> mx - mn + 1" "mn + (mx - mn + 1) \<le> int (length C)" "z = -1 \<or> mn \<le> z \<and> z \<le> mx"
      using r(9-11,14) by auto
    show "s0_of C5 i \<in> ids C" if "mn \<le> i" "i \<le> mx" for i by (rule slot_run_src0(2)[OF R that])
    show "rec_at C5 q = Some (set_last_pos u s, mn + int s)" if "s < u_n_seqs u" "q \<in> set (set_ids u s)" for s q
      by (rule slot_run_batch(1)[OF R that])
    show "case rec_at C (seq_of u s) of Some (p, t) \<Rightarrow> s0_of C5 (mn + int s) = t \<and> t \<noteq> z | None \<Rightarrow> s0_of C5 (mn + int s) \<in> insert z (fresh C)"
      if "s < u_n_seqs u" for s by (rule slot_run_batch(2)[OF R that])
    show "if mn \<le> i \<and> i \<le> mx then mn + int (u_n_seqs u) \<le> i \<and> s0_of C5 i \<in> insert z (fresh C) else i \<in> fresh C" if "i \<in> fresh C5" for i
      by (rule slot_run_fresh[OF R that])
    show "\<exists>t'. rec_at C5 q = Some (p, t') \<and> \<not> (mn \<le> t' \<and> t' < mn + int (u_n_seqs u)) \<and>
        (if mn \<le> t' \<and> t' \<le> mx then s0_of C5 t' = t else t' = t) \<and> t \<noteq> z" if "q \<notin> batch_ids u" "rec_at C q = Some (p, t)" for q p t
      by (rule slot_run_others(2)[OF R that(1) inC[OF that(2)] that(2)])
    show "rec_at C5 q = None" if q: "q \<notin> batch_ids u" "rec_at C q = None" for q
    proof (cases "q \<in> ids C")
      case True
      show ?thesis by (rule slot_run_others(1)[OF R q(1) True q(2)])
    next
      case False
      then have "q \<notin> ids C5" using r(8) by simp
      then show ?thesis by (simp only: rec_at_def if_False simp_thms)
    qed
  qed
qed

section \<open>The call\<close>

lemma busy_count: "length (filter (\<lambda>c. \<not> mc_is_empty c) C) = card (busy C)"
  by (simp add: length_filter_conv_card busy_def mc_is_empty_def)

lemma find_range:
  assumes "z = (case find P [a..<b] of None \<Rightarrow> -1 | Some i \<Rightarrow> int i)"
  shows "z = -1 \<and> (\<forall>i. a \<le> i \<and> i < b \<longrightarrow> \<not> P i) \<or> (\<exists>i. z = int i \<and> a \<le> i \<and> i < b \<and> P i)"
proof (cases "find P [a..<b]")
  case None
  then have "\<forall>i. a \<le> i \<and> i < b \<longrightarrow> \<not> P i" by (simp add: find_None_iff)
  then show ?thesis using assms None by simp
next
  case (Some i)
  then obtain k where "k < length [a..<b]" "P i" "i = [a..<b] ! k" by (auto simp: find_Some_iff)
  then have "a \<le> i" "i < b" "P i" by auto
  then show ?thesis using assms Some by simp
qed

lemma find_row:
  assumes z: "z = (case find (\<lambda>i. counts ! i = (0 :: nat)) [nat mn..<Suc (nat mx)] of None \<Rightarrow> -1 | Some i \<Rightarrow> int i)" and b: "0 \<le> mn" "0 \<le> mx"
  shows "z = -1 \<and> (\<forall>r. mn \<le> r \<and> r \<le> mx \<longrightarrow> counts ! nat r \<noteq> 0) \<or> mn \<le> z \<and> z \<le> mx \<and> counts ! nat z = 0"
  using find_range[OF z]
proof
  assume a: "z = -1 \<and> (\<forall>i. nat mn \<le> i \<and> i < Suc (nat mx) \<longrightarrow> counts ! i \<noteq> 0)"
  have "counts ! nat r \<noteq> 0" if "mn \<le> r" "r \<le> mx" for r using a that b by (auto simp: le_nat_iff less_Suc_eq_le)
  then show ?thesis using a by blast
next
  assume "\<exists>i. z = int i \<and> nat mn \<le> i \<and> i < Suc (nat mx) \<and> counts ! i = 0"
  then show ?thesis using b by auto
qed

lemma refcounts_ids:
  assumes "\<And>i. i \<in> ids C \<Longrightarrow> sr_of C i = -1 \<or> sr_of C i \<in> ids C"
  obtains counts where "refcounts C = Some counts" "\<And>r. r \<in> ids C \<Longrightarrow> counts ! nat r = 0 \<longleftrightarrow> (\<forall>j \<in> ids C. sr_of C j \<noteq> r)"
proof -
  have mem: "(\<forall>c \<in> set C. Q c) \<longleftrightarrow> (\<forall>j \<in> ids C. Q (C ! nat j))" for Q
  proof -
    have "C ! k = C ! nat (int k)" "int k \<in> ids C" if "k < length C" for k using that by auto
    then show ?thesis unfolding all_set_conv_all_nth by (metis atLeastLessThan_iff nat_less_iff)
  qed
  have "\<forall>c \<in> set C. mc_src c < 0 \<or> nat (mc_src c) < length C" unfolding mem
  proof
    fix j assume "j \<in> ids C"
    then show "sr_of C j < 0 \<or> nat (sr_of C j) < length C" using assms[of j] by (auto simp: nat_less_iff)
  qed
  then obtain counts where cnt: "refcounts C = Some counts" "\<And>i. i < length C \<Longrightarrow> counts ! i = 0 \<longleftrightarrow> (\<forall>c \<in> set C. mc_src c \<noteq> int i)"
    by (rule refcounts_ok) blast
  show ?thesis
  proof (rule that[OF cnt(1)])
    fix r assume "r \<in> ids C"
    then show "counts ! nat r = 0 \<longleftrightarrow> (\<forall>j \<in> ids C. sr_of C j \<noteq> r)" using cnt(2)[of "nat r"] unfolding mem by (simp add: nat_less_iff)
  qed
qed

text \<open>The phases after the claims run to the end.\<close>

lemma slot_phases:
  assumes u: "rec_ubatch_ok u (length C)" and b: "becomes C (\<lambda>q. if q \<in> later_ids u [0..<u_n_seqs u] then None else rec_at C q) C1"
    and h: "h < length C"
  obtains e mn mx C2 C3 C4 counts z C5 where
    "for_loop (own_cell u) [0..<u_n_seqs u] (C1, seek_empty (length C1) C1 h, int (length C) - 1, 0) = Some (C2, e, mn, mx)"
    "for_loop (gather u mn) [0..<u_n_seqs u] C2 = Some C3" "for_loop (settle u mn) [0..<u_n_seqs u] C3 = Some C4"
    "refcounts C4 = Some counts" "0 \<le> mn" "nat mx < length C4"
    "z = (case find (\<lambda>i. counts ! i = 0) [nat mn..<Suc (nat mx)] of None \<Rightarrow> -1 | Some i \<Rightarrow> int i)"
    "for_loop (stage_src z) [nat mn..<Suc (nat mx)] C4 = Some C5" "slot_run u mn mx z C C1 C3 C5" "u_n_seqs u = 1 \<longrightarrow> mn = mx"
proof -
  let ?n = "u_n_seqs u"
  note c = becomesD[OF b]
  have u1: "rec_ubatch_ok u (length C1)" and h1: "h < length C1" using u h c(2) by auto
  obtain C2 e mn mx where own: "for_loop (own_cell u) [0..<?n] (C1, seek_empty (length C1) C1 h, int (length C) - 1, 0) = Some (C2, e, mn, mx)"
    and O: "owned u C1 mn mx C2" and one: "?n = 1 \<longrightarrow> mn = mx" using own_loop[OF c(1) u1 h1] unfolding c(2) by blast
  obtain C3 where gat: "for_loop (gather u mn) [0..<?n] C2 = Some C3" and G: "gathered u C1 mn mx ?n C3" using gather_loop[OF u1 O] by blast
  have O3: "owned u C1 mn mx C3" using G unfolding gathered_def by blast
  have P: "placing C1 (firsts u ?n) C3" and bd: "mn \<in> ids C3" "mx \<in> ids C3"
    and out: "\<And>i. i \<in> ids C3 \<Longrightarrow> sr_of C3 i = -1 \<or> sr_of C3 i = i \<or> mn \<le> i \<and> i \<le> mx" using O3 unfolding owned_def by blast+
  have l3: "length C3 = length C1" by (rule placingD(1)[OF P])
  have u3: "rec_ubatch_ok u (length C3)" and room: "int ?n \<le> mx - mn + 1" using u1 l3 owned_room[OF O3 u1] by auto
  obtain C4 where set: "for_loop (settle u mn) [0..<?n] C3 = Some C4" and S: "settled u mn ?n C3 C4"
    using settle_loop[OF u3, of mn] bd room by auto
  have l4: "length C4 = length C3" by (rule settledD(1)[OF S])
  have sr4: "sr_of C4 i = sr_of C3 i" if "i \<in> ids C3" for i by (rule settledD(7)[OF S that])
  have src4: "sr_of C4 i = -1 \<or> sr_of C4 i \<in> ids C4" if "i \<in> ids C4" for i
    using placed_src(1)[OF P c(1), of i] sr4[of i] that unfolding l4 by simp
  obtain counts where cnt: "refcounts C4 = Some counts" "\<And>r. r \<in> ids C4 \<Longrightarrow> counts ! nat r = 0 \<longleftrightarrow> (\<forall>j \<in> ids C4. sr_of C4 j \<noteq> r)"
    using refcounts_ids[OF src4] by blast
  have unref: "counts ! nat r = 0 \<longleftrightarrow> (\<forall>j \<in> ids C3. sr_of C3 j \<noteq> r)" if "r \<in> ids C3" for r
    using cnt(2)[unfolded l4, OF that] sr4 by simp
  define z where "z = (case find (\<lambda>i. counts ! i = 0) [nat mn..<Suc (nat mx)] of None \<Rightarrow> -1 | Some i \<Rightarrow> int i)"
  have rng: "r \<in> ids C3" if "mn \<le> r" "r \<le> mx" for r using that bd by simp
  have zc: "z = -1 \<and> (\<forall>r. mn \<le> r \<and> r \<le> mx \<longrightarrow> counts ! nat r \<noteq> 0) \<or> mn \<le> z \<and> z \<le> mx \<and> counts ! nat z = 0"
    by (rule find_row[OF z_def]) (use bd in auto)
  have zfree: "sr_of C3 i \<noteq> z" if "i \<in> ids C3" "z \<noteq> -1" for i using zc that unref rng by blast
  have zneed: "z \<noteq> -1" if i: "mn \<le> i" "i \<le> mx" "sr_of C3 i < 0" for i
  proof -
    obtain r where "mn \<le> r" "r \<le> mx" "\<forall>j \<in> ids C3. sr_of C3 j \<noteq> r" using zero_row_exists[OF bd out i] by blast
    then have "counts ! nat r = 0" using unref rng by blast
    then show ?thesis using zc \<open>mn \<le> r\<close> \<open>r \<le> mx\<close> bd(1) by auto
  qed
  have "0 \<le> z" if "sr_of C4 i < 0" "i \<in> ids C4" "int (nat mn) \<le> i" "i < int (Suc (nat mx))" for i
    using zneed[of i] zc sr4[of i] that bd l4 by auto
  moreover have "Suc (nat mx) \<le> length C4" "nat mn \<le> Suc (nat mx)" using bd l4 room rec_ubatch_okD(2)[OF u] by auto
  ultimately obtain C5 where stg: "for_loop (stage_src z) [nat mn..<Suc (nat mx)] C4 = Some C5" and "staged z (int (nat mn)) (int (Suc (nat mx))) C4 C5"
    using stage_loop[of C4 "nat mn" "Suc (nat mx)" z] by blast
  moreover have "int (nat mn) = mn" "int (Suc (nat mx)) = mx + 1" using bd by auto
  ultimately have T: "staged z mn (mx + 1) C4 C5" by (simp only:)
  have F: "finished u mn mx z C3 C5" by (rule finishedI[OF S T u3]) (use bd room in auto)
  have R: "slot_run u mn mx z C C1 C3 C5" unfolding slot_run_def using u b G F zc zfree zneed by blast
  show ?thesis by (rule that[OF own gat set cnt(1) _ _ z_def stg R one]) (use bd l4 in auto)
qed

lemma slot_resultD:
  assumes "slot_result u C z h n C'"
  shows "cells_ok C'" "length C' = length C" "0 \<le> h" "int (u_n_seqs u) \<le> n" "h + n \<le> int (length C)" "z = -1 \<or> h \<le> z \<and> z < h + n"
    "s < u_n_seqs u \<Longrightarrow> q \<in> set (set_ids u s) \<Longrightarrow> rec_at C' q = Some (set_last_pos u s, h + int s)"
    "q \<notin> batch_ids u \<Longrightarrow> rec_at C q = None \<Longrightarrow> rec_at C' q = None"
    "q \<notin> batch_ids u \<Longrightarrow> rec_at C q = Some (p, t) \<Longrightarrow> \<exists>t'. rec_at C' q = Some (p, t') \<and> \<not> (h \<le> t' \<and> t' < h + int (u_n_seqs u)) \<and>
        (if h \<le> t' \<and> t' < h + n then s0_of C' t' = t else t' = t) \<and> t \<noteq> z"
    "s < u_n_seqs u \<Longrightarrow> case rec_at C (seq_of u s) of Some (p, t) \<Rightarrow> s0_of C' (h + int s) = t \<and> t \<noteq> z | None \<Rightarrow> s0_of C' (h + int s) \<in> insert z (fresh C)"
    "h \<le> i \<Longrightarrow> i < h + n \<Longrightarrow> s0_of C' i \<in> ids C"
    "i \<in> fresh C' \<Longrightarrow> if h \<le> i \<and> i < h + n then h + int (u_n_seqs u) \<le> i \<and> s0_of C' i \<in> insert z (fresh C) else i \<in> fresh C"
  using assms unfolding slot_result_def by blast+

lemma rec_find_slot_ok:
  assumes m: "rec_ok m" and u: "rec_ubatch_ok u (rs_size m)"
  shows "\<exists>m'. rec_find_slot u m = Some (m', True) \<and> rec_ok m' \<and> rs_size m' = rs_size m \<and> rs_r_l m' = rs_r_l m \<and> rs_s_l m' = rs_s_l m \<and>
    slot_result u (rs_cells m) (rs_z m') (int (rs_head m')) (int (unat (rs_n m'))) (rs_cells m') \<and> (u_n_seqs u = 1 \<longrightarrow> unat (rs_n m') = 1) \<and>
    rs_hparams m' = rs_hparams m \<and> rs_n_seq_max m' = rs_n_seq_max m"
proof -
  let ?n = "u_n_seqs u" and ?C = "rs_cells m"
  let ?m = "if rs_head m > unat (rs_used m + 2 * word_of_nat ?n) then m\<lparr>rs_head := 0\<rparr> else m"
  note o = rec_okD[OF m]
  have h: "rs_head ?m < length ?C" "rs_cells ?m = ?C" "rs_used ?m = rs_used m" "rs_size ?m = length ?C" using o by auto
  have uC: "rec_ubatch_ok u (length ?C)" using u o(4) by simp
  have all: "\<forall>s \<in> set [0..<?n]. set (set_ids u s) \<subseteq> ids ?C" using rec_ubatch_okD(7)[OF uC] by simp
  obtain C1 u1 where cl: "claim_sets u [0..<?n] (?C, rs_used m) = Some ((C1, u1), True)"
    and b: "becomes ?C (\<lambda>q. if q \<in> later_ids u [0..<?n] then None else rec_at ?C q) C1"
    using claim_sets_ok[OF o(5,6), of u "[0..<?n]"] all by auto
  obtain e mn mx C2 C3 C4 counts z C5 where
    own: "for_loop (own_cell u) [0..<?n] (C1, seek_empty (length C1) C1 (rs_head ?m), int (length ?C) - 1, 0) = Some (C2, e, mn, mx)"
    and gat: "for_loop (gather u mn) [0..<?n] C2 = Some C3" and st: "for_loop (settle u mn) [0..<?n] C3 = Some C4"
    and cnt: "refcounts C4 = Some counts" and bd: "0 \<le> mn" "nat mx < length C4"
    and z: "z = (case find (\<lambda>i. counts ! i = 0) [nat mn..<Suc (nat mx)] of None \<Rightarrow> -1 | Some i \<Rightarrow> int i)"
    and stg: "for_loop (stage_src z) [nat mn..<Suc (nat mx)] C4 = Some C5" and R: "slot_run u mn mx z ?C C1 C3 C5" and one: "?n = 1 \<longrightarrow> mn = mx"
    by (rule slot_phases[OF uC b h(1)])
  let ?w = "word_of_int (mx - mn + 1) :: u32"
  let ?m' = "?m\<lparr>rs_cells := C5, rs_z := z, rs_head := nat mn, rs_n := ?w, rs_used := word_of_nat (length (filter (\<lambda>c. \<not> mc_is_empty c) C5))\<rparr>"
  have run: "rec_find_slot u m = Some (?m', word_of_nat ?n \<le> ?w)"
    unfolding rec_find_slot_def Let_def
    using rec_ubatch_okD(1)[OF u] cl own gat st cnt bd stg z h by simp
  note r = slot_run_result[OF R] and rd = slot_resultD[OF slot_run_result[OF R]]
  have rng: "0 \<le> mx - mn + 1" "mx - mn + 1 < 2 ^ 30" "int ?n \<le> mx - mn + 1" using rd(3-5) o(2,4) bd(1) by auto
  have "uint ?w = take_bit 32 (mx - mn + 1)" by (simp only: unsigned_of_int len_of_numeral_defs len_num0 len_num1) simp
  also have "\<dots> = mx - mn + 1" using rng by (intro take_bit_int_eq_self) auto
  finally have w: "int (unat ?w) = mx - mn + 1" using rng(1) by (simp only: int_nat_eq unat_eq_nat_uint if_True)
  have "word_of_nat ?n \<le> ?w"
  proof -
    have "unat (word_of_nat ?n :: u32) \<le> ?n" by (simp add: unsigned_of_nat)
    then have "int (unat (word_of_nat ?n :: u32)) \<le> int (unat ?w)" using w rng(3) by linarith
    then show ?thesis by (simp only: word_le_nat_alt of_nat_le_iff)
  qed
  moreover have "rec_ok ?m'" using rd(1,2,3,5) rng o(1,2,4) rec_ubatch_okD(2)[OF u] by (simp add: rec_ok_def busy_count)
  moreover have "slot_result u ?C (rs_z ?m') (int (rs_head ?m')) (int (unat (rs_n ?m'))) (rs_cells ?m')" using r w bd(1) by simp
  moreover have "unat ?w = 1" if "?n = 1" using w one that by simp
  ultimately show ?thesis using run by (intro exI[of _ ?m']) simp
qed

section \<open>The graph\<close>

lemma those_map_Some: "(\<And>x. x \<in> set xs \<Longrightarrow> f x = Some (g x)) \<Longrightarrow> those (map f xs) = Some (map g xs)"
  by (induction xs) auto

lemma get_rows_ok: "(\<And>i. i \<in> set idx \<Longrightarrow> 0 \<le> i \<and> nat i < length rows) \<Longrightarrow> get_rows rows idx = Some (map (\<lambda>i. rows ! nat i) idx)"
  unfolding get_rows_def by (rule those_map_Some) simp

lemma get_rows_map: "(\<And>x. x \<in> set xs \<Longrightarrow> 0 \<le> f x \<and> nat (f x) < length rows) \<Longrightarrow> get_rows rows (map f xs) = Some (map (\<lambda>x. rows ! nat (f x)) xs)"
  using get_rows_ok[of "map f xs" rows] by (auto simp: comp_def)

lemma store_rows_at_nth:
  assumes "off + length new \<le> length rows"
  shows "length (store_rows_at off new rows) = length rows"
    "i < length rows \<Longrightarrow> store_rows_at off new rows ! i = (if off \<le> i \<and> i < off + length new then new ! (i - off) else rows ! i)"
  using assms by (auto simp: store_rows_at_def nth_append min_def)

text \<open>The table that a memory and the rows of a state tensor represent; rows that count as cleared are zero.\<close>

definition rec_table :: "mem_cell list \<Rightarrow> 'row list \<Rightarrow> llama_seq_id \<Rightarrow> (llama_pos \<times> 'row) option" where
  "rec_table C rows q = map_option (\<lambda>(p, t). (p, rows ! nat t)) (rec_at C q)"

definition rows_ok :: "'row \<Rightarrow> mem_cell list \<Rightarrow> 'row list \<Rightarrow> bool" where
  "rows_ok zero C rows \<longleftrightarrow> length rows = length C \<and> (\<forall>i \<in> fresh C. rows ! nat i = zero)"

text \<open>What \<^verbatim>\<open>build_rs\<close> computes after \<^verbatim>\<open>find_slot\<close>: \<open>st\<close> are the rows with row \<open>z\<close> zeroed.\<close>

lemma build_rs_ok:
  assumes R: "slot_result u C (rs_z m) (int (rs_head m)) (int (unat (rs_n m))) (rs_cells m)" and rc: "\<not> rc_is_full rc"
    and len: "length rows = length C" and sc: "\<And>r. scale0 r = zero"
  defines "st \<equiv> (if rs_z m \<ge> 0 then rows[nat (rs_z m) := zero] else rows)"
  obtains copies where "rs_set_input rc m = Some copies" "length copies = unat (rs_n m)"
    "build_rs scale0 copies (u_n_seqs u) rc m rows = Some
      (map (\<lambda>s. st ! nat (s0_of (rs_cells m) (int (rs_head m) + int s))) [0..<u_n_seqs u],
       store_rows_at (rs_head m + u_n_seqs u) (map (\<lambda>i. st ! nat (s0_of (rs_cells m) (int (rs_head m) + int i))) [u_n_seqs u..<unat (rs_n m)]) st)"
proof -
  let ?C = "rs_cells m" and ?n = "unat (rs_n m)" and ?h = "rs_head m" and ?k = "u_n_seqs u"
  let ?copy = "\<lambda>i. s0_of (rs_cells m) (int (rs_head m) + int i)"
  note r = slot_resultD[OF R]
  let ?copies = "map ?copy [0..<?n]"
  have hn: "?h + ?n \<le> length C" "?k \<le> ?n" using r(4,5) by linarith+
  have nat: "nat (int ?h + int i) = i + ?h" for i by linarith
  have inp: "rs_set_input rc m = Some ?copies"
    unfolding rs_set_input_def using rc hn r(2) by (simp add: get_n_rs_def, intro those_map_Some) (simp add: s_copy_def s0_of_def nat)
  have idx: "0 \<le> ?copy i \<and> nat (?copy i) < length C" if "i < ?n" for i
  proof -
    have "?copy i \<in> ids C" by (rule r(11)) (use that in linarith)+
    then show ?thesis by auto
  qed
  have z: "nat (rs_z m) < length rows" if "rs_z m \<ge> 0" using r(5,6) that len by auto
  have st: "(if rs_z m \<ge> 0 then Option.bind (require (nat (rs_z m) < length rows)) (\<lambda>_. Some (rows[nat (rs_z m) := scale0 (rows ! nat (rs_z m))])) else Some rows) = Some st"
    using z sc by (auto simp: st_def)
  have lst: "length st = length C" using len by (simp add: st_def)
  have main: "get_rows st (take ?k ?copies) = Some (map (\<lambda>s. st ! nat (?copy s)) [0..<?k])"
    unfolding take_map using hn(2) by (simp add: min_def, intro get_rows_map) (use idx hn(2) lst in auto)
  have extra: "get_rows st (drop ?k ?copies) = Some (map (\<lambda>s. st ! nat (?copy s)) [?k..<?n])"
    unfolding drop_map by (simp, intro get_rows_map) (use idx lst in auto)
  have "build_rs scale0 ?copies ?k rc m rows = Some (map (\<lambda>s. st ! nat (?copy s)) [0..<?k],
      store_rows_at (?h + ?k) (map (\<lambda>i. st ! nat (?copy i)) [?k..<?n]) st)"
    by (simp only: build_rs_def Let_def get_rs_z_def get_head_def rc if_False st main extra Option.bind.simps) (use hn len in simp)
  then show ?thesis using that[of ?copies] inp by simp
qed

text \<open>Every row after the graph and the write-back.\<close>

lemma forward_rows:
  fixes g :: "nat \<Rightarrow> nat"
  assumes len: "length st = N" "h + n \<le> N" "k \<le> n" "length new = k"
  defines "rows' \<equiv> store_rows_at h new (store_rows_at (h + k) (map (\<lambda>i. st ! g i) [k..<n]) st)"
  shows "length rows' = N" "s < k \<Longrightarrow> rows' ! (h + s) = new ! s" "k \<le> i \<Longrightarrow> i < n \<Longrightarrow> rows' ! (h + i) = st ! g i"
    "i < N \<Longrightarrow> i < h \<or> h + n \<le> i \<Longrightarrow> rows' ! i = st ! i"
proof -
  let ?e = "map (\<lambda>i. st ! g i) [k..<n]"
  have l1: "h + k + length ?e \<le> length st" using len by simp
  note a = store_rows_at_nth[OF l1]
  have l2: "h + length new \<le> length (store_rows_at (h + k) ?e st)" using a(1) len by simp
  note b = store_rows_at_nth[OF l2]
  show "length rows' = N" using a(1) b(1) len by (simp add: rows'_def)
  show "s < k \<Longrightarrow> rows' ! (h + s) = new ! s" using b(2)[of "h + s"] a(1) len by (simp add: rows'_def)
  show "k \<le> i \<Longrightarrow> i < n \<Longrightarrow> rows' ! (h + i) = st ! g i" using b(2)[of "h + i"] a(1) a(2)[of "h + i"] len by (simp add: rows'_def)
  show "i < N \<Longrightarrow> i < h \<or> h + n \<le> i \<Longrightarrow> rows' ! i = st ! i" using b(2)[of i] a(1) a(2)[of i] len by (auto simp: rows'_def)
qed

lemma rec_at_mem: "cells_ok C \<Longrightarrow> rec_at C q = Some (p, t) \<Longrightarrow> t \<in> ids C"
  using tail_mem[of C q] by (auto simp: rec_at_def split: if_splits)

text \<open>The rows after the step, as the table of the new cells sees them.\<close>

lemma forward_table:
  assumes R: "slot_result u C z (int h) (int n) C'" and len: "length rows = length C" and zero: "rows_ok zero C rows" and new: "length new = u_n_seqs u"
  defines "st \<equiv> (if z \<ge> 0 then rows[nat z := zero] else rows)"
  defines "rows' \<equiv> store_rows_at h new (store_rows_at (h + u_n_seqs u) (map (\<lambda>i. st ! nat (s0_of C' (int h + int i))) [u_n_seqs u..<n]) st)"
  shows "rows_ok zero C' rows'" "q \<notin> batch_ids u \<Longrightarrow> rec_table C' rows' q = rec_table C rows q"
    "s < u_n_seqs u \<Longrightarrow> q \<in> set (set_ids u s) \<Longrightarrow> rec_table C' rows' q = Some (set_last_pos u s, new ! s)"
    "s < u_n_seqs u \<Longrightarrow> st ! nat (s0_of C' (int h + int s)) = (case rec_table C rows (seq_of u s) of None \<Rightarrow> zero | Some (p, r) \<Rightarrow> r)"
proof -
  let ?k = "u_n_seqs u"
  note r = slot_resultD[OF R]
  have hn: "h + n \<le> length C" "?k \<le> n" using r(4,5) by linarith+
  have lst: "length st = length C" using len by (simp add: st_def)
  note w = forward_rows[OF lst hn new, where g = "\<lambda>i. nat (s0_of C' (int h + int i))", folded rows'_def]
  have st_z: "st ! nat z = zero" if "z \<ge> 0" using that r(5,6) len by (auto simp: st_def)
  have st_other: "st ! nat t = rows ! nat t" if "t \<noteq> z" "0 \<le> t" for t using that by (auto simp: st_def nth_list_update nat_eq_iff)
  have fz: "rows ! nat i = zero" if "i \<in> fresh C" for i using zero that by (simp add: rows_ok_def)
  have st_fresh: "st ! nat i = zero" if "i \<in> insert z (fresh C)" "0 \<le> i" for i
    using that st_z st_other[of i] fz by (cases "i = z") auto
  have src0: "0 \<le> s0_of C' i" if "int h \<le> i" "i < int h + int n" for i using r(11)[OF that] by simp
  have nat: "nat (int h + int i) = h + i" for i by linarith
  show "rec_table C' rows' q = Some (set_last_pos u s, new ! s)" if "s < ?k" "q \<in> set (set_ids u s)" for s q
    using r(7)[OF that] w(2)[OF that(1)] by (simp add: rec_table_def nat)
  show "st ! nat (s0_of C' (int h + int s)) = (case rec_table C rows (seq_of u s) of None \<Rightarrow> zero | Some (p, r) \<Rightarrow> r)" if s: "s < ?k" for s
  proof -
    have i: "0 \<le> s0_of C' (int h + int s)" by (rule src0) (use s hn in auto)
    show ?thesis
    proof (cases "rec_at C (seq_of u s)")
      case None
      then show ?thesis using r(10)[OF s] st_fresh i by (simp add: rec_table_def)
    next
      case (Some e)
      then show ?thesis using r(10)[OF s] st_other i by (cases e) (simp add: rec_table_def)
    qed
  qed
  show "rec_table C' rows' q = rec_table C rows q" if q: "q \<notin> batch_ids u" for q
  proof (cases "rec_at C q")
    case None
    then show ?thesis using r(8)[OF q] by (simp add: rec_table_def)
  next
    case (Some e)
    obtain p t where e: "e = (p, t)" by (cases e)
    from r(9)[OF q] Some e obtain t' where t': "rec_at C' q = Some (p, t')" "\<not> (int h \<le> t' \<and> t' < int h + int ?k)"
      "if int h \<le> t' \<and> t' < int h + int n then s0_of C' t' = t else t' = t" "t \<noteq> z" by blast
    have t: "t' \<in> ids C" using rec_at_mem[OF r(1) t'(1)] r(2) by simp
    have "rows' ! nat t' = rows ! nat t"
    proof (cases "int h \<le> t' \<and> t' < int h + int n")
      case True
      define i where "i = nat (t' - int h)"
      have i: "?k \<le> i" "i < n" "t' = int h + int i" using True t'(2) by (auto simp: i_def)
      then show ?thesis using w(3)[OF i(1,2)] t'(3,4) True st_other[of t] src0[of t'] by (simp add: nat)
    next
      case False
      then have tt: "t' = t" using t'(3) by (simp only: if_False)
      have "nat t < h \<or> h + n \<le> nat t" "nat t < length C" using False t tt by auto
      then show ?thesis using w(4)[of "nat t"] st_other[of t] t'(4) tt t by simp
    qed
    then show ?thesis using Some e t'(1) by (simp add: rec_table_def)
  qed
  show "rows_ok zero C' rows'"
    unfolding rows_ok_def
  proof (intro conjI ballI)
    show "length rows' = length C'" using w(1) r(2) by simp
    fix i assume i: "i \<in> fresh C'"
    then have ids: "i \<in> ids C" using r(2) by (simp add: fresh_def)
    show "rows' ! nat i = zero"
    proof (cases "int h \<le> i \<and> i < int h + int n")
      case True
      define j where "j = nat (i - int h)"
      have f: "int h + int ?k \<le> i" "s0_of C' i \<in> insert z (fresh C)" using r(12)[OF i] True by (simp_all only: if_True simp_thms)
      have j: "?k \<le> j" "j < n" "i = int h + int j" using True f(1) by (auto simp: j_def)
      then show ?thesis using w(3)[OF j(1,2)] st_fresh[OF f(2)] src0[of i] True by (simp add: nat)
    next
      case False
      then have "i \<in> fresh C" using r(12)[OF i] by (simp only: if_False)
      moreover have "nat i < h \<or> h + n \<le> nat i" "nat i < length C" "0 \<le> i" using False ids by auto
      ultimately show ?thesis using w(4)[of "nat i"] st_fresh[of i] by simp
    qed
  qed
qed

text \<open>
  C31.  One ubatch through the recurrent memory.  The memory and the rows of a state tensor represent a
  table from sequences to positions and states.  If the sequence sets of the ubatch are disjoint and
  within the memory, then \<^verbatim>\<open>find_slot\<close> succeeds, no assertion fires and no access is out of range; the model
  reads for each set the state of its first sequence, or the zero state if that sequence is new; and
  afterwards the sequences of the ubatch have the last position of their set and the state the model
  computed, and every other sequence has kept its position and its state, although cells may have been
  swapped and rows copied.  The invariants hold again.
\<close>

theorem rec_forward_refines:
  assumes "rec_ok m" "rows_ok zero (rs_cells m) rows" "rc_status rc = LLAMA_MEMORY_STATUS_SUCCESS" "\<not> rc_is_full rc"
    and "rc_i_next rc < length (rc_ubatches rc)" "u = rc_ubatches rc ! rc_i_next rc" "rec_ubatch_ok u (rs_size m)"
    and "\<And>r. scale0 r = zero" "\<And>out. length (model out) = length out"
  shows "\<exists>m' out rows'. rec_forward scale0 model rc m rows = Some (m', out, rows') \<and> rec_ok m' \<and> rows_ok zero (rs_cells m') rows' \<and>
    length out = u_n_seqs u \<and>
    (\<forall>s < u_n_seqs u. out ! s = (case rec_table (rs_cells m) rows (seq_of u s) of None \<Rightarrow> zero | Some (p, r) \<Rightarrow> r)) \<and>
    (\<forall>s < u_n_seqs u. \<forall>q \<in> set (set_ids u s). rec_table (rs_cells m') rows' q = Some (set_last_pos u s, model out ! s)) \<and>
    (\<forall>q. q \<notin> batch_ids u \<longrightarrow> rec_table (rs_cells m') rows' q = rec_table (rs_cells m) rows q)"
proof -
  obtain m' where m': "rec_find_slot u m = Some (m', True)" "rec_ok m'"
    and R: "slot_result u (rs_cells m) (rs_z m') (int (rs_head m')) (int (unat (rs_n m'))) (rs_cells m')"
    using rec_find_slot_ok[OF assms(1,7)] by blast
  have len: "length rows = length (rs_cells m)" using assms(2) by (simp add: rows_ok_def)
  let ?st = "if rs_z m' \<ge> 0 then rows[nat (rs_z m') := zero] else rows"
  let ?row = "\<lambda>s. ?st ! nat (s0_of (rs_cells m') (int (rs_head m') + int s))"
  obtain copies where c: "rs_set_input rc m' = Some copies"
    "build_rs scale0 copies (u_n_seqs u) rc m' rows = Some (map ?row [0..<u_n_seqs u],
       store_rows_at (rs_head m' + u_n_seqs u) (map ?row [u_n_seqs u..<unat (rs_n m')]) ?st)"
    by (rule build_rs_ok[OF R assms(4) len assms(8)])
  let ?out = "map ?row [0..<u_n_seqs u]"
  have new: "length (model ?out) = u_n_seqs u" using assms(9) by simp
  have ap: "rec_context_apply rc m = Some (m', True)" "rec_context_get_ubatch rc = Some u"
    using assms(3,5,6) m'(1) by (auto simp: rec_context_apply_def rec_context_get_ubatch_def llama_memory_status_is_fail_def)
  let ?rows' = "store_rows_at (rs_head m') (model ?out) (store_rows_at (rs_head m' + u_n_seqs u) (map ?row [u_n_seqs u..<unat (rs_n m')]) ?st)"
  note f = forward_table[OF R len assms(2) new]
  show ?thesis
  proof (rule exI[of _ m'], rule exI[of _ ?out], rule exI[of _ ?rows'], intro conjI allI impI ballI)
    show "rec_forward scale0 model rc m rows = Some (m', ?out, ?rows')"
      by (simp only: rec_forward_def ap c Option.bind.simps prod.case get_head_def assms(4) if_False)
    show "rec_ok m'" by (rule m'(2))
    show "rows_ok zero (rs_cells m') ?rows'" by (rule f(1))
    show "length ?out = u_n_seqs u" by simp
    show "?out ! s = (case rec_table (rs_cells m) rows (seq_of u s) of None \<Rightarrow> zero | Some (p, r) \<Rightarrow> r)" if "s < u_n_seqs u" for s
      using that by (simp only: nth_map_upt diff_zero add_0) (rule f(4)[OF that])
    show "rec_table (rs_cells m') ?rows' q = Some (set_last_pos u s, model ?out ! s)" if "s < u_n_seqs u" "q \<in> set (set_ids u s)" for s q
      by (rule f(3)[OF that])
    show "rec_table (rs_cells m') ?rows' q = rec_table (rs_cells m) rows q" if "q \<notin> batch_ids u" for q by (rule f(2)[OF that])
  qed
qed

section \<open>Removing everything leaves the tails behind\<close>

lemma rm_all_cells:
  assumes "rec_ok m"
  defines "m' \<equiv> rec_rm_cells (-1) 0 INT32_MAX m"
  shows "length (rs_cells m') = length (rs_cells m)" "rs_size m' = rs_size m"
    "i < length (rs_cells m) \<Longrightarrow> mc_tail (rs_cells m' ! i) = mc_tail (rs_cells m ! i)"
    "i < length (rs_cells m) \<Longrightarrow> 0 \<le> mc_pos (rs_cells m ! i) \<Longrightarrow> mc_pos (rs_cells m ! i) < INT32_MAX \<Longrightarrow> mc_seq_id (rs_cells m' ! i) = {}"
proof -
  let ?C = "rs_cells m" and ?hit = "\<lambda>c. 0 \<le> mc_pos c \<and> mc_pos c < INT32_MAX"
  define f where "f = (\<lambda>i :: nat. \<lambda>c :: mem_cell. if ?hit c then c\<lparr>mc_seq_id := {}, mc_pos := -1, mc_src := -1\<rparr> else c)"
  have step: "rec_rm_step (-1) 0 INT32_MAX i (C, u, h) = (C[i := f i (C ! i)], if ?hit (C ! i) then u - 1 else u,
      if ?hit (C ! i) \<and> h = length C then i else h)" if "i < length C" for i C u h
    by (auto simp: rec_rm_step_def f_def Let_def mc_is_empty_def)
  from fold_cells[of "rec_rm_step (-1) 0 INT32_MAX" f _ _ "length ?C" ?C "rs_used m", OF step order_refl] obtain u h where
    fold: "fold (rec_rm_step (-1) 0 INT32_MAX) [0..<length ?C] (?C, rs_used m, length ?C) = (map (\<lambda>i. f i (?C ! i)) [0..<length ?C], u, h)" by auto
  have c: "rs_cells m' = map (\<lambda>i. f i (?C ! i)) [0..<length ?C]" "rs_size m' = rs_size m"
    using fold rec_okD(4)[OF assms(1)] by (simp_all add: m'_def rec_rm_cells_def)
  then show "length (rs_cells m') = length ?C" "rs_size m' = rs_size m" by simp_all
  show "i < length ?C \<Longrightarrow> mc_tail (rs_cells m' ! i) = mc_tail (?C ! i)" by (simp add: c f_def)
  show "i < length ?C \<Longrightarrow> 0 \<le> mc_pos (?C ! i) \<Longrightarrow> mc_pos (?C ! i) < INT32_MAX \<Longrightarrow> mc_seq_id (rs_cells m' ! i) = {}"
    by (simp add: c f_def)
qed

text \<open>
  C32.  A negative sequence id removes all sequences: \<^verbatim>\<open>seq_rm(-1, -1, -1)\<close> reports success and empties every
  cell, but no tail is reset.  The next ubatch of any sequence that had a state then fails the assertion
  \<^verbatim>\<open>cell.has_seq_id(seq_id)\<close> in \<^verbatim>\<open>find_slot\<close>.
\<close>

theorem rec_rm_all_then_abort:
  assumes "rec_ok m" "rec_at (rs_cells m) q = Some (p, t)" "p < INT32_MAX"
    and "u_equal_seqs u" "u_n_seqs u = 1" "set_ids u 0 = [q]" "set_first u 0 = Some q"
  shows "\<exists>m'. rec_seq_rm (-1) (-1) (-1) m = Some (m', True) \<and> rec_find_slot u m' = None"
proof -
  let ?C = "rs_cells m" and ?m = "rec_rm_cells (-1) 0 INT32_MAX m"
  note o = rec_okD[OF assms(1)]
  have q: "q \<in> ids ?C" "tl_of ?C q = t" "ps_of ?C t = p" using assms(2) by (auto simp: rec_at_def split: if_splits)
  have t: "t \<in> ids ?C" by (rule rec_at_mem[OF o(5) assms(2)])
  note a = rm_all_cells[OF assms(1)]
  have run: "rec_seq_rm (-1) (-1) (-1) m = Some (?m, True)" by (simp add: rec_seq_rm_def clamp_p0_def clamp_p1_def Let_def)
  let ?D = "rs_cells ?m"
  have n: "nat q < length ?C" "nat t < length ?C" using q(1) t by auto
  have D: "q \<in> ids ?D" "tl_of ?D q = t" "0 \<le> t" "\<not> has_seq_id q (?D ! nat t)"
    using q t a(1) a(3)[OF n(1)] a(4)[OF n(2)] rec_at_pos[OF o(5) assms(2)] assms(3) by (auto simp: has_seq_id_def)
  have claim: "claim_sets u [0..<u_n_seqs u] (?D, x) = Some ((?D, x), True)" for x using D(1) assms(5,6) by (simp add: not_le nat_less_iff)
  have "own_cell u 0 (?D, e, mn, mx) = None" for e mn mx using D assms(7) by (simp add: own_cell_def Let_def)
  then have "for_loop (own_cell u) [0..<u_n_seqs u] (?D, e, mn, mx) = None" for e mn mx using assms(5) by simp
  then have "rec_find_slot u ?m = None" unfolding rec_find_slot_def Let_def using assms(4) claim by simp
  then show ?thesis using run by blast
qed

section \<open>Evaluation\<close>

text \<open>One token for sequence 0 and one for sequence 2.\<close>

definition demo_rec_ubatch :: llama_ubatch where
  "demo_rec_ubatch = \<lparr>u_equal_seqs = True, u_n_tokens = 2, u_n_seq_tokens = 1, u_n_seqs = 2, u_n_seqs_unq = 2, u_n_pos = 1,
     u_token = Some [1, 2], u_embd = None, u_pos = [6, 0], u_n_seq_id = [1, 1], u_seq_id = [[0], [2]], u_seq_id_unq = [0, 2],
     u_seq_idx = [], u_output = [0, 1]\<rparr>"

lemma demo_rec_ubatch_ok: "rec_ubatch_ok demo_rec_ubatch 4" "seq_of demo_rec_ubatch 0 = 0" "seq_of demo_rec_ubatch 1 = 2"
  "set_ids demo_rec_ubatch 0 = [0]" "set_ids demo_rec_ubatch 1 = [2]" "set_last_pos demo_rec_ubatch 0 = 6" "set_last_pos demo_rec_ubatch 1 = 0"
proof -
  show s: "set_ids demo_rec_ubatch 0 = [0]" "set_ids demo_rec_ubatch 1 = [2]" "set_last_pos demo_rec_ubatch 0 = 6" "set_last_pos demo_rec_ubatch 1 = 0"
    by (simp_all add: set_ids_def set_token_def set_last_pos_def demo_rec_ubatch_def)
  show "seq_of demo_rec_ubatch 0 = 0" "seq_of demo_rec_ubatch 1 = 2" using s by (simp_all add: seq_of_def)
  have two: "(\<forall>i < 2. P i) \<longleftrightarrow> P 0 \<and> P (1 :: nat)" for P by (auto simp: less_2_cases_iff)
  have u: "u_n_seqs demo_rec_ubatch = 2" "u_equal_seqs demo_rec_ubatch" "u_n_seq_tokens demo_rec_ubatch = 1" "length (u_pos demo_rec_ubatch) = 2"
    by (simp_all add: demo_rec_ubatch_def)
  show "rec_ubatch_ok demo_rec_ubatch 4" unfolding rec_ubatch_ok_def u two using s u(2) by simp
qed

theorem rec_forward_refines_witness:
  "\<exists>m' out rows'. rec_forward (\<lambda>_. 0) (map (\<lambda>r. r + 1)) (rec_context_batch [demo_rec_ubatch]) demo_rec [10, 20, 30, 40 :: int] = Some (m', out, rows') \<and>
    rec_ok m' \<and> out = [30, 0] \<and> rec_table (rs_cells m') rows' 0 = Some (6, 31) \<and> rec_table (rs_cells m') rows' 1 = Some (5, 30) \<and>
    rec_table (rs_cells m') rows' 2 = Some (0, 1) \<and> rec_table (rs_cells m') rows' 3 = Some (7, 40)"
proof -
  let ?rc = "rec_context_batch [demo_rec_ubatch]" and ?rows = "[10, 20, 30, 40 :: int]"
  have rc: "rc_status ?rc = LLAMA_MEMORY_STATUS_SUCCESS" "\<not> rc_is_full ?rc" "rc_i_next ?rc = 0" "rc_ubatches ?rc = [demo_rec_ubatch]"
    by (simp_all add: rec_context_batch_def rec_context_status_def)
  have c: "rs_cells demo_rec = demo_cells" "rs_size demo_rec = 4" "u_n_seqs demo_rec_ubatch = 2" by (simp_all add: demo_rec_def demo_rec_ubatch_def)
  have "fresh demo_cells = {}" by (auto simp: fresh_def demo_cells_def mem_cell_new_def nth_Cons split: nat.splits)
  then have rows: "rows_ok 0 (rs_cells demo_rec) ?rows" by (simp add: rows_ok_def c) (simp add: demo_cells_def)
  have b: "batch_ids demo_rec_ubatch = {0, 2}" unfolding batch_ids_def c lessThan_nat_numeral by (simp add: lessThan_Suc numeral_2_eq_2 demo_rec_ubatch_ok(4) demo_rec_ubatch_ok(5)[simplified] insert_commute)
  obtain m' out rows' where r: "rec_forward (\<lambda>_. 0) (map (\<lambda>r. r + 1)) ?rc demo_rec ?rows = Some (m', out, rows')" "rec_ok m'" "length out = 2"
    "\<forall>s < 2. out ! s = (case rec_table demo_cells ?rows (seq_of demo_rec_ubatch s) of None \<Rightarrow> 0 | Some (p, r) \<Rightarrow> r)"
    "\<forall>s < 2. \<forall>q \<in> set (set_ids demo_rec_ubatch s). rec_table (rs_cells m') rows' q = Some (set_last_pos demo_rec_ubatch s, map (\<lambda>r. r + 1) out ! s)"
    "\<forall>q. q \<notin> {0, 2} \<longrightarrow> rec_table (rs_cells m') rows' q = rec_table demo_cells ?rows q"
    using rec_forward_refines[OF demo_rec_ok rows rc(1,2), of demo_rec_ubatch "\<lambda>_. 0" "map (\<lambda>r. r + 1)"] rc(3,4) demo_rec_ubatch_ok(1) b c
    by auto
  note d = demo_rec_ubatch_ok[unfolded One_nat_def]
  have o: "out ! 0 = 30" "out ! 1 = 0" using r(4) by (simp_all add: d rec_table_def demo_rec_at)
  then have "out = [30, 0]" using r(3) by (auto simp: list_eq_iff_nth_eq less_2_cases_iff)
  moreover have "rec_table (rs_cells m') rows' 0 = Some (6, 31)" "rec_table (rs_cells m') rows' 2 = Some (0, 1)"
    using r(5)[rule_format, of 0 0] r(5)[rule_format, of 1 2] r(3) o by (simp_all add: d)
  moreover have "rec_table (rs_cells m') rows' 1 = Some (5, 30)" "rec_table (rs_cells m') rows' 3 = Some (7, 40)"
    using r(6)[rule_format, of 1] r(6)[rule_format, of 3] by (simp_all add: rec_table_def[of demo_cells] demo_rec_at)
  ultimately show ?thesis using r(1,2) by blast
qed

theorem rec_rm_all_then_abort_witness:
  "\<exists>m'. rec_seq_rm (-1) (-1) (-1) demo_rec = Some (m', True) \<and> rec_find_slot (demo_rec_ubatch\<lparr>u_n_seqs := 1\<rparr>) m' = None"
proof (rule rec_rm_all_then_abort[OF demo_rec_ok, of 0 5 2])
  show "rec_at (rs_cells demo_rec) 0 = Some (5, 2)" using demo_rec_at(1) by (simp add: demo_rec_def)
qed (simp_all add: INT32_MAX_def demo_rec_ubatch_def set_ids_def set_token_def set_first_def)

end
