(* ===== verification/Rec_Restore.thy ===== *)
theory Rec_Restore
  imports Rec_State Rec_Graph Kv_Restore
begin

text \<open>
  Saving and restoring the recurrent memory is correct: a sequence that is written by \<^verbatim>\<open>state_write\<close> and read
  by \<^verbatim>\<open>state_read\<close> arrives with its position and the state rows of all layers, every other sequence of the
  destination stays as it is, and a whole memory comes back as the same table of sequences.
\<close>

section \<open>The memory with its tensors\<close>

text \<open>The row size of a layer, its rows, and what a layer of \<open>sz\<close> rows must satisfy; \<open>Z\<close> are the rows that count as cleared.\<close>

definition layer_row :: "(int \<Rightarrow> nat option) \<Rightarrow> nat \<Rightarrow> rs_tensor option \<Rightarrow> byte list option" where
  "layer_row size_row i = map_option (\<lambda>(ty, t). trow (the (size_row ty)) i t)"

definition rs_layer_ok :: "(int \<Rightarrow> nat option) \<Rightarrow> nat \<Rightarrow> int set \<Rightarrow> rs_tensor option \<Rightarrow> bool" where
  "rs_layer_ok size_row sz Z l = (case l of None \<Rightarrow> True | Some (ty, t) \<Rightarrow> i32_ok ty \<and>
     (\<exists>row. size_row ty = Some row \<and> row < 2 ^ 64 \<and> length t = sz * row \<and> (\<forall>i \<in> Z. trow row (nat i) t = replicate row 0)))"

definition tensors_ok :: "traits \<Rightarrow> int set \<Rightarrow> llama_memory_recurrent \<Rightarrow> bool" where
  "tensors_ok tt Z m \<longleftrightarrow> hp_n_layer (rs_hparams m) < 2 ^ 32 \<and>
     length (rs_r_l m) = hp_n_layer (rs_hparams m) \<and> length (rs_s_l m) = hp_n_layer (rs_hparams m) \<and>
     (\<forall>l \<in> set (rs_r_l m). rs_layer_ok (r_size_row tt m) (rs_size m) Z l) \<and>
     (\<forall>l \<in> set (rs_s_l m). rs_layer_ok (s_size_row tt m) (rs_size m) Z l)"

definition rec_mem_ok :: "traits \<Rightarrow> llama_memory_recurrent \<Rightarrow> bool" where
  "rec_mem_ok tt m \<longleftrightarrow> rec_ok m \<and> tensors_ok tt (fresh (rs_cells m)) m"

definition rec_same_layout :: "llama_memory_recurrent \<Rightarrow> llama_memory_recurrent \<Rightarrow> bool" where
  "rec_same_layout a m \<longleftrightarrow> rs_hparams a = rs_hparams m \<and> map (map_option fst) (rs_r_l a) = map (map_option fst) (rs_r_l m) \<and>
     map (map_option fst) (rs_s_l a) = map (map_option fst) (rs_s_l m)"

text \<open>What the memory holds for a sequence: its position and its rows in all layers.\<close>

definition rec_states :: "traits \<Rightarrow> llama_memory_recurrent \<Rightarrow> llama_seq_id \<Rightarrow> (llama_pos \<times> byte list option list \<times> byte list option list) option" where
  "rec_states tt m q = map_option (\<lambda>(p, t). (p, map (layer_row (r_size_row tt m) (nat t)) (rs_r_l m), map (layer_row (s_size_row tt m) (nat t)) (rs_s_l m)))
     (rec_at (rs_cells m) q)"

section \<open>The cells that are written\<close>

definition rec_saved_cells :: "llama_seq_id \<Rightarrow> mem_cell list \<Rightarrow> nat list" where
  "rec_saved_cells q C = filter (\<lambda>i. rec_saved q (C ! i)) [0..<length C]"

lemma rec_ranges_ok:
  "\<exists>data. rec_ranges q C = Some (length (rec_saved_cells q C), data) \<and> flat data = rec_saved_cells q C \<and>
    (\<forall>r \<in> set data. fst r < snd r \<and> snd r \<le> length C)"
proof -
  let ?n = "length C" and ?P = "\<lambda>i. rec_saved q (C ! i)"
  have "range_inv ?P ?n k (fold (rec_range_step q C) [0..<k] (0, ?n, []))" if "k \<le> ?n" for k
    using that
  proof (induction k)
    case (Suc k)
    obtain cnt beg data where st: "fold (rec_range_step q C) [0..<k] (0, ?n, []) = (cnt, beg, data)" by (metis prod_cases3)
    have I: "range_inv ?P ?n k (cnt, beg, data)" using Suc st by simp
    have "fold (rec_range_step q C) [0..<Suc k] (0, ?n, []) = rec_range_step q C k (cnt, beg, data)" using st by simp
    moreover have "range_inv ?P ?n (Suc k) (rec_range_step q C k (cnt, beg, data))"
      using I Suc.prems by (auto simp: rec_range_step_def range_inv_def split: if_splits)
    ultimately show ?case by simp
  qed (simp add: range_inv_def)
  then obtain cnt beg data where r: "fold (rec_range_step q C) [0..<?n] (0, ?n, []) = (cnt, beg, data)" "range_inv ?P ?n ?n (cnt, beg, data)"
    by (metis prod_cases3 order_refl)
  let ?data = "if beg \<noteq> ?n then data @ [(beg, ?n)] else data"
  have d: "flat ?data = rec_saved_cells q C" "\<forall>r \<in> set ?data. fst r < snd r \<and> snd r \<le> ?n" "cnt = length (rec_saved_cells q C)"
    using r(2) by (auto simp: range_inv_def rec_saved_cells_def split: if_splits)
  have sum: "sum_list (map (\<lambda>r. snd r - fst r) ds) = length (flat ds)" for ds :: "(nat \<times> nat) list"
    by (induction ds) auto
  have "rec_ranges q C = Some (cnt, ?data)" using r(1) d(3) sum[of ?data] d(1) by (simp add: rec_ranges_def Let_def)
  then show ?thesis using d by blast
qed

text \<open>A sequence is in one cell, its tail.\<close>

lemma rec_saved_seq:
  assumes ok: "cells_ok C" and q: "0 \<le> q"
  shows "rec_saved_cells q C = (case rec_at C q of None \<Rightarrow> [] | Some (p, t) \<Rightarrow> [nat t])"
proof -
  have sv: "rec_saved q (C ! i) \<longleftrightarrow> q \<in> ids C \<and> tl_of C q = int i" if "i < length C" for i
    using cells_okD(2,3)[OF ok, of "int i"] that q by (auto simp: rec_saved_def has_seq_id_def)
  show ?thesis
  proof (cases "rec_at C q")
    case None
    then have "\<not> rec_saved q (C ! i)" if "i < length C" for i using sv[OF that] by (auto simp: rec_at_def split: if_splits)
    then show ?thesis using None by (auto simp: rec_saved_cells_def filter_empty_conv)
  next
    case (Some e)
    obtain p t where e: "e = (p, t)" by (cases e)
    have t: "q \<in> ids C" "tl_of C q = t" "t \<in> ids C" using Some e rec_at_mem[OF ok, of q p t] by (auto simp: rec_at_def split: if_splits)
    have "rec_saved q (C ! i) \<longleftrightarrow> i = nat t" if "i < length C" for i using sv[OF that] t by auto
    then have "rec_saved_cells q C = filter (\<lambda>i. i = nat t) [0..<length C]" unfolding rec_saved_cells_def by (intro filter_cong) auto
    also have "\<dots> = [nat t]"
    proof -
      have "[0..<length C] = [0..<nat t] @ [nat t..<length C]" "[nat t..<length C] = nat t # [Suc (nat t)..<length C]"
        using t(3) upt_add_eq_append[of 0 "nat t" "length C - nat t"] upt_conv_Cons[of "nat t" "length C"] by auto
      then show ?thesis by simp
    qed
    finally show ?thesis using Some e by simp
  qed
qed

section \<open>Writing and reading the rows of a layer\<close>

definition layer_bytes :: "(int \<Rightarrow> nat option) \<Rightarrow> nat list \<Rightarrow> rs_tensor option \<Rightarrow> byte list" where
  "layer_bytes size_row cs l = (case l of None \<Rightarrow> []
     | Some (ty, t) \<Rightarrow> put_i32 ty @ put_u64 (the (size_row ty)) @ concat (map (\<lambda>i. trow (the (size_row ty)) i t) cs))"

lemma rec_write_layer_ok:
  assumes "rs_layer_ok size_row sz Z l" "\<forall>r \<in> set data. fst r < snd r \<and> snd r \<le> sz"
  shows "\<exists>bs. rec_write_layer size_row data l = Some bs \<and> concat bs = layer_bytes size_row (flat data) l"
proof (cases l)
  case (Some x)
  obtain ty t where x: "x = (ty, t)" by (cases x)
  obtain row where row: "size_row ty = Some row" "length t = sz * row" using assms(1) Some x by (auto simp: rs_layer_ok_def)
  have "\<exists>bs. write_rows (\<lambda>i. i * row) row data t = Some bs \<and> concat bs = concat (map (\<lambda>i. trow row i t) (flat data))"
  proof (rule write_rows_ok)
    fix r assume "r \<in> set data"
    then show "fst r < snd r \<and> snd r * row \<le> length t" using assms(2) row(2) by (simp add: mult_le_mono1)
  qed
  then show ?thesis using Some x row by (auto simp: rec_write_layer_def layer_bytes_def)
qed (simp add: rec_write_layer_def layer_bytes_def)

text \<open>The layer after \<open>cs\<close> rows of the source layer were stored from row \<open>h\<close> on.\<close>

definition stored :: "(int \<Rightarrow> nat option) \<Rightarrow> nat \<Rightarrow> nat list \<Rightarrow> rs_tensor option \<Rightarrow> rs_tensor option \<Rightarrow> rs_tensor option" where
  "stored size_row h cs src l = (case (src, l) of (Some (ty0, t0), Some (ty, t)) \<Rightarrow>
       Some (ty, the (tensor_set (h * the (size_row ty)) (concat (map (\<lambda>i. trow (the (size_row ty)) i t0) cs)) t))
     | _ \<Rightarrow> l)"

lemma stored_ok:
  assumes src: "rs_layer_ok size_row sza Za (Some (ty, t0))" "\<forall>i \<in> set cs. i < sza"
    and dst: "rs_layer_ok size_row sz Z (Some (ty, t))" "h + length cs \<le> sz"
  defines "row \<equiv> the (size_row ty)"
  shows "length (concat (map (\<lambda>i. trow row i t0) cs)) = length cs * row"
    "\<exists>t'. tensor_set (h * row) (concat (map (\<lambda>i. trow row i t0) cs)) t = Some t' \<and> length t' = length t \<and>
      (\<forall>j. trow row j t' = (if h \<le> j \<and> j < h + length cs then trow row (cs ! (j - h)) t0 else trow row j t))"
proof -
  have row: "length t0 = sza * row" "length t = sz * row" using src(1) dst(1) by (auto simp: rs_layer_ok_def row_def)
  have fit: "\<forall>i \<in> set cs. (i + 0 + 1) * row \<le> length t0" using src(2) row(1) row_fits by (metis order_refl)
  note c = copied_rows[OF fit]
  show len: "length (concat (map (\<lambda>i. trow row i t0) cs)) = length cs * row" using c(1) by simp
  have "(h + length cs) * row \<le> length t" using dst(2) row(2) by (simp add: mult_le_mono1)
  from tensor_set_rows[OF len this] obtain t' where t': "tensor_set (h * row) (concat (map (\<lambda>i. trow row i t0) cs)) t = Some t'" "length t' = length t"
    "\<forall>j. trow row j t' = (if h \<le> j \<and> j < h + length cs then trow row (j - h) (concat (map (\<lambda>i. trow row i t0) cs)) else trow row j t)" by blast
  have "trow row j t' = (if h \<le> j \<and> j < h + length cs then trow row (cs ! (j - h)) t0 else trow row j t)" for j
    using t'(3) c(2)[of "j - h"] by auto
  then show "\<exists>t'. tensor_set (h * row) (concat (map (\<lambda>i. trow row i t0) cs)) t = Some t' \<and> length t' = length t \<and>
      (\<forall>j. trow row j t' = (if h \<le> j \<and> j < h + length cs then trow row (cs ! (j - h)) t0 else trow row j t))"
    using t'(1,2) by blast
qed

lemma stored_cases:
  assumes src: "rs_layer_ok size_row sza Za l0" "\<forall>i \<in> set cs. i < sza"
    and dst: "rs_layer_ok size_row sz Z l" "h + length cs \<le> sz" and ty: "map_option fst l0 = map_option fst l"
  obtains "l = None" "l0 = None" "stored size_row h cs l0 l = None"
  | y t t0 t' row where "l = Some (y, t)" "l0 = Some (y, t0)" "stored size_row h cs l0 l = Some (y, t')" "size_row y = Some row" "row < 2 ^ 64" "i32_ok y"
    "length t' = sz * row" "\<And>i. i \<in> Z \<Longrightarrow> trow row (nat i) t = replicate row 0"
    "\<And>j. trow row j t' = (if h \<le> j \<and> j < h + length cs then trow row (cs ! (j - h)) t0 else trow row j t)"
proof (cases l)
  case None
  then show ?thesis using that(1) ty by (cases l0) (simp_all add: stored_def)
next
  case (Some x)
  obtain y t where x: "x = (y, t)" by (cases x)
  obtain t0 where l0: "l0 = Some (y, t0)" using ty Some x by (cases l0) auto
  obtain row where row: "size_row y = Some row" "row < 2 ^ 64" "length t = sz * row" "\<And>i. i \<in> Z \<Longrightarrow> trow row (nat i) t = replicate row 0" "i32_ok y"
    using dst(1) by (auto simp: rs_layer_ok_def Some x)
  obtain t' where t': "tensor_set (h * row) (concat (map (\<lambda>i. trow row i t0) cs)) t = Some t'" "length t' = length t"
    "\<And>j. trow row j t' = (if h \<le> j \<and> j < h + length cs then trow row (cs ! (j - h)) t0 else trow row j t)"
    using stored_ok(2)[OF src(1)[unfolded l0] src(2) dst(1)[unfolded Some x] dst(2)] row(1) by auto
  have "stored size_row h cs l0 l = Some (y, t')" using t'(1) row(1) by (simp add: stored_def l0 Some x)
  then show ?thesis using that(2)[OF Some[unfolded x] l0 _ row(1,2,5)] row(3,4) t'(2,3) by simp
qed

lemma stored_layer:
  assumes src: "rs_layer_ok size_row sza Za l0" "\<forall>i \<in> set cs. i < sza"
    and dst: "rs_layer_ok size_row sz Z l" "h + length cs \<le> sz" and ty: "map_option fst l0 = map_option fst l"
  shows "layer_row size_row j (stored size_row h cs l0 l) = (if h \<le> j \<and> j < h + length cs then layer_row size_row (cs ! (j - h)) l0 else layer_row size_row j l)"
    "(\<And>i. i \<in> Z' \<Longrightarrow> i \<in> Z \<and> \<not> (h \<le> nat i \<and> nat i < h + length cs)) \<Longrightarrow> rs_layer_ok size_row sz Z' (stored size_row h cs l0 l)"
    "map_option fst (stored size_row h cs l0 l) = map_option fst l"
  subgoal by (rule stored_cases[OF assms]) (simp_all add: layer_row_def)
  subgoal by (rule stored_cases[OF assms]) (auto simp: rs_layer_ok_def)
  subgoal by (rule stored_cases[OF assms]) simp_all
  done

section \<open>Writing and reading all rows\<close>

definition rec_data_bytes :: "traits \<Rightarrow> llama_memory_recurrent \<Rightarrow> nat list \<Rightarrow> byte list" where
  "rec_data_bytes tt m cs = put_u32 0 @ put_u32 (hp_n_layer (rs_hparams m)) @
     concat (map (layer_bytes (r_size_row tt m) cs) (rs_r_l m)) @ concat (map (layer_bytes (s_size_row tt m) cs) (rs_s_l m))"

lemma tensors_okD:
  assumes "tensors_ok tt Z m"
  shows "hp_n_layer (rs_hparams m) < 2 ^ 32" "length (rs_r_l m) = hp_n_layer (rs_hparams m)" "length (rs_s_l m) = hp_n_layer (rs_hparams m)"
    "\<forall>l \<in> set (rs_r_l m). rs_layer_ok (r_size_row tt m) (rs_size m) Z l"
    "\<forall>l \<in> set (rs_s_l m). rs_layer_ok (s_size_row tt m) (rs_size m) Z l"
  using assms by (auto simp: tensors_ok_def)

lemma map_upt_nth: "length xs = n \<Longrightarrow> map (\<lambda>i. f (xs ! i)) [0..<n] = map f xs"
  by (auto intro: nth_equalityI)

lemma rec_write_data_ok:
  assumes ok: "tensors_ok tt Z m" and d: "\<forall>r \<in> set data. fst r < snd r \<and> snd r \<le> rs_size m"
  shows "\<exists>bs. rec_write_data tt data m = Some bs \<and> concat bs = rec_data_bytes tt m (flat data)"
proof -
  note o = tensors_okD[OF ok]
  obtain rs where rs: "those (map (rec_write_layer (r_size_row tt m) data) (rs_r_l m)) = Some rs"
    "concat (concat rs) = concat (map (layer_bytes (r_size_row tt m) (flat data)) (rs_r_l m))"
    using those_ex[of "rs_r_l m" "rec_write_layer (r_size_row tt m) data" "layer_bytes (r_size_row tt m) (flat data)"] rec_write_layer_ok[OF bspec[OF o(4)] d] by blast
  obtain ss where ss: "those (map (rec_write_layer (s_size_row tt m) data) (rs_s_l m)) = Some ss"
    "concat (concat ss) = concat (map (layer_bytes (s_size_row tt m) (flat data)) (rs_s_l m))"
    using those_ex[of "rs_s_l m" "rec_write_layer (s_size_row tt m) data" "layer_bytes (s_size_row tt m) (flat data)"] rec_write_layer_ok[OF bspec[OF o(5)] d] by blast
  have "rec_write_data tt data m = Some ([put_u32 0, put_u32 (hp_n_layer (rs_hparams m))] @ concat rs @ concat ss)"
    using rs(1) ss(1) by (simp add: rec_write_data_def Let_def map_upt_nth[OF o(2)] map_upt_nth[OF o(3)])
  then show ?thesis using rs(2) ss(2) by (simp add: rec_data_bytes_def)
qed

text \<open>
  Reading the layers of one of the two lists of tensors: \<open>get\<close> and \<open>put\<close> access it, \<open>size_row\<close> depends on the
  hyper-parameters only.
\<close>

locale layer_list =
  fixes get :: "llama_memory_recurrent \<Rightarrow> rs_tensor option list"
    and put :: "rs_tensor option list \<Rightarrow> llama_memory_recurrent \<Rightarrow> llama_memory_recurrent"
    and size_row :: "llama_memory_recurrent \<Rightarrow> int \<Rightarrow> nat option"
  assumes get_put: "get (put ls m) = ls" and put_get: "put (get m) m = m" and put_put: "put ls (put ls' m) = put ls m"
    and head_put: "rs_head (put ls m) = rs_head m" and size_put: "size_row (put ls m) = size_row m"
begin

lemma read_layer_run:
  assumes src: "rs_layer_ok (size_row m) sza Za l0" "\<forall>i \<in> set cs. i < sza"
    and dst: "rs_layer_ok (size_row m) sz Z (get m ! il)" "rs_head m + length cs \<le> sz" and ty: "map_option fst l0 = map_option fst (get m ! il)"
  shows "rec_read_layer get put size_row (length cs) il (m, layer_bytes (size_row m) cs l0 @ bs) =
    Inr (True, put ((get m)[il := stored (size_row m) (rs_head m) cs l0 (get m ! il)]) m, bs)"
proof (rule stored_cases[OF src dst ty])
  assume n: "get m ! il = None" "l0 = None" "stored (size_row m) (rs_head m) cs l0 (get m ! il) = None"
  have "(get m)[il := None] = get m" using list_update_id[of "get m" il] unfolding n(1) .
  then show ?thesis unfolding n(3) using n(1,2) by (simp add: rec_read_layer_def layer_bytes_def io_simps put_get)
next
  fix y t t0 t' row
  assume l: "get m ! il = Some (y, t)" "l0 = Some (y, t0)" and st: "stored (size_row m) (rs_head m) cs l0 (get m ! il) = Some (y, t')"
    and row: "size_row m y = Some row" "row < 2 ^ 64" "i32_ok y"
  note set = stored_ok[OF src(1)[unfolded l(2)] src(2) dst(1)[unfolded l(1)] dst(2), unfolded row(1) option.sel]
  have t': "tensor_set (rs_head m * row) (concat (map (\<lambda>i. trow row i t0) cs)) t = Some t'"
    using set(2) st row(1) by (auto simp: stored_def l)
  show ?thesis
  proof (cases "cs = []")
    case True
    then have "t' = t" using t' by (simp add: tensor_set_def)
    then have "(get m)[il := Some (y, t')] = get m" using list_update_id[of "get m" il] l(1) by simp
    then show ?thesis unfolding st using True l row by (simp add: rec_read_layer_def layer_bytes_def i32.bind_put u64.bind_put io_simps put_get)
  next
    case False
    then show ?thesis unfolding st using l row t' set(1)
      by (simp add: rec_read_layer_def layer_bytes_def i32.bind_put u64.bind_put io_simps set_layer_def io_rec_def)
  qed
qed

text \<open>All layers.\<close>

definition stored_all :: "nat list \<Rightarrow> rs_tensor option list \<Rightarrow> llama_memory_recurrent \<Rightarrow> rs_tensor option list" where
  "stored_all cs ls m = map (\<lambda>il. stored (size_row m) (rs_head m) cs (ls ! il) (get m ! il)) [0..<length (get m)]"

lemma read_layers_run:
  assumes src: "\<forall>l \<in> set ls. rs_layer_ok (size_row m) sza Za l" "\<forall>i \<in> set cs. i < sza"
    and dst: "\<forall>l \<in> set (get m). rs_layer_ok (size_row m) sz Z l" "rs_head m + length cs \<le> sz"
    and ty: "map (map_option fst) ls = map (map_option fst) (get m)"
  shows "io_for (rec_read_layer get put size_row (length cs)) [0..<length (get m)] (m, concat (map (layer_bytes (size_row m) cs) ls) @ bs) =
    Inr (True, put (stored_all cs ls m) m, bs)"
proof -
  let ?n = "length (get m)" and ?new = "\<lambda>il. stored (size_row m) (rs_head m) cs (ls ! il) (get m ! il)"
  define M where "M k = put (map (\<lambda>il. if il < k then ?new il else get m ! il) [0..<?n]) m" for k
  have len: "length ls = ?n" using ty map_eq_imp_length_eq by blast
  have t: "map_option fst (ls ! il) = map_option fst (get m ! il)" if "il < ?n" for il using arg_cong[OF ty, of "\<lambda>xs. xs ! il"] that len by simp
  have step: "rec_read_layer get put size_row (length cs) il (M il, layer_bytes (size_row m) cs (ls ! il) @ bs) = Inr (True, M (Suc il), bs)" if il: "il < ?n" for il bs
  proof -
    have g: "get (M il) ! il = get m ! il" "size_row (M il) = size_row m" "rs_head (M il) = rs_head m" using il by (simp_all add: M_def get_put size_put head_put)
    have "put ((get (M il))[il := ?new il]) (M il) = M (Suc il)"
      unfolding M_def get_put put_put map_upt_list_update[OF il, of ?new "\<lambda>il. get m ! il"] ..
    then show ?thesis
      using read_layer_run[of "M il" sza Za "ls ! il" cs sz Z il bs, unfolded g, OF bspec[OF src(1)] src(2) bspec[OF dst(1)] dst(2) t[OF il]] il len by simp
  qed
  have "M 0 = m" using put_get by (simp add: M_def map_nth)
  moreover have "M ?n = put (stored_all cs ls m) m" by (simp add: M_def stored_all_def map_upt_bounds)
  moreover have "concat (map (layer_bytes (size_row m) cs) ls) = concat (map (\<lambda>il. layer_bytes (size_row m) cs (ls ! il)) [0..<?n])"
    by (simp add: map_upt_nth[OF len])
  ultimately show ?thesis using io_for_run[of ?n "rec_read_layer get put size_row (length cs)" M "\<lambda>il. layer_bytes (size_row m) cs (ls ! il)" bs, OF step] by simp
qed

lemma stored_all_ok:
  assumes src: "\<forall>l \<in> set ls. rs_layer_ok (size_row m) sza Za l" "\<forall>i \<in> set cs. i < sza"
    and dst: "\<forall>l \<in> set (get m). rs_layer_ok (size_row m) sz Z l" "rs_head m + length cs \<le> sz"
    and ty: "map (map_option fst) ls = map (map_option fst) (get m)"
  shows "map (layer_row (size_row m) j) (stored_all cs ls m) =
      (if rs_head m \<le> j \<and> j < rs_head m + length cs then map (layer_row (size_row m) (cs ! (j - rs_head m))) ls else map (layer_row (size_row m) j) (get m))"
    "(\<And>i. i \<in> Z' \<Longrightarrow> i \<in> Z \<and> \<not> (rs_head m \<le> nat i \<and> nat i < rs_head m + length cs)) \<Longrightarrow> l \<in> set (stored_all cs ls m) \<Longrightarrow> rs_layer_ok (size_row m) sz Z' l"
    "map (map_option fst) (stored_all cs ls m) = map (map_option fst) (get m)"
proof -
  let ?n = "length (get m)"
  have len: "length ls = ?n" using ty map_eq_imp_length_eq by blast
  have t: "map_option fst (ls ! il) = map_option fst (get m ! il)" if "il < ?n" for il using arg_cong[OF ty, of "\<lambda>xs. xs ! il"] that len by simp
  note s = stored_layer[OF bspec[OF src(1)] src(2) bspec[OF dst(1)] dst(2) t]
  have at: "stored_all cs ls m ! il = stored (size_row m) (rs_head m) cs (ls ! il) (get m ! il)" if "il < ?n" for il using that by (simp add: stored_all_def)
  have ln: "length (stored_all cs ls m) = ?n" by (simp add: stored_all_def)
  show "map (layer_row (size_row m) j) (stored_all cs ls m) =
      (if rs_head m \<le> j \<and> j < rs_head m + length cs then map (layer_row (size_row m) (cs ! (j - rs_head m))) ls else map (layer_row (size_row m) j) (get m))"
    by (rule nth_equalityI) (use len in \<open>auto simp: ln at s(1)\<close>)
  show "map (map_option fst) (stored_all cs ls m) = map (map_option fst) (get m)"
    by (rule nth_equalityI) (use len in \<open>auto simp: ln at s(3)\<close>)
  assume Z': "\<And>i. i \<in> Z' \<Longrightarrow> i \<in> Z \<and> \<not> (rs_head m \<le> nat i \<and> nat i < rs_head m + length cs)" and "l \<in> set (stored_all cs ls m)"
  then obtain il where il: "il < ?n" "l = stored_all cs ls m ! il" using ln by (metis in_set_conv_nth)
  show "rs_layer_ok (size_row m) sz Z' l" unfolding il(2) at[OF il(1)] by (rule s(2)) (use il(1) Z' len in auto)
qed

end

lemma size_rows_frame [simp]:
  "r_size_row tt (put_r ls m) = r_size_row tt m" "s_size_row tt (put_s ls m) = s_size_row tt m"
  "r_size_row tt (put_s ls m) = r_size_row tt m" "s_size_row tt (put_r ls m) = s_size_row tt m"
  by (simp_all add: fun_eq_iff r_size_row_def s_size_row_def put_r_def put_s_def)

interpretation rl: layer_list rs_r_l put_r "r_size_row tt" for tt
  by unfold_locales (simp_all, simp_all add: put_r_def)

interpretation sl: layer_list rs_s_l put_s "s_size_row tt" for tt
  by unfold_locales (simp_all, simp_all add: put_s_def)

text \<open>The memory after the rows \<open>cs\<close> of \<open>a\<close> were stored from its head on.\<close>

definition restored :: "traits \<Rightarrow> nat list \<Rightarrow> llama_memory_recurrent \<Rightarrow> llama_memory_recurrent \<Rightarrow> llama_memory_recurrent" where
  "restored tt cs a m = put_s (sl.stored_all tt cs (rs_s_l a) m) (put_r (rl.stored_all tt cs (rs_r_l a) m) m)"

lemma restored_simps [simp]:
  "rs_cells (restored tt cs a m) = rs_cells m" "rs_size (restored tt cs a m) = rs_size m" "rs_hparams (restored tt cs a m) = rs_hparams m"
  "r_size_row tt (restored tt cs a m) = r_size_row tt m" "s_size_row tt (restored tt cs a m) = s_size_row tt m"
  "rs_r_l (restored tt cs a m) = rl.stored_all tt cs (rs_r_l a) m" "rs_s_l (restored tt cs a m) = sl.stored_all tt cs (rs_s_l a) m"
  "rec_ok (restored tt cs a m) \<longleftrightarrow> rec_ok m"
  by (simp_all add: restored_def) (simp_all add: put_r_def put_s_def rec_ok_def)

lemma same_sizes:
  assumes "rec_same_layout a m"
  shows "r_size_row tt a = r_size_row tt m" "s_size_row tt a = s_size_row tt m" "rs_hparams a = rs_hparams m"
  using assms by (simp_all add: rec_same_layout_def r_size_row_def s_size_row_def fun_eq_iff)

lemma rec_read_data_ok:
  assumes a: "tensors_ok tt Za a" and m: "tensors_ok tt Z m" and lay: "rec_same_layout a m"
    and cs: "\<forall>i \<in> set cs. i < rs_size a" "rs_head m + length cs \<le> rs_size m"
  shows "rec_read_data tt (length cs) (m, rec_data_bytes tt a cs @ bs) = Inr (True, restored tt cs a m, bs)"
proof -
  note oa = tensors_okD[OF a] and om = tensors_okD[OF m] and z = same_sizes(1,2)[OF lay, of tt] same_sizes(3)[OF lay]
  let ?m1 = "put_r (rl.stored_all tt cs (rs_r_l a) m) m"
  have r: "io_for (rec_read_r_layer tt (length cs)) [0..<hp_n_layer (rs_hparams m)] (m, concat (map (layer_bytes (r_size_row tt m) cs) (rs_r_l a)) @ bs) =
    Inr (True, ?m1, bs)" for bs
    using rl.read_layers_run[OF oa(4)[unfolded z] cs(1) om(4) cs(2)] lay unfolding rec_read_r_layer_def rec_same_layout_def om(2) by simp
  have f: "rs_s_l ?m1 = rs_s_l m" "rs_head ?m1 = rs_head m" "rs_size ?m1 = rs_size m" by (simp_all add: put_r_def)
  have st: "sl.stored_all tt cs (rs_s_l a) ?m1 = sl.stored_all tt cs (rs_s_l a) m" by (simp add: sl.stored_all_def f)
  have s: "io_for (rec_read_s_layer tt (length cs)) [0..<hp_n_layer (rs_hparams m)] (?m1, concat (map (layer_bytes (s_size_row tt m) cs) (rs_s_l a)) @ bs) =
    Inr (True, restored tt cs a m, bs)" for bs
    using sl.read_layers_run[of "rs_s_l a" tt ?m1, unfolded size_rows_frame f st, OF oa(5)[unfolded z] cs(1) om(5) cs(2)] lay
    unfolding rec_read_s_layer_def rec_same_layout_def om(3) restored_def by (simp add: st)
  have n: "length cs \<le> rs_size m" "hp_n_layer (rs_hparams m) < 2 ^ 32" using cs(2) om(1) by auto
  show ?thesis unfolding rec_read_data_def rec_data_bytes_def z append_assoc
    using n by (simp add: u32.bind_put io_simps r s)
qed

lemma restored_ok:
  assumes a: "tensors_ok tt Za a" and m: "tensors_ok tt Z m" and lay: "rec_same_layout a m"
    and cs: "\<forall>i \<in> set cs. i < rs_size a" "rs_head m + length cs \<le> rs_size m"
    and Z': "\<forall>i \<in> Z'. i \<in> Z \<and> \<not> (rs_head m \<le> nat i \<and> nat i < rs_head m + length cs)"
  defines "m' \<equiv> restored tt cs a m" and "k \<equiv> \<lambda>j. cs ! (j - rs_head m)"
  shows "tensors_ok tt Z' m'" "rec_same_layout a m'"
    "rs_head m \<le> j \<and> j < rs_head m + length cs \<Longrightarrow> map (layer_row (r_size_row tt m') j) (rs_r_l m') = map (layer_row (r_size_row tt a) (k j)) (rs_r_l a) \<and>
       map (layer_row (s_size_row tt m') j) (rs_s_l m') = map (layer_row (s_size_row tt a) (k j)) (rs_s_l a)"
    "\<not> (rs_head m \<le> j \<and> j < rs_head m + length cs) \<Longrightarrow> map (layer_row (r_size_row tt m') j) (rs_r_l m') = map (layer_row (r_size_row tt m) j) (rs_r_l m) \<and>
       map (layer_row (s_size_row tt m') j) (rs_s_l m') = map (layer_row (s_size_row tt m) j) (rs_s_l m)"
proof -
  note oa = tensors_okD[OF a] and om = tensors_okD[OF m] and z = same_sizes(1,2)[OF lay, of tt] same_sizes(3)[OF lay]
  have ty: "map (map_option fst) (rs_r_l a) = map (map_option fst) (rs_r_l m)" "map (map_option fst) (rs_s_l a) = map (map_option fst) (rs_s_l m)"
    using lay by (simp_all add: rec_same_layout_def)
  note r = rl.stored_all_ok[OF oa(4)[unfolded z] cs(1) om(4) cs(2) ty(1)] and s = sl.stored_all_ok[OF oa(5)[unfolded z] cs(1) om(5) cs(2) ty(2)]
  have len: "length (rl.stored_all tt cs (rs_r_l a) m) = length (rs_r_l m)" "length (sl.stored_all tt cs (rs_s_l a) m) = length (rs_s_l m)"
    by (simp_all add: rl.stored_all_def sl.stored_all_def)
  show "tensors_ok tt Z' m'" unfolding tensors_ok_def m'_def restored_simps len using om(1-3) r(2)[of Z', OF bspec[OF Z']] s(2)[of Z', OF bspec[OF Z']] by simp
  show "rec_same_layout a m'" unfolding rec_same_layout_def m'_def restored_simps using r(3) s(3) lay by (simp add: rec_same_layout_def)
  show "rs_head m \<le> j \<and> j < rs_head m + length cs \<Longrightarrow> map (layer_row (r_size_row tt m') j) (rs_r_l m') = map (layer_row (r_size_row tt a) (k j)) (rs_r_l a) \<and>
       map (layer_row (s_size_row tt m') j) (rs_s_l m') = map (layer_row (s_size_row tt a) (k j)) (rs_s_l a)"
    "\<not> (rs_head m \<le> j \<and> j < rs_head m + length cs) \<Longrightarrow> map (layer_row (r_size_row tt m') j) (rs_r_l m') = map (layer_row (r_size_row tt m) j) (rs_r_l m) \<and>
       map (layer_row (s_size_row tt m') j) (rs_s_l m') = map (layer_row (s_size_row tt m) j) (rs_s_l m)"
    unfolding m'_def restored_simps z k_def r(1) s(1) by auto
qed

section \<open>One sequence\<close>

lemma rec_rm_frame:
  assumes "rec_seq_rm q p0 p1 m = Some (m', b)"
  shows "rs_hparams m' = rs_hparams m \<and> rs_size m' = rs_size m \<and> rs_r_l m' = rs_r_l m \<and> rs_s_l m' = rs_s_l m"
proof -
  have f: "rs_hparams (rec_rm_cells a b c n) = rs_hparams n" "rs_size (rec_rm_cells a b c n) = rs_size n"
    "rs_r_l (rec_rm_cells a b c n) = rs_r_l n" "rs_s_l (rec_rm_cells a b c n) = rs_s_l n" for a b c n
    by (simp_all add: rec_rm_cells_def rec_lower_head_def split: prod.splits)
  show ?thesis using assms by (auto simp: rec_seq_rm_def Let_def f split: if_splits Option.bind_splits)
qed

lemma tensors_cong:
  assumes "rs_hparams m' = rs_hparams m" "rs_size m' = rs_size m" "rs_r_l m' = rs_r_l m" "rs_s_l m' = rs_s_l m"
  shows "r_size_row tt m' = r_size_row tt m" "s_size_row tt m' = s_size_row tt m" "tensors_ok tt Z m' \<longleftrightarrow> tensors_ok tt Z m" "rec_same_layout a m' \<longleftrightarrow> rec_same_layout a m"
proof -
  show "r_size_row tt m' = r_size_row tt m" "s_size_row tt m' = s_size_row tt m" using assms(1) by (simp_all add: r_size_row_def s_size_row_def fun_eq_iff)
  then show "tensors_ok tt Z m' \<longleftrightarrow> tensors_ok tt Z m" using assms by (simp add: tensors_ok_def)
  show "rec_same_layout a m' \<longleftrightarrow> rec_same_layout a m" using assms by (simp add: rec_same_layout_def)
qed

lemma tensors_mono: "tensors_ok tt Z m \<Longrightarrow> Z' \<subseteq> Z \<Longrightarrow> tensors_ok tt Z' m"
  by (force simp: tensors_ok_def rs_layer_ok_def split: option.splits)

lemma rec_restore_ubatch_ok:
  fixes m :: llama_memory_recurrent
  assumes "0 \<le> p" "d \<in> {0..<int n}"
  defines "u \<equiv> rec_restore_ubatch m d [p]"
  shows "rec_ubatch_ok u n" "u_n_seqs u = 1" "set_ids u 0 = [d]" "set_last_pos u 0 = p" "u_pos u = [p]" "batch_ids u = {d}" "seq_of u 0 = d"
proof -
  have f: "u_n_seqs u = 1" "u_n_seq_tokens u = 1" "u_pos u = [p]" "u_equal_seqs u" "u_n_seq_id u = [1]" "u_seq_id u = [[d]]"
    by (simp_all add: u_def rec_restore_ubatch_def ubatch_reserve_def Let_def)
  show s: "u_n_seqs u = 1" "u_pos u = [p]" "set_ids u 0 = [d]" "set_last_pos u 0 = p" using f by (simp_all add: set_ids_def set_token_def set_last_pos_def)
  then show "batch_ids u = {d}" "seq_of u 0 = d" by (simp_all add: batch_ids_def seq_of_def lessThan_Suc)
  show "rec_ubatch_ok u n" using f s assms by (simp add: rec_ubatch_ok_def)
qed

text \<open>A slot for one sequence is one cell, so no other state moves.\<close>

lemma slot_one:
  assumes m: "rec_ok m" and d: "d \<in> ids (rs_cells m)" and p: "0 \<le> p"
  defines "u \<equiv> rec_restore_ubatch m d [p]"
  obtains m' where "rec_find_slot u m = Some (m', True)" "rec_ok m'" "rs_hparams m' = rs_hparams m" "rs_size m' = rs_size m" "rs_r_l m' = rs_r_l m" "rs_s_l m' = rs_s_l m"
    "rec_at (rs_cells m') = (rec_at (rs_cells m))(d := Some (p, int (rs_head m')))"
    "\<And>q p' t. q \<noteq> d \<Longrightarrow> rec_at (rs_cells m) q = Some (p', t) \<Longrightarrow> t \<noteq> int (rs_head m')"
    "fresh (rs_cells m') \<subseteq> fresh (rs_cells m) - {int (rs_head m')}"
proof -
  have len: "length (rs_cells m) = rs_size m" by (rule rec_okD(4)[OF m])
  have dn: "d \<in> {0..<int (rs_size m)}" using d len by simp
  note u = rec_restore_ubatch_ok[OF p dn, of m, folded u_def]
  obtain m' where r: "rec_find_slot u m = Some (m', True)" "rec_ok m'" "rs_size m' = rs_size m" "rs_r_l m' = rs_r_l m" "rs_s_l m' = rs_s_l m"
    "slot_result u (rs_cells m) (rs_z m') (int (rs_head m')) (int (unat (rs_n m'))) (rs_cells m')" "unat (rs_n m') = 1" "rs_hparams m' = rs_hparams m"
    using rec_find_slot_ok[OF m u(1)] u(2) by blast
  note s = slot_resultD[OF r(6), unfolded r(7) u(2,6)]
  have sd: "rec_at (rs_cells m') d = Some (p, int (rs_head m'))" using s(7)[of 0 d] u(3,4) by simp
  have oth: "rec_at (rs_cells m') q = rec_at (rs_cells m) q \<and> (\<forall>p' t. rec_at (rs_cells m) q = Some (p', t) \<longrightarrow> t \<noteq> int (rs_head m'))" if q: "q \<noteq> d" for q
  proof (cases "rec_at (rs_cells m) q")
    case None
    then show ?thesis using s(8)[of q] q by simp
  next
    case (Some e)
    obtain p' t where e: "e = (p', t)" by (cases e)
    from s(9)[of q p' t] q Some e obtain t' where "rec_at (rs_cells m') q = Some (p', t')" "\<not> (int (rs_head m') \<le> t' \<and> t' < int (rs_head m') + 1)" 
      "if int (rs_head m') \<le> t' \<and> t' < int (rs_head m') + 1 then s0_of (rs_cells m') t' = t else t' = t" by auto
    then show ?thesis using Some e by auto
  qed
  have "fresh (rs_cells m') \<subseteq> fresh (rs_cells m) - {int (rs_head m')}"
  proof
    fix i assume "i \<in> fresh (rs_cells m')"
    from s(12)[OF this] show "i \<in> fresh (rs_cells m) - {int (rs_head m')}" by (auto split: if_splits)
  qed
  then show ?thesis using that[OF r(1,2,8,3,4,5)] sd oth by (simp add: fun_eq_iff)
qed

lemma rec_check_restored_ok:
  assumes m: "rec_ok m" and at: "rec_at (rs_cells m) d = Some (p, int (rs_head m))" and u: "u_pos u = [p]"
  shows "rec_check_restored 1 u d m = Some m" "keep_src 1 m = Some m"
proof -
  note o = rec_okD[OF m]
  have h: "rs_head m < length (rs_cells m)" "int (rs_head m) \<in> ids (rs_cells m)" using o(3,4) by auto
  have d: "d \<in> ids (rs_cells m)" "tl_of (rs_cells m) d = int (rs_head m)" "mc_pos (rs_cells m ! rs_head m) = p" using at by (auto simp: rec_at_def split: if_splits)
  have has: "has_seq_id d (rs_cells m ! rs_head m)" using cells_okD(3)[OF o(5) h(2) d(1)] d(2) by (simp add: has_seq_id_def)
  have w: "unat (word_of_nat (rs_head m) + 1 :: u32) = rs_head m + 1" "unat (word_of_nat (rs_head m) :: u32) = rs_head m"
    using o(2,3) by (simp_all add: unat_word_ariths unsigned_of_nat take_bit_nat_def)
  show "rec_check_restored 1 u d m = Some m" using h d has w u o(3,4) by (simp add: rec_check_restored_def Let_def)
  have "sr_of (rs_cells m) (int (rs_head m)) = int (rs_head m)" using cells_okD(6)[OF o(5) h(2)] has by (auto simp: has_seq_id_def)
  then have "(rs_cells m ! rs_head m)\<lparr>mc_src := int (rs_head m)\<rparr> = rs_cells m ! rs_head m" by (cases "rs_cells m ! rs_head m") simp
  then have "(rs_cells m)[rs_head m := (rs_cells m ! rs_head m)\<lparr>mc_src := int (rs_head m)\<rparr>] = rs_cells m" by simp
  then show "keep_src 1 m = Some m" using h w by (simp add: keep_src_def)
qed

lemma concat_concat_map: "concat (concat (map f xs)) = concat (map (\<lambda>x. concat (f x)) xs)"
  by (induction xs) simp_all

lemma rec_write_meta_ok:
  "concat (rec_write_meta data q C) = concat (map (\<lambda>i. concat (rec_write_cell q (C ! i))) (flat data))"
proof -
  have "rec_write_meta data q C = concat (map (\<lambda>i. rec_write_cell q (C ! i)) (flat data))"
    by (simp add: rec_write_meta_def flat_def map_concat comp_def)
  then show ?thesis by (simp add: concat_concat_map)
qed

lemma rec_state_write_ok:
  assumes "rec_mem_ok tt a"
  shows "\<exists>chunks. rec_state_write tt q a = Some chunks \<and> concat chunks = put_u32 (length (rec_saved_cells q (rs_cells a))) @
    concat (map (\<lambda>i. concat (rec_write_cell q (rs_cells a ! i))) (rec_saved_cells q (rs_cells a))) @ rec_data_bytes tt a (rec_saved_cells q (rs_cells a))"
proof -
  obtain data where d: "rec_ranges q (rs_cells a) = Some (length (rec_saved_cells q (rs_cells a)), data)" "flat data = rec_saved_cells q (rs_cells a)"
    "\<forall>r \<in> set data. fst r < snd r \<and> snd r \<le> length (rs_cells a)" using rec_ranges_ok by blast
  have ok: "rec_ok a" "tensors_ok tt (fresh (rs_cells a)) a" using assms by (simp_all add: rec_mem_ok_def)
  then obtain bs where "rec_write_data tt data a = Some bs" "concat bs = rec_data_bytes tt a (flat data)"
    using rec_write_data_ok[OF ok(2)] d(3) rec_okD(4)[OF ok(1)] by metis
  then show ?thesis using d rec_write_meta_ok[of data q "rs_cells a"] by (simp add: rec_state_write_def)
qed

text \<open>The destination sequence loses its state first.\<close>

lemma rec_rm_whole:
  assumes m: "rec_mem_ok tt m" and d: "0 \<le> d" and p: "\<forall>p t. rec_at (rs_cells m) d = Some (p, t) \<longrightarrow> p < INT32_MAX"
  obtains m' b where "rec_seq_rm d (-1) (-1) m = Some (m', b)" "rec_mem_ok tt m'" "rec_same_layout m m'" "rs_size m' = rs_size m"
    "rec_states tt m' = (rec_states tt m)(d := None)"
proof -
  have ok: "rec_ok m" "tensors_ok tt (fresh (rs_cells m)) m" using m by (simp_all add: rec_mem_ok_def)
  let ?C = "rs_cells m"
  obtain m' b where r: "rec_seq_rm d (-1) (-1) m = Some (m', b)" "rec_ok m'"
    "becomes ?C (if rm_hits (-1) (-1) (rec_at ?C d) then (rec_at ?C)(d := None) else rec_at ?C) (rs_cells m')"
    by (rule rec_seq_rm_ok[OF ok(1) d, where ?p0.0 = "-1" and ?p1.0 = "-1"], rule that) (auto split: if_splits)
  note f = rec_rm_frame[OF r(1)] and b = becomesD[OF r(3)]
  have "rm_hits (-1) (-1) (rec_at ?C d) \<longleftrightarrow> rec_at ?C d \<noteq> None"
    using p rec_at_pos[OF rec_okD(5)[OF ok(1)]] by (auto simp: rm_hits_def clamp_p0_def clamp_p1_def split: option.splits)
  then have at: "rec_at (rs_cells m') = (rec_at ?C)(d := None)" using b(4) fun_upd_idem[of "rec_at ?C" d None] by (cases "rec_at ?C d") simp_all
  have f': "rs_hparams m' = rs_hparams m" "rs_size m' = rs_size m" "rs_r_l m' = rs_r_l m" "rs_s_l m' = rs_s_l m" using f by auto
  note c = tensors_cong[OF f']
  have "rec_mem_ok tt m'" using r(2) tensors_mono[OF ok(2) b(3)] by (simp add: rec_mem_ok_def c)
  moreover have "rec_states tt m' = (rec_states tt m)(d := None)" by (auto simp: rec_states_def fun_eq_iff at c f')
  ultimately show ?thesis using that r(1) f' c(4)[of m] by (simp add: rec_same_layout_def)
qed

text \<open>A cell of one sequence is read.\<close>

lemma rec_meta_seq_run:
  assumes m: "rec_mem_ok tt m" and d: "d \<in> {0..<int (rs_size m)}" and p: "\<forall>p t. rec_at (rs_cells m) d = Some (p, t) \<longrightarrow> p < INT32_MAX"
    and x: "0 \<le> x" "i32_ok x"
  obtains m' where "rec_read_meta 1 d (m, put_i32 x @ put_u32 0 @ bs) = Inr (True, m', bs)" "rec_ok m'" "rec_same_layout m m'" "rs_size m' = rs_size m"
    "rec_at (rs_cells m') d = Some (x, int (rs_head m'))" "tensors_ok tt (insert (int (rs_head m')) (fresh (rs_cells m')) - {int (rs_head m')}) m'"
    "\<And>q. q \<noteq> d \<Longrightarrow> rec_states tt m' q = rec_states tt m q" "\<And>q p t. q \<noteq> d \<Longrightarrow> rec_at (rs_cells m') q = Some (p, t) \<Longrightarrow> t \<noteq> int (rs_head m')"
    "int (rs_head m') \<notin> fresh (rs_cells m')"
proof -
  have d0: "0 \<le> d" "d \<noteq> -1" using d by auto
  obtain m1 b where r: "rec_seq_rm d (-1) (-1) m = Some (m1, b)" "rec_mem_ok tt m1" "rec_same_layout m m1" "rs_size m1 = rs_size m"
    "rec_states tt m1 = (rec_states tt m)(d := None)" by (rule rec_rm_whole[OF m d0(1) p]) blast
  have o1: "rec_ok m1" "tensors_ok tt (fresh (rs_cells m1)) m1" using r(2) by (simp_all add: rec_mem_ok_def)
  have d1: "d \<in> ids (rs_cells m1)" using d r(4) rec_okD(4)[OF o1(1)] by simp
  let ?u = "rec_restore_ubatch m1 d [x]"
  obtain m' where s: "rec_find_slot ?u m1 = Some (m', True)" "rec_ok m'" "rs_hparams m' = rs_hparams m1" "rs_size m' = rs_size m1" "rs_r_l m' = rs_r_l m1" "rs_s_l m' = rs_s_l m1"
    "rec_at (rs_cells m') = (rec_at (rs_cells m1))(d := Some (x, int (rs_head m')))"
    "\<And>q p' t. q \<noteq> d \<Longrightarrow> rec_at (rs_cells m1) q = Some (p', t) \<Longrightarrow> t \<noteq> int (rs_head m')"
    "fresh (rs_cells m') \<subseteq> fresh (rs_cells m1) - {int (rs_head m')}"
    by (rule slot_one[OF o1(1) d1 x(1)]) blast
  note c = tensors_cong[OF s(3-6)]
  have dn: "d \<in> {0..<int (rs_size m1)}" using d r(4) by simp
  have at: "rec_at (rs_cells m') d = Some (x, int (rs_head m'))" using s(7) by simp
  note chk = rec_check_restored_ok[OF s(2) at rec_restore_ubatch_ok(5)[OF x(1) dn]]
  have run: "rec_read_meta 1 d (m, put_i32 x @ put_u32 0 @ bs) = Inr (True, m', bs)"
    using r(1) s(1) x(2) d0 chk by (simp add: rec_read_meta_def rec_read_meta_seq_def io_rec_def i32.bind_put u32.bind_put io_simps Let_def io_find_slot_def)
  have "rec_same_layout m m'" using r(3) s(3,5,6) by (simp add: rec_same_layout_def)
  moreover have "tensors_ok tt (insert (int (rs_head m')) (fresh (rs_cells m')) - {int (rs_head m')}) m'"
    unfolding c(3) by (rule tensors_mono[OF o1(2)]) (use s(9) in auto)
  moreover have "rec_states tt m' q = rec_states tt m q" if "q \<noteq> d" for q
  proof -
    have "rec_states tt m' q = rec_states tt m1 q" using that by (simp add: rec_states_def s(5-7) c(1,2))
    then show ?thesis using r(5) that by simp
  qed
  moreover have "t \<noteq> int (rs_head m')" if "q \<noteq> d" "rec_at (rs_cells m') q = Some (p, t)" for q p t using s(7,8) that by simp
  moreover have "int (rs_head m') \<notin> fresh (rs_cells m')" using s(9) by blast
  ultimately show ?thesis using that run s(2,4) r(4) at by simp
qed

lemma rec_seq_restored:
  assumes "rec_mem_ok tt a" "rec_mem_ok tt m" "rec_same_layout a m" "0 \<le> q" "d \<in> {0..<int (rs_size m)}"
    and "\<forall>p t. rec_at (rs_cells a) q = Some (p, t) \<longrightarrow> p \<le> INT32_MAX" "\<forall>p t. rec_at (rs_cells m) d = Some (p, t) \<longrightarrow> p < INT32_MAX"
  shows "\<exists>chunks m'. rec_state_write tt q a = Some chunks \<and> rec_state_read tt d (m, concat chunks @ bs) = Inr ((), m', bs) \<and>
    rec_mem_ok tt m' \<and> rec_states tt m' = (rec_states tt m)(d := rec_states tt a q)"
proof -
  have oka: "rec_ok a" "tensors_ok tt (fresh (rs_cells a)) a" using assms(1) by (simp_all add: rec_mem_ok_def)
  have d0: "0 \<le> d" "d \<noteq> -1" using assms(5) by auto
  obtain chunks where w: "rec_state_write tt q a = Some chunks" "concat chunks = put_u32 (length (rec_saved_cells q (rs_cells a))) @
    concat (map (\<lambda>i. concat (rec_write_cell q (rs_cells a ! i))) (rec_saved_cells q (rs_cells a))) @ rec_data_bytes tt a (rec_saved_cells q (rs_cells a))"
    using rec_state_write_ok[OF assms(1)] by blast
  note sv = rec_saved_seq[OF rec_okD(5)[OF oka(1)] assms(4)]
  show ?thesis
  proof (cases "rec_at (rs_cells a) q")
    case None
    obtain m1 b where r: "rec_seq_rm d (-1) (-1) m = Some (m1, b)" "rec_mem_ok tt m1" "rec_same_layout m m1" "rs_size m1 = rs_size m"
      "rec_states tt m1 = (rec_states tt m)(d := None)" by (rule rec_rm_whole[OF assms(2) d0(1) assms(7)]) blast
    have t1: "rec_ok m1" "tensors_ok tt (fresh (rs_cells m1)) m1" using r(2) by (simp_all add: rec_mem_ok_def)
    have lay: "rec_same_layout a m1" using assms(3) r(3) by (simp add: rec_same_layout_def)
    have h: "rs_head m1 + length ([] :: nat list) \<le> rs_size m1" using rec_okD(3)[OF t1(1)] by simp
    note rd = rec_read_data_ok[OF oka(2) t1(2) lay _ h, of bs] and ro = restored_ok[OF oka(2) t1(2) lay _ h, of "fresh (rs_cells m1)"]
    have "rec_state_read tt d (m, concat chunks @ bs) = Inr ((), restored tt [] a m1, bs)"
      using rd w(2) sv None r(1) d0 by (simp add: rec_state_read_def rec_read_meta_def rec_read_meta_seq_def u32.bind_put io_rec_def io_simps)
    moreover have "rec_mem_ok tt (restored tt [] a m1)" using ro(1) t1 by (simp add: rec_mem_ok_def)
    moreover have "rec_states tt (restored tt [] a m1) = rec_states tt m1" using ro(4) by (simp add: rec_states_def fun_eq_iff)
    ultimately show ?thesis using w(1) r(5) None by (intro exI[of _ chunks] exI[of _ "restored tt [] a m1"]) (simp add: rec_states_def)
  next
    case (Some e)
    obtain x t where e: "e = (x, t)" by (cases e)
    have at: "rec_at (rs_cells a) q = Some (x, t)" using Some e by simp
    have x: "0 \<le> x" "i32_ok x" using rec_at_pos[OF rec_okD(5)[OF oka(1)] at] assms(6) at by (auto simp: i32_ok_def INT32_MAX_def)
    have t: "nat t < rs_size a" "mc_pos (rs_cells a ! nat t) = x"
      using rec_at_mem[OF rec_okD(5)[OF oka(1)] at] at rec_okD(4)[OF oka(1)] by (auto simp: rec_at_def split: if_splits)
    have cell: "concat (rec_write_cell q (rs_cells a ! nat t)) = put_i32 x @ put_u32 0" using t(2) assms(4) by (simp add: rec_write_cell_def)
    let ?bs = "rec_data_bytes tt a [nat t] @ bs"
    obtain m1 where r: "rec_read_meta 1 d (m, put_i32 x @ put_u32 0 @ ?bs) = Inr (True, m1, ?bs)" "rec_ok m1" "rec_same_layout m m1" "rs_size m1 = rs_size m"
      "rec_at (rs_cells m1) d = Some (x, int (rs_head m1))" "tensors_ok tt (insert (int (rs_head m1)) (fresh (rs_cells m1)) - {int (rs_head m1)}) m1"
      "\<And>q. q \<noteq> d \<Longrightarrow> rec_states tt m1 q = rec_states tt m q" "\<And>q p t. q \<noteq> d \<Longrightarrow> rec_at (rs_cells m1) q = Some (p, t) \<Longrightarrow> t \<noteq> int (rs_head m1)"
      "int (rs_head m1) \<notin> fresh (rs_cells m1)"
      by (rule rec_meta_seq_run[OF assms(2,5,7) x, of ?bs]) blast
    have t1: "tensors_ok tt (fresh (rs_cells m1)) m1" using r(6,9) by simp
    have lay: "rec_same_layout a m1" using assms(3) r(3) by (simp add: rec_same_layout_def)
    have h: "rs_head m1 + length [nat t] \<le> rs_size m1" using rec_okD(3)[OF r(2)] by simp
    have Z: "\<forall>i \<in> fresh (rs_cells m1). i \<in> fresh (rs_cells m1) \<and> \<not> (rs_head m1 \<le> nat i \<and> nat i < rs_head m1 + length [nat t])"
    proof
      fix i assume i: "i \<in> fresh (rs_cells m1)"
      then have "i \<noteq> int (rs_head m1)" "0 \<le> i" using r(9) by (auto simp: fresh_def)
      then show "i \<in> fresh (rs_cells m1) \<and> \<not> (rs_head m1 \<le> nat i \<and> nat i < rs_head m1 + length [nat t])" using i by auto
    qed
    let ?m = "restored tt [nat t] a m1"
    note rd = rec_read_data_ok[OF oka(2) t1 lay _ h, of bs] and ro = restored_ok[OF oka(2) t1 lay _ h Z]
    have "rec_state_read tt d (m, concat chunks @ bs) = Inr ((), ?m, bs)"
      using rd t(1) w(2) sv at cell r(1) d0 by (simp add: rec_state_read_def u32.bind_put io_simps)
    moreover have "rec_mem_ok tt ?m" using ro(1) t(1) r(2) by (simp add: rec_mem_ok_def)
    moreover have "rec_states tt ?m i = ((rec_states tt m)(d := rec_states tt a q)) i" for i
    proof (cases "i = d")
      case True
      then show ?thesis using ro(3)[of "rs_head m1"] t(1) r(5) at by (simp add: rec_states_def)
    next
      case False
      have "rec_states tt ?m i = rec_states tt m1 i"
      proof (cases "rec_at (rs_cells m1) i")
        case (Some e')
        obtain p j where e': "e' = (p, j)" by (cases e')
        have "j \<noteq> int (rs_head m1)" "0 \<le> j" using r(8)[OF False] Some e' rec_at_mem[OF rec_okD(5)[OF r(2)]] by auto
        then show ?thesis using ro(4)[of "nat j"] t(1) Some e' by (simp add: rec_states_def) (metis int_nat_eq le_antisym less_Suc_eq_le)
      qed (simp add: rec_states_def)
      then show ?thesis using r(7)[OF False] False by simp
    qed
    ultimately show ?thesis using w(1) by blast
  qed
qed

text \<open>
  C33.  The state of a sequence survives saving and restoring: \<^verbatim>\<open>state_write\<close> of sequence \<open>q\<close> and \<^verbatim>\<open>state_read\<close> into
  sequence \<open>d\<close> of a memory with the same layers (of any size) end without a failed assertion or an exception, use up exactly
  the bytes written, keep the invariant of the memory, and change the table of sequences at \<open>d\<close> only: it gets the
  position of \<open>q\<close> and its rows in every layer, or nothing when \<open>q\<close> has no state.
\<close>

theorem rec_state_seq_roundtrip:
  assumes "rec_mem_ok tt a" "rec_mem_ok tt m" "rec_same_layout a m" "0 \<le> q" "d \<in> {0..<int (rs_size m)}"
    and "\<forall>p t. rec_at (rs_cells a) q = Some (p, t) \<longrightarrow> p \<le> INT32_MAX" "\<forall>p t. rec_at (rs_cells m) d = Some (p, t) \<longrightarrow> p < INT32_MAX"
  shows "\<exists>chunks m'. rec_state_write tt q a = Some chunks \<and> rec_state_read tt d (m, concat chunks @ bs) = Inr ((), m', bs) \<and>
    rec_mem_ok tt m' \<and> rec_states tt m' = (rec_states tt m)(d := rec_states tt a q)"
  by (rule rec_seq_restored[OF assms])

section \<open>Evaluation\<close>

text \<open>Rows of one byte over the cells of \<^term>\<open>demo_rec\<close>.\<close>

definition demo_rec_mem :: llama_memory_recurrent where
  "demo_rec_mem = demo_rec\<lparr>rs_hparams := demo_hparams\<lparr>hp_n_layer := 1, hp_wkv_head_size := 1, hp_token_shift_count := 1, hp_n_embd := 1\<rparr>,
     rs_r_l := [Some (0, [10, 20, 30, 40])], rs_s_l := [Some (0, [50, 60, 70, 80])]\<rparr>"

lemma demo_rec_mem_ok: "rec_mem_ok demo_traits demo_rec_mem" "rec_same_layout demo_rec_mem demo_rec_mem" "rs_cells demo_rec_mem = demo_cells" "rs_size demo_rec_mem = 4"
  "rec_states demo_traits demo_rec_mem 0 = Some (5, [Some [30]], [Some [70]])" "rec_states demo_traits demo_rec_mem 3 = Some (7, [Some [40]], [Some [80]])"
proof -
  show c: "rs_cells demo_rec_mem = demo_cells" "rs_size demo_rec_mem = 4" by (simp_all add: demo_rec_mem_def demo_rec_def)
  have r: "r_size_row demo_traits demo_rec_mem 0 = Some 1" "s_size_row demo_traits demo_rec_mem 0 = Some 1"
    by (simp_all add: r_size_row_def s_size_row_def n_embd_r_def n_embd_s_def demo_rec_mem_def ggml_row_size_def ggml_blck_size_def ggml_type_size_def demo_traits_def)
  have "rec_ok demo_rec_mem" using demo_rec_ok by (simp add: rec_ok_def demo_rec_mem_def)
  moreover have "fresh demo_cells = {}" by (auto simp: fresh_def demo_cells_def mem_cell_new_def nth_Cons split: nat.splits)
  moreover have "tensors_ok demo_traits {} demo_rec_mem"
    using r c by (simp add: tensors_ok_def rs_layer_ok_def i32_ok_def) (simp add: demo_rec_mem_def demo_rec_def i32_ok_def)
  ultimately show "rec_mem_ok demo_traits demo_rec_mem" using c by (simp add: rec_mem_ok_def)
  show "rec_same_layout demo_rec_mem demo_rec_mem" by (simp add: rec_same_layout_def)
  show "rec_states demo_traits demo_rec_mem 0 = Some (5, [Some [30]], [Some [70]])" "rec_states demo_traits demo_rec_mem 3 = Some (7, [Some [40]], [Some [80]])"
    using r c demo_rec_at by (simp_all add: rec_states_def layer_row_def trow_def) (simp_all add: demo_rec_mem_def layer_row_def trow_def)
qed

theorem rec_state_seq_roundtrip_witness:
  "\<exists>chunks m'. rec_state_write demo_traits 3 demo_rec_mem = Some chunks \<and> rec_state_read demo_traits 2 (demo_rec_mem, concat chunks @ []) = Inr ((), m', []) \<and>
    rec_states demo_traits m' 2 = Some (7, [Some [40]], [Some [80]]) \<and> rec_states demo_traits m' 0 = Some (5, [Some [30]], [Some [70]])"
  using rec_state_seq_roundtrip[OF demo_rec_mem_ok(1,1,2), of 3 2 "[]"] demo_rec_mem_ok(3-6) demo_rec_at by (auto simp: INT32_MAX_def)

end
