(* ===== verification/Rec_Whole.thy ===== *)
theory Rec_Whole
  imports Rec_Restore
begin

text \<open>
  Restoring a whole recurrent memory: the used cells of the saved memory are packed at the front of the
  destination, in their order, and the table of sequences is the same.
\<close>

section \<open>Reading the cells\<close>

definition add_id :: "nat \<Rightarrow> llama_seq_id \<Rightarrow> mem_cell list \<Rightarrow> mem_cell list" where
  "add_id i q C = mc_upd q (\<lambda>c. c\<lparr>mc_tail := int i\<rparr>) (mc_upd (int i) (\<lambda>c. c\<lparr>mc_seq_id := insert q (mc_seq_id c)\<rparr>) C)"

lemma add_id_fields:
  assumes "q \<in> ids C" "i < length C" "j \<in> ids C"
  shows "tl_of (add_id i q C) j = (if j = q then int i else tl_of C j)" "sq_of (add_id i q C) j = (if j = int i then insert q (sq_of C j) else sq_of C j)"
    "ps_of (add_id i q C) j = ps_of C j" "sr_of (add_id i q C) j = sr_of C j" "length (add_id i q C) = length C"
proof -
  let ?D = "mc_upd (int i) (\<lambda>c. c\<lparr>mc_seq_id := insert q (mc_seq_id c)\<rparr>) C"
  have i: "int i \<in> ids C" using assms(2) by simp
  have D: "add_id i q C ! nat j = (if j = q then (?D ! nat q)\<lparr>mc_tail := int i\<rparr> else ?D ! nat j)" unfolding add_id_def by (rule mc_upd_nth) (use assms in auto)
  have D': "?D ! nat k = (if k = int i then (C ! nat (int i))\<lparr>mc_seq_id := insert q (mc_seq_id (C ! nat (int i)))\<rparr> else C ! nat k)" if "k \<in> ids C" for k
    by (rule mc_upd_nth[OF i that])
  show "tl_of (add_id i q C) j = (if j = q then int i else tl_of C j)" "sq_of (add_id i q C) j = (if j = int i then insert q (sq_of C j) else sq_of C j)"
    "ps_of (add_id i q C) j = ps_of C j" "sr_of (add_id i q C) j = sr_of C j"
    unfolding D D'[OF assms(1)] D'[OF assms(3)] by (simp_all del: nat_int)
  show "length (add_id i q C) = length C" by (simp add: add_id_def)
qed

lemma add_ids_fields:
  assumes "set qs \<subseteq> ids C" "i < length C"
  shows "length (fold (add_id i) qs C) = length C"
    "j \<in> ids C \<Longrightarrow> tl_of (fold (add_id i) qs C) j = (if j \<in> set qs then int i else tl_of C j) \<and>
      sq_of (fold (add_id i) qs C) j = (if j = int i then set qs \<union> sq_of C j else sq_of C j) \<and>
      ps_of (fold (add_id i) qs C) j = ps_of C j \<and> sr_of (fold (add_id i) qs C) j = sr_of C j"
proof -
  have len: "length (add_id i q C) = length C" for q C by (simp add: add_id_def)
  have "length (fold (add_id i) qs C) = length C \<and> (\<forall>j \<in> ids C. tl_of (fold (add_id i) qs C) j = (if j \<in> set qs then int i else tl_of C j) \<and>
      sq_of (fold (add_id i) qs C) j = (if j = int i then set qs \<union> sq_of C j else sq_of C j) \<and>
      ps_of (fold (add_id i) qs C) j = ps_of C j \<and> sr_of (fold (add_id i) qs C) j = sr_of C j)"
    using assms
  proof (induction qs arbitrary: C)
    case (Cons q qs)
    have q: "q \<in> ids C" "i < length C" using Cons.prems by auto
    have IH: "length (fold (add_id i) qs (add_id i q C)) = length C" "j \<in> ids C \<Longrightarrow> tl_of (fold (add_id i) qs (add_id i q C)) j = (if j \<in> set qs then int i else tl_of (add_id i q C) j) \<and>
      sq_of (fold (add_id i) qs (add_id i q C)) j = (if j = int i then set qs \<union> sq_of (add_id i q C) j else sq_of (add_id i q C) j) \<and>
      ps_of (fold (add_id i) qs (add_id i q C)) j = ps_of (add_id i q C) j \<and> sr_of (fold (add_id i) qs (add_id i q C)) j = sr_of (add_id i q C) j" for j
      using Cons.IH[of "add_id i q C"] Cons.prems unfolding len by auto
    show ?case
    proof (rule conjI, use IH(1) in simp, rule ballI)
      fix j assume j: "j \<in> ids C"
      show "tl_of (fold (add_id i) (q # qs) C) j = (if j \<in> set (q # qs) then int i else tl_of C j) \<and>
        sq_of (fold (add_id i) (q # qs) C) j = (if j = int i then set (q # qs) \<union> sq_of C j else sq_of C j) \<and>
        ps_of (fold (add_id i) (q # qs) C) j = ps_of C j \<and> sr_of (fold (add_id i) (q # qs) C) j = sr_of C j"
        using IH(2)[OF j, unfolded add_id_fields[OF q j]] by (simp del: nat_int)
    qed
  qed simp
  then show "length (fold (add_id i) qs C) = length C"
    "j \<in> ids C \<Longrightarrow> tl_of (fold (add_id i) qs C) j = (if j \<in> set qs then int i else tl_of C j) \<and>
      sq_of (fold (add_id i) qs C) j = (if j = int i then set qs \<union> sq_of C j else sq_of C j) \<and>
      ps_of (fold (add_id i) qs C) j = ps_of C j \<and> sr_of (fold (add_id i) qs C) j = sr_of C j" by blast+
qed

lemma rec_read_id_run:
  assumes "i32_ok q" "q \<in> ids (rs_cells m)" "i < length (rs_cells m)" "tl_of (rs_cells m) q = -1"
  shows "rec_read_id i (m, put_i32 q @ bs) = Inr (True, m\<lparr>rs_cells := add_id i q (rs_cells m)\<rparr>, bs)"
proof -
  have "tl_of (mc_upd (int i) (\<lambda>c. c\<lparr>mc_seq_id := insert q (mc_seq_id c)\<rparr>) (rs_cells m)) q = -1" using assms by (auto simp: mc_upd_nth)
  then show ?thesis using assms by (simp add: rec_read_id_def i32.bind_put io_rec_def io_simps add_id_def)
qed

lemma rec_read_ids_run:
  assumes "length xs = length qs" "distinct qs" "\<forall>q \<in> set qs. i32_ok q" "set qs \<subseteq> ids (rs_cells m)" "i < length (rs_cells m)" "\<forall>q \<in> set qs. tl_of (rs_cells m) q = -1"
  shows "io_for (\<lambda>j. rec_read_id i) xs (m, concat (map put_i32 qs) @ bs) = Inr (True, m\<lparr>rs_cells := fold (add_id i) qs (rs_cells m)\<rparr>, bs)"
  using assms
proof (induction qs arbitrary: m xs)
  case (Cons q qs)
  obtain x ys where xs: "xs = x # ys" "length ys = length qs" using Cons.prems(1) by (cases xs) auto
  let ?m = "m\<lparr>rs_cells := add_id i q (rs_cells m)\<rparr>"
  have q: "q \<in> ids (rs_cells m)" "i < length (rs_cells m)" using Cons.prems by auto
  have "\<forall>j \<in> set qs. tl_of (add_id i q (rs_cells m)) j = -1"
  proof
    fix j assume j: "j \<in> set qs"
    then have "j \<in> ids (rs_cells m)" "j \<noteq> q" "tl_of (rs_cells m) j = -1" using Cons.prems by auto
    then show "tl_of (add_id i q (rs_cells m)) j = -1" using add_id_fields(1)[OF q] by simp
  qed
  moreover have "length (add_id i q (rs_cells m)) = length (rs_cells m)" by (simp add: add_id_def)
  ultimately have IH: "io_for (\<lambda>j. rec_read_id i) ys (?m, concat (map put_i32 qs) @ bs) = Inr (True, ?m\<lparr>rs_cells := fold (add_id i) qs (rs_cells ?m)\<rparr>, bs)"
    using Cons.prems xs(2) by (intro Cons.IH) auto
  have "rec_read_id i (m, put_i32 q @ concat (map put_i32 qs) @ bs) = Inr (True, ?m, concat (map put_i32 qs) @ bs)"
    using Cons.prems by (intro rec_read_id_run) auto
  then show ?case using IH by (simp add: xs(1) io_simps)
qed (simp add: io_simps)

lemma mc_upd_pos_fields:
  assumes "i < length C" "j \<in> ids C"
  shows "tl_of (mc_upd (int i) (\<lambda>c. c\<lparr>mc_pos := p\<rparr>) C) j = tl_of C j" "sq_of (mc_upd (int i) (\<lambda>c. c\<lparr>mc_pos := p\<rparr>) C) j = sq_of C j"
    "sr_of (mc_upd (int i) (\<lambda>c. c\<lparr>mc_pos := p\<rparr>) C) j = sr_of C j" "ps_of (mc_upd (int i) (\<lambda>c. c\<lparr>mc_pos := p\<rparr>) C) j = (if j = int i then p else ps_of C j)"
  using assms by (auto simp: mc_upd_nth)

text \<open>The cell \<open>c\<close> of the saved memory becomes cell \<open>i\<close>.\<close>

definition add_cell :: "mem_cell \<Rightarrow> nat \<Rightarrow> mem_cell list \<Rightarrow> mem_cell list" where
  "add_cell c i C = fold (add_id i) (sorted_list_of_set (mc_seq_id c)) (mc_upd (int i) (\<lambda>d. d\<lparr>mc_pos := mc_pos c\<rparr>) C)"

lemma rec_read_cell_run:
  assumes "i32_ok (mc_pos c)" "finite (mc_seq_id c)" "card (mc_seq_id c) < 2 ^ 32" "\<forall>q \<in> mc_seq_id c. i32_ok q" "mc_seq_id c \<subseteq> ids (rs_cells m)"
    "i < length (rs_cells m)" "\<forall>q \<in> mc_seq_id c. tl_of (rs_cells m) q = -1"
  shows "rec_read_cell i (m, concat (rec_write_cell (-1) c) @ bs) = Inr (True, m\<lparr>rs_cells := add_cell c i (rs_cells m)\<rparr>, bs)"
proof -
  let ?qs = "sorted_list_of_set (mc_seq_id c)" and ?m = "m\<lparr>rs_cells := mc_upd (int i) (\<lambda>d. d\<lparr>mc_pos := mc_pos c\<rparr>) (rs_cells m)\<rparr>"
  have qs: "set ?qs = mc_seq_id c" "length ?qs = card (mc_seq_id c)" using assms(2) by simp_all
  have w: "concat (rec_write_cell (-1) c) = put_i32 (mc_pos c) @ put_u32 (card (mc_seq_id c)) @ concat (map put_i32 ?qs)"
    using assms(2) by (auto simp: rec_write_cell_def Let_def card_eq_0_iff)
  have "\<forall>q \<in> mc_seq_id c. tl_of (rs_cells ?m) q = -1" using assms(5-7) mc_upd_pos_fields(1)[OF assms(6)] by auto
  then have "io_for (\<lambda>j. rec_read_id i) [0..<card (mc_seq_id c)] (?m, concat (map put_i32 ?qs) @ bs) = Inr (True, ?m\<lparr>rs_cells := fold (add_id i) ?qs (rs_cells ?m)\<rparr>, bs)"
    using assms qs by (intro rec_read_ids_run) auto
  then show ?thesis unfolding w add_cell_def using assms(1,3) by (simp add: rec_read_cell_def i32.bind_put u32.bind_put io_rec_def io_simps)
qed

section \<open>The packed cells\<close>

text \<open>\<open>A\<close> are the saved cells, the first \<open>k\<close> of which are packed into \<open>C\<close>.\<close>

definition packed :: "mem_cell list \<Rightarrow> nat \<Rightarrow> mem_cell list \<Rightarrow> bool" where
  "packed A k C \<longleftrightarrow> (\<forall>j \<in> ids C. ps_of C j = (if j < int k then mc_pos (A ! nat j) else -1) \<and> sq_of C j = (if j < int k then mc_seq_id (A ! nat j) else {}) \<and>
     sr_of C j = -1 \<and> (tl_of C j = -1 \<or> tl_of C j \<in> {0..<int k} \<and> j \<in> mc_seq_id (A ! nat (tl_of C j)))) \<and>
     (\<forall>i < k. \<forall>j \<in> mc_seq_id (A ! i). j \<in> ids C \<longrightarrow> tl_of C j = int i)"

lemma packed_step:
  assumes P: "packed A k C" and k: "k < length C" and fin: "finite (mc_seq_id (A ! k))" "mc_seq_id (A ! k) \<subseteq> ids C"
    and disj: "\<And>i. i < k \<Longrightarrow> mc_seq_id (A ! i) \<inter> mc_seq_id (A ! k) = {}"
  shows "packed A (Suc k) (add_cell (A ! k) k C)" "length (add_cell (A ! k) k C) = length C" "\<forall>q \<in> mc_seq_id (A ! k). tl_of C q = -1"
proof -
  let ?S = "mc_seq_id (A ! k)" and ?C1 = "mc_upd (int k) (\<lambda>d. d\<lparr>mc_pos := mc_pos (A ! k)\<rparr>) C"
  have p: "j \<in> ids C \<Longrightarrow> ps_of C j = (if j < int k then mc_pos (A ! nat j) else -1) \<and> sq_of C j = (if j < int k then mc_seq_id (A ! nat j) else {}) \<and>
     sr_of C j = -1 \<and> (tl_of C j = -1 \<or> tl_of C j \<in> {0..<int k} \<and> j \<in> mc_seq_id (A ! nat (tl_of C j)))"
    "i < k \<Longrightarrow> j \<in> mc_seq_id (A ! i) \<Longrightarrow> j \<in> ids C \<Longrightarrow> tl_of C j = int i" for i j
    using P unfolding packed_def by blast+
  have s: "set (sorted_list_of_set ?S) = ?S" "set (sorted_list_of_set ?S) \<subseteq> ids ?C1" "k < length ?C1" using fin k by simp_all
  show len: "length (add_cell (A ! k) k C) = length C" using add_ids_fields(1)[OF s(2,3)] by (simp add: add_cell_def)
  have f: "tl_of (add_cell (A ! k) k C) j = (if j \<in> ?S then int k else tl_of C j)" "sq_of (add_cell (A ! k) k C) j = (if j = int k then ?S \<union> sq_of C j else sq_of C j)"
    "ps_of (add_cell (A ! k) k C) j = (if j = int k then mc_pos (A ! k) else ps_of C j)" "sr_of (add_cell (A ! k) k C) j = sr_of C j" if j: "j \<in> ids C" for j
    using add_ids_fields(2)[OF s(2,3), of j, unfolded s(1) mc_upd_pos_fields[OF k j] mc_upd_length, OF j] unfolding add_cell_def by blast+
  show "\<forall>q \<in> ?S. tl_of C q = -1"
  proof
    fix q assume q: "q \<in> ?S"
    then have "q \<in> ids C" using fin(2) by blast
    then have "tl_of C q = -1 \<or> nat (tl_of C q) < k \<and> q \<in> mc_seq_id (A ! nat (tl_of C q))" using p(1)[of q] by auto
    then show "tl_of C q = -1" using disj[of "nat (tl_of C q)"] q by blast
  qed
  show "packed A (Suc k) (add_cell (A ! k) k C)" unfolding packed_def len
  proof (intro conjI ballI allI impI)
    fix j assume j: "j \<in> ids C"
    show "ps_of (add_cell (A ! k) k C) j = (if j < int (Suc k) then mc_pos (A ! nat j) else -1)"
      "sq_of (add_cell (A ! k) k C) j = (if j < int (Suc k) then mc_seq_id (A ! nat j) else {})" "sr_of (add_cell (A ! k) k C) j = -1"
      using p(1)[OF j] j by (auto simp: f[OF j])
    show "tl_of (add_cell (A ! k) k C) j = -1 \<or> tl_of (add_cell (A ! k) k C) j \<in> {0..<int (Suc k)} \<and> j \<in> mc_seq_id (A ! nat (tl_of (add_cell (A ! k) k C) j))"
      using p(1)[OF j] by (auto simp: f[OF j])
  next
    fix i j assume i: "i < Suc k" "j \<in> mc_seq_id (A ! i)" and j: "j \<in> ids C"
    show "tl_of (add_cell (A ! k) k C) j = int i"
    proof (cases "i = k")
      case False
      then have "j \<notin> ?S" using disj[of i] i by auto
      then show ?thesis using p(2)[of i j] i j False by (simp add: f[OF j])
    qed (use i f[OF j] in simp)
  qed
qed

definition pack :: "mem_cell list \<Rightarrow> nat \<Rightarrow> mem_cell list \<Rightarrow> mem_cell list" where
  "pack A k C = fold (\<lambda>i. add_cell (A ! i) i) [0..<k] C"

text \<open>Cells that can be packed into a list of \<open>n\<close> cells.\<close>

definition packable :: "nat \<Rightarrow> mem_cell list \<Rightarrow> bool" where
  "packable n A \<longleftrightarrow> length A \<le> n \<and> (\<forall>c \<in> set A. 0 \<le> mc_pos c \<and> mc_seq_id c \<noteq> {} \<and> mc_seq_id c \<subseteq> {0..<int n}) \<and>
     (\<forall>i < length A. \<forall>k < length A. i \<noteq> k \<longrightarrow> mc_seq_id (A ! i) \<inter> mc_seq_id (A ! k) = {})"

lemma packableD:
  assumes "packable n A" "i < length A"
  shows "length A \<le> n" "0 \<le> mc_pos (A ! i)" "mc_seq_id (A ! i) \<noteq> {}" "mc_seq_id (A ! i) \<subseteq> {0..<int n}" "finite (mc_seq_id (A ! i))"
    "k < length A \<Longrightarrow> i \<noteq> k \<Longrightarrow> mc_seq_id (A ! i) \<inter> mc_seq_id (A ! k) = {}"
proof -
  show a: "length A \<le> n" "0 \<le> mc_pos (A ! i)" "mc_seq_id (A ! i) \<noteq> {}" "mc_seq_id (A ! i) \<subseteq> {0..<int n}"
    "k < length A \<Longrightarrow> i \<noteq> k \<Longrightarrow> mc_seq_id (A ! i) \<inter> mc_seq_id (A ! k) = {}" using assms nth_mem[OF assms(2)] unfolding packable_def by blast+
  show "finite (mc_seq_id (A ! i))" by (rule finite_subset[OF a(4)]) simp
qed

lemma pack_packed:
  assumes A: "packable (length C) A" and C: "packed A 0 C" and k: "k \<le> length A"
  shows "packed A k (pack A k C) \<and> length (pack A k C) = length C"
  using k
proof (induction k)
  case (Suc k)
  have k: "k < length A" using Suc.prems by simp
  have IH: "packed A k (pack A k C)" "length (pack A k C) = length C" using Suc by auto
  note d = packableD[OF A k]
  have "packed A (Suc k) (add_cell (A ! k) k (pack A k C)) \<and> length (add_cell (A ! k) k (pack A k C)) = length (pack A k C)"
    by (intro conjI packed_step[OF IH(1)]) (use IH(2) d(1,4,5) k packableD(6)[OF A _ k] in auto)
  then show ?case using IH(2) by (simp add: pack_def)
qed (simp add: pack_def C)

lemma rec_read_cells_run:
  assumes A: "packable (length (rs_cells m)) A" and C: "packed A 0 (rs_cells m)" and n: "length (rs_cells m) < 2 ^ 30" and p: "\<forall>c \<in> set A. mc_pos c \<le> INT32_MAX"
  shows "io_for rec_read_cell [0..<length A] (m, concat (map (\<lambda>c. concat (rec_write_cell (-1) c)) A) @ bs) = Inr (True, m\<lparr>rs_cells := pack A (length A) (rs_cells m)\<rparr>, bs)"
proof -
  let ?M = "\<lambda>k. m\<lparr>rs_cells := pack A k (rs_cells m)\<rparr>"
  have step: "rec_read_cell k (?M k, concat (rec_write_cell (-1) (A ! k)) @ bs) = Inr (True, ?M (Suc k), bs)" if k: "k < length A" for k bs
  proof -
    note d = packableD[OF A k]
    have P: "packed A k (pack A k (rs_cells m))" "length (pack A k (rs_cells m)) = length (rs_cells m)" using pack_packed[OF A C, of k] k by auto
    have "card (mc_seq_id (A ! k)) \<le> card {0..<int (length (rs_cells m))}" by (rule card_mono[OF _ d(4)]) simp
    then have card: "card (mc_seq_id (A ! k)) < 2 ^ 32" using n by simp
    have tl: "\<forall>q \<in> mc_seq_id (A ! k). tl_of (pack A k (rs_cells m)) q = -1"
      by (rule packed_step(3)[OF P(1)]) (use P(2) d(1,4,5) k packableD(6)[OF A _ k] in auto)
    have i32: "\<forall>q \<in> mc_seq_id (A ! k). i32_ok q" using d(4) n by (auto simp: i32_ok_def)
    have pos: "i32_ok (mc_pos (A ! k))" using d(2) p nth_mem[OF k] by (force simp: i32_ok_def INT32_MAX_def)
    have "rec_read_cell k (?M k, concat (rec_write_cell (-1) (A ! k)) @ bs) = Inr (True, (?M k)\<lparr>rs_cells := add_cell (A ! k) k (rs_cells (?M k))\<rparr>, bs)"
      by (rule rec_read_cell_run) (use d card tl i32 P(2) pos k in auto)
    then show ?thesis by (simp add: pack_def)
  qed
  have "map (\<lambda>c. concat (rec_write_cell (-1) c)) A = map (\<lambda>k. concat (rec_write_cell (-1) (A ! k))) [0..<length A]" by (rule map_upt_nth[OF refl, symmetric])
  then show ?thesis using io_for_run[of "length A" rec_read_cell ?M "\<lambda>k. concat (rec_write_cell (-1) (A ! k))" bs, OF step] by (simp add: pack_def)
qed

section \<open>The finished cells\<close>

definition keepc :: "nat \<Rightarrow> mem_cell list \<Rightarrow> mem_cell list" where
  "keepc n C = map (\<lambda>i. if i < n then (C ! i)\<lparr>mc_src := int i\<rparr> else C ! i) [0..<length C]"

lemma keep_src_run:
  assumes "rs_head m = 0" "n \<le> length (rs_cells m)" "length (rs_cells m) < 2 ^ 30"
  shows "keep_src n m = Some (m\<lparr>rs_cells := keepc n (rs_cells m)\<rparr>)"
proof -
  let ?C = "rs_cells m"
  let ?step = "\<lambda>i cells. do {
         let cell_id = unat (word_of_nat (rs_head m) + word_of_nat i :: u32);
         require (cell_id < length cells);
         Some (cells[cell_id := (cells ! cell_id)\<lparr>mc_src := int cell_id\<rparr>])
       }"
  have "\<exists>st. for_loop ?step [0..<n] ?C = Some st \<and> st = keepc n ?C"
  proof (rule for_upt_rule[where I = "\<lambda>k st. st = keepc k ?C"])
    show "?C = keepc 0 ?C" by (simp add: keepc_def map_nth)
    fix i st assume i: "i < n" and st: "st = keepc i ?C"
    have u: "unat (word_of_nat i :: u32) = i" using i assms(2,3) by (simp add: unsigned_of_nat take_bit_nat_def)
    have "(keepc i ?C)[i := (keepc i ?C ! i)\<lparr>mc_src := int i\<rparr>] = keepc (Suc i) ?C"
      using i assms(2) by (intro nth_equalityI) (auto simp: keepc_def nth_list_update less_Suc_eq)
    then show "\<exists>st'. ?step i st = Some st' \<and> st' = keepc (Suc i) ?C" using i assms(1,2) st u by (simp add: Let_def) (simp add: keepc_def)
  qed
  then show ?thesis by (simp add: keep_src_def)
qed

lemma keepc_fields:
  assumes "j \<in> ids C"
  shows "tl_of (keepc n C) j = tl_of C j" "sq_of (keepc n C) j = sq_of C j" "ps_of (keepc n C) j = ps_of C j" "sr_of (keepc n C) j = (if j < int n then j else sr_of C j)"
    "length (keepc n C) = length C"
proof -
  have "nat j < length C" using assms by auto
  then show "tl_of (keepc n C) j = tl_of C j" "sq_of (keepc n C) j = sq_of C j" "ps_of (keepc n C) j = ps_of C j" "sr_of (keepc n C) j = (if j < int n then j else sr_of C j)"
    "length (keepc n C) = length C" using assms by (auto simp: keepc_def)
qed

lemma finished_pack:
  assumes A: "packable (length C) A" and P: "packed A (length A) C"
  defines "C' \<equiv> keepc (length A) C"
  shows "cells_ok C'" "fresh C' = {}" "busy C' = {..<length A}"
    "i < length A \<Longrightarrow> q \<in> mc_seq_id (A ! i) \<Longrightarrow> rec_at C' q = Some (mc_pos (A ! i), int i)"
    "(\<And>i. i < length A \<Longrightarrow> q \<notin> mc_seq_id (A ! i)) \<Longrightarrow> rec_at C' q = None"
proof -
  let ?n = "length A"
  have len: "length C' = length C" by (simp add: C'_def keepc_def)
  have p: "j \<in> ids C \<Longrightarrow> ps_of C' j = (if j < int ?n then mc_pos (A ! nat j) else -1)" "j \<in> ids C \<Longrightarrow> sq_of C' j = (if j < int ?n then mc_seq_id (A ! nat j) else {})"
    "j \<in> ids C \<Longrightarrow> sr_of C' j = (if j < int ?n then j else -1)"
    "j \<in> ids C \<Longrightarrow> tl_of C' j \<noteq> -1 \<Longrightarrow> 0 \<le> tl_of C' j \<and> tl_of C' j < int ?n \<and> j \<in> mc_seq_id (A ! nat (tl_of C' j))"
    "k < ?n \<Longrightarrow> j \<in> mc_seq_id (A ! k) \<Longrightarrow> j \<in> ids C \<Longrightarrow> tl_of C' j = int k" for k j
    using P unfolding packed_def C'_def by (auto simp: keepc_fields)
  have a: "length A \<le> length C" using A by (simp add: packable_def)
  have d: "0 \<le> mc_pos (A ! nat j) \<and> mc_seq_id (A ! nat j) \<noteq> {} \<and> mc_seq_id (A ! nat j) \<subseteq> ids C" if "j \<in> ids C" "j < int ?n" for j
  proof -
    have "nat j < ?n" using that by auto
    from packableD(2-4)[OF A this] show ?thesis by simp
  qed
  show "cells_ok C'"
  proof (rule cells_okI; unfold len)
    fix j assume j: "j \<in> ids C"
    show "tl_of C' j = -1 \<or> tl_of C' j \<in> ids C" using p(4)[OF j] a by auto
    show "tl_of C' j \<noteq> -1 \<Longrightarrow> j \<in> sq_of C' (tl_of C' j)" using p(4)[OF j] p(2)[of "tl_of C' j"] a by auto
    show "sr_of C' j = -1 \<or> sr_of C' j = j" using p(3)[OF j] by simp
    show "sq_of C' j = {} \<Longrightarrow> ps_of C' j = -1" "sq_of C' j \<noteq> {} \<Longrightarrow> 0 \<le> ps_of C' j \<and> sr_of C' j = j" using p(1-3)[OF j] d[OF j] by (auto split: if_splits)
    show "q \<in> ids C \<and> tl_of C' q = j" if "q \<in> sq_of C' j" for q
    proof -
      have jn: "j < int ?n" "q \<in> mc_seq_id (A ! nat j)" using that p(2)[OF j] by (auto split: if_splits)
      then have q: "q \<in> ids C" using d[OF j] by blast
      have "tl_of C' q = int (nat j)" by (rule p(5)[OF _ jn(2) q]) (use jn(1) j in auto)
      then show ?thesis using q j by simp
    qed
  qed
  show "fresh C' = {}" using p(2,3) d unfolding fresh_def len by (auto split: if_splits)
  show "busy C' = {..<?n}"
  proof (rule set_eqI)
    fix i
    show "i \<in> busy C' \<longleftrightarrow> i \<in> {..<?n}"
      using p(2)[of "int i"] d[of "int i"] a unfolding busy_iff len by (cases "i < ?n") auto
  qed
  show "rec_at C' q = None" if "\<And>i. i < length A \<Longrightarrow> q \<notin> mc_seq_id (A ! i)"
  proof -
    have "tl_of C' q = -1" if q: "q \<in> ids C"
    proof (rule ccontr)
      assume "tl_of C' q \<noteq> -1"
      from p(4)[OF q this] have "nat (tl_of C' q) < ?n" "q \<in> mc_seq_id (A ! nat (tl_of C' q))" by auto
      then show False using \<open>\<And>i. i < length A \<Longrightarrow> q \<notin> mc_seq_id (A ! i)\<close> by blast
    qed
    then show ?thesis unfolding rec_at_def len by auto
  qed
  assume i: "i < ?n" "q \<in> mc_seq_id (A ! i)"
  have q: "q \<in> ids C" using packableD(4)[OF A i(1)] i(2) by auto
  show "rec_at C' q = Some (mc_pos (A ! i), int i)" using p(5)[OF i q] p(1)[of "int i"] i(1) a q unfolding rec_at_def len by auto
qed

lemma saved_packable:
  assumes a: "rec_ok a" and n: "rs_size a \<le> n"
  defines "cs \<equiv> rec_saved_cells (-1) (rs_cells a)"
  shows "packable n (map (\<lambda>i. rs_cells a ! i) cs)" "\<forall>i \<in> set cs. i < rs_size a" "length cs \<le> rs_size a"
    "rec_at (rs_cells a) q = Some (p, t) \<Longrightarrow> \<exists>i < length cs. cs ! i = nat t \<and> q \<in> mc_seq_id (rs_cells a ! (cs ! i)) \<and> mc_pos (rs_cells a ! (cs ! i)) = p"
    "i < length cs \<Longrightarrow> q \<in> mc_seq_id (rs_cells a ! (cs ! i)) \<Longrightarrow> rec_at (rs_cells a) q = Some (mc_pos (rs_cells a ! (cs ! i)), int (cs ! i))"
proof -
  let ?C = "rs_cells a"
  note o = rec_okD[OF a]
  have sv: "rec_saved (-1) (?C ! i) \<longleftrightarrow> mc_seq_id (?C ! i) \<noteq> {}" if "i < length ?C" for i
    using cells_okD(2)[OF o(5), of "int i"] that by (auto simp: rec_saved_def mc_is_empty_def has_seq_id_def)
  have cs: "cs = filter (\<lambda>i. mc_seq_id (?C ! i) \<noteq> {}) [0..<rs_size a]" unfolding cs_def rec_saved_cells_def o(4)[symmetric] by (rule filter_cong) (auto simp: sv)
  show lt: "\<forall>i \<in> set cs. i < rs_size a" by (simp add: cs)
  show len: "length cs \<le> rs_size a" unfolding cs by (rule order_trans[OF length_filter_le]) simp
  have dist: "distinct cs" by (simp add: cs)
  have own: "int i \<in> ids ?C \<and> 0 \<le> mc_pos (?C ! i) \<and> mc_seq_id (?C ! i) \<noteq> {} \<and> mc_seq_id (?C ! i) \<subseteq> ids ?C" if "i \<in> set cs" for i
    using that cells_okD(2,6)[OF o(5), of "int i"] o(4) by (simp add: cs)
  have tl: "tl_of ?C q = int i" if "i \<in> set cs" "q \<in> mc_seq_id (?C ! i)" for i q
    using cells_okD(3)[OF o(5), of "int i" q] own[OF that(1)] that(2) by auto
  show "packable n (map (\<lambda>i. ?C ! i) cs)"
    unfolding packable_def
  proof (intro conjI ballI allI impI)
    show "length (map ((!) ?C) cs) \<le> n" using len n by simp
    show "0 \<le> mc_pos c" "mc_seq_id c \<noteq> {}" "mc_seq_id c \<subseteq> {0..<int n}" if "c \<in> set (map ((!) ?C) cs)" for c
      using that own o(4) n by fastforce+
    show "mc_seq_id (map ((!) ?C) cs ! i) \<inter> mc_seq_id (map ((!) ?C) cs ! k) = {}" if "i < length (map ((!) ?C) cs)" "k < length (map ((!) ?C) cs)" "i \<noteq> k" for i k
    proof -
      have "cs ! i \<noteq> cs ! k" using dist that by (simp add: nth_eq_iff_index_eq)
      moreover have "cs ! i \<in> set cs" "cs ! k \<in> set cs" using that by simp_all
      ultimately have "mc_seq_id (?C ! (cs ! i)) \<inter> mc_seq_id (?C ! (cs ! k)) = {}" using tl by (metis disjoint_iff of_nat_eq_iff)
      then show ?thesis using that by simp
    qed
  qed
  show "rec_at ?C q = Some (mc_pos (?C ! (cs ! i)), int (cs ! i))" if i: "i < length cs" "q \<in> mc_seq_id (?C ! (cs ! i))"
    using tl[OF nth_mem[OF i(1)] i(2)] own[OF nth_mem[OF i(1)]] i(2) by (auto simp: rec_at_def)
  assume at: "rec_at ?C q = Some (p, t)"
  have q: "q \<in> ids ?C" "tl_of ?C q = t" "ps_of ?C t = p" "t \<in> ids ?C" using at rec_at_mem[OF o(5) at] by (auto simp: rec_at_def split: if_splits)
  have "q \<in> sq_of ?C t" using cells_okD(3)[OF o(5) q(4,1)] q(2) by simp
  moreover from this have "nat t \<in> set cs" using q(4) o(4) by (auto simp: cs)
  ultimately show "\<exists>i < length cs. cs ! i = nat t \<and> q \<in> mc_seq_id (?C ! (cs ! i)) \<and> mc_pos (?C ! (cs ! i)) = p"
    using q(3) by (metis in_set_conv_nth)
qed

section \<open>The whole memory\<close>

lemma rec_clear_tensors:
  assumes "tensors_ok tt Z m"
  shows "tensors_ok tt {} (rec_clear True m)" "rec_same_layout m (rec_clear True m)"
proof -
  have f: "rs_hparams (rec_clear True m) = rs_hparams m" "rs_size (rec_clear True m) = rs_size m"
    "rs_r_l (rec_clear True m) = zero_tensors (rs_r_l m)" "rs_s_l (rec_clear True m) = zero_tensors (rs_s_l m)"
    by (simp_all add: rec_clear_def Let_def)
  have sz: "r_size_row tt (rec_clear True m) = r_size_row tt m" "s_size_row tt (rec_clear True m) = s_size_row tt m"
    by (simp_all add: r_size_row_def s_size_row_def fun_eq_iff f)
  have z: "rs_layer_ok g n {} (map_option (\<lambda>(ty, bs). (ty, map (\<lambda>_. 0) bs)) l)" if "rs_layer_ok g n Z l" for g n l
    using that by (auto simp: rs_layer_ok_def split: option.splits)
  show "tensors_ok tt {} (rec_clear True m)" using assms z unfolding tensors_ok_def f sz by (auto simp: zero_tensors_def)
  show "rec_same_layout m (rec_clear True m)" unfolding rec_same_layout_def f by (auto simp: zero_tensors_def option.map_comp comp_def split_beta intro!: option.map_cong)
qed

text \<open>
  C34.  Saving a whole recurrent memory and restoring it into one with the same layers and at least as many
  cells ends without a failed assertion or an exception, uses up exactly the bytes written, gives a well-formed memory,
  and every sequence has the position and the rows it had in the saved memory; nothing of the old contents is left.
\<close>

theorem rec_state_roundtrip:
  assumes "rec_mem_ok tt a" "rec_mem_ok tt m" "rec_same_layout a m" "rs_size a \<le> rs_size m"
    and "\<forall>q p t. rec_at (rs_cells a) q = Some (p, t) \<longrightarrow> p \<le> INT32_MAX"
  shows "\<exists>chunks m'. rec_state_write tt (-1) a = Some chunks \<and> rec_state_read tt (-1) (m, concat chunks @ bs) = Inr ((), m', bs) \<and>
    rec_mem_ok tt m' \<and> rec_states tt m' = rec_states tt a"
proof -
  have oka: "rec_ok a" "tensors_ok tt (fresh (rs_cells a)) a" and okm: "rec_ok m" "tensors_ok tt (fresh (rs_cells m)) m"
    using assms(1,2) by (simp_all add: rec_mem_ok_def)
  let ?Ca = "rs_cells a" and ?m0 = "rec_clear True m"
  define cs where "cs = rec_saved_cells (-1) ?Ca"
  define A where "A = map (\<lambda>i. ?Ca ! i) cs"
  note sv = saved_packable[OF oka(1) assms(4), folded cs_def]
  have n: "length A = length cs" by (simp add: A_def)
  note c0 = rec_clear_ok[OF okm(1), of True] and t0 = rec_clear_tensors[OF okm(2)]
  note o0 = rec_okD[OF c0(1)]
  have len0: "length (rs_cells ?m0) = rs_size m" using o0(4) c0(3) by simp
  have A: "packable (length (rs_cells ?m0)) A" unfolding len0 A_def by (rule sv(1))
  have P0: "packed A 0 (rs_cells ?m0)" by (auto simp: packed_def rec_clear_def Let_def)
  have pos: "\<forall>c \<in> set A. mc_pos c \<le> INT32_MAX"
  proof
    fix c assume "c \<in> set A"
    then obtain i where i: "i < length cs" "c = ?Ca ! (cs ! i)" by (auto simp: A_def in_set_conv_nth)
    then obtain q where "q \<in> mc_seq_id c" using packableD(3)[OF A, of i] n by (auto simp: A_def)
    then show "mc_pos c \<le> INT32_MAX" using sv(5)[OF i(1), of q] i(2) assms(5)[rule_format, of q] by simp
  qed
  have big: "length (rs_cells ?m0) < 2 ^ 30" using rec_okD(2)[OF okm(1)] len0 by simp
  let ?C = "pack A (length A) (rs_cells ?m0)" and ?C' = "keepc (length A) (pack A (length A) (rs_cells ?m0))"
  have P: "packed A (length A) ?C" "length ?C = rs_size m" using pack_packed[OF A P0 order_refl] len0 by auto
  have A': "packable (length ?C) A" using A P(2) len0 by simp
  note fin = finished_pack[OF A' P(1)]
  have len': "length ?C' = rs_size m" using P(2) by (simp add: keepc_def)
  let ?m1 = "?m0\<lparr>rs_cells := ?C', rs_head := 0, rs_used := word_of_nat (length A)\<rparr>"
  have small: "length cs \<le> rs_size m" using sv(3) assms(4) by simp
  have meta: "rec_read_meta (length cs) (-1) (m, concat (map (\<lambda>i. concat (rec_write_cell (-1) (?Ca ! i))) cs) @ bs) = Inr (True, ?m1, bs)" for bs
  proof -
    have "keep_src (length A) (?m0\<lparr>rs_cells := ?C, rs_head := 0, rs_used := word_of_nat (length A)\<rparr>) = Some ?m1"
      using keep_src_run[of "?m0\<lparr>rs_cells := ?C, rs_head := 0, rs_used := word_of_nat (length A)\<rparr>" "length A"] P(2) small n big len0 by simp
    moreover have "concat (map (\<lambda>c. concat (rec_write_cell (-1) c)) A) = concat (map (\<lambda>i. concat (rec_write_cell (-1) (?Ca ! i))) cs)" by (simp add: A_def comp_def)
    ultimately show ?thesis using rec_read_cells_run[OF A P0 big pos, of bs] small
      by (simp add: rec_read_meta_def rec_read_meta_all_def io_rec_def io_simps n)
  qed
  have o1: "rec_ok ?m1" using fin(1,3) len' o0(1,2) c0(3) by (simp add: rec_ok_def)
  have f1: "rs_hparams ?m1 = rs_hparams ?m0" "rs_size ?m1 = rs_size ?m0" "rs_r_l ?m1 = rs_r_l ?m0" "rs_s_l ?m1 = rs_s_l ?m0" by simp_all
  have t1: "tensors_ok tt {} ?m1" "rec_same_layout a ?m1" using t0 assms(3) tensors_cong(3,4)[OF f1] by (simp_all add: rec_same_layout_def)
  have h: "rs_head ?m1 + length cs \<le> rs_size ?m1" using small c0(3) by simp
  let ?m2 = "restored tt cs a ?m1"
  note rd = rec_read_data_ok[OF oka(2) t1 sv(2) h, of bs] and ro = restored_ok[OF oka(2) t1 sv(2) h, of "{}"]
  obtain chunks where w: "rec_state_write tt (-1) a = Some chunks" "concat chunks = put_u32 (length cs) @
    concat (map (\<lambda>i. concat (rec_write_cell (-1) (?Ca ! i))) cs) @ rec_data_bytes tt a cs" using rec_state_write_ok[OF assms(1), of "-1"] unfolding cs_def by blast
  have "length cs < 2 ^ 32" using small big len0 by simp
  then have run: "rec_state_read tt (-1) (m, concat chunks @ bs) = Inr ((), ?m2, bs)"
    using rd meta[of "rec_data_bytes tt a cs @ bs"] w(2) by (simp add: rec_state_read_def u32.bind_put io_simps)
  have ok: "rec_mem_ok tt ?m2" using ro(1) o1 fin(2) by (simp add: rec_mem_ok_def)
  have "rec_states tt ?m2 q = rec_states tt a q" for q
  proof (cases "rec_at ?Ca q")
    case None
    then have "q \<notin> mc_seq_id (A ! i)" if "i < length A" for i using sv(5)[of i q] that n by (auto simp: A_def)
    then have "rec_at ?C' q = None" by (rule fin(5))
    then show ?thesis using None by (simp add: rec_states_def)
  next
    case (Some e)
    obtain p t where e: "e = (p, t)" by (cases e)
    from sv(4)[of q p t] Some e obtain i where i: "i < length cs" "cs ! i = nat t" "q \<in> mc_seq_id (A ! i)" "mc_pos (A ! i) = p" by (auto simp: A_def)
    have "rec_at ?C' q = Some (p, int i)" using fin(4)[of i q] i n by simp
    then show ?thesis using ro(3)[of i] i(1,2) Some e by (simp add: rec_states_def)
  qed
  then show ?thesis using w(1) run ok by blast
qed

section \<open>Evaluation\<close>

theorem rec_state_roundtrip_witness:
  "\<exists>chunks m'. rec_state_write demo_traits (-1) demo_rec_mem = Some chunks \<and> rec_state_read demo_traits (-1) (demo_rec_mem, concat chunks @ []) = Inr ((), m', []) \<and>
    rec_states demo_traits m' 0 = Some (5, [Some [30]], [Some [70]]) \<and> rec_states demo_traits m' 3 = Some (7, [Some [40]], [Some [80]])"
proof -
  have "\<forall>q p t. rec_at (rs_cells demo_rec_mem) q = Some (p, t) \<longrightarrow> p \<le> INT32_MAX"
  proof (intro allI impI)
    fix q p t assume "rec_at (rs_cells demo_rec_mem) q = Some (p, t)"
    then have "q \<in> ids demo_cells" "rec_at demo_cells q = Some (p, t)" by (auto simp: demo_rec_mem_ok(3) rec_at_def split: if_splits)
    moreover from this(1) have "q = 0 \<or> q = 1 \<or> q = 2 \<or> q = 3" by (auto simp: demo_cells_def)
    ultimately show "p \<le> INT32_MAX" using demo_rec_at by (auto simp: INT32_MAX_def)
  qed
  from rec_state_roundtrip[OF demo_rec_mem_ok(1,1,2) order_refl this, of "[]"] demo_rec_mem_ok(5,6) show ?thesis by auto
qed

end
