(* ===== verification/Hybrid.thy ===== *)
theory Hybrid
  imports Kv_Iswa Rec_State
begin

text \<open>
  The hybrid memories \<^verbatim>\<open>src/llama-memory-hybrid.cpp\<close> and \<^verbatim>\<open>src/llama-memory-hybrid-iswa.cpp\<close>: an attention cache for
  the attention layers and a recurrent memory for the others, behind one interface.  The second differs
  from the first in its attention cache, which is the pair of caches of \<^verbatim>\<open>llama_kv_cache_iswa\<close>.
\<close>

unbundle bit_operations_syntax

section \<open>Attention cache and recurrent memory\<close>

record llama_memory_hybrid =
  hy_hparams :: llama_hparams
  hy_mem_attn :: llama_kv_cache
  hy_mem_recr :: llama_memory_recurrent

text \<open>The layer filters: the given one, or by the kind of the layer.\<close>

definition hybrid_filter_attn :: "llama_hparams \<Rightarrow> (nat \<Rightarrow> bool) option \<Rightarrow> nat \<Rightarrow> bool option" where
  "hybrid_filter_attn hp flt il = (case flt of None \<Rightarrow> map_option Not (is_recurrent hp il) | Some f \<Rightarrow> Some (f il))"

definition hybrid_filter_recr :: "llama_hparams \<Rightarrow> (nat \<Rightarrow> bool) option \<Rightarrow> nat \<Rightarrow> bool" where
  "hybrid_filter_recr hp flt il = (case flt of None \<Rightarrow> is_recurrent hp il = Some True | Some f \<Rightarrow> f il)"

definition hybrid_new :: "traits \<Rightarrow> llama_hparams \<Rightarrow> bool \<Rightarrow> bool \<Rightarrow> nat \<Rightarrow> nat \<Rightarrow> nat \<Rightarrow> llama_swa_type \<Rightarrow> int \<Rightarrow> int \<Rightarrow> nat \<Rightarrow> nat \<Rightarrow> bool \<Rightarrow>
    (nat \<Rightarrow> bool) option \<Rightarrow> (nat \<Rightarrow> bool) option \<Rightarrow> ((nat \<Rightarrow> bool option) \<Rightarrow> nat \<Rightarrow> cell_data list list) \<Rightarrow> llama_memory_hybrid option" where
  "hybrid_new tt hp can_shift v_trans kv_size n_pad n_swa swa_type type_r type_s mem_size n_seq_max unified filter_attn filter_recr alloc = do {
     attn \<leftarrow> kv_new hp can_shift v_trans unified kv_size n_seq_max n_pad n_swa swa_type (alloc (hybrid_filter_attn hp filter_attn) kv_size);
     recr \<leftarrow> rec_new tt hp type_r type_s mem_size n_seq_max (Some (hybrid_filter_recr hp filter_recr));
     Some \<lparr>hy_hparams = hp, hy_mem_attn = attn, hy_mem_recr = recr\<rparr>
   }"

definition hybrid_get_can_shift :: "llama_memory_hybrid \<Rightarrow> bool" where
  "hybrid_get_can_shift h = kv_can_shift (hy_mem_attn h)"

definition hybrid_clear :: "bool \<Rightarrow> llama_memory_hybrid \<Rightarrow> llama_memory_hybrid" where
  "hybrid_clear data h = h\<lparr>hy_mem_attn := kv_clear data (hy_mem_attn h), hy_mem_recr := rec_clear data (hy_mem_recr h)\<rparr>"

definition hybrid_seq_rm :: "llama_seq_id \<Rightarrow> llama_pos \<Rightarrow> llama_pos \<Rightarrow> llama_memory_hybrid \<Rightarrow> (llama_memory_hybrid \<times> bool) option" where
  "hybrid_seq_rm seq_id p0 p1 h = do {
     (recr, ok) \<leftarrow> rec_seq_rm seq_id p0 p1 (hy_mem_recr h);
     let h = h\<lparr>hy_mem_recr := recr\<rparr>;
     if \<not> ok then Some (h, False)
     else do {
       (attn, ok) \<leftarrow> kv_seq_rm seq_id p0 p1 (hy_mem_attn h);
       Some (h\<lparr>hy_mem_attn := attn\<rparr>, ok)
     }
   }"

text \<open>The operations that act on both memories and return nothing, the attention cache first.\<close>

definition hybrid_both :: "(llama_kv_cache \<Rightarrow> llama_kv_cache option) \<Rightarrow> (llama_memory_recurrent \<Rightarrow> llama_memory_recurrent option) \<Rightarrow>
    llama_memory_hybrid \<Rightarrow> llama_memory_hybrid option" where
  "hybrid_both f g h = do {
     attn \<leftarrow> f (hy_mem_attn h);
     recr \<leftarrow> g (hy_mem_recr h);
     Some (h\<lparr>hy_mem_attn := attn, hy_mem_recr := recr\<rparr>)
   }"

definition hybrid_seq_cp :: "llama_seq_id \<Rightarrow> llama_seq_id \<Rightarrow> llama_pos \<Rightarrow> llama_pos \<Rightarrow> llama_memory_hybrid \<Rightarrow> llama_memory_hybrid option" where
  "hybrid_seq_cp src dst p0 p1 = hybrid_both (kv_seq_cp src dst p0 p1) (rec_seq_cp src dst p0 p1)"

definition hybrid_seq_keep :: "llama_seq_id \<Rightarrow> llama_memory_hybrid \<Rightarrow> llama_memory_hybrid option" where
  "hybrid_seq_keep seq_id = hybrid_both (kv_seq_keep seq_id) (\<lambda>m. Some (rec_seq_keep seq_id m))"

definition hybrid_seq_add :: "llama_seq_id \<Rightarrow> llama_pos \<Rightarrow> llama_pos \<Rightarrow> llama_pos \<Rightarrow> llama_memory_hybrid \<Rightarrow> llama_memory_hybrid option" where
  "hybrid_seq_add seq_id p0 p1 shift = hybrid_both (kv_seq_add seq_id p0 p1 shift) (rec_seq_add seq_id p0 p1 shift)"

definition hybrid_seq_div :: "llama_seq_id \<Rightarrow> llama_pos \<Rightarrow> llama_pos \<Rightarrow> int \<Rightarrow> llama_memory_hybrid \<Rightarrow> llama_memory_hybrid option" where
  "hybrid_seq_div seq_id p0 p1 d = hybrid_both (kv_seq_div seq_id p0 p1 d) (rec_seq_div seq_id p0 p1 d)"

definition hybrid_seq_pos_min :: "llama_seq_id \<Rightarrow> llama_memory_hybrid \<Rightarrow> llama_pos option" where
  "hybrid_seq_pos_min seq_id h = map_option (\<lambda>p. max p (rec_seq_pos_min seq_id (hy_mem_recr h))) (kv_seq_pos_min seq_id (hy_mem_attn h))"

definition hybrid_seq_pos_max :: "llama_seq_id \<Rightarrow> llama_memory_hybrid \<Rightarrow> llama_pos option" where
  "hybrid_seq_pos_max seq_id h = map_option (\<lambda>p. min p (rec_seq_pos_max seq_id (hy_mem_recr h))) (kv_seq_pos_max seq_id (hy_mem_attn h))"

section \<open>Contexts\<close>

text \<open>\<open>'c\<close> is the type of the context of the attention cache; the contexts are null in one that only carries a status.\<close>

record 'c hybrid_context =
  hc_i_next :: nat
  hc_ubatches :: "llama_ubatch list"
  hc_attn :: "'c option"
  hc_recr :: "llama_memory_recurrent_context option"
  hc_status :: llama_memory_status

definition hybrid_context_status :: "llama_memory_status \<Rightarrow> 'c hybrid_context" where
  "hybrid_context_status st = \<lparr>hc_i_next = 0, hc_ubatches = [], hc_attn = None, hc_recr = None, hc_status = st\<rparr>"

definition hybrid_context_of :: "llama_ubatch list \<Rightarrow> 'c \<Rightarrow> llama_memory_status \<Rightarrow> llama_memory_recurrent_context \<Rightarrow> 'c hybrid_context" where
  "hybrid_context_of ubatches attn attn_status recr = \<lparr>hc_i_next = 0, hc_ubatches = ubatches, hc_attn = Some attn, hc_recr = Some recr,
     hc_status = llama_memory_status_combine attn_status (rc_status recr)\<rparr>"

definition hybrid_init_full :: "llama_memory_hybrid \<Rightarrow> llama_kv_cache_context hybrid_context" where
  "hybrid_init_full h = (let attn = context_full (hy_mem_attn h) in hybrid_context_of [] attn (kc_status attn) rec_init_full)"

definition hybrid_init_update :: "llama_memory_hybrid \<Rightarrow> llama_memory_hybrid \<times> llama_kv_cache_context hybrid_context" where
  "hybrid_init_update h =
     (let (attn, ctx) = init_update (hy_mem_attn h) in (h\<lparr>hy_mem_attn := attn\<rparr>, hybrid_context_of [] ctx (kc_status ctx) rec_init_update))"

definition hybrid_context_batch :: "slot_info list \<Rightarrow> llama_ubatch list \<Rightarrow> llama_kv_cache_context hybrid_context" where
  "hybrid_context_batch sinfos_attn ubatches =
     (let attn = context_batch sinfos_attn ubatches in hybrid_context_of ubatches attn (kc_status attn) (rec_context_batch ubatches))"

definition hybrid_init_batch :: "llama_batch_allocr \<Rightarrow> nat \<Rightarrow> bool \<Rightarrow> llama_memory_hybrid \<Rightarrow>
    (llama_batch_allocr \<times> llama_memory_hybrid \<times> llama_kv_cache_context hybrid_context) option" where
  "hybrid_init_batch balloc n_ubatch embd_all h = do {
     let balloc = split_reset balloc;
     (balloc, ubatches) \<leftarrow> split_all (allocr_get_n_tokens balloc + 1)
       (if embd_all then split_seq n_ubatch else split_equal n_ubatch True) balloc [];
     if allocr_get_n_used balloc < allocr_get_n_tokens balloc then
       Some (balloc, h, hybrid_context_status LLAMA_MEMORY_STATUS_FAILED_PREPARE)
     else do {
       (recr, ok) \<leftarrow> rec_prepare ubatches (hy_mem_recr h);
       let h = h\<lparr>hy_mem_recr := recr\<rparr>;
       if \<not> ok then Some (balloc, h, hybrid_context_status LLAMA_MEMORY_STATUS_FAILED_PREPARE)
       else do {
         (attn, heads_attn) \<leftarrow> prepare ubatches (hy_mem_attn h);
         let h = h\<lparr>hy_mem_attn := attn\<rparr>;
         Some (balloc, h, if heads_attn = [] then hybrid_context_status LLAMA_MEMORY_STATUS_FAILED_PREPARE
           else hybrid_context_batch heads_attn ubatches)
       }
     }
   }"

definition hybrid_context_next :: "llama_kv_cache_context hybrid_context \<Rightarrow> (llama_kv_cache_context hybrid_context \<times> bool) option" where
  "hybrid_context_next hc = do {
     require (hc_status hc = LLAMA_MEMORY_STATUS_SUCCESS);
     attn \<leftarrow> hc_attn hc;
     recr \<leftarrow> hc_recr hc;
     (attn, _) \<leftarrow> context_next attn;
     (recr, _) \<leftarrow> rec_context_next recr;
     let i_next = hc_i_next hc + 1;
     Some (hc\<lparr>hc_attn := Some attn, hc_recr := Some recr, hc_i_next := i_next\<rparr>, \<not> i_next \<ge> length (hc_ubatches hc))
   }"

definition hybrid_context_apply :: "(llama_kv_cache \<Rightarrow> cell_data list list option) \<Rightarrow> llama_kv_cache_context hybrid_context \<Rightarrow> llama_memory_hybrid \<Rightarrow>
    (llama_kv_cache_context hybrid_context \<times> llama_memory_hybrid \<times> bool) option" where
  "hybrid_context_apply shift_graph hc h = do {
     require (\<not> llama_memory_status_is_fail (hc_status hc));
     attn \<leftarrow> hc_attn hc;
     recr \<leftarrow> hc_recr hc;
     (attn, mem_attn, res0) \<leftarrow> context_apply shift_graph attn (hy_mem_attn h);
     (mem_recr, res1) \<leftarrow> rec_context_apply recr (hy_mem_recr h);
     Some (hc\<lparr>hc_attn := Some attn\<rparr>, h\<lparr>hy_mem_attn := mem_attn, hy_mem_recr := mem_recr\<rparr>, res0 \<and> res1)
   }"

definition hybrid_context_get_ubatch :: "'c hybrid_context \<Rightarrow> llama_ubatch option" where
  "hybrid_context_get_ubatch hc = do {
     require (hc_status hc = LLAMA_MEMORY_STATUS_SUCCESS);
     require (hc_i_next hc < length (hc_ubatches hc));
     Some (hc_ubatches hc ! hc_i_next hc)
   }"

section \<open>Saving and restoring\<close>

definition hybrid_state_write :: "traits \<Rightarrow> llama_seq_id \<Rightarrow> u32 \<Rightarrow> kv_mem \<times> llama_memory_recurrent \<Rightarrow> byte list list option" where
  "hybrid_state_write tt seq_id flags = (\<lambda>(attn, recr). do {
     cs0 \<leftarrow> (if flags AND LLAMA_STATE_SEQ_FLAGS_PARTIAL_ONLY = 0 then state_write tt seq_id attn else Some []);
     cs1 \<leftarrow> rec_state_write tt seq_id recr;
     Some (cs0 @ cs1)
   })"

definition hybrid_state_read :: "traits \<Rightarrow> llama_seq_id \<Rightarrow> u32 \<Rightarrow> (kv_mem \<times> llama_memory_recurrent, unit) io" where
  "hybrid_state_read tt seq_id flags =
     io_bind (if flags AND LLAMA_STATE_SEQ_FLAGS_PARTIAL_ONLY = 0 then io_first (state_read tt seq_id) else io_return True) (\<lambda>_.
       io_second (rec_state_read tt seq_id))"

section \<open>With a sliding-window attention cache\<close>

record llama_memory_hybrid_iswa =
  hi_hparams :: llama_hparams
  hi_mem_attn :: llama_kv_cache_iswa
  hi_mem_recr :: llama_memory_recurrent

definition hybrid_iswa_new :: "traits \<Rightarrow> llama_hparams \<Rightarrow> bool \<Rightarrow> bool \<Rightarrow> bool \<Rightarrow> u32 \<Rightarrow> u32 \<Rightarrow> u32 \<Rightarrow> int \<Rightarrow> int \<Rightarrow> nat \<Rightarrow> u32 \<Rightarrow> bool \<Rightarrow>
    (nat \<Rightarrow> bool) option \<Rightarrow> (nat \<Rightarrow> bool) option \<Rightarrow> ((nat \<Rightarrow> bool option) \<Rightarrow> u32 \<Rightarrow> cell_data list list) \<Rightarrow> llama_memory_hybrid_iswa option" where
  "hybrid_iswa_new tt hp can_shift v_trans swa_full kv_size n_ubatch n_pad type_r type_s mem_size n_seq_max unified filter_attn filter_recr alloc = do {
     attn \<leftarrow> iswa_new hp can_shift v_trans swa_full unified kv_size n_seq_max n_ubatch n_pad
       (Some (\<lambda>il. hybrid_filter_attn hp filter_attn il = Some True)) alloc;
     recr \<leftarrow> rec_new tt hp type_r type_s mem_size (unat n_seq_max) (Some (hybrid_filter_recr hp filter_recr));
     Some \<lparr>hi_hparams = hp, hi_mem_attn = attn, hi_mem_recr = recr\<rparr>
   }"

definition hybrid_iswa_get_can_shift :: "llama_memory_hybrid_iswa \<Rightarrow> bool" where
  "hybrid_iswa_get_can_shift h = iswa_get_can_shift (hi_mem_attn h)"

definition hybrid_iswa_clear :: "bool \<Rightarrow> llama_memory_hybrid_iswa \<Rightarrow> llama_memory_hybrid_iswa" where
  "hybrid_iswa_clear data h = h\<lparr>hi_mem_attn := iswa_clear data (hi_mem_attn h), hi_mem_recr := rec_clear data (hi_mem_recr h)\<rparr>"

definition hybrid_iswa_seq_rm :: "llama_seq_id \<Rightarrow> llama_pos \<Rightarrow> llama_pos \<Rightarrow> llama_memory_hybrid_iswa \<Rightarrow> (llama_memory_hybrid_iswa \<times> bool) option" where
  "hybrid_iswa_seq_rm seq_id p0 p1 h = do {
     (recr, ok) \<leftarrow> rec_seq_rm seq_id p0 p1 (hi_mem_recr h);
     let h = h\<lparr>hi_mem_recr := recr\<rparr>;
     if \<not> ok then Some (h, False)
     else do {
       (attn, ok) \<leftarrow> iswa_seq_rm seq_id p0 p1 (hi_mem_attn h);
       Some (h\<lparr>hi_mem_attn := attn\<rparr>, ok)
     }
   }"

definition hybrid_iswa_both :: "(llama_kv_cache_iswa \<Rightarrow> llama_kv_cache_iswa option) \<Rightarrow> (llama_memory_recurrent \<Rightarrow> llama_memory_recurrent option) \<Rightarrow>
    llama_memory_hybrid_iswa \<Rightarrow> llama_memory_hybrid_iswa option" where
  "hybrid_iswa_both f g h = do {
     attn \<leftarrow> f (hi_mem_attn h);
     recr \<leftarrow> g (hi_mem_recr h);
     Some (h\<lparr>hi_mem_attn := attn, hi_mem_recr := recr\<rparr>)
   }"

definition hybrid_iswa_seq_cp :: "llama_seq_id \<Rightarrow> llama_seq_id \<Rightarrow> llama_pos \<Rightarrow> llama_pos \<Rightarrow> llama_memory_hybrid_iswa \<Rightarrow> llama_memory_hybrid_iswa option" where
  "hybrid_iswa_seq_cp src dst p0 p1 = hybrid_iswa_both (iswa_seq_cp src dst p0 p1) (rec_seq_cp src dst p0 p1)"

definition hybrid_iswa_seq_keep :: "llama_seq_id \<Rightarrow> llama_memory_hybrid_iswa \<Rightarrow> llama_memory_hybrid_iswa option" where
  "hybrid_iswa_seq_keep seq_id = hybrid_iswa_both (iswa_seq_keep seq_id) (\<lambda>m. Some (rec_seq_keep seq_id m))"

definition hybrid_iswa_seq_add :: "llama_seq_id \<Rightarrow> llama_pos \<Rightarrow> llama_pos \<Rightarrow> llama_pos \<Rightarrow> llama_memory_hybrid_iswa \<Rightarrow> llama_memory_hybrid_iswa option" where
  "hybrid_iswa_seq_add seq_id p0 p1 shift = hybrid_iswa_both (iswa_seq_add seq_id p0 p1 shift) (rec_seq_add seq_id p0 p1 shift)"

definition hybrid_iswa_seq_div :: "llama_seq_id \<Rightarrow> llama_pos \<Rightarrow> llama_pos \<Rightarrow> int \<Rightarrow> llama_memory_hybrid_iswa \<Rightarrow> llama_memory_hybrid_iswa option" where
  "hybrid_iswa_seq_div seq_id p0 p1 d = hybrid_iswa_both (iswa_seq_div seq_id p0 p1 d) (rec_seq_div seq_id p0 p1 d)"

definition hybrid_iswa_seq_pos_min :: "llama_seq_id \<Rightarrow> llama_memory_hybrid_iswa \<Rightarrow> llama_pos option" where
  "hybrid_iswa_seq_pos_min seq_id h = map_option (\<lambda>p. max p (rec_seq_pos_min seq_id (hi_mem_recr h))) (iswa_seq_pos_min seq_id (hi_mem_attn h))"

definition hybrid_iswa_seq_pos_max :: "llama_seq_id \<Rightarrow> llama_memory_hybrid_iswa \<Rightarrow> llama_pos option" where
  "hybrid_iswa_seq_pos_max seq_id h = map_option (\<lambda>p. min p (rec_seq_pos_max seq_id (hi_mem_recr h))) (iswa_seq_pos_max seq_id (hi_mem_attn h))"

definition hybrid_iswa_init_full :: "llama_memory_hybrid_iswa \<Rightarrow> llama_kv_cache_iswa_context hybrid_context" where
  "hybrid_iswa_init_full h = (let attn = iswa_init_full (hi_mem_attn h) in hybrid_context_of [] attn (ic_status attn) rec_init_full)"

definition hybrid_iswa_init_update :: "llama_memory_hybrid_iswa \<Rightarrow> llama_memory_hybrid_iswa \<times> llama_kv_cache_iswa_context hybrid_context" where
  "hybrid_iswa_init_update h =
     (let (attn, ctx) = iswa_init_update (hi_mem_attn h) in (h\<lparr>hi_mem_attn := attn\<rparr>, hybrid_context_of [] ctx (ic_status ctx) rec_init_update))"

definition hybrid_iswa_context_batch :: "slot_info list \<Rightarrow> slot_info list \<Rightarrow> llama_ubatch list \<Rightarrow> llama_kv_cache_iswa_context hybrid_context" where
  "hybrid_iswa_context_batch sinfos_base sinfos_swa ubatches =
     (let attn = iswa_context_batch sinfos_base sinfos_swa ubatches in hybrid_context_of ubatches attn (ic_status attn) (rec_context_batch ubatches))"

definition hybrid_iswa_init_batch :: "llama_batch_allocr \<Rightarrow> nat \<Rightarrow> bool \<Rightarrow> llama_memory_hybrid_iswa \<Rightarrow>
    (llama_batch_allocr \<times> llama_memory_hybrid_iswa \<times> llama_kv_cache_iswa_context hybrid_context) option" where
  "hybrid_iswa_init_batch balloc n_ubatch embd_all h = do {
     let balloc = split_reset balloc;
     (balloc, ubatches) \<leftarrow> split_all (allocr_get_n_tokens balloc + 1)
       (if embd_all then split_seq n_ubatch else split_equal n_ubatch True) balloc [];
     if allocr_get_n_used balloc < allocr_get_n_tokens balloc then
       Some (balloc, h, hybrid_context_status LLAMA_MEMORY_STATUS_FAILED_PREPARE)
     else do {
       (recr, ok) \<leftarrow> rec_prepare ubatches (hi_mem_recr h);
       let h = h\<lparr>hi_mem_recr := recr\<rparr>;
       if \<not> ok then Some (balloc, h, hybrid_context_status LLAMA_MEMORY_STATUS_FAILED_PREPARE)
       else do {
         (base, sinfos_base) \<leftarrow> prepare ubatches (is_kv_base (hi_mem_attn h));
         let h = h\<lparr>hi_mem_attn := (hi_mem_attn h)\<lparr>is_kv_base := base\<rparr>\<rparr>;
         if sinfos_base = [] then Some (balloc, h, hybrid_context_status LLAMA_MEMORY_STATUS_FAILED_PREPARE)
         else do {
           (swa, sinfos_swa) \<leftarrow> prepare ubatches (is_kv_swa (hi_mem_attn h));
           let h = h\<lparr>hi_mem_attn := (hi_mem_attn h)\<lparr>is_kv_swa := swa\<rparr>\<rparr>;
           Some (balloc, h, if sinfos_swa = [] then hybrid_context_status LLAMA_MEMORY_STATUS_FAILED_PREPARE
             else hybrid_iswa_context_batch sinfos_base sinfos_swa ubatches)
         }
       }
     }
   }"

definition hybrid_iswa_context_next :: "llama_kv_cache_iswa_context hybrid_context \<Rightarrow> (llama_kv_cache_iswa_context hybrid_context \<times> bool) option" where
  "hybrid_iswa_context_next hc = do {
     require (hc_status hc = LLAMA_MEMORY_STATUS_SUCCESS);
     attn \<leftarrow> hc_attn hc;
     recr \<leftarrow> hc_recr hc;
     (attn, _) \<leftarrow> iswa_context_next attn;
     (recr, _) \<leftarrow> rec_context_next recr;
     let i_next = hc_i_next hc + 1;
     Some (hc\<lparr>hc_attn := Some attn, hc_recr := Some recr, hc_i_next := i_next\<rparr>, \<not> i_next \<ge> length (hc_ubatches hc))
   }"

definition hybrid_iswa_context_apply :: "(llama_kv_cache \<Rightarrow> cell_data list list option) \<Rightarrow> llama_kv_cache_iswa_context hybrid_context \<Rightarrow> llama_memory_hybrid_iswa \<Rightarrow>
    (llama_kv_cache_iswa_context hybrid_context \<times> llama_memory_hybrid_iswa \<times> bool) option" where
  "hybrid_iswa_context_apply shift_graph hc h = do {
     require (\<not> llama_memory_status_is_fail (hc_status hc));
     attn \<leftarrow> hc_attn hc;
     recr \<leftarrow> hc_recr hc;
     (attn, mem_attn, res0) \<leftarrow> iswa_context_apply shift_graph attn (hi_mem_attn h);
     (mem_recr, res1) \<leftarrow> rec_context_apply recr (hi_mem_recr h);
     Some (hc\<lparr>hc_attn := Some attn\<rparr>, h\<lparr>hi_mem_attn := mem_attn, hi_mem_recr := mem_recr\<rparr>, res0 \<and> res1)
   }"

definition hybrid_iswa_state_write :: "traits \<Rightarrow> llama_seq_id \<Rightarrow> u32 \<Rightarrow> (kv_mem \<times> kv_mem) \<times> llama_memory_recurrent \<Rightarrow> byte list list option" where
  "hybrid_iswa_state_write tt seq_id flags = (\<lambda>(attn, recr). do {
     cs0 \<leftarrow> iswa_state_write tt seq_id flags attn;
     cs1 \<leftarrow> rec_state_write tt seq_id recr;
     Some (cs0 @ cs1)
   })"

definition hybrid_iswa_state_read :: "traits \<Rightarrow> llama_seq_id \<Rightarrow> u32 \<Rightarrow> ((kv_mem \<times> kv_mem) \<times> llama_memory_recurrent, unit) io" where
  "hybrid_iswa_state_read tt seq_id flags = io_bind (io_first (iswa_state_read tt seq_id flags)) (\<lambda>_. io_second (rec_state_read tt seq_id))"

end
