(* ===== verification/Rec_Decode.thy ===== *)
theory Rec_Decode
  imports Kv_Decode Rec_Graph
begin

text \<open>
  The path of a batch through a recurrent memory: \<^verbatim>\<open>init\<close> accepts it against the positions the memory
  reports, \<^verbatim>\<open>init_batch\<close> splits it into ubatches of equally long runs, and the loop of
  \<^verbatim>\<open>llama_context::decode\<close> applies them.  The sequences are followed by a table of positions: the memory
  \<open>follows\<close> a table if it holds, for every sequence, a state at the last of its positions.
\<close>

section \<open>Following positions\<close>

definition last_state :: "llama_pos set \<Rightarrow> (llama_pos \<times> int) option \<Rightarrow> bool" where
  "last_state P e = (case e of None \<Rightarrow> P = {} | Some (p, t) \<Rightarrow> finite P \<and> P \<noteq> {} \<and> p = Max P)"

definition follows :: "(llama_seq_id \<Rightarrow> bool) \<Rightarrow> (llama_seq_id \<Rightarrow> llama_pos set) \<Rightarrow> llama_memory_recurrent \<Rightarrow> bool" where
  "follows V P m \<longleftrightarrow> rec_ok m \<and> (\<forall>q. V q \<longrightarrow> last_state (P q) (rec_at (rs_cells m) q))"

lemma last_state_simps [simp]:
  "last_state P None \<longleftrightarrow> P = {}" "last_state P (Some (p, t)) \<longleftrightarrow> finite P \<and> P \<noteq> {} \<and> p = Max P"
  by (simp_all add: last_state_def)

lemma followsD:
  assumes "follows V P m"
  shows "rec_ok m" "V q \<Longrightarrow> last_state (P q) (rec_at (rs_cells m) q)"
  using assms by (auto simp: follows_def)

lemma follows_pos_max:
  assumes "follows V P m" "V q"
  shows "rec_seq_pos_max q m = (if P q = {} then -1 else Max (P q))"
  using followsD(2)[OF assms] rec_seq_pos_ok(1)[OF followsD(1)[OF assms(1)], of q] by (cases "rec_at (rs_cells m) q") auto

text \<open>Every memory follows the table of the positions it holds states at.\<close>

definition state_positions :: "llama_memory_recurrent \<Rightarrow> llama_seq_id \<Rightarrow> llama_pos set" where
  "state_positions m q = (case rec_at (rs_cells m) q of None \<Rightarrow> {} | Some (p, t) \<Rightarrow> {p})"

lemma follows_states: "rec_ok m \<Longrightarrow> follows (\<lambda>_. True) (state_positions m) m"
  by (auto simp: follows_def state_positions_def split: option.splits)

text \<open>
  The tokens of a ubatch continue the sequences they belong to: the last token of a set has the greatest
  position its sequences then have.
\<close>

definition continues :: "(llama_seq_id \<Rightarrow> llama_pos set) \<Rightarrow> llama_ubatch \<Rightarrow> bool" where
  "continues P u \<longleftrightarrow>
     (\<forall>s < u_n_seqs u. \<forall>q \<in> set (set_ids u s). set_last_pos u s \<in> ubatch_positions u q \<and>
        (\<forall>p \<in> P q \<union> ubatch_positions u q. p \<le> set_last_pos u s)) \<and>
     (\<forall>q. q \<notin> batch_ids u \<longrightarrow> ubatch_positions u q = {})"

lemma finite_ubatch_positions [simp]: "finite (ubatch_positions u q)"
proof -
  have "ubatch_positions u q = (\<lambda>i. u_pos u ! i) ` {i. i < u_n_tokens u \<and> q \<in> set (token_ids u i)}" by (auto simp: ubatch_positions_def)
  then show ?thesis by simp
qed

lemma find_slot_follows:
  assumes m: "follows V P m" and u: "rec_ubatch_ok u (rs_size m)" and c: "continues P u"
  shows "\<exists>m'. rec_find_slot u m = Some (m', True) \<and> rs_size m' = rs_size m \<and> follows V (\<lambda>q. P q \<union> ubatch_positions u q) m'"
proof -
  note D = followsD[OF m]
  from rec_find_slot_ok[OF D(1) u] obtain m' where
    m': "rec_find_slot u m = Some (m', True)" "rec_ok m'" "rs_size m' = rs_size m"
    and R: "slot_result u (rs_cells m) (rs_z m') (int (rs_head m')) (int (unat (rs_n m'))) (rs_cells m')" by blast
  have "last_state (P q \<union> ubatch_positions u q) (rec_at (rs_cells m') q)" if q: "V q" for q
  proof (cases "q \<in> batch_ids u")
    case True
    then obtain s where s: "s < u_n_seqs u" "q \<in> set (set_ids u s)" by (auto simp: batch_ids_def)
    let ?P = "P q \<union> ubatch_positions u q"
    have "finite (P q)" using D(2)[OF q] by (cases "rec_at (rs_cells m) q") auto
    moreover have "set_last_pos u s \<in> ?P" "\<forall>p \<in> ?P. p \<le> set_last_pos u s" using c s by (auto simp: continues_def)
    ultimately have "Max ?P = set_last_pos u s" "?P \<noteq> {}" "finite ?P" by (auto intro!: Max_eqI)
    then show ?thesis using slot_resultD(7)[OF R s] by simp
  next
    case False
    then have "ubatch_positions u q = {}" using c by (simp add: continues_def)
    then show ?thesis using D(2)[OF q] slot_resultD(8,9)[OF R False] by (cases "rec_at (rs_cells m) q") auto
  qed
  then show ?thesis using m' by (auto simp: follows_def)
qed

section \<open>The pieces of an equal split\<close>

lemma split_equal_equal_seqs: "split_equal n s a = Some (a', u) \<Longrightarrow> u = ubatch_empty \<or> u_equal_seqs u"
  by (auto simp: split_equal_def ubatch_add_def ubatch_of_def Let_def split: if_splits Option.bind_splits prod.splits)

inductive pieces :: "llama_batch_allocr \<Rightarrow> llama_ubatch list \<Rightarrow> bool" where
  pieces_Nil: "pieces a []"
| pieces_Cons: "took a idxs u a' \<Longrightarrow> idxs \<noteq> [] \<Longrightarrow> equal_inv a' \<Longrightarrow> lockstep a idxs (u_n_seqs u) R \<Longrightarrow> u_equal_seqs u \<Longrightarrow> pieces a' us \<Longrightarrow> pieces a (u # us)"

lemma split_all_pieces:
  assumes "equal_inv a" "\<not> a_has_cpl a" "card (unused a) < fuel"
  shows "\<exists>a' ws. split_all fuel (split_equal n True) a us = Some (a', us @ ws) \<and> pieces a ws"
  using assms
proof (induction fuel arbitrary: a us)
  case (Suc fuel)
  from split_equal_took[OF Suc.prems(1), of True n] Suc.prems(2) obtain idxs u a' R where
    s: "split_equal n True a = Some (a', u)" "equal_inv a'" "\<not> a_has_cpl a'" "took a idxs u a'" "lockstep a idxs (u_n_seqs u) R" by auto
  note tu = took_unused[OF s(4)]
  show ?case
  proof (cases "idxs = []")
    case True
    then have "u_n_tokens u = 0" using took_n_tokens[OF s(4)] by simp
    then show ?thesis using s(1) by (intro exI[of _ a'] exI[of _ "[]"]) (simp add: pieces_Nil)
  next
    case False
    have ne: "u_n_tokens u \<noteq> 0" using took_n_tokens[OF s(4)] False by simp
    then have eq: "u_equal_seqs u" using split_equal_equal_seqs[OF s(1)] by auto
    have "unused a' \<subset> unused a" using tu False by (cases idxs) auto
    then have "card (unused a') < fuel" using Suc.prems(3) by (meson finite_unused less_Suc_eq_le order_less_le_trans psubset_card_mono)
    from Suc.IH[OF s(2,3) this, of "us @ [u]"] obtain b ws where
      "split_all fuel (split_equal n True) a' (us @ [u]) = Some (b, (us @ [u]) @ ws)" "pieces a' ws" by blast
    then show ?thesis using s(1) ne pieces_Cons[OF s(4) False s(2,5) eq] by (intro exI[of _ b] exI[of _ "u # ws"]) simp
  qed
qed simp

text \<open>
  What a piece is cut from: every token has one sequence, with an id below \<open>N\<close>, and the positions of a
  sequence increase in the order of the batch.
\<close>

abbreviation token_pos :: "llama_batch_allocr \<Rightarrow> nat \<Rightarrow> llama_pos" where
  "token_pos a i \<equiv> the (b_pos (a_batch a)) ! i"

definition pieces_from :: "nat \<Rightarrow> llama_batch_allocr \<Rightarrow> bool" where
  "pieces_from N a \<longleftrightarrow> 0 < a_n_pos_per_embd a \<and> equal_inv a \<and>
     (\<forall>i < b_n_tokens (a_batch a). a_seq_set a ! i = set (seq_ids (a_batch a) i) \<and> 0 \<le> token_pos a i \<and>
        (\<exists>q. seq_ids (a_batch a) i = [q] \<and> 0 \<le> q \<and> q < int N)) \<and>
     (\<forall>i j. i < j \<longrightarrow> j < b_n_tokens (a_batch a) \<longrightarrow> seq_ids (a_batch a) i = seq_ids (a_batch a) j \<longrightarrow> token_pos a i < token_pos a j)"

text \<open>The tokens that are left come after the positions \<open>P\<close>.\<close>

definition after :: "(llama_seq_id \<Rightarrow> llama_pos set) \<Rightarrow> llama_batch_allocr \<Rightarrow> bool" where
  "after P a \<longleftrightarrow> (\<forall>i \<in> unused a. \<forall>q \<in> set (seq_ids (a_batch a) i). \<forall>p \<in> P q. p < token_pos a i)"

lemma concat_uniform_nth:
  "s < length xss \<Longrightarrow> \<forall>xs \<in> set xss. length xs = R \<Longrightarrow> j < R \<Longrightarrow> concat xss ! (s * R + j) = xss ! s ! j"
proof (induction xss arbitrary: s)
  case (Cons xs xss)
  then show ?case by (cases s) (simp_all add: nth_append add.assoc)
qed simp

lemma took_pieces_from: "pieces_from N a \<Longrightarrow> took a idxs u a' \<Longrightarrow> equal_inv a' \<Longrightarrow> pieces_from N a'"
  by (auto simp: pieces_from_def took_def)

lemma ubatch_of_simps [simp]:
  "u_n_seqs (ubatch_of a idxs n e) = n" "u_n_seq_tokens (ubatch_of a idxs n e) = length idxs div n" "u_equal_seqs (ubatch_of a idxs n e) = e"
  by (simp_all add: ubatch_of_def Let_def split: prod.splits)

lemma length_ubatch_of_pos: "0 < a_n_pos_per_embd a \<Longrightarrow> length idxs \<le> length (u_pos (ubatch_of a idxs n e))"
proof -
  assume "0 < a_n_pos_per_embd a"
  then have "[0..<a_n_pos_per_embd a] = 0 # [1..<a_n_pos_per_embd a]" by (simp add: upt_conv_Cons)
  then show ?thesis by (simp add: ubatch_of_def Let_def split: prod.splits)
qed

lemma piece_facts:
  assumes a: "pieces_from N a" and t: "took a idxs u a'" "idxs \<noteq> []" and l: "lockstep a idxs (u_n_seqs u) R" and e: "u_equal_seqs u"
  obtains xss where "length xss = u_n_seqs u" "idxs = concat xss" "u_n_seq_tokens u = R" "0 < R" "0 < u_n_seqs u"
    "u = ubatch_of a idxs (u_n_seqs u) True"
    "\<And>s. s < u_n_seqs u \<Longrightarrow> length (xss ! s) = R \<and> sorted_wrt (<) (xss ! s) \<and> set (xss ! s) \<subseteq> unused a"
    "\<And>s i. s < u_n_seqs u \<Longrightarrow> i \<in> set (xss ! s) \<Longrightarrow> set_ids u s = seq_ids (a_batch a) i"
    "\<And>s r. s < u_n_seqs u \<Longrightarrow> r < u_n_seqs u \<Longrightarrow> s \<noteq> r \<Longrightarrow> set (set_ids u s) \<inter> set (set_ids u r) = {}"
    "\<And>s. s < u_n_seqs u \<Longrightarrow> set_last_pos u s = token_pos a (xss ! s ! (R - 1))"
proof -
  let ?k = "u_n_seqs u" and ?b = "a_batch a"
  note uf = ubatch_of_fields[of a] and np = a[unfolded pieces_from_def, THEN conjunct1]
  obtain n' e' where "u = ubatch_of a idxs n' e'" "n' \<noteq> 0" using t by (auto simp: took_def)
  then have u: "u = ubatch_of a idxs ?k True" and k: "0 < ?k" using e by auto
  from l obtain xss sets where x: "idxs = concat xss" "length xss = ?k" "length sets = ?k" "pairwise disjnt (set sets)" "distinct sets"
    "\<And>s. s < ?k \<Longrightarrow> length (xss ! s) = R \<and> sorted_wrt (<) (xss ! s) \<and> (\<forall>i \<in> set (xss ! s). a_seq_set a ! i = sets ! s)"
    unfolding lockstep_def by blast
  have len: "length idxs = ?k * R" by (rule lockstep_length[OF l])
  then have R: "0 < R" using t(2) by (cases R) auto
  have st: "u_n_seq_tokens u = R" using len k by (subst u) simp
  have all: "\<forall>xs \<in> set xss. length xs = R" using x(2,6) by (metis in_set_conv_nth)
  have nth: "idxs ! (s * R + j) = xss ! s ! j" if "s < ?k" "j < R" for s j unfolding x(1) using concat_uniform_nth[OF _ all] that x(2) by simp
  have lt: "s * R + j < length idxs" if "s < ?k" "j < R" for s j
  proof -
    have "s * R + j < Suc s * R" using that by simp
    also have "\<dots> \<le> ?k * R" using that(1) by (intro mult_right_mono) auto
    finally show ?thesis by (simp add: len)
  qed
  have un: "set (xss ! s) \<subseteq> unused a" if "s < ?k" for s
  proof -
    have "xss ! s \<in> set xss" using that x(2) by simp
    then show ?thesis using took_unused[OF t(1)] unfolding x(1) set_concat by blast
  qed
  have tok: "i < b_n_tokens ?b" if "s < ?k" "i \<in> set (xss ! s)" for s i
    using un[OF that(1)] that(2) a by (auto simp: unused_def pieces_from_def equal_inv_def alloc_ok_def)
  have one: "a_seq_set a ! i = set (seq_ids ?b i) \<and> (\<exists>q. seq_ids ?b i = [q])" if "i < b_n_tokens ?b" for i using a that by (auto simp: pieces_from_def)
  have h: "xss ! s ! 0 \<in> set (xss ! s)" if "s < ?k" for s using x(6)[OF that] R by simp
  have ids0: "set_ids u s = seq_ids ?b (xss ! s ! 0)" if s: "s < ?k" for s
    using ubatch_of_ids[OF np lt[OF s R], of ?k True] nth[OF s R] u st by (simp add: set_ids_def set_token_def token_ids_def)
  have ids: "set_ids u s = seq_ids ?b i" if s: "s < ?k" and i: "i \<in> set (xss ! s)" for s i
  proof -
    have "set (seq_ids ?b i) = set (seq_ids ?b (xss ! s ! 0))" using one[OF tok[OF s i]] one[OF tok[OF s h[OF s]]] x(6)[OF s] i h[OF s] by metis
    then show ?thesis using ids0[OF s] one[OF tok[OF s i]] one[OF tok[OF s h[OF s]]] by auto
  qed
  have ss: "set (set_ids u s) = sets ! s" if s: "s < ?k" for s
    using ids0[OF s] one[OF tok[OF s h[OF s]]] x(6)[OF s] h[OF s] by metis
  have dj: "set (set_ids u s) \<inter> set (set_ids u r) = {}" if "s < ?k" "r < ?k" "s \<noteq> r" for s r
    using x(4) nth_eq_iff_index_eq[OF x(5), of s r] that x(3) by (auto simp: ss pairwise_def disjnt_def)
  have lp: "set_last_pos u s = token_pos a (xss ! s ! (R - 1))" if s: "s < ?k" for s
    using ubatch_of_fields(4)[OF np lt[OF s, of "R - 1"], of ?k True] nth[OF s, of "R - 1"] R u st by (simp add: set_last_pos_def set_token_def)
  show ?thesis by (rule that[OF x(2,1) st R k u _ ids dj lp]) (use x(6) un in auto)
qed

lemma piece_rec_ok:
  assumes a: "pieces_from N a" and t: "took a idxs u a'" "idxs \<noteq> []" and l: "lockstep a idxs (u_n_seqs u) R" and e: "u_equal_seqs u"
    and P: "after P a"
  shows "rec_ubatch_ok u N" "continues P u"
proof -
  let ?k = "u_n_seqs u" and ?b = "a_batch a"
  obtain xss where x: "length xss = ?k" "idxs = concat xss" "u_n_seq_tokens u = R" "0 < R" "0 < ?k" and u: "u = ubatch_of a idxs ?k True"
    and run: "\<And>s. s < ?k \<Longrightarrow> length (xss ! s) = R \<and> sorted_wrt (<) (xss ! s) \<and> set (xss ! s) \<subseteq> unused a"
    and ids: "\<And>s i. s < ?k \<Longrightarrow> i \<in> set (xss ! s) \<Longrightarrow> set_ids u s = seq_ids ?b i"
    and dj: "\<And>s r. s < ?k \<Longrightarrow> r < ?k \<Longrightarrow> s \<noteq> r \<Longrightarrow> set (set_ids u s) \<inter> set (set_ids u r) = {}"
    and lp: "\<And>s. s < ?k \<Longrightarrow> set_last_pos u s = token_pos a (xss ! s ! (R - 1))"
    by (rule piece_facts[OF a t l e]) (rule that)
  have np: "0 < a_n_pos_per_embd a" using a by (simp add: pieces_from_def)
  have tok: "i < b_n_tokens ?b" if "i \<in> unused a" for i using that a by (auto simp: unused_def pieces_from_def equal_inv_def alloc_ok_def)
  have fact: "0 \<le> token_pos a i \<and> (\<exists>q. seq_ids ?b i = [q] \<and> 0 \<le> q \<and> q < int N)" if "i < b_n_tokens ?b" for i using a that by (simp add: pieces_from_def)
  have inc: "token_pos a i < token_pos a j" if "i < j" "j < b_n_tokens ?b" "seq_ids ?b i = seq_ids ?b j" for i j using a that by (auto simp: pieces_from_def)
  have lst: "xss ! s ! (R - 1) \<in> set (xss ! s)" if "s < ?k" for s using run[OF that] x(4) by simp
  have "set_ids u s \<noteq> [] \<and> distinct (set_ids u s) \<and> set (set_ids u s) \<subseteq> {0..<int N} \<and> 0 \<le> set_last_pos u s" if s: "s < ?k" for s
  proof -
    have "xss ! s ! (R - 1) \<in> unused a" using run[OF s] lst[OF s] by blast
    from fact[OF tok[OF this]] show ?thesis using ids[OF s lst[OF s]] lp[OF s] by auto
  qed
  moreover have "?k * R \<le> length (u_pos u)" using length_ubatch_of_pos[OF np, of idxs ?k True] lockstep_length[OF l] u by simp
  ultimately show "rec_ubatch_ok u N" using e x(3-5) dj by (simp add: rec_ubatch_ok_def)
  have pos: "ubatch_positions u q = {token_pos a i |i. i \<in> set idxs \<and> q \<in> set (seq_ids ?b i)}" for q by (subst u) (rule ubatch_of_positions[OF np])
  have where_i: "\<exists>s < ?k. i \<in> set (xss ! s)" if "i \<in> set idxs" for i using that x(1,2) by (auto simp: in_set_conv_nth[of _ xss])
  have mine: "i \<in> set (xss ! s)" if "s < ?k" "q \<in> set (set_ids u s)" "i \<in> set idxs" "q \<in> set (seq_ids ?b i)" for i s q
    using where_i[OF that(3)] ids dj that by (metis disjoint_iff)
  have le: "token_pos a i \<le> set_last_pos u s" if s: "s < ?k" and i: "i \<in> set (xss ! s)" for s i
  proof (cases "i = xss ! s ! (R - 1)")
    case False
    obtain j where j: "j < R" "i = xss ! s ! j" using i run[OF s] by (auto simp: in_set_conv_nth)
    then have "i < xss ! s ! (R - 1)" using run[OF s] False sorted_wrt_nth_less[of "(<)" "xss ! s" j "R - 1"] by (cases "j = R - 1") auto
    then show ?thesis using inc[of i "xss ! s ! (R - 1)"] tok run[OF s] lst[OF s] ids[OF s i] ids[OF s lst[OF s]] lp[OF s] by fastforce
  qed (simp add: lp[OF s])
  have "set_last_pos u s \<in> ubatch_positions u q \<and> (\<forall>p \<in> P q \<union> ubatch_positions u q. p \<le> set_last_pos u s)" if s: "s < ?k" and q: "q \<in> set (set_ids u s)" for s q
  proof (intro conjI ballI)
    have "xss ! s ! (R - 1) \<in> set idxs" using lst[OF s] nth_mem[of s xss] s x(1,2) by auto
    then show "set_last_pos u s \<in> ubatch_positions u q" unfolding pos using q ids[OF s lst[OF s]] lp[OF s] by auto
    fix p assume "p \<in> P q \<union> ubatch_positions u q"
    then show "p \<le> set_last_pos u s"
    proof
      assume "p \<in> P q"
      then show ?thesis using P run[OF s] lst[OF s] ids[OF s lst[OF s]] q lp[OF s] by (fastforce simp: after_def)
    next
      assume "p \<in> ubatch_positions u q"
      then show ?thesis using le[OF s] mine[OF s q] unfolding pos by auto
    qed
  qed
  moreover have "ubatch_positions u q = {}" if "q \<notin> batch_ids u" for q
    using that where_i ids unfolding pos batch_ids_def by fastforce
  ultimately show "continues P u" by (simp add: continues_def)
qed

lemma after_took:
  assumes a: "pieces_from N a" and t: "took a idxs u a'" and inv: "equal_inv a'" and P: "after P a"
    and pos: "\<And>q. Q q \<subseteq> P q \<union> {token_pos a i |i. i \<in> set idxs \<and> q \<in> set (seq_ids (a_batch a) i)}"
  shows "after Q a'"
  unfolding after_def
proof (intro ballI)
  fix i q p
  assume i: "i \<in> unused a'" and q: "q \<in> set (seq_ids (a_batch a') i)" and p: "p \<in> Q q"
  note tu = took_unused[OF t] and tb = took_batch[OF t]
  have sets: "a_seq_set a' = a_seq_set a" using t by (auto simp: took_def)
  from p pos consider "p \<in> P q" | j where "j \<in> set idxs" "q \<in> set (seq_ids (a_batch a) j)" "p = token_pos a j" by blast
  then show "p < token_pos a' i"
  proof cases
    case 1
    then show ?thesis using P i q tu tb by (auto simp: after_def)
  next
    case 2
    have n: "i < b_n_tokens (a_batch a)" "j < b_n_tokens (a_batch a)" and ij: "i \<noteq> j" "\<not> a_used a' ! i" "a_used a' ! j"
      using i 2(1) t a by (auto simp: unused_def took_def pieces_from_def equal_inv_def alloc_ok_def)
    have "\<exists>r. seq_ids (a_batch a) l = [r]" "a_seq_set a ! l = set (seq_ids (a_batch a) l)" if "l < b_n_tokens (a_batch a)" for l
      using a that by (auto simp: pieces_from_def)
    then have one: "seq_ids (a_batch a) i = [q]" "seq_ids (a_batch a) j = [q]" "a_seq_set a ! i = a_seq_set a ! j"
      using n q 2(2) tb by (metis empty_iff empty_set set_ConsD)+
    then have "\<not> i < j" using inv ij n tb by (auto simp: equal_inv_def sets)
    then show ?thesis using a n ij(1) one 2(3) tb by (auto simp: pieces_from_def)
  qed
qed

section \<open>Processing the ubatches\<close>

definition rec_replay :: "llama_ubatch list \<Rightarrow> llama_memory_recurrent \<Rightarrow> llama_memory_recurrent option" where
  "rec_replay = for_loop (\<lambda>u m. map_option fst (rec_find_slot u m))"

lemma pieces_replay:
  assumes "pieces a us" "pieces_from N a" "follows V P m" "N \<le> rs_size m" "after P a"
  shows "\<exists>m'. rec_replay us m = Some m' \<and> rec_prepare_loop us m = Some (m', True) \<and> rs_size m' = rs_size m \<and>
    follows V (\<lambda>q. P q \<union> (\<Union>u \<in> set us. ubatch_positions u q)) m'"
  using assms
proof (induction arbitrary: P m)
  case (pieces_Nil a)
  then show ?case by (simp add: rec_replay_def rec_prepare_loop_def)
next
  case (pieces_Cons a idxs u a' R us)
  note ok = piece_rec_ok[OF pieces_Cons.prems(1) pieces_Cons.hyps(1,2,4,5) pieces_Cons.prems(4)]
  have np: "0 < a_n_pos_per_embd a" using pieces_Cons.prems(1) by (simp add: pieces_from_def)
  have "rec_ubatch_ok u (rs_size m)" using ok(1) pieces_Cons.prems(3) by (force simp: rec_ubatch_ok_def)
  from find_slot_follows[OF pieces_Cons.prems(2) this ok(2)] obtain m1 where
    m1: "rec_find_slot u m = Some (m1, True)" "rs_size m1 = rs_size m" "follows V (\<lambda>q. P q \<union> ubatch_positions u q) m1" by blast
  obtain n e where "u = ubatch_of a idxs n e" using pieces_Cons.hyps(1,2) by (auto simp: took_def)
  then have "ubatch_positions u q = {token_pos a i |i. i \<in> set idxs \<and> q \<in> set (seq_ids (a_batch a) i)}" for q
    using ubatch_of_positions[OF np] by simp
  then have aft: "after (\<lambda>q. P q \<union> ubatch_positions u q) a'"
    by (intro after_took[OF pieces_Cons.prems(1) pieces_Cons.hyps(1,3) pieces_Cons.prems(4)]) simp
  have "N \<le> rs_size m1" using m1(2) pieces_Cons.prems(3) by simp
  from pieces_Cons.IH[OF took_pieces_from[OF pieces_Cons.prems(1) pieces_Cons.hyps(1,3)] m1(3) this aft] obtain m' where
    m': "rec_replay us m1 = Some m'" "rec_prepare_loop us m1 = Some (m', True)" "rs_size m' = rs_size m1"
      "follows V (\<lambda>q. P q \<union> ubatch_positions u q \<union> (\<Union>u \<in> set us. ubatch_positions u q)) m'" by blast
  have run: "rec_replay (u # us) m = Some m'" "rec_prepare_loop (u # us) m = Some (m', True)"
    using m1(1) m'(1,2) by (simp_all add: rec_replay_def rec_prepare_loop_def)
  show ?case using run m'(3,4) m1(2) by (intro exI[of _ m']) (simp add: Un_assoc)
qed

text \<open>\<^verbatim>\<open>prepare\<close> puts cells, count and head back, so the memory follows the same positions afterwards.\<close>

lemma rec_prepare_follows:
  assumes "rec_prepare_loop us m = Some (m1, True)" "rs_size m1 = rs_size m" "follows V P m"
  shows "\<exists>m'. rec_prepare us m = Some (m', True) \<and> follows V P m' \<and> rs_cells m' = rs_cells m \<and> rs_size m' = rs_size m"
  using assms by (auto simp: rec_prepare_def follows_def rec_ok_def)

lemma pieces_prepare:
  assumes "pieces a us" "pieces_from N a" "follows V P m" "N \<le> rs_size m" "after P a"
  shows "\<exists>m1 m'. rec_prepare us m = Some (m1, True) \<and> rs_cells m1 = rs_cells m \<and> rec_replay us m1 = Some m' \<and> rs_size m' = rs_size m \<and>
    follows V P m1 \<and> follows V (\<lambda>q. P q \<union> (\<Union>u \<in> set us. ubatch_positions u q)) m'"
proof -
  from pieces_replay[OF assms] obtain m0 where "rec_prepare_loop us m = Some (m0, True)" "rs_size m0 = rs_size m" by blast
  from rec_prepare_follows[OF this assms(3)] obtain m1 where
    m1: "rec_prepare us m = Some (m1, True)" "follows V P m1" "rs_cells m1 = rs_cells m" "rs_size m1 = rs_size m" by blast
  have "N \<le> rs_size m1" using m1(4) assms(4) by simp
  from pieces_replay[OF assms(1,2) m1(2) this assms(5)] m1 show ?thesis by auto
qed

text \<open>The loop of \<^verbatim>\<open>llama_context::decode\<close> as far as the memory is concerned.\<close>

fun rec_process :: "nat \<Rightarrow> llama_memory_recurrent_context \<Rightarrow> llama_memory_recurrent \<Rightarrow> llama_memory_recurrent option" where
  "rec_process 0 rc m = None"
| "rec_process (Suc fuel) rc m = do {
     (m, res) \<leftarrow> rec_context_apply rc m;
     require res;
     (rc, more) \<leftarrow> rec_context_next rc;
     if more then rec_process fuel rc m else Some m
   }"

lemma rec_process_replay:
  assumes "i < length us" "rc_status rc = LLAMA_MEMORY_STATUS_SUCCESS" "rc_ubatches rc = us" "rc_i_next rc = i"
  shows "rec_process (length us - i) rc m = rec_replay (drop i us) m"
  using assms
proof (induction "length us - i" arbitrary: i rc m)
  case (Suc n)
  have ne: "us \<noteq> []" using Suc.prems(1) by auto
  have d: "drop i us = us ! i # drop (Suc i) us" using Suc.prems(1) by (simp add: Cons_nth_drop_Suc)
  have n: "length us - i = Suc (length us - Suc i)" using Suc.prems(1) by simp
  have fail: "\<not> llama_memory_status_is_fail (rc_status rc)" using Suc.prems(2) by (simp add: llama_memory_status_is_fail_def)
  show ?case
  proof (cases "rec_find_slot (us ! i) m")
    case None
    then show ?thesis unfolding n d using Suc.prems ne fail by (simp add: rec_context_apply_def rec_replay_def)
  next
    case (Some r)
    let ?rc = "rc\<lparr>rc_i_next := Suc i\<rparr>"
    have step: "rec_process (length us - i) rc m = (if \<not> Suc i \<ge> length us then rec_process (length us - Suc i) ?rc (fst r) else Some (fst r))"
      unfolding n using Some Suc.prems ne fail by (cases r) (simp add: rec_context_apply_def rec_context_next_def Let_def)
    have rep: "rec_replay (drop i us) m = rec_replay (drop (Suc i) us) (fst r)" unfolding d using Some by (simp add: rec_replay_def)
    show ?thesis
    proof (cases "Suc i < length us")
      case True
      then show ?thesis using step rep Suc.hyps(1)[of "Suc i" ?rc "fst r"] Suc.hyps(2) Suc.prems by simp
    next
      case False
      then show ?thesis using step rep by (simp add: rec_replay_def)
    qed
  qed
qed simp

section \<open>Accepted batches\<close>

definition one_seq :: "llama_batch \<Rightarrow> bool" where
  "one_seq b \<longleftrightarrow> (\<forall>i < b_n_tokens b. length (seq_ids b i) = 1)"

definition increasing :: "llama_batch \<Rightarrow> bool" where
  "increasing b \<longleftrightarrow> (\<forall>i j. i < j \<longrightarrow> j < b_n_tokens b \<longrightarrow> seq_ids b i = seq_ids b j \<longrightarrow> the (b_pos b) ! i < the (b_pos b) ! j)"

lemma not_coupled:
  assumes "batch_init b n_vocab mem n_embd n_seq_max out_all a0 = Some (a, True)" "one_seq (a_batch a)"
  shows "\<not> a_has_cpl a"
proof -
  obtain b' where a: "a = split_reset (batch_stats n_embd n_seq_max ((allocr_clear a0)\<lparr>a_batch := batch_default_logits out_all b'\<rparr>))"
    using assms(1) by (auto simp: batch_init_def Let_def bind_eq_Some_conv split: if_splits)
  let ?b = "batch_default_logits out_all b'"
  have "a_batch a = ?b" by (simp add: a split_reset_def batch_stats_pos allocr_clear_def)
  then have len: "length (seq_ids ?b i) = 1" if "i < b_n_tokens ?b" for i using assms(2) that by (simp add: one_seq_def)
  have "a_has_cpl (fold (couple_step ?b) xs x) = a_has_cpl x" if "set xs \<subseteq> {0..<b_n_tokens ?b}" for xs x
    using that by (induction xs arbitrary: x) (auto simp: couple_step_def Let_def len)
  moreover have "a_has_cpl (fold (seq_set_step ?b) xs x) = a_has_cpl x" for xs x
    by (induction xs arbitrary: x) (auto simp: seq_set_step_def Let_def)
  ultimately show ?thesis by (simp add: a split_reset_def batch_stats_def Let_def split: prod.splits)
qed

lemma accepted_pieces:
  assumes i: "batch_init b n_vocab mem n_embd n_seq_max out_all a0 = Some (a, True)" and n: "0 < n_seq_max" "0 < a_n_pos_per_embd a0"
    and b: "tokens_ok (a_batch a)" "one_seq (a_batch a)" "increasing (a_batch a)"
  shows "pieces_from n_seq_max a"
    "\<exists>a' us ks. split_all (b_n_tokens (a_batch a) + 1) (split_equal n_ubatch True) a [] = Some (a', us) \<and> allocr_get_n_used a' = allocr_get_n_tokens a' \<and>
       covers a ks us \<and> distinct ks \<and> set ks = {0..<b_n_tokens (a_batch a)} \<and> pieces a us \<and> us \<noteq> []"
proof -
  note ids = batch_init_ids[OF i n(1)] and rd = batch_init_ready[OF i] and cpl = not_coupled[OF i b(2)]
  have inv: "equal_inv a" using split_ready_inv(3)[OF rd] b(1) by (auto simp: tokens_ok_def)
  note u = split_ready_unused[OF rd]
  have sets: "a_seq_set a ! i = set (seq_ids (a_batch a) i)" if "i < b_n_tokens (a_batch a)" for i using rd that by (simp add: split_ready_def)
  have "\<exists>q. seq_ids (a_batch a) i = [q] \<and> 0 \<le> q \<and> q < int n_seq_max" if j: "i < b_n_tokens (a_batch a)" for i
  proof -
    obtain q where "seq_ids (a_batch a) i = [q]" using b(2) j by (auto simp: one_seq_def length_Suc_conv)
    then show ?thesis using ids(1,2) j by (auto simp: ids_in_range_def)
  qed
  then show "pieces_from n_seq_max a" unfolding pieces_from_def using inv sets b(1,3) n(2) ids(4) by (auto simp: tokens_ok_def increasing_def)
  have o: "a_out_ids a = []" using rd by (simp add: split_ready_def)
  from equal.split_all_partition[of a True n_ubatch] inv cpl u o obtain a' us ks where
    s: "split_all (b_n_tokens (a_batch a) + 1) (split_equal n_ubatch True) a [] = Some (a', us)" "a_n_used a' = b_n_tokens (a_batch a)"
      "covers a ks us" "distinct ks" "set ks = {0..<b_n_tokens (a_batch a)}" "a_batch a' = a_batch a" by metis
  from split_all_pieces[OF inv cpl, of "b_n_tokens (a_batch a) + 1" n_ubatch "[]"] u s(1) have p: "pieces a us" by auto
  have "us \<noteq> []" using s(3,5) ids(5) by (auto simp: covers_def)
  then show "\<exists>a' us ks. split_all (b_n_tokens (a_batch a) + 1) (split_equal n_ubatch True) a [] = Some (a', us) \<and> allocr_get_n_used a' = allocr_get_n_tokens a' \<and>
       covers a ks us \<and> distinct ks \<and> set ks = {0..<b_n_tokens (a_batch a)} \<and> pieces a us \<and> us \<noteq> []"
    using s p unfolding allocr_get_n_used_def allocr_get_n_tokens_def by metis
qed

lemma accepted_after:
  assumes i: "batch_init b n_vocab (Some mv) n_embd n_seq_max out_all a0 = Some (a, True)" and n: "0 < n_seq_max" "a_n_pos_per_embd a0 = 1"
    and b: "tokens_ok (a_batch a)" and P: "\<And>q p. 0 \<le> q \<Longrightarrow> q < int n_seq_max \<Longrightarrow> p \<in> P q \<Longrightarrow> p \<le> mem_seq_pos_max mv q \<and> 0 \<le> mem_seq_pos_max mv q"
  shows "q \<in> set (seq_ids (a_batch a) j) \<Longrightarrow> j < b_n_tokens (a_batch a) \<Longrightarrow> p \<in> P q \<Longrightarrow> p < token_pos a j" "after P a"
proof -
  have lt: "p < token_pos a j" if q: "q \<in> set (seq_ids (a_batch a) j)" and j: "j < b_n_tokens (a_batch a)" and p: "p \<in> P q" for q j p
  proof -
    have r: "0 \<le> q" "q < int n_seq_max" using batch_init_ids(1,2)[OF i n(1)] q j by (auto simp: ids_in_range_def)
    let ?B = "batch_positions (a_batch a) q"
    have mem: "token_pos a j \<in> ?B" using q j by (auto simp: batch_positions_def)
    have "finite ?B" by (simp add: batch_positions_def)
    then have le: "Min ?B \<le> token_pos a j" using mem by simp
    from batch_init_accepted[OF i] obtain a1 where a1: "check_positions (Some mv) a1" "a_seq_pos a1 = batch_positions (a_batch a)"
      "a_n_pos_per_embd a1 = a_n_pos_per_embd a0" "a_n_seq_max a1 = n_seq_max" by blast
    have all: "\<forall>s \<in> set [0..<n_seq_max]. a_seq_pos a1 (int s) = {} \<or> (0 \<le> mem_seq_pos_max mv (int s) \<longrightarrow> allocr_seq_pos_min a1 (int s) = mem_seq_pos_max mv (int s) + 1)"
      using a1(1,3,4) n(2) by (auto simp: check_positions_def Let_def)
    have nq: "nat q \<in> set [0..<n_seq_max]" and ne: "?B \<noteq> {}" using r mem by auto
    have "Min ?B = mem_seq_pos_max mv q + 1" using bspec[OF all nq] r(1) ne P[OF r p] by (simp add: a1(2) allocr_seq_pos_min_def)
    then show ?thesis using le P[OF r p] by simp
  qed
  then show "q \<in> set (seq_ids (a_batch a) j) \<Longrightarrow> j < b_n_tokens (a_batch a) \<Longrightarrow> p \<in> P q \<Longrightarrow> p < token_pos a j" .
  show "after P a" unfolding after_def split_ready_unused[OF batch_init_ready[OF i]] using lt by auto
qed

section \<open>Decoding\<close>

text \<open>The positions a recurrent memory reports to \<^verbatim>\<open>llama_batch_allocr::init\<close>.\<close>

definition rec_view :: "llama_memory_recurrent \<Rightarrow> memory_view" where
  "rec_view m = \<lparr>mem_seq_pos_min = (\<lambda>q. rec_seq_pos_min q m), mem_seq_pos_max = (\<lambda>q. rec_seq_pos_max q m)\<rparr>"

text \<open>
  C35.  Decoding a batch with a recurrent memory, without embeddings for all tokens (\<^verbatim>\<open>embd_all = false\<close>, so that
  \<^verbatim>\<open>init_batch\<close> uses \<^verbatim>\<open>split_equal\<close>).  When \<^verbatim>\<open>init\<close> accepts the batch against the positions the memory reports,
  every token has one sequence and the positions of a sequence increase in the batch, \<^verbatim>\<open>init_batch\<close> and the processing of all ubatches succeed without a failed assertion; the memory stays
  consistent, ends at the last position the batch has in a sequence and keeps the position of every
  sequence that is not in the batch.
\<close>

theorem rec_decode:
  assumes "batch_init b n_vocab (Some (rec_view m)) n_embd n_seq_max output_all a0 = Some (a, True)" "0 < n_seq_max" "a_n_pos_per_embd a0 = 1"
    and "tokens_ok (a_batch a)" "one_seq (a_batch a)" "increasing (a_batch a)" and "rec_ok m" "n_seq_max \<le> rs_size m"
  shows "\<exists>a' m1 rc m'. rec_init_batch a n_ubatch False m = Some (a', m1, rc) \<and> rc_status rc = LLAMA_MEMORY_STATUS_SUCCESS \<and> rs_cells m1 = rs_cells m \<and>
    rec_process (length (rc_ubatches rc)) rc m1 = Some m' \<and> rec_ok m' \<and>
    (\<forall>q. rec_seq_pos_max q m' = (if batch_positions (a_batch a) q = {} then rec_seq_pos_max q m else Max (batch_positions (a_batch a) q)))"
proof -
  let ?P = "state_positions m" and ?B = "batch_positions (a_batch a)"
  have np: "0 < a_n_pos_per_embd a0" "0 < a_n_pos_per_embd a" using assms(3) batch_init_ids(4)[OF assms(1,2)] by simp_all
  note f = follows_states[OF assms(7)]
  have P: "p \<le> mem_seq_pos_max (rec_view m) q \<and> 0 \<le> mem_seq_pos_max (rec_view m) q" if "p \<in> ?P q" for q p
    using that rec_seq_pos_ok(1)[OF assms(7), of q] rec_at_nonneg[OF assms(7), of q] by (auto simp: state_positions_def rec_view_def split: option.splits)
  note aft = accepted_after[OF assms(1-4), of ?P, OF P]
  note pf = accepted_pieces(1)[OF assms(1,2) np(1) assms(4-6)]
  from accepted_pieces(2)[OF assms(1,2) np(1) assms(4-6), of n_ubatch] obtain a' us ks where
    sp: "split_all (b_n_tokens (a_batch a) + 1) (split_equal n_ubatch True) a [] = Some (a', us)" "allocr_get_n_used a' = allocr_get_n_tokens a'"
      "covers a ks us" "set ks = {0..<b_n_tokens (a_batch a)}" "pieces a us" "us \<noteq> []" by blast
  from pieces_prepare[OF sp(5) pf f assms(8) aft(2)] obtain m1 m' where
    p: "rec_prepare us m = Some (m1, True)" "rs_cells m1 = rs_cells m" "rec_replay us m1 = Some m'"
      "follows (\<lambda>_. True) (\<lambda>q. ?P q \<union> (\<Union>u \<in> set us. ubatch_positions u q)) m'" by blast
  have f': "follows (\<lambda>_. True) (\<lambda>q. ?P q \<union> ?B q) m'" using p(4) covers_positions(1)[OF np(2) sp(3,4)] by simp
  have run: "rec_init_batch a n_ubatch False m = Some (a', m1, rec_context_batch us)"
    using sp(1,2) p(1) split_ready_reset[OF batch_init_ready[OF assms(1)]]
    by (simp add: rec_init_batch_def Let_def allocr_get_n_tokens_def del: split_all.simps)
  have "rec_process (length us) (rec_context_batch us) m1 = Some m'"
    using rec_process_replay[of 0 us "rec_context_batch us" m1] sp(6) p(3) by (simp add: rec_context_batch_def rec_context_status_def)
  moreover have "rec_seq_pos_max q m' = (if ?B q = {} then rec_seq_pos_max q m else Max (?B q))" for q
  proof (cases "?B q = {}")
    case True
    then show ?thesis using follows_pos_max[OF f', of q] follows_pos_max[OF f, of q] by simp
  next
    case False
    have fin: "finite (?P q)" "finite (?B q)" by (auto simp: state_positions_def batch_positions_def split: option.splits)
    have "p < x" if "p \<in> ?P q" "x \<in> ?B q" for p x using aft(1) that by (auto simp: batch_positions_def)
    then have "Max (?P q \<union> ?B q) = Max (?B q)" using fin False by (intro Max_eqI) (auto intro: less_imp_le[OF less_le_trans[OF _ Max_ge]])
    then show ?thesis using follows_pos_max[OF f', of q] False by simp
  qed
  ultimately show ?thesis using run p(2) followsD(1)[OF f']
    by (intro exI[of _ a'] exI[of _ m1] exI[of _ "rec_context_batch us"] exI[of _ m']) (simp add: rec_context_batch_def rec_context_status_def)
qed

definition demo_rec_batch :: llama_batch where
  "demo_rec_batch = \<lparr>b_n_tokens = 4, b_token = Some [1, 2, 3, 4], b_embd = None, b_pos = None, b_n_seq_id = Some [1, 1, 1, 1],
     b_seq_id = Some [[0], [2], [0], [2]], b_logits = None\<rparr>"

lemma demo_rec_init:
  "case batch_init demo_rec_batch 10 (Some (rec_view demo_rec)) 4 4 False (allocr_new 1) of None \<Rightarrow> False
   | Some (a, r) \<Rightarrow> r \<and> b_n_tokens (a_batch a) = 4 \<and> map (seq_ids (a_batch a)) [0, 1, 2, 3] = [[0], [2], [0], [2]] \<and>
      the (b_pos (a_batch a)) = [6, 0, 7, 1] \<and> the (b_n_seq_id (a_batch a)) = [1, 1, 1, 1] \<and> map length (the (b_seq_id (a_batch a))) = [1, 1, 1, 1]"
  by code_simp

lemma demo_rec_accepted:
  obtains a where "batch_init demo_rec_batch 10 (Some (rec_view demo_rec)) 4 4 False (allocr_new 1) = Some (a, True)"
    "tokens_ok (a_batch a)" "one_seq (a_batch a)" "increasing (a_batch a)"
    "batch_positions (a_batch a) 0 = {6, 7}" "batch_positions (a_batch a) 2 = {0, 1}" "batch_positions (a_batch a) 1 = {}" "batch_positions (a_batch a) 3 = {}"
proof -
  from demo_rec_init obtain a where a: "batch_init demo_rec_batch 10 (Some (rec_view demo_rec)) 4 4 False (allocr_new 1) = Some (a, True)"
    and b: "b_n_tokens (a_batch a) = 4" "seq_ids (a_batch a) 0 = [0]" "seq_ids (a_batch a) 1 = [2]" "seq_ids (a_batch a) 2 = [0]" "seq_ids (a_batch a) 3 = [2]"
      "the (b_pos (a_batch a)) = [6, 0, 7, 1]" "the (b_n_seq_id (a_batch a)) = [1, 1, 1, 1]" and l: "map length (the (b_seq_id (a_batch a))) = [1, 1, 1, 1]"
    by (auto split: option.splits prod.splits)
  have four: "i < 4 \<longleftrightarrow> i = 0 \<or> i = 1 \<or> i = 2 \<or> i = 3" for i :: nat by auto
  have "length (the (b_seq_id (a_batch a)) ! i) = 1" if "i < 4" for i
  proof -
    have "length (the (b_seq_id (a_batch a))) = 4" using arg_cong[OF l, of length] by simp
    then show ?thesis using arg_cong[OF l, of "\<lambda>xs. xs ! i"] that by (auto simp: four)
  qed
  then have "tokens_ok (a_batch a)" unfolding tokens_ok_def b(1) using b(2-7) by (auto simp: four)
  moreover have "one_seq (a_batch a)" unfolding one_seq_def b(1) using b(2-5) by (auto simp: four)
  moreover have "increasing (a_batch a)" unfolding increasing_def b(1) using b(2-6) by (auto simp: four less_Suc_eq numeral_2_eq_2 numeral_3_eq_3)
  moreover have "batch_positions (a_batch a) q = (\<lambda>i. the (b_pos (a_batch a)) ! i) ` {i \<in> {0, 1, 2, 3}. q \<in> set (seq_ids (a_batch a) i)}" for q
    unfolding batch_positions_def b(1) four by blast
  moreover have "{i \<in> {0, 1, 2, 3}. q \<in> set (seq_ids (a_batch a) i)} = (if q = 0 then {0, 2} else if q = 2 then {1, 3} else {})" for q
    using b(2-5) by (auto intro!: gr0I)
  ultimately show ?thesis using a that b(6) by simp
qed

theorem rec_decode_witness:
  "\<exists>a a' m1 rc m'. batch_init demo_rec_batch 10 (Some (rec_view demo_rec)) 4 4 False (allocr_new 1) = Some (a, True) \<and>
    rec_init_batch a 2 False demo_rec = Some (a', m1, rc) \<and> rec_process (length (rc_ubatches rc)) rc m1 = Some m' \<and>
    rec_seq_pos_max 0 m' = 7 \<and> rec_seq_pos_max 1 m' = 5 \<and> rec_seq_pos_max 2 m' = 1 \<and> rec_seq_pos_max 3 m' = 7"
proof -
  obtain a where a: "batch_init demo_rec_batch 10 (Some (rec_view demo_rec)) 4 4 False (allocr_new 1) = Some (a, True)"
    "tokens_ok (a_batch a)" "one_seq (a_batch a)" "increasing (a_batch a)"
    and p: "batch_positions (a_batch a) 0 = {6, 7}" "batch_positions (a_batch a) 2 = {0, 1}" "batch_positions (a_batch a) 1 = {}" "batch_positions (a_batch a) 3 = {}"
    by (rule demo_rec_accepted)
  have s: "(4::nat) \<le> rs_size demo_rec" "a_n_pos_per_embd (allocr_new 1) = 1" by (simp_all add: demo_rec_def allocr_new_def)
  have m: "rec_seq_pos_max 1 demo_rec = 5" "rec_seq_pos_max 3 demo_rec = 7" by code_simp+
  from rec_decode[OF a(1) _ s(2) a(2-4) demo_rec_ok s(1), of 2] obtain a' m1 rc m' where
    r: "rec_init_batch a 2 False demo_rec = Some (a', m1, rc)" "rec_process (length (rc_ubatches rc)) rc m1 = Some m'"
    and q: "\<forall>q. rec_seq_pos_max q m' = (if batch_positions (a_batch a) q = {} then rec_seq_pos_max q demo_rec else Max (batch_positions (a_batch a) q))" by auto
  have "rec_seq_pos_max 0 m' = 7" "rec_seq_pos_max 1 m' = 5" "rec_seq_pos_max 2 m' = 1" "rec_seq_pos_max 3 m' = 7"
    using q[rule_format, of 0] q[rule_format, of 1] q[rule_format, of 2] q[rule_format, of 3] m by (simp_all add: p)
  then show ?thesis using a(1) r by blast
qed

end
