(* ===== verification/Hybrid_Ops.thy ===== *)
theory Hybrid_Ops
  imports Hybrid Rec_Decode Kv_Swa
begin

text \<open>
  The two halves of a hybrid memory in step: for every sequence the recurrent memory holds the state at
  the last position that the attention cache holds, and no state for a sequence without positions.  The
  model computes with both halves for the same tokens, so this is what keeps them about the same prefix.
  The locale \<open>paired_op\<close> is the contract of an operation on one cache and one recurrent memory; what
  \<^verbatim>\<open>llama_memory_hybrid\<close> and \<^verbatim>\<open>llama_memory_hybrid_iswa\<close> make of such an operation follows from it.
\<close>

section \<open>In step\<close>

definition in_step :: "nat \<Rightarrow> llama_kv_cache \<Rightarrow> llama_memory_recurrent \<Rightarrow> bool" where
  "in_step sz a m \<longleftrightarrow> kv_ok sz a \<and> follows (kv_seq_ok a) (kv_positions a) m"

definition hybrid_ok :: "nat \<Rightarrow> llama_memory_hybrid \<Rightarrow> bool" where
  "hybrid_ok sz h \<longleftrightarrow> in_step sz (hy_mem_attn h) (hy_mem_recr h)"

definition hybrid_iswa_ok :: "nat \<Rightarrow> nat \<Rightarrow> llama_memory_hybrid_iswa \<Rightarrow> bool" where
  "hybrid_iswa_ok sz0 sz1 h \<longleftrightarrow> in_step sz0 (is_kv_base (hi_mem_attn h)) (hi_mem_recr h) \<and> in_step sz1 (is_kv_swa (hi_mem_attn h)) (hi_mem_recr h)"

lemma in_stepD:
  assumes "in_step sz a m"
  shows "kv_ok sz a" "rec_ok m" "kv_seq_ok a q \<Longrightarrow> last_state (kv_positions a q) (rec_at (rs_cells m) q)"
  using assms by (auto simp: in_step_def follows_def)

lemma finite_kv_positions [simp]: "finite (kv_positions kv q)"
proof -
  have "seq_positions V s = v_pos ` {v \<in> set V. s \<in> v_seq v}" for V s by (auto simp: seq_positions_def)
  then show ?thesis by (simp add: kv_positions_def)
qed

text \<open>What no operation changes: the streams, the sequences, the kind of window and the number of states.\<close>

definition same_config :: "llama_kv_cache \<Rightarrow> llama_memory_recurrent \<Rightarrow> llama_kv_cache \<Rightarrow> llama_memory_recurrent \<Rightarrow> bool" where
  "same_config a m a' m' \<longleftrightarrow> kv_n_stream a' = kv_n_stream a \<and> kv_seq_to_stream a' = kv_seq_to_stream a \<and> kv_swa_type a' = kv_swa_type a \<and> rs_size m' = rs_size m"

lemma mapped_config: "stream_mapped sz f st a a' \<Longrightarrow> rs_size m' = rs_size m \<Longrightarrow> same_config a m a' m'"
  by (auto simp: stream_mapped_def same_config_def)

lemma same_config_refl [simp]: "same_config a m a m"
  by (simp add: same_config_def)

section \<open>Removing a range\<close>

lemma rec_seq_rm_refused: "rec_seq_rm q p0 p1 m = Some (m', False) \<Longrightarrow> m' = m"
  by (auto simp: rec_seq_rm_def Let_def split: if_splits Option.bind_splits)

text \<open>The recurrent memory refuses to forget the last position without the first.\<close>

definition rm_refused :: "llama_pos \<Rightarrow> llama_pos \<Rightarrow> llama_pos set \<Rightarrow> bool" where
  "rm_refused p0 p1 P \<longleftrightarrow> 0 < p0 \<and> P \<noteq> {} \<and> p0 \<le> Max P \<and> Max P < clamp_p1 p1"

lemma rm_last_state:
  assumes "finite P" "\<forall>p \<in> P. 0 \<le> p" "last_state P e" "\<not> rm_refused p0 p1 P"
  shows "last_state (P - {clamp_p0 p0..<clamp_p1 p1}) (if rm_hits p0 p1 e \<and> \<not> 0 < p0 then None else e)"
proof (cases e)
  case None
  then show ?thesis using assms by (simp add: rm_hits_def)
next
  case (Some pt)
  let ?R = "{clamp_p0 p0..<clamp_p1 p1}"
  obtain t where e: "e = Some (Max P, t)" "P \<noteq> {}" using assms(3) Some by (cases pt) simp
  show ?thesis
  proof (cases "rm_hits p0 p1 e")
    case True
    then have hit: "clamp_p0 p0 \<le> Max P" "Max P < clamp_p1 p1" by (simp_all add: rm_hits_def e)
    then have p0: "\<not> 0 < p0" using assms(4) e(2) by (auto simp: rm_refused_def clamp_p0_def)
    then have "clamp_p0 p0 = 0" by (simp add: clamp_p0_def)
    then have "P - ?R = {}" using hit assms(1,2) e(2) by (auto dest: Max_ge)
    then show ?thesis using True p0 by simp
  next
    case False
    then have "Max P \<in> P - ?R" using e assms(1) by (auto simp: rm_hits_def)
    then have "P - ?R \<noteq> {}" "Max (P - ?R) = Max P"
      using assms(1) by (auto intro!: Max_eqI)
    then show ?thesis using False e assms(1) by simp
  qed
qed

lemma rm_in_step:
  fixes p0 p1 :: llama_pos
  assumes a: "in_step sz a m" and q: "kv_seq_ok a q"
  defines "P \<equiv> kv_positions a q"
  defines "ok \<equiv> q < int (rs_size m) \<and> \<not> rm_refused p0 p1 P"
  shows "\<exists>m' a'. rec_seq_rm q p0 p1 m = Some (m', ok) \<and> (\<not> ok \<longrightarrow> m' = m) \<and>
    (ok \<longrightarrow> kv_seq_rm q p0 p1 a = Some (a', True) \<and> same_config a m a' m' \<and> in_step sz a' m' \<and> kv_seq_ok a' = kv_seq_ok a \<and> kv_positions a' = (kv_positions a)(q := P - {clamp_p0 p0..<clamp_p1 p1}))"
proof -
  note D = in_stepD[OF a]
  have q0: "0 \<le> q" using q by (simp add: kv_seq_ok_def)
  let ?e = "rec_at (rs_cells m) q"
  have nn: "\<forall>p \<in> P. 0 \<le> p" and fin: "finite P" unfolding P_def using kv_positions_nonneg[OF D(1) q] by auto
  have last: "last_state P ?e" unfolding P_def by (rule D(3)[OF q])
  from rec_seq_rm_ok[OF D(2) q0, of p0 p1] obtain m' where
    r: "rec_seq_rm q p0 p1 m = Some (m', q \<in> ids (rs_cells m) \<and> \<not> (rm_hits p0 p1 ?e \<and> 0 < p0))" and m': "rec_ok m'" "rs_size m' = rs_size m"
    and b: "becomes (rs_cells m) (if rm_hits p0 p1 ?e \<and> \<not> 0 < p0 then (rec_at (rs_cells m))(q := None) else rec_at (rs_cells m)) (rs_cells m')" by blast
  have "rm_hits p0 p1 ?e \<and> 0 < p0 \<longleftrightarrow> rm_refused p0 p1 P"
    using last by (cases ?e) (auto simp: rm_hits_def rm_refused_def clamp_p0_def)
  then have ok: "q \<in> ids (rs_cells m) \<and> \<not> (rm_hits p0 p1 ?e \<and> 0 < p0) \<longleftrightarrow> ok" using q0 rec_okD(4)[OF D(2)] by (auto simp: ok_def)
  from kv_seq_rm_spec[OF D(1) q, of p0 p1] obtain a' where
    s: "kv_seq_rm q p0 p1 a = Some (a', True)" "kv_ok sz a'" "kv_positions a' = (kv_positions a)(q := P - {clamp_p0 p0..<clamp_p1 p1})"
    unfolding P_def by blast
  have mp: "stream_mapped sz (rm_cell q (clamp_p0 p0) (clamp_p1 p1)) (kv_stream a q) a a'" using kv_seq_rm_mapped[OF D(1) q, of p0 p1] s(1) by auto
  note frame = stream_mappedD(4)[OF mp D(1) kv_okD(2)[OF D(1) q]] and cfg = mapped_config[OF mp m'(2)]
  have "in_step sz a' m'" if k: ok
  proof -
    have at: "rec_at (rs_cells m') = (if rm_hits p0 p1 ?e \<and> \<not> 0 < p0 then (rec_at (rs_cells m))(q := None) else rec_at (rs_cells m))"
      using becomesD(4)[OF b] .
    have nr: "\<not> rm_refused p0 p1 P" using k by (simp add: ok_def)
    have "last_state (kv_positions a' t) (rec_at (rs_cells m') t)" if t: "kv_seq_ok a t" for t
      using rm_last_state[OF fin nn last nr] D(3)[OF t] by (cases "t = q"; cases "rm_hits p0 p1 ?e"; cases "0 < p0") (simp_all add: at s(3))
    then show ?thesis using s(2) m'(1) by (simp add: in_step_def follows_def frame)
  qed
  then show ?thesis using r s cfg frame rec_seq_rm_refused unfolding ok by auto
qed

section \<open>Operations on both halves\<close>

text \<open>
  \<open>f\<close> on a cache and \<open>g\<close> on the recurrent memory, called as \<open>pre\<close> asks, run without a failed assertion and keep
  the two in step.  The caches of one memory have the same sequences.
\<close>

locale paired_op =
  fixes f :: "llama_kv_cache \<Rightarrow> llama_kv_cache option" and g :: "llama_memory_recurrent \<Rightarrow> llama_memory_recurrent option"
    and pre :: "llama_kv_cache \<Rightarrow> llama_memory_recurrent \<Rightarrow> bool"
  assumes paired: "in_step sz a m \<Longrightarrow> pre a m \<Longrightarrow> \<exists>a' m'. f a = Some a' \<and> g m = Some m' \<and> in_step sz a' m' \<and> same_config a m a' m'"
begin

lemma both_ok:
  assumes "hybrid_ok sz h" "pre (hy_mem_attn h) (hy_mem_recr h)"
  shows "\<exists>h'. hybrid_both f g h = Some h' \<and> hybrid_ok sz h' \<and> same_config (hy_mem_attn h) (hy_mem_recr h) (hy_mem_attn h') (hy_mem_recr h')"
  using paired[of sz "hy_mem_attn h" "hy_mem_recr h"] assms by (auto simp: hybrid_ok_def hybrid_both_def)

lemma iswa_both_ok:
  assumes "hybrid_iswa_ok sz0 sz1 h" "pre (is_kv_base (hi_mem_attn h)) (hi_mem_recr h)" "pre (is_kv_swa (hi_mem_attn h)) (hi_mem_recr h)"
  shows "\<exists>h'. hybrid_iswa_both (iswa_both f) g h = Some h' \<and> hybrid_iswa_ok sz0 sz1 h'"
  using paired[of sz0 "is_kv_base (hi_mem_attn h)" "hi_mem_recr h"] paired[of sz1 "is_kv_swa (hi_mem_attn h)" "hi_mem_recr h"] assms
  by (auto simp: hybrid_iswa_ok_def hybrid_iswa_both_def iswa_both_def)

end

definition unified :: "llama_kv_cache \<Rightarrow> bool" where
  "unified a \<longleftrightarrow> kv_n_stream a = 1"

lemma unified_stream: "kv_ok sz a \<Longrightarrow> unified a \<Longrightarrow> kv_seq_ok a q \<Longrightarrow> kv_stream a q = 0"
  using kv_okD(2)[of sz a q] by (simp add: unified_def)

lemma in_stepI:
  assumes "kv_ok sz a'" "rec_ok m'" "kv_seq_ok a' = kv_seq_ok a" "\<And>q. kv_seq_ok a q \<Longrightarrow> last_state (kv_positions a' q) (rec_at (rs_cells m') q)"
  shows "in_step sz a' m'"
  using assms by (simp add: in_step_def follows_def)

text \<open>\<^verbatim>\<open>seq_keep\<close> of a unified cache drops every other sequence from both halves.\<close>

interpretation keep_op: paired_op "kv_seq_keep s" "\<lambda>m. Some (rec_seq_keep s m)" "\<lambda>a m. unified a \<and> kv_seq_ok a s" for s
proof
  fix sz a m
  assume a: "in_step sz a m" and pre: "unified a \<and> kv_seq_ok a s"
  note D = in_stepD[OF a] and st = unified_stream[OF in_stepD(1)[OF a]]
  from kv_seq_keep_mapped[OF D(1)] pre obtain a' where
    r: "kv_seq_keep s a = Some a'" "stream_mapped sz (cell_seq_keep s) (kv_stream a s) a a'" by blast
  note d = stream_mappedD[OF r(2) D(1) kv_okD(2)[OF D(1)]] and k = rec_seq_keep_ok[OF D(2), of s]
  have pos: "kv_positions a' q = (if q = s then kv_positions a s else {})" if "kv_seq_ok a q" for q
    using pre st[OF _ that] st[of s] d(2)[of q] by (simp add: keep_positions) (simp add: kv_positions_def)
  have "last_state (kv_positions a' q) (rec_at (rs_cells (rec_seq_keep s m)) q)" if q: "kv_seq_ok a q" for q
    using D(3)[OF q] by (auto simp: becomesD(4)[OF k(2)] pos[OF q])
  then have "in_step sz a' (rec_seq_keep s m)"
    using pre by (intro in_stepI[OF d(1) k(1) d(4)] placed_cells) auto
  then show "\<exists>a' m'. kv_seq_keep s a = Some a' \<and> Some (rec_seq_keep s m) = Some m' \<and> in_step sz a' m' \<and> same_config a m a' m'"
    using r(1) mapped_config[OF r(2) k(3)] by blast
qed

text \<open>A whole sequence is shared with one that has no positions yet.\<close>

definition cp_fits :: "llama_seq_id \<Rightarrow> llama_seq_id \<Rightarrow> llama_kv_cache \<Rightarrow> llama_memory_recurrent \<Rightarrow> bool" where
  "cp_fits src dst a m \<longleftrightarrow> unified a \<and> kv_seq_ok a src \<and> kv_seq_ok a dst \<and> src \<noteq> dst \<and> dst < int (rs_size m) \<and>
     kv_positions a dst = {} \<and> (\<forall>p \<in> kv_positions a src. p < INT32_MAX)"

interpretation cp_op: paired_op "kv_seq_cp src dst (-1) (-1)" "rec_seq_cp src dst (-1) (-1)" "cp_fits src dst" for src dst
proof
  fix sz a m
  assume a: "in_step sz a m" and pre: "cp_fits src dst a m"
  note D = in_stepD[OF a] and ids = rec_okD(4)[OF in_stepD(2)[OF a]]
  have v: "kv_seq_ok a src" "kv_seq_ok a dst" "src \<noteq> dst" "dst < int (rs_size m)" "kv_positions a dst = {}" "\<forall>p \<in> kv_positions a src. p < INT32_MAX"
    and uni: "unified a" using pre by (auto simp: cp_fits_def)
  note st = unified_stream[OF D(1) uni]
  have none: "\<forall>v \<in> set (view (kv_v_cells a ! kv_stream a src)). in_range (clamp_p0 (-1)) (clamp_p1 (-1)) v \<and> src \<in> v_seq v \<longrightarrow> dst \<notin> v_seq v"
    using v(5) st[OF v(1)] st[OF v(2)] by (auto simp: kv_positions_def seq_positions_def)
  from kv_seq_cp_mapped[OF D(1) v(1,2) _ v(3) none] st[OF v(1)] st[OF v(2)] obtain a' where
    r: "kv_seq_cp src dst (-1) (-1) a = Some a'" "stream_mapped sz (cp_cell src dst (clamp_p0 (-1)) (clamp_p1 (-1))) (kv_stream a src) a a'" by auto
  note d = stream_mappedD[OF r(2) D(1) kv_okD(2)[OF D(1) v(1)]]
  have all: "kv_positions a src \<inter> {clamp_p0 (-1)..<clamp_p1 (-1)} = kv_positions a src"
    using v(6) kv_positions_nonneg[OF D(1) v(1)] by (auto simp: clamp_p0_def clamp_p1_def)
  have pos: "kv_positions a' q = (if q = dst then kv_positions a src else kv_positions a q)" if "kv_seq_ok a q" for q
    using st[OF v(1)] st[OF v(2)] st[OF that] d(2)[of q] all v(5) by (simp add: cp_positions[OF v(3)]) (simp add: kv_positions_def)
  from rec_seq_cp_ok[OF D(2), of src dst "-1" "-1"] obtain m' where
    m': "rec_seq_cp src dst (-1) (-1) m = Some m'" "rec_ok m'"
      "becomes (rs_cells m) (if src \<in> ids (rs_cells m) \<and> dst \<in> ids (rs_cells m) then (rec_at (rs_cells m))(dst := rec_at (rs_cells m) src)
         else rec_at (rs_cells m)) (rs_cells m')" "rs_size m' = rs_size m" by blast
  have dst: "dst \<in> ids (rs_cells m)" using v(2,4) ids by (auto simp: kv_seq_ok_def)
  have src: "rec_at (rs_cells m) src = None" if "src \<notin> ids (rs_cells m)" using that by (auto simp: rec_at_def)
  have "rec_at (rs_cells m) dst = None" using D(3)[OF v(2)] v(5) by (cases "rec_at (rs_cells m) dst") auto
  then have at: "rec_at (rs_cells m') = (rec_at (rs_cells m))(dst := rec_at (rs_cells m) src)"
    using becomesD(4)[OF m'(3)] dst src by (auto simp: fun_upd_idem)
  have "last_state (kv_positions a' q) (rec_at (rs_cells m') q)" if q: "kv_seq_ok a q" for q
    using D(3)[OF q] D(3)[OF v(1)] by (simp add: at pos[OF q])
  then have "in_step sz a' m'"
    using v(2) st[OF v(1)] st[OF v(2)] by (intro in_stepI[OF d(1) m'(2) d(4)] placed_cells) auto
  then show "\<exists>a' m'. kv_seq_cp src dst (-1) (-1) a = Some a' \<and> rec_seq_cp src dst (-1) (-1) m = Some m' \<and> in_step sz a' m' \<and> same_config a m a' m'"
    using r(1) m'(1) mapped_config[OF r(2) m'(4)] by blast
qed

section \<open>Clearing\<close>

lemma kv_clear_prefix:
  assumes "kv_ok sz kv" "n \<le> kv_n_stream kv"
  defines "kv' \<equiv> fold (\<lambda>s kv. kv_put s (cells_reset (kv_v_cells kv ! s)) 0 kv) [0..<n] kv"
  shows "kv_ok sz kv' \<and> kv_seq_ok kv' = kv_seq_ok kv \<and> kv_stream kv' = kv_stream kv \<and> kv_n_stream kv' = kv_n_stream kv \<and>
    kv_seq_to_stream kv' = kv_seq_to_stream kv \<and> kv_swa_type kv' = kv_swa_type kv \<and>
    (\<forall>q. kv_positions kv' q = (if kv_stream kv q < n then {} else kv_positions kv q))"
  unfolding kv'_def using assms(2)
proof (induction n)
  case 0
  then show ?case using assms(1) by simp
next
  case (Suc n)
  define kn where "kn = fold (\<lambda>s kv. kv_put s (cells_reset (kv_v_cells kv ! s)) 0 kv) [0..<n] kv"
  have IH: "kv_ok sz kn" "kv_seq_ok kn = kv_seq_ok kv" "kv_stream kn = kv_stream kv" "kv_n_stream kn = kv_n_stream kv"
    "kv_seq_to_stream kn = kv_seq_to_stream kv" "kv_swa_type kn = kv_swa_type kv" "\<And>q. kv_positions kn q = (if kv_stream kv q < n then {} else kv_positions kv q)" using Suc by (simp_all add: kn_def)
  have n: "n < kv_n_stream kn" using Suc.prems IH(4) by simp
  note st = kv_okD(1)[OF IH(1) n]
  have w: "wf_cells (cells_reset (kv_v_cells kn ! n))" and v: "view (cells_reset (kv_v_cells kn ! n)) = replicate sz empty_cell"
    using cells_reset_wf[of "kv_v_cells kn ! n"] st by (simp_all add: stream_ok_def cells_size_def)
  have sz: "cells_size (cells_reset (kv_v_cells kn ! n)) = sz" using arg_cong[OF v, of length] by (simp add: cells_size_def)
  have ok: "kv_ok sz (kv_put n (cells_reset (kv_v_cells kn ! n)) 0 kn)"
    by (rule kv_put_ok[OF IH(1) n w sz]) (auto simp: v placed_def empty_cell_def)
  have "kv_positions (kv_put n (cells_reset (kv_v_cells kn ! n)) 0 kn) q = (if kv_stream kv q < Suc n then {} else kv_positions kv q)" for q
    using kv_positions_put[OF IH(1) n, of "cells_reset (kv_v_cells kn ! n)" 0 q]
    by (auto simp: IH v seq_positions_def empty_cell_def less_Suc_eq)
  then show ?case using ok IH(2-6) by (simp add: kn_def)
qed

lemma kv_data_frame:
  "kv_ok sz (kv\<lparr>kv_data := d\<rparr>) = kv_ok sz kv" "kv_positions (kv\<lparr>kv_data := d\<rparr>) = kv_positions kv" "kv_seq_ok (kv\<lparr>kv_data := d\<rparr>) = kv_seq_ok kv"
  by (simp_all add: kv_ok_def stream_ok_def placed_def kv_seq_ok_def kv_stream_def kv_positions_def fun_eq_iff)

lemma kv_clear_ok:
  assumes "kv_ok sz kv"
  shows "kv_ok sz (kv_clear data kv)" "kv_seq_ok (kv_clear data kv) = kv_seq_ok kv" "kv_seq_ok kv q \<Longrightarrow> kv_positions (kv_clear data kv) q = {}"
    "kv_n_stream (kv_clear data kv) = kv_n_stream kv \<and> kv_seq_to_stream (kv_clear data kv) = kv_seq_to_stream kv \<and> kv_swa_type (kv_clear data kv) = kv_swa_type kv"
  using kv_clear_prefix[OF assms order_refl] kv_okD(2)[OF assms, of q] by (auto simp: kv_clear_def Let_def kv_data_frame)

lemma clear_in_step:
  assumes "in_step sz a m"
  shows "in_step sz (kv_clear data a) (rec_clear data m)" "same_config a m (kv_clear data a) (rec_clear data m)"
proof -
  note D = in_stepD[OF assms] and c = rec_clear_ok[OF in_stepD(2)[OF assms], of data]
  show "same_config a m (kv_clear data a) (rec_clear data m)" using kv_clear_ok(4)[OF D(1), of data] c(3) by (simp add: same_config_def)
  show "in_step sz (kv_clear data a) (rec_clear data m)"
    using kv_clear_ok(3)[OF D(1)] by (intro in_stepI[OF kv_clear_ok(1)[OF D(1)] c(1) kv_clear_ok(2)[OF D(1)]]) (simp add: becomesD(4)[OF c(2)])
qed

section \<open>Positions\<close>

lemma in_step_pos_max:
  assumes "in_step sz a m" "kv_seq_ok a q"
  shows "kv_seq_pos_max q a = Some (rec_seq_pos_max q m)"
proof -
  have ok: "kv_ok sz a" and f: "follows (kv_seq_ok a) (kv_positions a) m" using assms(1) by (simp_all add: in_step_def)
  show ?thesis
    using cells_seq_pos_max_ok[OF kv_ok_stream(1)[OF ok assms(2)] kv_okD(3)[OF ok assms(2)]] follows_pos_max[OF f assms(2)] assms(2)
    by (simp add: kv_seq_pos_max_def kv_positions_def)
qed

section \<open>The operations of the hybrid memories\<close>

lemma hybrid_seq_rm_spec:
  assumes "hybrid_ok sz h" "kv_seq_ok (hy_mem_attn h) q"
  shows "\<exists>h' ok. hybrid_seq_rm q p0 p1 h = Some (h', ok) \<and> hybrid_ok sz h' \<and> same_config (hy_mem_attn h) (hy_mem_recr h) (hy_mem_attn h') (hy_mem_recr h') \<and>
    (ok \<longleftrightarrow> q < int (rs_size (hy_mem_recr h)) \<and> \<not> rm_refused p0 p1 (kv_positions (hy_mem_attn h) q)) \<and>
    (if ok then kv_positions (hy_mem_attn h') = (kv_positions (hy_mem_attn h))(q := kv_positions (hy_mem_attn h) q - {clamp_p0 p0..<clamp_p1 p1}) else h' = h)"
proof -
  from rm_in_step[OF assms(1)[unfolded hybrid_ok_def] assms(2), of p0 p1] obtain m' r a' where
    r: "rec_seq_rm q p0 p1 (hy_mem_recr h) = Some (m', r)" "r \<longleftrightarrow> q < int (rs_size (hy_mem_recr h)) \<and> \<not> rm_refused p0 p1 (kv_positions (hy_mem_attn h) q)"
      "\<not> r \<longrightarrow> m' = hy_mem_recr h" "r \<longrightarrow> kv_seq_rm q p0 p1 (hy_mem_attn h) = Some (a', True) \<and> in_step sz a' m' \<and> same_config (hy_mem_attn h) (hy_mem_recr h) a' m' \<and>
        kv_positions a' = (kv_positions (hy_mem_attn h))(q := kv_positions (hy_mem_attn h) q - {clamp_p0 p0..<clamp_p1 p1})" by blast
  have "hybrid_seq_rm q p0 p1 h = Some (if r then h\<lparr>hy_mem_attn := a', hy_mem_recr := m'\<rparr> else h, r)"
    using r by (cases r) (simp_all add: hybrid_seq_rm_def)
  then show ?thesis using r assms(1) by (intro exI conjI) (assumption | simp add: hybrid_ok_def)+
qed

lemma hybrid_keep_ok:
  "hybrid_ok sz h \<Longrightarrow> unified (hy_mem_attn h) \<Longrightarrow> kv_seq_ok (hy_mem_attn h) q \<Longrightarrow> \<exists>h'. hybrid_seq_keep q h = Some h' \<and> hybrid_ok sz h' \<and> same_config (hy_mem_attn h) (hy_mem_recr h) (hy_mem_attn h') (hy_mem_recr h')"
  unfolding hybrid_seq_keep_def by (rule keep_op.both_ok) auto

lemma hybrid_cp_ok:
  "hybrid_ok sz h \<Longrightarrow> cp_fits src dst (hy_mem_attn h) (hy_mem_recr h) \<Longrightarrow> \<exists>h'. hybrid_seq_cp src dst (-1) (-1) h = Some h' \<and> hybrid_ok sz h' \<and> same_config (hy_mem_attn h) (hy_mem_recr h) (hy_mem_attn h') (hy_mem_recr h')"
  unfolding hybrid_seq_cp_def by (rule cp_op.both_ok)

lemma hybrid_clear_ok:
  assumes "hybrid_ok sz h"
  shows "hybrid_ok sz (hybrid_clear data h)"
    "same_config (hy_mem_attn h) (hy_mem_recr h) (hy_mem_attn (hybrid_clear data h)) (hy_mem_recr (hybrid_clear data h))"
  using clear_in_step[OF assms[unfolded hybrid_ok_def], of data] by (simp_all add: hybrid_ok_def hybrid_clear_def)

text \<open>
  C36.  Removing a range from a hybrid memory never aborts and keeps its halves in step.  It is refused exactly
  when the recurrent memory has no such sequence or would have to go back to an earlier position (the
  range covers the last position but not the first), and then nothing has changed; otherwise the
  sequence loses the positions of the range and every other sequence keeps its own.
\<close>

theorem hybrid_seq_rm_in_step:
  assumes "hybrid_ok sz h" "kv_seq_ok (hy_mem_attn h) q"
  shows "\<exists>h' ok. hybrid_seq_rm q p0 p1 h = Some (h', ok) \<and> hybrid_ok sz h' \<and>
    (ok \<longleftrightarrow> q < int (rs_size (hy_mem_recr h)) \<and> \<not> rm_refused p0 p1 (kv_positions (hy_mem_attn h) q)) \<and>
    (if ok then kv_positions (hy_mem_attn h') = (kv_positions (hy_mem_attn h))(q := kv_positions (hy_mem_attn h) q - {clamp_p0 p0..<clamp_p1 p1}) else h' = h)"
  using hybrid_seq_rm_spec[OF assms] by blast

text \<open>
  C37.  The same for the hybrid memory with a sliding window.  Where the removal is accepted, the sequence
  loses the positions of the range in both caches of the attention half and every other sequence keeps
  its positions in both; where it is refused, nothing has changed.  Both caches stay in step with the
  recurrent memory, so that they end at the same position.
\<close>

theorem hybrid_iswa_seq_rm_in_step:
  assumes ok: "hybrid_iswa_ok sz0 sz1 h" and q: "kv_seq_ok (is_kv_base (hi_mem_attn h)) q" "kv_seq_ok (is_kv_swa (hi_mem_attn h)) q"
  shows "\<exists>h' ok. hybrid_iswa_seq_rm q p0 p1 h = Some (h', ok) \<and> hybrid_iswa_ok sz0 sz1 h' \<and>
    (ok \<longleftrightarrow> q < int (rs_size (hi_mem_recr h)) \<and> \<not> rm_refused p0 p1 (kv_positions (is_kv_base (hi_mem_attn h)) q)) \<and>
    (if ok then
       kv_positions (is_kv_base (hi_mem_attn h')) =
         (kv_positions (is_kv_base (hi_mem_attn h)))(q := kv_positions (is_kv_base (hi_mem_attn h)) q - {clamp_p0 p0..<clamp_p1 p1}) \<and>
       kv_positions (is_kv_swa (hi_mem_attn h')) =
         (kv_positions (is_kv_swa (hi_mem_attn h)))(q := kv_positions (is_kv_swa (hi_mem_attn h)) q - {clamp_p0 p0..<clamp_p1 p1})
     else h' = h) \<and>
    kv_seq_pos_max q (is_kv_base (hi_mem_attn h')) = kv_seq_pos_max q (is_kv_swa (hi_mem_attn h'))"
proof -
  let ?base = "is_kv_base (hi_mem_attn h)" and ?swa = "is_kv_swa (hi_mem_attn h)"
  have b: "in_step sz0 ?base (hi_mem_recr h)" and s: "in_step sz1 ?swa (hi_mem_recr h)" using ok by (simp_all add: hybrid_iswa_ok_def)
  from rm_in_step[OF b q(1), of p0 p1] obtain m' r base where
    r: "rec_seq_rm q p0 p1 (hi_mem_recr h) = Some (m', r)" "r \<longleftrightarrow> q < int (rs_size (hi_mem_recr h)) \<and> \<not> rm_refused p0 p1 (kv_positions ?base q)" "\<not> r \<longrightarrow> m' = hi_mem_recr h"
      "r \<longrightarrow> kv_seq_rm q p0 p1 ?base = Some (base, True) \<and> in_step sz0 base m' \<and> kv_seq_ok base = kv_seq_ok ?base \<and>
        kv_positions base = (kv_positions ?base)(q := kv_positions ?base q - {clamp_p0 p0..<clamp_p1 p1})" by blast
  from rm_in_step[OF s q(2), of p0 p1] r(1) obtain swa where
    w: "r \<longrightarrow> kv_seq_rm q p0 p1 ?swa = Some (swa, True) \<and> in_step sz1 swa m' \<and> kv_seq_ok swa = kv_seq_ok ?swa \<and>
        kv_positions swa = (kv_positions ?swa)(q := kv_positions ?swa q - {clamp_p0 p0..<clamp_p1 p1})" by auto
  show ?thesis
  proof (cases r)
    case True
    then have pm: "kv_seq_pos_max q base = kv_seq_pos_max q swa" using in_step_pos_max[of sz0 base m' q] in_step_pos_max[of sz1 swa m' q] r(4) w q by simp
    have "hybrid_iswa_seq_rm q p0 p1 h = Some (h\<lparr>hi_mem_recr := m', hi_mem_attn := (hi_mem_attn h)\<lparr>is_kv_base := base, is_kv_swa := swa\<rparr>\<rparr>, True)"
      using True r w by (simp add: hybrid_iswa_seq_rm_def iswa_seq_rm_def)
    then show ?thesis using True r w pm by (intro exI conjI) (assumption | simp add: hybrid_iswa_ok_def)+
  next
    case False
    then have "hybrid_iswa_seq_rm q p0 p1 h = Some (h, False)" using r by (simp add: hybrid_iswa_seq_rm_def)
    then show ?thesis using False r ok in_step_pos_max[OF b q(1)] in_step_pos_max[OF s q(2)] by (intro exI conjI) (assumption | simp)+
  qed
qed

section \<open>Concrete instances\<close>

text \<open>A recurrent memory in step with \<open>demo_kv\<close>: sequences 0 and 1 share the state at position 6, sequence 2 is at position 1.\<close>

definition demo_half_cells :: "mem_cell list" where
  "demo_half_cells = [mem_cell_new\<lparr>mc_tail := 2\<rparr>, mem_cell_new\<lparr>mc_tail := 2\<rparr>,
     \<lparr>mc_pos = 6, mc_src = 2, mc_src0 = 2, mc_tail = 3, mc_seq_id = {0, 1}\<rparr>,
     \<lparr>mc_pos = 1, mc_src = 3, mc_src0 = 3, mc_tail = -1, mc_seq_id = {2}\<rparr>]"

definition demo_half :: llama_memory_recurrent where
  "demo_half = demo_rec\<lparr>rs_cells := demo_half_cells\<rparr>"

lemma demo_half_ok: "rec_ok demo_half"
proof -
  have "busy demo_half_cells = {2, 3}" by (auto simp: busy_def demo_half_cells_def mem_cell_new_def less_Suc_eq numeral_eq_Suc)
  moreover have "cells_ok demo_half_cells" by code_simp
  ultimately show ?thesis by (simp add: rec_ok_def demo_half_def demo_rec_def) (simp add: demo_half_cells_def)
qed

lemma demo_in_step: "in_step 4 demo_kv demo_half"
proof (rule in_stepI[OF demo_kv_facts(1) demo_half_ok refl])
  fix q assume q: "kv_seq_ok demo_kv q"
  have c: "rs_cells demo_half = demo_half_cells" by (simp add: demo_half_def)
  have at: "rec_at demo_half_cells 0 = Some (6, 2)" "rec_at demo_half_cells 1 = Some (6, 2)" "rec_at demo_half_cells 2 = Some (1, 3)" "rec_at demo_half_cells 3 = None"
    by (simp_all add: rec_at_def demo_half_cells_def mem_cell_new_def)
  have len: "length demo_half_cells = 4" by (simp add: demo_half_cells_def)
  have none: "kv_positions demo_kv q = {}" if "q \<noteq> 0" "q \<noteq> 1" "q \<noteq> 2"
    using that q demo_kv_seqs[of q] by (auto simp: kv_positions_def seq_positions_UN cell_positions_def demo_kv_facts kv_seq_ok_def kv_stream_def)
  show "last_state (kv_positions demo_kv q) (rec_at (rs_cells demo_half) q)"
  proof (cases "q = 0 \<or> q = 1 \<or> q = 2")
    case True
    then show ?thesis using at by (auto simp: c demo_kv_positions)
  next
    case False
    then have "rec_at demo_half_cells q = None" using at(4) by (cases "q = 3") (auto simp: rec_at_def len)
    then show ?thesis using none False by (simp add: c)
  qed
qed

definition demo_hybrid :: llama_memory_hybrid where
  "demo_hybrid = \<lparr>hy_hparams = demo_hparams, hy_mem_attn = demo_kv, hy_mem_recr = demo_half\<rparr>"

lemma demo_hybrid_ok: "hybrid_ok 4 demo_hybrid" "hy_mem_attn demo_hybrid = demo_kv" "rs_size (hy_mem_recr demo_hybrid) = 4"
  using demo_in_step by (simp_all add: demo_hybrid_def hybrid_ok_def) (simp add: demo_half_def demo_rec_def)

lemma demo_rm: "rm_refused 6 (-1) {5, 6}" "\<not> rm_refused 5 6 {5, 6}"
  by (simp_all add: rm_refused_def clamp_p1_def INT32_MAX_def)

theorem hybrid_seq_rm_in_step_witness:
  "hybrid_seq_rm 0 6 (-1) demo_hybrid = Some (demo_hybrid, False) \<and>
   (\<exists>h'. hybrid_seq_rm 0 5 6 demo_hybrid = Some (h', True) \<and> hybrid_ok 4 h' \<and> kv_positions (hy_mem_attn h') 0 = {6} \<and> kv_positions (hy_mem_attn h') 1 = {6})"
proof -
  note d = demo_hybrid_ok
  have q: "kv_seq_ok (hy_mem_attn demo_hybrid) 0" using demo_kv_seqs[of 0] by (simp add: d)
  have "hybrid_seq_rm 0 6 (-1) demo_hybrid = Some (demo_hybrid, False)"
    using hybrid_seq_rm_in_step[OF d(1) q, of 6 "-1"] demo_rm(1) by (auto simp: d demo_kv_positions)
  moreover obtain h' where "hybrid_seq_rm 0 5 6 demo_hybrid = Some (h', True)" "hybrid_ok 4 h'"
    "kv_positions (hy_mem_attn h') = (kv_positions demo_kv)(0 := {5, 6} - {5..<6})"
    using hybrid_seq_rm_in_step[OF d(1) q, of 5 6] demo_rm(2) by (auto simp: d demo_kv_positions clamp_p0_def clamp_p1_def)
  ultimately show ?thesis by (auto simp: demo_kv_positions)
qed

text \<open>The same memory with both caches of the attention half holding the cells of \<open>demo_kv\<close>.\<close>

definition demo_hybrid_iswa :: llama_memory_hybrid_iswa where
  "demo_hybrid_iswa = \<lparr>hi_hparams = demo_hparams, hi_mem_attn = \<lparr>is_unified = True, is_kv_base = demo_kv, is_kv_swa = demo_kv\<rparr>,
     hi_mem_recr = demo_half\<rparr>"

theorem hybrid_iswa_seq_rm_in_step_witness:
  "hybrid_iswa_seq_rm 0 6 (-1) demo_hybrid_iswa = Some (demo_hybrid_iswa, False) \<and>
   (\<exists>h'. hybrid_iswa_seq_rm 0 5 6 demo_hybrid_iswa = Some (h', True) \<and> hybrid_iswa_ok 4 4 h' \<and>
     kv_positions (is_kv_base (hi_mem_attn h')) 0 = {6} \<and> kv_positions (is_kv_swa (hi_mem_attn h')) 0 = {6})"
proof -
  let ?h = demo_hybrid_iswa
  have d: "hybrid_iswa_ok 4 4 ?h" "is_kv_base (hi_mem_attn ?h) = demo_kv" "is_kv_swa (hi_mem_attn ?h) = demo_kv" "rs_size (hi_mem_recr ?h) = 4"
    using demo_in_step by (simp_all add: demo_hybrid_iswa_def hybrid_iswa_ok_def) (simp add: demo_half_def demo_rec_def)
  have q: "kv_seq_ok (is_kv_base (hi_mem_attn ?h)) 0" "kv_seq_ok (is_kv_swa (hi_mem_attn ?h)) 0" using demo_kv_seqs[of 0] by (simp_all add: d)
  have "hybrid_iswa_seq_rm 0 6 (-1) ?h = Some (?h, False)"
    using hybrid_iswa_seq_rm_in_step[OF d(1) q, of 6 "-1"] demo_rm(1) by (auto simp: d demo_kv_positions)
  moreover obtain h' where "hybrid_iswa_seq_rm 0 5 6 ?h = Some (h', True)" "hybrid_iswa_ok 4 4 h'"
    "kv_positions (is_kv_base (hi_mem_attn h')) = (kv_positions demo_kv)(0 := {5, 6} - {5..<6})"
    "kv_positions (is_kv_swa (hi_mem_attn h')) = (kv_positions demo_kv)(0 := {5, 6} - {5..<6})"
    using hybrid_iswa_seq_rm_in_step[OF d(1) q, of 5 6] demo_rm(2) by (auto simp: d demo_kv_positions clamp_p0_def clamp_p1_def)
  ultimately show ?thesis by auto
qed

text \<open>
  Sharing only a prefix puts the halves out of step: the attention cache copies the positions of the range,
  the recurrent memory the whole state.  After \<^verbatim>\<open>seq_cp(0, 3, 0, 6)\<close> sequence 3 ends at position 5 in one and at
  position 6 in the other.
\<close>

lemma hybrid_cp_prefix_out_of_step:
  "\<exists>h'. hybrid_seq_cp 0 3 0 6 demo_hybrid = Some h' \<and> kv_positions (hy_mem_attn h') 3 = {5} \<and> rec_seq_pos_max 3 (hy_mem_recr h') = 6"
proof -
  note q0 = demo_kv_seqs[of 0, simplified] and q3 = demo_kv_seqs[of 3, simplified]
  have c: "clamp_p0 0 = 0" "clamp_p1 6 = 6" by (simp_all add: clamp_p0_def clamp_p1_def)
  have none: "\<forall>v \<in> set (view (kv_v_cells demo_kv ! kv_stream demo_kv 0)). in_range (clamp_p0 0) (clamp_p1 6) v \<and> 0 \<in> v_seq v \<longrightarrow> 3 \<notin> v_seq v"
    using q0 by (simp add: demo_kv_facts(4))
  have st: "kv_stream demo_kv 0 = kv_stream demo_kv 3" using q0 q3 by simp
  from kv_seq_cp_mapped[OF demo_kv_facts(1) _ _ st _ none] q0 q3 obtain a' where
    a: "kv_seq_cp 0 3 0 6 demo_kv = Some a'" "stream_mapped 4 (cp_cell 0 3 (clamp_p0 0) (clamp_p1 6)) (kv_stream demo_kv 0) demo_kv a'" by auto
  have "kv_positions a' 3 = {5}"
    using stream_mappedD(2)[OF a(2) demo_kv_facts(1), of 3] q0 q3 demo_kv_facts(5) cp_positions[of 0 3 0 6 "view (kv_v_cells demo_kv ! 0)" 3]
    by (auto simp: c seq_positions_UN cell_positions_def demo_kv_facts(4))
  moreover have "case rec_seq_cp 0 3 0 6 demo_half of None \<Rightarrow> False | Some m \<Rightarrow> rec_seq_pos_max 3 m = 6" by code_simp
  ultimately show ?thesis using a(1) by (auto simp: hybrid_seq_cp_def hybrid_both_def demo_hybrid_def split: option.splits)
qed

end
