(* ===== verification/Hybrid_Decode.thy ===== *)
theory Hybrid_Decode
  imports Hybrid_Ops Kv_Restore
begin

text \<open>
  The life of a hybrid memory with a unified cache: from its construction on, batches are decoded, sequences
  removed, shared and kept, the memory cleared.  \<open>hybrid_step\<close> has these as steps; in every state reached the
  two halves are in step.
\<close>

section \<open>Processing the ubatches\<close>

fun hybrid_process :: "(llama_kv_cache \<Rightarrow> cell_data list list option) \<Rightarrow> nat \<Rightarrow> llama_kv_cache_context hybrid_context \<Rightarrow> llama_memory_hybrid \<Rightarrow> llama_memory_hybrid option" where
  "hybrid_process g 0 hc h = None"
| "hybrid_process g (Suc fuel) hc h = do {
     (hc, h, res) \<leftarrow> hybrid_context_apply g hc h;
     require res;
     (hc, more) \<leftarrow> hybrid_context_next hc;
     if more then hybrid_process g fuel hc h else Some h
   }"

text \<open>A context in the middle of the batch \<open>us\<close>, at ubatch \<open>i\<close>, with the slots \<open>sis\<close> of the attention cache.\<close>

definition context_at :: "slot_info list \<Rightarrow> llama_ubatch list \<Rightarrow> nat \<Rightarrow> llama_kv_cache_context hybrid_context \<Rightarrow> bool" where
  "context_at sis us i hc \<longleftrightarrow> hc_status hc = LLAMA_MEMORY_STATUS_SUCCESS \<and> hc_ubatches hc = us \<and> hc_i_next hc = i \<and>
     (\<exists>kc rc. hc_attn hc = Some kc \<and> hc_recr hc = Some rc \<and> kc_status kc = LLAMA_MEMORY_STATUS_SUCCESS \<and> kc_sinfos kc = sis \<and> kc_ubatches kc = us \<and> kc_i_cur kc = i \<and>
       rc_status rc = LLAMA_MEMORY_STATUS_SUCCESS \<and> rc_ubatches rc = us \<and> rc_i_next rc = i)"

lemma context_at_step:
  assumes "context_at sis us i hc" "i < length us" "apply_ubatch (sis ! i) (us ! i) (hy_mem_attn h) = Some a" "rec_find_slot (us ! i) (hy_mem_recr h) = Some (m, r)"
  shows "\<exists>hc' hc''. hybrid_context_apply g hc h = Some (hc', h\<lparr>hy_mem_attn := a, hy_mem_recr := m\<rparr>, True) \<and>
    hybrid_context_next hc' = Some (hc'', Suc i < length us) \<and> context_at sis us (Suc i) hc''"
proof -
  obtain kc rc where c: "hc_attn hc = Some kc" "hc_recr hc = Some rc" "kc_status kc = LLAMA_MEMORY_STATUS_SUCCESS" "kc_sinfos kc = sis" "kc_ubatches kc = us" "kc_i_cur kc = i"
    "rc_status rc = LLAMA_MEMORY_STATUS_SUCCESS" "rc_ubatches rc = us" "rc_i_next rc = i" "hc_status hc = LLAMA_MEMORY_STATUS_SUCCESS" "hc_ubatches hc = us" "hc_i_next hc = i"
    using assms(1) by (auto simp: context_at_def)
  have ne: "us \<noteq> []" using assms(2) by auto
  let ?kc = "kc\<lparr>kc_n_kv := kv_get_n_kv (sis ! i) a\<rparr>"
  let ?hc = "hc\<lparr>hc_attn := Some ?kc\<rparr>" and ?hc' = "hc\<lparr>hc_attn := Some (?kc\<lparr>kc_i_cur := Suc i\<rparr>), hc_recr := Some (rc\<lparr>rc_i_next := Suc i\<rparr>), hc_i_next := Suc i\<rparr>"
  have "context_apply g kc (hy_mem_attn h) = Some (?kc, a, True)" "rec_context_apply rc (hy_mem_recr h) = Some (m, True)"
    using c assms ne by (simp_all add: context_apply_def rec_context_apply_def llama_memory_status_is_fail_def)
  then have "hybrid_context_apply g hc h = Some (?hc, h\<lparr>hy_mem_attn := a, hy_mem_recr := m\<rparr>, True)"
    using c by (simp add: hybrid_context_apply_def llama_memory_status_is_fail_def)
  moreover have "hybrid_context_next ?hc = Some (?hc', Suc i < length us)"
    using c by (simp add: hybrid_context_next_def context_next_def rec_context_next_def Let_def not_le)
  moreover have "context_at sis us (Suc i) ?hc'" using c by (simp add: context_at_def)
  ultimately show ?thesis by blast
qed

lemma hybrid_process_replay:
  assumes "context_at sis us i hc" "i < length us" "length sis = length us"
    and "replay (drop i sis) (drop i us) (hy_mem_attn h) = Some a" "rec_replay (drop i us) (hy_mem_recr h) = Some m"
  shows "hybrid_process g (length us - i) hc h = Some (h\<lparr>hy_mem_attn := a, hy_mem_recr := m\<rparr>)"
  using assms(1,2,4,5)
proof (induction "length us - i" arbitrary: i hc h)
  case (Suc n)
  have d: "drop i sis = sis ! i # drop (Suc i) sis" "drop i us = us ! i # drop (Suc i) us"
    using Suc.prems(2) assms(3) by (simp_all add: Cons_nth_drop_Suc)
  have n: "length us - i = Suc (length us - Suc i)" using Suc.prems(2) by simp
  obtain a1 where a1: "apply_ubatch (sis ! i) (us ! i) (hy_mem_attn h) = Some a1" "replay (drop (Suc i) sis) (drop (Suc i) us) a1 = Some a"
    using Suc.prems(3) unfolding d by (auto simp: replay_def split: option.splits)
  obtain m1 r where m1: "rec_find_slot (us ! i) (hy_mem_recr h) = Some (m1, r)" "rec_replay (drop (Suc i) us) m1 = Some m"
    using Suc.prems(4) unfolding d by (auto simp: rec_replay_def split: option.splits)
  let ?h = "h\<lparr>hy_mem_attn := a1, hy_mem_recr := m1\<rparr>"
  from context_at_step[OF Suc.prems(1,2) a1(1) m1(1), of g] obtain hc' hc'' where
    s: "hybrid_context_apply g hc h = Some (hc', ?h, True)" "hybrid_context_next hc' = Some (hc'', Suc i < length us)" "context_at sis us (Suc i) hc''" by blast
  have step: "hybrid_process g (length us - i) hc h = (if Suc i < length us then hybrid_process g (length us - Suc i) hc'' ?h else Some ?h)"
    unfolding n using s by simp
  show ?case
  proof (cases "Suc i < length us")
    case True
    then show ?thesis using step Suc.hyps(1)[of "Suc i" hc'' ?h] Suc.hyps(2) s(3) a1(2) m1(2) by simp
  next
    case False
    then have "drop (Suc i) us = []" by simp
    then have "a = a1" "m = m1" using a1(2) m1(2) by (simp_all add: replay_def rec_replay_def)
    then show ?thesis using step False by simp
  qed
qed simp

section \<open>Decoding\<close>

text \<open>The positions a hybrid memory reports to \<^verbatim>\<open>llama_batch_allocr::init\<close>, for the sequences it has.\<close>

definition hybrid_view :: "llama_memory_hybrid \<Rightarrow> memory_view" where
  "hybrid_view h = \<lparr>mem_seq_pos_min = (\<lambda>q. the (hybrid_seq_pos_min q h)), mem_seq_pos_max = (\<lambda>q. the (hybrid_seq_pos_max q h))\<rparr>"

lemma hybrid_pos_max_ok:
  assumes "hybrid_ok sz h" "kv_seq_ok (hy_mem_attn h) q"
  shows "hybrid_seq_pos_max q h = Some (rec_seq_pos_max q (hy_mem_recr h))" "kv_seq_pos_max q (hy_mem_attn h) = Some (rec_seq_pos_max q (hy_mem_recr h))"
    "rec_seq_pos_max q (hy_mem_recr h) = (if kv_positions (hy_mem_attn h) q = {} then -1 else Max (kv_positions (hy_mem_attn h) q))"
proof -
  have st: "in_step sz (hy_mem_attn h) (hy_mem_recr h)" using assms(1) by (simp add: hybrid_ok_def)
  note p = in_step_pos_max[OF st assms(2)]
  then show "hybrid_seq_pos_max q h = Some (rec_seq_pos_max q (hy_mem_recr h))" "kv_seq_pos_max q (hy_mem_attn h) = Some (rec_seq_pos_max q (hy_mem_recr h))"
    by (simp_all add: hybrid_seq_pos_max_def)
  show "rec_seq_pos_max q (hy_mem_recr h) = (if kv_positions (hy_mem_attn h) q = {} then -1 else Max (kv_positions (hy_mem_attn h) q))"
    using st follows_pos_max[of "kv_seq_ok (hy_mem_attn h)" "kv_positions (hy_mem_attn h)" "hy_mem_recr h" q] assms(2) by (simp add: in_step_def)
qed

text \<open>The states of the invariant: \<open>n\<close> sequences, a unified cache of \<open>sz\<close> cells without window.\<close>

definition hybrid_inv :: "nat \<Rightarrow> nat \<Rightarrow> llama_memory_hybrid \<Rightarrow> bool" where
  "hybrid_inv n sz h \<longleftrightarrow> hybrid_ok sz h \<and> unified (hy_mem_attn h) \<and> kv_swa_type (hy_mem_attn h) = LLAMA_SWA_TYPE_NONE \<and>
     n \<le> length (kv_seq_to_stream (hy_mem_attn h)) \<and> n \<le> rs_size (hy_mem_recr h)"

lemma hybrid_invD:
  assumes "hybrid_inv n sz h"
  shows "hybrid_ok sz h" "in_step sz (hy_mem_attn h) (hy_mem_recr h)" "unified (hy_mem_attn h)" "0 \<le> q \<Longrightarrow> q < int n \<Longrightarrow> kv_seq_ok (hy_mem_attn h) q"
    "kv_swa_type (hy_mem_attn h) = LLAMA_SWA_TYPE_NONE" "n \<le> length (kv_seq_to_stream (hy_mem_attn h))" "n \<le> rs_size (hy_mem_recr h)"
  using assms by (auto simp: hybrid_inv_def hybrid_ok_def kv_seq_ok_def)

lemma hybrid_inv_config:
  assumes "hybrid_inv n sz h" "hybrid_ok sz h'" "same_config (hy_mem_attn h) (hy_mem_recr h) (hy_mem_attn h') (hy_mem_recr h')"
  shows "hybrid_inv n sz h'"
  using assms by (auto simp: hybrid_inv_def same_config_def unified_def)

lemma hybrid_view_bound:
  assumes "hybrid_inv n sz h" "0 \<le> q" "q < int n" "p \<in> kv_positions (hy_mem_attn h) q"
  shows "p \<le> mem_seq_pos_max (hybrid_view h) q \<and> 0 \<le> mem_seq_pos_max (hybrid_view h) q"
proof -
  note I = hybrid_invD[OF assms(1)]
  have q: "kv_seq_ok (hy_mem_attn h) q" by (rule I(4)[OF assms(2,3)])
  have "mem_seq_pos_max (hybrid_view h) q = Max (kv_positions (hy_mem_attn h) q)" using hybrid_pos_max_ok[OF I(1) q] assms(4) by (auto simp: hybrid_view_def)
  moreover have "p \<le> Max (kv_positions (hy_mem_attn h) q)" "0 \<le> p" using assms(4) kv_positions_nonneg[OF in_stepD(1)[OF I(2)] q] by auto
  ultimately show ?thesis by simp
qed

lemma context_at_start: "context_at sis us 0 (hybrid_context_batch sis us)"
  by (simp add: context_at_def hybrid_context_batch_def hybrid_context_of_def context_batch_def context_status_def rec_context_batch_def rec_context_status_def
      llama_memory_status_combine_def Let_def)

lemma decode_ok:
  assumes i: "batch_init b n_vocab (Some (hybrid_view h)) n_embd n output_all a0 = Some (a, True)" and n: "0 < n" "a_n_pos_per_embd a0 = 1"
    and b: "tokens_ok (a_batch a)" "one_seq (a_batch a)" "increasing (a_batch a)" and inv: "hybrid_inv n sz h"
  shows "\<exists>a' h1 hc. hybrid_init_batch a n_ubatch False h = Some (a', h1, hc) \<and> hybrid_inv n sz h1 \<and> hy_mem_attn h1 = hy_mem_attn h \<and>
    (if b_n_tokens (a_batch a) \<le> n_empty (hy_mem_attn h) 0
     then hc_status hc = LLAMA_MEMORY_STATUS_SUCCESS \<and> (\<exists>h'. hybrid_process g (length (hc_ubatches hc)) hc h1 = Some h' \<and> hybrid_inv n sz h' \<and>
       (\<forall>q. kv_seq_ok (hy_mem_attn h) q \<longrightarrow> kv_positions (hy_mem_attn h') q = kv_positions (hy_mem_attn h) q \<union> batch_positions (a_batch a) q))
     else hc_status hc = LLAMA_MEMORY_STATUS_FAILED_PREPARE)"
proof -
  let ?a = "hy_mem_attn h" and ?m = "hy_mem_recr h" and ?B = "batch_positions (a_batch a)"
  note I = hybrid_invD[OF inv] and ids = batch_init_ids[OF i n(1)]
  have kv: "kv_ok sz ?a" "kv_n_stream ?a = 1" and f: "follows (kv_seq_ok ?a) (kv_positions ?a) ?m" using I(2,3) by (auto simp: in_step_def unified_def)
  have np: "0 < a_n_pos_per_embd a0" "0 < a_n_pos_per_embd a" "a_n_seq_max a \<le> length (kv_seq_to_stream ?a)" using n(2) ids(2,4) I(6) by simp_all
  note aft = accepted_after(2)[OF i n b(1), of "kv_positions ?a", OF hybrid_view_bound[OF inv]]
  note pf = accepted_pieces(1)[OF i n(1) np(1) b]
  from accepted_pieces(2)[OF i n(1) np(1) b, of n_ubatch] obtain a' us ks where
    sp: "split_all (b_n_tokens (a_batch a) + 1) (split_equal n_ubatch True) a [] = Some (a', us)" "allocr_get_n_used a' = allocr_get_n_tokens a'"
      "covers a ks us" "distinct ks" "set ks = {0..<b_n_tokens (a_batch a)}" "pieces a us" "us \<noteq> []" by blast
  note cp = covers_placeable[OF kv np(3) b(1) ids(1) np(2) sp(3,5)] and cs = covers_positions[OF np(2) sp(3,5)]
  have tot: "sum_list (map u_n_tokens us) = b_n_tokens (a_batch a)" using cs(2) distinct_card[OF sp(4)] sp(5) by simp
  from pieces_prepare[OF sp(6) pf f I(7) aft] obtain m1 m' where
    m: "rec_prepare us ?m = Some (m1, True)" "rec_replay us m1 = Some m'" "rs_size m' = rs_size ?m" "follows (kv_seq_ok ?a) (kv_positions ?a) m1"
      "follows (kv_seq_ok ?a) (\<lambda>q. kv_positions ?a q \<union> ?B q) m'" "rs_cells m1 = rs_cells ?m" unfolding cs(1) by blast
  have sz1: "rs_size m1 = rs_size ?m" using rec_okD(4)[OF followsD(1)[OF m(4)]] rec_okD(4)[OF followsD(1)[OF f]] m(6) by simp
  from prepare_no_window[OF kv(1) I(5) cp sp(7)] kv(2) obtain sis where
    p: "prepare us ?a = Some (?a, sis)" "sis \<noteq> [] \<longleftrightarrow> b_n_tokens (a_batch a) \<le> n_empty ?a 0"
      "sis \<noteq> [] \<longrightarrow> length sis = length us \<and> (\<exists>kv1. replay sis us ?a = Some kv1 \<and> kv_ok sz kv1 \<and> same_shape ?a kv1 \<and>
      (\<forall>t. kv_seq_ok ?a t \<longrightarrow> kv_positions kv1 t = kv_positions ?a t \<union> ?B t))" unfolding tot cs(1) by auto
  let ?h1 = "h\<lparr>hy_mem_recr := m1\<rparr>" and ?hc = "if sis = [] then hybrid_context_status LLAMA_MEMORY_STATUS_FAILED_PREPARE else hybrid_context_batch sis us"
  have run: "hybrid_init_batch a n_ubatch False h = Some (a', ?h1, ?hc)"
    using sp(1,2) p(1) m(1) split_ready_reset[OF batch_init_ready[OF i]]
    by (simp add: hybrid_init_batch_def Let_def allocr_get_n_tokens_def del: split_all.simps)
  have ok1: "hybrid_ok sz ?h1" using kv(1) m(4) by (simp add: hybrid_ok_def in_step_def)
  have inv1: "hybrid_inv n sz ?h1" by (rule hybrid_inv_config[OF inv ok1]) (simp add: same_config_def sz1)
  show ?thesis
  proof (cases "sis = []")
    case True
    then show ?thesis using run inv1 p(2) by (intro exI[of _ a'] exI[of _ ?h1] exI[of _ ?hc]) (simp add: hybrid_context_status_def)
  next
    case False
    from p(3) False obtain kv1 where k: "length sis = length us" "replay sis us ?a = Some kv1" "kv_ok sz kv1" "same_shape ?a kv1"
      "\<forall>t. kv_seq_ok ?a t \<longrightarrow> kv_positions kv1 t = kv_positions ?a t \<union> ?B t" by blast
    let ?h' = "h\<lparr>hy_mem_attn := kv1, hy_mem_recr := m'\<rparr>"
    note at = context_at_start[of sis us]
    have run': "hybrid_process g (length us) (hybrid_context_batch sis us) ?h1 = Some ?h'"
      using hybrid_process_replay[OF at _ k(1), of ?h1 kv1 m' g] k(2) m(2) sp(7) by simp
    have "follows (kv_seq_ok kv1) (kv_positions kv1) m'" using m(5) k(5) by (simp add: follows_def same_shape_frame(4)[OF k(4)])
    then have ok': "hybrid_ok sz ?h'" using k(3) by (simp add: hybrid_ok_def in_step_def)
    have "same_config ?a ?m kv1 m'" using k(4) m(3) by (auto simp: same_shape_def same_config_def)
    then have "hybrid_inv n sz ?h'" by (intro hybrid_inv_config[OF inv ok']) simp
    moreover have "hc_ubatches (hybrid_context_batch sis us) = us" "hc_status (hybrid_context_batch sis us) = LLAMA_MEMORY_STATUS_SUCCESS"
      using at by (simp_all add: context_at_def)
    ultimately show ?thesis using run run' inv1 k(5) False p(2) by (intro exI[of _ a'] exI[of _ ?h1] exI[of _ ?hc]) auto
  qed
qed

text \<open>
  C38.  Decoding a batch with a hybrid memory with a unified cache without window, without embeddings for all
  tokens (\<^verbatim>\<open>embd_all = false\<close>, so that \<^verbatim>\<open>init_batch\<close> uses \<^verbatim>\<open>split_equal\<close>).  When \<^verbatim>\<open>init\<close> accepts the batch against the
  positions the memory reports, every token has one sequence and the positions of a sequence increase
  in the batch, \<^verbatim>\<open>init_batch\<close> never aborts and leaves the attention half as it was; it succeeds exactly
  when there is an empty cell for every token, and then processing all ubatches adds to every sequence
  exactly the positions of the batch and leaves the halves in step.
\<close>

theorem hybrid_decode:
  assumes "batch_init b n_vocab (Some (hybrid_view h)) n_embd n output_all a0 = Some (a, True)" "0 < n" "a_n_pos_per_embd a0 = 1"
    and "tokens_ok (a_batch a)" "one_seq (a_batch a)" "increasing (a_batch a)" "hybrid_inv n sz h"
  shows "\<exists>a' h1 hc. hybrid_init_batch a n_ubatch False h = Some (a', h1, hc) \<and> hybrid_inv n sz h1 \<and> hy_mem_attn h1 = hy_mem_attn h \<and>
    (if b_n_tokens (a_batch a) \<le> n_empty (hy_mem_attn h) 0
     then hc_status hc = LLAMA_MEMORY_STATUS_SUCCESS \<and> (\<exists>h'. hybrid_process g (length (hc_ubatches hc)) hc h1 = Some h' \<and> hybrid_inv n sz h' \<and>
       (\<forall>q. kv_seq_ok (hy_mem_attn h) q \<longrightarrow> kv_positions (hy_mem_attn h') q = kv_positions (hy_mem_attn h) q \<union> batch_positions (a_batch a) q))
     else hc_status hc = LLAMA_MEMORY_STATUS_FAILED_PREPARE)"
  by (rule decode_ok[OF assms])

section \<open>Reachable states\<close>

inductive hybrid_step :: "nat \<Rightarrow> llama_memory_hybrid \<Rightarrow> llama_memory_hybrid \<Rightarrow> bool" for n where
  step_clear: "hybrid_step n h (hybrid_clear data h)"
| step_rm: "0 \<le> q \<Longrightarrow> q < int n \<Longrightarrow> hybrid_seq_rm q p0 p1 h = Some (h', ok) \<Longrightarrow> hybrid_step n h h'"
| step_keep: "0 \<le> q \<Longrightarrow> q < int n \<Longrightarrow> hybrid_seq_keep q h = Some h' \<Longrightarrow> hybrid_step n h h'"
| step_cp: "0 \<le> src \<Longrightarrow> src < int n \<Longrightarrow> 0 \<le> dst \<Longrightarrow> dst < int n \<Longrightarrow> src \<noteq> dst \<Longrightarrow> kv_positions (hy_mem_attn h) dst = {} \<Longrightarrow>
    \<forall>p \<in> kv_positions (hy_mem_attn h) src. p < INT32_MAX \<Longrightarrow> hybrid_seq_cp src dst (-1) (-1) h = Some h' \<Longrightarrow> hybrid_step n h h'"
| step_decode: "batch_init b n_vocab (Some (hybrid_view h)) n_embd n output_all a0 = Some (a, True) \<Longrightarrow> 0 < n \<Longrightarrow> a_n_pos_per_embd a0 = 1 \<Longrightarrow>
    tokens_ok (a_batch a) \<Longrightarrow> one_seq (a_batch a) \<Longrightarrow> increasing (a_batch a) \<Longrightarrow> hybrid_init_batch a n_ubatch False h = Some (a', h1, hc) \<Longrightarrow>
    (if hc_status hc = LLAMA_MEMORY_STATUS_SUCCESS then hybrid_process g (length (hc_ubatches hc)) hc h1 = Some h' else h' = h1) \<Longrightarrow> hybrid_step n h h'"

lemma hybrid_step_inv:
  assumes "hybrid_step n h h'" "hybrid_inv n sz h"
  shows "hybrid_inv n sz h'"
  using assms
proof (induction rule: hybrid_step.induct)
  case (step_clear h data)
  note I = hybrid_invD[OF step_clear]
  show ?case by (rule hybrid_inv_config[OF step_clear hybrid_clear_ok[OF I(1)]])
next
  case (step_rm q p0 p1 h h' ok)
  note I = hybrid_invD[OF step_rm(4)]
  from hybrid_seq_rm_spec[OF I(1) I(4)[OF step_rm(1,2)], of p0 p1] step_rm(3) show ?case by (auto intro: hybrid_inv_config[OF step_rm(4)])
next
  case (step_keep q h h')
  note I = hybrid_invD[OF step_keep(4)]
  from hybrid_keep_ok[OF I(1,3) I(4)[OF step_keep(1,2)]] step_keep(3) show ?case by (auto intro: hybrid_inv_config[OF step_keep(4)])
next
  case (step_cp src dst h h')
  note I = hybrid_invD[OF step_cp(9)]
  have "cp_fits src dst (hy_mem_attn h) (hy_mem_recr h)"
    using step_cp(3-7) I(3,7) I(4)[OF step_cp(1,2)] I(4)[OF step_cp(3,4)] by (auto simp: cp_fits_def)
  from hybrid_cp_ok[OF I(1) this] step_cp(8) show ?case by (auto intro: hybrid_inv_config[OF step_cp(9)])
next
  case (step_decode b n_vocab h n_embd output_all a0 a n_ubatch a' h1 hc g h')
  from decode_ok[OF step_decode(1-6) step_decode(9), of n_ubatch g] step_decode(7,8) show ?case by (auto split: if_splits)
qed

lemma hybrid_new_inv:
  assumes "hybrid_new tt hp can_shift v_trans sz n_pad n_swa LLAMA_SWA_TYPE_NONE type_r type_s mem_size n True filter_attn filter_recr alloc = Some h"
    and "0 < n" "n \<le> LLAMA_MAX_SEQ" "n \<le> mem_size" "mem_size < 2 ^ 30"
  shows "hybrid_inv n sz h"
proof -
  obtain a m where k: "kv_new hp can_shift v_trans True sz n n_pad n_swa LLAMA_SWA_TYPE_NONE (alloc (hybrid_filter_attn hp filter_attn) sz) = Some a"
    and r: "rec_new tt hp type_r type_s mem_size n (Some (hybrid_filter_recr hp filter_recr)) = Some m"
    and h: "h = \<lparr>hy_hparams = hp, hy_mem_attn = a, hy_mem_recr = m\<rparr>"
    using assms(1) by (auto simp: hybrid_new_def split: Option.bind_splits)
  have "rec_ok m" "rec_at (rs_cells m) = (\<lambda>_. None)" using rec_new_ok[OF r] assms(2,4,5) by auto
  moreover have "rs_size m = mem_size" using r by (auto simp: rec_new_def split: Option.bind_splits)
  moreover have "kv_n_stream a = 1" "kv_seq_to_stream a = replicate LLAMA_MAX_SEQ 0" "kv_swa_type a = LLAMA_SWA_TYPE_NONE"
    using k by (auto simp: kv_new_def Let_def split: if_splits)
  ultimately show ?thesis using kv_new_ok[OF k assms(2,3)] assms(3,4)
    by (auto simp: hybrid_inv_def hybrid_ok_def in_step_def follows_def unified_def h)
qed

text \<open>
  C39.  In every state that a hybrid memory with a unified cache without window can reach from its construction
  by decoding accepted batches as in C38, removing ranges of sequences, sharing a whole sequence with an
  empty one, keeping one sequence or clearing, the two halves are in step: the attention half and the recurrent half
  report the same last position for every sequence, and it is the one the memory reports.
\<close>

theorem hybrid_reachable_in_step:
  assumes "hybrid_new tt hp can_shift v_trans sz n_pad n_swa LLAMA_SWA_TYPE_NONE type_r type_s mem_size n True filter_attn filter_recr alloc = Some h0"
    and "0 < n" "n \<le> LLAMA_MAX_SEQ" "n \<le> mem_size" "mem_size < 2 ^ 30" and "(hybrid_step n)\<^sup>*\<^sup>* h0 h" "0 \<le> q" "q < int n"
  shows "hybrid_ok sz h \<and> kv_seq_pos_max q (hy_mem_attn h) = Some (rec_seq_pos_max q (hy_mem_recr h)) \<and>
    hybrid_seq_pos_max q h = Some (rec_seq_pos_max q (hy_mem_recr h)) \<and>
    rec_seq_pos_max q (hy_mem_recr h) = (if kv_positions (hy_mem_attn h) q = {} then -1 else Max (kv_positions (hy_mem_attn h) q))"
proof -
  have "hybrid_inv n sz h" using assms(6)
  proof (induction rule: rtranclp_induct)
    case base
    show ?case by (rule hybrid_new_inv[OF assms(1-5)])
  next
    case (step y z)
    then show ?case by (blast intro: hybrid_step_inv)
  qed
  note I = hybrid_invD[OF this]
  show ?thesis using hybrid_pos_max_ok[OF I(1) I(4)[OF assms(7,8)]] I(1) by blast
qed

section \<open>Concrete instances\<close>

definition demo_hybrid_batch :: llama_batch where
  "demo_hybrid_batch = \<lparr>b_n_tokens = 1, b_token = Some [1], b_embd = None, b_pos = None, b_n_seq_id = Some [1], b_seq_id = Some [[2]], b_logits = None\<rparr>"

lemma demo_hybrid_init:
  "case batch_init demo_hybrid_batch 10 (Some (hybrid_view demo_hybrid)) 4 3 False (allocr_new 1) of None \<Rightarrow> False
   | Some (a, r) \<Rightarrow> r \<and> b_n_tokens (a_batch a) = 1 \<and> seq_ids (a_batch a) 0 = [2] \<and>
      the (b_pos (a_batch a)) = [2] \<and> the (b_n_seq_id (a_batch a)) = [1] \<and> map length (the (b_seq_id (a_batch a))) = [1]"
  by code_simp

theorem hybrid_decode_witness:
  "\<exists>a a' h1 hc h'. batch_init demo_hybrid_batch 10 (Some (hybrid_view demo_hybrid)) 4 3 False (allocr_new 1) = Some (a, True) \<and>
    hybrid_init_batch a 2 False demo_hybrid = Some (a', h1, hc) \<and> hc_status hc = LLAMA_MEMORY_STATUS_SUCCESS \<and>
    hybrid_process (\<lambda>_. None) (length (hc_ubatches hc)) hc h1 = Some h' \<and> hybrid_inv 3 4 h' \<and> kv_positions (hy_mem_attn h') 2 = {1, 2}"
proof -
  from demo_hybrid_init obtain a where a: "batch_init demo_hybrid_batch 10 (Some (hybrid_view demo_hybrid)) 4 3 False (allocr_new 1) = Some (a, True)"
    and b: "b_n_tokens (a_batch a) = 1" "seq_ids (a_batch a) 0 = [2]" "the (b_pos (a_batch a)) = [2]" "the (b_n_seq_id (a_batch a)) = [1]"
      "map length (the (b_seq_id (a_batch a))) = [1]" by (auto split: option.splits prod.splits)
  have "length (the (b_seq_id (a_batch a)) ! 0) = 1" using b(5) by auto
  then have tok: "tokens_ok (a_batch a)" "one_seq (a_batch a)" "increasing (a_batch a)"
    using b(1-4) by (auto simp: tokens_ok_def one_seq_def increasing_def)
  have bp: "batch_positions (a_batch a) 2 = {2}" using b(1-3) by (auto simp: batch_positions_def)
  have inv: "hybrid_inv 3 4 demo_hybrid"
    using demo_hybrid_ok demo_kv_facts by (simp add: hybrid_inv_def unified_def)
  have np: "a_n_pos_per_embd (allocr_new 1) = 1" by (simp add: allocr_new_def)
  have sq: "kv_seq_ok (hy_mem_attn demo_hybrid) 2" using demo_kv_seqs[of 2] by (simp add: demo_hybrid_ok)
  from hybrid_decode[OF a _ np tok inv, of 2 "\<lambda>_. None"] b(1) demo_empty obtain a' h1 hc h' where
    r: "hybrid_init_batch a 2 False demo_hybrid = Some (a', h1, hc)" "hc_status hc = LLAMA_MEMORY_STATUS_SUCCESS"
      "hybrid_process (\<lambda>_. None) (length (hc_ubatches hc)) hc h1 = Some h'" "hybrid_inv 3 4 h'"
      "\<forall>q. kv_seq_ok demo_kv q \<longrightarrow> kv_positions (hy_mem_attn h') q = kv_positions demo_kv q \<union> batch_positions (a_batch a) q"
    by (auto simp: demo_hybrid_ok)
  have "kv_positions (hy_mem_attn h') 2 = {1, 2}" using r(5) sq by (simp add: demo_hybrid_ok demo_kv_positions bp insert_commute)
  with a r(1-4) show ?thesis by blast
qed

text \<open>A model with an attention layer and a recurrent layer, freshly constructed, and a prompt of two tokens.\<close>

definition demo_hybrid_hparams :: llama_hparams where
  "demo_hybrid_hparams = demo_hparams\<lparr>hp_n_embd := 1, hp_wkv_head_size := 1, hp_token_shift_count := 1, hp_recurrent_layer_arr := [False, True]\<rparr>"

definition demo_new :: "llama_memory_hybrid option" where
  "demo_new = hybrid_new demo_traits demo_hybrid_hparams True False 4 1 0 LLAMA_SWA_TYPE_NONE 0 0 2 2 True None None (\<lambda>_ _. [replicate 4 [0]])"

lemma demo_new_ok: "case demo_new of None \<Rightarrow> False | Some h \<Rightarrow> rs_r_l (hy_mem_recr h) = [None, Some (0, [0, 0])]"
  by code_simp

lemma demo_fresh_init:
  "case batch_init (llama_batch_get_one [3, 1] 2) 10 (Some (hybrid_view (the demo_new))) 4 2 False (allocr_new 1) of None \<Rightarrow> False
   | Some (a, r) \<Rightarrow> r \<and> b_n_tokens (a_batch a) = 2 \<and>
      map (seq_ids (a_batch a)) [0, 1] = [[0], [0]] \<and> the (b_pos (a_batch a)) = [0, 1] \<and>
      the (b_n_seq_id (a_batch a)) = [1, 1] \<and> map length (the (b_seq_id (a_batch a))) = [1, 1]"
  by code_simp

lemma demo_decoded:
  obtains h0 h where "demo_new = Some h0" "hybrid_step 2 h0 h" "kv_positions (hy_mem_attn h) 0 = {0, 1}"
proof -
  obtain h0 where h0: "demo_new = Some h0" using demo_new_ok by (auto split: option.splits)
  have "the demo_new = h0" by (simp add: h0)
  from demo_fresh_init[unfolded this] obtain a where a: "batch_init (llama_batch_get_one [3, 1] 2) 10 (Some (hybrid_view h0)) 4 2 False (allocr_new 1) = Some (a, True)"
    and b: "b_n_tokens (a_batch a) = 2" "seq_ids (a_batch a) 0 = [0]" "seq_ids (a_batch a) 1 = [0]" "the (b_pos (a_batch a)) = [0, 1]"
      "the (b_n_seq_id (a_batch a)) = [1, 1]" "map length (the (b_seq_id (a_batch a))) = [1, 1]" by (auto split: option.splits prod.splits)
  have two: "i < 2 \<longleftrightarrow> i = 0 \<or> i = 1" for i :: nat by auto
  have "length (the (b_seq_id (a_batch a)) ! 0) = 1 \<and> length (the (b_seq_id (a_batch a)) ! 1) = 1"
    using b(6) by (cases "the (b_seq_id (a_batch a))"; cases "tl (the (b_seq_id (a_batch a)))") auto
  then have tok: "tokens_ok (a_batch a)" "one_seq (a_batch a)" "increasing (a_batch a)"
    unfolding tokens_ok_def one_seq_def increasing_def b(1) using b(2-5) by (auto simp: two)
  have "batch_positions (a_batch a) 0 = (\<lambda>i. the (b_pos (a_batch a)) ! i) ` {i. i < 2 \<and> 0 \<in> set (seq_ids (a_batch a) i)}"
    unfolding batch_positions_def b(1) by blast
  also have "{i. i < 2 \<and> 0 \<in> set (seq_ids (a_batch a) i)} = {0, 1}" using b(2,3) by (auto simp: two)
  finally have bp: "batch_positions (a_batch a) 0 = {0, 1}" by (simp add: b(4))
  have inv: "hybrid_inv 2 4 h0" by (rule hybrid_new_inv[OF h0[unfolded demo_new_def]]) (simp_all add: LLAMA_MAX_SEQ_def)
  have v: "kv_v_cells (hy_mem_attn h0) = [cells_resize 4 cells_new]"
    using h0 by (auto simp: demo_new_def hybrid_new_def kv_new_def Let_def split: Option.bind_splits)
  have "view (kv_v_cells (hy_mem_attn h0) ! 0) = replicate 4 empty_cell" by (simp add: v cells_resize_new(2))
  then have "{i. i < length (view (kv_v_cells (hy_mem_attn h0) ! 0)) \<and> v_pos (view (kv_v_cells (hy_mem_attn h0) ! 0) ! i) = -1} = {0..<4}" by auto
  then have e: "n_empty (hy_mem_attn h0) 0 = 4" by (simp add: n_empty_def del: length_view nth_view)
  have sq: "kv_seq_ok (hy_mem_attn h0) 0" by (rule hybrid_invD(4)[OF inv]) simp_all
  have none: "kv_positions (hy_mem_attn h0) 0 = {}"
    using unified_stream[OF in_stepD(1)[OF hybrid_invD(2)[OF inv]] hybrid_invD(3)[OF inv] sq] by (simp add: kv_positions_def v cells_resize_new(2) seq_positions_def)
  have np: "a_n_pos_per_embd (allocr_new 1) = 1" by (simp add: allocr_new_def)
  from decode_ok[OF a _ np tok inv, of 1 "\<lambda>_. None"] b(1) e obtain a' h1 hc h where
    r: "hybrid_init_batch a 1 False h0 = Some (a', h1, hc)" "hc_status hc = LLAMA_MEMORY_STATUS_SUCCESS"
      "hybrid_process (\<lambda>_. None) (length (hc_ubatches hc)) hc h1 = Some h"
      "\<forall>q. kv_seq_ok (hy_mem_attn h0) q \<longrightarrow> kv_positions (hy_mem_attn h) q = kv_positions (hy_mem_attn h0) q \<union> batch_positions (a_batch a) q" by auto
  have "hybrid_step 2 h0 h" by (rule step_decode[OF a _ np tok r(1)]) (use r(2,3) in simp_all)
  then show ?thesis using that[OF h0] r(4) sq none bp by simp
qed

theorem hybrid_reachable_in_step_witness:
  "\<exists>h0 h. demo_new = Some h0 \<and> (hybrid_step 2)\<^sup>*\<^sup>* h0 h \<and> kv_positions (hy_mem_attn h) 0 = {0, 1} \<and> hybrid_seq_pos_max 0 h = Some 1 \<and> rec_seq_pos_max 0 (hy_mem_recr h) = 1"
proof -
  obtain h0 h where h: "demo_new = Some h0" "hybrid_step 2 h0 h" "kv_positions (hy_mem_attn h) 0 = {0, 1}" by (rule demo_decoded)
  from hybrid_reachable_in_step[OF h(1)[unfolded demo_new_def] _ _ _ _ r_into_rtranclp[of "hybrid_step 2", OF h(2)], of 0]
  have "hybrid_seq_pos_max 0 h = Some 1 \<and> rec_seq_pos_max 0 (hy_mem_recr h) = 1" by (simp add: LLAMA_MAX_SEQ_def h(3))
  then show ?thesis using h by blast
qed

end
