(* ===== verification/Hybrid_State.thy ===== *)
theory Hybrid_State
  imports Hybrid_Ops Rec_Restore Kv_Restore
begin

text \<open>
  Saving and restoring a sequence of a hybrid memory: the attention half is written first, then the recurrent
  half, and read in the same order.  What was in step when it was saved is in step when it is restored.
\<close>

lemma io_first_Inr: "f (s, bs) = Inr (x, s', rest) \<Longrightarrow> io_first f ((s, t), bs) = Inr (x, (s', t), rest)"
  by (simp add: io_first_def)

lemma io_second_Inr: "f (t, bs) = Inr (x, t', rest) \<Longrightarrow> io_second f ((s, t), bs) = Inr (x, (s, t'), rest)"
  by (simp add: io_second_def)

text \<open>Whether a memory follows the positions depends only on the positions of its states.\<close>

lemma states_pos: "map_option fst (rec_states tt m q) = map_option fst (rec_at (rs_cells m) q)"
  by (cases "rec_at (rs_cells m) q") (auto simp: rec_states_def)

lemma last_state_pos: "map_option fst e = map_option fst e' \<Longrightarrow> last_state P e = last_state P e'"
  by (cases e; cases e') auto

lemma follows_restored:
  assumes "follows V P a" "follows W Q m" "rec_ok m'" "V q" "rec_states tt m' = (rec_states tt m)(d := rec_states tt a q)"
  shows "follows W (Q(d := P q)) m'"
proof -
  have "last_state ((Q(d := P q)) t) (rec_at (rs_cells m') t)" if t: "W t" for t
  proof -
    have pos: "map_option fst (rec_at (rs_cells m') t) = map_option fst (if t = d then rec_at (rs_cells a) q else rec_at (rs_cells m) t)"
      using assms(5) by (simp flip: states_pos[of tt])
    show ?thesis unfolding last_state_pos[OF pos] using followsD(2)[OF assms(1,4)] followsD(2)[OF assms(2) t] by simp
  qed
  then show ?thesis using assms(3) by (simp add: follows_def)
qed

text \<open>
  C40.  A sequence of a hybrid memory survives saving and restoring as another sequence of a memory with the
  same layout and enough room: writing and reading end without a failed assertion or an exception, all
  bytes written are used up, the destination sequence gets the positions of the attention half and the
  position and rows of the recurrent half, no other sequence changes, and the halves of the restored
  memory are in step when those of both memories were.
\<close>

theorem hybrid_state_seq_roundtrip:
  assumes a: "mem_ok tt sza a" "kv_seq_ok (m_kv a) s" "nat s < kv_n_seq_max (m_kv a)" "kv_positions (m_kv a) s \<noteq> {}"
    and b: "mem_ok tt szb b" "kv_seq_ok (m_kv b) d" "kv_swa_type (m_kv b) = LLAMA_SWA_TYPE_NONE" "n_pos_per_embd (kv_hparams (m_kv b)) < 3"
    and r: "rec_mem_ok tt ra" "rec_mem_ok tt rb" "rec_same_layout ra rb" "d < int (rs_size rb)" and lay: "same_layout a b"
    and step: "in_step sza (m_kv a) ra" "in_step szb (m_kv b) rb"
    and p: "\<forall>p \<in> kv_positions (m_kv a) s. p < INT32_MAX" "\<forall>p \<in> kv_positions (m_kv b) d. p < INT32_MAX"
    and room: "length (saved_cells s (kv_v_cells (m_kv a) ! kv_stream (m_kv a) s)) \<le> card (free_for (m_kv b) d)"
    and flags: "flags AND LLAMA_STATE_SEQ_FLAGS_PARTIAL_ONLY = 0"
  shows "\<exists>chunks b' rb'. hybrid_state_write tt s flags (a, ra) = Some chunks \<and> hybrid_state_read tt d flags ((b, rb), concat chunks @ rest) = Inr ((), (b', rb'), rest) \<and>
    kv_ok szb (m_kv b') \<and> (\<forall>t. kv_seq_ok (m_kv b) t \<longrightarrow> kv_positions (m_kv b') t = (if t = d then kv_positions (m_kv a) s else kv_positions (m_kv b) t)) \<and>
    rec_states tt rb' = (rec_states tt rb)(d := rec_states tt ra s) \<and> follows (kv_seq_ok (m_kv b)) (kv_positions (m_kv b')) rb'"
proof -
  have fa: "follows (kv_seq_ok (m_kv a)) (kv_positions (m_kv a)) ra" and fb: "follows (kv_seq_ok (m_kv b)) (kv_positions (m_kv b)) rb"
    using step by (simp_all add: in_step_def)
  have ids: "0 \<le> s" "d \<in> {0..<int (rs_size rb)}" using a(2) b(2) r(4) by (auto simp: kv_seq_ok_def)
  have lt: "p < INT32_MAX" if "last_state P (Some (p, t))" "\<forall>p \<in> P. p < INT32_MAX" for p t P using that by auto
  have pa: "\<forall>x t. rec_at (rs_cells ra) s = Some (x, t) \<longrightarrow> x \<le> INT32_MAX" using followsD(2)[OF fa a(2)] lt[OF _ p(1)] by (metis less_imp_le)
  have pb: "\<forall>x t. rec_at (rs_cells rb) d = Some (x, t) \<longrightarrow> x < INT32_MAX" using followsD(2)[OF fb b(2)] lt[OF _ p(2)] by metis
  from rec_seq_restored[OF r(1-3) ids pa pb, of rest] obtain c1 rb' where
    c1: "rec_state_write tt s ra = Some c1" "rec_state_read tt d (rb, concat c1 @ rest) = Inr ((), rb', rest)" "rec_mem_ok tt rb'"
      "rec_states tt rb' = (rec_states tt rb)(d := rec_states tt ra s)" by blast
  from seq_roundtrip[OF a b lay p room, of "concat c1 @ rest"] obtain c0 b' where
    c0: "state_write tt s a = Some c0" "state_read tt d (b, concat c0 @ concat c1 @ rest) = Inr (True, b', concat c1 @ rest)" "kv_ok szb (m_kv b')"
      "\<forall>t. kv_seq_ok (m_kv b) t \<longrightarrow> kv_positions (m_kv b') t = (if t = d then kv_positions (m_kv a) s else kv_positions (m_kv b) t)" by blast
  have "hybrid_state_write tt s flags (a, ra) = Some (c0 @ c1)" using c0(1) c1(1) flags by (simp add: hybrid_state_write_def)
  moreover have "hybrid_state_read tt d flags ((b, rb), concat (c0 @ c1) @ rest) = Inr ((), (b', rb'), rest)"
    using io_first_Inr[of "state_read tt d", OF c0(2), of rb] io_second_Inr[of "rec_state_read tt d", OF c1(2), of b'] flags by (simp add: hybrid_state_read_def io_bind_def)
  moreover have "follows (kv_seq_ok (m_kv b)) (kv_positions (m_kv b')) rb'"
    using follows_restored[OF fa fb _ a(2) c1(4)] c1(3) c0(4) by (auto simp: rec_mem_ok_def follows_def)
  ultimately show ?thesis using c0(3,4) c1(4) by blast
qed

section \<open>Evaluation\<close>

text \<open>Rows over the cells of \<^term>\<open>demo_half\<close>, and sequence 2 restored as sequence 3.\<close>

definition demo_half_mem :: llama_memory_recurrent where
  "demo_half_mem = demo_rec_mem\<lparr>rs_cells := demo_half_cells\<rparr>"

lemma demo_half_mem_ok: "rec_mem_ok demo_traits demo_half_mem" "in_step 4 (m_kv demo_mem) demo_half_mem" "rs_size demo_half_mem = 4"
  "rec_states demo_traits demo_half_mem 2 = Some (1, [Some [40]], [Some [80]])"
proof -
  have c: "rs_cells demo_half_mem = demo_half_cells" "rs_size demo_half_mem = 4" by (simp_all add: demo_half_mem_def demo_rec_mem_ok)
  show "rs_size demo_half_mem = 4" by (rule c(2))
  have ok: "rec_ok demo_half_mem" using demo_half_ok by (simp add: rec_ok_def demo_half_mem_def demo_half_def demo_rec_mem_def)
  have "fresh demo_cells = {}" by (auto simp: fresh_def demo_cells_def mem_cell_new_def nth_Cons split: nat.splits)
  moreover have "fresh demo_half_cells = {}" by (auto simp: fresh_def demo_half_cells_def mem_cell_new_def nth_Cons split: nat.splits)
  moreover have "r_size_row tt demo_half_mem = r_size_row tt demo_rec_mem" "s_size_row tt demo_half_mem = s_size_row tt demo_rec_mem" for tt
    by (simp_all add: demo_half_mem_def r_size_row_def s_size_row_def fun_eq_iff)
  then have "tensors_ok tt Z demo_half_mem = tensors_ok tt Z demo_rec_mem" for tt Z
    unfolding tensors_ok_def by (simp add: demo_half_mem_def)
  ultimately show "rec_mem_ok demo_traits demo_half_mem" using ok c demo_rec_mem_ok(1,3) by (simp add: rec_mem_ok_def)
  show "in_step 4 (m_kv demo_mem) demo_half_mem"
    using demo_in_step ok c(1) by (simp add: in_step_def follows_def demo_mem_def demo_half_def)
  have row: "r_size_row demo_traits demo_half_mem 0 = Some 1" "s_size_row demo_traits demo_half_mem 0 = Some 1"
    by (simp_all add: r_size_row_def s_size_row_def n_embd_r_def n_embd_s_def demo_half_mem_def demo_rec_mem_def ggml_row_size_def ggml_blck_size_def ggml_type_size_def demo_traits_def)
  have "rec_at demo_half_cells 2 = Some (1, 3)" by (simp add: rec_at_def demo_half_cells_def)
  then show "rec_states demo_traits demo_half_mem 2 = Some (1, [Some [40]], [Some [80]])"
    using row c by (simp add: rec_states_def) (simp add: demo_half_mem_def demo_rec_mem_def layer_row_def trow_def)
qed

lemma demo_room_3: "kv_seq_ok (m_kv demo_mem) 3" "kv_positions (m_kv demo_mem) 3 = {}" "free_for (m_kv demo_mem) 3 = free_for (m_kv demo_mem) 5"
proof -
  have m: "m_kv demo_mem = demo_kv" by (simp add: demo_mem_def)
  note q = demo_kv_seqs[of 3, simplified] demo_kv_seqs[of 5, simplified]
  show "kv_seq_ok (m_kv demo_mem) 3" using q by (simp add: m)
  show "kv_positions (m_kv demo_mem) 3 = {}" using q by (auto simp: m kv_positions_def seq_positions_UN cell_positions_def demo_kv_facts(4))
  show "free_for (m_kv demo_mem) 3 = free_for (m_kv demo_mem) 5"
    using q by (auto simp: m free_for_def Let_def demo_kv_facts(4) nth_Cons split: nat.splits simp del: length_view)
qed

theorem hybrid_state_seq_roundtrip_witness:
  "\<exists>chunks b' rb'. hybrid_state_write demo_traits 2 0 (demo_mem, demo_half_mem) = Some chunks \<and>
    hybrid_state_read demo_traits 3 0 ((demo_mem, demo_half_mem), concat chunks @ []) = Inr ((), (b', rb'), []) \<and>
    kv_positions (m_kv b') 3 = {1} \<and> rec_states demo_traits rb' 3 = Some (1, [Some [40]], [Some [80]])"
proof -
  note t = demo_transfer and h = demo_half_mem_ok and d = demo_room_3
  have p: "kv_positions (m_kv demo_mem) 2 \<noteq> {}" "\<forall>p \<in> kv_positions (m_kv demo_mem) 2. p < INT32_MAX" "\<forall>p \<in> kv_positions (m_kv demo_mem) 3. p < INT32_MAX"
    by (auto simp: t d INT32_MAX_def)
  have l: "rec_same_layout demo_half_mem demo_half_mem" "3 < int (rs_size demo_half_mem)" by (simp_all add: rec_same_layout_def h(3))
  have fl: "(0 :: u32) AND LLAMA_STATE_SEQ_FLAGS_PARTIAL_ONLY = 0" by simp
  from hybrid_state_seq_roundtrip[OF demo_mem_ok(1) t(1,2) p(1) demo_mem_ok(1) d(1) t(5,6) h(1,1) l demo_mem_ok(2) h(2,2) p(2,3) t(8)[folded d(3)] fl, of "[]"]
  show ?thesis using t(3) d(1) h(4) by (auto simp del: append_Nil2)
qed

end
