(* ===== verification/Spec2Isabelle.thy ===== *)
theory Spec2Isabelle
  imports Batch_Init Batch_Split Kv_Prepare Kv_Input Kv_Session Kv_Decode Iswa_Size Rec_Whole Hybrid_Decode Hybrid_State
begin

text \<open>
  A verification of the memory core of the llama.cpp tree under \<^verbatim>\<open>src/llama_cpp_repo\<close>: the code that
  takes a batch of tokens, splits it into micro-batches, finds cells for them in the memory of the
  model (a KV cache, a pair of KV caches, a recurrent memory, or a hybrid of these), computes what the
  graph needs to know about those cells, and saves and restores sequences.  Everything the rest of the
  program computes with (tensors, backends, samplers) sits on top of this bookkeeping, and an error in
  it makes a model attend to the wrong tokens without any visible failure.

  \<^bold>\<open>How the parts interact.\<close>  \<^verbatim>\<open>llama_context::decode\<close> hands a batch to \<^verbatim>\<open>llama_batch_allocr::init\<close>, which validates it
  against the positions the memory reports; the memory's \<^verbatim>\<open>init_batch\<close> splits it with one of the splitters of the
  allocator, does a dry run (\<^verbatim>\<open>prepare\<close>) and returns a context; the context's \<^verbatim>\<open>apply\<close> and \<^verbatim>\<open>next\<close> place one ubatch after
  the other, and the graph inputs (K rows, attention mask, state rows) are read from the memory in
  between.  The sequence operations of \<^verbatim>\<open>llama_memory_i\<close> act on the memory between batches.

  \<^bold>\<open>Batches and cells.\<close>
  \<^item> \<^theory_text>\<open>Prelude\<close>: assertions as the option monad, counted loops with their rules, \<^verbatim>\<open>std::map\<close> as a sorted
    association list, and 32-bit results (\<open>to_i32\<close>, \<open>to_u32\<close>).
  \<^item> \<^theory_text>\<open>Kv_Cells\<close> (\<^verbatim>\<open>src/llama-kv-cells.h\<close>): the cells of one stream with their positions, shifts and
    sequence sets, the set of used cells and the per-sequence index \<^verbatim>\<open>seq_pos\<close>.  The invariant
    \<open>wf_cells\<close> says that the index and the used set agree with the cells; every operation, with the
    snapshots of \<^verbatim>\<open>cp\<close> and their restoration by \<^verbatim>\<open>set\<close>, is shown to act on a plain list of cells (\<open>view\<close>)
    and to keep the invariant (C1, C2).
  \<^item> \<^theory_text>\<open>Hparams\<close> (\<^verbatim>\<open>src/llama-hparams.cpp\<close> and the window test of \<^verbatim>\<open>llama-hparams.h\<close>): derived sizes
    on 32-bit words, the sliding-window test (C3, C4).
  \<^item> \<^theory_text>\<open>Batch\<close> (\<^verbatim>\<open>src/llama-batch.cpp\<close>): \<^verbatim>\<open>llama_batch_allocr\<close>.  \<^theory_text>\<open>Batch_Split\<close> verifies the three
    splitters against one contract (locale \<open>batch_splitter\<close>; C5) and the shape of the ubatches of \<^verbatim>\<open>split_equal\<close>
    (C6), \<^theory_text>\<open>Batch_Init\<close> the positions that \<^verbatim>\<open>init\<close> generates and those it accepts (C7, C8).

  \<^bold>\<open>The KV cache.\<close>
  \<^item> \<^theory_text>\<open>Kv_Cache\<close> (\<^verbatim>\<open>src/llama-kv-cache.cpp\<close>, \<^verbatim>\<open>llama-memory.cpp\<close>): the cache with its streams and heads,
    the sequence operations, \<^verbatim>\<open>find_slot\<close>, \<^verbatim>\<open>apply_ubatch\<close>, \<^verbatim>\<open>prepare\<close>, \<^verbatim>\<open>init_batch\<close>, \<^verbatim>\<open>update\<close> and the
    context that drives them.
  \<^item> \<^theory_text>\<open>Kv_Seq\<close>: the sequence operations as passes over cells (locale \<open>cell_pass\<close>), the invariant \<open>kv_ok\<close>
    and the abstract state \<open>kv_positions\<close>, the set of positions of every sequence (C9 to C14); the copy
    between streams cell by cell (C15).
  \<^item> \<^theory_text>\<open>Kv_Slot\<close>: \<^verbatim>\<open>find_slot\<close> equals a reference search (C16).  \<^theory_text>\<open>Kv_Apply\<close> and \<^theory_text>\<open>Kv_Prepare\<close>: placing
    tokens, each in its own cell of the slot, and the dry run with its restoration of the cells (C17, C18).  \<^theory_text>\<open>Kv_Swa\<close> and \<^theory_text>\<open>Kv_Window\<close>: the same
    for caches with a sliding window, where masked cells are reused and purged (C25, C26).
  \<^item> \<^theory_text>\<open>Kv_Input\<close>: the graph inputs, in particular the attention mask with its row reuse (C19); the K rows
    are in this theory (C20).
  \<^item> \<^theory_text>\<open>Kv_Decode\<close>: from an accepted batch to the positions in a unified cache (C29).
  \<^item> \<^theory_text>\<open>Kv_Iswa\<close> (\<^verbatim>\<open>src/llama-kv-cache-iswa.cpp\<close>): the pair of a full cache and a window cache; \<^theory_text>\<open>Iswa_Size\<close>: the
    size chosen for the window cache, and that it is enough (C27, C28).

  \<^bold>\<open>Saving and restoring.\<close>
  \<^item> \<^theory_text>\<open>Io\<close> (\<^verbatim>\<open>src/llama-io.cpp\<close>, the readers and writers of \<^verbatim>\<open>llama-context.cpp\<close>): bytes, buffers, and reading as
    a monad whose results are a value, an exception with the state at that moment, or a failed assertion.
  \<^item> \<^theory_text>\<open>Kv_State\<close>: \<^verbatim>\<open>state_write\<close> and \<^verbatim>\<open>state_read\<close> of the KV cache with its tensors; \<^theory_text>\<open>Kv_Restore\<close>: the round trip of
    a sequence (C21); \<^theory_text>\<open>Kv_Session\<close>: the functions \<^verbatim>\<open>state_seq_*\<close> of the context on buffers and files, exact
    sizes, truncated input, sequence files (C22 to C24).

  \<^bold>\<open>The recurrent memory.\<close>
  \<^item> \<^theory_text>\<open>Recurrent\<close> (\<^verbatim>\<open>src/llama-memory-recurrent.cpp\<close>): cells, tails, the sequence operations, \<^verbatim>\<open>find_slot\<close> and the
    context.  \<^theory_text>\<open>Rec_Ops\<close>: the invariant \<open>rec_ok\<close> and the table \<open>rec_at\<close> of the position and the state cell of every
    sequence, which the operations refine (C30).
  \<^item> \<^theory_text>\<open>Rec_Slot\<close>, \<^theory_text>\<open>Rec_Find\<close>, \<^theory_text>\<open>Rec_Graph\<close>: \<^verbatim>\<open>find_slot\<close> phase by phase, and the moves of state rows by \<^verbatim>\<open>build_rs\<close> of
    \<^verbatim>\<open>src/llama-graph.cpp\<close>: the model reads and writes the states of the right sequences (C31); the abort
    after \<^verbatim>\<open>seq_rm(-1)\<close> (C32).  \<^theory_text>\<open>Rec_Decode\<close>: from an accepted batch to the last positions (C35).
  \<^item> \<^theory_text>\<open>Rec_State\<close>: \<^verbatim>\<open>state_write\<close> and \<^verbatim>\<open>state_read\<close> of the recurrent memory; \<^theory_text>\<open>Rec_Restore\<close> and \<^theory_text>\<open>Rec_Whole\<close>: the round
    trips of a sequence and of the whole memory (C33, C34; locale \<open>layer_list\<close> for the R and S tensors).

  \<^bold>\<open>The hybrid memories.\<close>
  \<^item> \<^theory_text>\<open>Hybrid\<close> (\<^verbatim>\<open>src/llama-memory-hybrid.cpp\<close>, \<^verbatim>\<open>src/llama-memory-hybrid-iswa.cpp\<close>): an attention cache and a recurrent
    memory behind one interface.  \<^theory_text>\<open>Hybrid_Ops\<close>: the two halves in step, and the contract of an operation
    on both (locale \<open>paired_op\<close>; C36, C37).  \<^theory_text>\<open>Hybrid_Decode\<close>: decoding, and the step relation whose reachable
    states are all in step (C38, C39).  \<^theory_text>\<open>Hybrid_State\<close>: the round trip of a sequence (C40).

  \<^bold>\<open>Reading the models.\<close>  A failed \<^verbatim>\<open>assert\<close> or \<^verbatim>\<open>GGML_ASSERT\<close> is \<^term>\<open>None\<close> (\<open>Aborted\<close> in a reader), so \<open>op s = Some s'\<close> also
  says that no assertion fires.  Derived model sizes, the size of the window cache and the counters \<^verbatim>\<open>used\<close> and
  \<^verbatim>\<open>n\<close> of the recurrent memory are 32-bit words.  Positions, tokens and sequence ids are \<open>int\<close>, sizes and indices
  \<open>nat\<close>; both are 32-bit in the code.  Where the code computes a new position (\<^verbatim>\<open>pos_add\<close>, \<^verbatim>\<open>pos_div\<close>, the
  recurrent \<^verbatim>\<open>seq_add\<close>, the copy between streams, the positions \<^verbatim>\<open>init\<close> generates, the length of a range of
  positions it checks) the result is brought back to 32 bits by \<open>to_i32\<close>, and so are the offsets that the
  code computes in 32 bits (rows of K and V, elements of a transposed V tensor) by \<open>to_u32\<close>.  Signed overflow
  is undefined in C++; the models wrap there, and the theorems that say what such an operation computes have
  the bound that excludes it as a hypothesis (C7, C8, C12, C15, C20, C21, C30).  A few
  expressions are exact instead: a position plus one in \<^verbatim>\<open>can_use\<close>, in the purge after \<^verbatim>\<open>apply_ubatch\<close>, in the
  check of \<^verbatim>\<open>init\<close> and in the range test of \<^verbatim>\<open>seq_cp\<close> between streams, and a position plus the window and 32
  where the mask records cells for reuse.  They are the code as long as positions stay below \<^verbatim>\<open>INT32_MAX\<close> by
  more than the window and 32.  Embeddings and the K/V data of the cache are opaque where the code only
  copies or clears them, and bytes in the theories on saving and restoring, where the element types of
  ggml are a parameter (\<open>traits\<close>).  \<^verbatim>\<open>LLAMA_LOG_*\<close> output and debug printing are left out.

  \<^bold>\<open>Loops.\<close>  The loops of the splitters that could in principle run on are functions with a termination
  proof, or take fuel: \<open>expand_loop\<close> gets the number of tokens plus one, \<open>split_all\<close> the number of
  tokens plus one, \<open>slot_loop\<close> twice the number of cells plus three.  The loops over the ubatches of a batch
  (\<open>process\<close>, \<open>rec_process\<close>, \<open>hybrid_process\<close>) get the number of ubatches.  The lemmas show in each case that
  this is enough: the runs return a result.

  \<^bold>\<open>Not modelled.\<close>  Tensor allocation and the building of compute graphs (\<^verbatim>\<open>get_k\<close>, \<^verbatim>\<open>cpy_k\<close>, \<^verbatim>\<open>build_graph_shift\<close> and
  the like; of \<^verbatim>\<open>llama-graph.cpp\<close> only \<^verbatim>\<open>build_rs\<close> as moves of rows): they describe computations on tensors that the
  backends carry out.  The K-shift graph is a parameter of \<open>kv_update\<close>, the relative position bucket (floating
  point) one of the graph inputs.  Of \<^verbatim>\<open>llama-context.cpp\<close> only the functions on sequence states and the part of
  the decode loop that drives the memory; the state of a whole context (logits, embeddings) is left out.
  The reports \<^verbatim>\<open>memory_breakdown\<close>.  Vocabularies and tokenizers, grammars, unicode, samplers, model loading,
  chat templates, ggml and its backends, tools and examples do not touch this bookkeeping and are outside.
  C17, C18 and C29 are about caches without sliding window, C25 and C26 about caches with one; C38 and C39
  about hybrid memories with a unified cache without window and batches with one sequence per token.  C35,
  C38 and C39 are about decoding without \<^verbatim>\<open>embd_all\<close>.
\<close>

section \<open>Where the K rows of a ubatch go\<close>

lemma kv_get_size_ok:
  assumes "kv_ok sz kv"
  shows "kv_get_size kv = sz"
proof -
  have "kv_seq_to_stream kv ! 0 < kv_n_stream kv" using assms by (auto simp: kv_ok_def)
  then show ?thesis using kv_okD(1)[OF assms] by (simp add: kv_get_size_def stream_ok_def)
qed

lemma stream_offset_u32:
  assumes "s < n" "n * sz \<le> 2 ^ 32"
  shows "to_u32 (s * sz) = s * sz"
proof (cases "sz = 0")
  case False
  have "s * sz < Suc s * sz" using False by simp
  also have "\<dots> \<le> n * sz" using assms(1) by (intro mult_right_mono) (auto simp: Suc_le_eq)
  finally show ?thesis using assms(2) by (intro to_u32_id) (rule less_le_trans)
qed (simp add: to_u32_def)

text \<open>The cells of the rows of a slot, numbered through all streams.\<close>

definition slot_rows :: "nat \<Rightarrow> slot_info \<Rightarrow> nat list" where
  "slot_rows sz si = concat (map (\<lambda>s. map (\<lambda>c. si_strm si ! s * sz + c) (si_idxs si ! s)) [0..<length (si_strm si)])"

lemma slot_rows_ok:
  assumes fit: "slot_fits sz kv si u n"
  shows "distinct (slot_rows sz si)" "length (slot_rows sz si) = u_n_tokens u" "k \<in> set (slot_rows sz si) \<Longrightarrow> k < kv_n_stream kv * sz"
proof -
  let ?row = "\<lambda>s. map (\<lambda>c. si_strm si ! s * sz + c) (si_idxs si ! s)" and ?k = "length (si_strm si)"
  have row: "\<And>s. s < ?k \<Longrightarrow> si_strm si ! s < kv_n_stream kv \<and> length (si_idxs si ! s) = n \<and> distinct (si_idxs si ! s) \<and> (\<forall>c \<in> set (si_idxs si ! s). c < sz)"
    and ds: "distinct (si_strm si)" and tot: "u_n_tokens u = ?k * n" using fit by (auto simp: slot_fits_def)
  show "distinct (slot_rows sz si)" unfolding slot_rows_def
  proof (rule distinct_concat_nth)
    fix s assume s: "s < length (map ?row [0..<?k])"
    then show "distinct (map ?row [0..<?k] ! s)" using row[of s] by (simp add: distinct_map inj_on_def)
    fix t assume t: "t < length (map ?row [0..<?k])" "s \<noteq> t"
    then have nst: "si_strm si ! s \<noteq> si_strm si ! t" using s ds by (simp add: nth_eq_iff_index_eq)
    have rng: "\<forall>c \<in> set (si_idxs si ! s). c < sz" "\<forall>c \<in> set (si_idxs si ! t). c < sz" using s t row[of s] row[of t] by auto
    have "set (?row s) \<inter> set (?row t) = {}"
    proof (rule ccontr)
      assume "set (?row s) \<inter> set (?row t) \<noteq> {}"
      then obtain c d where "c \<in> set (si_idxs si ! s)" "d \<in> set (si_idxs si ! t)" "si_strm si ! s * sz + c = si_strm si ! t * sz + d" by auto
      with rng stream_offset_inj[of c sz d "si_strm si ! s" "si_strm si ! t"] nst show False by blast
    qed
    then show "set (map ?row [0..<?k] ! s) \<inter> set (map ?row [0..<?k] ! t) = {}" using s t by simp
  qed
  have "map (length \<circ> ?row) [0..<?k] = map (\<lambda>_. n) [0..<?k]" using row by simp
  then show "length (slot_rows sz si) = u_n_tokens u" unfolding slot_rows_def length_concat map_map tot by (simp only:) (simp add: sum_list_triv)
  show "k < kv_n_stream kv * sz" if k: "k \<in> set (slot_rows sz si)"
  proof -
    from k obtain s c where s: "s < ?k" "c \<in> set (si_idxs si ! s)" "k = si_strm si ! s * sz + c" by (auto simp: slot_rows_def)
    have "k < Suc (si_strm si ! s) * sz" using s row[OF s(1)] by simp
    also have "\<dots> \<le> kv_n_stream kv * sz" using row[OF s(1)] by (intro mult_right_mono) (auto simp: Suc_le_eq)
    finally show ?thesis .
  qed
qed

text \<open>
  C20.  In a cache with at most 2^32 cells over all streams, the rows of the K tensor that the tokens of a
  placed ubatch are written to lie inside the tensor and are pairwise different, also across streams: row
  number \<open>s * n + i\<close> is cell \<open>i\<close> of row \<open>s\<close> of the slot, counted from the start of the stream of that
  row.  The bound is needed: the code multiplies stream and size as 32-bit numbers, so that in a larger
  cache the offset wraps and rows of different streams can coincide.
\<close>

theorem k_idxs_disjoint:
  assumes "kv_ok sz kv" "slot_fits sz kv si u n" "kv_n_stream kv * sz \<le> 2 ^ 32"
  shows "\<exists>idxs. set_input_k_idxs u si kv = Some idxs \<and> length idxs = u_n_tokens u \<and> distinct idxs \<and>
    (\<forall>k \<in> set idxs. k < kv_n_stream kv * sz) \<and>
    idxs = concat (map (\<lambda>s. map (\<lambda>c. si_strm si ! s * sz + c) (si_idxs si ! s)) [0..<length (si_strm si)])"
proof -
  let ?k = "length (si_strm si)"
  have fit: "\<And>s. s < ?k \<Longrightarrow> si_strm si ! s < kv_n_stream kv \<and> length (si_idxs si ! s) = n"
    and tot: "u_n_tokens u = ?k * n" and ne: "si_strm si \<noteq> []" "length (si_idxs si) = ?k"
    using assms(2) by (auto simp: slot_fits_def)
  have size: "slot_size si = Some n" using fit[of 0] ne by (auto simp: slot_size_def)
  have "map (\<lambda>i. to_u32 (si_strm si ! s * kv_get_size kv) + si_idxs si ! s ! i) [0..<n] = map (\<lambda>c. si_strm si ! s * sz + c) (si_idxs si ! s)" if "s < ?k" for s
    using fit[OF that] stream_offset_u32[OF _ assms(3)] by (intro nth_equalityI) (auto simp: kv_get_size_ok[OF assms(1)])
  then have rows: "map (\<lambda>s. map (\<lambda>i. to_u32 (si_strm si ! s * kv_get_size kv) + si_idxs si ! s ! i) [0..<n]) [0..<?k] =
      map (\<lambda>s. map (\<lambda>c. si_strm si ! s * sz + c) (si_idxs si ! s)) [0..<?k]" by (intro map_cong[OF refl]) simp
  have "set_input_k_idxs u si kv = Some (slot_rows sz si)"
    unfolding set_input_k_idxs_def slot_n_stream_def size slot_rows_def using tot arg_cong[OF rows, of concat]
    by (simp add: mult.commute[of n] del: map_eq_conv)
  with slot_rows_ok[OF assms(2)] show ?thesis unfolding slot_rows_def[symmetric] by blast
qed

theorem k_idxs_disjoint_witness:
  "\<exists>si idxs. find_slot demo_ubatch False demo_kv = Some si \<and> set_input_k_idxs demo_ubatch si demo_kv = Some idxs \<and> distinct idxs \<and> length idxs = 1"
proof -
  have u: "u_n_tokens demo_ubatch = 1" by (simp add: demo_ubatch_def)
  from find_slot_fits[OF demo_kv_facts(1,6) demo_placeable] demo_room obtain si where
    si: "find_slot demo_ubatch False demo_kv = Some si" "slot_fits 4 demo_kv si demo_ubatch (ubatch_n_tokens demo_kv demo_ubatch)" by auto
  from k_idxs_disjoint[OF demo_kv_facts(1) si(2)] demo_kv_facts(5) si(1) u show ?thesis by auto
qed

end
